(* ===== verification/Prelude.thy ===== *)
theory Prelude
  imports Main "HOL-Library.Word"
begin

text \<open>
  Shared vocabulary of the development.

  The machine integer types of the C sources, the error codes of
  \<^verbatim>\<open>include/magitrickle/err.h\<close> with the two functions of \<^verbatim>\<open>src/util/err.c\<close>, the 64-bit
  FNV-1a string hash that \<^verbatim>\<open>rules/match.c\<close> and \<^verbatim>\<open>dns_cache/cache.c\<close> both define, the two
  generic interfaces the components are stated against (a rule index and a transition
  system with an invariant), and the list lemmas used by several theories.

  A C string is the \<^typ>\<open>string\<close> of its bytes before the terminating NUL.
\<close>

unbundle bit_operations_syntax

type_synonym u8 = "8 word"
type_synonym u16 = "16 word"
type_synonym u32 = "32 word"
type_synonym u64 = "64 word"

named_theorems model_defs \<open>definitions unfolded by the component proofs\<close>
named_theorems inv_intros \<open>every operation keeps the invariant of its component\<close>

section \<open>Error codes\<close>

datatype mt_err =
    MT_OK | MT_ERR_NOMEM | MT_ERR_INVAL | MT_ERR_IO | MT_ERR_AGAIN | MT_ERR_LIMIT
  | MT_ERR_TIMEOUT | MT_ERR_CLOSED | MT_ERR_EXIST | MT_ERR_NOENT | MT_ERR_PROTO
  | MT_ERR_STATE | MT_ERR_SYS | MT_ERR_UPSTREAM | MT_ERR_CANCELED

fun mt_err_str :: "mt_err \<Rightarrow> string" where
  "mt_err_str MT_OK = ''ok''"
| "mt_err_str MT_ERR_NOMEM = ''out of memory''"
| "mt_err_str MT_ERR_INVAL = ''invalid argument''"
| "mt_err_str MT_ERR_IO = ''i/o error''"
| "mt_err_str MT_ERR_AGAIN = ''try again''"
| "mt_err_str MT_ERR_LIMIT = ''limit reached''"
| "mt_err_str MT_ERR_TIMEOUT = ''timeout''"
| "mt_err_str MT_ERR_CLOSED = ''closed''"
| "mt_err_str MT_ERR_EXIST = ''already exists''"
| "mt_err_str MT_ERR_NOENT = ''not found''"
| "mt_err_str MT_ERR_PROTO = ''protocol error''"
| "mt_err_str MT_ERR_STATE = ''invalid state''"
| "mt_err_str MT_ERR_SYS = ''system error''"
| "mt_err_str MT_ERR_UPSTREAM = ''upstream fetch failed''"
| "mt_err_str MT_ERR_CANCELED = ''canceled''"

text \<open>
  \<^verbatim>\<open>errno\<close> by name (the numbers differ between the router architectures); \<^verbatim>\<open>EWOULDBLOCK\<close> is
  \<^verbatim>\<open>EAGAIN\<close> on Linux, and every other value is \<open>E_OTHER\<close>.
\<close>

datatype c_errno =
    E_NONE | ENOMEM | EINVAL | EAGAIN | EINTR | ETIMEDOUT | EEXIST | ENOENT | ESRCH | EPROTO
  | EBADMSG | EPIPE | ECONNRESET | EIO | E_OTHER int

fun mt_err_from_errno :: "c_errno \<Rightarrow> mt_err" where
  "mt_err_from_errno E_NONE = MT_OK"
| "mt_err_from_errno ENOMEM = MT_ERR_NOMEM"
| "mt_err_from_errno EINVAL = MT_ERR_INVAL"
| "mt_err_from_errno EAGAIN = MT_ERR_AGAIN"
| "mt_err_from_errno EINTR = MT_ERR_AGAIN"
| "mt_err_from_errno ETIMEDOUT = MT_ERR_TIMEOUT"
| "mt_err_from_errno EEXIST = MT_ERR_EXIST"
| "mt_err_from_errno ENOENT = MT_ERR_NOENT"
| "mt_err_from_errno ESRCH = MT_ERR_NOENT"
| "mt_err_from_errno EPROTO = MT_ERR_PROTO"
| "mt_err_from_errno EBADMSG = MT_ERR_PROTO"
| "mt_err_from_errno EPIPE = MT_ERR_IO"
| "mt_err_from_errno ECONNRESET = MT_ERR_IO"
| "mt_err_from_errno EIO = MT_ERR_IO"
| "mt_err_from_errno (E_OTHER _) = MT_ERR_SYS"

section \<open>The FNV-1a string hash\<close>

definition fnv1a_step :: "char \<Rightarrow> u64 \<Rightarrow> u64" where
  "fnv1a_step c h = (h XOR of_char c) * 1099511628211"

definition fnv1a :: "string \<Rightarrow> u64" where
  "fnv1a s = fold fnv1a_step s 1469598103934665603"

section \<open>Interface: an index of rules\<close>

text \<open>
  What a rule index promises its client: adding a rule returns, and then the index matches
  exactly the names it matched before and the names the rule alone matches.  \<open>ok\<close> is the
  set of rules the promise covers.  Both operations may run a probing loop, so they are
  option-valued: \<^const>\<open>None\<close> is a loop that never returns.
\<close>

fun foldM :: "('r \<Rightarrow> 'm \<Rightarrow> 'm option) \<Rightarrow> 'r list \<Rightarrow> 'm \<Rightarrow> 'm option" where
  "foldM f [] m = Some m"
| "foldM f (r # rs) m = (case f r m of None \<Rightarrow> None | Some m' \<Rightarrow> foldM f rs m')"

locale rule_index =
  fixes empty :: 'm
    and add :: "'r \<Rightarrow> 'm \<Rightarrow> 'm option"
    and matches :: "'m \<Rightarrow> string \<Rightarrow> bool option"
    and invar :: "'m \<Rightarrow> bool"
    and ok :: "'r \<Rightarrow> bool"
    and sem :: "'r \<Rightarrow> string \<Rightarrow> bool"
  assumes matches_empty: "matches empty d = Some False"
    and invar_empty: "invar empty"
    and matches_total: "invar m \<Longrightarrow> \<exists>b. matches m d = Some b"
    and add_total: "invar m \<Longrightarrow> ok r \<Longrightarrow> \<exists>m'. add r m = Some m' \<and> invar m'"
    and matches_add: "invar m \<Longrightarrow> ok r \<Longrightarrow> add r m = Some m' \<Longrightarrow>
      matches m' d = Some (matches m d = Some True \<or> sem r d)"
begin

lemma add_all:
  "invar m \<Longrightarrow> list_all ok rs \<Longrightarrow>
   \<exists>m'. foldM add rs m = Some m' \<and> invar m' \<and>
     (\<forall>d. matches m' d = Some (matches m d = Some True \<or> (\<exists>r\<in>set rs. sem r d)))"
proof (induction rs arbitrary: m)
  case Nil
  have "matches m d = Some (matches m d = Some True)" for d
    using matches_total [OF Nil.prems(1), of d] by auto
  with Nil show ?case by simp
next
  case (Cons r rs)
  obtain m1 where m1: "add r m = Some m1" "invar m1"
    using add_total [of m r] Cons.prems by auto
  from Cons.IH [OF m1(2)] Cons.prems obtain m' where
    "foldM add rs m1 = Some m'" "invar m'"
    "\<forall>d. matches m' d = Some (matches m1 d = Some True \<or> (\<exists>r\<in>set rs. sem r d))" by auto
  with m1 Cons.prems show ?case by (auto simp: matches_add)
qed

lemma build:
  "list_all ok rs \<Longrightarrow>
   \<exists>m. foldM add rs empty = Some m \<and> invar m \<and>
     (\<forall>d. matches m d = Some (\<exists>r\<in>set rs. sem r d))"
  using add_all [OF invar_empty] by (simp add: matches_empty)

end

section \<open>Interface: a transition system with an invariant\<close>

inductive reachable :: "('s \<Rightarrow> bool) \<Rightarrow> ('s \<Rightarrow> 's \<Rightarrow> bool) \<Rightarrow> 's \<Rightarrow> bool"
  for init :: "'s \<Rightarrow> bool" and step :: "'s \<Rightarrow> 's \<Rightarrow> bool" where
  reach_init: "init s \<Longrightarrow> reachable init step s"
| reach_step: "reachable init step s \<Longrightarrow> step s t \<Longrightarrow> reachable init step t"

locale invariant_system =
  fixes init :: "'s \<Rightarrow> bool"
    and step :: "'s \<Rightarrow> 's \<Rightarrow> bool"
    and inv :: "'s \<Rightarrow> bool"
  assumes inv_init: "init s \<Longrightarrow> inv s"
    and inv_step: "inv s \<Longrightarrow> step s t \<Longrightarrow> inv t"
begin

lemma reachable_inv: "reachable init step s \<Longrightarrow> inv s"
  by (induction rule: reachable.induct) (auto intro: inv_init inv_step)

end

section \<open>Lists\<close>

lemma drop_nth_Cons: "i < length xs \<Longrightarrow> drop i xs = xs ! i # drop (Suc i) xs"
  by (rule Cons_nth_drop_Suc [symmetric])

lemma take_nth_snoc: "i < length xs \<Longrightarrow> take (Suc i) xs = take i xs @ [xs ! i]"
  by (rule take_Suc_conv_app_nth)

section \<open>Bytes\<close>

text \<open>Facts about one byte or one character are checked on all 256 of them.\<close>

lemma all_u8:
  assumes "list_all (\<lambda>n. P (word_of_int n :: u8)) [0..255]"
  shows "P b"
proof -
  have "uint b \<in> set [0..255]" using unsigned_less [of b, where 'a = int] by simp
  with assms have "P (word_of_int (uint b))" unfolding list_all_iff by blast
  then show "P b" by simp
qed

lemma all_chars:
  assumes "list_all (\<lambda>n. P (char_of (n :: int))) [0..255]"
  shows "P c"
proof -
  have "(of_char c :: int) \<in> set [0..255]"
  proof -
    have "(of_char c :: int) = int (of_char c)" by (rule of_nat_of_char [symmetric])
    then have "(of_char c :: int) \<ge> 0" "(of_char c :: int) < 256"
      using nat_of_char_less_256 [of c] by linarith+
    then show ?thesis by simp
  qed
  with assms have "P (char_of (of_char c :: int))" unfolding list_all_iff by blast
  then show "P c" by simp
qed

end
