(* ===== verification/Exact_Set.thy ===== *)
theory Exact_Set
  imports Prelude
begin

text \<open>
  \<^verbatim>\<open>src/rules/match.c\<close>, the exact-domain hash set: open addressing with linear probing over a
  power-of-two array of C strings.  \<open>es_slots\<close> is the array \<^verbatim>\<open>slots\<close> (a \<^verbatim>\<open>NULL\<close> slot is
  \<^const>\<open>None\<close>, the field \<^verbatim>\<open>cap\<close> is its length) and \<open>es_len\<close> the field \<^verbatim>\<open>len\<close>.  Allocation is
  assumed to succeed.  The probing loops run forever on a full array, so they are option-valued
  partial functions, and that they return is proved from the load-factor invariant.
\<close>

section \<open>The set and its operations\<close>

record exact_set =
  es_slots :: "string option list"
  es_len :: nat

definition exact_set_empty :: exact_set where
  "exact_set_empty = \<lparr>es_slots = [], es_len = 0\<rparr>"

definition es_index :: "string option list \<Rightarrow> string \<Rightarrow> nat" where
  "es_index slots s = unat (fnv1a s) AND (length slots - 1)"

definition es_next :: "string option list \<Rightarrow> nat \<Rightarrow> nat" where
  "es_next slots i = (i + 1) AND (length slots - 1)"

text \<open>The probe of a lookup or an insertion: the slot that holds the string, or the first free one.\<close>

datatype probe_result = Found nat | Free nat

partial_function (option) es_probe ::
  "string option list \<Rightarrow> string \<Rightarrow> nat \<Rightarrow> probe_result option" where
  "es_probe slots s i =
    (case slots ! i of
       None \<Rightarrow> Some (Free i)
     | Some t \<Rightarrow> if t = s then Some (Found i) else es_probe slots s (es_next slots i))"

text \<open>The probe of a re-insertion while growing, which does not compare.\<close>

partial_function (option) es_free_slot :: "string option list \<Rightarrow> nat \<Rightarrow> nat option" where
  "es_free_slot slots i =
    (case slots ! i of None \<Rightarrow> Some i | Some t \<Rightarrow> es_free_slot slots (es_next slots i))"

declare es_probe.simps [code] es_free_slot.simps [code]

definition exact_set_reinsert :: "string option \<Rightarrow> exact_set \<Rightarrow> exact_set option" where
  "exact_set_reinsert old es =
    (case old of
       None \<Rightarrow> Some es
     | Some t \<Rightarrow>
        (case es_free_slot (es_slots es) (es_index (es_slots es) t) of
           None \<Rightarrow> None
         | Some i \<Rightarrow> Some (es\<lparr>es_slots := (es_slots es)[i := Some t], es_len := es_len es + 1\<rparr>)))"

definition exact_set_grow :: "exact_set \<Rightarrow> exact_set option" where
  "exact_set_grow es =
    (let new_cap = (if length (es_slots es) = 0 then 16 else length (es_slots es) * 2) in
     foldM exact_set_reinsert (es_slots es) \<lparr>es_slots = replicate new_cap None, es_len = 0\<rparr>)"

definition exact_set_place :: "string \<Rightarrow> exact_set \<Rightarrow> exact_set option" where
  "exact_set_place s es =
    (case es_probe (es_slots es) s (es_index (es_slots es) s) of
       None \<Rightarrow> None
     | Some (Found i) \<Rightarrow> Some es
     | Some (Free i) \<Rightarrow>
         Some (es\<lparr>es_slots := (es_slots es)[i := Some s], es_len := es_len es + 1\<rparr>))"

definition exact_set_insert :: "string \<Rightarrow> exact_set \<Rightarrow> exact_set option" where
  "exact_set_insert s es =
    (if length (es_slots es) = 0 \<or> es_len es * 4 \<ge> length (es_slots es) * 3 then
       (case exact_set_grow es of None \<Rightarrow> None | Some es' \<Rightarrow> exact_set_place s es')
     else exact_set_place s es)"

definition exact_set_contains :: "exact_set \<Rightarrow> string \<Rightarrow> bool option" where
  "exact_set_contains es s =
    (if length (es_slots es) = 0 then Some False
     else case es_probe (es_slots es) s (es_index (es_slots es) s) of
       None \<Rightarrow> None
     | Some (Found i) \<Rightarrow> Some True
     | Some (Free i) \<Rightarrow> Some False)"

section \<open>Probing\<close>

lemma and_pow2_minus_1: "n AND (2 ^ k - 1) = n mod 2 ^ k" for n :: nat
  by (simp add: take_bit_eq_mod [symmetric] take_bit_eq_mask mask_eq_exp_minus_1)

text \<open>The \<open>d\<close>-th slot of the probe that starts at slot \<open>i\<close>.\<close>

definition es_at :: "string option list \<Rightarrow> nat \<Rightarrow> nat \<Rightarrow> string option" where
  "es_at slots i d = slots ! ((i + d) mod length slots)"

lemma es_next_mod: "length slots = 2 ^ k \<Longrightarrow> es_next slots i = (i + 1) mod length slots"
  by (simp add: es_next_def and_pow2_minus_1 [simplified])

lemma es_index_less: "length slots = 2 ^ k \<Longrightarrow> es_index slots s < length slots"
  by (simp add: es_index_def and_pow2_minus_1 [simplified])

lemma es_at_next:
  "length slots = 2 ^ k \<Longrightarrow> es_at slots (es_next slots i) d = es_at slots i (Suc d)"
  by (simp add: es_at_def es_next_mod mod_add_left_eq)

lemma es_at_0: "i < length slots \<Longrightarrow> es_at slots i 0 = slots ! i"
  by (simp add: es_at_def)

lemma es_next_add:
  "length slots = 2 ^ k \<Longrightarrow> (es_next slots i + d) mod length slots = (i + Suc d) mod length slots"
  by (simp add: es_next_mod mod_add_left_eq)

lemma es_next_less: "length slots = 2 ^ k \<Longrightarrow> es_next slots i < length slots"
  by (simp add: es_next_mod)

lemma es_probe_free:
  assumes "length slots = 2 ^ k" "i < length slots"
    and "\<forall>e<d. es_at slots i e \<noteq> None \<and> es_at slots i e \<noteq> Some s" "es_at slots i d = None"
  shows "es_probe slots s i = Some (Free ((i + d) mod length slots))"
  using assms
proof (induction d arbitrary: i)
  case 0
  then show ?case by (simp add: es_probe.simps [of slots s i] es_at_def)
next
  case (Suc d)
  from Suc.prems(3) have "es_at slots i 0 \<noteq> None \<and> es_at slots i 0 \<noteq> Some s" by blast
  then obtain t where t: "slots ! i = Some t" "t \<noteq> s" using Suc.prems(2) by (auto simp: es_at_0)
  have "es_probe slots s (es_next slots i) = Some (Free ((es_next slots i + d) mod length slots))"
    using Suc.prems es_next_less [OF Suc.prems(1)] by (intro Suc.IH) (auto simp: es_at_next)
  with t show ?case by (simp add: es_probe.simps [of slots s i] es_next_add [OF Suc.prems(1)])
qed

lemma es_probe_found:
  assumes "length slots = 2 ^ k" "i < length slots"
    and "\<forall>e<d. es_at slots i e \<noteq> None \<and> es_at slots i e \<noteq> Some s" "es_at slots i d = Some s"
  shows "es_probe slots s i = Some (Found ((i + d) mod length slots))"
  using assms
proof (induction d arbitrary: i)
  case 0
  then show ?case by (simp add: es_probe.simps [of slots s i] es_at_def)
next
  case (Suc d)
  from Suc.prems(3) have "es_at slots i 0 \<noteq> None \<and> es_at slots i 0 \<noteq> Some s" by blast
  then obtain t where t: "slots ! i = Some t" "t \<noteq> s" using Suc.prems(2) by (auto simp: es_at_0)
  have "es_probe slots s (es_next slots i) = Some (Found ((es_next slots i + d) mod length slots))"
    using Suc.prems es_next_less [OF Suc.prems(1)] by (intro Suc.IH) (auto simp: es_at_next)
  with t show ?case by (simp add: es_probe.simps [of slots s i] es_next_add [OF Suc.prems(1)])
qed

lemma es_free_slot_at:
  assumes "length slots = 2 ^ k" "i < length slots"
    and "\<forall>e<d. es_at slots i e \<noteq> None" "es_at slots i d = None"
  shows "es_free_slot slots i = Some ((i + d) mod length slots)"
  using assms
proof (induction d arbitrary: i)
  case 0
  then show ?case by (simp add: es_free_slot.simps [of slots i] es_at_def)
next
  case (Suc d)
  from Suc.prems(3) have "es_at slots i 0 \<noteq> None" by blast
  then obtain t where t: "slots ! i = Some t" using Suc.prems(2) by (auto simp: es_at_0)
  have "es_free_slot slots (es_next slots i) = Some ((es_next slots i + d) mod length slots)"
    using Suc.prems es_next_less [OF Suc.prems(1)] by (intro Suc.IH) (auto simp: es_at_next)
  with t show ?case by (simp add: es_free_slot.simps [of slots i] es_next_add [OF Suc.prems(1)])
qed

section \<open>The invariant\<close>

definition occupied :: "string option list \<Rightarrow> nat" where
  "occupied slots = length (filter (\<lambda>x. x \<noteq> None) slots)"

definition es_reach :: "string option list \<Rightarrow> string \<Rightarrow> bool" where
  "es_reach slots t \<longleftrightarrow> (\<exists>d. es_at slots (es_index slots t) d = Some t \<and>
     (\<forall>e<d. es_at slots (es_index slots t) e \<noteq> None))"

definition es_ok :: "exact_set \<Rightarrow> bool" where
  "es_ok es \<longleftrightarrow> (\<exists>k\<ge>4. length (es_slots es) = 2 ^ k) \<and> es_len es = occupied (es_slots es) \<and>
     (\<forall>t. Some t \<in> set (es_slots es) \<longrightarrow> es_reach (es_slots es) t)"

definition es_inv :: "exact_set \<Rightarrow> bool" where
  "es_inv es \<longleftrightarrow> es = exact_set_empty \<or>
     es_ok es \<and> es_len es * 4 < length (es_slots es) * 3 + 4"

lemma es_index_update [simp]: "es_index (slots[j := x]) = es_index slots"
  by (simp add: es_index_def fun_eq_iff)

lemma es_at_update:
  "j < length slots \<Longrightarrow>
   es_at (slots[j := x]) i d = (if (i + d) mod length slots = j then x else es_at slots i d)"
  by (auto simp: es_at_def nth_list_update)

lemma occupied_update:
  "j < length slots \<Longrightarrow> slots ! j = None \<Longrightarrow> occupied (slots[j := Some s]) = Suc (occupied slots)"
  unfolding occupied_def by (induction slots arbitrary: j) (auto split: nat.splits)

lemma occupied_le: "occupied slots \<le> length slots"
  by (simp add: occupied_def)

lemma occupied_full: "None \<notin> set slots \<Longrightarrow> occupied slots = length slots"
proof (induction slots)
  case (Cons a slots)
  then show ?case by (cases a) (auto simp: occupied_def)
qed (simp add: occupied_def)

lemma free_slot_exists:
  assumes "occupied slots < length slots" "i < length slots"
  shows "\<exists>d. es_at slots i d = None \<and> (\<forall>e<d. es_at slots i e \<noteq> None)"
proof -
  have "None \<in> set slots" using occupied_full [of slots] assms(1) by fastforce
  then obtain j where j: "j < length slots" "slots ! j = None" by (auto simp: in_set_conv_nth)
  have "(i + (length slots - i + j)) mod length slots = j" using assms(2) j(1) by simp
  then have "es_at slots i (length slots - i + j) = None" using j(2) by (simp only: es_at_def)
  then show ?thesis using exists_least_iff [of "\<lambda>d. es_at slots i d = None"] by metis
qed

lemma es_reach_update:
  assumes "j < length slots" "slots ! j = None" "es_reach slots t"
  shows "es_reach (slots[j := Some s]) t"
proof -
  obtain d where d: "es_at slots (es_index slots t) d = Some t"
      "\<forall>e<d. es_at slots (es_index slots t) e \<noteq> None"
    using assms(3) by (auto simp: es_reach_def)
  then have "(es_index slots t + d) mod length slots \<noteq> j"
    using assms(2) by (auto simp: es_at_def)
  with d assms(1) show ?thesis
    unfolding es_reach_def by (intro exI [of _ d]) (auto simp: es_at_update)
qed

lemma es_reach_placed:
  assumes "length slots = 2 ^ k" "\<forall>e<d. es_at slots (es_index slots s) e \<noteq> None"
  shows "es_reach (slots[(es_index slots s + d) mod length slots := Some s]) s"
proof -
  have j: "(es_index slots s + d) mod length slots < length slots" using assms(1) by simp
  show ?thesis
    unfolding es_reach_def es_index_update using assms(2)
    by (intro exI [of _ d]) (auto simp: es_at_update [OF j])
qed

text \<open>Filling the free slot a probe ended at keeps the invariant and adds the string.\<close>

lemma es_ok_place:
  assumes ok: "es_ok es" and free: "es_at (es_slots es) (es_index (es_slots es) s) d = None"
    and path: "\<forall>e<d. es_at (es_slots es) (es_index (es_slots es) s) e \<noteq> None"
  defines "j \<equiv> (es_index (es_slots es) s + d) mod length (es_slots es)"
  defines "es' \<equiv> es\<lparr>es_slots := (es_slots es)[j := Some s], es_len := es_len es + 1\<rparr>"
  shows "es_ok es' \<and> (\<forall>t. Some t \<in> set (es_slots es') \<longleftrightarrow> t = s \<or> Some t \<in> set (es_slots es))"
proof -
  obtain k where k: "k \<ge> 4" "length (es_slots es) = 2 ^ k" using ok by (auto simp: es_ok_def)
  then have j: "j < length (es_slots es)" by (simp add: j_def)
  have none: "es_slots es ! j = None" using free by (simp add: es_at_def j_def)
  have stored: "Some t \<in> set (es_slots es') \<longleftrightarrow> t = s \<or> Some t \<in> set (es_slots es)" for t
  proof
    assume "Some t \<in> set (es_slots es')"
    then show "t = s \<or> Some t \<in> set (es_slots es)"
      using set_update_subset_insert [of "es_slots es" j "Some s"] by (auto simp: es'_def)
  next
    assume "t = s \<or> Some t \<in> set (es_slots es)"
    then show "Some t \<in> set (es_slots es')"
    proof
      assume "t = s" then show ?thesis using j by (simp add: es'_def set_update_memI)
    next
      assume "Some t \<in> set (es_slots es)"
      then obtain i where "i < length (es_slots es)" "es_slots es ! i = Some t"
        by (auto simp: in_set_conv_nth)
      with none j show ?thesis
        by (auto simp: es'_def in_set_conv_nth nth_list_update intro!: exI [of _ i])
    qed
  qed
  have "es_reach (es_slots es') s"
    using es_reach_placed [OF k(2) path] by (simp add: es'_def j_def)
  moreover have "es_reach (es_slots es') t" if "Some t \<in> set (es_slots es)" for t
    using es_reach_update [OF j none] that ok by (simp add: es'_def es_ok_def)
  ultimately show ?thesis
    using ok k stored j none by (auto simp: es_ok_def es'_def occupied_update)
qed

lemma es_probe_stored:
  assumes ok: "es_ok es" and s: "Some s \<in> set (es_slots es)"
  shows "\<exists>i. es_probe (es_slots es) s (es_index (es_slots es) s) = Some (Found i)"
proof -
  let ?at = "es_at (es_slots es) (es_index (es_slots es) s)"
  obtain k where k: "length (es_slots es) = 2 ^ k" using ok by (auto simp: es_ok_def)
  obtain d where d: "?at d = Some s" "\<forall>e<d. ?at e \<noteq> None"
    using ok s by (auto simp: es_ok_def es_reach_def)
  then obtain d' where d': "?at d' = Some s" "\<forall>e<d'. ?at e \<noteq> Some s" "d' \<le> d"
    using exists_least_iff [of "\<lambda>d. ?at d = Some s"] by (metis leI)
  with d(2) have "\<forall>e<d'. ?at e \<noteq> None \<and> ?at e \<noteq> Some s" by auto
  from es_probe_found [OF k es_index_less [OF k] this d'(1)] show ?thesis by blast
qed

lemma es_probe_absent:
  assumes ok: "es_ok es" and room: "occupied (es_slots es) < length (es_slots es)"
    and s: "Some s \<notin> set (es_slots es)"
  obtains d where "es_at (es_slots es) (es_index (es_slots es) s) d = None"
    "\<forall>e<d. es_at (es_slots es) (es_index (es_slots es) s) e \<noteq> None"
    "es_probe (es_slots es) s (es_index (es_slots es) s) =
       Some (Free ((es_index (es_slots es) s + d) mod length (es_slots es)))"
proof -
  let ?at = "es_at (es_slots es) (es_index (es_slots es) s)"
  obtain k where k: "length (es_slots es) = 2 ^ k" using ok by (auto simp: es_ok_def)
  obtain d where d: "?at d = None" "\<forall>e<d. ?at e \<noteq> None"
    using free_slot_exists [OF room es_index_less [OF k]] by blast
  have "?at e \<noteq> Some s" for e
    using s k by (metis es_at_def mod_less_divisor nth_mem zero_less_numeral zero_less_power)
  with d es_probe_free [OF k es_index_less [OF k] _ d(1), of s] that show ?thesis by blast
qed

lemma exact_set_place_ok:
  assumes ok: "es_ok es" and room: "occupied (es_slots es) < length (es_slots es)"
  shows "\<exists>es'. exact_set_place s es = Some es' \<and> es_ok es' \<and> es_len es' \<le> es_len es + 1 \<and>
    length (es_slots es') = length (es_slots es) \<and>
    (\<forall>t. Some t \<in> set (es_slots es') \<longleftrightarrow> t = s \<or> Some t \<in> set (es_slots es))"
proof (cases "Some s \<in> set (es_slots es)")
  case True
  with es_probe_stored [OF ok True] ok show ?thesis by (auto simp: exact_set_place_def)
next
  case False
  from es_probe_absent [OF ok room False] obtain d where d:
    "es_at (es_slots es) (es_index (es_slots es) s) d = None"
    "\<forall>e<d. es_at (es_slots es) (es_index (es_slots es) s) e \<noteq> None"
    "es_probe (es_slots es) s (es_index (es_slots es) s) =
       Some (Free ((es_index (es_slots es) s + d) mod length (es_slots es)))" .
  from es_ok_place [OF ok d(1,2)] d(3) show ?thesis by (simp add: exact_set_place_def)
qed

lemma exact_set_reinsert_ok:
  assumes ok: "es_ok es" and room: "occupied (es_slots es) < length (es_slots es)"
  shows "\<exists>es'. exact_set_reinsert (Some s) es = Some es' \<and> es_ok es' \<and> es_len es' = es_len es + 1 \<and>
    length (es_slots es') = length (es_slots es) \<and>
    (\<forall>t. Some t \<in> set (es_slots es') \<longleftrightarrow> t = s \<or> Some t \<in> set (es_slots es))"
proof -
  obtain k where k: "length (es_slots es) = 2 ^ k" using ok by (auto simp: es_ok_def)
  obtain d where d: "es_at (es_slots es) (es_index (es_slots es) s) d = None"
      "\<forall>e<d. es_at (es_slots es) (es_index (es_slots es) s) e \<noteq> None"
    using free_slot_exists [OF room es_index_less [OF k]] by blast
  from es_free_slot_at [OF k es_index_less [OF k] d(2,1)] es_ok_place [OF ok d] show ?thesis
    by (simp add: exact_set_reinsert_def)
qed

text \<open>Growing re-inserts every old string, and leaves at most half of the slots occupied.\<close>

lemma reinsert_all:
  assumes "es_ok es" "es_len es + occupied olds < length (es_slots es)"
  shows "\<exists>es'. foldM exact_set_reinsert olds es = Some es' \<and> es_ok es' \<and>
    es_len es' = es_len es + occupied olds \<and> length (es_slots es') = length (es_slots es) \<and>
    (\<forall>t. Some t \<in> set (es_slots es') \<longleftrightarrow> Some t \<in> set olds \<or> Some t \<in> set (es_slots es))"
  using assms
proof (induction olds arbitrary: es)
  case Nil
  then show ?case by (simp add: occupied_def)
next
  case (Cons x olds)
  show ?case
  proof (cases x)
    case None
    with Cons show ?thesis by (simp add: exact_set_reinsert_def occupied_def)
  next
    case (Some s)
    have room: "occupied (es_slots es) < length (es_slots es)"
      using Cons.prems by (simp add: es_ok_def)
    obtain es1 where es1: "exact_set_reinsert (Some s) es = Some es1" "es_ok es1"
        "es_len es1 = es_len es + 1" "length (es_slots es1) = length (es_slots es)"
        "\<forall>t. Some t \<in> set (es_slots es1) \<longleftrightarrow> t = s \<or> Some t \<in> set (es_slots es)"
      using exact_set_reinsert_ok [OF Cons.prems(1) room] by blast
    have "es_len es1 + occupied olds < length (es_slots es1)"
      using Cons.prems(2) es1 Some by (simp add: occupied_def)
    from Cons.IH [OF es1(2) this] es1 Some show ?thesis by (auto simp: occupied_def)
  qed
qed

lemma es_ok_fresh: "k \<ge> 4 \<Longrightarrow> es_ok \<lparr>es_slots = replicate (2 ^ k) None, es_len = 0\<rparr>"
  by (auto simp: es_ok_def occupied_def)

lemma exact_set_grow_ok:
  assumes "es_inv es"
  shows "\<exists>es'. exact_set_grow es = Some es' \<and> es_ok es' \<and> es_len es' * 4 < length (es_slots es') * 3 \<and>
    (\<forall>t. Some t \<in> set (es_slots es') \<longleftrightarrow> Some t \<in> set (es_slots es))"
proof -
  define cap where "cap = (if length (es_slots es) = 0 then 16 else length (es_slots es) * 2)"
  have "\<exists>k\<ge>4. cap = 2 ^ k"
  proof (cases "es = exact_set_empty")
    case True
    then show ?thesis by (intro exI [of _ 4]) (simp add: cap_def exact_set_empty_def)
  next
    case False
    then obtain k where k: "k \<ge> 4" "length (es_slots es) = 2 ^ k"
      using assms by (auto simp: es_inv_def es_ok_def)
    then have "cap = 2 ^ Suc k" by (simp add: cap_def)
    with k(1) show ?thesis by (intro exI [of _ "Suc k"]) simp
  qed
  then obtain k where k: "k \<ge> 4" "cap = 2 ^ k" by blast
  have half: "occupied (es_slots es) * 2 \<le> cap" "0 < cap"
    using occupied_le [of "es_slots es"] by (auto simp: cap_def occupied_def)
  have "foldM exact_set_reinsert (es_slots es) \<lparr>es_slots = replicate cap None, es_len = 0\<rparr> = exact_set_grow es"
    by (simp add: exact_set_grow_def cap_def Let_def)
  with reinsert_all [OF es_ok_fresh [OF k(1)], of "es_slots es"] half k(2)
  obtain es' where "exact_set_grow es = Some es'" "es_ok es'" "es_len es' = occupied (es_slots es)"
      "length (es_slots es') = cap"
      "\<forall>t. Some t \<in> set (es_slots es') \<longleftrightarrow> Some t \<in> set (es_slots es)"
    by auto
  with half show ?thesis by auto
qed

lemma es_ok_room:
  assumes "es_ok es" "es_len es * 4 < length (es_slots es) * 3 + 4"
  shows "occupied (es_slots es) < length (es_slots es)"
proof -
  obtain k where "k \<ge> 4" "length (es_slots es) = 2 ^ k" using assms by (auto simp: es_ok_def)
  then have "length (es_slots es) \<ge> 2 ^ 4" by (simp only: power_increasing)
  with assms show ?thesis by (simp add: es_ok_def)
qed

lemma exact_set_insert_ok:
  assumes "es_inv es"
  shows "\<exists>es'. exact_set_insert s es = Some es' \<and> es_inv es' \<and>
    (\<forall>t. Some t \<in> set (es_slots es') \<longleftrightarrow> t = s \<or> Some t \<in> set (es_slots es))"
proof -
  obtain es1 where es1: "es_ok es1" "es_len es1 * 4 < length (es_slots es1) * 3"
      "exact_set_insert s es = exact_set_place s es1"
      "\<forall>t. Some t \<in> set (es_slots es1) \<longleftrightarrow> Some t \<in> set (es_slots es)"
  proof (cases "length (es_slots es) = 0 \<or> es_len es * 4 \<ge> length (es_slots es) * 3")
    case True
    with exact_set_grow_ok [OF assms] that show ?thesis by (auto simp: exact_set_insert_def)
  next
    case False
    with assms that [of es] show ?thesis
      by (auto simp: exact_set_insert_def es_inv_def exact_set_empty_def)
  qed
  have "occupied (es_slots es1) < length (es_slots es1)" using es1 by (simp add: es_ok_room)
  from exact_set_place_ok [OF es1(1) this, of s] es1 show ?thesis by (auto simp: es_inv_def)
qed

lemma exact_set_contains_ok:
  assumes "es_inv es"
  shows "exact_set_contains es s = Some (Some s \<in> set (es_slots es))"
proof (cases "es = exact_set_empty")
  case True
  then show ?thesis by (simp add: exact_set_contains_def exact_set_empty_def)
next
  case False
  then have ok: "es_ok es" and room: "occupied (es_slots es) < length (es_slots es)"
    using assms by (auto simp: es_inv_def es_ok_room)
  then have cap: "length (es_slots es) \<noteq> 0" by auto
  show ?thesis
  proof (cases "Some s \<in> set (es_slots es)")
    case True
    with es_probe_stored [OF ok True] cap show ?thesis by (auto simp: exact_set_contains_def)
  next
    case False
    from es_probe_absent [OF ok room False] obtain i where
      "es_probe (es_slots es) s (es_index (es_slots es) s) = Some (Free i)" by blast
    with False cap show ?thesis by (simp add: exact_set_contains_def)
  qed
qed

section \<open>The set is a rule index for the rule type \<^verbatim>\<open>domain\<close>\<close>

interpretation es: rule_index exact_set_empty exact_set_insert exact_set_contains es_inv
  "\<lambda>_. True" "\<lambda>s d. d = s"
proof (unfold_locales, goal_cases)
  case (1 d)
  show ?case by (simp add: exact_set_contains_def exact_set_empty_def)
next
  case 2
  show ?case by (simp add: es_inv_def)
next
  case (3 m d)
  then show ?case by (simp add: exact_set_contains_ok)
next
  case (4 m r)
  then show ?case using exact_set_insert_ok by blast
next
  case (5 m r m' d)
  with exact_set_insert_ok [OF 5(1), of r] show ?case by (auto simp: exact_set_contains_ok)
qed

text \<open>
  The hash set is a set, whatever the hashes collide on and however often it grows: the
  probing loops of any sequence of insertions and of any lookup return, and a lookup finds
  exactly the strings that were inserted.
\<close>

theorem exact_set_correct:
  "\<exists>es. foldM exact_set_insert xs exact_set_empty = Some es \<and>
     (\<forall>s. exact_set_contains es s = Some (s \<in> set xs))"
  using es.build [of xs] by (auto simp: list_all_def)

end
