(* ===== verification/Ns_Trie.thy ===== *)
theory Ns_Trie
  imports Prelude "HOL-Library.Sublist"
begin

text \<open>
  \<^verbatim>\<open>src/rules/match.c\<close>, the namespace rules: the reference test \<^verbatim>\<open>namespace_match\<close> and the
  reversed-label trie that indexes many of them.  The \<^verbatim>\<open>end\<close> and \<^verbatim>\<open>start\<close> pointers of the C loops
  are offsets into the string; a node's \<^verbatim>\<open>children\<close> array is a list, searched from the front.
\<close>

section \<open>The reference test\<close>

definition namespace_match :: "string \<Rightarrow> string \<Rightarrow> bool" where
  "namespace_match rule domain =
    (if length domain = length rule \<and> domain = rule then True
     else if length domain < length rule + 1 then False
     else domain ! (length domain - length rule - 1) = CHR ''.'' \<and>
          drop (length domain - length rule) domain = rule)"

section \<open>The trie\<close>

datatype trie_node = TrieNode (label: string) (children: "trie_node list") (terminal: bool)

record ns_trie =
  root :: trie_node
  has_empty_rule :: bool

definition ns_trie_empty :: ns_trie where
  "ns_trie_empty = \<lparr>root = TrieNode [] [] False, has_empty_rule = False\<rparr>"

text \<open>The inner loop \<^verbatim>\<open>while (start > rule && start[-1] != '.') start--\<close>, started at \<open>n\<close>.\<close>

fun label_start :: "string \<Rightarrow> nat \<Rightarrow> nat" where
  "label_start r 0 = 0"
| "label_start r (Suc n) = (if r ! n \<noteq> CHR ''.'' then label_start r n else Suc n)"

definition label_at :: "string \<Rightarrow> nat \<Rightarrow> string" where
  "label_at r e = take (e - label_start r e) (drop (label_start r e) r)"

definition next_end :: "string \<Rightarrow> nat \<Rightarrow> nat" where
  "next_end r e = (if label_start r e > 0 then label_start r e - 1 else 0)"

lemma label_start_le: "label_start r n \<le> n"
  by (induction n) auto

lemma next_end_less: "e \<noteq> 0 \<Longrightarrow> next_end r e < e"
  using label_start_le [of r e] by (auto simp: next_end_def)

text \<open>\<^verbatim>\<open>trie_child\<close>: the first child with the label, created at the end when there is none; the
  caller then works on that child, here through the function \<open>f\<close>.\<close>

fun trie_child_update :: "string \<Rightarrow> (trie_node \<Rightarrow> trie_node) \<Rightarrow> trie_node list \<Rightarrow> trie_node list" where
  "trie_child_update lab f [] = [f (TrieNode lab [] False)]"
| "trie_child_update lab f (c # cs) =
     (if label c = lab then f c # cs else c # trie_child_update lab f cs)"

definition trie_child :: "trie_node \<Rightarrow> string \<Rightarrow> trie_node option" where
  "trie_child node lab = find (\<lambda>c. label c = lab) (children node)"

function trie_insert_at :: "string \<Rightarrow> nat \<Rightarrow> trie_node \<Rightarrow> trie_node" where
  "trie_insert_at rule e node =
    (if e = 0 then TrieNode (label node) (children node) True
     else TrieNode (label node)
       (trie_child_update (label_at rule e) (\<lambda>c. trie_insert_at rule (next_end rule e) c)
          (children node))
       (terminal node))"
  by pat_completeness auto
termination
  by (relation "measure (\<lambda>(r, e, n). e)") (auto simp: next_end_less)

declare trie_insert_at.simps [simp del]

definition ns_trie_insert :: "string \<Rightarrow> ns_trie \<Rightarrow> ns_trie" where
  "ns_trie_insert rule t =
    (if length rule = 0 then t\<lparr>has_empty_rule := True\<rparr>
     else t\<lparr>root := trie_insert_at rule (length rule) (root t)\<rparr>)"

function trie_walk :: "string \<Rightarrow> nat \<Rightarrow> trie_node \<Rightarrow> bool" where
  "trie_walk domain e node =
    (if e = 0 then False
     else case trie_child node (label_at domain e) of
       None \<Rightarrow> False
     | Some nxt \<Rightarrow> if terminal nxt then True else trie_walk domain (next_end domain e) nxt)"
  by pat_completeness auto
termination
  by (relation "measure (\<lambda>(d, e, n). e)") (auto simp: next_end_less)

declare trie_walk.simps [simp del]

definition ns_trie_match :: "ns_trie \<Rightarrow> string \<Rightarrow> bool" where
  "ns_trie_match t domain =
    (if has_empty_rule t \<and> (length domain = 0 \<or> domain ! (length domain - 1) = CHR ''.'') then True
     else trie_walk domain (length domain) (root t))"

section \<open>The labels a walk visits\<close>

function labels :: "string \<Rightarrow> nat \<Rightarrow> string list" where
  "labels r e = (if e = 0 then [] else label_at r e # labels r (next_end r e))"
  by pat_completeness auto
termination
  by (relation "measure snd") (auto simp: next_end_less)

declare labels.simps [simp del]

fun tr_ins :: "string list \<Rightarrow> trie_node \<Rightarrow> trie_node" where
  "tr_ins [] n = TrieNode (label n) (children n) True"
| "tr_ins (k # ks) n =
     TrieNode (label n) (trie_child_update k (tr_ins ks) (children n)) (terminal n)"

fun tr_find :: "string list \<Rightarrow> trie_node \<Rightarrow> bool" where
  "tr_find [] n = False"
| "tr_find (k # ks) n =
     (case trie_child n k of None \<Rightarrow> False | Some c \<Rightarrow> terminal c \<or> tr_find ks c)"

lemma trie_insert_at_labels: "trie_insert_at r e n = tr_ins (labels r e) n"
proof (induction r e n rule: trie_insert_at.induct)
  case (1 r e n)
  show ?case
  proof (cases "e = 0")
    case False
    with 1 have "trie_insert_at r (next_end r e) = tr_ins (labels r (next_end r e))"
      by (simp add: fun_eq_iff)
    with False show ?thesis
      by (simp add: trie_insert_at.simps [of r e n] labels.simps [of r e])
  qed (simp add: trie_insert_at.simps [of r 0 n] labels.simps [of r 0])
qed

lemma trie_walk_labels: "trie_walk d e n = tr_find (labels d e) n"
proof (induction d e n rule: trie_walk.induct)
  case (1 d e n)
  show ?case
  proof (cases "e = 0")
    case False
    with 1 show ?thesis
      by (auto simp: trie_walk.simps [of d e n] labels.simps [of d e] split: option.splits)
  qed (simp add: trie_walk.simps [of d 0 n] labels.simps [of d 0])
qed

lemma label_tr_ins [simp]: "label (tr_ins ks n) = label n"
  by (cases ks) auto

lemma trie_child_update_find:
  assumes "\<And>c. label (f c) = label c"
  shows "find (\<lambda>c. label c = k') (trie_child_update k f cs) =
    (if k' = k then Some (f (case find (\<lambda>c. label c = k) cs of None \<Rightarrow> TrieNode k [] False | Some c \<Rightarrow> c))
     else find (\<lambda>c. label c = k') cs)"
  using assms by (induction cs) auto

lemma tr_find_fresh [simp]: "\<not> tr_find ls (TrieNode k [] False)"
  by (cases ls) (auto simp: trie_child_def)

text \<open>Inserting a label path adds exactly the walks it is a prefix of.\<close>

lemma tr_find_ins:
  "ks \<noteq> [] \<Longrightarrow> tr_find ls (tr_ins ks n) \<longleftrightarrow> tr_find ls n \<or> prefix ks ls"
proof (induction ks arbitrary: ls n)
  case (Cons k ks)
  show ?case
  proof (cases ls)
    case (Cons l ls')
    let ?c = "case find (\<lambda>c. label c = k) (children n) of None \<Rightarrow> TrieNode k [] False | Some c \<Rightarrow> c"
    have ch: "trie_child (tr_ins (k # ks) n) l =
        (if l = k then Some (tr_ins ks ?c) else trie_child n l)"
      by (simp add: trie_child_def trie_child_update_find)
    show ?thesis
    proof (cases "l = k")
      case True
      have "terminal (tr_ins ks ?c) \<or> tr_find ls' (tr_ins ks ?c) \<longleftrightarrow>
          terminal ?c \<or> tr_find ls' ?c \<or> prefix ks ls'"
        using Cons.IH [of ls' ?c] by (cases ks) (auto simp: Nil_prefix)
      moreover have "terminal ?c \<or> tr_find ls' ?c \<longleftrightarrow> tr_find ls n"
        using Cons True by (auto simp: trie_child_def split: option.splits)
      ultimately show ?thesis using Cons True ch by auto
    next
      case False
      with Cons ch show ?thesis by simp
    qed
  qed simp
qed simp

section \<open>Label paths and the reference test\<close>

text \<open>On the reversed string the labels are the pieces between the dots, from the front; a dot
  at the very end (the front of the name) adds no empty piece.\<close>

function rev_labels :: "string \<Rightarrow> string list" where
  "rev_labels w = (if w = [] then [] else
     rev (takeWhile (\<lambda>c. c \<noteq> CHR ''.'') w) # rev_labels (tl (dropWhile (\<lambda>c. c \<noteq> CHR ''.'') w)))"
  by pat_completeness auto
termination
proof (relation "measure length")
  fix w :: string
  assume "w \<noteq> []"
  then show "(tl (dropWhile (\<lambda>c. c \<noteq> CHR ''.'') w), w) \<in> measure length"
    using length_dropWhile_le [of "\<lambda>c. c \<noteq> CHR ''.''" w] by (cases w) auto
qed simp

declare rev_labels.simps [simp del]

lemma rev_labels_Nil [simp]: "rev_labels [] = []"
  by (simp add: rev_labels.simps [of "[]"])

lemma rev_labels_dot:
  assumes "CHR ''.'' \<notin> set q"
  shows "rev_labels (q @ CHR ''.'' # w) = rev q # rev_labels w"
proof -
  have "takeWhile (\<lambda>c. c \<noteq> CHR ''.'') (q @ CHR ''.'' # w) = q"
    "dropWhile (\<lambda>c. c \<noteq> CHR ''.'') (q @ CHR ''.'' # w) = CHR ''.'' # w"
    using assms by (auto simp: takeWhile_append dropWhile_append)
  then show ?thesis by (simp add: rev_labels.simps [of "q @ CHR ''.'' # w"])
qed

lemma rev_labels_no_dot:
  assumes "CHR ''.'' \<notin> set q" and "q \<noteq> []"
  shows "rev_labels q = [rev q]"
proof -
  have "takeWhile (\<lambda>c. c \<noteq> CHR ''.'') q = q" "dropWhile (\<lambda>c. c \<noteq> CHR ''.'') q = []"
    using assms by (auto simp: takeWhile_eq_all_conv)
  with assms(2) show ?thesis
    by (simp add: rev_labels.simps [of q] del: takeWhile_eq_all_conv dropWhile_eq_Nil_conv)
qed

lemma rev_labels_eq_Nil [simp]: "rev_labels w = [] \<longleftrightarrow> w = []"
  by (subst rev_labels.simps) simp

lemma label_start_rev:
  "e \<le> length r \<Longrightarrow>
   label_start r e = e - length (takeWhile (\<lambda>c. c \<noteq> CHR ''.'') (rev (take e r)))"
proof (induction e)
  case (Suc e)
  have "length (takeWhile (\<lambda>c. c \<noteq> CHR ''.'') (rev (take e r))) \<le> e"
    using length_takeWhile_le [of _ "rev (take e r)"] Suc.prems by (metis Suc_leD length_rev length_take min.absorb2)
  with Suc show ?case by (simp add: take_Suc_conv_app_nth)
qed simp

lemma rev_take_label_at:
  assumes "e \<le> length r"
  shows "rev (label_at r e) = takeWhile (\<lambda>c. c \<noteq> CHR ''.'') (rev (take e r))"
proof -
  let ?w = "rev (take e r)" and ?n = "length (takeWhile (\<lambda>c. c \<noteq> CHR ''.'') (rev (take e r)))"
  have n: "?n \<le> e" using length_takeWhile_le [of _ ?w] assms by (metis length_rev length_take min.absorb2)
  have "label_at r e = drop (e - ?n) (take e r)"
    using assms n by (simp add: label_at_def label_start_rev drop_take)
  also have "\<dots> = rev (take ?n ?w)" using assms n by (simp add: take_rev)
  finally show ?thesis by (simp add: takeWhile_eq_take [symmetric])
qed

lemma take_next_end:
  assumes "e \<le> length r"
  shows "rev (take (next_end r e) r) = tl (dropWhile (\<lambda>c. c \<noteq> CHR ''.'') (rev (take e r)))"
proof -
  let ?w = "rev (take e r)" and ?n = "length (takeWhile (\<lambda>c. c \<noteq> CHR ''.'') (rev (take e r)))"
  have n: "?n \<le> e" using length_takeWhile_le [of _ ?w] assms by (metis length_rev length_take min.absorb2)
  have "tl (dropWhile (\<lambda>c. c \<noteq> CHR ''.'') ?w) = drop (Suc ?n) ?w"
    by (simp add: dropWhile_eq_drop drop_Suc tl_drop)
  also have "\<dots> = rev (take (e - Suc ?n) r)"
    using assms n by (simp add: drop_rev min_def)
  finally show ?thesis
    using assms n by (auto simp: next_end_def label_start_rev)
qed

lemma labels_rev: "e \<le> length r \<Longrightarrow> labels r e = rev_labels (rev (take e r))"
proof (induction r e rule: labels.induct)
  case (1 r e)
  show ?case
  proof (cases "e = 0")
    case False
    have "next_end r e \<le> length r" using next_end_less [OF False, of r] "1.prems" by simp
    then have "labels r (next_end r e) = rev_labels (rev (take (next_end r e) r))"
      using "1.IH" False by simp
    moreover have "label_at r e = rev (takeWhile (\<lambda>c. c \<noteq> CHR ''.'') (rev (take e r)))"
      using rev_take_label_at [OF "1.prems"] by (metis rev_rev_ident)
    moreover have "rev (take e r) \<noteq> []" using False "1.prems" by auto
    ultimately show ?thesis
      using False take_next_end [OF "1.prems"]
      by (simp add: labels.simps [of r e] rev_labels.simps [of "rev (take e r)"])
  qed (simp add: labels.simps [of r 0])
qed

lemma dot_cases:
  obtains "CHR ''.'' \<notin> set w"
  | q w' where "CHR ''.'' \<notin> set q" and "w = q @ CHR ''.'' # w'"
  by (metis split_list_first)

lemma prefix_rev_labels:
  "u \<noteq> [] \<Longrightarrow> last u \<noteq> CHR ''.'' \<Longrightarrow>
   prefix (rev_labels u) (rev_labels w) \<longleftrightarrow> w = u \<or> prefix (u @ ''.'') w"
proof (induction "length u" arbitrary: u w rule: less_induct)
  case less
  show ?case
  proof (cases u rule: dot_cases)
    case 1
    then have u: "rev_labels u = [rev u]" using less.prems by (simp add: rev_labels_no_dot)
    show ?thesis
    proof (cases w rule: dot_cases)
      case w: 1
      then have "w \<noteq> [] \<Longrightarrow> rev_labels w = [rev w]" by (simp add: rev_labels_no_dot)
      moreover have "\<not> prefix (u @ ''.'') w" using w by (auto simp: prefix_def)
      ultimately show ?thesis using u less.prems by (cases "w = []") auto
    next
      case w: (2 q w')
      have "prefix (u @ ''.'') (q @ CHR ''.'' # w') \<longleftrightarrow> u = q"
        using 1 w(1) by (auto simp: prefix_def append_eq_append_conv2 append_eq_Cons_conv Cons_eq_append_conv)
      then show ?thesis using u w 1 by (auto simp: rev_labels_dot)
    qed
  next
    case u: (2 p u')
    then have u': "u' \<noteq> []" "last u' \<noteq> CHR ''.''" using less.prems by (auto split: if_splits)
    show ?thesis
    proof (cases w rule: dot_cases)
      case w: 1
      then have "w \<noteq> [] \<Longrightarrow> rev_labels w = [rev w]" by (simp add: rev_labels_no_dot)
      moreover have "\<not> prefix (u @ ''.'') w" "w \<noteq> u" using w u by (auto simp: prefix_def)
      ultimately show ?thesis using u u' by (cases "w = []") (auto simp: rev_labels_dot)
    next
      case w: (2 q w')
      have IH: "prefix (rev_labels u') (rev_labels w') \<longleftrightarrow> w' = u' \<or> prefix (u' @ ''.'') w'"
        using less.hyps [of u' w'] u u' by simp
      have "prefix (u @ ''.'') w \<longleftrightarrow> p = q \<and> prefix (u' @ ''.'') w'"
        using u w by (auto simp: prefix_def append_eq_append_conv2 append_eq_Cons_conv Cons_eq_append_conv)
      moreover have "w = u \<longleftrightarrow> p = q \<and> w' = u'"
        using u w by (auto simp: append_eq_append_conv2 append_eq_Cons_conv Cons_eq_append_conv)
      ultimately show ?thesis using IH u w by (auto simp: rev_labels_dot)
    qed
  qed
qed

lemma namespace_match_rev:
  "namespace_match rule domain \<longleftrightarrow>
   rev domain = rev rule \<or> prefix (rev rule @ ''.'') (rev domain)"
proof -
  have "prefix (rev rule @ ''.'') (rev domain) \<longleftrightarrow> suffix (CHR ''.'' # rule) domain"
    by (simp add: suffix_to_prefix)
  moreover have "namespace_match rule domain \<longleftrightarrow> domain = rule \<or> suffix (CHR ''.'' # rule) domain"
  proof (cases "length domain < length rule + 1")
    case True
    then show ?thesis by (auto simp: namespace_match_def suffix_def)
  next
    case False
    define k where "k = length domain - length rule - 1"
    have k: "length domain = k + 1 + length rule" using False by (simp add: k_def)
    then have d: "drop k domain = domain ! k # drop (Suc k) domain"
      by (simp add: drop_nth_Cons)
    have "suffix (CHR ''.'' # rule) domain \<longleftrightarrow> drop k domain = CHR ''.'' # rule"
    proof
      assume "suffix (CHR ''.'' # rule) domain"
      then obtain zs where "domain = zs @ CHR ''.'' # rule" by (auto simp: suffix_def)
      with k show "drop k domain = CHR ''.'' # rule" by simp
    next
      assume "drop k domain = CHR ''.'' # rule"
      then show "suffix (CHR ''.'' # rule) domain" using suffix_drop [of k domain] by simp
    qed
    then have "suffix (CHR ''.'' # rule) domain \<longleftrightarrow>
        domain ! k = CHR ''.'' \<and> drop (Suc k) domain = rule"
      by (simp only: d list.inject)
    moreover have "namespace_match rule domain \<longleftrightarrow>
        domain = rule \<or> domain ! k = CHR ''.'' \<and> drop (Suc k) domain = rule"
    proof -
      have "domain \<noteq> rule" using k by auto
      then show ?thesis using False k by (simp add: namespace_match_def)
    qed
    ultimately show ?thesis by simp
  qed
  ultimately show ?thesis by simp
qed

lemma namespace_match_empty:
  "namespace_match [] d \<longleftrightarrow> length d = 0 \<or> d ! (length d - 1) = CHR ''.''"
  by (auto simp: namespace_match_def)

lemma labels_namespace:
  assumes "rule \<noteq> []" and "hd rule \<noteq> CHR ''.''"
  shows "prefix (labels rule (length rule)) (labels domain (length domain)) \<longleftrightarrow>
    namespace_match rule domain"
  using assms prefix_rev_labels [of "rev rule" "rev domain"]
  by (simp add: labels_rev namespace_match_rev last_rev)

text \<open>
  A rule that starts with a dot.  Its empty first label is not stored, so the trie accepts the
  names that end in the rule, and the rule without its dot unless that starts with a dot again.
\<close>

definition leading_dot_match :: "string \<Rightarrow> string \<Rightarrow> bool" where
  "leading_dot_match rule domain =
    (rule \<noteq> [] \<and> hd rule = CHR ''.'' \<and>
      (suffix rule domain \<or> domain = tl rule \<and> domain \<noteq> [] \<and> hd domain \<noteq> CHR ''.''))"

lemma prefix_rev_labels_dot:
  "prefix (rev_labels (u @ ''.'')) (rev_labels w) \<longleftrightarrow>
   prefix (u @ ''.'') w \<or> w = u \<and> u \<noteq> [] \<and> last u \<noteq> CHR ''.''"
proof (induction "length u" arbitrary: u w rule: less_induct)
  case less
  show ?case
  proof (cases u rule: dot_cases)
    case 1
    then have u: "rev_labels (u @ ''.'') = [rev u]" by (simp add: rev_labels_dot)
    show ?thesis
    proof (cases w rule: dot_cases)
      case w: 1
      then have "w \<noteq> [] \<Longrightarrow> rev_labels w = [rev w]" by (simp add: rev_labels_no_dot)
      moreover have "\<not> prefix (u @ ''.'') w" using w by (auto simp: prefix_def)
      moreover have "u \<noteq> [] \<Longrightarrow> last u \<noteq> CHR ''.''" using 1 last_in_set by metis
      ultimately show ?thesis using u by (cases "w = []") auto
    next
      case w: (2 q w')
      have "prefix (u @ ''.'') (q @ CHR ''.'' # w') \<longleftrightarrow> u = q"
        using 1 w(1) by (auto simp: prefix_def append_eq_append_conv2 append_eq_Cons_conv Cons_eq_append_conv)
      then show ?thesis using u w 1 by (auto simp: rev_labels_dot)
    qed
  next
    case u: (2 p u')
    then have ul: "rev_labels (u @ ''.'') = rev p # rev_labels (u' @ ''.'')" by (simp add: rev_labels_dot)
    show ?thesis
    proof (cases w rule: dot_cases)
      case w: 1
      then have "w \<noteq> [] \<Longrightarrow> rev_labels w = [rev w]" by (simp add: rev_labels_no_dot)
      moreover have "\<not> prefix (u @ ''.'') w" "w \<noteq> u" using w u by (auto simp: prefix_def)
      ultimately show ?thesis using ul by (cases "w = []") auto
    next
      case w: (2 q w')
      have IH: "prefix (rev_labels (u' @ ''.'')) (rev_labels w') \<longleftrightarrow>
          prefix (u' @ ''.'') w' \<or> w' = u' \<and> u' \<noteq> [] \<and> last u' \<noteq> CHR ''.''"
        using less.hyps [of u' w'] u by simp
      have "prefix (u @ ''.'') w \<longleftrightarrow> p = q \<and> prefix (u' @ ''.'') w'"
        using u w by (auto simp: prefix_def append_eq_append_conv2 append_eq_Cons_conv Cons_eq_append_conv)
      moreover have "w = u \<longleftrightarrow> p = q \<and> w' = u'"
        using u w by (auto simp: append_eq_append_conv2 append_eq_Cons_conv Cons_eq_append_conv)
      moreover have "u \<noteq> [] \<and> last u \<noteq> CHR ''.'' \<longleftrightarrow> u' \<noteq> [] \<and> last u' \<noteq> CHR ''.''"
        using u by (auto split: if_splits)
      ultimately show ?thesis using IH ul w by (auto simp: rev_labels_dot)
    qed
  qed
qed

lemma namespace_match_iff: "namespace_match r d \<longleftrightarrow> d = r \<or> suffix (CHR ''.'' # r) d"
  by (auto simp: namespace_match_rev suffix_to_prefix)

lemma labels_leading_dot:
  assumes "rule \<noteq> []" and "hd rule = CHR ''.''"
  shows "prefix (labels rule (length rule)) (labels domain (length domain)) \<longleftrightarrow>
    namespace_match rule domain \<or> leading_dot_match rule domain"
proof -
  from assms obtain u where u: "rule = CHR ''.'' # u" by (cases rule) auto
  have "namespace_match rule domain \<Longrightarrow> suffix rule domain"
    unfolding namespace_match_iff using suffix_ConsD by auto
  moreover have "prefix (labels rule (length rule)) (labels domain (length domain)) \<longleftrightarrow>
      suffix rule domain \<or> domain = u \<and> u \<noteq> [] \<and> hd u \<noteq> CHR ''.''"
    using prefix_rev_labels_dot [of "rev u" "rev domain"]
    by (simp add: labels_rev u suffix_to_prefix last_rev)
  ultimately show ?thesis by (auto simp: leading_dot_match_def u)
qed

section \<open>The trie is a rule index\<close>

lemma ns_trie_match_insert:
  "ns_trie_match (ns_trie_insert rule t) d \<longleftrightarrow>
   ns_trie_match t d \<or> namespace_match rule d \<or> leading_dot_match rule d"
proof (cases "rule = []")
  case True
  then show ?thesis
    by (auto simp: ns_trie_match_def ns_trie_insert_def namespace_match_empty leading_dot_match_def)
next
  case False
  have "prefix (labels rule (length rule)) (labels d (length d)) \<longleftrightarrow>
      namespace_match rule d \<or> leading_dot_match rule d"
    using labels_leading_dot [OF False] labels_namespace [OF False]
    by (cases "hd rule = CHR ''.''") (auto simp: leading_dot_match_def)
  moreover have "labels rule (length rule) \<noteq> []" using False by (simp add: labels_rev)
  ultimately have "trie_walk d (length d) (trie_insert_at rule (length rule) (root t)) \<longleftrightarrow>
      trie_walk d (length d) (root t) \<or> namespace_match rule d \<or> leading_dot_match rule d"
    by (simp add: trie_insert_at_labels trie_walk_labels tr_find_ins)
  with False show ?thesis by (auto simp: ns_trie_match_def ns_trie_insert_def)
qed

interpretation ns: rule_index ns_trie_empty "\<lambda>r t. Some (ns_trie_insert r t)"
  "\<lambda>t d. Some (ns_trie_match t d)" "\<lambda>_. True" "\<lambda>_. True"
  "\<lambda>r d. namespace_match r d \<or> leading_dot_match r d"
proof unfold_locales
  show "Some (ns_trie_match ns_trie_empty d) = Some False" for d
    by (simp add: ns_trie_match_def ns_trie_empty_def trie_walk_labels)
qed (auto simp: ns_trie_match_insert)

text \<open>
  Namespace rules.  Inserting any list of rules gives a trie that matches a name exactly when the
  name is one of the rules or ends in a dot followed by one of them, or when a rule with a leading
  dot gives it (\<^const>\<open>leading_dot_match\<close>).  The first part is what the reference test
  \<^verbatim>\<open>namespace_match\<close> of a single rule decides.
\<close>

theorem ns_trie_correct:
  "(ns_trie_match (fold ns_trie_insert rules ns_trie_empty) d \<longleftrightarrow>
      (\<exists>r\<in>set rules. d = r \<or> suffix (CHR ''.'' # r) d \<or> leading_dot_match r d)) \<and>
    (namespace_match r d \<longleftrightarrow> d = r \<or> suffix (CHR ''.'' # r) d)"
proof -
  have fold: "foldM (\<lambda>r t. Some (ns_trie_insert r t)) rs t = Some (fold ns_trie_insert rs t)" for rs t
    by (induction rs arbitrary: t) auto
  show ?thesis using ns.build [of rules] by (auto simp: fold list_all_iff namespace_match_iff)
qed

text \<open>
  A leading dot is lost in the trie: the rule ``.com'' indexes the same names as ``com'', so the
  index matches ``x.com'' although the reference test of that rule rejects it.
\<close>

theorem ns_trie_leading_dot:
  "ns_trie_match (ns_trie_insert ''.com'' ns_trie_empty) ''x.com'' \<and>
   \<not> namespace_match ''.com'' ''x.com''"
  by code_simp

end
