(* ===== verification/Wildcard.thy ===== *)
theory Wildcard
  imports Prelude
begin

text \<open>
  \<^verbatim>\<open>src/rules/wildcard.c\<close>: the wildcard matcher \<^verbatim>\<open>mt_wildcard_match\<close>, a backtracking loop over
  two indices with one remembered \<^verbatim>\<open>*\<close> and one remembered \<^verbatim>\<open>?\<close>.  The loop variables are the
  record \<open>wc_state\<close>; one iteration is \<open>wc_step\<close>, the \<^verbatim>\<open>for (;;)\<close> loop is \<open>wc_loop\<close>, whose
  termination proof is a six-fold lexicographic measure, and the trailing
  \<^verbatim>\<open>check_pattern\<close> loop is \<open>check_pattern\<close>.
\<close>

section \<open>The matcher\<close>

record wc_state =
  pattern_index :: nat
  s_index :: nat
  last_star :: nat
  last_eroteme :: nat
  last_eroteme_cluster :: char
  has_star :: bool
  star :: nat
  has_eroteme :: bool
  eroteme :: nat

definition wc_init :: wc_state where
  "wc_init = \<lparr>pattern_index = 0, s_index = 0, last_star = 0, last_eroteme = 0,
     last_eroteme_cluster = CHR 0x00, has_star = False, star = 0, has_eroteme = False, eroteme = 0\<rparr>"

text \<open>One pass through the body of the loop: return, leave for \<^verbatim>\<open>check_pattern\<close>, or go on.\<close>

datatype wc_result = WReturn bool | WCheck | WContinue wc_state

definition star_retry :: "wc_state \<Rightarrow> wc_state" where
  "star_retry st = st\<lparr>pattern_index := star st + 1, last_star := last_star st + 1,
     s_index := last_star st + 1\<rparr>"

definition eroteme_retry :: "wc_state \<Rightarrow> wc_state" where
  "eroteme_retry st = st\<lparr>pattern_index := eroteme st + 1, s_index := last_eroteme st,
     has_eroteme := False\<rparr>"

definition wc_advance :: "wc_state \<Rightarrow> wc_state" where
  "wc_advance st = st\<lparr>pattern_index := pattern_index st + 1, s_index := s_index st + 1\<rparr>"

definition wc_step :: "string \<Rightarrow> string \<Rightarrow> wc_state \<Rightarrow> wc_result" where
  "wc_step pattern s st =
    (let pi = pattern_index st; si = s_index st in
     if si \<ge> length s then WCheck
     else if pi \<ge> length pattern then
       (if has_star st then WContinue (star_retry st) else WReturn False)
     else if pattern ! pi = CHR ''.'' then WContinue (wc_advance st)
     else if pattern ! pi = CHR ''?'' then
       WContinue (wc_advance (st\<lparr>has_eroteme := True, eroteme := pi, last_eroteme := si,
         last_eroteme_cluster := s ! si\<rparr>))
     else if pattern ! pi = CHR ''*'' then
       WContinue (st\<lparr>has_star := True, star := pi, last_star := si, pattern_index := pi + 1\<rparr>)
     else if pattern ! pi \<noteq> s ! si then
       (if has_eroteme st then WContinue (eroteme_retry st)
        else if has_star st then WContinue (star_retry st)
        else WReturn False)
     else WContinue (wc_advance
       (if has_eroteme st \<and> last_eroteme_cluster st \<noteq> s ! si
        then st\<lparr>has_eroteme := False\<rparr> else st)))"

text \<open>The \<^verbatim>\<open>check_pattern\<close> loop, from pattern position \<open>pi\<close> and text position \<open>si\<close>.\<close>

function check_pattern :: "string \<Rightarrow> string \<Rightarrow> nat \<Rightarrow> nat \<Rightarrow> nat" where
  "check_pattern pattern s pi si =
    (if pi < length pattern then
       if pattern ! pi = CHR ''*'' then check_pattern pattern s (pi + 1) si
       else if pattern ! pi = CHR ''?'' then
         check_pattern pattern s (pi + 1) (if si \<ge> length s \<and> si > 0 then si - 1 else si)
       else pi
     else pi)"
  by pat_completeness auto
termination
  by (relation "measure (\<lambda>(p, s, pi, si). length p - pi)") auto

declare check_pattern.simps [simp del]

text \<open>
  The termination measure of the loop.  \<open>wc_floor\<close> bounds every pattern position visited
  later from below; \<open>wc_rank\<close> charges a remembered \<^verbatim>\<open>?\<close> that lies before the remembered
  \<^verbatim>\<open>*\<close>; \<open>wc_star_rank\<close> is the \<^verbatim>\<open>*\<close> already passed; \<open>wc_eroteme_rank\<close> charges the
  remembered \<^verbatim>\<open>?\<close> after it.
\<close>

definition wc_floor :: "wc_state \<Rightarrow> nat" where
  "wc_floor st = min (pattern_index st)
     (min (if has_star st then star st + 1 else pattern_index st)
          (if has_eroteme st then eroteme st + 1 else pattern_index st))"

definition wc_rank :: "nat \<Rightarrow> wc_state \<Rightarrow> nat" where
  "wc_rank n st = (n - wc_floor st) +
     (if has_eroteme st \<and> (\<not> has_star st \<or> eroteme st \<le> star st) then 1 else 0)"

definition wc_star_rank :: "nat \<Rightarrow> wc_state \<Rightarrow> nat" where
  "wc_star_rank n st =
     Suc n - (if has_star st \<and> star st < pattern_index st then Suc (star st) else 0)"

definition wc_eroteme_rank :: "nat \<Rightarrow> wc_state \<Rightarrow> nat" where
  "wc_eroteme_rank n st =
     (n - min (pattern_index st) (if has_eroteme st then eroteme st + 1 else pattern_index st)) +
     (if has_eroteme st then 1 else 0)"

lemmas wc_measure_defs = wc_floor_def wc_rank_def wc_star_rank_def wc_eroteme_rank_def
lemmas wc_step_defs = wc_step_def wc_advance_def star_retry_def eroteme_retry_def Let_def

definition wc_measure :: "(string \<times> string \<times> wc_state) rel" where
  "wc_measure = measures
    [\<lambda>(p, s, st). if s_index st < length s then 1 else 0,
     \<lambda>(p, s, st). wc_rank (length p) st,
     \<lambda>(p, s, st). wc_star_rank (length p) st,
     \<lambda>(p, s, st). length s - last_star st,
     \<lambda>(p, s, st). wc_eroteme_rank (length p) st,
     \<lambda>(p, s, st). length s - s_index st]"

text \<open>One lemma per kind of transition.\<close>

lemma wc_measureI:
  assumes "s_index st < length s"
    and "s_index st' < length s \<Longrightarrow> wc_rank (length p) st' \<le> wc_rank (length p) st"
    and "s_index st' < length s \<Longrightarrow> wc_rank (length p) st' = wc_rank (length p) st \<Longrightarrow>
      wc_star_rank (length p) st' < wc_star_rank (length p) st \<or>
      wc_star_rank (length p) st' = wc_star_rank (length p) st \<and>
      (length s - last_star st' < length s - last_star st \<or>
       last_star st' = last_star st \<and>
       (wc_eroteme_rank (length p) st' < wc_eroteme_rank (length p) st \<or>
        wc_eroteme_rank (length p) st' = wc_eroteme_rank (length p) st \<and>
        length s - s_index st' < length s - s_index st))"
  shows "((p, s, st'), (p, s, st)) \<in> wc_measure"
  using assms unfolding wc_measure_def by (cases "s_index st' < length s") auto

lemma star_retry_decreases:
  assumes "has_star st" "s_index st < length s"
  shows "((p, s, star_retry st), (p, s, st)) \<in> wc_measure"
proof (rule wc_measureI)
  show "wc_rank (length p) (star_retry st) \<le> wc_rank (length p) st"
    using assms by (auto simp: star_retry_def wc_rank_def wc_floor_def min_def)
qed (use assms in \<open>auto simp: star_retry_def wc_star_rank_def\<close>)

lemma eroteme_retry_decreases:
  assumes "has_eroteme st" "s_index st < length s"
  shows "((p, s, eroteme_retry st), (p, s, st)) \<in> wc_measure"
proof (rule wc_measureI)
  show "wc_rank (length p) (eroteme_retry st) \<le> wc_rank (length p) st"
    using assms by (auto simp: eroteme_retry_def wc_rank_def wc_floor_def min_def)
qed (use assms in \<open>auto simp: eroteme_retry_def wc_measure_defs\<close>)

lemma star_decreases:
  assumes "pattern_index st < length p" "s_index st < length s"
  shows "((p, s, st\<lparr>has_star := True, star := pattern_index st, last_star := s_index st,
            pattern_index := pattern_index st + 1\<rparr>), (p, s, st)) \<in> wc_measure"
proof (rule wc_measureI)
  let ?st = "st\<lparr>has_star := True, star := pattern_index st, last_star := s_index st,
            pattern_index := pattern_index st + 1\<rparr>"
  show "wc_rank (length p) ?st \<le> wc_rank (length p) st"
    using assms by (auto simp: wc_rank_def wc_floor_def min_def)
  show "wc_star_rank (length p) ?st < wc_star_rank (length p) st \<or> X" for X
    using assms by (auto simp: wc_star_rank_def)
qed (use assms in auto)

lemma advance_decreases:
  assumes "s_index st < length s"
  shows "((p, s, wc_advance st), (p, s, st)) \<in> wc_measure"
proof (rule wc_measureI)
  show "wc_rank (length p) (wc_advance st) \<le> wc_rank (length p) st"
    by (auto simp: wc_advance_def wc_rank_def wc_floor_def min_def)
qed (use assms in \<open>auto simp: wc_advance_def wc_star_rank_def wc_eroteme_rank_def min_def\<close>)

lemma advance_forget_decreases:
  assumes "s_index st < length s"
  shows "((p, s, wc_advance (st\<lparr>has_eroteme := False\<rparr>)), (p, s, st)) \<in> wc_measure"
proof (rule wc_measureI)
  show "wc_rank (length p) (wc_advance (st\<lparr>has_eroteme := False\<rparr>)) \<le> wc_rank (length p) st"
    by (auto simp: wc_advance_def wc_rank_def wc_floor_def min_def)
qed (use assms in \<open>auto simp: wc_advance_def wc_star_rank_def wc_eroteme_rank_def min_def\<close>)

lemma advance_eroteme_decreases:
  assumes "s_index st < length s" "pattern_index st < length p"
  shows "((p, s, wc_advance (st\<lparr>has_eroteme := True, eroteme := pattern_index st,
            last_eroteme := s_index st, last_eroteme_cluster := c\<rparr>)), (p, s, st)) \<in> wc_measure"
    (is "((p, s, ?st), _) \<in> _")
proof (rule wc_measureI)
  show "wc_rank (length p) ?st \<le> wc_rank (length p) st"
    using assms by (auto simp: wc_advance_def wc_rank_def wc_floor_def min_def)
qed (use assms in \<open>auto simp: wc_advance_def wc_star_rank_def wc_eroteme_rank_def min_def\<close>)

lemma wc_step_decreases:
  assumes "wc_step p s st = WContinue st'"
  shows "((p, s, st'), (p, s, st)) \<in> wc_measure"
  using assms
  by (auto simp: wc_step_def Let_def star_retry_decreases eroteme_retry_decreases
      star_decreases [simplified] advance_decreases advance_forget_decreases advance_eroteme_decreases split: if_splits)

lemma wf_wc_measure: "wf wc_measure"
  by (simp add: wc_measure_def)

text \<open>The \<^verbatim>\<open>for (;;)\<close> loop, and the whole function with its early returns.\<close>

function wc_loop :: "string \<Rightarrow> string \<Rightarrow> wc_state \<Rightarrow> bool" where
  "wc_loop pattern s st =
    (case wc_step pattern s st of
       WReturn b \<Rightarrow> b
     | WCheck \<Rightarrow>
         check_pattern pattern s (pattern_index st) (s_index st) = length pattern
     | WContinue st' \<Rightarrow> wc_loop pattern s st')"
  by pat_completeness auto
termination
  by (relation wc_measure) (rule wf_wc_measure, rule wc_step_decreases)

declare wc_loop.simps [simp del]

definition mt_wildcard_match :: "string \<Rightarrow> string \<Rightarrow> bool" where
  "mt_wildcard_match pattern s =
    (if pattern = [] then s = []
     else if pattern = ''*'' \<or> pattern = s then True
     else wc_loop pattern s wc_init)"

section \<open>What a match means\<close>

text \<open>
  A pattern is a sequence of one-character tokens, and a name matches when it splits into one
  piece per token: any piece for \<^verbatim>\<open>*\<close>, one byte for \<^verbatim>\<open>.\<close>, at most one byte for \<^verbatim>\<open>?\<close>, the byte
  itself for every other character.
\<close>

definition tok :: "char \<Rightarrow> string \<Rightarrow> bool" where
  "tok c w = (if c = CHR ''*'' then True else if c = CHR ''.'' then length w = 1
     else if c = CHR ''?'' then length w \<le> 1 else w = [c])"

definition wild_matches :: "string \<Rightarrow> string \<Rightarrow> bool" where
  "wild_matches p s \<longleftrightarrow> (\<exists>ws. s = concat ws \<and> list_all2 tok p ws)"

lemma wild_matches_Nil [simp]: "wild_matches [] s \<longleftrightarrow> s = []"
  by (auto simp: wild_matches_def)

lemma wild_matches_Cons:
  "wild_matches (c # p) s \<longleftrightarrow> (\<exists>u v. s = u @ v \<and> tok c u \<and> wild_matches p v)"
proof
  assume "wild_matches (c # p) s"
  then show "\<exists>u v. s = u @ v \<and> tok c u \<and> wild_matches p v"
    unfolding wild_matches_def by (auto simp: list_all2_Cons1) blast
next
  assume "\<exists>u v. s = u @ v \<and> tok c u \<and> wild_matches p v"
  then obtain u ws where "s = concat (u # ws)" "list_all2 tok (c # p) (u # ws)"
    by (auto simp: wild_matches_def)
  then show "wild_matches (c # p) s" unfolding wild_matches_def by blast
qed

lemma wild_matches_append:
  "wild_matches (p @ q) s \<longleftrightarrow> (\<exists>u v. s = u @ v \<and> wild_matches p u \<and> wild_matches q v)"
proof (induction p arbitrary: s)
  case (Cons c p)
  then show ?case by (simp add: wild_matches_Cons) (metis append_assoc)
qed simp

lemma wild_matches_snoc:
  "wild_matches p u \<Longrightarrow> tok c v \<Longrightarrow> wild_matches (p @ [c]) (u @ v)"
  by (auto simp: wild_matches_append wild_matches_Cons)

lemma wild_matches_self: "wild_matches p p"
proof (induction p)
  case (Cons c p)
  have "tok c [c]" by (simp add: tok_def)
  with Cons show ?case by (auto simp: wild_matches_Cons intro: exI [of _ "[c]"])
qed simp

lemma tok_empty: "tok c [] \<longleftrightarrow> c = CHR ''*'' \<or> c = CHR ''?''"
  by (simp add: tok_def)

lemma wild_matches_empty: "wild_matches p [] \<longleftrightarrow> (\<forall>c\<in>set p. tok c [])"
  by (induction p) (auto simp: wild_matches_Cons)

lemma check_pattern_iff:
  "check_pattern p s pi si = length p \<longleftrightarrow>
   pi \<le> length p \<and> (\<forall>c\<in>set (drop pi p). c = CHR ''*'' \<or> c = CHR ''?'')"
proof (induction p s pi si rule: check_pattern.induct)
  case (1 p s pi si)
  show ?case
  proof (cases "pi < length p")
    case True
    with 1 show ?thesis
      by (auto simp: check_pattern.simps [of p s pi si] drop_nth_Cons)
  next
    case False
    then show ?thesis by (simp add: check_pattern.simps [of p s pi si])
  qed
qed

subsection \<open>Soundness, for every pattern\<close>

text \<open>The part of the pattern passed so far matches the part of the name passed so far, also
  at the two positions the loop may return to.\<close>

definition wc_sound :: "string \<Rightarrow> string \<Rightarrow> wc_state \<Rightarrow> bool" where
  "wc_sound p s st \<longleftrightarrow>
     wild_matches (take (pattern_index st) p) (take (s_index st) s) \<and>
     (has_star st \<longrightarrow> star st < length p \<and> p ! star st = CHR ''*'' \<and>
        wild_matches (take (Suc (star st)) p) (take (last_star st) s)) \<and>
     (has_eroteme st \<longrightarrow>
        wild_matches (take (Suc (eroteme st)) p) (take (last_eroteme st) s))"

lemma wild_matches_star_more:
  assumes "wild_matches (take (Suc i) p) (take k s)" "i < length p" "p ! i = CHR ''*''"
  shows "wild_matches (take (Suc i) p) (take (Suc k) s)"
proof -
  obtain u v where uv: "take k s = u @ v" "wild_matches (take i p) u"
    using assms by (auto simp: take_nth_snoc wild_matches_append wild_matches_Cons)
  obtain w where "take (Suc k) s = take k s @ w"
    by (metis append_take_drop_id le_Suc_eq min.absorb1 order_refl take_take)
  then have "take (Suc k) s = u @ (v @ w)" using uv by simp
  with uv(2) assms show ?thesis
    by (auto simp: take_nth_snoc tok_def intro: wild_matches_snoc)
qed

lemma wc_sound_advance:
  assumes "wild_matches (take (pattern_index st) p) (take (s_index st) s)"
    and "pattern_index st < length p" "s_index st < length s"
    and "tok (p ! pattern_index st) [s ! s_index st]"
  shows "wild_matches (take (Suc (pattern_index st)) p) (take (Suc (s_index st)) s)"
  using assms by (simp add: take_nth_snoc wild_matches_snoc)

lemma wc_sound_skip:
  assumes "wild_matches (take i p) u" "i < length p" "tok (p ! i) []"
  shows "wild_matches (take (Suc i) p) u"
  using wild_matches_snoc [OF assms(1,3)] assms(2) by (simp add: take_nth_snoc)

lemma wc_sound_step:
  assumes "wc_sound p s st" "wc_step p s st = WContinue st'"
  shows "wc_sound p s st'"
  using assms
  by (auto simp: wc_sound_def wc_step_def Let_def wc_advance_def star_retry_def eroteme_retry_def
      tok_def wild_matches_star_more wc_sound_advance wc_sound_skip split: if_splits)

lemma wc_loop_sound: "wc_sound p s st \<Longrightarrow> wc_loop p s st \<Longrightarrow> wild_matches p s"
proof (induction p s st rule: wc_loop.induct)
  case (1 p s st)
  show ?case
  proof (cases "wc_step p s st")
    case (WReturn b)
    then have "\<not> b" by (auto simp: wc_step_def Let_def split: if_splits)
    with "1.prems" WReturn show ?thesis by (simp add: wc_loop.simps [of p s st])
  next
    case WCheck
    then have end_s: "take (s_index st) s = s"
      by (auto simp: wc_step_def Let_def split: if_splits)
    from WCheck "1.prems" have "\<forall>c\<in>set (drop (pattern_index st) p). c = CHR ''*'' \<or> c = CHR ''?''"
      by (simp add: wc_loop.simps [of p s st] check_pattern_iff)
    then have "wild_matches (drop (pattern_index st) p) []"
      by (simp only: wild_matches_empty tok_empty)
    moreover have "wild_matches (take (pattern_index st) p) s"
      using "1.prems" end_s by (simp add: wc_sound_def)
    ultimately have "wild_matches (take (pattern_index st) p @ drop (pattern_index st) p) (s @ [])"
      unfolding wild_matches_append by blast
    then show ?thesis by simp
  next
    case (WContinue st')
    with 1 show ?thesis by (simp add: wc_loop.simps [of p s st] wc_sound_step)
  qed
qed

text \<open>
  Whatever pattern a rule has, a name the matcher accepts really splits into one piece per
  pattern character: the backtracking never accepts a name the pattern does not describe.
\<close>

theorem wildcard_sound:
  assumes "mt_wildcard_match p s"
  shows "wild_matches p s"
proof -
  have "wc_sound p s wc_init" by (simp add: wc_sound_def wc_init_def)
  with assms show ?thesis
    by (auto simp: mt_wildcard_match_def wild_matches_self wild_matches_Cons tok_def
        dest: wc_loop_sound split: if_splits)
qed

theorem wildcard_sound_witness:
  "mt_wildcard_match ''a*b?'' ''axb'' \<and> wild_matches ''a*b?'' ''axb''"
proof -
  have m: "mt_wildcard_match ''a*b?'' ''axb''"
    by (simp add: mt_wildcard_match_def wc_init_def wc_loop.simps wc_step_def wc_advance_def
        eroteme_retry_def star_retry_def check_pattern.simps)
  with wildcard_sound [OF m] show ?thesis by simp
qed

subsection \<open>Completeness, for patterns without an eroteme\<close>

lemma wild_matches_drop_one:
  assumes "wild_matches (drop i p) (drop j s)" "i < length p" "p ! i \<noteq> CHR ''*''" "p ! i \<noteq> CHR ''?''"
  shows "j < length s \<and> (p ! i = CHR ''.'' \<or> p ! i = s ! j) \<and>
    wild_matches (drop (Suc i) p) (drop (Suc j) s)"
proof -
  obtain u v where uv: "drop j s = u @ v" "tok (p ! i) u" "wild_matches (drop (Suc i) p) v"
    using assms(1,2) by (auto simp: drop_nth_Cons wild_matches_Cons)
  then obtain c where c: "u = [c]" using assms(3,4) by (auto simp: tok_def length_Suc_conv split: if_splits)
  then have j: "j < length s" "s ! j = c" "drop (Suc j) s = v"
    using uv(1) by (metis append_Cons drop_eq_Nil leI list.discI, metis append_Cons hd_drop_conv_nth
        drop_eq_Nil leI list.discI list.sel(1), metis append_Cons append_Nil drop_Suc list.sel(3) tl_drop)
  with uv c assms(3,4) show ?thesis by (auto simp: tok_def split: if_splits)
qed

lemma wild_matches_drop_star:
  assumes "wild_matches (drop i p) (drop j s)" "i < length p" "j \<le> length s"
  shows "\<exists>k. j \<le> k \<and> k \<le> length s \<and> wild_matches (drop (Suc i) p) (drop k s)"
proof -
  obtain u v where uv: "drop j s = u @ v" "wild_matches (drop (Suc i) p) v"
    using assms(1,2) by (auto simp: drop_nth_Cons wild_matches_Cons)
  then have "drop (j + length u) s = v" by (metis add.commute append_eq_conv_conj drop_drop)
  moreover have "j + length u \<le> length s"
    using arg_cong [OF uv(1), of length] assms(3) by simp
  ultimately show ?thesis using uv(2) by (intro exI [of _ "j + length u"]) simp
qed

definition wc_complete :: "string \<Rightarrow> string \<Rightarrow> wc_state \<Rightarrow> bool" where
  "wc_complete p s st \<longleftrightarrow>
     \<not> has_eroteme st \<and> pattern_index st \<le> length p \<and>
     (if has_star st then
        star st < length p \<and> last_star st \<le> s_index st \<and>
        (\<exists>k\<ge>last_star st. k \<le> length s \<and> wild_matches (drop (Suc (star st)) p) (drop k s)) \<and>
        (\<forall>k\<ge>last_star st. k \<le> length s \<longrightarrow> wild_matches (drop (Suc (star st)) p) (drop k s) \<longrightarrow>
           k + (s_index st - last_star st) \<le> length s \<and>
           wild_matches (drop (pattern_index st) p) (drop (k + (s_index st - last_star st)) s))
      else s_index st \<le> length s \<and> wild_matches (drop (pattern_index st) p) (drop (s_index st) s))"

lemma wc_complete_starD:
  assumes "wc_complete p s st" "has_star st" "k \<ge> last_star st" "k \<le> length s"
    and "wild_matches (drop (Suc (star st)) p) (drop k s)"
  shows "k + (s_index st - last_star st) \<le> length s"
    and "wild_matches (drop (pattern_index st) p) (drop (k + (s_index st - last_star st)) s)"
  using assms unfolding wc_complete_def if_P [OF assms(2)] by blast+

text \<open>The two retries and the three ways to go on keep it, when the pattern has no eroteme.\<close>

lemma wc_complete_star_retry:
  assumes inv: "wc_complete p s st" and st: "has_star st"
    and no: "\<not> wild_matches (drop (pattern_index st) p) (drop (s_index st) s)"
  shows "wc_complete p s (star_retry st)"
proof -
  from inv st obtain k where k: "k \<ge> last_star st" "k \<le> length s"
      "wild_matches (drop (Suc (star st)) p) (drop k s)"
    by (auto simp: wc_complete_def)
  have "k \<noteq> last_star st" using inv st no k by (auto simp: wc_complete_def)
  with k inv st show ?thesis
    by (auto simp: wc_complete_def star_retry_def intro!: exI [of _ k])
qed

lemma wc_complete_advance:
  assumes inv: "wc_complete p s st" and pi: "pattern_index st < length p"
    and lit: "p ! pattern_index st \<noteq> CHR ''*''" "p ! pattern_index st \<noteq> CHR ''?''"
  shows "wc_complete p s (wc_advance st)"
proof (cases "has_star st")
  case False
  with inv pi lit show ?thesis
    by (auto simp: wc_complete_def wc_advance_def dest: wild_matches_drop_one)
next
  case True
  { fix k assume k: "k \<ge> last_star st" "k \<le> length s"
      "wild_matches (drop (Suc (star st)) p) (drop k s)"
    then have "wild_matches (drop (pattern_index st) p) (drop (k + (s_index st - last_star st)) s)"
      by (rule wc_complete_starD(2) [OF inv True])
    from wild_matches_drop_one [OF this pi lit]
    have "Suc (k + (s_index st - last_star st)) \<le> length s \<and>
      wild_matches (drop (Suc (pattern_index st)) p) (drop (Suc (k + (s_index st - last_star st))) s)"
      by simp }
  with inv True pi show ?thesis
    by (auto simp: wc_complete_def wc_advance_def Suc_diff_le)
qed

lemma wc_complete_star:
  assumes inv: "wc_complete p s st" and pi: "pattern_index st < length p"
  shows "wc_complete p s (st\<lparr>has_star := True, star := pattern_index st, last_star := s_index st,
            pattern_index := pattern_index st + 1\<rparr>)"
proof -
  obtain j where j: "s_index st \<le> j" "j \<le> length s" "wild_matches (drop (pattern_index st) p) (drop j s)"
  proof (cases "has_star st")
    case False
    with inv that [of "s_index st"] show ?thesis by (auto simp: wc_complete_def)
  next
    case True
    with inv obtain k where k: "k \<ge> last_star st" "k \<le> length s"
        "wild_matches (drop (Suc (star st)) p) (drop k s)" "last_star st \<le> s_index st"
      by (auto simp: wc_complete_def)
    with wc_complete_starD [OF inv True k(1-3)] that [of "k + (s_index st - last_star st)"]
    show ?thesis by simp
  qed
  from wild_matches_drop_star [OF j(3) pi j(2)] obtain k where
    "j \<le> k" "k \<le> length s" "wild_matches (drop (Suc (pattern_index st)) p) (drop k s)" by auto
  with j(1) inv pi show ?thesis
    by (auto simp: wc_complete_def intro!: exI [of _ k])
qed

lemma wild_matches_mismatch:
  assumes "i < length p" "p ! i \<noteq> CHR ''*''" "p ! i \<noteq> CHR ''?''" "p ! i \<noteq> CHR ''.''" "p ! i \<noteq> s ! j"
  shows "\<not> wild_matches (drop i p) (drop j s)"
  using wild_matches_drop_one [of i p j s] assms by auto

lemma wc_complete_step:
  assumes inv: "wc_complete p s st" and q: "CHR ''?'' \<notin> set p"
    and step: "wc_step p s st = WContinue st'"
  shows "wc_complete p s st'"
proof (cases "pattern_index st < length p")
  case False
  with step have "has_star st" "st' = star_retry st" "\<not> length s \<le> s_index st"
    by (auto simp: wc_step_def Let_def split: if_splits)
  with False inv show ?thesis by (simp add: wc_complete_star_retry)
next
  case True
  then have nq: "p ! pattern_index st \<noteq> CHR ''?''" using q by (metis nth_mem)
  have er: "\<not> has_eroteme st" using inv by (simp add: wc_complete_def)
  show ?thesis
    using step True nq er inv
    by (auto simp: wc_step_def Let_def wc_complete_advance wc_complete_star [simplified]
        wc_complete_star_retry wild_matches_mismatch split: if_splits)
qed

lemma wc_complete_not_false:
  assumes inv: "wc_complete p s st" and q: "CHR ''?'' \<notin> set p"
  shows "wc_step p s st \<noteq> WReturn False"
proof
  assume "wc_step p s st = WReturn False"
  with inv have *: "s_index st < length s" "\<not> has_star st"
      "length p \<le> pattern_index st \<or> pattern_index st < length p \<and> p ! pattern_index st \<noteq> s ! s_index st \<and>
       p ! pattern_index st \<noteq> CHR ''*'' \<and> p ! pattern_index st \<noteq> CHR ''?'' \<and>
       p ! pattern_index st \<noteq> CHR ''.''"
    by (auto simp: wc_step_def Let_def split: if_splits)
  with inv show False by (auto simp: wc_complete_def wild_matches_mismatch)
qed

lemma wc_complete_check:
  assumes inv: "wc_complete p s st" and q: "CHR ''?'' \<notin> set p" and si: "length s \<le> s_index st"
  shows "check_pattern p s (pattern_index st) (s_index st) = length p"
proof -
  have "wild_matches (drop (pattern_index st) p) []"
  proof (cases "has_star st")
    case False
    with inv si show ?thesis by (simp add: wc_complete_def)
  next
    case True
    with inv obtain k where k: "k \<ge> last_star st" "k \<le> length s"
        "wild_matches (drop (Suc (star st)) p) (drop k s)" "last_star st \<le> s_index st"
      by (auto simp: wc_complete_def)
    from wc_complete_starD(2) [OF inv True k(1-3)] k(1,4) si show ?thesis by simp
  qed
  then have "\<forall>c\<in>set (drop (pattern_index st) p). c = CHR ''*'' \<or> c = CHR ''?''"
    by (simp only: wild_matches_empty tok_empty)
  with inv show ?thesis by (simp add: check_pattern_iff wc_complete_def)
qed

lemma wc_loop_complete:
  "wc_complete p s st \<Longrightarrow> CHR ''?'' \<notin> set p \<Longrightarrow> wc_loop p s st"
proof (induction p s st rule: wc_loop.induct)
  case (1 p s st)
  show ?case
  proof (cases "wc_step p s st")
    case (WReturn b)
    with wc_complete_not_false [OF "1.prems"] show ?thesis
      by (cases b) (simp_all add: wc_loop.simps [of p s st])
  next
    case WCheck
    then have "length s \<le> s_index st" by (auto simp: wc_step_def Let_def split: if_splits)
    from wc_complete_check [OF "1.prems" this] WCheck show ?thesis
      by (simp add: wc_loop.simps [of p s st])
  next
    case (WContinue st')
    from wc_complete_step [OF "1.prems" this] "1.prems"(2) "1.IH" [OF this(1)] WContinue
    show ?thesis by (simp add: wc_loop.simps [of p s st] "1.IH")
  qed
qed

text \<open>
  C36.  For patterns without \<^verbatim>\<open>?\<close> the matcher is exact: it accepts a name if and only if the
  name splits into one piece per pattern character, with \<^verbatim>\<open>*\<close> any run of bytes and \<^verbatim>\<open>.\<close> any
  single byte.  Remembering only the last \<^verbatim>\<open>*\<close> loses no match.
\<close>

theorem wildcard_exact:
  assumes "CHR ''?'' \<notin> set p"
  shows "mt_wildcard_match p s \<longleftrightarrow> wild_matches p s"
proof
  assume m: "mt_wildcard_match p s"
  show "wild_matches p s"
    using wc_loop_sound [of p s wc_init] m
    by (auto simp: mt_wildcard_match_def wild_matches_self wild_matches_Cons tok_def wc_sound_def
        wc_init_def split: if_splits)
next
  assume m: "wild_matches p s"
  then have "wc_complete p s wc_init" by (simp add: wc_complete_def wc_init_def)
  with m assms show "mt_wildcard_match p s"
    by (auto simp: mt_wildcard_match_def wc_loop_complete)
qed

theorem wildcard_exact_witness:
  "mt_wildcard_match ''*example.com'' ''a.example.com'' \<longleftrightarrow>
   wild_matches ''*example.com'' ''a.example.com''"
  by (rule wildcard_exact) simp

text \<open>
  A trailing \<^verbatim>\<open>?\<close> also matches nothing: \<^verbatim>\<open>a?\<close> accepts \<^verbatim>\<open>a\<close>, and \<^verbatim>\<open>ab?\<close> accepts
  every name \<^verbatim>\<open>ab\<close> and \<^verbatim>\<open>abc\<close>.  The README and \<^verbatim>\<open>match.h\<close> say that \<^verbatim>\<open>?\<close> stands for exactly one byte.
\<close>

theorem wildcard_eroteme_matches_nothing:
  "mt_wildcard_match ''a?'' ''a'' \<and> mt_wildcard_match ''ab?'' ''ab'' \<and>
   mt_wildcard_match ''ab?'' ''abc''"
  by (simp add: mt_wildcard_match_def wc_init_def wc_loop.simps wc_step_def wc_advance_def
      eroteme_retry_def star_retry_def check_pattern.simps)

end
