(* ===== verification/Matcher.thy ===== *)
theory Matcher
  imports Exact_Set Ns_Trie Wildcard
begin

text \<open>
  The rest of \<^verbatim>\<open>src/rules/match.c\<close>: the single-rule matcher (\<^verbatim>\<open>struct mt_rule_matcher\<close>), which is the
  reference meaning of a rule, and the per-group index (\<^verbatim>\<open>struct mt_matcher\<close>) that combines the
  hash set, the trie and the scanned list of wildcard and regular-expression rules.

  PCRE2 is a library: it is the parameter \<open>P\<close> of the definitions, a record of the two calls the
  code makes.  \<open>pcre2_compile\<close> is \<^const>\<open>None\<close> for a pattern it rejects; \<open>pcre2_match\<close> is the
  return code, negative for no match and for every error (the match and depth limits included).
  Nothing is assumed of it.  Memory allocation succeeds.
\<close>

section \<open>The single-rule matcher\<close>

record 're pcre2 =
  pcre2_compile :: "string \<Rightarrow> 're option"
  pcre2_match :: "'re \<Rightarrow> string \<Rightarrow> int"

datatype rule_kind = RK_DOMAIN | RK_NAMESPACE | RK_WILDCARD | RK_REGEX | RK_NEVER

definition kind_of :: "string \<Rightarrow> rule_kind" where
  "kind_of type =
    (if type = ''domain'' then RK_DOMAIN
     else if type = ''namespace'' then RK_NAMESPACE
     else if type = ''wildcard'' then RK_WILDCARD
     else if type = ''regex'' then RK_REGEX
     else RK_NEVER)"

record 're mt_rule_matcher =
  rm_kind :: rule_kind
  rm_rule :: string
  rm_re :: "'re option"
  compile_ok :: bool

definition mt_rule_matcher_new :: "'re pcre2 \<Rightarrow> string \<Rightarrow> string \<Rightarrow> 're mt_rule_matcher" where
  "mt_rule_matcher_new P type rule =
    (let m = \<lparr>rm_kind = kind_of type, rm_rule = rule, rm_re = None, compile_ok = True\<rparr>
     in if rm_kind m = RK_REGEX then
          (case pcre2_compile P rule of
             None \<Rightarrow> m\<lparr>compile_ok := False\<rparr>
           | Some re \<Rightarrow> m\<lparr>rm_re := Some re\<rparr>)
        else m)"

definition mt_rule_matcher_ok :: "'re mt_rule_matcher \<Rightarrow> bool" where
  "mt_rule_matcher_ok m = compile_ok m"

definition mt_rule_matcher_match :: "'re pcre2 \<Rightarrow> 're mt_rule_matcher \<Rightarrow> string \<Rightarrow> bool" where
  "mt_rule_matcher_match P m domain =
    (case rm_kind m of
       RK_DOMAIN \<Rightarrow> length domain = length (rm_rule m) \<and> domain = rm_rule m
     | RK_NAMESPACE \<Rightarrow> namespace_match (rm_rule m) domain
     | RK_WILDCARD \<Rightarrow> mt_wildcard_match (rm_rule m) domain
     | RK_REGEX \<Rightarrow> (case rm_re m of None \<Rightarrow> False | Some re \<Rightarrow> pcre2_match P re domain \<ge> 0)
     | RK_NEVER \<Rightarrow> False)"

section \<open>The group index\<close>

record 're mt_matcher =
  exact :: exact_set
  ns :: ns_trie
  scan :: "'re mt_rule_matcher list"

definition mt_matcher_new :: "'re mt_matcher" where
  "mt_matcher_new = \<lparr>exact = exact_set_empty, ns = ns_trie_empty, scan = []\<rparr>"

definition mt_matcher_add ::
  "'re pcre2 \<Rightarrow> string \<Rightarrow> string \<Rightarrow> 're mt_matcher \<Rightarrow> 're mt_matcher option" where
  "mt_matcher_add P type rule m =
    (case kind_of type of
       RK_DOMAIN \<Rightarrow>
         (case exact_set_insert rule (exact m) of None \<Rightarrow> None | Some e \<Rightarrow> Some (m\<lparr>exact := e\<rparr>))
     | RK_NAMESPACE \<Rightarrow> Some (m\<lparr>ns := ns_trie_insert rule (ns m)\<rparr>)
     | RK_WILDCARD \<Rightarrow> Some (m\<lparr>scan := scan m @ [mt_rule_matcher_new P type rule]\<rparr>)
     | RK_REGEX \<Rightarrow> Some (m\<lparr>scan := scan m @ [mt_rule_matcher_new P type rule]\<rparr>)
     | RK_NEVER \<Rightarrow> Some m)"

fun scan_match :: "'re pcre2 \<Rightarrow> 're mt_rule_matcher list \<Rightarrow> string \<Rightarrow> bool" where
  "scan_match P [] domain = False"
| "scan_match P (r # rs) domain =
     (if mt_rule_matcher_match P r domain then True else scan_match P rs domain)"

definition mt_matcher_match :: "'re pcre2 \<Rightarrow> 're mt_matcher \<Rightarrow> string \<Rightarrow> bool option" where
  "mt_matcher_match P m domain =
    (case exact_set_contains (exact m) domain of
       None \<Rightarrow> None
     | Some True \<Rightarrow> Some True
     | Some False \<Rightarrow>
         if ns_trie_match (ns m) domain then Some True
         else Some (scan_match P (scan m) domain))"

section \<open>The index is a rule index\<close>

definition rule_matches :: "'re pcre2 \<Rightarrow> string \<times> string \<Rightarrow> string \<Rightarrow> bool" where
  "rule_matches P tr d = mt_rule_matcher_match P (mt_rule_matcher_new P (fst tr) (snd tr)) d"

text \<open>What a rule matches inside an index: what it matches alone and, for a namespace rule that
  starts with a dot, the further names the trie gives it (see \<^verbatim>\<open>Ns_Trie.thy\<close>).\<close>

definition index_matches :: "'re pcre2 \<Rightarrow> string \<times> string \<Rightarrow> string \<Rightarrow> bool" where
  "index_matches P tr d =
    (rule_matches P tr d \<or> kind_of (fst tr) = RK_NAMESPACE \<and> leading_dot_match (snd tr) d)"

lemma index_matches_rule:
  "kind_of (fst tr) \<noteq> RK_NAMESPACE \<or> snd tr = [] \<or> hd (snd tr) \<noteq> CHR ''.'' \<Longrightarrow>
   index_matches P tr d = rule_matches P tr d"
  by (auto simp: index_matches_def leading_dot_match_def)

lemma rm_kind_new [simp]: "rm_kind (mt_rule_matcher_new P t r) = kind_of t"
  by (auto simp: mt_rule_matcher_new_def Let_def split: option.splits)

lemma rm_rule_new [simp]: "rm_rule (mt_rule_matcher_new P t r) = r"
  by (auto simp: mt_rule_matcher_new_def Let_def split: option.splits)

lemma rule_matches_simps:
  "kind_of t = RK_DOMAIN \<Longrightarrow> rule_matches P (t, r) d \<longleftrightarrow> d = r"
  "kind_of t = RK_NAMESPACE \<Longrightarrow> rule_matches P (t, r) d \<longleftrightarrow> namespace_match r d"
  "kind_of t = RK_NEVER \<Longrightarrow> \<not> rule_matches P (t, r) d"
  by (auto simp: rule_matches_def mt_rule_matcher_match_def)

lemma scan_match_snoc:
  "scan_match P (rs @ [r]) d \<longleftrightarrow> scan_match P rs d \<or> mt_rule_matcher_match P r d"
  by (induction rs) auto

interpretation sc: rule_index "[]" "\<lambda>r rs. Some (rs @ [r])" "\<lambda>rs d. Some (scan_match P rs d)"
  "\<lambda>_. True" "\<lambda>_. True" "mt_rule_matcher_match P" for P
proof unfold_locales
  show "Some (rs @ [r]) = Some m' \<Longrightarrow>
      Some (scan_match P m' d) = Some (Some (scan_match P rs d) = Some True \<or> mt_rule_matcher_match P r d)"
    for rs r m' d by (auto simp: scan_match_snoc)
qed auto

definition mt_matcher_inv :: "'re mt_matcher \<Rightarrow> bool" where
  "mt_matcher_inv m = es_inv (exact m)"

text \<open>The answer of the index, from the answers of its three parts.\<close>

lemma mt_matcher_match_parts:
  assumes "mt_matcher_inv m"
  shows "mt_matcher_match P m d =
    Some (exact_set_contains (exact m) d = Some True \<or> ns_trie_match (ns m) d \<or> scan_match P (scan m) d)"
  using es.matches_total [of "exact m" d] assms
  by (auto simp: mt_matcher_match_def mt_matcher_inv_def split: bool.splits)

lemma mt_matcher_add_total:
  assumes "mt_matcher_inv m"
  shows "\<exists>m'. mt_matcher_add P t r m = Some m' \<and> mt_matcher_inv m'"
  using es.add_total [of "exact m" r] assms
  by (auto simp: mt_matcher_add_def mt_matcher_inv_def split: rule_kind.splits)

lemma mt_matcher_match_add:
  assumes "mt_matcher_inv m" and add: "mt_matcher_add P t r m = Some m'"
  shows "mt_matcher_match P m' d = Some (mt_matcher_match P m d = Some True \<or> index_matches P (t, r) d)"
proof -
  have inv: "mt_matcher_inv m'"
    using mt_matcher_add_total [OF assms(1), of P t r] add by auto
  note parts = mt_matcher_match_parts [OF inv] mt_matcher_match_parts [OF assms(1)]
  show ?thesis
  proof (cases "kind_of t")
    case RK_DOMAIN
    then obtain e where e: "exact_set_insert r (exact m) = Some e" "m' = m\<lparr>exact := e\<rparr>"
      using add by (auto simp: mt_matcher_add_def split: option.splits)
    have "exact_set_contains e d = Some (exact_set_contains (exact m) d = Some True \<or> d = r)"
      using es.matches_add [OF _ _ e(1)] assms(1) by (simp add: mt_matcher_inv_def)
    with e RK_DOMAIN show ?thesis unfolding parts by (auto simp: index_matches_def rule_matches_simps)
  next
    case RK_NAMESPACE
    with add show ?thesis
      by (auto simp: parts index_matches_def rule_matches_simps mt_matcher_add_def ns_trie_match_insert)
  next
    case RK_NEVER
    with add show ?thesis by (auto simp: parts index_matches_def rule_matches_simps mt_matcher_add_def)
  qed (use add in
      \<open>auto simp: parts mt_matcher_add_def index_matches_def rule_matches_def scan_match_snoc\<close>)
qed

interpretation mx: rule_index mt_matcher_new "\<lambda>tr. mt_matcher_add P (fst tr) (snd tr)"
  "mt_matcher_match P" mt_matcher_inv "\<lambda>_. True" "index_matches P" for P
proof unfold_locales
  show inv: "mt_matcher_inv mt_matcher_new"
    using es.invar_empty by (simp add: mt_matcher_inv_def mt_matcher_new_def)
  show "mt_matcher_match P mt_matcher_new d = Some False" for d
    unfolding mt_matcher_match_parts [OF inv]
    using es.matches_empty ns.matches_empty by (simp add: mt_matcher_new_def)
qed (auto simp: mt_matcher_match_parts mt_matcher_add_total mt_matcher_match_add)

section \<open>Properties\<close>

text \<open>
  C4.  The group index against the single-rule reference.  Adding any list of typed rules to a
  fresh index returns, every later match returns, and the index matches a name exactly when some
  rule of the list, taken alone, matches it, or the list has a namespace rule with a leading dot
  and the name ends in that rule or is that rule without its dot (unless it is then empty or
  starts with a dot again).  The second case is the only difference between the two: the trie
  takes ``.com'' for ``com''.
\<close>

theorem matcher_index_correct:
  "\<exists>m. foldM (\<lambda>tr. mt_matcher_add P (fst tr) (snd tr)) rules mt_matcher_new = Some m \<and>
    (\<forall>d. mt_matcher_match P m d =
      Some (\<exists>tr\<in>set rules. mt_rule_matcher_match P (mt_rule_matcher_new P (fst tr) (snd tr)) d \<or>
        kind_of (fst tr) = RK_NAMESPACE \<and> snd tr \<noteq> [] \<and> hd (snd tr) = CHR ''.'' \<and>
        (suffix (snd tr) d \<or> d = tl (snd tr) \<and> d \<noteq> [] \<and> hd d \<noteq> CHR ''.'')))"
proof -
  have "list_all (\<lambda>_. True) rules" by (simp add: list_all_iff)
  from mx.build [OF this, of P] obtain m where
    "foldM (\<lambda>tr. mt_matcher_add P (fst tr) (snd tr)) rules mt_matcher_new = Some m"
    "\<forall>d. mt_matcher_match P m d = Some (\<exists>tr\<in>set rules. index_matches P tr d)" by blast
  then show ?thesis
    unfolding index_matches_def rule_matches_def leading_dot_match_def by (intro exI [of _ m] conjI)
qed

text \<open>A PCRE2 whose patterns are matched literally, for the witnesses.\<close>

definition literal_pcre2 :: "string pcre2" where
  "literal_pcre2 = \<lparr>pcre2_compile = (\<lambda>p. if p = ''('' then None else Some p),
     pcre2_match = (\<lambda>re s. if s = re then 1 else - 1)\<rparr>"

text \<open>
  Rules that take no part in name matching: a subnet rule, a rule of unknown type and a
  regular expression that PCRE2 rejects match nothing, alone and in an index, and a rejected
  expression is reported by \<^verbatim>\<open>mt_rule_matcher_ok\<close> and nothing else is.
\<close>

theorem inert_rules:
  assumes "kind_of t = RK_NEVER \<or> kind_of t = RK_REGEX \<and> pcre2_compile P r = None"
    and "foldM (\<lambda>tr. mt_matcher_add P (fst tr) (snd tr)) rules mt_matcher_new = Some m"
    and add: "mt_matcher_add P t r m = Some m'"
  shows "\<not> mt_rule_matcher_match P (mt_rule_matcher_new P t r) d \<and>
    mt_matcher_match P m' d = mt_matcher_match P m d \<and>
    (mt_rule_matcher_ok (mt_rule_matcher_new P t r) \<longleftrightarrow> kind_of t = RK_NEVER)"
proof -
  have no: "\<not> rule_matches P (t, r) d"
    using assms(1)
    by (auto simp: rule_matches_def mt_rule_matcher_match_def)
       (auto simp: mt_rule_matcher_new_def Let_def)
  have idx: "index_matches P (t, r) d = rule_matches P (t, r) d"
    by (rule index_matches_rule) (use assms(1) in auto)
  have inv: "mt_matcher_inv m" using mx.build [of rules P] assms(2) by (auto simp: list_all_iff)
  have "mt_rule_matcher_ok (mt_rule_matcher_new P t r) \<longleftrightarrow> kind_of t = RK_NEVER"
    using assms(1) by (auto simp: mt_rule_matcher_ok_def mt_rule_matcher_new_def Let_def)
  moreover have "mt_matcher_match P m' d = mt_matcher_match P m d"
    using mt_matcher_match_add [OF inv add, of d] mt_matcher_match_parts [OF inv, of P d] no idx
    by simp
  ultimately show ?thesis using no by (simp add: rule_matches_def)
qed

theorem inert_rules_witness:
  "\<exists>m'. mt_matcher_add literal_pcre2 ''regex'' ''('' mt_matcher_new = Some m' \<and>
     \<not> mt_rule_matcher_match literal_pcre2 (mt_rule_matcher_new literal_pcre2 ''regex'' ''('') ''('' \<and>
     mt_matcher_match literal_pcre2 m' ''('' = mt_matcher_match literal_pcre2 mt_matcher_new ''('' \<and>
     (mt_rule_matcher_ok (mt_rule_matcher_new literal_pcre2 ''regex'' ''('') \<longleftrightarrow> kind_of ''regex'' = RK_NEVER)"
proof -
  have k: "kind_of ''regex'' = RK_REGEX" "pcre2_compile literal_pcre2 ''('' = None" by code_simp+
  then obtain m' where m': "mt_matcher_add literal_pcre2 ''regex'' ''('' mt_matcher_new = Some m'"
    by (simp add: mt_matcher_add_def)
  have "foldM (\<lambda>tr. mt_matcher_add literal_pcre2 (fst tr) (snd tr)) [] mt_matcher_new = Some mt_matcher_new"
    by simp
  with k m' show ?thesis using inert_rules [of "''regex''" literal_pcre2 "''(''" "[]" mt_matcher_new m' "''(''"]
    by simp
qed

end
