(* ===== verification/Models.thy ===== *)
theory Models
  imports Prelude
begin

text \<open>
  The configuration data: identifiers (\<^verbatim>\<open>src/config/id.c\<close>), rules, groups, subscriptions and the whole
  configuration (\<^verbatim>\<open>include/magitrickle/models.h\<close>, \<^verbatim>\<open>src/config/models.c\<close>), and the group synthesized
  from a subscription (\<^verbatim>\<open>src/subscriptions/runtime.c\<close>).

  A \<^verbatim>\<open>char *\<close> field that may be \<^verbatim>\<open>NULL\<close> is a \<^typ>\<open>string option\<close>.  The growable pointer arrays keep
  their capacity, so that \<^verbatim>\<open>grow_array\<close> is modelled as it is and a write past the allocation shows.
\<close>

section \<open>Identifiers\<close>

datatype mt_id = MtId u8 u8 u8 u8

definition hex_val :: "char \<Rightarrow> int" where
  "hex_val c =
    (let n = of_char c :: int in
     if 48 \<le> n \<and> n \<le> 57 then n - 48
     else if 97 \<le> n \<and> n \<le> 102 then n - 97 + 10
     else if 65 \<le> n \<and> n \<le> 70 then n - 65 + 10
     else - 1)"

definition hex_byte :: "char \<Rightarrow> char \<Rightarrow> mt_err + u8" where
  "hex_byte c1 c2 =
    (let hi = hex_val c1; lo = hex_val c2 in
     if hi < 0 \<or> lo < 0 then Inl MT_ERR_INVAL
     else Inr (word_of_int ((push_bit 4 hi) OR lo)))"

definition mt_id_parse :: "string option \<Rightarrow> mt_err + mt_id" where
  "mt_id_parse so =
    (case so of None \<Rightarrow> Inl MT_ERR_INVAL
     | Some s \<Rightarrow>
        if length s \<noteq> 8 then Inl MT_ERR_INVAL
        else (case hex_byte (s ! 0) (s ! 1) of Inl e \<Rightarrow> Inl e | Inr b0 \<Rightarrow>
              case hex_byte (s ! 2) (s ! 3) of Inl e \<Rightarrow> Inl e | Inr b1 \<Rightarrow>
              case hex_byte (s ! 4) (s ! 5) of Inl e \<Rightarrow> Inl e | Inr b2 \<Rightarrow>
              case hex_byte (s ! 6) (s ! 7) of Inl e \<Rightarrow> Inl e | Inr b3 \<Rightarrow>
              Inr (MtId b0 b1 b2 b3)))"

definition hex_digits :: string where
  "hex_digits = ''0123456789abcdef''"

definition format_byte :: "u8 \<Rightarrow> string" where
  "format_byte b = [hex_digits ! unat (drop_bit 4 b), hex_digits ! unat (b AND 15)]"

fun mt_id_format :: "mt_id \<Rightarrow> string" where
  "mt_id_format (MtId b0 b1 b2 b3) =
     format_byte b0 @ format_byte b1 @ format_byte b2 @ format_byte b3"

fun mt_id_is_zero :: "mt_id \<Rightarrow> bool" where
  "mt_id_is_zero (MtId b0 b1 b2 b3) = (b0 = 0 \<and> b1 = 0 \<and> b2 = 0 \<and> b3 = 0)"

fun mt_id_equal :: "mt_id \<Rightarrow> mt_id \<Rightarrow> bool" where
  "mt_id_equal (MtId a0 a1 a2 a3) (MtId b0 b1 b2 b3) = ([a0, a1, a2, a3] = [b0, b1, b2, b3])"

section \<open>Growable pointer arrays\<close>

record 'a parr =
  items :: "'a list"
  cap :: nat

definition parr_null :: "'a parr" where
  "parr_null = \<lparr>items = [], cap = 0\<rparr>"

text \<open>\<^verbatim>\<open>grow_array(&arr, n)\<close>: the new capacity; capacity 0 is the \<^verbatim>\<open>NULL\<close> array.\<close>

definition grow_array :: "nat \<Rightarrow> nat \<Rightarrow> nat" where
  "grow_array c n =
    (if n AND (n - 1) = 0 \<and> n \<ge> 8 then n * 2
     else if n < 8 then (if c = 0 then 8 else c)
     else c)"

text \<open>\<^verbatim>\<open>arr[n++] = x\<close> after \<^verbatim>\<open>grow_array\<close>; \<^const>\<open>None\<close> is a write past the allocation.\<close>

definition parr_add :: "'a \<Rightarrow> 'a parr \<Rightarrow> 'a parr option" where
  "parr_add x a =
    (let c = grow_array (cap a) (length (items a)) in
     if length (items a) < c then Some \<lparr>items = items a @ [x], cap = c\<rparr> else None)"

text \<open>\<^verbatim>\<open>for (i = idx; i + 1 < n; i++) a[i] = a[i + 1]\<close>.\<close>

function shift_down :: "'a list \<Rightarrow> nat \<Rightarrow> 'a list" where
  "shift_down xs i =
    (if i + 1 < length xs then shift_down (xs[i := xs ! (i + 1)]) (i + 1) else xs)"
  by pat_completeness auto
termination
  by (relation "measure (\<lambda>(xs, i). length xs - i)") auto

declare shift_down.simps [simp del]

text \<open>Removal by index; \<^const>\<open>None\<close> is an index out of range (the callers check it).\<close>

definition parr_remove :: "nat \<Rightarrow> 'a parr \<Rightarrow> 'a parr option" where
  "parr_remove idx a =
    (if idx < length (items a)
     then Some (a\<lparr>items := take (length (items a) - 1) (shift_down (items a) idx)\<rparr>)
     else None)"

section \<open>Rules, groups, subscriptions\<close>

record mt_rule =
  rule_id :: mt_id
  rule_name :: "string option"
  rule_type :: "string option"
  rule_rule :: "string option"
  rule_enable :: bool

record mt_group =
  group_id :: mt_id
  group_name :: "string option"
  group_color :: "string option"
  group_iface :: "string option"
  group_enable :: bool
  group_rules :: "mt_rule parr"

record mt_sub_rule =
  sub_rule_id :: mt_id
  sub_rule_rule :: "string option"
  sub_rule_type :: "string option"
  sub_rule_enable :: bool

record mt_subscription =
  sub_id :: mt_id
  sub_name :: "string option"
  sub_iface :: "string option"
  sub_enable :: bool
  sub_url :: "string option"
  sub_interval :: u32
  sub_last_update :: u32
  sub_last_check :: u32
  sub_rules :: "mt_sub_rule parr"

definition id_zero :: mt_id where
  "id_zero = MtId 0 0 0 0"

definition mt_rule_new :: mt_rule where
  "mt_rule_new = \<lparr>rule_id = id_zero, rule_name = None, rule_type = None, rule_rule = None,
     rule_enable = False\<rparr>"

definition mt_group_new :: mt_group where
  "mt_group_new = \<lparr>group_id = id_zero, group_name = None, group_color = None, group_iface = None,
     group_enable = False, group_rules = parr_null\<rparr>"

definition mt_sub_rule_new :: mt_sub_rule where
  "mt_sub_rule_new = \<lparr>sub_rule_id = id_zero, sub_rule_rule = None, sub_rule_type = None,
     sub_rule_enable = False\<rparr>"

definition mt_subscription_new :: mt_subscription where
  "mt_subscription_new = \<lparr>sub_id = id_zero, sub_name = None, sub_iface = None, sub_enable = False,
     sub_url = None, sub_interval = 0, sub_last_update = 0, sub_last_check = 0,
     sub_rules = parr_null\<rparr>"

definition mt_group_add_rule :: "mt_rule \<Rightarrow> mt_group \<Rightarrow> mt_group option" where
  "mt_group_add_rule r g =
    map_option (\<lambda>a. g\<lparr>group_rules := a\<rparr>) (parr_add r (group_rules g))"

definition mt_subscription_add_rule :: "mt_sub_rule \<Rightarrow> mt_subscription \<Rightarrow> mt_subscription option" where
  "mt_subscription_add_rule r s =
    map_option (\<lambda>a. s\<lparr>sub_rules := a\<rparr>) (parr_add r (sub_rules s))"

section \<open>The application configuration\<close>

record mt_endpoint =
  address :: "string option"
  port :: u16

record mt_http_web =
  web_enabled :: bool
  auth_enabled :: bool
  web_host :: mt_endpoint
  skin :: "string option"

record mt_dns_proxy =
  dns_host :: mt_endpoint
  upstream :: mt_endpoint
  disable_remap53 :: bool
  disable_fake_ptr :: bool
  disable_drop_aaaa :: bool
  max_idle_conns :: u64
  max_concurrent :: u64
  dns_timeout :: "64 word"

record mt_netfilter =
  chain_prefix :: "string option"
  table_prefix :: "string option"
  additional_ttl :: "64 word"
  disable_ipv4 :: bool
  disable_ipv6 :: bool
  start_mark_table_index :: u32

record mt_app_config =
  http_web :: mt_http_web
  dns_proxy :: mt_dns_proxy
  netfilter :: mt_netfilter
  link :: "string list"
  show_all_interfaces :: bool
  log_level :: "string option"

definition MT_DURATION_MS :: "64 word" where "MT_DURATION_MS = 1000000"
definition MT_DURATION_SEC :: "64 word" where "MT_DURATION_SEC = 1000000000"

definition mt_app_config_init_defaults :: mt_app_config where
  "mt_app_config_init_defaults =
    \<lparr>http_web = \<lparr>web_enabled = True, auth_enabled = False,
       web_host = \<lparr>address = Some ''[::]'', port = 8080\<rparr>, skin = Some ''default''\<rparr>,
     dns_proxy = \<lparr>dns_host = \<lparr>address = Some ''[::]'', port = 3553\<rparr>,
       upstream = \<lparr>address = Some ''127.0.0.1'', port = 53\<rparr>,
       disable_remap53 = False, disable_fake_ptr = False, disable_drop_aaaa = False,
       max_idle_conns = 10, max_concurrent = 100, dns_timeout = 5000 * MT_DURATION_MS\<rparr>,
     netfilter = \<lparr>chain_prefix = Some ''MT_'', table_prefix = Some ''mt_'',
       additional_ttl = 3600 * MT_DURATION_SEC, disable_ipv4 = False, disable_ipv6 = False,
       start_mark_table_index = 0x4D616769\<rparr>,
     link = [''br0''], show_all_interfaces = False, log_level = Some ''info''\<rparr>"

definition mt_app_config_clear :: mt_app_config where
  "mt_app_config_clear =
    \<lparr>http_web = \<lparr>web_enabled = False, auth_enabled = False,
       web_host = \<lparr>address = None, port = 0\<rparr>, skin = None\<rparr>,
     dns_proxy = \<lparr>dns_host = \<lparr>address = None, port = 0\<rparr>, upstream = \<lparr>address = None, port = 0\<rparr>,
       disable_remap53 = False, disable_fake_ptr = False, disable_drop_aaaa = False,
       max_idle_conns = 0, max_concurrent = 0, dns_timeout = 0\<rparr>,
     netfilter = \<lparr>chain_prefix = None, table_prefix = None, additional_ttl = 0,
       disable_ipv4 = False, disable_ipv6 = False, start_mark_table_index = 0\<rparr>,
     link = [], show_all_interfaces = False, log_level = None\<rparr>"

record mt_config =
  app :: mt_app_config
  groups :: "mt_group parr"
  groups_present :: bool
  subscriptions :: "mt_subscription parr"
  subscriptions_present :: bool

definition mt_config_init_defaults :: mt_config where
  "mt_config_init_defaults =
    \<lparr>app = mt_app_config_init_defaults, groups = parr_null, groups_present = False,
     subscriptions = parr_null, subscriptions_present = False\<rparr>"

definition mt_config_clear :: "mt_config \<Rightarrow> mt_config" where
  "mt_config_clear c =
    \<lparr>app = mt_app_config_clear, groups = parr_null, groups_present = False,
     subscriptions = parr_null, subscriptions_present = False\<rparr>"

definition mt_config_add_group :: "mt_group \<Rightarrow> mt_config \<Rightarrow> mt_config option" where
  "mt_config_add_group g c = map_option (\<lambda>a. c\<lparr>groups := a\<rparr>) (parr_add g (groups c))"

definition mt_config_remove_group_by_index :: "nat \<Rightarrow> mt_config \<Rightarrow> mt_config option" where
  "mt_config_remove_group_by_index idx c = map_option (\<lambda>a. c\<lparr>groups := a\<rparr>) (parr_remove idx (groups c))"

definition mt_config_clear_groups :: "mt_config \<Rightarrow> mt_config" where
  "mt_config_clear_groups c = c\<lparr>groups := parr_null\<rparr>"

definition mt_config_add_subscription :: "mt_subscription \<Rightarrow> mt_config \<Rightarrow> mt_config option" where
  "mt_config_add_subscription s c =
    map_option (\<lambda>a. c\<lparr>subscriptions := a\<rparr>) (parr_add s (subscriptions c))"

definition mt_config_remove_subscription_by_index :: "nat \<Rightarrow> mt_config \<Rightarrow> mt_config option" where
  "mt_config_remove_subscription_by_index idx c =
    map_option (\<lambda>a. c\<lparr>subscriptions := a\<rparr>) (parr_remove idx (subscriptions c))"

definition mt_config_clear_subscriptions :: "mt_config \<Rightarrow> mt_config" where
  "mt_config_clear_subscriptions c = c\<lparr>subscriptions := parr_null\<rparr>"

section \<open>Colour normalisation\<close>

definition is_hex_lower_or_upper :: "char \<Rightarrow> bool" where
  "is_hex_lower_or_upper ch =
    (let n = of_char ch :: nat in
     (48 \<le> n \<and> n \<le> 57) \<or> (97 \<le> n \<and> n \<le> 102) \<or> (65 \<le> n \<and> n \<le> 70))"

definition color_valid :: "string option \<Rightarrow> bool" where
  "color_valid co =
    (case co of None \<Rightarrow> False
     | Some c \<Rightarrow> length c = 7 \<and> c ! 0 = CHR ''#'' \<and>
         list_all (\<lambda>i. is_hex_lower_or_upper (c ! i)) [1..<7])"

definition lower_hex :: "char \<Rightarrow> char" where
  "lower_hex ch =
    (let n = of_char ch :: nat in if 65 \<le> n \<and> n \<le> 70 then char_of (n - 65 + 97) else ch)"

fun lower_from :: "nat list \<Rightarrow> string \<Rightarrow> string" where
  "lower_from [] c = c"
| "lower_from (i # is) c = lower_from is (c[i := lower_hex (c ! i)])"

definition mt_group_normalize_color :: "mt_group \<Rightarrow> mt_group" where
  "mt_group_normalize_color g =
    (if \<not> color_valid (group_color g) then g\<lparr>group_color := Some ''#ffffff''\<rparr>
     else g\<lparr>group_color := map_option (lower_from [1..<7]) (group_color g)\<rparr>)"

section \<open>The group of a subscription\<close>

definition mt_rule_of_sub_rule :: "mt_sub_rule \<Rightarrow> mt_rule" where
  "mt_rule_of_sub_rule sr = mt_rule_new\<lparr>rule_id := sub_rule_id sr, rule_name := Some [],
     rule_type := sub_rule_type sr, rule_rule := sub_rule_rule sr,
     rule_enable := sub_rule_enable sr\<rparr>"

definition mt_sub_runtime_group :: "mt_subscription \<Rightarrow> mt_group option" where
  "mt_sub_runtime_group sub =
    (let name = (if sub_name sub = None \<or> sub_name sub = Some []
                 then Some (''subscription:'' @ mt_id_format (sub_id sub)) else sub_name sub);
         g = mt_group_new\<lparr>group_id := sub_id sub, group_name := name, group_iface := sub_iface sub,
           group_enable := sub_enable sub \<and> sub_iface sub \<noteq> None \<and> sub_iface sub \<noteq> Some []\<rparr>
     in foldM (\<lambda>sr. mt_group_add_rule (mt_rule_of_sub_rule sr)) (items (sub_rules sub)) g)"

section \<open>Identifiers: lemmas\<close>

lemma hex_val_digit:
  "hex_val c < 0 \<and> \<not> is_hex_lower_or_upper c \<or>
   is_hex_lower_or_upper c \<and> hex_val c \<in> {0..15} \<and> hex_digits ! nat (hex_val c) = lower_hex c"
  by (induction c rule: all_chars) code_simp

lemma format_byte_nibbles:
  assumes "h \<in> {0..15}" and "l \<in> {0..15}"
  shows "format_byte (word_of_int (push_bit 4 h OR l)) = [hex_digits ! nat h, hex_digits ! nat l]"
proof -
  have all: "list_all (\<lambda>h. list_all (\<lambda>l.
      format_byte (word_of_int (push_bit 4 h OR l)) = [hex_digits ! nat h, hex_digits ! nat l]) [0..15]) [0..15]"
    by code_simp
  have "h \<in> set [0..15]" "l \<in> set [0..15]" using assms by auto
  with all show ?thesis unfolding list_all_iff by blast
qed

lemma format_byte_hex: "hex_byte (format_byte b ! 0) (format_byte b ! 1) = Inr b"
  by (induction b rule: all_u8) code_simp

lemma format_byte_inj: "format_byte a = format_byte b \<Longrightarrow> a = b"
  using format_byte_hex [of a] format_byte_hex [of b] by simp

lemma hex_byte_iff:
  "hex_byte c1 c2 = Inr b \<longleftrightarrow>
   is_hex_lower_or_upper c1 \<and> is_hex_lower_or_upper c2 \<and> format_byte b = [lower_hex c1, lower_hex c2]"
proof (cases "is_hex_lower_or_upper c1 \<and> is_hex_lower_or_upper c2")
  case True
  then have v: "hex_val c1 \<in> {0..15}" "hex_digits ! nat (hex_val c1) = lower_hex c1"
    "hex_val c2 \<in> {0..15}" "hex_digits ! nat (hex_val c2) = lower_hex c2"
    using hex_val_digit [of c1] hex_val_digit [of c2] by auto
  let ?w = "word_of_int (push_bit 4 (hex_val c1) OR hex_val c2) :: u8"
  have w: "format_byte ?w = [lower_hex c1, lower_hex c2]"
    using format_byte_nibbles [OF v(1,3)] v by simp
  have "hex_byte c1 c2 = Inr ?w" using v by (simp add: hex_byte_def)
  then show ?thesis using True w format_byte_inj [of ?w b] by auto
next
  case False
  then show ?thesis using hex_val_digit [of c1] hex_val_digit [of c2] by (auto simp: hex_byte_def)
qed

lemma hex_byte_Inl: "hex_byte c1 c2 = Inl e \<Longrightarrow> e = MT_ERR_INVAL"
  by (auto simp: hex_byte_def Let_def split: if_splits)

text \<open>
  Identifiers.  Parsing succeeds exactly on the eight-character strings of hexadecimal digits
  of either case, and returns the identifier whose printed form is the lower-cased input; every
  other input, \<^verbatim>\<open>NULL\<close> included, is \<^verbatim>\<open>MT_ERR_INVAL\<close>.  The printed form of every identifier parses
  back to it.
\<close>

theorem mt_id_parse_exact:
  "(mt_id_parse so = Inr i \<longleftrightarrow>
      (\<exists>s. so = Some s \<and> length s = 8 \<and> list_all is_hex_lower_or_upper s \<and>
         mt_id_format i = map lower_hex s)) \<and>
   (mt_id_parse so = Inr (projr (mt_id_parse so)) \<or> mt_id_parse so = Inl MT_ERR_INVAL) \<and>
   mt_id_parse (Some (mt_id_format i)) = Inr i"
proof (intro conjI)
  have len: "length (format_byte b) = 2" for b by (simp add: format_byte_def)
  show "mt_id_parse so = Inr i \<longleftrightarrow>
      (\<exists>s. so = Some s \<and> length s = 8 \<and> list_all is_hex_lower_or_upper s \<and>
         mt_id_format i = map lower_hex s)"
  proof (cases "\<exists>s. so = Some s \<and> length s = 8")
    case True
    then obtain s0 s1 s2 s3 s4 s5 s6 s7 where so: "so = Some [s0, s1, s2, s3, s4, s5, s6, s7]"
      by (auto simp: numeral_eq_Suc length_Suc_conv)
    obtain b0 b1 b2 b3 where i: "i = MtId b0 b1 b2 b3" by (cases i)
    have "mt_id_parse so = Inr i \<longleftrightarrow> hex_byte s0 s1 = Inr b0 \<and> hex_byte s2 s3 = Inr b1 \<and>
        hex_byte s4 s5 = Inr b2 \<and> hex_byte s6 s7 = Inr b3"
      by (auto simp: so i mt_id_parse_def split: sum.splits)
    also have "\<dots> \<longleftrightarrow> list_all is_hex_lower_or_upper [s0, s1, s2, s3, s4, s5, s6, s7] \<and>
        mt_id_format i = map lower_hex [s0, s1, s2, s3, s4, s5, s6, s7]"
      by (auto simp: i hex_byte_iff format_byte_def)
    finally show ?thesis by (auto simp: so)
  qed (auto simp: mt_id_parse_def split: option.splits)
  show "mt_id_parse so = Inr (projr (mt_id_parse so)) \<or> mt_id_parse so = Inl MT_ERR_INVAL"
    by (auto simp: mt_id_parse_def split: option.splits sum.splits dest: hex_byte_Inl)
  show "mt_id_parse (Some (mt_id_format i)) = Inr i"
    using format_byte_hex by (cases i) (simp add: mt_id_parse_def format_byte_def)
qed

section \<open>Arrays: lemmas\<close>

definition parr_ok :: "'a parr \<Rightarrow> bool" where
  "parr_ok a = (length (items a) \<le> cap a \<and> (cap a = 0 \<or> cap a \<ge> 8 \<and> cap a AND (cap a - 1) = 0))"

lemma and_pred_double: "(2 * m :: nat) AND (2 * m - 1) = 2 * (m AND (m - 1))"
proof (cases m)
  case (Suc k)
  have "(2 * Suc k - 1) div 2 = k" by simp
  then show ?thesis unfolding Suc by (subst and_rec) simp
qed simp

lemma parr_null_ok [simp]: "parr_ok parr_null"
  by (simp add: parr_ok_def parr_null_def)

lemma parr_add_ok:
  assumes "parr_ok a"
  shows "\<exists>a'. parr_add x a = Some a' \<and> items a' = items a @ [x] \<and> parr_ok a'"
proof -
  let ?n = "length (items a)" and ?c = "grow_array (cap a) (length (items a))"
  have "?n < ?c \<and> ?c \<ge> 8 \<and> ?c AND (?c - 1) = 0"
  proof (cases "?n AND (?n - 1) = 0 \<and> ?n \<ge> 8")
    case True
    moreover from True have "items a \<noteq> []" by auto
    ultimately show ?thesis using and_pred_double [of ?n] by (simp add: grow_array_def mult.commute)
  next
    case False
    then have "?n \<ge> 8 \<Longrightarrow> ?n \<noteq> cap a" using assms by (auto simp: parr_ok_def)
    moreover have "(8 :: nat) AND (8 - 1) = 0" by code_simp
    ultimately show ?thesis using False assms by (auto simp: grow_array_def parr_ok_def)
  qed
  then show ?thesis by (simp add: parr_add_def parr_ok_def Let_def)
qed

lemma shift_down_eq:
  "i < length xs \<Longrightarrow> take (length xs - 1) (shift_down xs i) = take i xs @ drop (Suc i) xs"
proof (induction xs i rule: shift_down.induct)
  case (1 xs i)
  show ?case
  proof (cases "i + 1 < length xs")
    case True
    then have "take (length xs - 1) (shift_down xs i) =
        take (i + 1) (xs[i := xs ! (i + 1)]) @ drop (Suc (i + 1)) xs"
      using "1.IH" by (simp add: shift_down.simps [of xs i])
    also have "take (i + 1) (xs[i := xs ! (i + 1)]) = take i xs @ [xs ! (i + 1)]"
      using True by (simp add: take_Suc_conv_app_nth)
    also have "(take i xs @ [xs ! (i + 1)]) @ drop (Suc (i + 1)) xs = take i xs @ drop (Suc i) xs"
      using True by (simp add: Cons_nth_drop_Suc)
    finally show ?thesis .
  next
    case False
    with "1.prems" have "length xs = Suc i" by simp
    then show ?thesis by (simp add: shift_down.simps [of xs i])
  qed
qed

lemma parr_remove_ok:
  assumes "parr_ok a" and "i < length (items a)"
  shows "\<exists>a'. parr_remove i a = Some a' \<and> items a' = take i (items a) @ drop (Suc i) (items a) \<and>
    parr_ok a'"
  using assms shift_down_eq [OF assms(2)] by (auto simp: parr_remove_def parr_ok_def)

text \<open>
  When an addition leaves the allocation, for an array whose elements fit: it is full, not \<^verbatim>\<open>NULL\<close>, and
  its length is not one at which \<^verbatim>\<open>grow_array\<close> doubles.
\<close>

definition parr_stuck :: "'a parr \<Rightarrow> bool" where
  "parr_stuck a \<longleftrightarrow> items a \<noteq> [] \<and> length (items a) = cap a \<and>
    (length (items a) < 8 \<or> length (items a) AND (length (items a) - 1) \<noteq> 0)"

lemma parr_add_fits:
  assumes "length (items a) \<le> cap a"
  shows "parr_add x a = None \<longleftrightarrow> parr_stuck a"
    and "parr_add x a = Some a' \<Longrightarrow> items a' = items a @ [x] \<and> length (items a') \<le> cap a'"
  using assms by (auto simp: parr_add_def parr_stuck_def grow_array_def Let_def split: if_splits)

lemma parr_null_fits [simp]: "length (items parr_null) \<le> cap parr_null"
  by (simp add: parr_null_def)

lemma parr_remove_fits:
  assumes "length (items a) \<le> cap a" and "i < length (items a)"
  shows "\<exists>a'. parr_remove i a = Some a' \<and> items a' = take i (items a) @ drop (Suc i) (items a) \<and>
    length (items a') \<le> cap a'"
  using assms shift_down_eq [OF assms(2)] by (auto simp: parr_remove_def)

section \<open>The life of a configuration\<close>

text \<open>
  The operations of \<^verbatim>\<open>models.c\<close>, and \<^verbatim>\<open>mt_app_replace_subscriptions\<close> of \<^verbatim>\<open>app.c\<close>, which installs an array
  allocated for exactly its elements.  The array of groups is only changed through \<^verbatim>\<open>models.c\<close>.
\<close>

inductive config_step :: "mt_config \<Rightarrow> mt_config \<Rightarrow> bool" where
  "mt_config_add_group g c = Some c' \<Longrightarrow> config_step c c'"
| "mt_config_remove_group_by_index i c = Some c' \<Longrightarrow> config_step c c'"
| "config_step c (mt_config_clear_groups c)"
| "mt_config_add_subscription s c = Some c' \<Longrightarrow> config_step c c'"
| "mt_config_remove_subscription_by_index i c = Some c' \<Longrightarrow> config_step c c'"
| "config_step c (mt_config_clear_subscriptions c)"
| "config_step c (c\<lparr>subscriptions := \<lparr>items = ss, cap = length ss\<rparr>\<rparr>)"

definition config_ok :: "mt_config \<Rightarrow> bool" where
  "config_ok c = (parr_ok (groups c) \<and> length (items (subscriptions c)) \<le> cap (subscriptions c))"

lemmas config_op_defs = mt_config_add_group_def mt_config_remove_group_by_index_def
  mt_config_clear_groups_def mt_config_add_subscription_def
  mt_config_remove_subscription_by_index_def mt_config_clear_subscriptions_def

lemma parr_add_keeps: "parr_ok a \<Longrightarrow> parr_add x a = Some a' \<Longrightarrow> parr_ok a'"
  using parr_add_ok [of a x] by auto

lemma parr_remove_keeps: "parr_ok a \<Longrightarrow> parr_remove i a = Some a' \<Longrightarrow> parr_ok a'"
  using parr_remove_ok [of a i] by (auto simp: parr_remove_def split: if_splits)

lemma parr_remove_fits_keeps:
  "length (items a) \<le> cap a \<Longrightarrow> parr_remove i a = Some a' \<Longrightarrow> length (items a') \<le> cap a'"
  using parr_remove_fits [of a i] by (cases "i < length (items a)") (auto simp: parr_remove_def)

interpretation cfg: invariant_system "\<lambda>c. c = mt_config_init_defaults" config_step config_ok
proof
  show "config_ok c" if "c = mt_config_init_defaults" for c
    using that by (simp add: config_ok_def mt_config_init_defaults_def)
  show "config_ok c \<Longrightarrow> config_step c c' \<Longrightarrow> config_ok c'" for c c'
    by (erule config_step.cases)
       (auto simp: config_ok_def config_op_defs dest: parr_add_keeps parr_remove_keeps
         parr_add_fits(2) parr_remove_fits_keeps)
qed

text \<open>
  C35.  The growable arrays of a configuration.  Whatever sequence of additions, removals, clears and
  replacements of the subscriptions led from the defaults to a configuration, adding a group writes
  inside the allocation that \<^verbatim>\<open>grow_array\<close> leaves and appends it; adding a subscription appends it too,
  except that it writes past the allocation exactly when the array is full with one to seven elements
  or with a number that is not a power of two, which only a replacement brings about.  The same holds
  of the rules of a group that were installed as an array of exactly their number, as
  \<^verbatim>\<open>handle_put_rules\<close> does.  Removing by a valid index drops exactly that element and keeps the order.
\<close>

theorem config_arrays_safe:
  assumes "reachable (\<lambda>c. c = mt_config_init_defaults) config_step c"
  shows "(\<exists>c'. mt_config_add_group g c = Some c' \<and> items (groups c') = items (groups c) @ [g]) \<and>
    (mt_config_add_subscription s c = None \<longleftrightarrow>
      items (subscriptions c) \<noteq> [] \<and> length (items (subscriptions c)) = cap (subscriptions c) \<and>
      (length (items (subscriptions c)) < 8 \<or>
       length (items (subscriptions c)) AND (length (items (subscriptions c)) - 1) \<noteq> 0)) \<and>
    (\<forall>c'. mt_config_add_subscription s c = Some c' \<longrightarrow>
      items (subscriptions c') = items (subscriptions c) @ [s]) \<and>
    (mt_group_add_rule r (g\<lparr>group_rules := \<lparr>items = rs, cap = length rs\<rparr>\<rparr>) = None \<longleftrightarrow>
      rs \<noteq> [] \<and> (length rs < 8 \<or> length rs AND (length rs - 1) \<noteq> 0)) \<and>
    (i < length (items (groups c)) \<longrightarrow> (\<exists>c'. mt_config_remove_group_by_index i c = Some c' \<and>
      items (groups c') = take i (items (groups c)) @ drop (Suc i) (items (groups c)))) \<and>
    (j < length (items (subscriptions c)) \<longrightarrow>
      (\<exists>c'. mt_config_remove_subscription_by_index j c = Some c' \<and>
      items (subscriptions c') = take j (items (subscriptions c)) @ drop (Suc j) (items (subscriptions c))))"
proof -
  have ok: "parr_ok (groups c)" "length (items (subscriptions c)) \<le> cap (subscriptions c)"
    using cfg.reachable_inv [OF assms] by (simp_all add: config_ok_def)
  have "mt_group_add_rule r (g\<lparr>group_rules := \<lparr>items = rs, cap = length rs\<rparr>\<rparr>) = None \<longleftrightarrow>
      rs \<noteq> [] \<and> (length rs < 8 \<or> length rs AND (length rs - 1) \<noteq> 0)"
    using parr_add_fits(1) [of "\<lparr>items = rs, cap = length rs\<rparr>" r] by (simp add: mt_group_add_rule_def parr_stuck_def)
  moreover have "mt_config_add_subscription s c = None \<longleftrightarrow> parr_stuck (subscriptions c)"
    "\<forall>c'. mt_config_add_subscription s c = Some c' \<longrightarrow>
      items (subscriptions c') = items (subscriptions c) @ [s]"
    using parr_add_fits [OF ok(2), of s] by (auto simp: mt_config_add_subscription_def)
  moreover have "\<exists>c'. mt_config_add_group g c = Some c' \<and> items (groups c') = items (groups c) @ [g]"
    using parr_add_ok [OF ok(1), of g] by (auto simp: mt_config_add_group_def)
  ultimately show ?thesis
    using parr_remove_ok [OF ok(1), of i] parr_remove_fits [OF ok(2), of j]
    unfolding parr_stuck_def by (auto simp: config_op_defs)
qed

theorem config_arrays_safe_witness:
  "let c = mt_config_init_defaults\<lparr>groups := \<lparr>items = [mt_group_new], cap = 8\<rparr>,
     subscriptions := \<lparr>items = [mt_subscription_new], cap = 1\<rparr>\<rparr> in
   reachable (\<lambda>c. c = mt_config_init_defaults) config_step c \<and>
   (\<exists>c'. mt_config_add_group mt_group_new c = Some c' \<and> items (groups c') = [mt_group_new, mt_group_new]) \<and>
   mt_config_add_subscription mt_subscription_new c = None \<and>
   (\<exists>c'. mt_config_remove_group_by_index 0 c = Some c' \<and> items (groups c') = [])"
proof -
  let ?c = "mt_config_init_defaults\<lparr>groups := \<lparr>items = [mt_group_new], cap = 8\<rparr>\<rparr>"
  let ?d = "?c\<lparr>subscriptions := \<lparr>items = [mt_subscription_new], cap = 1\<rparr>\<rparr>"
  have "mt_config_add_group mt_group_new mt_config_init_defaults = Some ?c"
    by (simp add: mt_config_add_group_def mt_config_init_defaults_def parr_add_def grow_array_def
        parr_null_def)
  then have "reachable (\<lambda>c. c = mt_config_init_defaults) config_step ?c"
    by (intro reach_step [OF reach_init] config_step.intros(1)) simp_all
  moreover have "config_step ?c ?d" using config_step.intros(7) [of ?c "[mt_subscription_new]"] by simp
  ultimately have "reachable (\<lambda>c. c = mt_config_init_defaults) config_step ?d" by (rule reach_step)
  then show ?thesis
    using config_arrays_safe [of ?d mt_group_new mt_subscription_new mt_rule_new "[]" 0 0] by simp
qed

section \<open>Colours and subscriptions\<close>

lemma lower_from_all: "length c = 7 \<Longrightarrow> lower_from [Suc 0..<7] c = hd c # map lower_hex (tl c)"
  by (auto simp: numeral_eq_Suc length_Suc_conv upt_rec)

lemma color_valid_iff:
  "color_valid (Some c) \<longleftrightarrow> length c = 7 \<and> hd c = CHR ''#'' \<and> list_all is_hex_lower_or_upper (tl c)"
  by (auto simp: color_valid_def numeral_eq_Suc length_Suc_conv upt_rec)

lemma lower_hex_all: "\<not> is_hex_lower_or_upper c \<or>
    is_hex_lower_or_upper (lower_hex c) \<and> lower_hex (lower_hex c) = lower_hex c"
  by (induction c rule: all_chars) code_simp

lemma lower_hex_hex:
  assumes "is_hex_lower_or_upper c"
  shows "is_hex_lower_or_upper (lower_hex c)" and "lower_hex (lower_hex c) = lower_hex c"
  using assms lower_hex_all by blast+

text \<open>
  Colour normalisation.  A colour that is a hash sign and six hexadecimal digits is lower-cased,
  everything else (a missing colour too) becomes white, nothing but the colour changes, and a
  second normalisation changes nothing.
\<close>

theorem normalize_color_exact:
  "mt_group_normalize_color g = g\<lparr>group_color := Some (case group_color g of
      Some (h # ds) \<Rightarrow> if h = CHR ''#'' \<and> length ds = 6 \<and> list_all is_hex_lower_or_upper ds
        then h # map lower_hex ds else ''#ffffff''
    | _ \<Rightarrow> ''#ffffff'')\<rparr> \<and>
   mt_group_normalize_color (mt_group_normalize_color g) = mt_group_normalize_color g"
proof -
  have white: "color_valid (Some ''#ffffff'')" "lower_from [Suc 0..<7] ''#ffffff'' = ''#ffffff''"
    by code_simp+
  have exact: "mt_group_normalize_color g = g\<lparr>group_color := Some (case group_color g of
      Some (h # ds) \<Rightarrow> if h = CHR ''#'' \<and> length ds = 6 \<and> list_all is_hex_lower_or_upper ds
        then h # map lower_hex ds else ''#ffffff''
    | _ \<Rightarrow> ''#ffffff'')\<rparr>" for g :: mt_group
  proof (cases "group_color g")
    case None
    then show ?thesis by (simp add: mt_group_normalize_color_def color_valid_def)
  next
    case (Some c)
    then show ?thesis
      by (cases c) (auto simp: mt_group_normalize_color_def color_valid_iff lower_from_all)
  qed
  moreover have "mt_group_normalize_color (mt_group_normalize_color g) = mt_group_normalize_color g"
  proof (cases "color_valid (group_color g)")
    case True
    then obtain c where c: "group_color g = Some c" "length c = 7" "hd c = CHR ''#''"
      "list_all is_hex_lower_or_upper (tl c)"
      by (cases "group_color g") (auto simp: color_valid_iff, simp add: color_valid_def)
    then have l: "list_all is_hex_lower_or_upper (map lower_hex (tl c))"
      "map lower_hex (map lower_hex (tl c)) = map lower_hex (tl c)"
      by (auto simp: list_all_iff lower_hex_hex)
    with True c show ?thesis
      by (simp add: mt_group_normalize_color_def lower_from_all color_valid_iff)
  next
    case False
    then show ?thesis by (simp add: mt_group_normalize_color_def white)
  qed
  ultimately show ?thesis by simp
qed

lemma mt_group_add_rules:
  "parr_ok (group_rules g) \<Longrightarrow>
   \<exists>a. foldM (\<lambda>sr. mt_group_add_rule (f sr)) srs g = Some (g\<lparr>group_rules := a\<rparr>) \<and>
     items a = items (group_rules g) @ map f srs"
proof (induction srs arbitrary: g)
  case Nil
  show ?case by (intro exI [of _ "group_rules g"]) simp
next
  case (Cons sr srs)
  from parr_add_ok [OF Cons.prems, of "f sr"] obtain a where
    a: "parr_add (f sr) (group_rules g) = Some a" "items a = items (group_rules g) @ [f sr]" "parr_ok a"
    by blast
  with Cons.IH [of "g\<lparr>group_rules := a\<rparr>"] show ?case
    by (auto simp: mt_group_add_rule_def)
qed

text \<open>A subscription's group always exists, and its rules are those of the subscription in order.\<close>

lemma mt_sub_runtime_group_total:
  obtains g where "mt_sub_runtime_group s = Some g"
    and "group_id g = sub_id s"
    and "group_name g = Some (if sub_name s = None \<or> sub_name s = Some []
           then ''subscription:'' @ mt_id_format (sub_id s) else the (sub_name s))"
    and "group_enable g \<longleftrightarrow> sub_enable s \<and> sub_iface s \<noteq> None \<and> sub_iface s \<noteq> Some []"
    and "items (group_rules g) = map mt_rule_of_sub_rule (items (sub_rules s))"
proof -
  define g0 where "g0 = mt_group_new\<lparr>group_id := sub_id s,
      group_name := Some (if sub_name s = None \<or> sub_name s = Some []
           then ''subscription:'' @ mt_id_format (sub_id s) else the (sub_name s)),
      group_iface := sub_iface s,
      group_enable := sub_enable s \<and> sub_iface s \<noteq> None \<and> sub_iface s \<noteq> Some []\<rparr>"
  have g0: "parr_ok (group_rules g0)" "items (group_rules g0) = []"
    by (simp_all add: g0_def mt_group_new_def parr_null_def parr_ok_def)
  from mt_group_add_rules [OF g0(1), of mt_rule_of_sub_rule "items (sub_rules s)"] obtain a where
    a: "foldM (\<lambda>sr. mt_group_add_rule (mt_rule_of_sub_rule sr)) (items (sub_rules s)) g0 =
        Some (g0\<lparr>group_rules := a\<rparr>)" "items a = map mt_rule_of_sub_rule (items (sub_rules s))"
    by (auto simp: g0)
  have "mt_sub_runtime_group s = Some (g0\<lparr>group_rules := a\<rparr>)"
    using a(1) unfolding mt_sub_runtime_group_def Let_def g0_def by (cases "sub_name s") auto
  from that [OF this] a(2) show thesis by (simp add: g0_def)
qed

end
