(* ===== verification/Snapshot.thy ===== *)
theory Snapshot
  imports Matcher Models
begin

text \<open>
  \<^verbatim>\<open>src/rules/snapshot.c\<close>: the immutable list of matchers built from a configuration, one per
  enabled group and per active subscription.  \<^const>\<open>None\<close> stands for a call that does not
  return a value: a rule whose type or text is \<^verbatim>\<open>NULL\<close> is dereferenced by \<^verbatim>\<open>kind_of\<close>.
\<close>

record 're mt_group_snapshot =
  snap_id :: mt_id
  snap_name :: string
  snap_matcher :: "'re mt_matcher"

definition add_rule_entry :: "'re pcre2 \<Rightarrow> mt_rule \<Rightarrow> 're mt_matcher \<Rightarrow> 're mt_matcher option" where
  "add_rule_entry P r m =
    (if \<not> rule_enable r then Some m
     else case (rule_type r, rule_rule r) of
       (Some t, Some s) \<Rightarrow> mt_matcher_add P t s m
     | _ \<Rightarrow> None)"

definition append_snapshot_entry ::
  "'re pcre2 \<Rightarrow> mt_id \<Rightarrow> string option \<Rightarrow> mt_rule list \<Rightarrow> 're mt_group_snapshot list \<Rightarrow>
   're mt_group_snapshot list option" where
  "append_snapshot_entry P i name rules snap =
    (case foldM (add_rule_entry P) rules mt_matcher_new of
       None \<Rightarrow> None
     | Some m \<Rightarrow> Some (snap @ [\<lparr>snap_id = i, snap_name = (case name of None \<Rightarrow> [] | Some n \<Rightarrow> n),
         snap_matcher = m\<rparr>]))"

definition snapshot_group ::
  "'re pcre2 \<Rightarrow> mt_group \<Rightarrow> 're mt_group_snapshot list \<Rightarrow> 're mt_group_snapshot list option" where
  "snapshot_group P g snap =
    (if \<not> group_enable g then Some snap
     else append_snapshot_entry P (group_id g) (group_name g) (items (group_rules g)) snap)"

definition snapshot_subscription ::
  "'re pcre2 \<Rightarrow> mt_subscription \<Rightarrow> 're mt_group_snapshot list \<Rightarrow> 're mt_group_snapshot list option" where
  "snapshot_subscription P s snap =
    (case mt_sub_runtime_group s of None \<Rightarrow> None | Some synth \<Rightarrow> snapshot_group P synth snap)"

definition mt_ruleset_snapshot_build ::
  "'re pcre2 \<Rightarrow> mt_config \<Rightarrow> 're mt_group_snapshot list option" where
  "mt_ruleset_snapshot_build P cfg =
    (if length (items (groups cfg)) + length (items (subscriptions cfg)) = 0 then Some []
     else case foldM (snapshot_group P) (items (groups cfg)) [] of
       None \<Rightarrow> None
     | Some snap \<Rightarrow> foldM (snapshot_subscription P) (items (subscriptions cfg)) snap)"

section \<open>What a snapshot contains\<close>

text \<open>The typed rules of a group that take part, and the entries a configuration should give.\<close>

fun live_rules :: "mt_rule list \<Rightarrow> (string \<times> string) list" where
  "live_rules [] = []"
| "live_rules (r # rs) =
     (if rule_enable r then [(the (rule_type r), the (rule_rule r))] else []) @ live_rules rs"

definition rules_wf :: "mt_rule list \<Rightarrow> bool" where
  "rules_wf rs = list_all (\<lambda>r. rule_enable r \<longrightarrow> rule_type r \<noteq> None \<and> rule_rule r \<noteq> None) rs"

definition sub_active :: "mt_subscription \<Rightarrow> bool" where
  "sub_active s = (sub_enable s \<and> sub_iface s \<noteq> None \<and> sub_iface s \<noteq> Some [])"

definition group_entry :: "mt_group \<Rightarrow> mt_id \<times> string \<times> (string \<times> string) list" where
  "group_entry g = (group_id g, case group_name g of None \<Rightarrow> [] | Some n \<Rightarrow> n,
     live_rules (items (group_rules g)))"

definition sub_entry :: "mt_subscription \<Rightarrow> mt_id \<times> string \<times> (string \<times> string) list" where
  "sub_entry s = (sub_id s, if sub_name s = None \<or> sub_name s = Some []
      then ''subscription:'' @ mt_id_format (sub_id s) else the (sub_name s),
     live_rules (map mt_rule_of_sub_rule (items (sub_rules s))))"

definition snapshot_entries :: "mt_config \<Rightarrow> (mt_id \<times> string \<times> (string \<times> string) list) list" where
  "snapshot_entries cfg =
    map group_entry (filter group_enable (items (groups cfg))) @
    map sub_entry (filter sub_active (items (subscriptions cfg)))"

definition snapshot_wf :: "mt_config \<Rightarrow> bool" where
  "snapshot_wf cfg = (list_all (\<lambda>g. group_enable g \<longrightarrow> rules_wf (items (group_rules g))) (items (groups cfg)) \<and>
     list_all (\<lambda>s. sub_active s \<longrightarrow> rules_wf (map mt_rule_of_sub_rule (items (sub_rules s))))
       (items (subscriptions cfg)))"

definition entry_matches ::
  "'re pcre2 \<Rightarrow> mt_id \<times> string \<times> (string \<times> string) list \<Rightarrow> 're mt_group_snapshot \<Rightarrow> bool" where
  "entry_matches P e s = (case e of (i, n, rules) \<Rightarrow> snap_id s = i \<and> snap_name s = n \<and>
     (\<forall>d. mt_matcher_match P (snap_matcher s) d = Some (\<exists>tr\<in>set rules. index_matches P tr d)))"

lemma add_rule_entries:
  "rules_wf rs \<Longrightarrow>
   foldM (add_rule_entry P) rs m = foldM (\<lambda>tr. mt_matcher_add P (fst tr) (snd tr)) (live_rules rs) m"
  by (induction rs arbitrary: m) (auto simp: rules_wf_def add_rule_entry_def split: option.splits)

lemma append_snapshot_entry_spec:
  assumes "rules_wf rules"
  shows "\<exists>s. append_snapshot_entry P i name rules snap = Some (snap @ [s]) \<and>
    entry_matches P (i, case name of None \<Rightarrow> [] | Some n \<Rightarrow> n, live_rules rules) s"
proof -
  obtain m where
    "foldM (add_rule_entry P) rules mt_matcher_new = Some m"
    "\<forall>d. mt_matcher_match P m d = Some (\<exists>tr\<in>set (live_rules rules). index_matches P tr d)"
    using mx.build [of "live_rules rules" P] add_rule_entries [OF assms, of P mt_matcher_new]
    by (auto simp: list_all_iff)
  then show ?thesis by (simp add: append_snapshot_entry_def entry_matches_def)
qed

text \<open>A loop that appends a matching entry for every active element, and nothing for the others.\<close>

lemma snapshot_fold:
  assumes step: "\<And>x snap. x \<in> set xs \<Longrightarrow> act x \<Longrightarrow>
      \<exists>s. f x snap = Some (snap @ [s]) \<and> entry_matches P (ent x) s"
    and skip: "\<And>x snap. x \<in> set xs \<Longrightarrow> \<not> act x \<Longrightarrow> f x snap = Some snap"
    and "list_all2 (entry_matches P) es snap"
  shows "\<exists>snap'. foldM f xs snap = Some snap' \<and>
    list_all2 (entry_matches P) (es @ map ent (filter act xs)) snap'"
  using assms
proof (induction xs arbitrary: es snap)
  case (Cons x xs)
  show ?case
  proof (cases "act x")
    case True
    with Cons.prems(1) [of x snap] obtain s where
      s: "f x snap = Some (snap @ [s])" "entry_matches P (ent x) s" by auto
    with Cons.prems(3) have "list_all2 (entry_matches P) (es @ [ent x]) (snap @ [s])"
      by (simp add: list_all2_appendI)
    from Cons.IH [OF _ _ this] Cons.prems(1,2) s True show ?thesis by simp
  next
    case False
    with Cons.prems(2) [of x snap] Cons.IH [OF _ _ Cons.prems(3)] Cons.prems(1,2) show ?thesis by simp
  qed
qed simp

text \<open>
  C12.  The snapshot of a configuration.  If every enabled rule of an enabled group or active
  subscription has a type and a text (as the loader and the API make them), building the snapshot
  returns, with exactly one entry per enabled group and per subscription that is enabled and has
  an interface, in that order, under its identifier and name; and every entry matches a name
  exactly when one of the enabled rules of its group matches it, where a namespace rule with a
  leading dot also matches the names the trie gives it (\<^const>\<open>index_matches\<close>).
\<close>

theorem snapshot_build_correct:
  assumes "snapshot_wf cfg"
  shows "\<exists>snap. mt_ruleset_snapshot_build P cfg = Some snap \<and>
    list_all2 (entry_matches P) (snapshot_entries cfg) snap"
proof -
  let ?gs = "items (groups cfg)" and ?ss = "items (subscriptions cfg)"
  have g: "\<exists>s. snapshot_group P g snap = Some (snap @ [s]) \<and> entry_matches P (group_entry g) s"
    if "g \<in> set ?gs" "group_enable g" for g snap
    using that assms append_snapshot_entry_spec [of "items (group_rules g)"]
    by (auto simp: snapshot_group_def group_entry_def snapshot_wf_def list_all_iff)
  have s: "\<exists>e. snapshot_subscription P s snap = Some (snap @ [e]) \<and> entry_matches P (sub_entry s) e"
    if s: "s \<in> set ?ss" "sub_active s" for s snap
  proof -
    obtain g where g: "mt_sub_runtime_group s = Some g" "group_id g = sub_id s"
      "group_name g = Some (if sub_name s = None \<or> sub_name s = Some []
           then ''subscription:'' @ mt_id_format (sub_id s) else the (sub_name s))"
      "group_enable g" "items (group_rules g) = map mt_rule_of_sub_rule (items (sub_rules s))"
      using mt_sub_runtime_group_total [of s] s(2) unfolding sub_active_def by metis
    have "rules_wf (items (group_rules g))"
      using s assms by (auto simp: g snapshot_wf_def list_all_iff)
    from append_snapshot_entry_spec [OF this, of P "group_id g" "group_name g" snap] show ?thesis
      by (simp only: snapshot_subscription_def snapshot_group_def sub_entry_def g option.case
          simp_thms if_False if_True)
  qed
  have n: "snapshot_subscription P s snap = Some snap" if "\<not> sub_active s" for s snap
    by (rule mt_sub_runtime_group_total [of s])
       (use that in \<open>auto simp: snapshot_subscription_def snapshot_group_def sub_active_def\<close>)
  obtain snap1 where snap1: "foldM (snapshot_group P) ?gs [] = Some snap1"
    "list_all2 (entry_matches P) (map group_entry (filter group_enable ?gs)) snap1"
    using snapshot_fold [of ?gs group_enable "snapshot_group P" P group_entry "[]" "[]"] g
    by (auto simp: snapshot_group_def)
  from snapshot_fold [of ?ss sub_active "snapshot_subscription P" P sub_entry, OF _ _ snap1(2)] s n
  show ?thesis using snap1(1) by (auto simp: mt_ruleset_snapshot_build_def snapshot_entries_def)
qed

theorem snapshot_build_correct_witness:
  "let r = mt_rule_new\<lparr>rule_type := Some ''namespace'', rule_rule := Some ''a.b'', rule_enable := True\<rparr>;
       g = mt_group_new\<lparr>group_name := Some ''g'', group_enable := True,
         group_rules := \<lparr>items = [r], cap = 8\<rparr>\<rparr>;
       cfg = mt_config_init_defaults\<lparr>groups := \<lparr>items = [g], cap = 8\<rparr>\<rparr>
   in snapshot_wf cfg \<and> (\<exists>snap. mt_ruleset_snapshot_build literal_pcre2 cfg = Some snap \<and>
        list_all2 (entry_matches literal_pcre2) [(id_zero, ''g'', [(''namespace'', ''a.b'')])] snap)"
proof -
  let ?r = "mt_rule_new\<lparr>rule_type := Some ''namespace'', rule_rule := Some ''a.b'', rule_enable := True\<rparr>"
  let ?g = "mt_group_new\<lparr>group_name := Some ''g'', group_enable := True,
         group_rules := \<lparr>items = [?r], cap = 8\<rparr>\<rparr>"
  let ?cfg = "mt_config_init_defaults\<lparr>groups := \<lparr>items = [?g], cap = 8\<rparr>\<rparr>"
  have wf: "snapshot_wf ?cfg" by code_simp
  have "snapshot_entries ?cfg = [(id_zero, ''g'', [(''namespace'', ''a.b'')])]" by code_simp
  with wf snapshot_build_correct [OF wf, of literal_pcre2] show ?thesis by simp
qed

end
