(* ===== verification/Chained.thy ===== *)
theory Chained
  imports Prelude
begin

text \<open>
  Chained hash tables of nodes that carry a string key, as the two tables of
  \<^verbatim>\<open>src/dns_cache/cache.c\<close> use them: an array of bucket lists, a key hashed by FNV-1a, new nodes pushed
  at the front of their bucket, a node found by walking the bucket and then changed in place or
  unlinked.  The bucket array is a function from the bucket number.  The interface is the locale
  \<open>assoc_table\<close>; \<open>chained_table\<close> provides it for every positive number of buckets.
\<close>

section \<open>Operations\<close>

definition bucket_of :: "nat \<Rightarrow> string \<Rightarrow> nat" where
  "bucket_of B k = unat (fnv1a k) mod B"

definition ct_find :: "('n \<Rightarrow> string) \<Rightarrow> nat \<Rightarrow> (nat \<Rightarrow> 'n list) \<Rightarrow> string \<Rightarrow> 'n option" where
  "ct_find key B bs k = find (\<lambda>n. key n = k) (bs (bucket_of B k))"

definition ct_push :: "('n \<Rightarrow> string) \<Rightarrow> nat \<Rightarrow> 'n \<Rightarrow> (nat \<Rightarrow> 'n list) \<Rightarrow> (nat \<Rightarrow> 'n list)" where
  "ct_push key B n bs = bs(bucket_of B (key n) := n # bs (bucket_of B (key n)))"

fun upd_first :: "('n \<Rightarrow> bool) \<Rightarrow> ('n \<Rightarrow> 'n) \<Rightarrow> 'n list \<Rightarrow> 'n list" where
  "upd_first p f [] = []"
| "upd_first p f (n # ns) = (if p n then f n # ns else n # upd_first p f ns)"

definition ct_update ::
  "('n \<Rightarrow> string) \<Rightarrow> nat \<Rightarrow> string \<Rightarrow> ('n \<Rightarrow> 'n) \<Rightarrow> (nat \<Rightarrow> 'n list) \<Rightarrow> (nat \<Rightarrow> 'n list)" where
  "ct_update key B k f bs =
    bs(bucket_of B k := upd_first (\<lambda>n. key n = k) f (bs (bucket_of B k)))"

fun unlink_first :: "('n \<Rightarrow> bool) \<Rightarrow> 'n list \<Rightarrow> 'n list" where
  "unlink_first p [] = []"
| "unlink_first p (n # ns) = (if p n then ns else n # unlink_first p ns)"

definition ct_unlink :: "('n \<Rightarrow> string) \<Rightarrow> nat \<Rightarrow> string \<Rightarrow> (nat \<Rightarrow> 'n list) \<Rightarrow> (nat \<Rightarrow> 'n list)" where
  "ct_unlink key B k bs =
    bs(bucket_of B k := unlink_first (\<lambda>n. key n = k) (bs (bucket_of B k)))"

section \<open>Interface\<close>

text \<open>What a table promises: its content is a finite map from keys to nodes.\<close>

locale assoc_table =
  fixes key :: "'n \<Rightarrow> string"
    and empty :: 't
    and lookup :: "'t \<Rightarrow> string \<Rightarrow> 'n option"
    and push :: "'n \<Rightarrow> 't \<Rightarrow> 't"
    and update :: "string \<Rightarrow> ('n \<Rightarrow> 'n) \<Rightarrow> 't \<Rightarrow> 't"
    and unlink :: "string \<Rightarrow> 't \<Rightarrow> 't"
    and invar :: "'t \<Rightarrow> bool"
  assumes lookup_empty: "lookup empty = Map.empty"
    and invar_empty: "invar empty"
    and lookup_key: "lookup t k = Some n \<Longrightarrow> key n = k"
    and finite_dom: "invar t \<Longrightarrow> finite (dom (lookup t))"
    and lookup_push: "lookup (push n t) = (lookup t)(key n \<mapsto> n)"
    and invar_push: "invar t \<Longrightarrow> lookup t (key n) = None \<Longrightarrow> invar (push n t)"
    and lookup_update: "(\<And>n. key (f n) = key n) \<Longrightarrow>
      lookup (update k f t) = (lookup t)(k := map_option f (lookup t k))"
    and invar_update: "invar t \<Longrightarrow> (\<And>n. key (f n) = key n) \<Longrightarrow> invar (update k f t)"
    and lookup_unlink: "invar t \<Longrightarrow> lookup (unlink k t) = (lookup t)(k := None)"
    and invar_unlink: "invar t \<Longrightarrow> invar (unlink k t)"
begin

lemma card_push:
  "invar t \<Longrightarrow> lookup t (key n) = None \<Longrightarrow>
   card (dom (lookup (push n t))) = Suc (card (dom (lookup t)))"
  by (simp add: lookup_push finite_dom domIff)

lemma dom_update:
  "(\<And>n. key (f n) = key n) \<Longrightarrow> dom (lookup (update k f t)) = dom (lookup t)"
  by (auto simp: lookup_update dom_def)

end

section \<open>Every chained table provides it\<close>

definition ct_inv :: "('n \<Rightarrow> string) \<Rightarrow> nat \<Rightarrow> (nat \<Rightarrow> 'n list) \<Rightarrow> bool" where
  "ct_inv key B bs = ((\<forall>b. distinct (map key (bs b)) \<and> (\<forall>n\<in>set (bs b). bucket_of B (key n) = b)))"

lemma find_upd_first:
  assumes "\<And>n. key (f n) = key n"
  shows "find (\<lambda>n. key n = k') (upd_first (\<lambda>n. key n = k) f ns) =
    (if k' = k then map_option f (find (\<lambda>n. key n = k) ns) else find (\<lambda>n. key n = k') ns)"
  using assms by (induction ns) auto

lemma map_key_upd_first:
  assumes "\<And>n. key (f n) = key n"
  shows "map key (upd_first p f ns) = map key ns"
  using assms by (induction ns) auto

lemma upd_first_bucket:
  assumes "\<And>n. key (f n) = key n" and "\<forall>n\<in>set ns. bucket_of B (key n) = b"
    and "n \<in> set (upd_first p f ns)"
  shows "bucket_of B (key n) = b"
proof -
  have "key n \<in> set (map key ns)"
    using assms(3) map_key_upd_first [of key f p ns] assms(1) by (metis imageI set_map)
  then show ?thesis using assms(2) by auto
qed

lemma find_unlink_first:
  "distinct (map key ns) \<Longrightarrow> find (\<lambda>n. key n = k') (unlink_first (\<lambda>n. key n = k) ns) =
    (if k' = k then None else find (\<lambda>n. key n = k') ns)"
  by (induction ns) (auto simp: find_None_iff image_iff)

lemma set_unlink_first: "set (unlink_first p ns) \<subseteq> set ns"
  by (induction ns) auto

lemma distinct_unlink_first: "distinct (map key ns) \<Longrightarrow> distinct (map key (unlink_first p ns))"
  by (induction ns) (auto dest: subsetD [OF set_unlink_first])

lemma find_some_key: "find (\<lambda>n. key n = k) ns = Some n \<Longrightarrow> key n = k \<and> n \<in> set ns"
  by (auto simp: find_Some_iff)

locale chained_table =
  fixes key :: "'n \<Rightarrow> string" and B :: nat
  assumes buckets: "B > 0"

sublocale chained_table \<subseteq> assoc_table key "\<lambda>_. []" "ct_find key B" "ct_push key B" "ct_update key B"
  "ct_unlink key B" "ct_inv key B"
proof unfold_locales
  show "ct_find key B (\<lambda>_. []) = Map.empty" by (simp add: ct_find_def fun_eq_iff)
  show "ct_inv key B (\<lambda>_. [])" by (simp add: ct_inv_def)
  show "ct_find key B t k = Some n \<Longrightarrow> key n = k" for t k n
    using find_some_key [of key k "t (bucket_of B k)" n] by (simp add: ct_find_def)
  show "finite (dom (ct_find key B t))" for t
  proof (rule finite_subset)
    show "dom (ct_find key B t) \<subseteq> key ` (\<Union>b\<in>{..<B}. set (t b))"
    proof
      fix k
      assume "k \<in> dom (ct_find key B t)"
      then obtain n where "find (\<lambda>n. key n = k) (t (bucket_of B k)) = Some n" by (auto simp: ct_find_def)
      from find_some_key [OF this] show "k \<in> key ` (\<Union>b\<in>{..<B}. set (t b))"
        using buckets by (force simp: bucket_of_def)
    qed
  qed simp
  show "ct_find key B (ct_push key B n t) = (ct_find key B t)(key n \<mapsto> n)" for n t
    by (auto simp: ct_find_def ct_push_def fun_eq_iff)
  show "ct_inv key B t \<Longrightarrow> ct_find key B t (key n) = None \<Longrightarrow> ct_inv key B (ct_push key B n t)" for t n
  proof -
    assume inv: "ct_inv key B t" and "ct_find key B t (key n) = None"
    then have "key n \<notin> key ` set (t (bucket_of B (key n)))"
      unfolding ct_find_def find_None_iff by fastforce
    with inv show "ct_inv key B (ct_push key B n t)" by (simp add: ct_inv_def ct_push_def)
  qed
  show "ct_find key B (ct_update key B k f t) = (ct_find key B t)(k := map_option f (ct_find key B t k))"
    if "\<And>n. key (f n) = key n" for f k t
    using that by (auto simp: ct_find_def ct_update_def fun_eq_iff find_upd_first)
  show "ct_inv key B t \<Longrightarrow> ct_inv key B (ct_update key B k f t)" if "\<And>n. key (f n) = key n" for f k t
    using that upd_first_bucket [of key f "t (bucket_of B k)" B "bucket_of B k"]
    by (auto simp: ct_inv_def ct_update_def map_key_upd_first)
  show "ct_inv key B t \<Longrightarrow> ct_find key B (ct_unlink key B k t) = (ct_find key B t)(k := None)" for t k
    by (simp add: ct_inv_def ct_find_def ct_unlink_def fun_eq_iff find_unlink_first)
  show "ct_inv key B t \<Longrightarrow> ct_inv key B (ct_unlink key B k t)" for t k
    using set_unlink_first [of "\<lambda>n. key n = k" "t (bucket_of B k)"]
    by (auto simp: ct_inv_def ct_unlink_def distinct_unlink_first)
qed

lemma ct_find_iff:
  assumes "ct_inv key B bs"
  shows "ct_find key B bs k = Some n \<longleftrightarrow> key n = k \<and> n \<in> set (bs (bucket_of B k))"
proof -
  have "distinct (map key ns) \<Longrightarrow> find (\<lambda>n. key n = k) ns = Some n \<longleftrightarrow> key n = k \<and> n \<in> set ns" for ns
    by (induction ns) (auto simp: image_iff)
  then show ?thesis using assms by (simp add: ct_inv_def ct_find_def)
qed

end
