(* ===== verification/Dns_Cache.thy ===== *)
theory Dns_Cache
  imports Chained
begin

text \<open>
  \<^verbatim>\<open>src/dns_cache/cache.c\<close>: addresses and one alias (CNAME target) per domain with deadlines, a
  reverse index from an alias to the domains that point at it, bounded in the number of domains.

  An address is the list of its \<^verbatim>\<open>addr_len\<close> bytes.  Times are seconds in \<^verbatim>\<open>int64_t\<close>; the deadlines
  \<^verbatim>\<open>now + ttl\<close> with a 32-bit \<^verbatim>\<open>ttl\<close> stay far inside that type, so they are \<^typ>\<open>int\<close>.  The
  counter of dropped names wraps in 64 bits.  Memory allocation succeeds.
\<close>

section \<open>State\<close>

record cache_addr =
  addr :: "u8 list"
  deadline :: int

record domain_node =
  dn_domain :: string
  addrs :: "cache_addr list"
  dn_alias :: "string option"
  alias_deadline :: int

record rev_node =
  rn_alias :: string
  rn_domains :: "string list"

record mt_cache =
  dom_buckets :: "nat \<Rightarrow> domain_node list"
  rev_buckets :: "nat \<Rightarrow> rev_node list"
  n_domains :: nat
  max_domains :: nat
  dropped :: u64

definition DOM_BUCKETS :: nat where "DOM_BUCKETS = 4096"
definition REV_BUCKETS :: nat where "REV_BUCKETS = 1024"

definition mt_cache_create :: "nat \<Rightarrow> mt_cache" where
  "mt_cache_create maxd = \<lparr>dom_buckets = (\<lambda>_. []), rev_buckets = (\<lambda>_. []), n_domains = 0,
     max_domains = (if maxd > 0 then maxd else 65536), dropped = 0\<rparr>"

section \<open>Operations\<close>

definition dom_find :: "mt_cache \<Rightarrow> string \<Rightarrow> domain_node option" where
  "dom_find c domain = ct_find dn_domain DOM_BUCKETS (dom_buckets c) domain"

text \<open>A change of the node that \<^verbatim>\<open>dom_find\<close> returned, through its pointer.\<close>

definition dom_modify :: "string \<Rightarrow> (domain_node \<Rightarrow> domain_node) \<Rightarrow> mt_cache \<Rightarrow> mt_cache" where
  "dom_modify domain f c =
    c\<lparr>dom_buckets := ct_update dn_domain DOM_BUCKETS domain f (dom_buckets c)\<rparr>"

definition dom_find_or_create :: "mt_cache \<Rightarrow> string \<Rightarrow> mt_cache option" where
  "dom_find_or_create c domain =
    (case dom_find c domain of
       Some _ \<Rightarrow> Some c
     | None \<Rightarrow>
         if n_domains c \<ge> max_domains c then None
         else Some (c\<lparr>dom_buckets := ct_push dn_domain DOM_BUCKETS
                \<lparr>dn_domain = domain, addrs = [], dn_alias = None, alias_deadline = 0\<rparr> (dom_buckets c),
              n_domains := n_domains c + 1\<rparr>))"

definition rev_find :: "(nat \<Rightarrow> rev_node list) \<Rightarrow> string \<Rightarrow> rev_node option" where
  "rev_find rbs alias = ct_find rn_alias REV_BUCKETS rbs alias"

definition rev_add :: "string \<Rightarrow> string \<Rightarrow> (nat \<Rightarrow> rev_node list) \<Rightarrow> (nat \<Rightarrow> rev_node list)" where
  "rev_add alias domain rbs =
    (let rbs' = (case rev_find rbs alias of
                   None \<Rightarrow> ct_push rn_alias REV_BUCKETS \<lparr>rn_alias = alias, rn_domains = []\<rparr> rbs
                 | Some _ \<Rightarrow> rbs)
     in ct_update rn_alias REV_BUCKETS alias (\<lambda>n. n\<lparr>rn_domains := rn_domains n @ [domain]\<rparr>) rbs')"

text \<open>\<^verbatim>\<open>domains[i] = domains[n - 1]; n--\<close> at the first \<open>i\<close> with the domain.\<close>

fun swap_remove :: "string \<Rightarrow> string list \<Rightarrow> string list" where
  "swap_remove d [] = []"
| "swap_remove d (x # xs) =
     (if x = d then (if xs = [] then [] else last xs # butlast xs) else x # swap_remove d xs)"

definition rev_remove :: "string \<Rightarrow> string \<Rightarrow> (nat \<Rightarrow> rev_node list) \<Rightarrow> (nat \<Rightarrow> rev_node list)" where
  "rev_remove alias domain rbs =
    (case rev_find rbs alias of
       None \<Rightarrow> rbs
     | Some n \<Rightarrow>
         if swap_remove domain (rn_domains n) = []
         then ct_unlink rn_alias REV_BUCKETS alias rbs
         else ct_update rn_alias REV_BUCKETS alias
           (\<lambda>n. n\<lparr>rn_domains := swap_remove domain (rn_domains n)\<rparr>) rbs)"

fun refresh_addr :: "u8 list \<Rightarrow> int \<Rightarrow> cache_addr list \<Rightarrow> cache_addr list" where
  "refresh_addr a dl [] = [\<lparr>addr = a, deadline = dl\<rparr>]"
| "refresh_addr a dl (x # xs) =
     (if addr x = a then x\<lparr>deadline := dl\<rparr> # xs else x # refresh_addr a dl xs)"

definition mt_cache_add_address ::
  "mt_cache \<Rightarrow> string \<Rightarrow> u8 list \<Rightarrow> u32 \<Rightarrow> int \<Rightarrow> mt_cache" where
  "mt_cache_add_address c domain a ttl now =
    (case dom_find_or_create c domain of
       None \<Rightarrow> c\<lparr>dropped := dropped c + 1\<rparr>
     | Some c' \<Rightarrow> dom_modify domain
         (\<lambda>n. n\<lparr>addrs := refresh_addr a (now + uint ttl) (addrs n)\<rparr>) c')"

definition mt_cache_add_alias ::
  "mt_cache \<Rightarrow> string \<Rightarrow> string \<Rightarrow> u32 \<Rightarrow> int \<Rightarrow> mt_cache" where
  "mt_cache_add_alias c domain alias ttl now =
    (if domain = alias then c
     else case dom_find_or_create c domain of
       None \<Rightarrow> c\<lparr>dropped := dropped c + 1\<rparr>
     | Some c1 \<Rightarrow>
         let c2 = (case dom_find c1 domain of
                     None \<Rightarrow> c1
                   | Some n \<Rightarrow> (case dn_alias n of
                       None \<Rightarrow> c1
                     | Some old \<Rightarrow> c1\<lparr>rev_buckets := rev_remove old domain (rev_buckets c1)\<rparr>));
             c3 = dom_modify domain
               (\<lambda>n. n\<lparr>dn_alias := Some alias, alias_deadline := now + uint ttl\<rparr>) c2
         in c3\<lparr>rev_buckets := rev_add alias domain (rev_buckets c3)\<rparr>)"

definition valid_addrs :: "int \<Rightarrow> domain_node \<Rightarrow> cache_addr list" where
  "valid_addrs now n = filter (\<lambda>a. deadline a > now) (addrs n)"

function get_addresses_loop ::
  "mt_cache \<Rightarrow> int \<Rightarrow> string list \<Rightarrow> string \<Rightarrow> cache_addr list" where
  "get_addresses_loop c now seen current =
    (case dom_find c current of
       None \<Rightarrow> []
     | Some n \<Rightarrow>
         if valid_addrs now n \<noteq> [] then valid_addrs now n
         else (case dn_alias n of
             None \<Rightarrow> []
           | Some a \<Rightarrow>
               if alias_deadline n \<le> now then []
               else if length seen \<ge> 64 then []
               else if a \<in> set seen then []
               else get_addresses_loop c now (seen @ [a]) a))"
  by pat_completeness auto
termination
  by (relation "measure (\<lambda>(c, now, seen, cur). 64 - length seen)") auto

declare get_addresses_loop.simps [simp del]

definition mt_cache_get_addresses :: "mt_cache \<Rightarrow> string \<Rightarrow> int \<Rightarrow> cache_addr list" where
  "mt_cache_get_addresses c domain now = get_addresses_loop c now [domain] domain"

text \<open>The body of the breadth-first loop: every domain pointing at the current name that is not in
  the result yet is appended.  \<^verbatim>\<open>result\<close> and \<^verbatim>\<open>queue\<close> receive the same pushes, so one list is both.\<close>

fun push_new :: "string list \<Rightarrow> string list \<Rightarrow> string list" where
  "push_new [] res = res"
| "push_new (p # ps) res = push_new ps (if p \<in> set res then res else res @ [p])"

definition pointing_at :: "mt_cache \<Rightarrow> string \<Rightarrow> string list" where
  "pointing_at c cur = (case rev_find (rev_buckets c) cur of None \<Rightarrow> [] | Some rn \<Rightarrow> rn_domains rn)"

definition rev_universe :: "mt_cache \<Rightarrow> string set" where
  "rev_universe c = (\<Union>b\<in>{..<REV_BUCKETS}. \<Union>n\<in>set (rev_buckets c b). set (rn_domains n))"

lemma finite_rev_universe: "finite (rev_universe c)"
  by (simp add: rev_universe_def)

lemma pointing_at_universe: "set (pointing_at c cur) \<subseteq> rev_universe c"
proof -
  let ?b = "bucket_of REV_BUCKETS cur"
  have b: "?b < REV_BUCKETS" by (simp add: bucket_of_def REV_BUCKETS_def)
  show ?thesis
  proof (cases "rev_find (rev_buckets c) cur")
    case (Some n)
    then have "n \<in> set (rev_buckets c ?b)"
      using find_some_key [of rn_alias cur "rev_buckets c ?b" n] by (simp add: rev_find_def ct_find_def)
    with b Some show ?thesis by (auto simp: pointing_at_def rev_universe_def)
  qed (simp add: pointing_at_def)
qed

lemma push_new_measure:
  assumes "finite U" and "set ps \<subseteq> U"
  shows "card (U - set (push_new ps res)) + length (push_new ps res) = card (U - set res) + length res"
  using assms(2)
proof (induction ps arbitrary: res)
  case (Cons p ps)
  show ?case
  proof (cases "p \<in> set res")
    case False
    have "U - set (res @ [p]) = (U - set res) - {p}" by auto
    then have "card (U - set (res @ [p])) = card (U - set res) - 1" "card (U - set res) > 0"
      using False Cons.prems assms(1) by (auto simp: card_gt_0_iff)
    then show ?thesis using False Cons by simp
  qed (use Cons in simp)
qed simp

lemma push_new_length: "length (push_new ps res) \<ge> length res"
  by (induction ps res rule: push_new.induct) (auto split: if_splits)

function aliases_loop :: "mt_cache \<Rightarrow> nat \<Rightarrow> string list \<Rightarrow> string list" where
  "aliases_loop c head queue =
    (if head < length queue
     then aliases_loop c (head + 1) (push_new (pointing_at c (queue ! head)) queue)
     else queue)"
  by pat_completeness auto
termination
proof (relation "measure (\<lambda>(c, h, q). card (rev_universe c - set q) + length q - h)")
  fix c h and q :: "string list"
  assume "h < length q"
  then show "((c, h + 1, push_new (pointing_at c (q ! h)) q), (c, h, q)) \<in>
      measure (\<lambda>(c, h, q). card (rev_universe c - set q) + length q - h)"
    using push_new_measure [OF finite_rev_universe pointing_at_universe, of c "q ! h" q] by simp
qed simp

declare aliases_loop.simps [simp del]

definition mt_cache_get_aliases :: "mt_cache \<Rightarrow> string \<Rightarrow> string list" where
  "mt_cache_get_aliases c domain = aliases_loop c 0 [domain]"

definition mt_cache_list_known_domains :: "mt_cache \<Rightarrow> string list" where
  "mt_cache_list_known_domains c =
    concat (map (\<lambda>b. map dn_domain (dom_buckets c b)) [0..<DOM_BUCKETS])"

text \<open>The body of the cleanup loop over one bucket: the nodes kept, the reverse table and the
  number of domains after it.\<close>

definition clean_node :: "int \<Rightarrow> domain_node \<Rightarrow> domain_node" where
  "clean_node now n =
    (let n1 = n\<lparr>addrs := filter (\<lambda>a. deadline a > now) (addrs n)\<rparr>
     in if dn_alias n1 \<noteq> None \<and> alias_deadline n1 \<le> now then n1\<lparr>dn_alias := None\<rparr> else n1)"

fun cleanup_bucket ::
  "int \<Rightarrow> domain_node list \<Rightarrow> (nat \<Rightarrow> rev_node list) \<Rightarrow> nat \<Rightarrow>
   domain_node list \<times> (nat \<Rightarrow> rev_node list) \<times> nat" where
  "cleanup_bucket now [] rbs cnt = ([], rbs, cnt)"
| "cleanup_bucket now (n # ns) rbs cnt =
    (let n' = clean_node now n;
         rbs' = (case dn_alias n of
                   None \<Rightarrow> rbs
                 | Some a \<Rightarrow> if alias_deadline n \<le> now then rev_remove a (dn_domain n) rbs else rbs)
     in if addrs n' = [] \<and> dn_alias n' = None
        then cleanup_bucket now ns rbs' (cnt - 1)
        else (case cleanup_bucket now ns rbs' cnt of (ns', rbs'', cnt') \<Rightarrow> (n' # ns', rbs'', cnt')))"

definition cleanup_step :: "int \<Rightarrow> nat \<Rightarrow> mt_cache \<Rightarrow> mt_cache" where
  "cleanup_step now b c =
    (case cleanup_bucket now (dom_buckets c b) (rev_buckets c) (n_domains c) of
       (ns, rbs, cnt) \<Rightarrow> c\<lparr>dom_buckets := (dom_buckets c)(b := ns), rev_buckets := rbs, n_domains := cnt\<rparr>)"

definition mt_cache_cleanup :: "mt_cache \<Rightarrow> int \<Rightarrow> mt_cache" where
  "mt_cache_cleanup c now = fold (cleanup_step now) [0..<DOM_BUCKETS] c"

definition mt_cache_domain_count :: "mt_cache \<Rightarrow> nat" where
  "mt_cache_domain_count c = n_domains c"

definition mt_cache_dropped :: "mt_cache \<Rightarrow> u64" where
  "mt_cache_dropped c = dropped c"

section \<open>The two tables\<close>

interpretation dt: chained_table dn_domain DOM_BUCKETS
  by unfold_locales (simp add: DOM_BUCKETS_def)

interpretation rt: chained_table rn_alias REV_BUCKETS
  by unfold_locales (simp add: REV_BUCKETS_def)

lemma swap_remove_distinct:
  "distinct xs \<Longrightarrow> set (swap_remove d xs) = set xs - {d} \<and> distinct (swap_remove d xs)"
proof (induction xs)
  case (Cons x xs)
  show ?case
  proof (cases "x = d")
    case True
    have "set (last xs # butlast xs) = set xs \<and> distinct (last xs # butlast xs)" if "xs \<noteq> []"
      using that Cons.prems by (cases xs rule: rev_exhaust) auto
    with True Cons.prems show ?thesis by auto
  next
    case False
    with Cons show ?thesis by auto
  qed
qed simp

lemma rev_find_add:
  "rev_find (rev_add a d rbs) = (rev_find rbs)(a \<mapsto>
    \<lparr>rn_alias = a, rn_domains = (case rev_find rbs a of None \<Rightarrow> [] | Some n \<Rightarrow> rn_domains n) @ [d]\<rparr>)"
proof (cases "rev_find rbs a")
  case None
  then show ?thesis
    by (simp add: rev_add_def rev_find_def rt.lookup_update rt.lookup_push fun_eq_iff)
next
  case (Some n)
  then have "rn_alias n = a" using rt.lookup_key [of rbs a n] by (simp add: rev_find_def)
  with Some show ?thesis
    by (simp add: rev_add_def rev_find_def rt.lookup_update fun_eq_iff)
qed

lemma rev_find_remove:
  assumes "ct_inv rn_alias REV_BUCKETS rbs"
  shows "rev_find (rev_remove a d rbs) = (rev_find rbs)(a :=
    (case rev_find rbs a of None \<Rightarrow> None | Some n \<Rightarrow>
      if swap_remove d (rn_domains n) = [] then None
      else Some (n\<lparr>rn_domains := swap_remove d (rn_domains n)\<rparr>)))"
  using assms
  by (auto simp: rev_remove_def rev_find_def rt.lookup_unlink rt.lookup_update fun_eq_iff
      split: option.splits)

text \<open>A reverse table that holds exactly the edges \<open>(alias, domain)\<close> of \<open>E\<close>.\<close>

definition rev_rel :: "(nat \<Rightarrow> rev_node list) \<Rightarrow> (string \<times> string) set \<Rightarrow> bool" where
  "rev_rel rbs E = (ct_inv rn_alias REV_BUCKETS rbs \<and>
     (\<forall>a n. rev_find rbs a = Some n \<longrightarrow> distinct (rn_domains n) \<and> rn_domains n \<noteq> []) \<and>
     (\<forall>a d. (a, d) \<in> E \<longleftrightarrow> (\<exists>n. rev_find rbs a = Some n \<and> d \<in> set (rn_domains n))))"

lemma rev_rel_add:
  assumes "rev_rel rbs E" and "(a, d) \<notin> E"
  shows "rev_rel (rev_add a d rbs) (insert (a, d) E)"
proof -
  have inv: "ct_inv rn_alias REV_BUCKETS (rev_add a d rbs)"
    using assms(1) by (auto simp: rev_rel_def rev_add_def Let_def rev_find_def
        intro!: rt.invar_update rt.invar_push split: option.splits)
  show ?thesis using assms inv unfolding rev_rel_def rev_find_add
    by (auto split: option.splits if_splits)
qed

lemma rev_rel_remove:
  assumes "rev_rel rbs E"
  shows "rev_rel (rev_remove a d rbs) (E - {(a, d)})"
proof -
  have ct: "ct_inv rn_alias REV_BUCKETS rbs" using assms by (simp add: rev_rel_def)
  have inv: "ct_inv rn_alias REV_BUCKETS (rev_remove a d rbs)"
    using ct by (auto simp: rev_remove_def intro!: rt.invar_update rt.invar_unlink split: option.splits)
  have sr: "set (swap_remove d (rn_domains n)) = set (rn_domains n) - {d}"
    "distinct (swap_remove d (rn_domains n))" if "rev_find rbs a = Some n" for n
    using assms that swap_remove_distinct [of "rn_domains n" d] by (auto simp: rev_rel_def)
  have empty: "swap_remove d (rn_domains n) = [] \<longleftrightarrow> set (rn_domains n) - {d} = {}"
    if "rev_find rbs a = Some n" for n
    using sr(1) [OF that] by (metis set_empty)
  have edges: "(x, y) \<in> E - {(a, d)} \<longleftrightarrow>
      (\<exists>n. rev_find (rev_remove a d rbs) x = Some n \<and> y \<in> set (rn_domains n))" for x y
  proof (cases "x = a")
    case True
    then show ?thesis
      using assms sr(1) empty unfolding rev_find_remove [OF ct] rev_rel_def
      by (cases "rev_find rbs a") (auto simp del: Diff_eq_empty_iff)
  next
    case False
    then show ?thesis using assms unfolding rev_find_remove [OF ct] rev_rel_def by auto
  qed
  show ?thesis
    using assms inv edges sr(2) unfolding rev_rel_def rev_find_remove [OF ct]
    by (auto split: option.splits if_splits)
qed

section \<open>The invariant\<close>

definition edges :: "(string \<Rightarrow> domain_node option) \<Rightarrow> (string \<times> string) set" where
  "edges m = {(a, d). \<exists>n. m d = Some n \<and> dn_alias n = Some a}"

definition node_ok :: "domain_node \<Rightarrow> bool" where
  "node_ok n = (distinct (map addr (addrs n)) \<and> dn_alias n \<noteq> Some (dn_domain n) \<and>
     (addrs n \<noteq> [] \<or> dn_alias n \<noteq> None))"

definition cache_ok :: "mt_cache \<Rightarrow> bool" where
  "cache_ok c = (ct_inv dn_domain DOM_BUCKETS (dom_buckets c) \<and>
     rev_rel (rev_buckets c) (edges (dom_find c)) \<and>
     n_domains c = card (dom (dom_find c)) \<and> n_domains c \<le> max_domains c \<and>
     (\<forall>d n. dom_find c d = Some n \<longrightarrow> node_ok n))"

abbreviation fresh_node :: "string \<Rightarrow> domain_node" where
  "fresh_node d \<equiv> \<lparr>dn_domain = d, addrs = [], dn_alias = None, alias_deadline = 0\<rparr>"

definition node_or_new :: "mt_cache \<Rightarrow> string \<Rightarrow> domain_node" where
  "node_or_new c d = (case dom_find c d of Some n \<Rightarrow> n | None \<Rightarrow> fresh_node d)"

lemma dom_find_eq: "dom_find c = ct_find dn_domain DOM_BUCKETS (dom_buckets c)"
  by (simp add: fun_eq_iff dom_find_def)

lemma dom_find_key: "dom_find c d = Some n \<Longrightarrow> dn_domain n = d"
  using dt.lookup_key by (simp add: dom_find_def)

lemma node_or_new_domain [simp]: "dn_domain (node_or_new c d) = d"
  by (auto simp: node_or_new_def dom_find_key split: option.splits)

text \<open>Find-or-create followed by a change of the node: the whole effect on the domain table.\<close>

lemma find_or_create_modify:
  assumes "dom_find_or_create c d = Some c'" and "cache_ok c" and "\<And>n. dn_domain (f n) = dn_domain n"
  shows "dom_find (dom_modify d f c') = (dom_find c)(d \<mapsto> f (node_or_new c d))"
    and "ct_inv dn_domain DOM_BUCKETS (dom_buckets (dom_modify d f c'))"
    and "n_domains (dom_modify d f c') = card (dom (dom_find (dom_modify d f c')))"
    and "n_domains (dom_modify d f c') \<le> max_domains (dom_modify d f c')"
    and "rev_buckets (dom_modify d f c') = rev_buckets c"
    and "max_domains (dom_modify d f c') = max_domains c"
    and "dropped (dom_modify d f c') = dropped c"
proof -
  have ct: "ct_inv dn_domain DOM_BUCKETS (dom_buckets c)" using assms(2) by (simp add: cache_ok_def)
  have fin: "finite (dom (dom_find c))" using dt.finite_dom [OF ct] by (simp add: dom_find_eq)
  have c': "ct_inv dn_domain DOM_BUCKETS (dom_buckets c') \<and>
      dom_find c' = (dom_find c)(d \<mapsto> node_or_new c d) \<and> rev_buckets c' = rev_buckets c \<and>
      max_domains c' = max_domains c \<and> dropped c' = dropped c \<and>
      n_domains c' = card (insert d (dom (dom_find c))) \<and> n_domains c' \<le> max_domains c"
  proof (cases "dom_find c d")
    case None
    then have "c' = c\<lparr>dom_buckets := ct_push dn_domain DOM_BUCKETS (fresh_node d) (dom_buckets c),
        n_domains := n_domains c + 1\<rparr>" "n_domains c < max_domains c"
      using assms(1) by (auto simp: dom_find_or_create_def split: if_splits)
    moreover have "card (insert d (dom (dom_find c))) = n_domains c + 1"
      using None fin assms(2) by (simp add: cache_ok_def domIff)
    moreover have "ct_inv dn_domain DOM_BUCKETS
        (ct_push dn_domain DOM_BUCKETS (fresh_node d) (dom_buckets c))"
      using None ct by (intro dt.invar_push) (simp_all add: dom_find_def)
    ultimately show ?thesis using None
      by (auto simp: node_or_new_def dom_find_def dt.lookup_push fun_eq_iff)
  next
    case (Some n)
    then have "c' = c" using assms(1) by (simp add: dom_find_or_create_def)
    with Some ct assms(2) show ?thesis
      by (auto simp: node_or_new_def cache_ok_def insert_absorb domI fun_eq_iff)
  qed
  then show look: "dom_find (dom_modify d f c') = (dom_find c)(d \<mapsto> f (node_or_new c d))"
    using assms(3) by (auto simp: dom_modify_def dom_find_def dt.lookup_update fun_eq_iff)
  show "ct_inv dn_domain DOM_BUCKETS (dom_buckets (dom_modify d f c'))"
    using c' assms(3) by (simp add: dom_modify_def dt.invar_update)
  have "dom (dom_find (dom_modify d f c')) = insert d (dom (dom_find c))" by (simp add: look)
  with c' show "n_domains (dom_modify d f c') = card (dom (dom_find (dom_modify d f c')))"
    by (simp add: dom_modify_def)
  show "n_domains (dom_modify d f c') \<le> max_domains (dom_modify d f c')"
    "rev_buckets (dom_modify d f c') = rev_buckets c"
    "max_domains (dom_modify d f c') = max_domains c" "dropped (dom_modify d f c') = dropped c"
    using c' by (simp_all add: dom_modify_def)
qed

section \<open>Every operation keeps it\<close>

lemma map_addr_refresh:
  "map addr (refresh_addr a dl xs) = (if a \<in> set (map addr xs) then map addr xs else map addr xs @ [a])"
  by (induction xs) auto

lemma cache_ok_create [inv_intros]: "cache_ok (mt_cache_create m)"
proof -
  have "dom_find (mt_cache_create m) = Map.empty" "rev_find (\<lambda>_. []) = Map.empty"
    by (simp_all add: mt_cache_create_def dom_find_def rev_find_def fun_eq_iff ct_find_def)
  then show ?thesis
    using dt.invar_empty rt.invar_empty
    by (auto simp: cache_ok_def rev_rel_def edges_def mt_cache_create_def)
qed

lemma add_address_find:
  assumes "cache_ok c" and "dom_find_or_create c d \<noteq> None"
  shows "dom_find (mt_cache_add_address c d a ttl now) = (dom_find c)(d \<mapsto>
    (node_or_new c d)\<lparr>addrs := refresh_addr a (now + uint ttl) (addrs (node_or_new c d))\<rparr>)"
  using assms find_or_create_modify(1) [OF _ assms(1)] by (auto simp: mt_cache_add_address_def)

lemma cache_ok_add_address [inv_intros]:
  assumes "cache_ok c"
  shows "cache_ok (mt_cache_add_address c d a ttl now)"
proof (cases "dom_find_or_create c d")
  case None
  then have "mt_cache_add_address c d a ttl now = c\<lparr>dropped := dropped c + 1\<rparr>"
    by (simp add: mt_cache_add_address_def)
  then show ?thesis using assms by (simp add: cache_ok_def dom_find_eq)
next
  case (Some c')
  let ?f = "\<lambda>n. n\<lparr>addrs := refresh_addr a (now + uint ttl) (addrs n)\<rparr>"
  have e: "mt_cache_add_address c d a ttl now = dom_modify d ?f c'"
    using Some by (simp add: mt_cache_add_address_def)
  note m = find_or_create_modify [OF Some assms, of ?f, simplified]
  have "edges (dom_find (dom_modify d ?f c')) = edges (dom_find c)"
    by (auto simp: m(1) edges_def node_or_new_def split: option.splits if_splits)
  moreover have "node_ok (?f (node_or_new c d))"
  proof -
    have "addrs (?f n) \<noteq> []" for n :: domain_node by (cases "addrs n") auto
    moreover have "distinct (map addr (addrs (node_or_new c d)))" "dn_alias (node_or_new c d) \<noteq> Some d"
      using assms by (auto simp: node_or_new_def cache_ok_def node_ok_def dom_find_key split: option.splits)
    ultimately show ?thesis by (simp add: node_ok_def map_addr_refresh)
  qed
  ultimately show ?thesis using assms m(2-5) unfolding e
    by (auto simp: cache_ok_def m(1) split: if_splits)
qed

lemma add_alias_parts:
  fixes ttl :: u32 and now :: int
  assumes "cache_ok c" and "d \<noteq> a" and "dom_find_or_create c d = Some c1"
  defines "n \<equiv> node_or_new c d"
  defines "c' \<equiv> mt_cache_add_alias c d a ttl now"
  shows "dom_find c' = (dom_find c)(d \<mapsto> n\<lparr>dn_alias := Some a, alias_deadline := now + uint ttl\<rparr>)"
    and "rev_buckets c' = rev_add a d (case dn_alias n of None \<Rightarrow> rev_buckets c
           | Some old \<Rightarrow> rev_remove old d (rev_buckets c))"
    and "ct_inv dn_domain DOM_BUCKETS (dom_buckets c')"
    and "n_domains c' = card (dom (dom_find c'))"
    and "n_domains c' \<le> max_domains c'"
    and "max_domains c' = max_domains c"
proof -
  let ?f = "\<lambda>n. n\<lparr>dn_alias := Some a, alias_deadline := now + uint ttl\<rparr>"
  note m = find_or_create_modify [OF assms(3,1), of ?f, simplified]
  have id: "dom_modify d (\<lambda>n. n) c1 = c1"
  proof -
    have "upd_first p (\<lambda>n. n) ns = ns" for p and ns :: "domain_node list" by (induction ns) auto
    then show ?thesis by (simp add: dom_modify_def ct_update_def)
  qed
  have f1: "dom_find c1 d = Some n"
    using find_or_create_modify(1) [OF assms(3,1), of "\<lambda>n. n"] by (simp add: id n_def)
  have r1: "rev_buckets c1 = rev_buckets c"
    using find_or_create_modify(5) [OF assms(3,1), of "\<lambda>n. n"] by (simp add: id)
  have c': "c' = (dom_modify d ?f c1)\<lparr>rev_buckets := rev_add a d (case dn_alias n of
      None \<Rightarrow> rev_buckets c | Some old \<Rightarrow> rev_remove old d (rev_buckets c))\<rparr>"
    using assms(2,3) f1 r1
    by (auto simp: c'_def mt_cache_add_alias_def Let_def dom_modify_def split: option.splits)
  have look: "dom_find c' = dom_find (dom_modify d ?f c1)" by (simp add: c' dom_find_eq)
  then show "dom_find c' = (dom_find c)(d \<mapsto> n\<lparr>dn_alias := Some a, alias_deadline := now + uint ttl\<rparr>)"
    by (simp add: m n_def)
  show "n_domains c' = card (dom (dom_find c'))" using m(3) by (simp add: look) (simp add: c')
  show "rev_buckets c' = rev_add a d (case dn_alias n of None \<Rightarrow> rev_buckets c
      | Some old \<Rightarrow> rev_remove old d (rev_buckets c))" by (simp add: c')
  show "ct_inv dn_domain DOM_BUCKETS (dom_buckets c')" "n_domains c' \<le> max_domains c'"
    "max_domains c' = max_domains c"
    using m(2,4,6) by (simp_all add: c')
qed

lemma cache_ok_add_alias [inv_intros]:
  assumes "cache_ok c"
  shows "cache_ok (mt_cache_add_alias c d a ttl now)"
proof (cases "d = a \<or> dom_find_or_create c d = None")
  case True
  then have "mt_cache_add_alias c d a ttl now = c \<or>
      mt_cache_add_alias c d a ttl now = c\<lparr>dropped := dropped c + 1\<rparr>"
    by (auto simp: mt_cache_add_alias_def)
  then show ?thesis using assms by (auto simp: cache_ok_def dom_find_eq)
next
  case False
  then obtain c1 where c1: "d \<noteq> a" "dom_find_or_create c d = Some c1" by auto
  note p = add_alias_parts [OF assms c1, of ttl now]
  let ?n = "node_or_new c d" and ?m = "dom_find c"
  let ?E = "edges ?m - {(a', d) |a'. True}"
  have old: "(x, d) \<in> edges ?m \<longleftrightarrow> dn_alias ?n = Some x" for x
    by (auto simp: edges_def node_or_new_def split: option.splits)
  have "rev_rel (case dn_alias ?n of None \<Rightarrow> rev_buckets c | Some o' \<Rightarrow> rev_remove o' d (rev_buckets c)) ?E"
  proof (cases "dn_alias ?n")
    case None
    then have E: "?E = edges ?m" using old by auto
    show ?thesis unfolding E using None assms by (simp add: cache_ok_def)
  next
    case (Some o')
    have "(x, y) \<in> ?E \<longleftrightarrow> (x, y) \<in> edges ?m - {(o', d)}" for x y
      using old [of x] Some by (cases "y = d") auto
    then have E: "?E = edges ?m - {(o', d)}" by (intro set_eqI) (simp only: split_paired_all)
    show ?thesis unfolding E using Some assms by (simp add: cache_ok_def rev_rel_remove)
  qed
  then have "rev_rel (rev_buckets (mt_cache_add_alias c d a ttl now)) (insert (a, d) ?E)"
    unfolding p(2) by (rule rev_rel_add) simp
  moreover have "insert (a, d) ?E = edges (dom_find (mt_cache_add_alias c d a ttl now))"
    by (auto simp: p(1) edges_def)
  moreover have "node_ok (?n\<lparr>dn_alias := Some a, alias_deadline := now + uint ttl\<rparr>)"
    using assms c1(1) by (auto simp: node_ok_def cache_ok_def node_or_new_def dom_find_key split: option.splits)
  ultimately show ?thesis using p(3-5) assms by (auto simp: cache_ok_def p(1) split: if_splits)
qed

section \<open>Cleanup\<close>

definition node_empty :: "domain_node \<Rightarrow> bool" where
  "node_empty n = (addrs n = [] \<and> dn_alias n = None)"

definition clean_opt :: "int \<Rightarrow> domain_node option \<Rightarrow> domain_node option" where
  "clean_opt now no = (case no of None \<Rightarrow> None
     | Some n \<Rightarrow> if node_empty (clean_node now n) then None else Some (clean_node now n))"

fun expired :: "int \<Rightarrow> domain_node list \<Rightarrow> (string \<times> string) list" where
  "expired now [] = []"
| "expired now (n # ns) =
     (case dn_alias n of None \<Rightarrow> [] | Some a \<Rightarrow> if alias_deadline n \<le> now then [(a, dn_domain n)] else [])
     @ expired now ns"

lemma set_expired:
  "(a, d) \<in> set (expired now ns) \<longleftrightarrow>
   (\<exists>n\<in>set ns. dn_domain n = d \<and> dn_alias n = Some a \<and> alias_deadline n \<le> now)"
  by (induction ns) (auto split: option.splits if_splits)

lemma dn_domain_clean [simp]: "dn_domain (clean_node now n) = dn_domain n"
  by (simp add: clean_node_def Let_def)

lemma dn_alias_clean:
  "dn_alias (clean_node now n) = (if alias_deadline n \<le> now then None else dn_alias n)"
  by (auto simp: clean_node_def Let_def)

lemma addrs_clean: "addrs (clean_node now n) = filter (\<lambda>a. deadline a > now) (addrs n)"
  by (simp add: clean_node_def Let_def)

lemma alias_deadline_clean [simp]: "alias_deadline (clean_node now n) = alias_deadline n"
  by (simp add: clean_node_def Let_def)

lemma cleanup_bucket_eq:
  "cleanup_bucket now ns rbs cnt =
    (filter (\<lambda>n. \<not> node_empty n) (map (clean_node now) ns),
     fold (\<lambda>p. rev_remove (fst p) (snd p)) (expired now ns) rbs,
     cnt - length (filter (\<lambda>n. node_empty (clean_node now n)) ns))"
  by (induction ns arbitrary: rbs cnt)
     (auto simp: Let_def node_empty_def split: option.splits if_splits)

lemma rev_rel_fold_remove:
  "rev_rel rbs E \<Longrightarrow> rev_rel (fold (\<lambda>p. rev_remove (fst p) (snd p)) ps rbs) (E - set ps)"
proof (induction ps arbitrary: rbs E)
  case (Cons p ps)
  have "E - {p} - set ps = E - set (p # ps)" by auto
  then show ?case using Cons.IH [OF rev_rel_remove [OF Cons.prems, of "fst p" "snd p"]] by simp
qed simp

lemma node_ok_clean: "node_ok n \<Longrightarrow> \<not> node_empty (clean_node now n) \<Longrightarrow> node_ok (clean_node now n)"
  by (auto simp: node_ok_def node_empty_def dn_alias_clean)
     (auto simp: clean_node_def Let_def distinct_map_filter)

lemma find_clean_bucket:
  assumes "distinct (map dn_domain ns)"
  shows "find (\<lambda>n. dn_domain n = d) (filter (\<lambda>n. \<not> node_empty n) (map (clean_node now) ns)) =
    clean_opt now (find (\<lambda>n. dn_domain n = d) ns)"
  using assms
proof (induction ns)
  case (Cons n ns)
  have "find (\<lambda>n. dn_domain n = d) ns = None" if "dn_domain n = d"
    using that Cons.prems by (auto simp: find_None_iff image_iff)
  with Cons show ?case by (auto simp: clean_opt_def)
qed (simp add: clean_opt_def)

lemma cleanup_step_find:
  assumes "ct_inv dn_domain DOM_BUCKETS (dom_buckets c)"
  shows "dom_find (cleanup_step now b c) d =
    (if bucket_of DOM_BUCKETS d = b then clean_opt now (dom_find c d) else dom_find c d)"
  using assms
  by (auto simp: cleanup_step_def cleanup_bucket_eq dom_find_def ct_find_def ct_inv_def find_clean_bucket)

lemma cleanup_step_edges:
  assumes "ct_inv dn_domain DOM_BUCKETS (dom_buckets c)"
  shows "edges (dom_find (cleanup_step now b c)) =
    edges (dom_find c) - set (expired now (dom_buckets c b))"
proof (intro set_eqI)
  fix p :: "string \<times> string"
  obtain a d where p: "p = (a, d)" by (cases p)
  note step = cleanup_step_find [OF assms, of now b d]
  have iff: "dom_find c d = Some n \<longleftrightarrow> dn_domain n = d \<and> n \<in> set (dom_buckets c (bucket_of DOM_BUCKETS d))"
    for n unfolding dom_find_eq by (rule ct_find_iff [OF assms])
  have ex: "(a, d) \<in> set (expired now (dom_buckets c b)) \<longleftrightarrow>
      bucket_of DOM_BUCKETS d = b \<and> (\<exists>n. dom_find c d = Some n \<and> dn_alias n = Some a \<and> alias_deadline n \<le> now)"
  proof -
    have "n \<in> set (dom_buckets c b) \<Longrightarrow> bucket_of DOM_BUCKETS (dn_domain n) = b" for n
      using assms by (simp add: ct_inv_def)
    then show ?thesis unfolding set_expired iff by auto
  qed
  show "p \<in> edges (dom_find (cleanup_step now b c)) \<longleftrightarrow>
      p \<in> edges (dom_find c) - set (expired now (dom_buckets c b))"
    unfolding p Diff_iff ex
    by (cases "dom_find c d")
       (auto simp: edges_def step clean_opt_def node_empty_def dn_alias_clean)
qed

lemma cleanup_step_ct:
  assumes "ct_inv dn_domain DOM_BUCKETS (dom_buckets c)"
  shows "ct_inv dn_domain DOM_BUCKETS (dom_buckets (cleanup_step now b c))"
proof -
  have "distinct (map dn_domain ns) \<Longrightarrow>
      distinct (map dn_domain (filter (\<lambda>n. \<not> node_empty n) (map (clean_node now) ns)))" for ns
    by (induction ns) auto
  with assms show ?thesis by (auto simp: ct_inv_def cleanup_step_def cleanup_bucket_eq)
qed

lemma cleanup_step_card:
  assumes "ct_inv dn_domain DOM_BUCKETS (dom_buckets c)"
  shows "card (dom (dom_find (cleanup_step now b c))) = card (dom (dom_find c)) -
    length (filter (\<lambda>n. node_empty (clean_node now n)) (dom_buckets c b))"
proof -
  let ?rm = "filter (\<lambda>n. node_empty (clean_node now n)) (dom_buckets c b)"
  have fin: "finite (dom (dom_find c))" using dt.finite_dom [OF assms] by (simp add: dom_find_eq)
  have iff: "dom_find c d = Some n \<longleftrightarrow> dn_domain n = d \<and> n \<in> set (dom_buckets c (bucket_of DOM_BUCKETS d))"
    for d n unfolding dom_find_eq by (rule ct_find_iff [OF assms])
  have bk: "n \<in> set (dom_buckets c b) \<Longrightarrow> bucket_of DOM_BUCKETS (dn_domain n) = b" for n
    using assms by (simp add: ct_inv_def)
  have rm: "d \<in> dn_domain ` set ?rm \<longleftrightarrow>
      bucket_of DOM_BUCKETS d = b \<and> (\<exists>n. dom_find c d = Some n \<and> node_empty (clean_node now n))" for d
    unfolding iff using bk by auto
  have "dom (dom_find (cleanup_step now b c)) = dom (dom_find c) - dn_domain ` set ?rm"
  proof (intro set_eqI)
    fix d
    show "d \<in> dom (dom_find (cleanup_step now b c)) \<longleftrightarrow> d \<in> dom (dom_find c) - dn_domain ` set ?rm"
      unfolding Diff_iff rm
      by (cases "dom_find c d") (auto simp: domIff cleanup_step_find [OF assms] clean_opt_def)
  qed
  moreover have "dn_domain ` set ?rm \<subseteq> dom (dom_find c)" using rm by blast
  moreover have "card (dn_domain ` set ?rm) = length ?rm"
  proof -
    have "distinct (map dn_domain ?rm)" using assms by (simp add: ct_inv_def distinct_map_filter)
    then show ?thesis using distinct_card by fastforce
  qed
  ultimately show ?thesis using fin by (simp add: card_Diff_subset finite_subset)
qed

lemma cache_ok_cleanup_step: "cache_ok c \<Longrightarrow> cache_ok (cleanup_step now b c)"
proof -
  assume ok: "cache_ok c"
  then have ct: "ct_inv dn_domain DOM_BUCKETS (dom_buckets c)" by (simp add: cache_ok_def)
  have f: "rev_buckets (cleanup_step now b c) =
      fold (\<lambda>p. rev_remove (fst p) (snd p)) (expired now (dom_buckets c b)) (rev_buckets c)"
    "n_domains (cleanup_step now b c) =
      n_domains c - length (filter (\<lambda>n. node_empty (clean_node now n)) (dom_buckets c b))"
    "max_domains (cleanup_step now b c) = max_domains c"
    by (simp_all add: cleanup_step_def cleanup_bucket_eq)
  have "node_ok n" if "dom_find (cleanup_step now b c) d = Some n" for d n
    using that ok unfolding cleanup_step_find [OF ct]
    by (auto simp: cache_ok_def clean_opt_def node_ok_clean split: option.splits if_splits)
  then show ?thesis
    using ok rev_rel_fold_remove [of "rev_buckets c" "edges (dom_find c)"]
    unfolding cache_ok_def f cleanup_step_card [OF ct] cleanup_step_edges [OF ct]
    by (auto simp: cleanup_step_ct)
qed

lemma cleanup_fold:
  "cache_ok c \<Longrightarrow> cache_ok (fold (cleanup_step now) [0..<K] c) \<and>
   max_domains (fold (cleanup_step now) [0..<K] c) = max_domains c \<and>
   dom_find (fold (cleanup_step now) [0..<K] c) d =
     (if bucket_of DOM_BUCKETS d < K then clean_opt now (dom_find c d) else dom_find c d)"
proof (induction K)
  case (Suc K)
  let ?c = "fold (cleanup_step now) [0..<K] c"
  have ok: "cache_ok ?c" using Suc by simp
  then have "ct_inv dn_domain DOM_BUCKETS (dom_buckets ?c)" by (simp add: cache_ok_def)
  note step = cleanup_step_find [OF this, of now K d]
  have "max_domains (cleanup_step now K ?c) = max_domains ?c"
    by (simp add: cleanup_step_def cleanup_bucket_eq)
  then show ?case using Suc cache_ok_cleanup_step [OF ok, of now K] step by auto
qed simp

lemma cleanup_find: "cache_ok c \<Longrightarrow> dom_find (mt_cache_cleanup c now) d = clean_opt now (dom_find c d)"
  using cleanup_fold [of c now DOM_BUCKETS d]
  by (simp add: mt_cache_cleanup_def bucket_of_def DOM_BUCKETS_def)

lemma cache_ok_cleanup [inv_intros]: "cache_ok c \<Longrightarrow> cache_ok (mt_cache_cleanup c now)"
  using cleanup_fold [of c now DOM_BUCKETS] by (simp add: mt_cache_cleanup_def)

section \<open>The life of a cache\<close>

inductive cache_step :: "mt_cache \<Rightarrow> mt_cache \<Rightarrow> bool" where
  "cache_step c (mt_cache_add_address c d a ttl now)"
| "cache_step c (mt_cache_add_alias c d al ttl now)"
| "cache_step c (mt_cache_cleanup c now)"

definition cache_init :: "mt_cache \<Rightarrow> bool" where
  "cache_init c = (\<exists>m. c = mt_cache_create m)"

interpretation cache: invariant_system cache_init cache_step cache_ok
  by unfold_locales (auto simp: cache_init_def elim!: cache_step.cases intro: inv_intros)

section \<open>The alias search\<close>

lemma push_new_set [simp]: "set (push_new ps res) = set ps \<union> set res"
  by (induction ps res rule: push_new.induct) auto

lemma push_new_distinct: "distinct res \<Longrightarrow> distinct (push_new ps res)"
  by (induction ps res rule: push_new.induct) auto

lemma push_new_extends: "\<exists>ys. push_new ps res = res @ ys"
proof (induction ps res rule: push_new.induct)
  case (2 p ps res)
  show ?case using "2.IH" by (cases "p \<in> set res") auto
qed simp

text \<open>The loop keeps: no duplicates, the start in front, only reachable names, and everything that
  points at an already expanded name is in the list.\<close>

definition bfs_inv :: "mt_cache \<Rightarrow> string \<Rightarrow> nat \<Rightarrow> string list \<Rightarrow> bool" where
  "bfs_inv c d h q = (distinct q \<and> q \<noteq> [] \<and> hd q = d \<and> h \<le> length q \<and>
     (\<forall>e\<in>set q. (e, d) \<in> {(x, y). x \<in> set (pointing_at c y)}\<^sup>*) \<and>
     (\<forall>y\<in>set (take h q). set (pointing_at c y) \<subseteq> set q))"

lemma bfs_inv_step:
  assumes "bfs_inv c d h q" and "h < length q"
  shows "bfs_inv c d (h + 1) (push_new (pointing_at c (q ! h)) q)"
proof -
  obtain ys where ys: "push_new (pointing_at c (q ! h)) q = q @ ys" using push_new_extends by blast
  have "take (h + 1) (q @ ys) = take h q @ [q ! h]" using assms(2) by (simp add: take_nth_snoc)
  moreover have "(e, d) \<in> {(x, y). x \<in> set (pointing_at c y)}\<^sup>*" if "e \<in> set (pointing_at c (q ! h))" for e
    using that assms by (intro converse_rtrancl_into_rtrancl [of e "q ! h"]) (auto simp: bfs_inv_def)
  ultimately show ?thesis
    using assms push_new_distinct [of q "pointing_at c (q ! h)"] push_new_set [of "pointing_at c (q ! h)" q]
    unfolding bfs_inv_def ys by auto
qed

lemma aliases_loop_inv: "bfs_inv c d h q \<Longrightarrow> \<exists>q'. aliases_loop c h q = q' \<and> bfs_inv c d (length q') q'"
proof (induction c h q rule: aliases_loop.induct)
  case (1 c h q)
  show ?case
  proof (cases "h < length q")
    case True
    with "1.IH" bfs_inv_step [OF "1.prems" True] show ?thesis
      by (simp add: aliases_loop.simps [of c h q])
  next
    case False
    with "1.prems" have "h = length q" by (simp add: bfs_inv_def)
    with "1.prems" show ?thesis by (simp add: aliases_loop.simps [of c "length q" q])
  qed
qed

lemma get_aliases_closure:
  "set (mt_cache_get_aliases c d) = {e. (e, d) \<in> {(x, y). x \<in> set (pointing_at c y)}\<^sup>*} \<and>
   distinct (mt_cache_get_aliases c d) \<and> mt_cache_get_aliases c d \<noteq> [] \<and>
   hd (mt_cache_get_aliases c d) = d"
proof -
  let ?R = "{(x, y). x \<in> set (pointing_at c y)}" and ?q = "mt_cache_get_aliases c d"
  have "bfs_inv c d 0 [d]" by (simp add: bfs_inv_def)
  from aliases_loop_inv [OF this] have inv: "bfs_inv c d (length ?q) ?q"
    by (auto simp: mt_cache_get_aliases_def)
  have "e \<in> set ?q" if "(e, d) \<in> ?R\<^sup>*" for e
    using that
  proof (induction rule: converse_rtrancl_induct)
    case base
    have "?q \<noteq> [] \<and> hd ?q = d" using inv by (simp add: bfs_inv_def)
    then show ?case using hd_in_set [of ?q] by simp
  next
    case (step y z)
    then show ?case using inv by (auto simp: bfs_inv_def)
  qed
  then show ?thesis using inv by (auto simp: bfs_inv_def)
qed

lemma pointing_at_iff:
  assumes "cache_ok c"
  shows "x \<in> set (pointing_at c y) \<longleftrightarrow> (\<exists>n. dom_find c x = Some n \<and> dn_alias n = Some y)"
proof -
  have "x \<in> set (pointing_at c y) \<longleftrightarrow> (y, x) \<in> edges (dom_find c)"
    using assms unfolding pointing_at_def cache_ok_def rev_rel_def
    by (cases "rev_find (rev_buckets c) y") auto
  then show ?thesis by (simp add: edges_def)
qed

section \<open>The forward walk\<close>

definition live_addrs :: "mt_cache \<Rightarrow> int \<Rightarrow> string \<Rightarrow> cache_addr list" where
  "live_addrs c now d = (case dom_find c d of None \<Rightarrow> [] | Some n \<Rightarrow> valid_addrs now n)"

definition alias_hop :: "mt_cache \<Rightarrow> int \<Rightarrow> string \<Rightarrow> string option" where
  "alias_hop c now d = (case dom_find c d of None \<Rightarrow> None
     | Some n \<Rightarrow> if alias_deadline n > now then dn_alias n else None)"

fun hops :: "mt_cache \<Rightarrow> int \<Rightarrow> nat \<Rightarrow> string \<Rightarrow> string option" where
  "hops c now 0 d = Some d"
| "hops c now (Suc k) d = (case alias_hop c now d of None \<Rightarrow> None | Some a \<Rightarrow> hops c now k a)"

text \<open>The walk without the cycle guard, over at most \<open>n\<close> hops.\<close>

fun first_live :: "mt_cache \<Rightarrow> int \<Rightarrow> nat \<Rightarrow> string \<Rightarrow> cache_addr list" where
  "first_live c now 0 d = live_addrs c now d"
| "first_live c now (Suc n) d =
     (if live_addrs c now d \<noteq> [] then live_addrs c now d
      else case alias_hop c now d of None \<Rightarrow> [] | Some a \<Rightarrow> first_live c now n a)"

definition walked :: "mt_cache \<Rightarrow> int \<Rightarrow> string list \<Rightarrow> bool" where
  "walked c now seen = (seen \<noteq> [] \<and>
     (\<forall>e\<in>set (butlast seen). live_addrs c now e = [] \<and> (\<exists>a\<in>set seen. alias_hop c now e = Some a)))"

lemma first_live_cycle:
  assumes "\<And>e. e \<in> S \<Longrightarrow> live_addrs c now e = [] \<and> (\<exists>a\<in>S. alias_hop c now e = Some a)" and "d \<in> S"
  shows "first_live c now n d = []"
  using assms(2)
proof (induction n arbitrary: d)
  case (Suc n)
  then show ?case using assms(1) [of d] by auto
qed (use assms(1) in simp)

lemma loop_unfold:
  "get_addresses_loop c now seen cur =
    (if live_addrs c now cur \<noteq> [] then live_addrs c now cur
     else case alias_hop c now cur of None \<Rightarrow> []
       | Some a \<Rightarrow> if length seen \<ge> 64 \<or> a \<in> set seen then []
                  else get_addresses_loop c now (seen @ [a]) a)"
  by (subst get_addresses_loop.simps)
     (auto simp: live_addrs_def alias_hop_def split: option.splits)

lemma loop_first_live:
  "walked c now seen \<Longrightarrow> last seen = cur \<Longrightarrow> length seen \<le> 64 \<Longrightarrow>
   get_addresses_loop c now seen cur = first_live c now (64 - length seen) cur"
proof (induction "64 - length seen" arbitrary: seen cur)
  case 0
  then show ?case
    by (subst loop_unfold) (auto split: option.splits)
next
  case (Suc n)
  have seen: "seen = butlast seen @ [cur]" using Suc.prems by (auto simp: walked_def)
  then have set_seen: "set seen = insert cur (set (butlast seen))"
    by (metis list.simps(15) rotate1.simps(2) set_rotate1)
  show ?case
  proof (cases "live_addrs c now cur \<noteq> [] \<or> alias_hop c now cur = None")
    case True
    then show ?thesis by (subst loop_unfold) (auto simp flip: Suc.hyps(2))
  next
    case False
    then obtain a where a: "live_addrs c now cur = []" "alias_hop c now cur = Some a" by auto
    show ?thesis
    proof (cases "a \<in> set seen")
      case True
      have "first_live c now n a = []"
        by (rule first_live_cycle [of "set seen"])
           (use Suc.prems(1) a True set_seen in \<open>auto simp: walked_def\<close>)
      then show ?thesis using a True by (subst loop_unfold) (simp flip: Suc.hyps(2))
    next
      case False
      have "walked c now (seen @ [a])" using Suc.prems(1) a set_seen by (auto simp: walked_def)
      then have "get_addresses_loop c now (seen @ [a]) a = first_live c now n a"
      proof -
        have "n = 64 - length (seen @ [a])" "length (seen @ [a]) \<le> 64" using Suc.hyps(2) by auto
        with Suc.hyps(1) [of "seen @ [a]" a] \<open>walked c now (seen @ [a])\<close> show ?thesis by simp
      qed
      moreover have "\<not> 64 \<le> length seen" using Suc.hyps(2) by simp
      ultimately show ?thesis using a False by (subst loop_unfold) (simp flip: Suc.hyps(2))
    qed
  qed
qed

lemma get_addresses_first_live: "mt_cache_get_addresses c d now = first_live c now 63 d"
  using loop_first_live [of c now "[d]" d] by (simp add: mt_cache_get_addresses_def walked_def)

lemma first_live_iff:
  "first_live c now n d = as \<and> as \<noteq> [] \<longleftrightarrow>
   as \<noteq> [] \<and> (\<exists>k\<le>n. \<exists>e. hops c now k d = Some e \<and> live_addrs c now e = as \<and>
     (\<forall>j<k. \<forall>e'. hops c now j d = Some e' \<longrightarrow> live_addrs c now e' = []))"
proof (induction n arbitrary: d)
  case 0
  then show ?case by auto
next
  case (Suc n)
  show ?case
  proof (cases "live_addrs c now d \<noteq> []")
    case True
    have "k = 0" if "\<forall>j<k. \<forall>e'. hops c now j d = Some e' \<longrightarrow> live_addrs c now e' = []" for k
      using True that by (metis bot_nat_0.not_eq_extremum hops.simps(1))
    then have "(\<exists>k\<le>Suc n. \<exists>e. hops c now k d = Some e \<and> live_addrs c now e = as \<and>
        (\<forall>j<k. \<forall>e'. hops c now j d = Some e' \<longrightarrow> live_addrs c now e' = [])) \<longleftrightarrow> live_addrs c now d = as"
      by (metis bot_nat_0.extremum hops.simps(1) not_less_zero option.inject)
    with True show ?thesis by auto
  next
    case False
    then have d: "live_addrs c now d = []" by simp
    let ?P = "\<lambda>n d as. \<exists>k\<le>n. \<exists>e. hops c now k d = Some e \<and> live_addrs c now e = as \<and>
     (\<forall>j<k. \<forall>e'. hops c now j d = Some e' \<longrightarrow> live_addrs c now e' = [])"
    have step: "?P (Suc n) d as \<longleftrightarrow> (\<exists>a. alias_hop c now d = Some a \<and> ?P n a as)" if ne: "as \<noteq> []"
    proof
      assume "?P (Suc n) d as"
      then obtain k e where k: "k \<le> Suc n" "hops c now k d = Some e" "live_addrs c now e = as"
        "\<forall>j<k. \<forall>e'. hops c now j d = Some e' \<longrightarrow> live_addrs c now e' = []" by blast
      then obtain k' where k': "k = Suc k'" using d ne by (cases k) auto
      with k(2) obtain a where a: "alias_hop c now d = Some a" by (auto split: option.splits)
      have "\<forall>j<k'. \<forall>e'. hops c now j a = Some e' \<longrightarrow> live_addrs c now e' = []"
        using k(4) k' a by (metis Suc_mono hops.simps(2) option.simps(5))
      then show "\<exists>a. alias_hop c now d = Some a \<and> ?P n a as" using a k k' by auto
    next
      assume "\<exists>a. alias_hop c now d = Some a \<and> ?P n a as"
      then obtain a k e where a: "alias_hop c now d = Some a" "k \<le> n" "hops c now k a = Some e"
        "live_addrs c now e = as" "\<forall>j<k. \<forall>e'. hops c now j a = Some e' \<longrightarrow> live_addrs c now e' = []"
        by blast
      have "hops c now j d = Some e' \<longrightarrow> live_addrs c now e' = []" if "j < Suc k" for j e'
        using a(1,5) d that by (cases j) auto
      then show "?P (Suc n) d as" using a by (intro exI [of _ "Suc k"]) auto
    qed
    show ?thesis
    proof (cases "as = []")
      case as: False
      show ?thesis unfolding step [OF as]
      proof (cases "alias_hop c now d")
        case (Some a)
        then show "first_live c now (Suc n) d = as \<and> as \<noteq> [] \<longleftrightarrow>
            as \<noteq> [] \<and> (\<exists>a. alias_hop c now d = Some a \<and> ?P n a as)"
          using Suc.IH [of a] d by simp
      qed (use d as in simp)
    qed simp
  qed
qed

lemma known_domains:
  assumes "cache_ok c"
  shows "d \<in> set (mt_cache_list_known_domains c) \<longleftrightarrow> dom_find c d \<noteq> None"
proof -
  have ct: "ct_inv dn_domain DOM_BUCKETS (dom_buckets c)" using assms by (simp add: cache_ok_def)
  have bk: "bucket_of DOM_BUCKETS d < DOM_BUCKETS" for d by (simp add: bucket_of_def DOM_BUCKETS_def)
  have "d \<in> set (mt_cache_list_known_domains c) \<longleftrightarrow>
      (\<exists>b<DOM_BUCKETS. \<exists>n\<in>set (dom_buckets c b). dn_domain n = d)"
    by (auto simp: mt_cache_list_known_domains_def)
  also have "\<dots> \<longleftrightarrow> (\<exists>n\<in>set (dom_buckets c (bucket_of DOM_BUCKETS d)). dn_domain n = d)"
  proof -
    have "n \<in> set (dom_buckets c b) \<Longrightarrow> b = bucket_of DOM_BUCKETS (dn_domain n)" for b n
      using ct by (simp add: ct_inv_def)
    then show ?thesis using bk by blast
  qed
  also have "\<dots> \<longleftrightarrow> (\<exists>n. dom_find c d = Some n)"
    unfolding dom_find_eq ct_find_iff [OF ct] by blast
  finally show ?thesis by auto
qed

section \<open>Properties\<close>

text \<open>
  C9.  The reverse index.  In every reachable cache, asking for the aliases of a name returns that
  name first, without duplicates, followed by exactly the names whose chain of stored aliases leads
  to it (expired or not); the breadth-first search always ends, cycles included.
\<close>

theorem cache_get_aliases_exact:
  assumes "reachable cache_init cache_step c"
  shows "set (mt_cache_get_aliases c d) =
      {e. (e, d) \<in> {(x, y). \<exists>n. dom_find c x = Some n \<and> dn_alias n = Some y}\<^sup>*} \<and>
    distinct (mt_cache_get_aliases c d) \<and> (\<exists>rest. mt_cache_get_aliases c d = d # rest)"
  using get_aliases_closure [of c d] pointing_at_iff [OF cache.reachable_inv [OF assms]]
  by (cases "mt_cache_get_aliases c d") auto

lemma reachable_created: "reachable cache_init cache_step (mt_cache_create m)"
  by (rule reach_init) (auto simp: cache_init_def)

theorem cache_get_aliases_exact_witness:
  "let c = mt_cache_add_alias (mt_cache_create 8) ''a'' ''b'' 60 0 in
   set (mt_cache_get_aliases c ''b'') =
      {e. (e, ''b'') \<in> {(x, y). \<exists>n. dom_find c x = Some n \<and> dn_alias n = Some y}\<^sup>*} \<and>
    distinct (mt_cache_get_aliases c ''b'') \<and> (\<exists>rest. mt_cache_get_aliases c ''b'' = ''b'' # rest)"
  unfolding Let_def
  by (rule cache_get_aliases_exact, rule reach_step [OF reachable_created], rule cache_step.intros)

text \<open>
  The bound and the counter.  In every reachable cache the domain counter is the number of
  known domains, it never exceeds the configured maximum, the list of known domains has no
  duplicates and holds exactly the names with a node, and every node holds an address or an alias,
  no address twice, and never an alias to itself.
\<close>

theorem cache_bounded:
  assumes "reachable cache_init cache_step c"
  shows "mt_cache_domain_count c = length (mt_cache_list_known_domains c) \<and>
    distinct (mt_cache_list_known_domains c) \<and>
    mt_cache_domain_count c \<le> max_domains c \<and>
    set (mt_cache_list_known_domains c) = {d. dom_find c d \<noteq> None} \<and>
    (\<forall>d n. dom_find c d = Some n \<longrightarrow> (addrs n \<noteq> [] \<or> dn_alias n \<noteq> None) \<and>
       distinct (map addr (addrs n)) \<and> dn_alias n \<noteq> Some d)"
proof -
  have ok: "cache_ok c" by (rule cache.reachable_inv [OF assms])
  then have ct: "ct_inv dn_domain DOM_BUCKETS (dom_buckets c)" by (simp add: cache_ok_def)
  note known = known_domains [OF ok]
  have dist: "distinct (mt_cache_list_known_domains c)"
  proof -
    have "distinct (concat (map (\<lambda>b. map dn_domain (dom_buckets c b)) [0..<K]))" for K
    proof (induction K)
      case (Suc K)
      have "dn_domain n \<noteq> dn_domain m" if "b < K" "n \<in> set (dom_buckets c b)" "m \<in> set (dom_buckets c K)" for b n m
        using that ct unfolding ct_inv_def by (metis less_irrefl)
      with Suc ct show ?case by (auto simp: ct_inv_def) metis
    qed simp
    then show ?thesis by (simp add: mt_cache_list_known_domains_def)
  qed
  have "dom (dom_find c) = set (mt_cache_list_known_domains c)" using known by auto
  then have "n_domains c = length (mt_cache_list_known_domains c)"
    using ok distinct_card [OF dist] by (simp add: cache_ok_def)
  then show ?thesis
    using ok dist known dom_find_key unfolding cache_ok_def node_ok_def mt_cache_domain_count_def by auto
qed

theorem cache_bounded_witness:
  "let c = mt_cache_add_address (mt_cache_create 1) ''a'' [10, 0, 0, 1] 60 0 in
   mt_cache_domain_count c = length (mt_cache_list_known_domains c) \<and>
    distinct (mt_cache_list_known_domains c) \<and> mt_cache_domain_count c \<le> max_domains c \<and>
    set (mt_cache_list_known_domains c) = {d. dom_find c d \<noteq> None} \<and>
    (\<forall>d n. dom_find c d = Some n \<longrightarrow> (addrs n \<noteq> [] \<or> dn_alias n \<noteq> None) \<and>
       distinct (map addr (addrs n)) \<and> dn_alias n \<noteq> Some d)"
  unfolding Let_def
  by (rule cache_bounded, rule reach_step [OF reachable_created], rule cache_step.intros)

text \<open>
  C11.  Looking up addresses.  The walk along the unexpired aliases of a name returns the unexpired
  addresses of the first name on the way that has any, among the first 64 names; it returns nothing
  exactly when none of them has.  The cycle guard never hides an address.
\<close>

theorem cache_get_addresses_exact:
  "(mt_cache_get_addresses c d now = as \<and> as \<noteq> [] \<longleftrightarrow>
     as \<noteq> [] \<and> (\<exists>k<64. \<exists>e. hops c now k d = Some e \<and> live_addrs c now e = as \<and>
       (\<nexists>j e'. j < k \<and> hops c now j d = Some e' \<and> live_addrs c now e' \<noteq> [])))"
proof -
  have "k < 64 \<longleftrightarrow> k \<le> 63" for k :: nat by auto
  then show ?thesis unfolding get_addresses_first_live first_live_iff by simp
qed

text \<open>
  C10.  Cleanup.  Cleaning a reachable cache at some time changes no address lookup at that time or
  later; the known names afterwards are those with an unexpired address or alias, and the alias
  search then follows exactly the unexpired aliases.
\<close>

theorem cache_cleanup_correct:
  assumes "reachable cache_init cache_step c" and "now \<le> t"
  shows "mt_cache_get_addresses (mt_cache_cleanup c now) d t = mt_cache_get_addresses c d t \<and>
    (d \<in> set (mt_cache_list_known_domains (mt_cache_cleanup c now)) \<longleftrightarrow>
       live_addrs c now d \<noteq> [] \<or> alias_hop c now d \<noteq> None) \<and>
    set (mt_cache_get_aliases (mt_cache_cleanup c now) d) =
      {e. (e, d) \<in> {(x, y). alias_hop c now x = Some y}\<^sup>*}"
proof (intro conjI)
  let ?c = "mt_cache_cleanup c now"
  have ok: "cache_ok c" "cache_ok ?c" using cache.reachable_inv [OF assms(1)] by (auto intro: inv_intros)
  note find = cleanup_find [OF ok(1), of now]
  have "live_addrs ?c t e = live_addrs c t e" for e
  proof (cases "dom_find c e")
    case (Some n)
    have "filter (\<lambda>a. deadline a > t) (filter (\<lambda>a. deadline a > now) (addrs n)) =
        filter (\<lambda>a. deadline a > t) (addrs n)"
      using assms(2) by (auto intro: filter_cong)
    moreover have "filter (\<lambda>a. deadline a > now) (addrs n) = [] \<Longrightarrow> filter (\<lambda>a. deadline a > t) (addrs n) = []"
      using assms(2) by (auto simp: filter_empty_conv)
    ultimately show ?thesis using Some
      by (simp add: live_addrs_def find clean_opt_def node_empty_def valid_addrs_def addrs_clean)
  qed (simp add: live_addrs_def find clean_opt_def)
  moreover have "alias_hop ?c t e = alias_hop c t e" for e
    using assms(2) by (cases "dom_find c e")
      (auto simp: alias_hop_def find clean_opt_def node_empty_def dn_alias_clean split: if_splits)
  ultimately have "first_live ?c t n e = first_live c t n e" for n e
    by (induction n arbitrary: e) (auto split: option.splits)
  then show "mt_cache_get_addresses ?c d t = mt_cache_get_addresses c d t"
    by (simp add: get_addresses_first_live)
  have stored: "(\<exists>n. dom_find ?c x = Some n \<and> dn_alias n = Some y) \<longleftrightarrow> alias_hop c now x = Some y" for x y
    by (cases "dom_find c x")
       (auto simp: alias_hop_def find clean_opt_def node_empty_def dn_alias_clean)
  show "set (mt_cache_get_aliases ?c d) = {e. (e, d) \<in> {(x, y). alias_hop c now x = Some y}\<^sup>*}"
    using get_aliases_closure [of ?c d] by (simp add: pointing_at_iff [OF ok(2)] stored)
  have "d \<in> set (mt_cache_list_known_domains ?c) \<longleftrightarrow> dom_find ?c d \<noteq> None"
    by (rule known_domains [OF ok(2)])
  also have "\<dots> \<longleftrightarrow> live_addrs c now d \<noteq> [] \<or> alias_hop c now d \<noteq> None"
    by (cases "dom_find c d")
       (auto simp: find clean_opt_def node_empty_def dn_alias_clean live_addrs_def alias_hop_def
         valid_addrs_def addrs_clean)
  finally show "d \<in> set (mt_cache_list_known_domains ?c) \<longleftrightarrow>
       live_addrs c now d \<noteq> [] \<or> alias_hop c now d \<noteq> None" .
qed

theorem cache_cleanup_correct_witness:
  "let c = mt_cache_add_address (mt_cache_create 8) ''a'' [10, 0, 0, 1] 60 0 in
   mt_cache_get_addresses (mt_cache_cleanup c 30) ''a'' 45 = mt_cache_get_addresses c ''a'' 45 \<and>
    (''a'' \<in> set (mt_cache_list_known_domains (mt_cache_cleanup c 30)) \<longleftrightarrow>
       live_addrs c 30 ''a'' \<noteq> [] \<or> alias_hop c 30 ''a'' \<noteq> None) \<and>
    set (mt_cache_get_aliases (mt_cache_cleanup c 30) ''a'') =
      {e. (e, ''a'') \<in> {(x, y). alias_hop c 30 x = Some y}\<^sup>*}"
  unfolding Let_def
  by (rule cache_cleanup_correct, rule reach_step [OF reachable_created], rule cache_step.intros) simp

text \<open>
  Adding an address.  If the name is known or the cache is below its maximum, then until the
  deadline the address is returned for the name, with deadline \<^verbatim>\<open>now + ttl\<close>; every other name keeps
  its node.  A new name at the maximum changes nothing but the counter of dropped names.
\<close>

theorem cache_add_address_lookup:
  assumes "reachable cache_init cache_step c"
  shows "if dom_find c d \<noteq> None \<or> mt_cache_domain_count c < max_domains c
    then (t < now + uint ttl \<longrightarrow> \<lparr>addr = a, deadline = now + uint ttl\<rparr>
            \<in> set (mt_cache_get_addresses (mt_cache_add_address c d a ttl now) d t)) \<and>
         (e \<noteq> d \<longrightarrow> dom_find (mt_cache_add_address c d a ttl now) e = dom_find c e)
    else mt_cache_add_address c d a ttl now = c\<lparr>dropped := dropped c + 1\<rparr>"
proof (cases "dom_find c d \<noteq> None \<or> mt_cache_domain_count c < max_domains c")
  case True
  have ok: "cache_ok c" by (rule cache.reachable_inv [OF assms])
  from True have "dom_find_or_create c d \<noteq> None"
    by (auto simp: dom_find_or_create_def mt_cache_domain_count_def split: option.splits)
  note find = add_address_find [OF ok this, of a ttl now]
  have "\<lparr>addr = a, deadline = dl\<rparr> \<in> set (refresh_addr a dl xs)" for dl xs
    by (induction xs) auto
  then have "t < now + uint ttl \<Longrightarrow> \<lparr>addr = a, deadline = now + uint ttl\<rparr> \<in>
      set (live_addrs (mt_cache_add_address c d a ttl now) t d)"
    by (simp add: live_addrs_def find valid_addrs_def)
  then have "t < now + uint ttl \<Longrightarrow> \<lparr>addr = a, deadline = now + uint ttl\<rparr> \<in>
      set (mt_cache_get_addresses (mt_cache_add_address c d a ttl now) d t)"
    unfolding get_addresses_first_live numeral_eq_Suc pred_numeral_simps first_live.simps by auto
  with True show ?thesis by (simp add: find)
next
  case False
  then show ?thesis
    by (auto simp: mt_cache_add_address_def dom_find_or_create_def mt_cache_domain_count_def)
qed

theorem cache_add_address_lookup_witness:
  "\<lparr>addr = [10, 0, 0, 1], deadline = 60\<rparr>
     \<in> set (mt_cache_get_addresses (mt_cache_add_address (mt_cache_create 8) ''a'' [10, 0, 0, 1] 60 0) ''a'' 59)"
  using cache_add_address_lookup [OF reachable_created, of 8 "''a''" 59 0 60 "[10, 0, 0, 1]" "''b''"]
  by (simp add: mt_cache_domain_count_def mt_cache_create_def)

end
