(* ===== verification/Wire.thy ===== *)
theory Wire
  imports Prelude
begin

text \<open>
  \<^verbatim>\<open>src/dns/wire.c\<close>: parsing DNS messages (with name decompression), packing them without
  compression, stripping AAAA answers, the fake PTR reply and the presentation form of names.

  A reader is the message and an offset.  Every access to the message is made through \<open>byte_at\<close>
  or \<open>bytes_at\<close>, and every write to a local array through \<open>put\<close> with the size of that array;
  an access out of bounds is the result \<open>Fault\<close>.  \<open>Reject\<close> is the C value \<^verbatim>\<open>false\<close>.
\<close>

section \<open>Readers\<close>

datatype 'a rd = Fault | Reject | Got 'a

fun rbind :: "'a rd \<Rightarrow> ('a \<Rightarrow> 'b rd) \<Rightarrow> 'b rd" where
  "rbind Fault f = Fault"
| "rbind Reject f = Reject"
| "rbind (Got x) f = f x"

lemma rbind_cong [fundef_cong]:
  "m = m' \<Longrightarrow> (\<And>x. m' = Got x \<Longrightarrow> f x = g x) \<Longrightarrow> rbind m f = rbind m' g"
  by (cases m') auto

definition byte_at :: "u8 list \<Rightarrow> nat \<Rightarrow> u8 rd" where
  "byte_at buf i = (if i < length buf then Got (buf ! i) else Fault)"

definition bytes_at :: "u8 list \<Rightarrow> nat \<Rightarrow> nat \<Rightarrow> u8 list rd" where
  "bytes_at buf i n = (if i + n \<le> length buf then Got (take n (drop i buf)) else Fault)"

definition put :: "nat \<Rightarrow> u8 list \<Rightarrow> u8 list \<Rightarrow> u8 list rd" where
  "put sz out bs = (if length out + length bs \<le> sz then Got (out @ bs) else Fault)"

definition MT_DNS_MAX_MSG :: nat where "MT_DNS_MAX_MSG = 65535"
definition MT_DNS_MAX_NAME :: nat where "MT_DNS_MAX_NAME = 255"
definition MT_DNS_HEADER_LEN :: nat where "MT_DNS_HEADER_LEN = 12"
definition MAX_POINTER_JUMPS :: nat where "MAX_POINTER_JUMPS = 32"

definition rd_u16 :: "u8 list \<Rightarrow> nat \<Rightarrow> (u16 \<times> nat) rd" where
  "rd_u16 buf pos =
    (if pos + 2 > length buf then Reject
     else rbind (byte_at buf pos) (\<lambda>b0.
          rbind (byte_at buf (pos + 1)) (\<lambda>b1.
          Got (push_bit 8 (ucast b0) OR ucast b1, pos + 2))))"

definition rd_u32 :: "u8 list \<Rightarrow> nat \<Rightarrow> (u32 \<times> nat) rd" where
  "rd_u32 buf pos =
    (if pos + 4 > length buf then Reject
     else rbind (byte_at buf pos) (\<lambda>b0.
          rbind (byte_at buf (pos + 1)) (\<lambda>b1.
          rbind (byte_at buf (pos + 2)) (\<lambda>b2.
          rbind (byte_at buf (pos + 3)) (\<lambda>b3.
          Got (push_bit 24 (ucast b0) OR push_bit 16 (ucast b1) OR push_bit 8 (ucast b2) OR ucast b3,
               pos + 4))))))"

function rd_name_loop ::
  "u8 list \<Rightarrow> nat \<Rightarrow> u8 list \<Rightarrow> nat \<Rightarrow> nat \<Rightarrow> (u8 list \<times> nat) rd" where
  "rd_name_loop buf pos out jumps after =
    (if pos \<ge> length buf then Reject
     else rbind (byte_at buf pos) (\<lambda>len8.
       if len8 AND 0xC0 = 0xC0 then
         if pos + 2 > length buf then Reject
         else if jumps + 1 > MAX_POINTER_JUMPS then Reject
         else rbind (byte_at buf (pos + 1)) (\<lambda>b1.
           let target = unat ((push_bit 8 (ucast (len8 AND 0x3F)) OR ucast b1) :: u16);
               after' = (if after = 0 then pos + 2 else after)
           in if target \<ge> length buf then Reject
              else rd_name_loop buf target out (jumps + 1) after')
       else if len8 AND 0xC0 \<noteq> 0 then Reject
       else if len8 = 0 then
         if length out + 1 > MT_DNS_MAX_NAME then Reject
         else rbind (put (MT_DNS_MAX_NAME + 1) out [0]) (\<lambda>out'.
           Got (out', if after \<noteq> 0 then after else pos + 1))
       else if pos + 1 + unat len8 > length buf then Reject
       else if length out + 1 + unat len8 + 1 > MT_DNS_MAX_NAME + 1 then Reject
       else rbind (bytes_at buf (pos + 1) (unat len8)) (\<lambda>lab.
         rbind (put (MT_DNS_MAX_NAME + 1) out (len8 # lab)) (\<lambda>out'.
           rd_name_loop buf (pos + 1 + unat len8) out' jumps after))))"
  by pat_completeness auto
termination
  by (relation "measures [\<lambda>(buf, pos, out, jumps, after). MAX_POINTER_JUMPS - jumps,
        \<lambda>(buf, pos, out, jumps, after). MT_DNS_MAX_NAME + 1 - length out]")
     (auto simp: put_def split: if_splits)

declare rd_name_loop.simps [simp del]

definition rd_name :: "u8 list \<Rightarrow> nat \<Rightarrow> (u8 list \<times> nat) rd" where
  "rd_name buf pos = rd_name_loop buf pos [] 0 0"

section \<open>Record data\<close>

definition type_has_compressible_rdata :: "u16 \<Rightarrow> bool" where
  "type_has_compressible_rdata t = (t \<in> set [2, 5, 6, 7, 8, 9, 12, 14, 15, 17, 18, 21, 33, 36, 39])"

definition rdata_fixed :: "u16 \<Rightarrow> nat" where
  "rdata_fixed rtype = (if rtype \<in> set [15, 18, 21, 36] then 2 else if rtype = 33 then 6 else 0)"

definition rdata_names :: "u16 \<Rightarrow> nat" where
  "rdata_names rtype = (if rtype = 6 \<or> rtype = 14 \<or> rtype = 17 then 2 else 1)"

definition TMP_SIZE :: nat where "TMP_SIZE = 2 * (MT_DNS_MAX_NAME + 1) + 20"

fun rd_names :: "nat \<Rightarrow> u8 list \<Rightarrow> nat \<Rightarrow> nat \<Rightarrow> u8 list \<Rightarrow> (u8 list \<times> nat) rd" where
  "rd_names 0 buf pos rd_end tmp = Got (tmp, pos)"
| "rd_names (Suc n) buf pos rd_end tmp =
     rbind (rd_name buf pos) (\<lambda>(name, pos').
       if pos' > rd_end then Reject
       else rbind (put TMP_SIZE tmp name) (\<lambda>tmp'. rd_names n buf pos' rd_end tmp'))"

definition rd_trailer :: "u16 \<Rightarrow> u8 list \<Rightarrow> nat \<Rightarrow> nat \<Rightarrow> u8 list \<Rightarrow> (u8 list \<times> nat) rd" where
  "rd_trailer rtype buf pos rd_end tmp =
    (if rtype = 6 then
       if pos + 20 > rd_end then Reject
       else rbind (bytes_at buf pos 20) (\<lambda>bs.
            rbind (put TMP_SIZE tmp bs) (\<lambda>tmp'. Got (tmp', pos + 20)))
     else Got (tmp, pos))"

definition canonicalize_rdata ::
  "u8 list \<Rightarrow> nat \<Rightarrow> nat \<Rightarrow> u16 \<Rightarrow> (u8 list \<times> nat) rd" where
  "canonicalize_rdata buf pos rd_end rtype =
    (let fixed = rdata_fixed rtype in
     if pos + fixed > rd_end then Reject
     else rbind (bytes_at buf pos fixed) (\<lambda>bs.
          rbind (put TMP_SIZE [] bs) (\<lambda>tmp.
          rbind (rd_names (rdata_names rtype) buf (pos + fixed) rd_end tmp) (\<lambda>(tmp', pos').
          rbind (rd_trailer rtype buf pos' rd_end tmp') (\<lambda>(tmp'', pos'').
          if pos'' \<noteq> rd_end then Reject else Got (tmp'', pos''))))))"

section \<open>Messages\<close>

record mt_dns_question =
  q_name :: "u8 list"
  qtype :: u16
  qclass :: u16

record mt_dns_rr =
  rr_name :: "u8 list"
  rtype :: u16
  rclass :: u16
  rr_ttl :: u32
  rdata :: "u8 list"

record mt_dns_msg =
  msg_id :: u16
  msg_flags :: u16
  questions :: "mt_dns_question list"
  answers :: "mt_dns_rr list"
  authority :: "mt_dns_rr list"
  additional :: "mt_dns_rr list"

definition parse_rr :: "u8 list \<Rightarrow> nat \<Rightarrow> (mt_dns_rr \<times> nat) rd" where
  "parse_rr buf pos =
    rbind (rd_name buf pos) (\<lambda>(name, p1).
    rbind (rd_u16 buf p1) (\<lambda>(rt, p2).
    rbind (rd_u16 buf p2) (\<lambda>(rc, p3).
    rbind (rd_u32 buf p3) (\<lambda>(ttl, p4).
    rbind (rd_u16 buf p4) (\<lambda>(rdlength, p5).
    if p5 + unat rdlength > length buf then Reject
    else
      let rd_end = p5 + unat rdlength in
      if type_has_compressible_rdata rt
      then rbind (canonicalize_rdata buf p5 rd_end rt) (\<lambda>(rd, p6).
             Got (\<lparr>rr_name = name, rtype = rt, rclass = rc, rr_ttl = ttl, rdata = rd\<rparr>, p6))
      else rbind (bytes_at buf p5 (unat rdlength)) (\<lambda>rd.
             Got (\<lparr>rr_name = name, rtype = rt, rclass = rc, rr_ttl = ttl, rdata = rd\<rparr>, rd_end)))))))"

fun parse_rr_section :: "nat \<Rightarrow> u8 list \<Rightarrow> nat \<Rightarrow> (mt_dns_rr list \<times> nat) rd" where
  "parse_rr_section 0 buf pos = Got ([], pos)"
| "parse_rr_section (Suc n) buf pos =
     rbind (parse_rr buf pos) (\<lambda>(rr, p).
     rbind (parse_rr_section n buf p) (\<lambda>(rrs, p'). Got (rr # rrs, p')))"

definition parse_question :: "u8 list \<Rightarrow> nat \<Rightarrow> (mt_dns_question \<times> nat) rd" where
  "parse_question buf pos =
    rbind (rd_name buf pos) (\<lambda>(name, p1).
    rbind (rd_u16 buf p1) (\<lambda>(qt, p2).
    rbind (rd_u16 buf p2) (\<lambda>(qc, p3).
    Got (\<lparr>q_name = name, qtype = qt, qclass = qc\<rparr>, p3))))"

fun parse_questions :: "nat \<Rightarrow> u8 list \<Rightarrow> nat \<Rightarrow> (mt_dns_question list \<times> nat) rd" where
  "parse_questions 0 buf pos = Got ([], pos)"
| "parse_questions (Suc n) buf pos =
     rbind (parse_question buf pos) (\<lambda>(q, p).
     rbind (parse_questions n buf p) (\<lambda>(qs, p'). Got (q # qs, p')))"

definition parse_sections ::
  "u8 list \<Rightarrow> u16 \<Rightarrow> u16 \<Rightarrow> u16 \<Rightarrow> u16 \<Rightarrow> u16 \<Rightarrow> u16 \<Rightarrow> nat \<Rightarrow> mt_dns_msg rd" where
  "parse_sections buf i fl qd an ns ar pos =
    rbind (parse_questions (unat qd) buf pos) (\<lambda>(qs, p1).
    rbind (parse_rr_section (unat an) buf p1) (\<lambda>(ans, p2).
    rbind (parse_rr_section (unat ns) buf p2) (\<lambda>(auth, p3).
    rbind (parse_rr_section (unat ar) buf p3) (\<lambda>(add, p4).
    Got \<lparr>msg_id = i, msg_flags = fl, questions = qs, answers = ans, authority = auth,
         additional = add\<rparr>))))"

definition parse_message :: "u8 list \<Rightarrow> mt_dns_msg rd" where
  "parse_message buf =
    (if length buf < MT_DNS_HEADER_LEN \<or> length buf > MT_DNS_MAX_MSG then Reject
     else rbind (rd_u16 buf 0) (\<lambda>(i, p1).
          rbind (rd_u16 buf p1) (\<lambda>(fl, p2).
          rbind (rd_u16 buf p2) (\<lambda>(qd, p3).
          rbind (rd_u16 buf p3) (\<lambda>(an, p4).
          rbind (rd_u16 buf p4) (\<lambda>(ns, p5).
          rbind (rd_u16 buf p5) (\<lambda>(ar, p6).
          if p6 = length buf
          then Got \<lparr>msg_id = i, msg_flags = fl, questions = [], answers = [], authority = [],
                    additional = []\<rparr>
          else parse_sections buf i fl qd an ns ar p6)))))))"

text \<open>The result the caller sees: \<^const>\<open>None\<close> for an access out of bounds.\<close>

definition rd_result :: "'a rd \<Rightarrow> (mt_err + 'a) option" where
  "rd_result r = (case r of Fault \<Rightarrow> None | Reject \<Rightarrow> Some (Inl MT_ERR_PROTO) | Got x \<Rightarrow> Some (Inr x))"

definition mt_dns_msg_parse :: "u8 list \<Rightarrow> (mt_err + mt_dns_msg) option" where
  "mt_dns_msg_parse buf = rd_result (parse_message buf)"

section \<open>Packing\<close>

record writer =
  w_buf :: "u8 list"
  w_cap :: nat

text \<open>\<^verbatim>\<open>while (w->len + n > cap) cap *= 2\<close>; the capacity is at least 512 there, never 0.\<close>

function wr_grow :: "nat \<Rightarrow> nat \<Rightarrow> nat" where
  "wr_grow need c = (if need > c \<and> c > 0 then wr_grow need (c * 2) else c)"
  by pat_completeness auto
termination
  by (relation "measure (\<lambda>(need, c). need - c)") auto

declare wr_grow.simps [simp del]

definition wr_bytes :: "writer \<Rightarrow> u8 list \<Rightarrow> writer option" where
  "wr_bytes w data =
    (let need = length (w_buf w) + length data;
         c = (if need > w_cap w then wr_grow need (if w_cap w = 0 then 512 else w_cap w) else w_cap w)
     in if need \<le> c then Some \<lparr>w_buf = w_buf w @ data, w_cap = c\<rparr> else None)"

definition u16_bytes :: "u16 \<Rightarrow> u8 list" where
  "u16_bytes v = [ucast (drop_bit 8 v), ucast v]"

definition u32_bytes :: "u32 \<Rightarrow> u8 list" where
  "u32_bytes v = [ucast (drop_bit 24 v), ucast (drop_bit 16 v), ucast (drop_bit 8 v), ucast v]"

definition wr_u16 :: "writer \<Rightarrow> u16 \<Rightarrow> writer option" where
  "wr_u16 w v = wr_bytes w (u16_bytes v)"

definition wr_u32 :: "writer \<Rightarrow> u32 \<Rightarrow> writer option" where
  "wr_u32 w v = wr_bytes w (u32_bytes v)"

text \<open>The outcome of a write: the writer, or \<^verbatim>\<open>false\<close>; \<^const>\<open>None\<close> is a write out of bounds.\<close>

definition obind :: "writer option \<Rightarrow> (writer \<Rightarrow> 'a option) \<Rightarrow> 'a option" where
  "obind m f = (case m of None \<Rightarrow> None | Some w \<Rightarrow> f w)"

definition wr_rr :: "writer \<Rightarrow> mt_dns_rr \<Rightarrow> (bool \<times> writer) option" where
  "wr_rr w rr =
    obind (wr_bytes w (rr_name rr)) (\<lambda>w1.
    obind (wr_u16 w1 (rtype rr)) (\<lambda>w2.
    obind (wr_u16 w2 (rclass rr)) (\<lambda>w3.
    obind (wr_u32 w3 (rr_ttl rr)) (\<lambda>w4.
    if length (rdata rr) > 65535 then Some (False, w4)
    else obind (wr_u16 w4 (of_nat (length (rdata rr)))) (\<lambda>w5.
         obind (wr_bytes w5 (rdata rr)) (\<lambda>w6. Some (True, w6)))))))"

fun wr_rrs :: "mt_dns_rr list \<Rightarrow> bool \<times> writer \<Rightarrow> (bool \<times> writer) option" where
  "wr_rrs [] (ok, w) = Some (ok, w)"
| "wr_rrs (rr # rrs) (ok, w) =
     (if ok then (case wr_rr w rr of None \<Rightarrow> None | Some r \<Rightarrow> wr_rrs rrs r) else Some (False, w))"

definition wr_question :: "writer \<Rightarrow> mt_dns_question \<Rightarrow> writer option" where
  "wr_question w q =
    obind (wr_bytes w (q_name q)) (\<lambda>w1.
    obind (wr_u16 w1 (qtype q)) (\<lambda>w2. wr_u16 w2 (qclass q)))"

fun wr_questions :: "mt_dns_question list \<Rightarrow> writer \<Rightarrow> writer option" where
  "wr_questions [] w = Some w"
| "wr_questions (q # qs) w = obind (wr_question w q) (wr_questions qs)"

definition wr_header :: "u16 \<Rightarrow> u16 \<Rightarrow> u16 \<Rightarrow> u16 \<Rightarrow> u16 \<Rightarrow> u16 \<Rightarrow> writer option" where
  "wr_header i fl qd an ns ar =
    obind (wr_u16 \<lparr>w_buf = [], w_cap = 0\<rparr> i) (\<lambda>w1.
    obind (wr_u16 w1 fl) (\<lambda>w2.
    obind (wr_u16 w2 qd) (\<lambda>w3.
    obind (wr_u16 w3 an) (\<lambda>w4.
    obind (wr_u16 w4 ns) (\<lambda>w5. wr_u16 w5 ar)))))"

definition mt_dns_msg_pack :: "mt_dns_msg \<Rightarrow> (mt_err + u8 list) option" where
  "mt_dns_msg_pack m =
    obind (wr_header (msg_id m) (msg_flags m) (of_nat (length (questions m)))
        (of_nat (length (answers m))) (of_nat (length (authority m)))
        (of_nat (length (additional m)))) (\<lambda>w.
    obind (wr_questions (questions m) w) (\<lambda>w1.
    case wr_rrs (answers m) (True, w1) of None \<Rightarrow> None | Some r1 \<Rightarrow>
    (case wr_rrs (authority m) r1 of None \<Rightarrow> None | Some r2 \<Rightarrow>
    (case wr_rrs (additional m) r2 of None \<Rightarrow> None | Some (ok, w2) \<Rightarrow>
      if \<not> ok then Some (Inl MT_ERR_NOMEM)
      else if length (w_buf w2) > MT_DNS_MAX_MSG then Some (Inl MT_ERR_LIMIT)
      else Some (Inr (w_buf w2))))))"

section \<open>Hooks\<close>

fun strip_loop :: "mt_dns_rr list \<Rightarrow> nat \<Rightarrow> nat \<Rightarrow> nat \<Rightarrow> mt_dns_rr list \<times> nat" where
  "strip_loop rrs i 0 kept = (rrs, kept)"
| "strip_loop rrs i (Suc n) kept =
     (if rtype (rrs ! i) = 28 then strip_loop rrs (i + 1) n kept
      else strip_loop (if kept \<noteq> i then rrs[kept := rrs ! i] else rrs) (i + 1) n (kept + 1))"

definition mt_dns_msg_strip_aaaa :: "mt_dns_msg \<Rightarrow> mt_dns_msg" where
  "mt_dns_msg_strip_aaaa m =
    (case strip_loop (answers m) 0 (length (answers m)) 0 of
       (rrs, kept) \<Rightarrow> m\<lparr>answers := take kept rrs\<rparr>)"

definition raw_u16 :: "u8 list \<Rightarrow> nat \<Rightarrow> u16 rd" where
  "raw_u16 buf i = rbind (byte_at buf i) (\<lambda>a. rbind (byte_at buf (i + 1)) (\<lambda>b.
     Got (push_bit 8 (ucast a) OR ucast b)))"

definition mt_dns_is_single_ptr_query :: "u8 list \<Rightarrow> bool rd" where
  "mt_dns_is_single_ptr_query buf =
    (if length buf < MT_DNS_HEADER_LEN then Got False
     else rbind (raw_u16 buf 4) (\<lambda>qd.
       if qd \<noteq> 1 then Got False
       else case rd_name buf MT_DNS_HEADER_LEN of
         Fault \<Rightarrow> Fault
       | Reject \<Rightarrow> Got False
       | Got (_, p) \<Rightarrow>
           (case rd_u16 buf p of Fault \<Rightarrow> Fault | Reject \<Rightarrow> Got False | Got (qt, _) \<Rightarrow> Got (qt = 12))))"

text \<open>The second pass of the reply reads the same questions again and echoes them.\<close>

fun echo_questions :: "nat \<Rightarrow> u8 list \<Rightarrow> nat \<Rightarrow> writer \<Rightarrow> writer rd" where
  "echo_questions 0 buf pos w = Got w"
| "echo_questions (Suc n) buf pos w =
     rbind (parse_question buf pos) (\<lambda>(q, p).
       case wr_question w q of None \<Rightarrow> Fault | Some w' \<Rightarrow> echo_questions n buf p w')"

definition mt_dns_make_fake_ptr_response :: "u8 list \<Rightarrow> (mt_err + u8 list) option" where
  "mt_dns_make_fake_ptr_response req =
    (if length req < MT_DNS_HEADER_LEN then Some (Inl MT_ERR_PROTO)
     else case raw_u16 req 4 of Fault \<Rightarrow> None | Reject \<Rightarrow> None | Got qd \<Rightarrow>
      (case parse_questions (unat qd) req MT_DNS_HEADER_LEN of
         Fault \<Rightarrow> None
       | Reject \<Rightarrow> Some (Inl MT_ERR_PROTO)
       | Got _ \<Rightarrow>
          (case raw_u16 req 0 of Fault \<Rightarrow> None | Reject \<Rightarrow> None | Got i \<Rightarrow>
           (case wr_header i (0x8000 OR 0x0080 OR 3) qd 0 0 0 of None \<Rightarrow> None | Some w \<Rightarrow>
            (case echo_questions (unat qd) req MT_DNS_HEADER_LEN w of
               Fault \<Rightarrow> None
             | Reject \<Rightarrow> Some (Inl MT_ERR_NOMEM)
             | Got w' \<Rightarrow> Some (Inr (w_buf w')))))))"

section \<open>Presentation form of names\<close>

definition dec_digit :: "int \<Rightarrow> char" where
  "dec_digit n = char_of (48 + n)"

definition esc3 :: "u8 \<Rightarrow> string" where
  "esc3 b = (let n = uint b in [CHR 0x5C, dec_digit (n div 100), dec_digit (n div 10 mod 10), dec_digit (n mod 10)])"

definition escape_byte :: "u8 \<Rightarrow> string" where
  "escape_byte b =
    (if b \<in> set [46, 40, 41, 59, 32, 64, 34, 92] then [CHR 0x5C, char_of (uint b)]
     else if b < 32 \<or> b \<ge> 127 then esc3 b
     else [char_of (uint b)])"

fun putc :: "nat \<Rightarrow> string \<Rightarrow> string \<Rightarrow> mt_err + string" where
  "putc buf_len [] out = Inr out"
| "putc buf_len (c # cs) out =
     (if length out + 1 \<ge> buf_len then Inl MT_ERR_LIMIT else putc buf_len cs (out @ [c]))"

function name_str_loop ::
  "u8 list \<Rightarrow> nat \<Rightarrow> nat \<Rightarrow> bool \<Rightarrow> string \<Rightarrow> mt_err + (bool \<times> string)" where
  "name_str_loop name buf_len pos any_label out =
    (if pos < length name then
       let len8 = name ! pos in
       if len8 = 0 then Inr (any_label, out)
       else if pos + 1 + unat len8 > length name then Inl MT_ERR_PROTO
       else (case putc buf_len (concat (map escape_byte (take (unat len8) (drop (pos + 1) name)))) out of
           Inl e \<Rightarrow> Inl e
         | Inr out1 \<Rightarrow> (case putc buf_len ''.'' out1 of
             Inl e \<Rightarrow> Inl e
           | Inr out2 \<Rightarrow> name_str_loop name buf_len (pos + 1 + unat len8) True out2))
     else Inr (any_label, out))"
  by pat_completeness auto
termination
  by (relation "measure (\<lambda>(name, bl, pos, a, out). length name - pos)") auto

declare name_str_loop.simps [simp del]

definition mt_dns_name_to_string :: "u8 list \<Rightarrow> nat \<Rightarrow> mt_err + string" where
  "mt_dns_name_to_string name buf_len =
    (case name_str_loop name buf_len 0 False [] of
       Inl e \<Rightarrow> Inl e
     | Inr (any_label, out) \<Rightarrow> if \<not> any_label then putc buf_len ''.'' out else Inr out)"

section \<open>Well-formed names\<close>

definition label_ok :: "u8 list \<Rightarrow> bool" where
  "label_ok l = (0 < length l \<and> length l \<le> 63)"

definition enc_label :: "u8 list \<Rightarrow> u8 list" where
  "enc_label l = word_of_nat (length l) # l"

definition enc_labels :: "u8 list list \<Rightarrow> u8 list" where
  "enc_labels ls = concat (map enc_label ls)"

definition name_ok :: "u8 list \<Rightarrow> bool" where
  "name_ok n = (\<exists>ls. list_all label_ok ls \<and> n = enc_labels ls @ [0] \<and> length n \<le> 255)"

lemma enc_labels_simps [simp]:
  "enc_labels [] = []" "enc_labels (l # ls) = enc_label l @ enc_labels ls"
  "enc_labels (ls @ ls') = enc_labels ls @ enc_labels ls'"
  by (simp_all add: enc_labels_def)

lemma length_octet_all: "\<not> (b AND 0xC0 = 0) \<or> uint b \<le> 63" for b :: u8
  by (induction b rule: all_u8) code_simp

lemma small_octet_all: "\<not> (uint b \<le> 63) \<or> b AND 0xC0 = 0" for b :: u8
  by (induction b rule: all_u8) code_simp

lemma length_octet: "b AND 0xC0 = 0 \<Longrightarrow> unat b \<le> 63" for b :: u8
proof -
  assume "b AND 0xC0 = 0"
  then have "uint b \<le> 63" using length_octet_all by blast
  moreover have "int (unat b) = uint b" by simp
  ultimately show "unat b \<le> 63" by linarith
qed

lemma label_octet:
  assumes "label_ok l"
  shows "word_of_nat (length l) AND 0xC0 = (0 :: u8)" and "unat (word_of_nat (length l) :: u8) = length l"
    and "word_of_nat (length l) \<noteq> (0 :: u8)"
proof -
  show u: "unat (word_of_nat (length l) :: u8) = length l"
    using assms by (simp add: label_ok_def unat_of_nat)
  then have "uint (word_of_nat (length l) :: u8) \<le> 63"
    using assms by (simp add: label_ok_def uint_nat)
  then show "word_of_nat (length l) AND 0xC0 = (0 :: u8)" using small_octet_all by blast
  show "word_of_nat (length l) \<noteq> (0 :: u8)" using u assms by (auto simp: label_ok_def)
qed

section \<open>No access out of bounds\<close>

definition rd_ok :: "('a \<Rightarrow> bool) \<Rightarrow> 'a rd \<Rightarrow> bool" where
  "rd_ok P r = (case r of Fault \<Rightarrow> False | Reject \<Rightarrow> True | Got x \<Rightarrow> P x)"

lemma rd_ok_simps [simp]: "\<not> rd_ok P Fault" "rd_ok P Reject" "rd_ok P (Got x) = P x"
  by (simp_all add: rd_ok_def)

lemma rd_ok_bind: "rd_ok Q m \<Longrightarrow> (\<And>x. Q x \<Longrightarrow> rd_ok P (f x)) \<Longrightarrow> rd_ok P (rbind m f)"
  by (cases m) auto

lemma rd_ok_u16: "rd_ok (\<lambda>(v, p). p \<le> length buf) (rd_u16 buf pos)"
  by (auto simp: rd_u16_def byte_at_def)

lemma rd_ok_u32: "rd_ok (\<lambda>(v, p). p \<le> length buf) (rd_u32 buf pos)"
  by (auto simp: rd_u32_def byte_at_def)

lemma rd_name_loop_ok:
  "list_all label_ok ls \<Longrightarrow> length (enc_labels ls) \<le> 255 \<Longrightarrow> after \<le> length buf \<Longrightarrow>
   rd_ok (\<lambda>(n, p). name_ok n \<and> p \<le> length buf) (rd_name_loop buf pos (enc_labels ls) jumps after)"
proof (induction "(MAX_POINTER_JUMPS - jumps, 256 - length (enc_labels ls))"
    arbitrary: pos ls jumps after rule: wf_induct_rule [OF wf_lex_prod [OF wf_less_than wf_less_than]])
  case 1
  show ?case
  proof (cases "pos < length buf")
    case True
    define b where "b = buf ! pos"
    let ?out = "enc_labels ls"
    consider (ptr) "b AND 0xC0 = 0xC0" | (bad) "b AND 0xC0 \<noteq> 0xC0" "b AND 0xC0 \<noteq> 0"
      | (root) "b = 0" | (lab) "b AND 0xC0 = 0" "b \<noteq> 0" by fastforce
    then show ?thesis
    proof cases
      case ptr
      have "rd_ok (\<lambda>(n, p). name_ok n \<and> p \<le> length buf)
          (rd_name_loop buf t ?out (jumps + 1) (if after = 0 then pos + 2 else after))"
        if "jumps + 1 \<le> MAX_POINTER_JUMPS" "pos + 2 \<le> length buf" for t
        by (rule "1.hyps") (use that "1.prems" in auto)
      with True ptr show ?thesis
        by (simp add: rd_name_loop.simps [of buf pos] byte_at_def b_def Let_def)
    next
      case bad
      with True show ?thesis by (simp add: rd_name_loop.simps [of buf pos] byte_at_def b_def)
    next
      case root
      then show ?thesis using True "1.prems"
        by (auto simp: rd_name_loop.simps [of buf pos] byte_at_def b_def put_def MT_DNS_MAX_NAME_def name_ok_def)
    next
      case lab
      let ?l = "take (unat b) (drop (pos + 1) buf)"
      have "rd_ok (\<lambda>(n, p). name_ok n \<and> p \<le> length buf)
          (rd_name_loop buf (pos + 1 + unat b) (?out @ b # ?l) jumps after)"
        if fit: "pos + 1 + unat b \<le> length buf" "length ?out + unat b + 1 \<le> 255"
      proof -
        have len: "length ?l = unat b" using fit by simp
        have l: "label_ok ?l"
          using lab fit length_octet [of b] by (simp add: label_ok_def unat_gt_0)
        have enc: "?out @ b # ?l = enc_labels (ls @ [?l])"
          unfolding enc_labels_simps enc_label_def len by simp
        show ?thesis unfolding enc
          by (rule "1.hyps") (use "1.prems" l fit in \<open>auto simp: enc_label_def len\<close>)
      qed
      with True lab show ?thesis
        by (auto simp: rd_name_loop.simps [of buf pos] byte_at_def bytes_at_def put_def b_def
            MT_DNS_MAX_NAME_def)
    qed
  qed (simp add: rd_name_loop.simps [of buf pos])
qed

lemma rd_name_ok: "rd_ok (\<lambda>(n, p). name_ok n \<and> p \<le> length buf) (rd_name buf pos)"
  using rd_name_loop_ok [of "[]" 0 buf pos 0] by (simp add: rd_name_def)

definition rdata_ok :: "u16 \<Rightarrow> u8 list \<Rightarrow> bool" where
  "rdata_ok rt rd =
    (if type_has_compressible_rdata rt
     then \<exists>fx names tr. length fx = rdata_fixed rt \<and> length names = rdata_names rt \<and>
       list_all name_ok names \<and> length tr = (if rt = 6 then 20 else 0) \<and> rd = fx @ concat names @ tr
     else length rd \<le> 65535)"

definition rr_ok :: "mt_dns_rr \<Rightarrow> bool" where
  "rr_ok rr = (name_ok (rr_name rr) \<and> rdata_ok (rtype rr) (rdata rr))"

definition msg_ok :: "mt_dns_msg \<Rightarrow> bool" where
  "msg_ok m = (list_all (\<lambda>q. name_ok (q_name q)) (questions m) \<and>
     list_all rr_ok (answers m @ authority m @ additional m) \<and>
     length (questions m) \<le> 65535 \<and> length (answers m) \<le> 65535 \<and>
     length (authority m) \<le> 65535 \<and> length (additional m) \<le> 65535)"

lemma rdata_okI:
  "type_has_compressible_rdata rt \<Longrightarrow> length fx = rdata_fixed rt \<Longrightarrow> length ns = rdata_names rt \<Longrightarrow>
   list_all name_ok ns \<Longrightarrow> length tr = (if rt = 6 then 20 else 0) \<Longrightarrow> rdata_ok rt (fx @ concat ns @ tr)"
  unfolding rdata_ok_def by (simp only: if_True) blast

lemma name_ok_length: "name_ok n \<Longrightarrow> length n \<le> 255"
  by (auto simp: name_ok_def)

lemma concat_names_length: "list_all name_ok ns \<Longrightarrow> length (concat ns) \<le> 255 * length ns"
  by (induction ns) (auto dest: name_ok_length)

lemma rdata_names_le: "rdata_names rt \<le> 2" and rdata_fixed_le: "rdata_fixed rt \<le> 6"
  by (simp_all add: rdata_names_def rdata_fixed_def)

lemma rd_names_ok:
  "list_all name_ok ns \<Longrightarrow> length fx + 255 * (length ns + n) \<le> TMP_SIZE \<Longrightarrow>
   rd_ok (\<lambda>(t, p). \<exists>ns'. list_all name_ok ns' \<and> length ns' = length ns + n \<and> t = fx @ concat ns')
     (rd_names n buf pos rd_end (fx @ concat ns))"
proof (induction n arbitrary: pos ns)
  case 0
  then show ?case by auto
next
  case (Suc n)
  show ?case unfolding rd_names.simps
  proof (rule rd_ok_bind [OF rd_name_ok], clarify)
    fix name p
    assume name: "name_ok name"
    have "length (fx @ concat ns) + length name \<le> TMP_SIZE"
      using concat_names_length [OF Suc.prems(1)] name_ok_length [OF name] Suc.prems(2) by simp
    moreover have "rd_ok (\<lambda>(t, p). \<exists>ns'. list_all name_ok ns' \<and> length ns' = length ns + Suc n \<and> t = fx @ concat ns')
        (rd_names n buf p rd_end (fx @ concat (ns @ [name])))"
      using Suc.IH [of "ns @ [name]" p] Suc.prems name by simp
    ultimately show "rd_ok (\<lambda>(t, p). \<exists>ns'. list_all name_ok ns' \<and> length ns' = length ns + Suc n \<and> t = fx @ concat ns')
        (if rd_end < p then Reject else rbind (put TMP_SIZE (fx @ concat ns) name)
          (\<lambda>tmp'. rd_names n buf p rd_end tmp'))"
      by (simp add: put_def)
  qed
qed

lemma canonicalize_ok:
  assumes "rd_end \<le> length buf" and "type_has_compressible_rdata rt"
  shows "rd_ok (\<lambda>(rd, p). rdata_ok rt rd \<and> p = rd_end) (canonicalize_rdata buf pos rd_end rt)"
proof (cases "pos + rdata_fixed rt \<le> rd_end")
  case True
  define fx where "fx = take (rdata_fixed rt) (drop pos buf)"
  have fx: "length fx = rdata_fixed rt" "bytes_at buf pos (rdata_fixed rt) = Got fx" "put TMP_SIZE [] fx = Got fx"
    using True assms(1) rdata_fixed_le [of rt]
    by (simp_all add: fx_def bytes_at_def put_def TMP_SIZE_def MT_DNS_MAX_NAME_def)
  have bound: "length fx + 255 * (length [] + rdata_names rt) \<le> TMP_SIZE"
    using fx rdata_names_le [of rt] rdata_fixed_le [of rt] by (simp add: TMP_SIZE_def MT_DNS_MAX_NAME_def)
  have "rd_ok (\<lambda>(rd, p). rdata_ok rt rd \<and> p = rd_end)
      (rbind (rd_names (rdata_names rt) buf (pos + rdata_fixed rt) rd_end (fx @ concat []))
        (\<lambda>(t, p). rbind (rd_trailer rt buf p rd_end t)
          (\<lambda>(t', p'). if p' \<noteq> rd_end then Reject else Got (t', p'))))"
  proof (rule rd_ok_bind [OF rd_names_ok [OF _ bound]], simp, clarify)
    fix p ns
    assume ns: "list_all name_ok ns" "length ns = length [] + rdata_names rt"
    have len: "length (fx @ concat ns) + (if rt = 6 then 20 else 0) \<le> TMP_SIZE"
      using concat_names_length [OF ns(1)] ns(2) fx(1)
      by (auto simp: TMP_SIZE_def MT_DNS_MAX_NAME_def rdata_names_def rdata_fixed_def split: if_splits)
    have "rd_ok (\<lambda>(t, p'). \<exists>tr. t = fx @ concat ns @ tr \<and> length tr = (if rt = 6 then 20 else 0))
        (rd_trailer rt buf p rd_end (fx @ concat ns))"
      using len assms(1) by (auto simp: rd_trailer_def bytes_at_def put_def)
    then show "rd_ok (\<lambda>(rd, p). rdata_ok rt rd \<and> p = rd_end) (rbind (rd_trailer rt buf p rd_end (fx @ concat ns))
          (\<lambda>(t', p'). if p' \<noteq> rd_end then Reject else Got (t', p')))"
      using rdata_okI [OF assms(2) fx(1) _ ns(1)] ns(2) by (auto elim!: rd_ok_bind)
  qed
  with True fx show ?thesis by (simp add: canonicalize_rdata_def Let_def)
qed (simp add: canonicalize_rdata_def Let_def)

lemma parse_rr_ok: "rd_ok (\<lambda>(rr, p). rr_ok rr \<and> p \<le> length buf) (parse_rr buf pos)"
proof -
  have tail: "rd_ok (\<lambda>(rr, p). rr_ok rr \<and> p \<le> length buf)
      (if p5 + unat rdlength > length buf then Reject
       else let rd_end = p5 + unat rdlength in
        if type_has_compressible_rdata rt
        then rbind (canonicalize_rdata buf p5 rd_end rt) (\<lambda>(rd, p6).
               Got (\<lparr>rr_name = name, rtype = rt, rclass = rc, rr_ttl = ttl, rdata = rd\<rparr>, p6))
        else rbind (bytes_at buf p5 (unat rdlength)) (\<lambda>rd.
               Got (\<lparr>rr_name = name, rtype = rt, rclass = rc, rr_ttl = ttl, rdata = rd\<rparr>, rd_end)))"
    if "name_ok name" for name rt rc ttl and rdlength :: u16 and p5
  proof (cases "p5 + unat rdlength \<le> length buf")
    case True
    have "unat rdlength \<le> 65535" using unsigned_less [of rdlength, where 'a = nat] by simp
    then have plain: "rdata_ok rt (take (unat rdlength) (drop p5 buf))"
      if "\<not> type_has_compressible_rdata rt"
      using that by (simp add: rdata_ok_def)
    show ?thesis
    proof (cases "type_has_compressible_rdata rt")
      case comp: True
      show ?thesis using True that comp canonicalize_ok [of "p5 + unat rdlength" buf rt p5]
        by (auto simp: Let_def rr_ok_def elim!: rd_ok_bind)
    next
      case False
      then show ?thesis using True that plain by (simp add: Let_def rr_ok_def bytes_at_def)
    qed
  qed simp
  show ?thesis unfolding parse_rr_def
    by (rule rd_ok_bind [OF rd_name_ok], clarify, (rule rd_ok_bind [OF rd_ok_u16], clarify)+,
        rule rd_ok_bind [OF rd_ok_u32], clarify, rule rd_ok_bind [OF rd_ok_u16], clarify, rule tail)
qed

lemma parse_rr_section_ok:
  "rd_ok (\<lambda>(rrs, p). list_all rr_ok rrs \<and> length rrs = n) (parse_rr_section n buf pos)"
proof (induction n arbitrary: pos)
  case (Suc n)
  show ?case unfolding parse_rr_section.simps
    by (rule rd_ok_bind [OF parse_rr_ok], clarify, rule rd_ok_bind [OF Suc.IH]) auto
qed simp

lemma parse_question_ok: "rd_ok (\<lambda>(q, p). name_ok (q_name q) \<and> p \<le> length buf) (parse_question buf pos)"
  unfolding parse_question_def
  by (rule rd_ok_bind [OF rd_name_ok], clarify, (rule rd_ok_bind [OF rd_ok_u16], clarify)+) simp

lemma parse_questions_ok:
  "rd_ok (\<lambda>(qs, p). list_all (\<lambda>q. name_ok (q_name q)) qs \<and> length qs = n) (parse_questions n buf pos)"
proof (induction n arbitrary: pos)
  case (Suc n)
  show ?case unfolding parse_questions.simps
    by (rule rd_ok_bind [OF parse_question_ok], clarify, rule rd_ok_bind [OF Suc.IH]) auto
qed simp

lemma u16_le: "unat (v :: u16) \<le> 65535"
  using unsigned_less [of v, where 'a = nat] by simp

lemma parse_sections_ok: "rd_ok msg_ok (parse_sections buf i fl qd an ns ar pos)"
  unfolding parse_sections_def
  by (rule rd_ok_bind [OF parse_questions_ok], clarify, (rule rd_ok_bind [OF parse_rr_section_ok], clarify)+)
     (simp add: msg_ok_def u16_le)

lemma parse_message_ok: "rd_ok msg_ok (parse_message buf)"
proof (cases "length buf < MT_DNS_HEADER_LEN \<or> length buf > MT_DNS_MAX_MSG")
  case False
  show ?thesis unfolding parse_message_def if_not_P [OF False]
    by ((rule rd_ok_bind [OF rd_ok_u16], clarify)+) (simp add: parse_sections_ok, simp add: msg_ok_def)
qed (simp add: parse_message_def)

section \<open>What packing writes\<close>

lemma wr_grow_ge: "c > 0 \<Longrightarrow> need \<le> wr_grow need c"
proof (induction need c rule: wr_grow.induct)
  case (1 need c)
  show ?case
  proof (cases "need > c")
    case True
    with "1.IH" "1.prems" show ?thesis by (simp add: wr_grow.simps [of need c])
  next
    case False
    then show ?thesis by (simp add: wr_grow.simps [of need c])
  qed
qed

text \<open>A writing step that always succeeds and appends the given bytes.\<close>

definition emits :: "(writer \<Rightarrow> writer option) \<Rightarrow> u8 list \<Rightarrow> bool" where
  "emits f bs = (\<forall>w. \<exists>c. f w = Some \<lparr>w_buf = w_buf w @ bs, w_cap = c\<rparr>)"

lemma emitsE:
  assumes "emits f bs"
  obtains c where "f w = Some \<lparr>w_buf = w_buf w @ bs, w_cap = c\<rparr>"
  using assms by (auto simp: emits_def)

lemma emits_bytes: "emits (\<lambda>w. wr_bytes w d) d"
  unfolding emits_def
proof
  fix w :: writer
  have "length (w_buf w) + length d \<le> wr_grow (length (w_buf w) + length d) (if w_cap w = 0 then 512 else w_cap w)"
    by (rule wr_grow_ge) simp
  then show "\<exists>c. wr_bytes w d = Some \<lparr>w_buf = w_buf w @ d, w_cap = c\<rparr>"
    by (auto simp: wr_bytes_def Let_def)
qed

lemma emits_obind: "emits f a \<Longrightarrow> emits g b \<Longrightarrow> emits (\<lambda>w. obind (f w) g) (a @ b)"
proof -
  assume f: "emits f a" and g: "emits g b"
  have "\<exists>c. obind (f w) g = Some \<lparr>w_buf = w_buf w @ a @ b, w_cap = c\<rparr>" for w
  proof -
    from f obtain c where c: "f w = Some \<lparr>w_buf = w_buf w @ a, w_cap = c\<rparr>" by (rule emitsE)
    from g obtain c' where "g \<lparr>w_buf = w_buf w @ a, w_cap = c\<rparr> =
        Some \<lparr>w_buf = w_buf \<lparr>w_buf = w_buf w @ a, w_cap = c\<rparr> @ b, w_cap = c'\<rparr>" by (rule emitsE)
    with c show ?thesis by (simp add: obind_def)
  qed
  then show ?thesis by (simp add: emits_def)
qed

lemma emits_nil: "emits Some []"
  unfolding emits_def
proof
  show "\<exists>c. Some w = Some \<lparr>w_buf = w_buf w @ [], w_cap = c\<rparr>" for w by (cases w) simp
qed

lemmas emits_word = emits_bytes [of "u16_bytes v" for v, folded wr_u16_def]
  emits_bytes [of "u32_bytes v" for v, folded wr_u32_def]

definition ser_question :: "mt_dns_question \<Rightarrow> u8 list" where
  "ser_question q = q_name q @ u16_bytes (qtype q) @ u16_bytes (qclass q)"

definition ser_rr :: "mt_dns_rr \<Rightarrow> u8 list" where
  "ser_rr rr = rr_name rr @ u16_bytes (rtype rr) @ u16_bytes (rclass rr) @ u32_bytes (rr_ttl rr) @
     u16_bytes (of_nat (length (rdata rr))) @ rdata rr"

definition ser_header :: "u16 \<Rightarrow> u16 \<Rightarrow> u16 \<Rightarrow> u16 \<Rightarrow> u16 \<Rightarrow> u16 \<Rightarrow> u8 list" where
  "ser_header i fl qd an ns ar = u16_bytes i @ u16_bytes fl @ u16_bytes qd @ u16_bytes an @
     u16_bytes ns @ u16_bytes ar"

definition ser_msg :: "mt_dns_msg \<Rightarrow> u8 list" where
  "ser_msg m = ser_header (msg_id m) (msg_flags m) (of_nat (length (questions m)))
       (of_nat (length (answers m))) (of_nat (length (authority m))) (of_nat (length (additional m))) @
     concat (map ser_question (questions m)) @ concat (map ser_rr (answers m)) @
     concat (map ser_rr (authority m)) @ concat (map ser_rr (additional m))"

lemma emits_question: "emits (\<lambda>w. wr_question w q) (ser_question q)"
  unfolding wr_question_def ser_question_def by (intro emits_obind emits_bytes emits_word)

lemma emits_questions: "emits (wr_questions qs) (concat (map ser_question qs))"
proof (induction qs)
  case Nil
  have "wr_questions [] = Some" by (simp add: fun_eq_iff)
  then show ?case by (simp add: emits_nil)
next
  case (Cons q qs)
  have "wr_questions (q # qs) = (\<lambda>w. obind (wr_question w q) (wr_questions qs))" by (simp add: fun_eq_iff)
  then show ?case using emits_obind [OF emits_question Cons.IH] by simp
qed

lemma wr_header_ser: "\<exists>c. wr_header i fl qd an ns ar = Some \<lparr>w_buf = ser_header i fl qd an ns ar, w_cap = c\<rparr>"
proof -
  let ?f = "\<lambda>w. obind (wr_u16 w i) (\<lambda>w1. obind (wr_u16 w1 fl) (\<lambda>w2. obind (wr_u16 w2 qd) (\<lambda>w3.
    obind (wr_u16 w3 an) (\<lambda>w4. obind (wr_u16 w4 ns) (\<lambda>w5. wr_u16 w5 ar)))))"
  have "emits ?f (ser_header i fl qd an ns ar)"
    unfolding ser_header_def by (intro emits_obind emits_word)
  from emitsE [OF this, of "\<lparr>w_buf = [], w_cap = 0\<rparr>"] show ?thesis by (auto simp: wr_header_def)
qed

lemma wr_rr_ser:
  assumes "length (rdata rr) \<le> 65535"
  shows "\<exists>c. wr_rr w rr = Some (True, \<lparr>w_buf = w_buf w @ ser_rr rr, w_cap = c\<rparr>)"
proof -
  let ?f = "\<lambda>w. obind (wr_bytes w (rr_name rr)) (\<lambda>w1. obind (wr_u16 w1 (rtype rr)) (\<lambda>w2.
    obind (wr_u16 w2 (rclass rr)) (\<lambda>w3. obind (wr_u32 w3 (rr_ttl rr)) (\<lambda>w4.
    obind (wr_u16 w4 (of_nat (length (rdata rr)))) (\<lambda>w5. wr_bytes w5 (rdata rr))))))"
  have "emits ?f (ser_rr rr)" unfolding ser_rr_def by (intro emits_obind emits_bytes emits_word)
  then obtain c where c: "?f w = Some \<lparr>w_buf = w_buf w @ ser_rr rr, w_cap = c\<rparr>" by (rule emitsE)
  have "wr_rr w rr = map_option (Pair True) (?f w)"
    using assms by (auto simp: wr_rr_def obind_def split: option.splits)
  with c show ?thesis by simp
qed

lemma wr_rrs_ser:
  "list_all (\<lambda>rr. length (rdata rr) \<le> 65535) rrs \<Longrightarrow>
   \<exists>c. wr_rrs rrs (True, w) = Some (True, \<lparr>w_buf = w_buf w @ concat (map ser_rr rrs), w_cap = c\<rparr>)"
proof (induction rrs arbitrary: w)
  case Nil
  then show ?case by (cases w) auto
next
  case (Cons rr rrs)
  then obtain c where "wr_rr w rr = Some (True, \<lparr>w_buf = w_buf w @ ser_rr rr, w_cap = c\<rparr>)"
    using wr_rr_ser [of rr w] by auto
  with Cons.IH [of "\<lparr>w_buf = w_buf w @ ser_rr rr, w_cap = c\<rparr>"] Cons.prems show ?case by auto
qed

lemma pack_ser:
  assumes "list_all (\<lambda>rr. length (rdata rr) \<le> 65535) (answers m @ authority m @ additional m)"
  shows "mt_dns_msg_pack m = Some (if length (ser_msg m) > MT_DNS_MAX_MSG then Inl MT_ERR_LIMIT
    else Inr (ser_msg m))"
proof -
  let ?h = "ser_header (msg_id m) (msg_flags m) (of_nat (length (questions m)))
       (of_nat (length (answers m))) (of_nat (length (authority m))) (of_nat (length (additional m)))"
  obtain c where h: "wr_header (msg_id m) (msg_flags m) (of_nat (length (questions m)))
       (of_nat (length (answers m))) (of_nat (length (authority m))) (of_nat (length (additional m))) =
       Some \<lparr>w_buf = ?h, w_cap = c\<rparr>" using wr_header_ser by blast
  obtain c1 where q: "wr_questions (questions m) \<lparr>w_buf = ?h, w_cap = c\<rparr> =
      Some \<lparr>w_buf = ?h @ concat (map ser_question (questions m)), w_cap = c1\<rparr>"
    using emitsE [OF emits_questions, of "questions m" "\<lparr>w_buf = ?h, w_cap = c\<rparr>"] by auto
  let ?w = "\<lambda>b c. \<lparr>w_buf = b, w_cap = c\<rparr>"
  obtain c2 where a: "wr_rrs (answers m) (True, ?w (?h @ concat (map ser_question (questions m))) c1) =
      Some (True, ?w ((?h @ concat (map ser_question (questions m))) @ concat (map ser_rr (answers m))) c2)"
    using wr_rrs_ser [of "answers m" "?w (?h @ concat (map ser_question (questions m))) c1"] assms by auto
  let ?b = "(?h @ concat (map ser_question (questions m))) @ concat (map ser_rr (answers m))"
  obtain c3 where n: "wr_rrs (authority m) (True, ?w ?b c2) =
      Some (True, ?w (?b @ concat (map ser_rr (authority m))) c3)"
    using wr_rrs_ser [of "authority m" "?w ?b c2"] assms by auto
  obtain c4 where "wr_rrs (additional m) (True, ?w (?b @ concat (map ser_rr (authority m))) c3) =
      Some (True, ?w ((?b @ concat (map ser_rr (authority m))) @ concat (map ser_rr (additional m))) c4)"
    using wr_rrs_ser [of "additional m" "?w (?b @ concat (map ser_rr (authority m))) c3"] assms by auto
  with h q a n show ?thesis by (simp add: mt_dns_msg_pack_def obind_def ser_msg_def)
qed

section \<open>Reading back what was written\<close>

definition at :: "u8 list \<Rightarrow> nat \<Rightarrow> u8 list \<Rightarrow> bool" where
  "at buf p bs = (p + length bs \<le> length buf \<and> take (length bs) (drop p buf) = bs)"

lemma at_append: "at buf p (xs @ ys) \<longleftrightarrow> at buf p xs \<and> at buf (p + length xs) ys"
proof -
  have "take (length xs + length ys) (drop p buf) =
      take (length xs) (drop p buf) @ take (length ys) (drop (p + length xs) buf)"
    by (simp add: take_add add.commute)
  moreover have "p + length xs \<le> length buf \<Longrightarrow> length (take (length xs) (drop p buf)) = length xs" by simp
  ultimately show ?thesis unfolding at_def by (auto simp: append_eq_append_conv)
qed

lemma at_Cons: "at buf p (x # xs) \<longleftrightarrow> p < length buf \<and> buf ! p = x \<and> at buf (Suc p) xs"
proof -
  have "at buf p [x] \<longleftrightarrow> p < length buf \<and> buf ! p = x"
    by (auto simp: at_def take_Suc_conv_app_nth hd_drop_conv_nth take_Suc drop_eq_Nil)
  then show ?thesis using at_append [of buf p "[x]" xs] by simp
qed

lemma at_self: "at (xs @ ys @ zs) (length xs) ys"
  by (simp add: at_def)

lemma at_bytes: "at buf p bs \<Longrightarrow> bytes_at buf p (length bs) = Got bs"
  by (simp add: at_def bytes_at_def)

lemma u16_join: "push_bit 8 (ucast (ucast (drop_bit 8 v) :: u8)) OR ucast (ucast v :: u8) = v" for v :: u16
  by (rule bit_word_eqI) (auto simp: bit_simps)

lemma u32_join:
  "push_bit 24 (ucast (ucast (drop_bit 24 v) :: u8)) OR push_bit 16 (ucast (ucast (drop_bit 16 v) :: u8)) OR
   push_bit 8 (ucast (ucast (drop_bit 8 v) :: u8)) OR ucast (ucast v :: u8) = v" for v :: u32
proof (rule bit_word_eqI)
  fix n
  assume n: "n < LENGTH(32)"
  consider "n < 8" | "8 \<le> n" "n < 16" | "16 \<le> n" "n < 24" | "24 \<le> n" by linarith
  then show "bit ((push_bit 24 (ucast (ucast (drop_bit 24 v) :: u8)) OR
      push_bit 16 (ucast (ucast (drop_bit 16 v) :: u8)) OR
      push_bit 8 (ucast (ucast (drop_bit 8 v) :: u8)) OR ucast (ucast v :: u8)) :: u32) n = bit v n"
    using n by cases (auto simp: bit_simps)
qed

lemma rd_u16_at: "at buf p (u16_bytes v) \<Longrightarrow> rd_u16 buf p = Got (v, p + 2)"
  by (auto simp: u16_bytes_def at_Cons rd_u16_def byte_at_def u16_join)

lemma rd_u32_at: "at buf p (u32_bytes v) \<Longrightarrow> rd_u32 buf p = Got (v, p + 4)"
proof -
  assume a: "at buf p (u32_bytes v)"
  have s: "p + 1 = Suc p" "p + 2 = Suc (Suc p)" "p + 3 = Suc (Suc (Suc p))" by simp_all
  show ?thesis using a u32_join [of v]
    by (auto simp: u32_bytes_def at_Cons rd_u32_def byte_at_def s simp del: push_bit_of_0)
qed

lemma rd_name_loop_at:
  "at buf p (enc_labels ls @ [0]) \<Longrightarrow> list_all label_ok ls \<Longrightarrow>
   length out + length (enc_labels ls) + 1 \<le> 255 \<Longrightarrow>
   rd_name_loop buf p out j 0 = Got (out @ enc_labels ls @ [0], p + length (enc_labels ls) + 1)"
proof (induction ls arbitrary: p out)
  case Nil
  then show ?case
    by (simp add: at_Cons rd_name_loop.simps [of buf p] byte_at_def put_def MT_DNS_MAX_NAME_def)
next
  case (Cons l ls)
  let ?b = "word_of_nat (length l) :: u8"
  have l: "label_ok l" "unat ?b = length l" "?b AND 0xC0 = 0" "?b \<noteq> 0"
    using Cons.prems(2) label_octet [of l] by simp_all
  have at: "p < length buf" "buf ! p = ?b" "at buf (Suc p) l" "at buf (Suc p + length l) (enc_labels ls @ [0])"
    using Cons.prems(1) by (simp_all add: enc_label_def at_Cons at_append)
  have "rd_name_loop buf (Suc p + length l) (out @ ?b # l) j 0 =
      Got ((out @ ?b # l) @ enc_labels ls @ [0], Suc p + length l + length (enc_labels ls) + 1)"
    using Cons.IH [OF at(4)] Cons.prems by (simp add: enc_label_def)
  moreover have "bytes_at buf (Suc p) (length l) = Got l" by (rule at_bytes [OF at(3)])
  moreover have "Suc p + length l \<le> length buf" using at(3) by (simp add: at_def)
  ultimately show ?case using at(1,2) l Cons.prems(3)
    by (simp add: rd_name_loop.simps [of buf p] byte_at_def put_def MT_DNS_MAX_NAME_def enc_label_def)
qed

lemma rd_name_at: "at buf p n \<Longrightarrow> name_ok n \<Longrightarrow> rd_name buf p = Got (n, p + length n)"
  using rd_name_loop_at [of buf p _ "[]" 0] by (auto simp: name_ok_def rd_name_def)

lemma rd_names_at:
  "at buf p (concat ns) \<Longrightarrow> list_all name_ok ns \<Longrightarrow> p + length (concat ns) \<le> rd_end \<Longrightarrow>
   length tmp + length (concat ns) \<le> TMP_SIZE \<Longrightarrow>
   rd_names (length ns) buf p rd_end tmp = Got (tmp @ concat ns, p + length (concat ns))"
proof (induction ns arbitrary: p tmp)
  case (Cons n ns)
  then have "rd_name buf p = Got (n, p + length n)" by (simp add: at_append rd_name_at)
  moreover have "rd_names (length ns) buf (p + length n) rd_end (tmp @ n) =
      Got ((tmp @ n) @ concat ns, (p + length n) + length (concat ns))"
    using Cons.prems by (intro Cons.IH) (simp_all add: at_append)
  ultimately show ?case using Cons.prems by (simp add: put_def)
qed simp

lemma rd_trailer_at:
  assumes "at buf p tr" and "length tr = (if rt = 6 then 20 else 0)" and "rd_end = p + length tr"
    and "length tmp + length tr \<le> TMP_SIZE"
  shows "rd_trailer rt buf p rd_end tmp = Got (tmp @ tr, rd_end)"
  using assms at_bytes [OF assms(1)] by (auto simp: rd_trailer_def put_def)

lemma canonicalize_at:
  assumes "at buf p rd" and "type_has_compressible_rdata rt" and "rdata_ok rt rd"
  shows "canonicalize_rdata buf p (p + length rd) rt = Got (rd, p + length rd)"
proof -
  obtain fx ns tr where rd: "length fx = rdata_fixed rt" "length ns = rdata_names rt"
    "list_all name_ok ns" "length tr = (if rt = 6 then 20 else 0)" "rd = fx @ concat ns @ tr"
    using assms(2,3) by (auto simp: rdata_ok_def)
  have size: "length rd \<le> TMP_SIZE"
    using concat_names_length [OF rd(3)] rd(1,2,4) unfolding rd(5)
    by (auto simp: TMP_SIZE_def MT_DNS_MAX_NAME_def rdata_names_def rdata_fixed_def split: if_splits)
  have at: "at buf p fx" "at buf (p + length fx) (concat ns)"
    "at buf (p + length fx + length (concat ns)) tr"
    using assms(1) by (simp_all add: rd(5) at_append add.assoc)
  have "rd_names (rdata_names rt) buf (p + length fx) (p + length rd) fx =
      Got (fx @ concat ns, p + length fx + length (concat ns))"
    using rd_names_at [OF at(2) rd(3), of "p + length rd" fx] size by (simp add: rd(2,5))
  moreover have "rd_trailer rt buf (p + length fx + length (concat ns)) (p + length rd) (fx @ concat ns) =
      Got (rd, p + length rd)"
    using rd_trailer_at [OF at(3) rd(4), of "p + length rd" "fx @ concat ns"] size by (simp add: rd(5))
  ultimately show ?thesis
    using at_bytes [OF at(1)] size
    by (simp add: canonicalize_rdata_def Let_def put_def flip: rd(1)) (simp add: rd(5))
qed

lemma length_u16_bytes [simp]: "length (u16_bytes v) = 2" and length_u32_bytes [simp]: "length (u32_bytes v') = 4"
  by (simp_all add: u16_bytes_def u32_bytes_def)

lemma unat_u16_of_nat: "n \<le> 65535 \<Longrightarrow> unat (of_nat n :: u16) = n"
  by (simp add: unat_of_nat)

lemma rdata_ok_length: "rdata_ok rt rd \<Longrightarrow> length rd \<le> 65535"
proof -
  assume ok: "rdata_ok rt rd"
  show ?thesis
  proof (cases "type_has_compressible_rdata rt")
    case True
    with ok obtain fx ns tr where rd: "length fx = rdata_fixed rt" "length ns = rdata_names rt"
      "list_all name_ok ns" "length tr = (if rt = 6 then 20 else 0)" "rd = fx @ concat ns @ tr"
      by (auto simp: rdata_ok_def)
    show ?thesis
      using concat_names_length [OF rd(3)] rd(1,2,4) rdata_names_le [of rt] rdata_fixed_le [of rt]
      unfolding rd(5) by (auto split: if_splits)
  qed (use ok in \<open>simp add: rdata_ok_def\<close>)
qed

lemma parse_rr_at:
  assumes "at buf p (ser_rr rr)" and "rr_ok rr"
  shows "parse_rr buf p = Got (rr, p + length (ser_rr rr))"
proof -
  let ?n = "rr_name rr" and ?rd = "rdata rr"
  have len: "length ?rd \<le> 65535" using assms(2) rdata_ok_length by (auto simp: rr_ok_def)
  have at: "at buf p ?n" "at buf (p + length ?n) (u16_bytes (rtype rr))"
    "at buf (p + length ?n + 2) (u16_bytes (rclass rr))" "at buf (p + length ?n + 4) (u32_bytes (rr_ttl rr))"
    "at buf (p + length ?n + 8) (u16_bytes (of_nat (length ?rd)))" "at buf (p + length ?n + 10) ?rd"
    using assms(1) by (simp_all add: ser_rr_def at_append numeral_eq_Suc)
  have fit: "p + length ?n + 10 + length ?rd \<le> length buf" using at(6) by (simp add: at_def)
  have "rd_name buf p = Got (?n, p + length ?n)"
    using rd_name_at [OF at(1)] assms(2) by (simp add: rr_ok_def)
  moreover have "canonicalize_rdata buf (p + length ?n + 10) (p + length ?n + 10 + length ?rd) (rtype rr) =
      Got (?rd, p + length ?n + 10 + length ?rd)" if "type_has_compressible_rdata (rtype rr)"
    using canonicalize_at [OF at(6) that] assms(2) by (simp add: rr_ok_def)
  moreover have "rd_u16 buf (p + length ?n) = Got (rtype rr, p + length ?n + 2)"
    "rd_u16 buf (p + length ?n + 2) = Got (rclass rr, p + length ?n + 4)"
    "rd_u32 buf (p + length ?n + 4) = Got (rr_ttl rr, p + length ?n + 8)"
    "rd_u16 buf (p + length ?n + 8) = Got (of_nat (length ?rd), p + length ?n + 10)"
    using rd_u16_at [OF at(2)] rd_u16_at [OF at(3)] rd_u32_at [OF at(4)] rd_u16_at [OF at(5)] by simp_all
  ultimately show ?thesis
    using at_bytes [OF at(6)] fit len
    by (simp add: parse_rr_def unat_u16_of_nat Let_def ser_rr_def add.assoc del: add_2_eq_Suc')
qed

lemma parse_rr_section_at:
  "at buf p (concat (map ser_rr rrs)) \<Longrightarrow> list_all rr_ok rrs \<Longrightarrow>
   parse_rr_section (length rrs) buf p = Got (rrs, p + length (concat (map ser_rr rrs)))"
proof (induction rrs arbitrary: p)
  case (Cons rr rrs)
  then have "parse_rr buf p = Got (rr, p + length (ser_rr rr))"
    by (simp add: at_append parse_rr_at)
  with Cons show ?case by (simp add: at_append add.assoc)
qed simp

lemma parse_question_at:
  assumes "at buf p (ser_question q)" and "name_ok (q_name q)"
  shows "parse_question buf p = Got (q, p + length (ser_question q))"
proof -
  have at: "at buf p (q_name q)" "at buf (p + length (q_name q)) (u16_bytes (qtype q))"
    "at buf (p + length (q_name q) + 2) (u16_bytes (qclass q))"
    using assms(1) by (simp_all add: ser_question_def at_append add.assoc)
  show ?thesis
    using rd_name_at [OF at(1) assms(2)] rd_u16_at [OF at(2)] rd_u16_at [OF at(3)]
    by (simp add: parse_question_def ser_question_def)
qed

lemma parse_questions_at:
  "at buf p (concat (map ser_question qs)) \<Longrightarrow> list_all (\<lambda>q. name_ok (q_name q)) qs \<Longrightarrow>
   parse_questions (length qs) buf p = Got (qs, p + length (concat (map ser_question qs)))"
proof (induction qs arbitrary: p)
  case (Cons q qs)
  then have "parse_question buf p = Got (q, p + length (ser_question q))"
    by (simp add: at_append parse_question_at)
  with Cons show ?case by (simp add: at_append add.assoc)
qed simp

lemma parse_header_at:
  assumes "at buf 0 (ser_header i fl qd an ns ar)" and "length buf \<le> MT_DNS_MAX_MSG"
  shows "parse_message buf = (if length buf = 12
    then Got \<lparr>msg_id = i, msg_flags = fl, questions = [], answers = [], authority = [], additional = []\<rparr>
    else parse_sections buf i fl qd an ns ar 12)"
proof -
  have at: "at buf 0 (u16_bytes i)" "at buf 2 (u16_bytes fl)" "at buf 4 (u16_bytes qd)"
    "at buf 6 (u16_bytes an)" "at buf 8 (u16_bytes ns)" "at buf 10 (u16_bytes ar)"
    using assms(1) by (simp_all add: ser_header_def at_append numeral_eq_Suc)
  have "length buf \<ge> 12" using at(6) by (simp add: at_def)
  moreover have "rd_u16 buf 0 = Got (i, 2)" "rd_u16 buf 2 = Got (fl, 4)" "rd_u16 buf 4 = Got (qd, 6)"
    "rd_u16 buf 6 = Got (an, 8)" "rd_u16 buf 8 = Got (ns, 10)" "rd_u16 buf 10 = Got (ar, 12)"
    using rd_u16_at [OF at(1)] rd_u16_at [OF at(2)] rd_u16_at [OF at(3)] rd_u16_at [OF at(4)]
      rd_u16_at [OF at(5)] rd_u16_at [OF at(6)] by (simp_all add: numeral_2_eq_2)
  ultimately show ?thesis
    using assms(2) by (simp add: parse_message_def MT_DNS_HEADER_LEN_def)
qed

lemma length_ser_header [simp]: "length (ser_header i fl qd an ns ar) = 12"
  by (simp add: ser_header_def)

lemma parse_ser:
  assumes "msg_ok m" and "length (ser_msg m) \<le> MT_DNS_MAX_MSG"
  shows "parse_message (ser_msg m) = Got m"
proof -
  let ?b = "ser_msg m" and ?q = "concat (map ser_question (questions m))"
  let ?a = "concat (map ser_rr (answers m))" and ?n = "concat (map ser_rr (authority m))"
    and ?r = "concat (map ser_rr (additional m))"
  let ?h = "ser_header (msg_id m) (msg_flags m) (of_nat (length (questions m)))
       (of_nat (length (answers m))) (of_nat (length (authority m))) (of_nat (length (additional m)))"
  have "at ?b 0 (?h @ ?q @ ?a @ ?n @ ?r)" using at_self [of "[]" ?b "[]"] by (simp add: ser_msg_def)
  then have at: "at ?b 0 ?h" "at ?b 12 ?q" "at ?b (12 + length ?q) ?a"
    "at ?b (12 + length ?q + length ?a) ?n" "at ?b (12 + length ?q + length ?a + length ?n) ?r"
    by (simp_all add: at_append add.assoc)
  have ok: "list_all (\<lambda>q. name_ok (q_name q)) (questions m)" "list_all rr_ok (answers m)"
    "list_all rr_ok (authority m)" "list_all rr_ok (additional m)"
    "unat (of_nat (length (questions m)) :: u16) = length (questions m)"
    "unat (of_nat (length (answers m)) :: u16) = length (answers m)"
    "unat (of_nat (length (authority m)) :: u16) = length (authority m)"
    "unat (of_nat (length (additional m)) :: u16) = length (additional m)"
    using assms(1) by (simp_all add: msg_ok_def unat_u16_of_nat)
  have "length ?b = 12 \<Longrightarrow> questions m = [] \<and> answers m = [] \<and> authority m = [] \<and> additional m = []"
  proof -
    have ne: "ser_question q \<noteq> []" "ser_rr rr \<noteq> []" for q rr
      by (simp_all add: ser_question_def ser_rr_def u16_bytes_def)
    assume "length ?b = 12"
    then have "?q = []" "?a = []" "?n = []" "?r = []" by (simp_all add: ser_msg_def)
    with ne show ?thesis by (auto simp: concat_eq_Nil_conv)
  qed
  moreover have "parse_sections ?b (msg_id m) (msg_flags m) (of_nat (length (questions m)))
       (of_nat (length (answers m))) (of_nat (length (authority m))) (of_nat (length (additional m))) 12 = Got m"
    unfolding parse_sections_def ok
    using parse_questions_at [OF at(2) ok(1)] parse_rr_section_at [OF at(3) ok(2)]
      parse_rr_section_at [OF at(4) ok(3)] parse_rr_section_at [OF at(5) ok(4)] by simp
  ultimately show ?thesis using parse_header_at [OF at(1) assms(2)] by (cases m) auto
qed

section \<open>Properties\<close>

text \<open>
  C2.  Parsing is memory safe and total.  For every byte string, parsing ends, never touches a byte
  outside the message or the local arrays, and either reports \<^verbatim>\<open>MT_ERR_PROTO\<close> or returns a message
  in which every name is a sequence of labels of 1 to 63 octets closed by the root label, of at
  most 255 octets, and all record data of the compressible types is fully decompressed.
\<close>

theorem wire_parse_safe:
  "\<exists>r. mt_dns_msg_parse buf = Some r \<and> (case r of Inl e \<Rightarrow> e = MT_ERR_PROTO | Inr m \<Rightarrow> msg_ok m)"
  using parse_message_ok [of buf]
  by (cases "parse_message buf") (auto simp: mt_dns_msg_parse_def rd_result_def)

text \<open>
  C3.  Round trip.  Packing a well-formed message whose uncompressed form fits into 65535 octets
  succeeds, and parsing the packed octets gives the message back; a longer one is \<^verbatim>\<open>MT_ERR_LIMIT\<close>.
\<close>

theorem wire_pack_parse:
  assumes "msg_ok m"
  shows "if length (ser_msg m) \<le> 65535
    then \<exists>bs. mt_dns_msg_pack m = Some (Inr bs) \<and> mt_dns_msg_parse bs = Some (Inr m)
    else mt_dns_msg_pack m = Some (Inl MT_ERR_LIMIT)"
proof -
  have "list_all (\<lambda>rr. length (rdata rr) \<le> 65535) (answers m @ authority m @ additional m)"
    using assms rdata_ok_length by (auto simp: msg_ok_def list_all_iff rr_ok_def)
  from pack_ser [OF this] parse_ser [OF assms] show ?thesis
    by (simp add: MT_DNS_MAX_MSG_def mt_dns_msg_parse_def rd_result_def)
qed

theorem wire_pack_parse_witness:
  "let m = \<lparr>msg_id = 7, msg_flags = 0x8180,
      questions = [\<lparr>q_name = [1, 97, 0], qtype = 1, qclass = 1\<rparr>],
      answers = [\<lparr>rr_name = [1, 97, 0], rtype = 5, rclass = 1, rr_ttl = 60, rdata = [1, 98, 0]\<rparr>],
      authority = [], additional = []\<rparr>
   in msg_ok m \<and> length (ser_msg m) \<le> 65535 \<and>
     (\<exists>bs. mt_dns_msg_pack m = Some (Inr bs) \<and> mt_dns_msg_parse bs = Some (Inr m))"
proof -
  let ?m = "\<lparr>msg_id = 7, msg_flags = 0x8180,
      questions = [\<lparr>q_name = [1, 97, 0], qtype = 1, qclass = 1\<rparr>],
      answers = [\<lparr>rr_name = [1, 97, 0], rtype = 5, rclass = 1, rr_ttl = 60, rdata = [1, 98, 0]\<rparr>],
      authority = [], additional = []\<rparr> :: mt_dns_msg"
  have name: "name_ok [1, x, 0]" for x
    unfolding name_ok_def by (rule exI [of _ "[[x]]"]) (simp add: label_ok_def enc_label_def)
  have "rdata_ok 5 ([] @ concat [[1, 98, 0]] @ [])"
    using name by (intro rdata_okI)
      (simp_all add: type_has_compressible_rdata_def rdata_fixed_def rdata_names_def)
  then have ok: "msg_ok ?m" using name by (simp add: msg_ok_def rr_ok_def)
  have "length (ser_msg ?m) \<le> 65535"
    by (simp add: ser_msg_def ser_question_def ser_rr_def)
  with ok wire_pack_parse [OF ok] show ?thesis unfolding Let_def by simp
qed

lemma strip_loop_spec:
  "kept \<le> i \<Longrightarrow> i + n = length rrs \<Longrightarrow> take kept rrs = filter (\<lambda>rr. rtype rr \<noteq> 28) (take i orig) \<Longrightarrow>
   drop i rrs = drop i orig \<Longrightarrow> length orig = length rrs \<Longrightarrow>
   (case strip_loop rrs i n kept of (r, k) \<Rightarrow> take k r) = filter (\<lambda>rr. rtype rr \<noteq> 28) orig"
proof (induction rrs i n kept rule: strip_loop.induct)
  case (2 rrs i n kept)
  have i: "i < length rrs" using "2.prems"(2) by simp
  have nth: "rrs ! i = orig ! i"
    using arg_cong [OF "2.prems"(4), of hd] "2.prems"(5) i by (simp add: hd_drop_conv_nth)
  have drop: "drop (Suc i) rrs = drop (Suc i) orig"
    using arg_cong [OF "2.prems"(4), of "drop 1"] by simp
  have take: "take (Suc i) orig = take i orig @ [orig ! i]"
    using i "2.prems"(5) by (simp add: take_Suc_conv_app_nth)
  show ?case
  proof (cases "rtype (rrs ! i) = 28")
    case True
    then show ?thesis using "2.IH"(1) [OF True] "2.prems" drop nth take by simp
  next
    case False
    let ?rrs = "if kept \<noteq> i then rrs[kept := rrs ! i] else rrs"
    have "take (Suc kept) ?rrs = take kept rrs @ [rrs ! i]"
      using i "2.prems"(1) by (auto simp: take_Suc_conv_app_nth)
    moreover have "drop (Suc i) ?rrs = drop (Suc i) orig" using "2.prems"(1) drop by simp
    ultimately show ?thesis using "2.IH"(2) [OF False] "2.prems" False nth take by simp
  qed
qed simp

text \<open>
  Stripping AAAA removes exactly the AAAA answers, keeps the others in their order, and changes
  nothing else of the message.
\<close>

theorem strip_aaaa_exact:
  "mt_dns_msg_strip_aaaa m = m\<lparr>answers := filter (\<lambda>rr. rtype rr \<noteq> 28) (answers m)\<rparr>"
  using strip_loop_spec [of 0 0 "length (answers m)" "answers m" "answers m"]
  by (simp add: mt_dns_msg_strip_aaaa_def split: prod.splits)

text \<open>
  The fake PTR reply.  For a request the hook recognises as a single PTR question, the reply
  either fails with \<^verbatim>\<open>MT_ERR_PROTO\<close>, exactly when the question cannot be read to its end, or parses
  to a message with the identifier of the request, the flags QR, RA and NXDOMAIN, that one PTR
  question and nothing else.
\<close>

theorem fake_ptr_reply:
  assumes "mt_dns_is_single_ptr_query req = Got True"
  shows "mt_dns_make_fake_ptr_response req = Some (Inl MT_ERR_PROTO) \<and> parse_question req 12 = Reject \<or>
    (\<exists>bs q p i. parse_question req 12 = Got (q, p) \<and> qtype q = 12 \<and> raw_u16 req 0 = Got i \<and>
       mt_dns_make_fake_ptr_response req = Some (Inr bs) \<and>
       mt_dns_msg_parse bs = Some (Inr \<lparr>msg_id = i, msg_flags = 0x8083, questions = [q],
         answers = [], authority = [], additional = []\<rparr>))"
proof -
  have len: "12 \<le> length req" using assms by (auto simp: mt_dns_is_single_ptr_query_def MT_DNS_HEADER_LEN_def split: if_splits)
  have byte: "byte_at req k = Got (req ! k)" if "k < 12" for k
    using len that by (simp add: byte_at_def)
  obtain i qd where u: "raw_u16 req 0 = Got i" "raw_u16 req 4 = Got qd"
    by (simp add: raw_u16_def byte)
  with assms len obtain n p p2 where n: "qd = 1" "rd_name req 12 = Got (n, p)" "rd_u16 req p = Got (12, p2)"
    by (auto simp: mt_dns_is_single_ptr_query_def MT_DNS_HEADER_LEN_def split: rd.splits if_splits)
  have q: "parse_question req 12 = rbind (rd_u16 req p2) (\<lambda>(qc, p3). Got (\<lparr>q_name = n, qtype = 12, qclass = qc\<rparr>, p3))"
    using n by (simp add: parse_question_def)
  show ?thesis
  proof (cases "rd_u16 req p2")
    case Fault
    then show ?thesis using rd_ok_u16 [of req p2] by simp
  next
    case Reject
    then show ?thesis using len u n(1) q
      by (simp add: mt_dns_make_fake_ptr_response_def MT_DNS_HEADER_LEN_def)
  next
    case (Got x)
    obtain qc p3 where x: "x = (qc, p3)" by (cases x)
    define qu where "qu = \<lparr>q_name = n, qtype = 12, qclass = qc :: u16\<rparr>"
    define m where "m = \<lparr>msg_id = i, msg_flags = 0x8083, questions = [qu], answers = [], authority = [],
        additional = []\<rparr>"
    have pq: "parse_question req 12 = Got (qu, p3)" using Got x q by (simp add: qu_def)
    obtain c where h: "wr_header i (0x8000 OR 0x0080 OR 3) qd 0 0 0 =
        Some \<lparr>w_buf = ser_header i (0x8000 OR 0x0080 OR 3) qd 0 0 0, w_cap = c\<rparr>" using wr_header_ser by blast
    obtain c' where w: "wr_question \<lparr>w_buf = ser_header i (0x8000 OR 0x0080 OR 3) qd 0 0 0, w_cap = c\<rparr> qu =
        Some \<lparr>w_buf = ser_msg m, w_cap = c'\<rparr>"
      using emitsE [OF emits_question, of "\<lparr>w_buf = ser_header i (0x8000 OR 0x0080 OR 3) qd 0 0 0, w_cap = c\<rparr>" qu]
      by (auto simp: ser_msg_def m_def n(1))
    have r: "mt_dns_make_fake_ptr_response req = Some (Inr (ser_msg m))"
      using len u h w pq n(1) by (simp add: mt_dns_make_fake_ptr_response_def MT_DNS_HEADER_LEN_def)
    have nok: "name_ok n" using rd_name_ok [of req 12] n(2) by simp
    then have "msg_ok m" by (simp add: msg_ok_def m_def qu_def)
    moreover have "length (ser_msg m) \<le> MT_DNS_MAX_MSG"
      using name_ok_length [OF nok] by (simp add: ser_msg_def m_def ser_question_def qu_def MT_DNS_MAX_MSG_def)
    ultimately have "mt_dns_msg_parse (ser_msg m) = Some (Inr m)"
      by (simp add: parse_ser mt_dns_msg_parse_def rd_result_def)
    then show ?thesis using r pq u(1) by (auto simp: m_def qu_def)
  qed
qed

theorem fake_ptr_reply_witness:
  "let req = [0, 9, 1, 0, 0, 1, 0, 0, 0, 0, 0, 0, 1, 97, 0, 0, 12, 0, 1] in
   mt_dns_is_single_ptr_query req = Got True \<and>
   (mt_dns_make_fake_ptr_response req = Some (Inl MT_ERR_PROTO) \<and> parse_question req 12 = Reject \<or>
    (\<exists>bs q p i. parse_question req 12 = Got (q, p) \<and> qtype q = 12 \<and> raw_u16 req 0 = Got i \<and>
       mt_dns_make_fake_ptr_response req = Some (Inr bs) \<and>
       mt_dns_msg_parse bs = Some (Inr \<lparr>msg_id = i, msg_flags = 0x8083, questions = [q],
         answers = [], authority = [], additional = []\<rparr>)))"
proof -
  let ?req = "[0, 9, 1, 0, 0, 1, 0, 0, 0, 0, 0, 0, 1, 97, 0, 0, 12, 0, 1] :: u8 list"
  have "mt_dns_is_single_ptr_query ?req = Got True"
    by (simp add: mt_dns_is_single_ptr_query_def MT_DNS_HEADER_LEN_def raw_u16_def byte_at_def rd_name_def
        rd_name_loop.simps bytes_at_def put_def MT_DNS_MAX_NAME_def rd_u16_def)
  with fake_ptr_reply [OF this] show ?thesis unfolding Let_def by blast
qed

definition show_labels :: "u8 list list \<Rightarrow> string" where
  "show_labels ls = concat (map (\<lambda>l. concat (map escape_byte l) @ ''.'') ls)"

lemma putc_ok: "length out + length cs < buf_len \<Longrightarrow> putc buf_len cs out = Inr (out @ cs)"
  by (induction cs arbitrary: out) auto

lemma length_escape: "length (concat (map escape_byte l)) \<le> 4 * length l"
proof (induction l)
  case (Cons b l)
  have "length (escape_byte b) \<le> 4" by (simp add: escape_byte_def esc3_def Let_def)
  with Cons show ?case by simp
qed simp

lemma name_str_loop_at:
  "at name pos (enc_labels ls @ [0]) \<Longrightarrow> list_all label_ok ls \<Longrightarrow>
   length out + length (show_labels ls) < bl \<Longrightarrow>
   name_str_loop name bl pos any out = Inr (any \<or> ls \<noteq> [], out @ show_labels ls)"
proof (induction ls arbitrary: pos out any)
  case Nil
  then show ?case by (simp add: at_Cons name_str_loop.simps [of name bl pos] show_labels_def)
next
  case (Cons l ls)
  let ?b = "word_of_nat (length l) :: u8"
  have l: "label_ok l" "unat ?b = length l" "?b \<noteq> 0"
    using Cons.prems(2) label_octet [of l] by simp_all
  have at: "pos < length name" "name ! pos = ?b" "at name (Suc pos) l" "at name (Suc pos + length l) (enc_labels ls @ [0])"
    using Cons.prems(1) by (simp_all add: enc_label_def at_Cons at_append)
  have "take (length l) (drop (Suc pos) name) = l" "Suc pos + length l \<le> length name"
    using at(3) by (simp_all add: at_def)
  moreover have "name_str_loop name bl (Suc pos + length l) True (out @ concat (map escape_byte l) @ ''.'') =
      Inr (True \<or> ls \<noteq> [], (out @ concat (map escape_byte l) @ ''.'') @ show_labels ls)"
    using Cons.prems by (intro Cons.IH at) (simp_all add: show_labels_def)
  ultimately show ?case using at(1,2) l Cons.prems(3)
    by (simp add: name_str_loop.simps [of name bl pos] putc_ok show_labels_def)
qed

lemma length_show_labels: "length (show_labels ls) \<le> 4 * length (enc_labels ls)"
proof (induction ls)
  case (Cons l ls)
  then show ?case using length_escape [of l] by (simp add: show_labels_def enc_label_def)
qed (simp add: show_labels_def)

lemma name_to_string_eq:
  assumes "list_all label_ok ls" and "length (enc_labels ls @ [0]) \<le> 255" and "bl \<ge> 1022"
  shows "mt_dns_name_to_string (enc_labels ls @ [0]) bl = Inr (if ls = [] then ''.'' else show_labels ls)"
proof -
  have "at (enc_labels ls @ [0]) 0 (enc_labels ls @ [0])" by (simp add: at_def)
  moreover have "length (show_labels ls) < bl" using length_show_labels [of ls] assms(2,3) by simp
  ultimately show ?thesis
    using name_str_loop_at [of "enc_labels ls @ [0]" 0 ls "[]" bl False] assms
    by (simp add: mt_dns_name_to_string_def show_labels_def)
qed

text \<open>Decoding: the next byte, or the end of a label.\<close>

definition is_dec_char :: "char \<Rightarrow> bool" where
  "is_dec_char c = (let n = of_char c :: int in 48 \<le> n \<and> n \<le> 57)"

definition val3 :: "char \<Rightarrow> char \<Rightarrow> char \<Rightarrow> u8" where
  "val3 x y z = word_of_int ((of_char x - 48) * 100 + (of_char y - 48) * 10 + (of_char z - 48))"

fun decode1 :: "string \<Rightarrow> u8 option \<times> string" where
  "decode1 (c # s) =
    (if c = CHR ''.'' then (None, s)
     else if c = CHR 0x5C then
       (case s of x # s1 \<Rightarrow> if is_dec_char x then (case s1 of y # z # s2 \<Rightarrow> (Some (val3 x y z), s2) | _ \<Rightarrow> (None, []))
                  else (Some (of_char x), s1)
        | [] \<Rightarrow> (None, []))
     else (Some (of_char c), s))"
| "decode1 [] = (None, [])"

definition escape_shape :: "u8 \<Rightarrow> bool" where
  "escape_shape b = (case escape_byte b of
     [c] \<Rightarrow> c \<noteq> CHR ''.'' \<and> c \<noteq> CHR 0x5C \<and> of_char c = b
   | [e, c] \<Rightarrow> e = CHR 0x5C \<and> \<not> is_dec_char c \<and> of_char c = b
   | [e, x, y, z] \<Rightarrow> e = CHR 0x5C \<and> is_dec_char x \<and> val3 x y z = b
   | _ \<Rightarrow> False)"

lemma escape_shape_all: "escape_shape b"
  by (induction b rule: all_u8) code_simp

lemma decode1_escape: "decode1 (escape_byte b @ s) = (Some b, s)"
  using escape_shape_all [of b] unfolding escape_shape_def
  by (auto split: list.splits)

lemma escape_inj:
  "concat (map escape_byte l) @ CHR ''.'' # s = concat (map escape_byte l') @ CHR ''.'' # s' \<Longrightarrow> l = l' \<and> s = s'"
proof (induction l arbitrary: l')
  case Nil
  show ?case
  proof (cases l')
    case (Cons b l'')
    then have "decode1 (CHR ''.'' # s) = decode1 (escape_byte b @ concat (map escape_byte l'') @ CHR ''.'' # s')"
      using Nil by simp
    then show ?thesis unfolding decode1_escape by simp
  qed (use Nil in simp)
next
  case (Cons b l)
  show ?case
  proof (cases l')
    case Nil
    then have "decode1 (escape_byte b @ concat (map escape_byte l) @ CHR ''.'' # s) = decode1 (CHR ''.'' # s')"
      using Cons.prems by simp
    then show ?thesis unfolding decode1_escape by simp
  next
    case l': (Cons b' l'')
    then have "decode1 (escape_byte b @ concat (map escape_byte l) @ CHR ''.'' # s) =
        decode1 (escape_byte b' @ concat (map escape_byte l'') @ CHR ''.'' # s')"
      using Cons.prems by simp
    then have "b = b'" "concat (map escape_byte l) @ CHR ''.'' # s = concat (map escape_byte l'') @ CHR ''.'' # s'"
      unfolding decode1_escape by simp_all
    with Cons.IH l' show ?thesis by blast
  qed
qed

lemma show_labels_inj: "show_labels ls = show_labels ls' \<Longrightarrow> ls = ls'"
proof (induction ls arbitrary: ls')
  case Nil
  then show ?case by (cases ls') (auto simp: show_labels_def)
next
  case (Cons l ls)
  show ?case
  proof (cases ls')
    case Nil
    with Cons.prems show ?thesis by (simp add: show_labels_def)
  next
    case l': (Cons l' ls'')
    have "concat (map escape_byte l) @ CHR ''.'' # show_labels ls =
        concat (map escape_byte l') @ CHR ''.'' # show_labels ls''"
      using Cons.prems l' by (simp add: show_labels_def)
    from escape_inj [OF this] Cons.IH l' show ?thesis by blast
  qed
qed

lemma show_labels_dot: "list_all label_ok ls \<Longrightarrow> show_labels ls \<noteq> ''.''"
proof
  assume ok: "list_all label_ok ls" and dot: "show_labels ls = ''.''"
  show False
  proof (cases ls)
    case (Cons l ls')
    have "concat (map escape_byte l) @ CHR ''.'' # show_labels ls' = concat (map escape_byte []) @ CHR ''.'' # []"
      using dot Cons by (simp add: show_labels_def)
    from escape_inj [OF this] ok Cons show False by (simp add: label_ok_def)
  qed (use dot in \<open>simp add: show_labels_def\<close>)
qed

text \<open>
  Presentation names.  A buffer of 1022 characters always suffices for the presentation form of
  a well-formed name, and two well-formed names with the same presentation form are equal: the
  escaping of dots, specials and unprintable octets never makes two names collide.
\<close>

theorem name_to_string_injective:
  assumes "name_ok n" and "name_ok n'" and "bl \<ge> 1022"
  shows "(\<exists>s. mt_dns_name_to_string n bl = Inr s) \<and>
    (mt_dns_name_to_string n bl = mt_dns_name_to_string n' bl \<longleftrightarrow> n = n')"
proof -
  obtain ls where ls: "list_all label_ok ls" "n = enc_labels ls @ [0]" "length (enc_labels ls @ [0]) \<le> 255"
    using assms(1) unfolding name_ok_def by blast
  obtain ls' where ls': "list_all label_ok ls'" "n' = enc_labels ls' @ [0]" "length (enc_labels ls' @ [0]) \<le> 255"
    using assms(2) unfolding name_ok_def by blast
  note eqs = name_to_string_eq [OF ls(1,3) assms(3)] name_to_string_eq [OF ls'(1,3) assms(3)]
  have "mt_dns_name_to_string n bl = mt_dns_name_to_string n' bl \<Longrightarrow> ls = ls'"
    unfolding ls(2) ls'(2) eqs
    using show_labels_inj [of ls ls'] show_labels_dot [OF ls(1)] show_labels_dot [OF ls'(1)]
    by (cases "ls = []"; cases "ls' = []") simp_all
  moreover have "\<exists>s. mt_dns_name_to_string n bl = Inr s" unfolding ls(2) eqs by blast
  ultimately show ?thesis using ls(2) ls'(2) by auto
qed

theorem name_to_string_injective_witness:
  "(\<exists>s. mt_dns_name_to_string [1, 46, 0] 1022 = Inr s) \<and>
   (mt_dns_name_to_string [1, 46, 0] 1022 = mt_dns_name_to_string [1, 97, 0] 1022 \<longleftrightarrow>
    [1, 46, 0] = ([1, 97, 0] :: u8 list))"
proof -
  have name: "name_ok [1, x, 0]" for x
    unfolding name_ok_def by (rule exI [of _ "[[x]]"]) (simp add: label_ok_def enc_label_def)
  show ?thesis by (rule name_to_string_injective [OF name name]) simp
qed

end
