(* ===== verification/Pipeline.thy ===== *)
theory Pipeline
  imports Snapshot Dns_Cache Wire
begin

text \<open>
  \<^verbatim>\<open>src/dns/pipeline.c\<close>: every answer of a DNS response is stored in the cache, and for every group
  of the snapshot that matches one of the names leading to the answer an action is handed to the
  sink.  The sink is a callback: the model returns the list of actions in the order of the calls
  (the empty list when no sink is installed).  \<^const>\<open>None\<close> is a matcher that does not return.
\<close>

section \<open>State\<close>

record mt_match_action =
  act_group_id :: mt_id
  act_group_name :: string
  act_addr :: "u8 list"
  act_ttl :: u32
  act_domain :: string
  act_matched :: string
  act_kind :: string

record 're mt_dns_pipeline =
  pl_cache :: mt_cache
  pl_additional_ttl :: u32
  pl_sink :: bool
  pl_snapshot :: "'re mt_group_snapshot list option"

definition mt_dns_pipeline_create :: "mt_cache \<Rightarrow> u32 \<Rightarrow> bool \<Rightarrow> 're mt_dns_pipeline" where
  "mt_dns_pipeline_create c ttl sink =
    \<lparr>pl_cache = c, pl_additional_ttl = ttl, pl_sink = sink, pl_snapshot = None\<rparr>"

definition mt_dns_pipeline_set_snapshot ::
  "'re mt_group_snapshot list option \<Rightarrow> 're mt_dns_pipeline \<Rightarrow> 're mt_dns_pipeline" where
  "mt_dns_pipeline_set_snapshot snap p = p\<lparr>pl_snapshot := snap\<rparr>"

definition mt_dns_pipeline_set_additional_ttl :: "u32 \<Rightarrow> 're mt_dns_pipeline \<Rightarrow> 're mt_dns_pipeline" where
  "mt_dns_pipeline_set_additional_ttl ttl p = p\<lparr>pl_additional_ttl := ttl\<rparr>"

section \<open>Handling a response\<close>

definition trim_fqdn :: "string \<Rightarrow> string" where
  "trim_fqdn name = (if length name > 0 \<and> last name = CHR ''.'' then butlast name else name)"

fun first_match :: "'re pcre2 \<Rightarrow> 're mt_matcher \<Rightarrow> string list \<Rightarrow> string option option" where
  "first_match P m [] = Some None"
| "first_match P m (n # rest) =
     (case mt_matcher_match P m n of
        None \<Rightarrow> None
      | Some True \<Rightarrow> Some (Some n)
      | Some False \<Rightarrow> first_match P m rest)"

fun group_actions ::
  "'re pcre2 \<Rightarrow> ('re mt_group_snapshot \<Rightarrow> string \<Rightarrow> mt_match_action list) \<Rightarrow> string list \<Rightarrow>
   're mt_group_snapshot list \<Rightarrow> mt_match_action list option" where
  "group_actions P emit names [] = Some []"
| "group_actions P emit names (g # gs) =
     (case first_match P (snap_matcher g) names of
        None \<Rightarrow> None
      | Some matched \<Rightarrow>
          map_option (\<lambda>rest. (case matched of None \<Rightarrow> [] | Some n \<Rightarrow> emit g n) @ rest)
            (group_actions P emit names gs))"

definition snapshot_actions ::
  "'re pcre2 \<Rightarrow> 're mt_dns_pipeline \<Rightarrow> ('re mt_group_snapshot \<Rightarrow> string \<Rightarrow> mt_match_action list) \<Rightarrow>
   string list \<Rightarrow> mt_match_action list option" where
  "snapshot_actions P p emit names =
    (case pl_snapshot p of None \<Rightarrow> Some []
     | Some gs \<Rightarrow> group_actions P (\<lambda>g n. if pl_sink p then emit g n else []) names gs)"

definition handle_address_record ::
  "'re pcre2 \<Rightarrow> 're mt_dns_pipeline \<Rightarrow> mt_dns_rr \<Rightarrow> nat \<Rightarrow> string \<Rightarrow> int \<Rightarrow>
   ('re mt_dns_pipeline \<times> mt_match_action list) option" where
  "handle_address_record P p rr addr_len kind now =
    (if length (rdata rr) \<noteq> addr_len then Some (p, [])
     else case mt_dns_name_to_string (rr_name rr) 1100 of
       Inl _ \<Rightarrow> Some (p, [])
     | Inr s \<Rightarrow>
        let domain = trim_fqdn s;
            ttl = rr_ttl rr + pl_additional_ttl p;
            p1 = p\<lparr>pl_cache := mt_cache_add_address (pl_cache p) domain (rdata rr) ttl now\<rparr>;
            names = mt_cache_get_aliases (pl_cache p1) domain
        in map_option (Pair p1) (snapshot_actions P p1
             (\<lambda>g n. [\<lparr>act_group_id = snap_id g, act_group_name = snap_name g, act_addr = rdata rr,
                 act_ttl = ttl, act_domain = domain, act_matched = n, act_kind = kind\<rparr>]) names))"

definition cname_emit ::
  "string \<Rightarrow> int \<Rightarrow> cache_addr list \<Rightarrow> 're mt_group_snapshot \<Rightarrow> string \<Rightarrow> mt_match_action list" where
  "cname_emit domain now as g n =
    concat (map (\<lambda>a. let remaining = deadline a - now in
      if remaining \<le> 0 then []
      else [\<lparr>act_group_id = snap_id g, act_group_name = snap_name g, act_addr = addr a,
             act_ttl = word_of_int remaining, act_domain = domain, act_matched = n,
             act_kind = ''CNAME''\<rparr>]) as)"

definition handle_cname_record ::
  "'re pcre2 \<Rightarrow> 're mt_dns_pipeline \<Rightarrow> mt_dns_rr \<Rightarrow> int \<Rightarrow>
   ('re mt_dns_pipeline \<times> mt_match_action list) option" where
  "handle_cname_record P p rr now =
    (case mt_dns_name_to_string (rr_name rr) 1100 of
       Inl _ \<Rightarrow> Some (p, [])
     | Inr s \<Rightarrow>
       (case mt_dns_name_to_string (rdata rr) 1100 of
          Inl _ \<Rightarrow> Some (p, [])
        | Inr t \<Rightarrow>
          let domain = trim_fqdn s;
              target = trim_fqdn t;
              ttl = rr_ttl rr + pl_additional_ttl p;
              p1 = p\<lparr>pl_cache := mt_cache_add_alias (pl_cache p) domain target ttl now\<rparr>;
              as = mt_cache_get_addresses (pl_cache p1) domain now;
              aliases = mt_cache_get_aliases (pl_cache p1) domain
          in map_option (Pair p1) (snapshot_actions P p1 (cname_emit domain now as) aliases)))"

definition handle_answer ::
  "'re pcre2 \<Rightarrow> 're mt_dns_pipeline \<Rightarrow> mt_dns_rr \<Rightarrow> int \<Rightarrow>
   ('re mt_dns_pipeline \<times> mt_match_action list) option" where
  "handle_answer P p rr now =
    (if rtype rr = 1 then handle_address_record P p rr 4 ''A'' now
     else if rtype rr = 28 then handle_address_record P p rr 16 ''AAAA'' now
     else if rtype rr = 5 then handle_cname_record P p rr now
     else Some (p, []))"

fun handle_answers ::
  "'re pcre2 \<Rightarrow> int \<Rightarrow> mt_dns_rr list \<Rightarrow> 're mt_dns_pipeline \<Rightarrow>
   ('re mt_dns_pipeline \<times> mt_match_action list) option" where
  "handle_answers P now [] p = Some (p, [])"
| "handle_answers P now (rr # rrs) p =
     (case handle_answer P p rr now of
        None \<Rightarrow> None
      | Some (p1, acts) \<Rightarrow>
         map_option (\<lambda>(p2, rest). (p2, acts @ rest)) (handle_answers P now rrs p1))"

definition mt_dns_pipeline_handle_message ::
  "'re pcre2 \<Rightarrow> 're mt_dns_pipeline \<Rightarrow> mt_dns_msg \<Rightarrow> int \<Rightarrow>
   ('re mt_dns_pipeline \<times> mt_match_action list) option" where
  "mt_dns_pipeline_handle_message P p msg now =
    (if msg_flags msg AND 0x000f \<noteq> 0 then Some (p, [])
     else handle_answers P now (answers msg) p)"

section \<open>Which groups act\<close>

text \<open>A group whose rules are \<open>rules\<close> is concerned by \<open>domain\<close>: one of its rules matches a name
  whose stored aliases lead to the domain.  A rule matches as in the index: for every rule but a
  namespace rule with a leading dot this is the single-rule test (\<open>index_matches_rule\<close>).\<close>

definition concerned :: "'re pcre2 \<Rightarrow> mt_cache \<Rightarrow> string \<Rightarrow> (string \<times> string) list \<Rightarrow> bool" where
  "concerned P c domain rules =
    (\<exists>e. (e, domain) \<in> {(x, y). \<exists>n. dom_find c x = Some n \<and> dn_alias n = Some y}\<^sup>* \<and>
      (\<exists>tr\<in>set rules. index_matches P tr e))"

lemma first_match_total:
  assumes "\<And>d. mt_matcher_match P m d = Some (f d)"
  shows "first_match P m names = Some (find f names)"
  using assms by (induction names) auto

lemma concerned_names:
  assumes "cache_ok c"
  shows "(\<exists>n\<in>set (mt_cache_get_aliases c d). \<exists>tr\<in>set rules. index_matches P tr n) \<longleftrightarrow> concerned P c d rules"
  using get_aliases_closure [of c d] by (auto simp: concerned_def pointing_at_iff [OF assms])

text \<open>The groups that act are exactly the concerned ones, in the order of the snapshot; what one
  of them emits is given by any function of the action list that does not look at the match.\<close>

lemma group_actions_concerned:
  assumes "cache_ok c" and "list_all2 (entry_matches P) es gs"
    and "\<And>g n. g \<in> set gs \<Longrightarrow> map f (emit g n) = h (snap_id g)"
  shows "\<exists>acts. group_actions P emit (mt_cache_get_aliases c d) gs = Some acts \<and>
    map f acts = concat (map (\<lambda>e. h (fst e)) (filter (\<lambda>(i, n, rules). concerned P c d rules) es))"
  using assms(2,3)
proof (induction rule: list_all2_induct)
  case Nil
  show ?case by simp
next
  case (Cons e es g gs)
  obtain i n rules where e: "e = (i, n, rules)" by (cases e)
  with Cons.hyps have id: "snap_id g = i" and
    match: "\<And>d. mt_matcher_match P (snap_matcher g) d = Some (\<exists>tr\<in>set rules. index_matches P tr d)"
    by (auto simp: entry_matches_def)
  let ?names = "mt_cache_get_aliases c d"
  have first: "first_match P (snap_matcher g) ?names = Some (find (\<lambda>d. \<exists>tr\<in>set rules. index_matches P tr d) ?names)"
    by (rule first_match_total) (rule match)
  from Cons.IH [OF Cons.prems] obtain acts where acts: "group_actions P emit ?names gs = Some acts"
    "map f acts = concat (map (\<lambda>e. h (fst e)) (filter (\<lambda>(i, n, rules). concerned P c d rules) es))" by auto
  show ?case
  proof (cases "find (\<lambda>d. \<exists>tr\<in>set rules. index_matches P tr d) ?names")
    case None
    then have "\<not> concerned P c d rules"
      unfolding concerned_names [OF assms(1), symmetric] find_None_iff by blast
    with None first acts e show ?thesis by simp
  next
    case (Some m)
    then have "concerned P c d rules"
      unfolding concerned_names [OF assms(1), symmetric] find_Some_iff by (metis nth_mem)
    with Some first acts e id Cons.prems show ?thesis by simp
  qed
qed

lemma snapshot_actions_concerned:
  assumes "cache_ok c" and "pl_snapshot p = Some gs" and "list_all2 (entry_matches P) es gs" and "pl_sink p"
    and "\<And>g n. map f (emit g n) = h (snap_id g)"
  shows "\<exists>acts. snapshot_actions P p emit (mt_cache_get_aliases c d) = Some acts \<and>
    map f acts = concat (map (\<lambda>e. h (fst e)) (filter (\<lambda>(i, n, rules). concerned P c d rules) es))"
  using group_actions_concerned [OF assms(1,3), of f emit h d] assms(2,4,5)
  by (simp add: snapshot_actions_def)

lemma concat_singleton: "concat (map (\<lambda>e. [g e]) xs) = map g xs"
  by (induction xs) auto

text \<open>What an action tells the sink, apart from the names used in the log.\<close>

definition action_core :: "mt_match_action \<Rightarrow> mt_id \<times> u8 list \<times> u32 \<times> string \<times> string" where
  "action_core a = (act_group_id a, act_addr a, act_ttl a, act_domain a, act_kind a)"

section \<open>Properties\<close>

text \<open>
  C1.  An address answer.  If the record data has the length of the family, the record is stored
  under its name without the final dot, and the sink receives exactly one action for every group
  of the snapshot one of whose enabled rules matches a name whose aliases lead to that name (in
  the order of the groups), with the address of the record and the sum of its TTL and the
  additional TTL in 32 bits.
\<close>

theorem pipeline_address_actions:
  assumes "reachable cache_init cache_step (pl_cache p)"
    and "pl_snapshot p = Some gs" and "list_all2 (entry_matches P) es gs" and "pl_sink p"
    and "length (rdata rr) = addr_len" and "mt_dns_name_to_string (rr_name rr) 1100 = Inr s"
  shows "\<exists>p' acts. handle_address_record P p rr addr_len kind now = Some (p', acts) \<and>
    p' = p\<lparr>pl_cache := mt_cache_add_address (pl_cache p) (trim_fqdn s) (rdata rr)
            (rr_ttl rr + pl_additional_ttl p) now\<rparr> \<and>
    map action_core acts =
      map (\<lambda>e. (fst e, rdata rr, rr_ttl rr + pl_additional_ttl p, trim_fqdn s, kind))
        (filter (\<lambda>(i, n, rules). concerned P (pl_cache p') (trim_fqdn s) rules) es)"
proof -
  define ttl where "ttl = rr_ttl rr + pl_additional_ttl p"
  define c where "c = mt_cache_add_address (pl_cache p) (trim_fqdn s) (rdata rr) ttl now"
  define emit where "emit = (\<lambda>(g :: 'a mt_group_snapshot) n.
    [\<lparr>act_group_id = snap_id g, act_group_name = snap_name g, act_addr = rdata rr,
      act_ttl = ttl, act_domain = trim_fqdn s, act_matched = n, act_kind = kind\<rparr>])"
  have "cache_ok c" unfolding c_def by (intro inv_intros cache.reachable_inv [OF assms(1)])
  from snapshot_actions_concerned [OF this, of "p\<lparr>pl_cache := c\<rparr>" gs P es action_core emit
      "\<lambda>i. [(i, rdata rr, ttl, trim_fqdn s, kind)]" "trim_fqdn s"] assms(2-4)
  obtain acts where "snapshot_actions P (p\<lparr>pl_cache := c\<rparr>) emit (mt_cache_get_aliases c (trim_fqdn s)) = Some acts"
    "map action_core acts = map (\<lambda>e. (fst e, rdata rr, ttl, trim_fqdn s, kind))
        (filter (\<lambda>(i, n, rules). concerned P c (trim_fqdn s) rules) es)"
    by (auto simp: emit_def action_core_def concat_singleton)
  then show ?thesis using assms(5,6)
    by (simp add: handle_address_record_def Let_def ttl_def c_def emit_def)
qed

lemma get_addresses_live:
  "a \<in> set (mt_cache_get_addresses c d now) \<Longrightarrow> deadline a > now"
proof -
  have "a \<in> set (first_live c now n d) \<Longrightarrow> deadline a > now" for n d
    by (induction n arbitrary: d)
       (auto simp: live_addrs_def valid_addrs_def split: option.splits if_splits)
  then show "a \<in> set (mt_cache_get_addresses c d now) \<Longrightarrow> deadline a > now"
    by (simp add: get_addresses_first_live)
qed

text \<open>
  C34.  A CNAME answer.  The alias is stored, and for every concerned group, in the order of the
  groups, the sink receives one action per unexpired address found along the aliases of the name,
  with the rest of that address's lifetime.
\<close>

theorem pipeline_cname_actions:
  assumes "reachable cache_init cache_step (pl_cache p)"
    and "pl_snapshot p = Some gs" and "list_all2 (entry_matches P) es gs" and "pl_sink p"
    and "mt_dns_name_to_string (rr_name rr) 1100 = Inr s" and "mt_dns_name_to_string (rdata rr) 1100 = Inr t"
  shows "\<exists>p' acts. handle_cname_record P p rr now = Some (p', acts) \<and>
    p' = p\<lparr>pl_cache := mt_cache_add_alias (pl_cache p) (trim_fqdn s) (trim_fqdn t)
            (rr_ttl rr + pl_additional_ttl p) now\<rparr> \<and>
    map action_core acts = concat (map (\<lambda>e.
        map (\<lambda>a. (fst e, addr a, word_of_int (deadline a - now), trim_fqdn s, ''CNAME''))
          (mt_cache_get_addresses (pl_cache p') (trim_fqdn s) now))
        (filter (\<lambda>(i, n, rules). concerned P (pl_cache p') (trim_fqdn s) rules) es))"
proof -
  define c where "c = mt_cache_add_alias (pl_cache p) (trim_fqdn s) (trim_fqdn t)
      (rr_ttl rr + pl_additional_ttl p) now"
  define as where "as = mt_cache_get_addresses c (trim_fqdn s) now"
  have ok: "cache_ok c" unfolding c_def by (intro inv_intros cache.reachable_inv [OF assms(1)])
  have "map action_core (concat (map (\<lambda>a. let remaining = deadline a - now in
      if remaining \<le> 0 then []
      else [\<lparr>act_group_id = i, act_group_name = nm, act_addr = addr a,
             act_ttl = word_of_int remaining, act_domain = trim_fqdn s, act_matched = n,
             act_kind = ''CNAME''\<rparr>]) xs)) =
      map (\<lambda>a. (i, addr a, word_of_int (deadline a - now), trim_fqdn s, ''CNAME'')) xs"
    if "\<forall>a\<in>set xs. deadline a > now" for i nm n xs
    using that by (induction xs) (auto simp: action_core_def Let_def)
  then have emit: "map action_core (cname_emit (trim_fqdn s) now as g n) =
      map (\<lambda>a. (snap_id g, addr a, word_of_int (deadline a - now), trim_fqdn s, ''CNAME'')) as"
    for g :: "'a mt_group_snapshot" and n
    using get_addresses_live unfolding cname_emit_def as_def by blast
  from snapshot_actions_concerned [OF ok, of "p\<lparr>pl_cache := c\<rparr>" gs P es action_core
      "cname_emit (trim_fqdn s) now as" "\<lambda>i. map (\<lambda>a. (i, addr a, word_of_int (deadline a - now), trim_fqdn s, ''CNAME'')) as"
      "trim_fqdn s"] assms(2-4) emit
  obtain acts where "snapshot_actions P (p\<lparr>pl_cache := c\<rparr>) (cname_emit (trim_fqdn s) now as)
      (mt_cache_get_aliases c (trim_fqdn s)) = Some acts"
    "map action_core acts = concat (map (\<lambda>e. map (\<lambda>a. (fst e, addr a, word_of_int (deadline a - now), trim_fqdn s, ''CNAME'')) as)
        (filter (\<lambda>(i, n, rules). concerned P c (trim_fqdn s) rules) es))" by auto
  then show ?thesis using assms(5,6)
    by (simp add: handle_cname_record_def Let_def c_def as_def)
qed

lemma example_entry: "\<exists>g. entry_matches literal_pcre2 (id_zero, ''g'', [(''domain'', ''a'')]) g"
proof -
  let ?r = "mt_rule_new\<lparr>rule_type := Some ''domain'', rule_rule := Some ''a'', rule_enable := True\<rparr>"
  have "rules_wf [?r]" by code_simp
  from append_snapshot_entry_spec [OF this, of literal_pcre2 id_zero "Some ''g''" "[]"]
  show ?thesis by auto
qed

lemma example_name: "mt_dns_name_to_string [1, 97, 0] 1100 = Inr ''a.''" "trim_fqdn ''a.'' = ''a''"
  by code_simp+

abbreviation example_pipeline :: "string mt_group_snapshot \<Rightarrow> string mt_dns_pipeline" where
  "example_pipeline g \<equiv> \<lparr>pl_cache = mt_cache_create 8, pl_additional_ttl = 3600, pl_sink = True,
     pl_snapshot = Some [g]\<rparr>"

theorem pipeline_address_actions_witness:
  "\<exists>g p' acts. handle_address_record literal_pcre2 (example_pipeline g)
      \<lparr>rr_name = [1, 97, 0], rtype = 1, rclass = 1, rr_ttl = 60, rdata = [10, 0, 0, 1]\<rparr> 4 ''A'' 0 = Some (p', acts) \<and>
    map action_core acts = map (\<lambda>e. (fst e, [10, 0, 0, 1], 60 + 3600, ''a'', ''A''))
      (filter (\<lambda>(i, n, rules). concerned literal_pcre2 (pl_cache p') ''a'' rules)
        [(id_zero, ''g'', [(''domain'', ''a'')])])"
proof -
  obtain g where g: "entry_matches literal_pcre2 (id_zero, ''g'', [(''domain'', ''a'')]) g"
    using example_entry by blast
  have r: "reachable cache_init cache_step (pl_cache (example_pipeline g))" by (simp add: reachable_created)
  have e: "list_all2 (entry_matches literal_pcre2) [(id_zero, ''g'', [(''domain'', ''a'')])] [g]"
    using g by simp
  let ?rr = "\<lparr>rr_name = [1, 97, 0], rtype = 1, rclass = 1, rr_ttl = 60, rdata = [10, 0, 0, 1]\<rparr> :: mt_dns_rr"
  have "pl_snapshot (example_pipeline g) = Some [g]" "pl_sink (example_pipeline g)" "length (rdata ?rr) = 4"
    "mt_dns_name_to_string (rr_name ?rr) 1100 = Inr ''a.''" using example_name by simp_all
  from pipeline_address_actions [OF r this(1) e this(2-), of "''A''" 0]
  show ?thesis unfolding example_name(2) mt_dns_rr.select_convs mt_dns_pipeline.select_convs by blast
qed

theorem pipeline_cname_actions_witness:
  "\<exists>g p' acts. handle_cname_record literal_pcre2 (example_pipeline g)
      \<lparr>rr_name = [1, 97, 0], rtype = 5, rclass = 1, rr_ttl = 60, rdata = [1, 98, 0]\<rparr> 0 = Some (p', acts) \<and>
    map action_core acts = concat (map (\<lambda>e.
        map (\<lambda>a. (fst e, addr a, word_of_int (deadline a - 0), ''a'', ''CNAME''))
          (mt_cache_get_addresses (pl_cache p') ''a'' 0))
      (filter (\<lambda>(i, n, rules). concerned literal_pcre2 (pl_cache p') ''a'' rules)
        [(id_zero, ''g'', [(''domain'', ''a'')])]))"
proof -
  obtain g where g: "entry_matches literal_pcre2 (id_zero, ''g'', [(''domain'', ''a'')]) g"
    using example_entry by blast
  have r: "reachable cache_init cache_step (pl_cache (example_pipeline g))" by (simp add: reachable_created)
  have e: "list_all2 (entry_matches literal_pcre2) [(id_zero, ''g'', [(''domain'', ''a'')])] [g]"
    using g by simp
  let ?rr = "\<lparr>rr_name = [1, 97, 0], rtype = 5, rclass = 1, rr_ttl = 60, rdata = [1, 98, 0]\<rparr> :: mt_dns_rr"
  have "mt_dns_name_to_string (rdata ?rr) 1100 = Inr ''b.''"
    by code_simp
  moreover have "pl_snapshot (example_pipeline g) = Some [g]" "pl_sink (example_pipeline g)"
    "mt_dns_name_to_string (rr_name ?rr) 1100 = Inr ''a.''" using example_name by simp_all
  ultimately have "\<exists>p' acts. handle_cname_record literal_pcre2 (example_pipeline g) ?rr 0 = Some (p', acts) \<and>
    map action_core acts = concat (map (\<lambda>e.
        map (\<lambda>a. (fst e, addr a, word_of_int (deadline a - 0), trim_fqdn ''a.'', ''CNAME''))
          (mt_cache_get_addresses (pl_cache p') (trim_fqdn ''a.'') 0))
      (filter (\<lambda>(i, n, rules). concerned literal_pcre2 (pl_cache p') (trim_fqdn ''a.'') rules)
        [(id_zero, ''g'', [(''domain'', ''a'')])]))"
    using pipeline_cname_actions [OF r _ e, of ?rr "''a.''" "''b.''" 0] by blast
  then show ?thesis unfolding example_name(2) by blast
qed

section \<open>Whole responses\<close>

definition matchers_return :: "'re pcre2 \<Rightarrow> 're mt_dns_pipeline \<Rightarrow> bool" where
  "matchers_return P p =
    (\<forall>gs g d. pl_snapshot p = Some gs \<longrightarrow> g \<in> set gs \<longrightarrow> mt_matcher_match P (snap_matcher g) d \<noteq> None)"

lemma snapshot_actions_total:
  assumes "matchers_return P p"
  shows "\<exists>acts. snapshot_actions P p emit names = Some acts \<and> (\<not> pl_sink p \<longrightarrow> acts = [])"
proof (cases "pl_snapshot p")
  case (Some gs)
  have first: "\<exists>r. first_match P m ns = Some r" if "\<And>d. mt_matcher_match P m d \<noteq> None" for m ns
    using that by (induction ns) (auto split: option.splits bool.splits)
  have "\<exists>acts. group_actions P (\<lambda>g n. if pl_sink p then emit g n else []) names hs = Some acts \<and>
      (\<not> pl_sink p \<longrightarrow> acts = [])" if "set hs \<subseteq> set gs" for hs
    using that
  proof (induction hs)
    case (Cons g hs)
    then obtain r where "first_match P (snap_matcher g) names = Some r"
      using first [of "snap_matcher g" names] assms Some by (auto simp: matchers_return_def)
    with Cons show ?case by (auto split: option.splits)
  qed simp
  then show ?thesis using Some by (simp add: snapshot_actions_def)
qed (simp add: snapshot_actions_def)

text \<open>One answer: it is processed, only the cache changes, and the new cache is again reachable.\<close>

lemma handle_answer_total:
  assumes "matchers_return P p" and "reachable cache_init cache_step (pl_cache p)"
  shows "\<exists>c acts. handle_answer P p rr now = Some (p\<lparr>pl_cache := c\<rparr>, acts) \<and>
    reachable cache_init cache_step c \<and> (\<not> pl_sink p \<longrightarrow> acts = [])"
proof -
  have acts: "\<exists>acts. snapshot_actions P (p\<lparr>pl_cache := c\<rparr>) emit names = Some acts \<and> (\<not> pl_sink p \<longrightarrow> acts = [])"
    for c emit names
    using snapshot_actions_total [of P "p\<lparr>pl_cache := c\<rparr>" emit names] assms(1)
    by (simp add: matchers_return_def)
  have addr: "\<exists>c acts. handle_address_record P p rr k kind now = Some (p\<lparr>pl_cache := c\<rparr>, acts) \<and>
      reachable cache_init cache_step c \<and> (\<not> pl_sink p \<longrightarrow> acts = [])" for k kind
  proof (cases "length (rdata rr) \<noteq> k \<or> (\<exists>e. mt_dns_name_to_string (rr_name rr) 1100 = Inl e)")
    case True
    then have "handle_address_record P p rr k kind now = Some (p, [])"
      by (auto simp: handle_address_record_def)
    then show ?thesis using assms(2) by (intro exI [of _ "pl_cache p"] exI [of _ "[]"]) simp
  next
    case False
    then obtain s where s: "mt_dns_name_to_string (rr_name rr) 1100 = Inr s" "length (rdata rr) = k"
      by (cases "mt_dns_name_to_string (rr_name rr) 1100") auto
    let ?c = "mt_cache_add_address (pl_cache p) (trim_fqdn s) (rdata rr) (rr_ttl rr + pl_additional_ttl p) now"
    have "reachable cache_init cache_step ?c" by (rule reach_step [OF assms(2)]) (rule cache_step.intros)
    with s acts [of ?c] show ?thesis
      by (intro exI [of _ ?c]) (simp add: handle_address_record_def Let_def)
  qed
  have cname: "\<exists>c acts. handle_cname_record P p rr now = Some (p\<lparr>pl_cache := c\<rparr>, acts) \<and>
      reachable cache_init cache_step c \<and> (\<not> pl_sink p \<longrightarrow> acts = [])"
  proof (cases "(\<exists>e. mt_dns_name_to_string (rr_name rr) 1100 = Inl e) \<or> (\<exists>e. mt_dns_name_to_string (rdata rr) 1100 = Inl e)")
    case True
    then have "handle_cname_record P p rr now = Some (p, [])"
      by (auto simp: handle_cname_record_def split: sum.splits)
    then show ?thesis using assms(2) by (intro exI [of _ "pl_cache p"] exI [of _ "[]"]) simp
  next
    case False
    then obtain s t where s: "mt_dns_name_to_string (rr_name rr) 1100 = Inr s" "mt_dns_name_to_string (rdata rr) 1100 = Inr t"
      by (cases "mt_dns_name_to_string (rr_name rr) 1100"; cases "mt_dns_name_to_string (rdata rr) 1100") auto
    let ?c = "mt_cache_add_alias (pl_cache p) (trim_fqdn s) (trim_fqdn t) (rr_ttl rr + pl_additional_ttl p) now"
    have "reachable cache_init cache_step ?c" by (rule reach_step [OF assms(2)]) (rule cache_step.intros)
    with s acts [of ?c] show ?thesis
      by (intro exI [of _ ?c]) (simp add: handle_cname_record_def Let_def)
  qed
  have other: "\<exists>c acts. Some (p, []) = Some (p\<lparr>pl_cache := c\<rparr>, acts :: mt_match_action list) \<and>
      reachable cache_init cache_step c \<and> (\<not> pl_sink p \<longrightarrow> acts = [])"
    using assms(2) by (intro exI [of _ "pl_cache p"] exI [of _ "[]"]) simp
  show ?thesis unfolding handle_answer_def using addr cname other by (simp del: ex_simps)
qed

text \<open>
  A whole response.  With matchers that return, every response is processed to its end: a
  response with a nonzero rcode changes nothing and yields no action; any other changes only the
  cache, which stays a reachable cache (so all its invariants hold), and without a sink there is
  no action.
\<close>

theorem pipeline_message_total:
  assumes "matchers_return P p" and "reachable cache_init cache_step (pl_cache p)"
  shows "\<exists>c acts. mt_dns_pipeline_handle_message P p msg now = Some (p\<lparr>pl_cache := c\<rparr>, acts) \<and>
    reachable cache_init cache_step c \<and>
    (msg_flags msg AND 0x000f \<noteq> 0 \<longrightarrow> c = pl_cache p \<and> acts = []) \<and> (\<not> pl_sink p \<longrightarrow> acts = [])"
proof -
  have "\<exists>c acts. handle_answers P now rrs p = Some (p\<lparr>pl_cache := c\<rparr>, acts) \<and>
      reachable cache_init cache_step c \<and> (\<not> pl_sink p \<longrightarrow> acts = [])" for rrs
    using assms
  proof (induction rrs arbitrary: p)
    case Nil
    then show ?case by (intro exI [of _ "pl_cache p"] exI [of _ "[]"]) simp
  next
    case (Cons rr rrs)
    from handle_answer_total [OF Cons.prems] obtain c1 a1 where
      1: "handle_answer P p rr now = Some (p\<lparr>pl_cache := c1\<rparr>, a1)"
      "reachable cache_init cache_step c1" "\<not> pl_sink p \<longrightarrow> a1 = []" by blast
    have "matchers_return P (p\<lparr>pl_cache := c1\<rparr>)" using Cons.prems(1) by (simp add: matchers_return_def)
    from Cons.IH [OF this] 1(2) obtain c2 a2 where
      "handle_answers P now rrs (p\<lparr>pl_cache := c1\<rparr>) = Some (p\<lparr>pl_cache := c2\<rparr>, a2)"
      "reachable cache_init cache_step c2" "\<not> pl_sink p \<longrightarrow> a2 = []" by auto
    with 1 show ?case by auto
  qed
  then obtain c acts where c: "handle_answers P now (answers msg) p = Some (p\<lparr>pl_cache := c\<rparr>, acts)"
    "reachable cache_init cache_step c" "\<not> pl_sink p \<longrightarrow> acts = []" by blast
  show ?thesis
  proof (cases "msg_flags msg AND 0x000f = 0")
    case True
    with c show ?thesis
      by (intro exI [of _ c] exI [of _ acts]) (simp add: mt_dns_pipeline_handle_message_def)
  next
    case False
    then have "mt_dns_pipeline_handle_message P p msg now = Some (p\<lparr>pl_cache := pl_cache p\<rparr>, [])"
      by (simp add: mt_dns_pipeline_handle_message_def)
    with assms(2) show ?thesis by blast
  qed
qed

theorem pipeline_message_total_witness:
  "let p = \<lparr>pl_cache = mt_cache_create 8, pl_additional_ttl = 3600, pl_sink = True, pl_snapshot = None\<rparr>;
       msg = \<lparr>msg_id = 1, msg_flags = 0x8183, questions = [], answers = [\<lparr>rr_name = [1, 97, 0], rtype = 1,
         rclass = 1, rr_ttl = 60, rdata = [10, 0, 0, 1]\<rparr>], authority = [], additional = []\<rparr>
   in \<exists>c acts. mt_dns_pipeline_handle_message literal_pcre2 p msg 0 = Some (p\<lparr>pl_cache := c\<rparr>, acts) \<and>
     reachable cache_init cache_step c \<and>
     (msg_flags msg AND 0x000f \<noteq> 0 \<longrightarrow> c = pl_cache p \<and> acts = []) \<and> (\<not> pl_sink p \<longrightarrow> acts = [])"
  unfolding Let_def
  by (rule pipeline_message_total) (simp_all add: matchers_return_def reachable_created)

end
