(* ===== verification/Dns_Proxy.thy ===== *)
theory Dns_Proxy
  imports Wire "HOL-Library.Multiset"
begin

text \<open>
  \<^verbatim>\<open>src/dns/proxy.c\<close>: the DNS proxy.  A request from a client, over UDP or TCP, becomes an exchange with the upstream server; the
  answer goes through the message parser, the hook of the program and, unless that is turned off, the removal of IPv6 addresses.

  Every callback of the event loop is a function of the proxy and the exchange it is called for; what the kernel answers is an argument.
  Its result is the proxy, the exchange unless it has ended, and what was sent.  \<open>None\<close> is undefined behaviour: a descriptor
  closed that is not open, a counter below zero, or a read outside a message.  Allocation succeeds, and so does a change of the events
  of a watch; the hook is there.
\<close>

section \<open>State\<close>

datatype up_cb = OnUpstream | OnUpstreamWritable
datatype cl_cb = OnTcpClientRead | OnClientWritable

text \<open>
  A descriptor stands with the callback it is watched with.  \<open>ex_client\<close> is the address of a UDP client with the destination it
  used; a length that is \<open>None\<close> is a buffer that is not allocated yet.  Of the buffers, the bytes read so far are kept.
\<close>

record 'c exchange =
  ex_is_tcp :: bool
  ex_upstream :: "(nat \<times> up_cb) option"
  ex_timer :: bool
  ex_connecting :: bool
  ex_req :: "u8 list"
  ex_req_len :: "nat option"
  ex_req_sent :: nat
  ex_client :: "'c option"
  ex_client_fd :: "(nat \<times> cl_cb) option"
  ex_len_buf :: "u8 list"
  ex_resp :: "u8 list"
  ex_resp_expected :: "nat option"
  ex_out :: "u8 list"
  ex_out_sent :: nat

text \<open>\<open>px_open\<close> are the descriptors that the proxy has open; the program does not keep this list.\<close>

record proxy =
  px_max :: nat
  px_no_fake_ptr :: bool
  px_no_drop_aaaa :: bool
  px_pool :: "nat list"
  px_pool_cap :: nat
  px_inflight :: nat
  px_dropped :: nat
  px_udp_fd :: "nat option"
  px_tcp_fd :: "nat option"
  px_open :: "nat list"

datatype 'c sent = To_client 'c "u8 list" | To_tcp_client nat "u8 list" | To_upstream nat "u8 list" | Hook mt_dns_msg bool

type_synonym 'c outcome = "(proxy \<times> 'c exchange option \<times> 'c sent list) option"

definition close_fd :: "nat \<Rightarrow> proxy \<Rightarrow> proxy option" where
  "close_fd fd p = (if fd \<in> set (px_open p) then Some (p\<lparr>px_open := remove1 fd (px_open p)\<rparr>) else None)"

section \<open>The pool of upstream sockets\<close>

definition pool_get :: "proxy \<Rightarrow> (nat \<times> proxy) option" where
  "pool_get p = (if px_pool p = [] then None else Some (last (px_pool p), p\<lparr>px_pool := butlast (px_pool p)\<rparr>))"

definition pool_put :: "nat \<Rightarrow> proxy \<Rightarrow> proxy option" where
  "pool_put fd p = (if length (px_pool p) < px_pool_cap p then Some (p\<lparr>px_pool := px_pool p @ [fd]\<rparr>) else close_fd fd p)"

fun close_all :: "nat list \<Rightarrow> proxy \<Rightarrow> proxy option" where
  "close_all [] p = Some p"
| "close_all (fd # fds) p = (case close_fd fd p of None \<Rightarrow> None | Some p \<Rightarrow> close_all fds p)"

definition pool_clear :: "proxy \<Rightarrow> proxy option" where
  "pool_clear p = map_option (\<lambda>p. p\<lparr>px_pool := []\<rparr>) (close_all (px_pool p) p)"

section \<open>The end of an exchange\<close>

definition end_upstream :: "bool \<Rightarrow> 'c exchange \<Rightarrow> proxy \<Rightarrow> proxy option" where
  "end_upstream pool_upstream ex p =
    (case ex_upstream ex of
       None \<Rightarrow> Some p
     | Some (fd, _) \<Rightarrow> if pool_upstream \<and> \<not> ex_is_tcp ex then pool_put fd p else close_fd fd p)"

definition end_client :: "'c exchange \<Rightarrow> proxy \<Rightarrow> proxy option" where
  "end_client ex p = (case ex_client_fd ex of None \<Rightarrow> Some p | Some (fd, _) \<Rightarrow> close_fd fd p)"

definition release_slot :: "proxy \<Rightarrow> proxy option" where
  "release_slot p = (if px_inflight p = 0 then None else Some (p\<lparr>px_inflight := px_inflight p - 1\<rparr>))"

definition exchange_finish :: "bool \<Rightarrow> 'c exchange \<Rightarrow> proxy \<Rightarrow> 'c sent list \<Rightarrow> 'c outcome" where
  "exchange_finish pool_upstream ex p outs =
    (case end_upstream pool_upstream ex p of
       None \<Rightarrow> None
     | Some p \<Rightarrow>
         (case end_client ex p of
            None \<Rightarrow> None
          | Some p \<Rightarrow> (case release_slot p of None \<Rightarrow> None | Some p \<Rightarrow> Some (p, None, outs))))"

section \<open>Delivering a response\<close>

text \<open>The two-byte length in front of a message on a TCP connection.\<close>

definition frame :: "u8 list \<Rightarrow> u8 list" where
  "frame m = [of_nat (length m div 256), of_nat (length m)] @ m"

definition deliver_response :: "proxy \<Rightarrow> 'c exchange \<Rightarrow> u8 list \<Rightarrow> 'c outcome" where
  "deliver_response p ex resp =
    (case mt_dns_msg_parse resp of
       None \<Rightarrow> None
     | Some (Inl _) \<Rightarrow> exchange_finish False ex p []
     | Some (Inr msg) \<Rightarrow>
         (case (if px_no_drop_aaaa p then Some (Inr resp) else mt_dns_msg_pack (mt_dns_msg_strip_aaaa msg)) of
            None \<Rightarrow> None
          | Some (Inl _) \<Rightarrow> exchange_finish False ex p [Hook msg (ex_is_tcp ex)]
          | Some (Inr out) \<Rightarrow>
              if ex_is_tcp ex
              then (case end_upstream False ex p of
                      None \<Rightarrow> None
                    | Some p \<Rightarrow>
                        Some (p, Some (ex\<lparr>ex_out := frame out, ex_out_sent := 0, ex_upstream := None\<rparr>), [Hook msg True]))
              else exchange_finish True ex p
                     ([Hook msg False] @ (case ex_client ex of None \<Rightarrow> [] | Some c \<Rightarrow> [To_client c out]))))"

definition on_timeout :: "proxy \<Rightarrow> 'c exchange \<Rightarrow> 'c outcome" where
  "on_timeout p ex = exchange_finish False (ex\<lparr>ex_timer := False\<rparr>) p []"

section \<open>Reading and writing\<close>

datatype net_in = Bytes "u8 list" | Closed
datatype fill_end = Full | Again | Broken

text \<open>
  The loop that reads until a buffer has \<open>want\<close> bytes; what is in the socket is a list of pieces as for the HTTP server, and the end of
  the list is \<^verbatim>\<open>EAGAIN\<close>.  A read of no bytes is the end of the stream.
\<close>

fun net_bytes :: "net_in list \<Rightarrow> nat" where
  "net_bytes [] = 0"
| "net_bytes (Bytes b # ins) = length b + 1 + net_bytes ins"
| "net_bytes (Closed # ins) = net_bytes ins"

function fill :: "nat \<Rightarrow> u8 list \<Rightarrow> net_in list \<Rightarrow> fill_end \<times> u8 list \<times> net_in list" where
  "fill want buf ins =
    (if length buf \<ge> want then (Full, buf, ins)
     else case ins of
       [] \<Rightarrow> (Again, buf, [])
     | Closed # rest \<Rightarrow> (Broken, buf, rest)
     | Bytes b # rest \<Rightarrow>
         if b = [] then (Broken, buf, rest)
         else let n = want - length buf
         in fill want (buf @ take n b) (if length b > n then Bytes (drop n b) # rest else rest))"
  by pat_completeness auto
termination
  by (relation "measure (\<lambda>(want, buf, ins). net_bytes ins)") auto

declare fill.simps [simp del]

definition be16 :: "u8 list \<Rightarrow> nat" where
  "be16 b = unat (b ! 0) * 256 + unat (b ! 1)"

text \<open>What \<^verbatim>\<open>send\<close> does, and the loop around it: it ends with everything sent, with \<^verbatim>\<open>EAGAIN\<close>, or with an error.\<close>

datatype net_out = Took nat | Refused

fun send_all :: "nat \<Rightarrow> nat \<Rightarrow> net_out list \<Rightarrow> fill_end \<times> nat" where
  "send_all len sent outs =
    (if sent \<ge> len then (Full, sent)
     else case outs of
       [] \<Rightarrow> (Again, sent)
     | Refused # _ \<Rightarrow> (Broken, sent)
     | Took n # outs \<Rightarrow> send_all len (sent + min n (len - sent)) outs)"

declare send_all.simps [simp del]

definition slice :: "nat \<Rightarrow> nat \<Rightarrow> u8 list \<Rightarrow> u8 list" where
  "slice i j xs = take (j - i) (drop i xs)"

section \<open>The upstream side\<close>

text \<open>A datagram or a stream from the upstream server; \<open>so_error\<close> is what \<^verbatim>\<open>getsockopt\<close> says about a connection in progress.\<close>

definition on_upstream :: "bool \<Rightarrow> bool \<Rightarrow> proxy \<Rightarrow> 'c exchange \<Rightarrow> net_in list \<Rightarrow> 'c outcome" where
  "on_upstream hup so_error p ex ins =
    (if hup then exchange_finish False ex p []
     else if ex_is_tcp ex \<and> ex_connecting ex
     then (if so_error then exchange_finish False ex p [] else Some (p, Some (ex\<lparr>ex_connecting := False\<rparr>), []))
     else if \<not> ex_is_tcp ex
     then (case ins of
             [] \<Rightarrow> Some (p, Some ex, [])
           | Closed # _ \<Rightarrow> exchange_finish False ex p []
           | Bytes b # _ \<Rightarrow> if b = [] then exchange_finish False ex p [] else deliver_response p ex (take MT_DNS_MAX_MSG b))
     else case fill 2 (ex_len_buf ex) ins of
       (Again, b, _) \<Rightarrow> Some (p, Some (ex\<lparr>ex_len_buf := b\<rparr>), [])
     | (Broken, b, _) \<Rightarrow> exchange_finish False ex p []
     | (Full, b, ins) \<Rightarrow>
         let want = (case ex_resp_expected ex of None \<Rightarrow> be16 b | Some n \<Rightarrow> n)
         in if ex_resp_expected ex = None \<and> (want = 0 \<or> want > 65535) then exchange_finish False ex p []
            else case fill want (ex_resp ex) ins of
              (Again, r, _) \<Rightarrow> Some (p, Some (ex\<lparr>ex_len_buf := b, ex_resp_expected := Some want, ex_resp := r\<rparr>), [])
            | (Broken, r, _) \<Rightarrow> exchange_finish False ex p []
            | (Full, r, _) \<Rightarrow> deliver_response p (ex\<lparr>ex_len_buf := b, ex_resp_expected := Some want, ex_resp := r\<rparr>) r)"

definition on_upstream_writable :: "bool \<Rightarrow> bool \<Rightarrow> bool \<Rightarrow> proxy \<Rightarrow> 'c exchange \<Rightarrow> net_out list \<Rightarrow> 'c outcome" where
  "on_upstream_writable hup so_error rearm_ok p ex outs =
    (if hup then exchange_finish False ex p []
     else if ex_is_tcp ex \<and> ex_connecting ex \<and> so_error then exchange_finish False ex p []
     else let ex = (if ex_is_tcp ex \<and> ex_connecting ex then ex\<lparr>ex_connecting := False\<rparr> else ex);
              r = send_all (length (ex_req ex)) (ex_req_sent ex) outs;
              ups = (case ex_upstream ex of None \<Rightarrow> [] | Some (fd, _) \<Rightarrow> [To_upstream fd (slice (ex_req_sent ex) (snd r) (ex_req ex))]);
              ex = ex\<lparr>ex_req_sent := snd r\<rparr>
          in case fst r of
               Again \<Rightarrow> Some (p, Some ex, ups)
             | Broken \<Rightarrow> exchange_finish False ex p ups
             | Full \<Rightarrow>
                 if \<not> rearm_ok then exchange_finish False ex p ups
                 else Some (p, Some (ex\<lparr>ex_upstream := map_option (\<lambda>(fd, _). (fd, OnUpstream)) (ex_upstream ex)\<rparr>), ups))"

definition on_client_writable :: "bool \<Rightarrow> proxy \<Rightarrow> 'c exchange \<Rightarrow> net_out list \<Rightarrow> 'c outcome" where
  "on_client_writable hup p ex outs =
    (if hup then exchange_finish False ex p []
     else let r = send_all (length (ex_out ex)) (ex_out_sent ex) outs;
              cls = (case ex_client_fd ex of None \<Rightarrow> [] | Some (fd, _) \<Rightarrow> [To_tcp_client fd (slice (ex_out_sent ex) (snd r) (ex_out ex))]);
              ex = ex\<lparr>ex_out_sent := snd r\<rparr>
          in case fst r of
               Again \<Rightarrow> Some (p, Some ex, cls)
             | _ \<Rightarrow> exchange_finish False ex p cls)"

text \<open>
  What the kernel answers while an exchange with the upstream server begins: the descriptor of a new socket, the result of \<^verbatim>\<open>connect\<close>
  (done, in progress, or failed), how many bytes of a datagram were taken (\<open>None\<close> is an error, nothing for \<^verbatim>\<open>EAGAIN\<close>), and whether the
  watch and the timer could be added.
\<close>

datatype connect_result = Connected | InProgress | Unreachable

record up_env =
  ue_socket :: "nat option"
  ue_connect :: connect_result
  ue_send :: "nat option"
  ue_add_fd :: bool
  ue_add_timer :: bool

definition open_fd :: "nat \<Rightarrow> proxy \<Rightarrow> proxy" where
  "open_fd fd p = p\<lparr>px_open := fd # px_open p\<rparr>"

definition add_deadline :: "up_env \<Rightarrow> proxy \<Rightarrow> 'c exchange \<Rightarrow> 'c sent list \<Rightarrow> 'c outcome" where
  "add_deadline E p ex outs =
    (if ue_add_timer E then Some (p, Some (ex\<lparr>ex_timer := True\<rparr>), outs) else exchange_finish False ex p outs)"

definition start_tcp :: "up_env \<Rightarrow> proxy \<Rightarrow> 'c exchange \<Rightarrow> 'c outcome" where
  "start_tcp E p ex =
    (let ex = ex\<lparr>ex_req := frame (ex_req ex), ex_req_len := Some (length (ex_req ex) + 2), ex_req_sent := 0\<rparr>
     in case ue_socket E of
          None \<Rightarrow> exchange_finish False ex p []
        | Some fd \<Rightarrow>
            let p = open_fd fd p; ex = ex\<lparr>ex_upstream := Some (fd, OnUpstreamWritable)\<rparr>
            in if ue_connect E = Unreachable then exchange_finish False ex p []
               else let ex = ex\<lparr>ex_connecting := (ue_connect E = InProgress)\<rparr>
                    in if \<not> ue_add_fd E then exchange_finish False ex p [] else add_deadline E p ex [])"

definition udp_send :: "up_env \<Rightarrow> nat \<Rightarrow> proxy \<Rightarrow> 'c exchange \<Rightarrow> 'c outcome" where
  "udp_send E fd p ex =
    (case ue_send E of
       None \<Rightarrow> exchange_finish False (ex\<lparr>ex_upstream := Some (fd, OnUpstream)\<rparr>) p []
     | Some n \<Rightarrow>
         let n = min n (length (ex_req ex));
             ex = ex\<lparr>ex_req_sent := n, ex_upstream := Some (fd, if n < length (ex_req ex) then OnUpstreamWritable else OnUpstream)\<rparr>;
             ups = [To_upstream fd (take n (ex_req ex))]
         in if \<not> ue_add_fd E then exchange_finish False ex p ups else add_deadline E p ex ups)"

definition start_udp :: "up_env \<Rightarrow> proxy \<Rightarrow> 'c exchange \<Rightarrow> 'c outcome" where
  "start_udp E p ex =
    (case pool_get p of
       Some (fd, p) \<Rightarrow> udp_send E fd p ex
     | None \<Rightarrow>
         (case ue_socket E of
            None \<Rightarrow> exchange_finish False ex p []
          | Some fd \<Rightarrow>
              if ue_connect E \<noteq> Connected
              then (case close_fd fd (open_fd fd p) of None \<Rightarrow> None | Some p \<Rightarrow> exchange_finish False ex p [])
              else udp_send E fd (open_fd fd p) ex))"

definition start_upstream :: "up_env \<Rightarrow> proxy \<Rightarrow> 'c exchange \<Rightarrow> 'c outcome" where
  "start_upstream E p ex =
    (let ex = ex\<lparr>ex_len_buf := [], ex_resp_expected := None, ex_resp := []\<rparr>
     in if ex_is_tcp ex then start_tcp E p ex else start_udp E p ex)"

section \<open>The client side\<close>

datatype request_disp = REQ_DROP | REQ_REPLIED_ASYNC | REQ_FORWARD

definition handle_request_common :: "proxy \<Rightarrow> 'c exchange \<Rightarrow> (request_disp \<times> 'c exchange \<times> 'c sent list) option" where
  "handle_request_common p ex =
    (case mt_dns_msg_parse (ex_req ex) of
       None \<Rightarrow> None
     | Some (Inl _) \<Rightarrow> Some (REQ_DROP, ex, [])
     | Some (Inr _) \<Rightarrow>
         if px_no_fake_ptr p then Some (REQ_FORWARD, ex, [])
         else case mt_dns_is_single_ptr_query (ex_req ex) of
           Fault \<Rightarrow> None
         | Reject \<Rightarrow> None
         | Got False \<Rightarrow> Some (REQ_FORWARD, ex, [])
         | Got True \<Rightarrow>
             (case mt_dns_make_fake_ptr_response (ex_req ex) of
                None \<Rightarrow> None
              | Some (Inl _) \<Rightarrow> Some (REQ_DROP, ex, [])
              | Some (Inr resp) \<Rightarrow>
                  if ex_is_tcp ex then Some (REQ_REPLIED_ASYNC, ex\<lparr>ex_out := frame resp\<rparr>, [])
                  else Some (REQ_DROP, ex, case ex_client ex of None \<Rightarrow> [] | Some c \<Rightarrow> [To_client c resp])))"

text \<open>One datagram from a client: the body of the loop of \<^verbatim>\<open>on_udp_readable\<close>.\<close>

definition udp_exchange :: "'c \<Rightarrow> u8 list \<Rightarrow> 'c exchange" where
  "udp_exchange client bytes =
    \<lparr>ex_is_tcp = False, ex_upstream = None, ex_timer = False, ex_connecting = False, ex_req = bytes, ex_req_len = Some (length bytes),
     ex_req_sent = 0, ex_client = Some client, ex_client_fd = None, ex_len_buf = [], ex_resp = [], ex_resp_expected = None,
     ex_out = [], ex_out_sent = 0\<rparr>"

definition on_udp_readable :: "up_env \<Rightarrow> 'c \<Rightarrow> u8 list \<Rightarrow> proxy \<Rightarrow> 'c outcome" where
  "on_udp_readable E client bytes p =
    (if px_inflight p \<ge> px_max p then Some (p\<lparr>px_dropped := px_dropped p + 1\<rparr>, None, [])
     else let ex = udp_exchange client (take MT_DNS_MAX_MSG bytes); p = p\<lparr>px_inflight := px_inflight p + 1\<rparr>
          in case handle_request_common p ex of
               None \<Rightarrow> None
             | Some (disp, ex, outs) \<Rightarrow>
                 if disp \<noteq> REQ_FORWARD then (case release_slot p of None \<Rightarrow> None | Some p \<Rightarrow> Some (p, None, outs))
                 else start_upstream E p ex)"

definition on_tcp_client_read :: "up_env \<Rightarrow> bool \<Rightarrow> bool \<Rightarrow> proxy \<Rightarrow> 'c exchange \<Rightarrow> net_in list \<Rightarrow> 'c outcome" where
  "on_tcp_client_read E hup rearm_ok p ex ins =
    (if hup then exchange_finish False ex p []
     else case fill 2 (ex_len_buf ex) ins of
       (Again, b, _) \<Rightarrow> Some (p, Some (ex\<lparr>ex_len_buf := b\<rparr>), [])
     | (Broken, b, _) \<Rightarrow> exchange_finish False ex p []
     | (Full, b, ins) \<Rightarrow>
         let want = (case ex_req_len ex of None \<Rightarrow> be16 b | Some n \<Rightarrow> n)
         in if ex_req_len ex = None \<and> (want = 0 \<or> want > 65535) then exchange_finish False ex p []
            else case fill want (ex_req ex) ins of
              (Again, r, _) \<Rightarrow> Some (p, Some (ex\<lparr>ex_len_buf := b, ex_req_len := Some want, ex_req := r\<rparr>), [])
            | (Broken, r, _) \<Rightarrow> exchange_finish False ex p []
            | (Full, r, _) \<Rightarrow>
                let ex = ex\<lparr>ex_len_buf := b, ex_req_len := Some want, ex_req := r,
                            ex_client_fd := map_option (\<lambda>(fd, _). (fd, OnClientWritable)) (ex_client_fd ex)\<rparr>
                in if \<not> rearm_ok then exchange_finish False ex p []
                   else case handle_request_common p ex of
                     None \<Rightarrow> None
                   | Some (REQ_DROP, ex, outs) \<Rightarrow> exchange_finish False ex p outs
                   | Some (REQ_REPLIED_ASYNC, ex, outs) \<Rightarrow> Some (p, Some ex, outs)
                   | Some (REQ_FORWARD, ex, outs) \<Rightarrow> start_upstream E p ex)"

definition tcp_exchange :: "nat \<Rightarrow> 'c exchange" where
  "tcp_exchange cfd =
    \<lparr>ex_is_tcp = True, ex_upstream = None, ex_timer = False, ex_connecting = False, ex_req = [], ex_req_len = None,
     ex_req_sent = 0, ex_client = None, ex_client_fd = Some (cfd, OnTcpClientRead), ex_len_buf = [], ex_resp = [],
     ex_resp_expected = None, ex_out = [], ex_out_sent = 0\<rparr>"

text \<open>One connection: the body of the loop of \<^verbatim>\<open>on_tcp_accept\<close>; \<open>add_ok\<close> says whether it could be watched.\<close>

definition on_tcp_accept :: "bool \<Rightarrow> nat \<Rightarrow> proxy \<Rightarrow> 'c outcome" where
  "on_tcp_accept add_ok cfd p =
    (let p = open_fd cfd p
     in if px_inflight p \<ge> px_max p
        then map_option (\<lambda>p. (p\<lparr>px_dropped := px_dropped p + 1\<rparr>, None, [])) (close_fd cfd p)
        else if \<not> add_ok then map_option (\<lambda>p. (p, None, [])) (close_fd cfd p)
        else Some (p\<lparr>px_inflight := px_inflight p + 1\<rparr>, Some (tcp_exchange cfd), []))"

section \<open>Creating the proxy\<close>

datatype family = AF_INET | AF_INET6

text \<open>
  \<^verbatim>\<open>parse_listen\<close>; \<open>pton\<close> is \<^verbatim>\<open>inet_pton\<close>.  The array for the text has 128 characters.
\<close>

definition unbracket :: "string \<Rightarrow> string" where
  "unbracket host = (if length host \<ge> 2 \<and> hd host = CHR ''['' \<and> last host = CHR '']'' then butlast (tl host) else host)"

definition parse_listen :: "(family \<Rightarrow> string \<Rightarrow> u8 list option) \<Rightarrow> string option \<Rightarrow> (family \<times> u8 list) option" where
  "parse_listen pton addr =
    (let host = unbracket (take 127 (case addr of None \<Rightarrow> ''0.0.0.0'' | Some a \<Rightarrow> a))
     in if CHR '':'' \<in> set host then map_option (\<lambda>a. (AF_INET6, a)) (pton AF_INET6 host)
        else map_option (\<lambda>a. (AF_INET, a)) (pton AF_INET host))"

record mt_dnsproxy_config =
  pc_listen_addr :: "string option"
  pc_upstream_addr :: "string option"
  pc_max_concurrent :: nat
  pc_max_idle_conns :: nat
  pc_disable_fake_ptr :: bool
  pc_disable_drop_aaaa :: bool

definition mt_dnsproxy_create ::
  "(family \<Rightarrow> string \<Rightarrow> u8 list option) \<Rightarrow> mt_dnsproxy_config \<Rightarrow> mt_err + (family \<times> u8 list \<times> proxy)" where
  "mt_dnsproxy_create pton cfg =
    (case parse_listen pton (pc_listen_addr cfg) of
       None \<Rightarrow> Inl MT_ERR_INVAL
     | Some _ \<Rightarrow>
         (case parse_listen pton (pc_upstream_addr cfg) of
            None \<Rightarrow> Inl MT_ERR_INVAL
          | Some (fam, upstream) \<Rightarrow>
              Inr (fam, upstream, \<lparr>px_max = pc_max_concurrent cfg, px_no_fake_ptr = pc_disable_fake_ptr cfg,
                px_no_drop_aaaa = pc_disable_drop_aaaa cfg, px_pool = [], px_pool_cap = pc_max_idle_conns cfg, px_inflight = 0,
                px_dropped = 0, px_udp_fd = None, px_tcp_fd = None, px_open = []\<rparr>)))"

text \<open>
  The listeners.  The kernel's answers: the descriptor of each socket or an error, \<^verbatim>\<open>bind\<close> (with \<^verbatim>\<open>listen\<close> for TCP), and what the
  event loop says.  A failure of the loop leaves both sockets to \<^verbatim>\<open>mt_dnsproxy_destroy\<close>.
\<close>

record listen_env =
  le_udp :: "c_errno + nat"
  le_udp_bind :: c_errno
  le_tcp :: "c_errno + nat"
  le_tcp_bind :: c_errno
  le_add_udp :: mt_err
  le_add_tcp :: mt_err

definition mt_dnsproxy_start :: "listen_env \<Rightarrow> bool \<Rightarrow> proxy \<Rightarrow> (mt_err \<times> proxy) option" where
  "mt_dnsproxy_start L addr_ok p =
    (if \<not> addr_ok then Some (MT_ERR_INVAL, p)
     else case le_udp L of
       Inl e \<Rightarrow> Some (mt_err_from_errno e, p)
     | Inr ufd \<Rightarrow>
         let p = open_fd ufd p
         in if le_udp_bind L \<noteq> E_NONE then map_option (Pair (mt_err_from_errno (le_udp_bind L))) (close_fd ufd p)
            else let p = p\<lparr>px_udp_fd := Some ufd\<rparr>
                 in case le_tcp L of
                      Inl e \<Rightarrow> map_option (\<lambda>p. (mt_err_from_errno e, p\<lparr>px_udp_fd := None\<rparr>)) (close_fd ufd p)
                    | Inr tfd \<Rightarrow>
                        let p = open_fd tfd p
                        in if le_tcp_bind L \<noteq> E_NONE
                           then (case close_fd tfd p of
                                   None \<Rightarrow> None
                                 | Some p \<Rightarrow> map_option (\<lambda>p. (mt_err_from_errno (le_tcp_bind L), p\<lparr>px_udp_fd := None\<rparr>)) (close_fd ufd p))
                           else let p = p\<lparr>px_tcp_fd := Some tfd\<rparr>
                                in Some (if le_add_udp L \<noteq> MT_OK then le_add_udp L else le_add_tcp L, p))"

definition close_listener :: "nat option \<Rightarrow> proxy \<Rightarrow> proxy option" where
  "close_listener fd p = (case fd of None \<Rightarrow> Some p | Some fd \<Rightarrow> close_fd fd p)"

definition mt_dnsproxy_destroy :: "proxy \<Rightarrow> proxy option" where
  "mt_dnsproxy_destroy p =
    (case close_listener (px_udp_fd p) p of
       None \<Rightarrow> None
     | Some p \<Rightarrow> (case close_listener (px_tcp_fd p) p of None \<Rightarrow> None | Some p \<Rightarrow> pool_clear p))"

definition mt_dnsproxy_set_disable_flags :: "bool \<Rightarrow> bool \<Rightarrow> proxy \<Rightarrow> proxy" where
  "mt_dnsproxy_set_disable_flags disable_fake_ptr disable_drop_aaaa p =
    p\<lparr>px_no_fake_ptr := disable_fake_ptr, px_no_drop_aaaa := disable_drop_aaaa\<rparr>"

section \<open>The events\<close>

text \<open>
  The exchanges that are going on, in some order.  A callback replaces its exchange or ends it.  New descriptors are not open yet.
\<close>

definition settle :: "nat \<Rightarrow> 'c exchange option \<Rightarrow> 'c exchange list \<Rightarrow> 'c exchange list" where
  "settle i r exs = (case r of Some ex \<Rightarrow> exs[i := ex] | None \<Rightarrow> take i exs @ drop (Suc i) exs)"

definition add_exchange :: "'c exchange option \<Rightarrow> 'c exchange list \<Rightarrow> 'c exchange list" where
  "add_exchange r exs = (case r of Some ex \<Rightarrow> exs @ [ex] | None \<Rightarrow> exs)"

definition fresh_env :: "up_env \<Rightarrow> proxy \<Rightarrow> bool" where
  "fresh_env E p \<longleftrightarrow> (case ue_socket E of None \<Rightarrow> True | Some fd \<Rightarrow> fd \<notin> set (px_open p))"

definition fresh_listen :: "listen_env \<Rightarrow> proxy \<Rightarrow> bool" where
  "fresh_listen L p \<longleftrightarrow> (\<forall>fd. le_udp L = Inr fd \<or> le_tcp L = Inr fd \<longrightarrow> fd \<notin> set (px_open p)) \<and>
    (\<forall>fd. le_udp L = Inr fd \<longrightarrow> le_tcp L \<noteq> Inr fd)"

inductive px_step :: "proxy \<times> 'c exchange list \<Rightarrow> proxy \<times> 'c exchange list \<Rightarrow> bool" where
  datagram: "fresh_env E p \<Longrightarrow> on_udp_readable E client bytes p = Some (p', r, outs) \<Longrightarrow> px_step (p, exs) (p', add_exchange r exs)"
| connection: "cfd \<notin> set (px_open p) \<Longrightarrow> on_tcp_accept add_ok cfd p = Some (p', r, outs) \<Longrightarrow> px_step (p, exs) (p', add_exchange r exs)"
| client_read: "i < length exs \<Longrightarrow> ex_client_fd (exs ! i) = Some (fd, OnTcpClientRead) \<Longrightarrow> fresh_env E p \<Longrightarrow>
    on_tcp_client_read E hup rearm_ok p (exs ! i) ins = Some (p', r, outs) \<Longrightarrow> px_step (p, exs) (p', settle i r exs)"
| client_write: "i < length exs \<Longrightarrow> ex_client_fd (exs ! i) = Some (fd, OnClientWritable) \<Longrightarrow> hup \<or> ex_out (exs ! i) \<noteq> [] \<Longrightarrow>
    on_client_writable hup p (exs ! i) sends = Some (p', r, outs) \<Longrightarrow> px_step (p, exs) (p', settle i r exs)"
| upstream_write: "i < length exs \<Longrightarrow> ex_upstream (exs ! i) = Some (fd, OnUpstreamWritable) \<Longrightarrow>
    on_upstream_writable hup so_error rearm_ok p (exs ! i) sends = Some (p', r, outs) \<Longrightarrow> px_step (p, exs) (p', settle i r exs)"
| upstream_read: "i < length exs \<Longrightarrow> ex_upstream (exs ! i) = Some (fd, OnUpstream) \<Longrightarrow>
    on_upstream hup so_error p (exs ! i) ins = Some (p', r, outs) \<Longrightarrow> px_step (p, exs) (p', settle i r exs)"
| deadline: "i < length exs \<Longrightarrow> ex_timer (exs ! i) \<Longrightarrow> on_timeout p (exs ! i) = Some (p', r, outs) \<Longrightarrow> px_step (p, exs) (p', settle i r exs)"
| start: "px_udp_fd p = None \<Longrightarrow> px_tcp_fd p = None \<Longrightarrow> fresh_listen L p \<Longrightarrow> mt_dnsproxy_start L addr_ok p = Some (e, p') \<Longrightarrow>
    px_step (p, exs) (p', exs)"
| flags: "px_step (p, exs) (mt_dnsproxy_set_disable_flags no_ptr no_aaaa p, exs)"

section \<open>Every descriptor has one owner\<close>

lemma parse_total:
  obtains e where "mt_dns_msg_parse b = Some (Inl e)" | m where "mt_dns_msg_parse b = Some (Inr m)" "msg_ok m"
  using parse_message_ok [of b] by (cases "parse_message b") (auto simp: mt_dns_msg_parse_def rd_result_def)

lemma strip_ok: "msg_ok m \<Longrightarrow> msg_ok (mt_dns_msg_strip_aaaa m)"
proof -
  assume m: "msg_ok m"
  have "length (filter (\<lambda>rr. rtype rr \<noteq> 28) (answers m)) \<le> length (answers m)" by simp
  then have "length (filter (\<lambda>rr. rtype rr \<noteq> 28) (answers m)) \<le> 65535" using m by (auto simp: msg_ok_def simp del: length_filter_le)
  then show ?thesis using m by (auto simp: strip_aaaa_exact msg_ok_def list_all_iff)
qed

lemma pack_ok: "msg_ok m \<Longrightarrow> mt_dns_msg_pack m = Some (if length (ser_msg m) > 65535 then Inl MT_ERR_LIMIT else Inr (ser_msg m))"
proof -
  assume "msg_ok m"
  then have "list_all (\<lambda>rr. length (rdata rr) \<le> 65535) (answers m @ authority m @ additional m)"
    using rdata_ok_length by (auto simp: msg_ok_def list_all_iff rr_ok_def)
  then show ?thesis using pack_ser [of m] by (simp add: MT_DNS_MAX_MSG_def)
qed

lemma single_ptr_total: "\<exists>b. mt_dns_is_single_ptr_query q = Got b"
proof (cases "length q < 12")
  case False
  then have "byte_at q k = Got (q ! k)" if "k < 12" for k using that by (simp add: byte_at_def)
  then obtain qd where "raw_u16 q 4 = Got qd" by (simp add: raw_u16_def)
  then show ?thesis
    using rd_name_ok [of q 12] rd_ok_u16 [of q "snd np" for np]
    by (auto simp: mt_dns_is_single_ptr_query_def MT_DNS_HEADER_LEN_def split: rd.splits) (metis rd_ok_simps(1))+
qed (auto simp: mt_dns_is_single_ptr_query_def MT_DNS_HEADER_LEN_def)

lemma fake_ptr_total: "mt_dns_is_single_ptr_query q = Got True \<Longrightarrow> mt_dns_make_fake_ptr_response q \<noteq> None"
  using fake_ptr_reply [of q] by auto

definition ex_fds :: "'c exchange \<Rightarrow> nat multiset" where
  "ex_fds ex = (case ex_upstream ex of None \<Rightarrow> {#} | Some (fd, _) \<Rightarrow> {#fd#}) + (case ex_client_fd ex of None \<Rightarrow> {#} | Some (fd, _) \<Rightarrow> {#fd#})"

text \<open>An exchange with the upstream server has a deadline; one for a UDP client always is one.\<close>

definition ex_ok :: "'c exchange \<Rightarrow> bool" where
  "ex_ok ex \<longleftrightarrow> (ex_upstream ex \<noteq> None \<longrightarrow> ex_timer ex) \<and> ex_is_tcp ex = (ex_client_fd ex \<noteq> None) \<and>
    (\<not> ex_is_tcp ex \<longrightarrow> ex_upstream ex \<noteq> None) \<and> (\<forall>fd. ex_client_fd ex = Some (fd, OnTcpClientRead) \<longrightarrow> ex_upstream ex = None)"

text \<open>\<open>F\<close> are the descriptors of the exchanges, \<open>n\<close> is their number.\<close>

definition listeners :: "proxy \<Rightarrow> nat multiset" where
  "listeners p = mset (List.map_filter id [px_udp_fd p, px_tcp_fd p])"

lemma listeners_simps [simp]:
  "listeners (p\<lparr>px_open := l\<rparr>) = listeners p" "listeners (p\<lparr>px_pool := l\<rparr>) = listeners p"
  "listeners (p\<lparr>px_inflight := n\<rparr>) = listeners p" "listeners (p\<lparr>px_dropped := n\<rparr>) = listeners p"
  "listeners (p\<lparr>px_no_fake_ptr := a, px_no_drop_aaaa := b\<rparr>) = listeners p"
  by (simp_all add: listeners_def)

definition owns :: "proxy \<Rightarrow> nat multiset \<Rightarrow> nat \<Rightarrow> bool" where
  "owns p F n \<longleftrightarrow> distinct (px_open p) \<and> mset (px_open p) = listeners p + mset (px_pool p) + F \<and> px_inflight p = n \<and> length (px_pool p) \<le> px_pool_cap p"

definition same_limits :: "proxy \<Rightarrow> proxy \<Rightarrow> bool" where
  "same_limits p q \<longleftrightarrow> px_max q = px_max p \<and> px_pool_cap q = px_pool_cap p"

definition good :: "proxy \<Rightarrow> nat multiset \<Rightarrow> nat \<Rightarrow> 'c outcome \<Rightarrow> bool" where
  "good p F n oc \<longleftrightarrow>
    (\<exists>q r outs. oc = Some (q, r, outs) \<and> same_limits p q \<and>
      (case r of None \<Rightarrow> owns q F n | Some ex \<Rightarrow> owns q (F + ex_fds ex) (Suc n) \<and> ex_ok ex))"

lemma close_fd_owns:
  assumes "owns p (add_mset fd F) n"
  shows "\<exists>q. close_fd fd p = Some q \<and> owns q F n \<and> same_limits p q"
proof -
  have "fd \<in># mset (px_open p)" using assms by (simp add: owns_def)
  then have fd: "fd \<in> set (px_open p)" by simp
  then have "mset (remove1 fd (px_open p)) = listeners p + mset (px_pool p) + F" using assms by (simp add: owns_def)
  then show ?thesis using assms fd by (simp add: close_fd_def owns_def same_limits_def distinct_remove1)
qed

lemma pool_put_owns:
  assumes "owns p (add_mset fd F) n"
  shows "\<exists>q. pool_put fd p = Some q \<and> owns q F n \<and> same_limits p q"
  using assms close_fd_owns [OF assms] by (auto simp: pool_put_def owns_def same_limits_def)

lemma end_upstream_owns:
  assumes "owns p (F + (case ex_upstream ex of None \<Rightarrow> {#} | Some (fd, _) \<Rightarrow> {#fd#})) n"
  shows "\<exists>q. end_upstream b ex p = Some q \<and> owns q F n \<and> same_limits p q"
  using assms close_fd_owns [of p _ F n] pool_put_owns [of p _ F n]
  by (cases "ex_upstream ex") (auto simp: end_upstream_def same_limits_def)

lemma end_client_owns:
  assumes "owns p (F + (case ex_client_fd ex of None \<Rightarrow> {#} | Some (fd, _) \<Rightarrow> {#fd#})) n"
  shows "\<exists>q. end_client ex p = Some q \<and> owns q F n \<and> same_limits p q"
  using assms close_fd_owns [of p _ F n] by (cases "ex_client_fd ex") (auto simp: end_client_def same_limits_def)

lemma same_limits_trans: "same_limits p q \<Longrightarrow> same_limits q r \<Longrightarrow> same_limits p r"
  by (simp add: same_limits_def)

lemma finish_good:
  assumes "owns p (F + ex_fds ex) (Suc n)"
  shows "good p F n (exchange_finish b ex p outs)"
proof -
  let ?u = "case ex_upstream ex of None \<Rightarrow> {#} | Some (fd, _) \<Rightarrow> {#fd#}" and ?c = "case ex_client_fd ex of None \<Rightarrow> {#} | Some (fd, _) \<Rightarrow> {#fd#}"
  have "owns p ((F + ?c) + ?u) (Suc n)" using assms by (simp add: ex_fds_def ac_simps)
  then obtain q1 where q1: "end_upstream b ex p = Some q1" "owns q1 (F + ?c) (Suc n)" "same_limits p q1"
    using end_upstream_owns [of p "F + ?c" ex] by blast
  then obtain q2 where q2: "end_client ex q1 = Some q2" "owns q2 F (Suc n)" "same_limits q1 q2"
    using end_client_owns [OF q1(2)] by blast
  have "release_slot q2 = Some (q2\<lparr>px_inflight := n\<rparr>)" "owns (q2\<lparr>px_inflight := n\<rparr>) F n" using q2(2) by (simp_all add: release_slot_def owns_def)
  moreover have "same_limits p (q2\<lparr>px_inflight := n\<rparr>)" using q1(3) q2(3) by (simp add: same_limits_def)
  ultimately show ?thesis by (simp add: exchange_finish_def q1(1) q2(1) good_def)
qed

lemma keep_good: "owns p (F + ex_fds ex) (Suc n) \<Longrightarrow> ex_ok ex \<Longrightarrow> good p F n (Some (p, Some ex, outs))"
  by (simp add: good_def same_limits_def)

lemma deliver_good:
  assumes "owns p (F + ex_fds ex) (Suc n)" "ex_ok ex"
  shows "good p F n (deliver_response p ex resp)"
proof (rule parse_total [of resp])
  fix e assume "mt_dns_msg_parse resp = Some (Inl e)"
  then show ?thesis using finish_good [OF assms(1)] by (simp add: deliver_response_def)
next
  fix m assume m: "mt_dns_msg_parse resp = Some (Inr m)" "msg_ok m"
  let ?u = "case ex_upstream ex of None \<Rightarrow> {#} | Some (fd, _) \<Rightarrow> {#fd#}" and ?c = "case ex_client_fd ex of None \<Rightarrow> {#} | Some (fd, _) \<Rightarrow> {#fd#}"
  have "owns p ((F + ?c) + ?u) (Suc n)" using assms(1) by (simp add: ex_fds_def ac_simps)
  then obtain q where q: "end_upstream False ex p = Some q" "owns q (F + ?c) (Suc n)" "same_limits p q"
    using end_upstream_owns [of p "F + ?c" ex] by blast
  have tcp: "good p F n (Some (q, Some (ex\<lparr>ex_out := o1, ex_out_sent := 0, ex_upstream := None\<rparr>), outs))" if "ex_is_tcp ex" for o1 outs
    using q assms(2) that by (simp add: good_def ex_fds_def ex_ok_def)
  show ?thesis
    using m pack_ok [OF strip_ok [OF m(2)]] finish_good [OF assms(1)] q(1) tcp
    by (cases "px_no_drop_aaaa p"; cases "ex_is_tcp ex"; cases "length (ser_msg (mt_dns_msg_strip_aaaa m)) > 65535")
      (simp_all add: deliver_response_def)
qed

lemma ex_simps [simp]:
  "ex_fds (ex\<lparr>ex_timer := t\<rparr>) = ex_fds ex" "ex_fds (ex\<lparr>ex_connecting := b\<rparr>) = ex_fds ex" "ex_fds (ex\<lparr>ex_len_buf := l\<rparr>) = ex_fds ex"
  "ex_fds (ex\<lparr>ex_resp := r\<rparr>) = ex_fds ex" "ex_fds (ex\<lparr>ex_resp_expected := e\<rparr>) = ex_fds ex" "ex_fds (ex\<lparr>ex_req := q\<rparr>) = ex_fds ex"
  "ex_fds (ex\<lparr>ex_req_len := ql\<rparr>) = ex_fds ex" "ex_fds (ex\<lparr>ex_req_sent := s\<rparr>) = ex_fds ex" "ex_fds (ex\<lparr>ex_out := w\<rparr>) = ex_fds ex"
  "ex_fds (ex\<lparr>ex_out_sent := ws\<rparr>) = ex_fds ex"
  "ex_fds (ex\<lparr>ex_upstream := map_option (\<lambda>(fd, _). (fd, cb)) (ex_upstream ex)\<rparr>) = ex_fds ex"
  "ex_fds (ex\<lparr>ex_client_fd := map_option (\<lambda>(fd, _). (fd, cb')) (ex_client_fd ex)\<rparr>) = ex_fds ex"
  "ex_ok (ex\<lparr>ex_connecting := b\<rparr>) = ex_ok ex" "ex_ok (ex\<lparr>ex_len_buf := l\<rparr>) = ex_ok ex"
  "ex_ok (ex\<lparr>ex_resp := r\<rparr>) = ex_ok ex" "ex_ok (ex\<lparr>ex_resp_expected := e\<rparr>) = ex_ok ex" "ex_ok (ex\<lparr>ex_req := q\<rparr>) = ex_ok ex"
  "ex_ok (ex\<lparr>ex_req_len := ql\<rparr>) = ex_ok ex" "ex_ok (ex\<lparr>ex_req_sent := s\<rparr>) = ex_ok ex" "ex_ok (ex\<lparr>ex_out := w\<rparr>) = ex_ok ex"
  "ex_ok (ex\<lparr>ex_out_sent := ws\<rparr>) = ex_ok ex"
  "ex_ok (ex\<lparr>ex_upstream := map_option (\<lambda>(fd, _). (fd, cb)) (ex_upstream ex)\<rparr>) = ex_ok ex"
  by (auto simp: ex_fds_def ex_ok_def split: option.splits)

lemma on_timeout_good: "owns p (F + ex_fds ex) (Suc n) \<Longrightarrow> good p F n (on_timeout p ex)"
  unfolding on_timeout_def by (rule finish_good) simp

lemma on_upstream_good:
  assumes "owns p (F + ex_fds ex) (Suc n)" "ex_ok ex"
  shows "good p F n (on_upstream hup so_error p ex ins)"
proof -
  note fin = finish_good [OF assms(1)]
  obtain f1 b ins1 where f1: "fill 2 (ex_len_buf ex) ins = (f1, b, ins1)" by (rule prod_cases3)
  define want where "want = (case ex_resp_expected ex of None \<Rightarrow> be16 b | Some n \<Rightarrow> n)"
  obtain f2 r ins2 where f2: "fill want (ex_resp ex) ins1 = (f2, r, ins2)" by (rule prod_cases3)
  have k: "good p F n (Some (p, Some (ex\<lparr>ex_connecting := False\<rparr>), []))" "good p F n (Some (p, Some ex, []))"
    "good p F n (Some (p, Some (ex\<lparr>ex_len_buf := b\<rparr>), []))"
    "good p F n (Some (p, Some (ex\<lparr>ex_len_buf := b, ex_resp_expected := Some want, ex_resp := r\<rparr>), []))"
    using assms by (simp_all add: keep_good)
  have d: "good p F n (deliver_response p ex x)"
    "good p F n (deliver_response p (ex\<lparr>ex_len_buf := b, ex_resp_expected := Some want, ex_resp := r\<rparr>) x)" for x
    using assms by (simp_all add: deliver_good)
  have udp: "good p F n (case ins of [] \<Rightarrow> Some (p, Some ex, []) | Closed # _ \<Rightarrow> exchange_finish False ex p []
      | Bytes b # _ \<Rightarrow> if b = [] then exchange_finish False ex p [] else deliver_response p ex (take MT_DNS_MAX_MSG b))"
    using fin k(2) d(1) by (cases ins; cases "hd ins") auto
  show ?thesis
    using fin k d udp by (cases f1; cases f2) (auto simp: on_upstream_def f1 f2 want_def [symmetric] Let_def)
qed

lemma on_upstream_writable_good:
  assumes "owns p (F + ex_fds ex) (Suc n)" "ex_ok ex"
  shows "good p F n (on_upstream_writable hup so_error rearm_ok p ex outs)"
proof -
  define ex1 where "ex1 = (if ex_is_tcp ex \<and> ex_connecting ex then ex\<lparr>ex_connecting := False\<rparr> else ex)"
  define r where "r = send_all (length (ex_req ex1)) (ex_req_sent ex1) outs"
  have e1: "ex_fds ex1 = ex_fds ex" "ex_ok ex1" using assms(2) by (simp_all add: ex1_def)
  have fin: "good p F n (exchange_finish False (ex1\<lparr>ex_req_sent := snd r\<rparr>) p o1)" "good p F n (exchange_finish False ex p o1)" for o1
    using assms(1) e1 by (simp_all add: finish_good)
  have k: "good p F n (Some (p, Some (ex1\<lparr>ex_req_sent := snd r\<rparr>), o1))" for o1 using assms(1) e1 by (simp add: keep_good)
  have "ex_fds (ex1\<lparr>ex_req_sent := snd r, ex_upstream := map_option (\<lambda>(fd, _). (fd, OnUpstream)) (ex_upstream (ex1\<lparr>ex_req_sent := snd r\<rparr>))\<rparr>) = ex_fds ex"
    "ex_ok (ex1\<lparr>ex_req_sent := snd r, ex_upstream := map_option (\<lambda>(fd, _). (fd, OnUpstream)) (ex_upstream (ex1\<lparr>ex_req_sent := snd r\<rparr>))\<rparr>)"
    using e1 by (simp_all only: ex_simps)
  then have k2: "good p F n (Some (p, Some (ex1\<lparr>ex_req_sent := snd r, ex_upstream := map_option (\<lambda>(fd, _). (fd, OnUpstream)) (ex_upstream (ex1\<lparr>ex_req_sent := snd r\<rparr>))\<rparr>), o1))" for o1
    using assms(1) by (simp add: keep_good)
  show ?thesis
    unfolding on_upstream_writable_def Let_def ex1_def [symmetric] r_def [symmetric]
    using fin k k2 by (cases "fst r") auto
qed

lemma on_client_writable_good:
  assumes "owns p (F + ex_fds ex) (Suc n)" "ex_ok ex"
  shows "good p F n (on_client_writable hup p ex outs)"
proof -
  define r where "r = send_all (length (ex_out ex)) (ex_out_sent ex) outs"
  have "good p F n (exchange_finish False (ex\<lparr>ex_out_sent := snd r\<rparr>) p o1)" "good p F n (exchange_finish False ex p o1)"
    "good p F n (Some (p, Some (ex\<lparr>ex_out_sent := snd r\<rparr>), o1))" for o1
    using assms by (simp_all add: finish_good keep_good)
  then show ?thesis
    unfolding on_client_writable_def Let_def r_def [symmetric] by (cases "fst r") auto
qed

lemma good_from: "good q F n oc \<Longrightarrow> same_limits p q \<Longrightarrow> good p F n oc"
  by (auto simp: good_def intro: same_limits_trans)

lemma open_fd_owns: "owns p F n \<Longrightarrow> fd \<notin> set (px_open p) \<Longrightarrow> owns (open_fd fd p) (add_mset fd F) n \<and> same_limits p (open_fd fd p)"
  by (simp add: owns_def open_fd_def same_limits_def)

lemma pool_get_owns:
  assumes "owns p F n" "pool_get p = Some (fd, q)"
  shows "owns q (add_mset fd F) n \<and> same_limits p q"
proof -
  have "px_pool p \<noteq> []" "fd = last (px_pool p)" "q = p\<lparr>px_pool := butlast (px_pool p)\<rparr>"
    using assms(2) by (auto simp: pool_get_def split: if_splits)
  then have "mset (px_pool p) = add_mset fd (mset (butlast (px_pool p)))"
    by (metis append_butlast_last_id mset_append add_mset_add_single mset_single_iff_right)
  then show ?thesis using assms \<open>q = _\<close> by (auto simp: owns_def same_limits_def)
qed

lemma ex_fds_upstream: "ex_upstream ex = None \<Longrightarrow> ex_fds (ex\<lparr>ex_upstream := Some (fd, cb)\<rparr>) = add_mset fd (ex_fds ex)"
  by (simp add: ex_fds_def)

text \<open>An exchange whose request is complete, before it has an upstream socket.\<close>

definition ex_ready :: "'c exchange \<Rightarrow> bool" where
  "ex_ready ex \<longleftrightarrow> ex_upstream ex = None \<and> ex_is_tcp ex = (ex_client_fd ex \<noteq> None) \<and>
    (\<forall>fd. ex_client_fd ex \<noteq> Some (fd, OnTcpClientRead))"

lemma add_deadline_good:
  assumes "owns p (F + ex_fds ex) (Suc n)" "ex_is_tcp ex = (ex_client_fd ex \<noteq> None)" "ex_upstream ex \<noteq> None"
    and "\<forall>fd. ex_client_fd ex \<noteq> Some (fd, OnTcpClientRead)"
  shows "good p F n (add_deadline E p ex outs)"
  using assms finish_good [OF assms(1)] by (auto simp: add_deadline_def ex_ok_def intro!: keep_good)

lemma udp_send_good:
  assumes "owns p (F + add_mset fd (ex_fds ex)) (Suc n)" "ex_ready ex"
  shows "good p F n (udp_send E fd p ex)"
proof -
  have f: "ex_fds (ex\<lparr>ex_upstream := Some (fd, cb)\<rparr>) = add_mset fd (ex_fds ex)"
    "ex_fds (ex\<lparr>ex_req_sent := k, ex_upstream := Some (fd, cb)\<rparr>) = add_mset fd (ex_fds ex)" for cb k
    using assms(2) by (simp_all add: ex_fds_def ex_ready_def)
  have "good p F n (exchange_finish False (ex\<lparr>ex_upstream := Some (fd, cb)\<rparr>) p o1)"
    "good p F n (exchange_finish False (ex\<lparr>ex_req_sent := k, ex_upstream := Some (fd, cb)\<rparr>) p o1)"
    "good p F n (add_deadline E p (ex\<lparr>ex_req_sent := k, ex_upstream := Some (fd, cb)\<rparr>) o1)" for cb k o1
    using assms by (auto simp: f ex_ready_def intro!: finish_good add_deadline_good)
  then show ?thesis by (cases "ue_send E") (simp_all add: udp_send_def Let_def)
qed

lemma start_upstream_good:
  assumes "owns p (F + ex_fds ex) (Suc n)" "ex_ready ex" "fresh_env E p"
  shows "good p F n (start_upstream E p ex)"
proof -
  define ex1 where "ex1 = ex\<lparr>ex_len_buf := [], ex_resp_expected := None, ex_resp := []\<rparr>"
  have e1: "owns p (F + ex_fds ex1) (Suc n)" "ex_ready ex1" using assms by (simp_all add: ex1_def ex_ready_def)
  have udp: "good p F n (start_udp E p ex1)"
  proof (cases "pool_get p")
    case (Some fq)
    obtain fd q where fq: "fq = (fd, q)" by (rule prod.exhaust)
    have q: "owns q (F + add_mset fd (ex_fds ex1)) (Suc n)" "same_limits p q" using pool_get_owns [OF e1(1)] Some fq by auto
    have "good p F n (udp_send E fd q ex1)" by (rule good_from [OF udp_send_good [OF q(1) e1(2)] q(2)])
    then show ?thesis by (simp add: start_udp_def Some fq)
  next
    case None
    show ?thesis
    proof (cases "ue_socket E")
      case s: (Some fd)
      then have "fd \<notin> set (px_open p)" using assms(3) by (simp add: fresh_env_def)
      then have o: "owns (open_fd fd p) (F + add_mset fd (ex_fds ex1)) (Suc n)" "same_limits p (open_fd fd p)"
        using open_fd_owns [OF e1(1)] by auto
      then obtain q where q: "close_fd fd (open_fd fd p) = Some q" "owns q (F + ex_fds ex1) (Suc n)" "same_limits p q"
        using close_fd_owns [of "open_fd fd p" fd "F + ex_fds ex1" "Suc n"] same_limits_trans by auto
      have "good p F n (exchange_finish False ex1 q [])" using good_from [OF finish_good [OF q(2)] q(3)] .
      moreover have "good p F n (udp_send E fd (open_fd fd p) ex1)" using good_from [OF udp_send_good [OF o(1) e1(2)] o(2)] .
      ultimately show ?thesis using None s q(1) by (simp add: start_udp_def)
    qed (use None finish_good [OF e1(1)] in \<open>simp add: start_udp_def\<close>)
  qed
  have tcp: "good p F n (start_tcp E p ex1)"
  proof -
    define ex2 where "ex2 = ex1\<lparr>ex_req := frame (ex_req ex1), ex_req_len := Some (length (ex_req ex1) + 2), ex_req_sent := 0\<rparr>"
    have e2: "owns p (F + ex_fds ex2) (Suc n)" "ex_ready ex2" using e1 by (simp_all add: ex2_def ex_ready_def)
    show ?thesis
    proof (cases "ue_socket E")
      case None
      then show ?thesis unfolding start_tcp_def ex2_def [symmetric] Let_def using finish_good [OF e2(1)] by simp
    next
      case (Some fd)
      then have "fd \<notin> set (px_open p)" using assms(3) by (simp add: fresh_env_def)
      then have o: "owns (open_fd fd p) (F + add_mset fd (ex_fds ex2)) (Suc n)" "same_limits p (open_fd fd p)"
        using open_fd_owns [OF e2(1)] by auto
      have f: "ex_fds (ex2\<lparr>ex_upstream := Some (fd, cb)\<rparr>) = add_mset fd (ex_fds ex2)"
        "ex_fds (ex2\<lparr>ex_upstream := Some (fd, cb), ex_connecting := b\<rparr>) = add_mset fd (ex_fds ex2)" for cb b
        using e2(2) by (simp_all add: ex_fds_def ex_ready_def)
      have "good p F n (exchange_finish False (ex2\<lparr>ex_upstream := Some (fd, cb)\<rparr>) (open_fd fd p) o1)"
        "good p F n (exchange_finish False (ex2\<lparr>ex_upstream := Some (fd, cb), ex_connecting := b\<rparr>) (open_fd fd p) o1)"
        "good p F n (add_deadline E (open_fd fd p) (ex2\<lparr>ex_upstream := Some (fd, cb), ex_connecting := b\<rparr>) o1)" for cb b o1
        using o e2(2) by (auto simp: f ex_ready_def intro!: good_from [OF _ o(2)] finish_good add_deadline_good)
      then show ?thesis unfolding start_tcp_def ex2_def [symmetric] Let_def using Some by simp
    qed
  qed
  show ?thesis using udp tcp by (simp add: start_upstream_def ex1_def [symmetric])
qed

lemma handle_request_total:
  "\<exists>disp ex' outs. handle_request_common p ex = Some (disp, ex', outs) \<and> ex_upstream ex' = ex_upstream ex \<and> ex_client_fd ex' = ex_client_fd ex \<and>
     ex_is_tcp ex' = ex_is_tcp ex \<and> ex_timer ex' = ex_timer ex \<and> (disp = REQ_REPLIED_ASYNC \<longrightarrow> ex_is_tcp ex) \<and> ex_req ex' = ex_req ex"
proof (rule parse_total [of "ex_req ex"])
  fix e assume "mt_dns_msg_parse (ex_req ex) = Some (Inl e)"
  then show ?thesis by (simp add: handle_request_common_def)
next
  fix m assume "mt_dns_msg_parse (ex_req ex) = Some (Inr m)"
  moreover obtain b where "mt_dns_is_single_ptr_query (ex_req ex) = Got b" using single_ptr_total by blast
  ultimately show ?thesis
    using fake_ptr_total [of "ex_req ex"] by (cases b) (auto simp: handle_request_common_def split: sum.splits)
qed

lemma on_udp_readable_good:
  assumes "owns p F n" "fresh_env E p"
  shows "good p F n (on_udp_readable E client bytes p)"
proof (cases "px_inflight p \<ge> px_max p")
  case True
  then show ?thesis using assms(1) by (simp add: on_udp_readable_def good_def owns_def same_limits_def)
next
  case False
  define ex where "ex = udp_exchange client (take MT_DNS_MAX_MSG bytes)"
  define p1 where "p1 = p\<lparr>px_inflight := px_inflight p + 1\<rparr>"
  obtain disp ex' outs where h: "handle_request_common p1 ex = Some (disp, ex', outs)" "ex_upstream ex' = None" "ex_client_fd ex' = None" "\<not> ex_is_tcp ex'"
    using handle_request_total [of p1 ex] by (auto simp: ex_def udp_exchange_def)
  have o: "owns p1 (F + ex_fds ex') (Suc n)" "same_limits p p1" "fresh_env E p1" "ex_ready ex'"
    using assms h by (simp_all add: p1_def owns_def ex_fds_def same_limits_def fresh_env_def ex_ready_def split: option.splits)
  have "good p F n (start_upstream E p1 ex')" by (rule good_from [OF start_upstream_good [OF o(1,4,3)] o(2)])
  moreover have "good p F n (case release_slot p1 of None \<Rightarrow> None | Some p \<Rightarrow> Some (p, None, outs))"
    using assms(1) by (simp add: release_slot_def p1_def good_def owns_def same_limits_def)
  ultimately show ?thesis
    unfolding on_udp_readable_def Let_def ex_def [symmetric] p1_def [symmetric] using False h(1) by simp
qed

lemma on_tcp_accept_good:
  assumes "owns p F n" "cfd \<notin> set (px_open p)"
  shows "good p F n (on_tcp_accept add_ok cfd p)"
proof -
  have o: "owns (open_fd cfd p) (add_mset cfd F) n" "same_limits p (open_fd cfd p)" using open_fd_owns [OF assms] by auto
  obtain q where q: "close_fd cfd (open_fd cfd p) = Some q" "owns q F n" "same_limits p q"
    using close_fd_owns [OF o(1)] o(2) same_limits_trans by blast
  have "owns ((open_fd cfd p)\<lparr>px_inflight := px_inflight (open_fd cfd p) + 1\<rparr>) (F + ex_fds (tcp_exchange cfd)) (Suc n)"
    using o(1) by (simp add: owns_def ex_fds_def tcp_exchange_def)
  moreover have "ex_ok (tcp_exchange cfd)" by (simp add: ex_ok_def tcp_exchange_def)
  moreover have "owns (q\<lparr>px_dropped := k\<rparr>) F n" "same_limits p (q\<lparr>px_dropped := k\<rparr>)" for k using q(2,3) by (simp_all add: owns_def same_limits_def)
  ultimately show ?thesis
    using q o(2) by (auto simp: on_tcp_accept_def Let_def good_def same_limits_def)
qed

lemma on_tcp_client_read_good:
  assumes "owns p (F + ex_fds ex) (Suc n)" "ex_ok ex" "ex_client_fd ex = Some (fd, OnTcpClientRead)" "fresh_env E p"
  shows "good p F n (on_tcp_client_read E hup rearm_ok p ex ins)"
proof -
  note fin = finish_good [OF assms(1)]
  have up: "ex_upstream ex = None" using assms(2,3) by (simp add: ex_ok_def)
  obtain f1 b ins1 where f1: "fill 2 (ex_len_buf ex) ins = (f1, b, ins1)" by (rule prod_cases3)
  define want where "want = (case ex_req_len ex of None \<Rightarrow> be16 b | Some n \<Rightarrow> n)"
  obtain f2 r ins2 where f2: "fill want (ex_req ex) ins1 = (f2, r, ins2)" by (rule prod_cases3)
  have k: "good p F n (Some (p, Some (ex\<lparr>ex_len_buf := b\<rparr>), []))"
    "good p F n (Some (p, Some (ex\<lparr>ex_len_buf := b, ex_req_len := Some want, ex_req := r\<rparr>), []))"
    using assms(1,2) by (simp_all add: keep_good)
  define ex1 where "ex1 = ex\<lparr>ex_len_buf := b, ex_req_len := Some want, ex_req := r,
      ex_client_fd := map_option (\<lambda>(fd, _). (fd, OnClientWritable)) (ex_client_fd ex)\<rparr>"
  obtain disp ex' outs where h: "handle_request_common p ex1 = Some (disp, ex', outs)" "ex_upstream ex' = None"
      "ex_client_fd ex' = Some (fd, OnClientWritable)" "ex_is_tcp ex' = ex_is_tcp ex"
    using handle_request_total [of p ex1] assms(3) up by (auto simp: ex1_def)
  have "ex_fds ex1 = ex_fds ex" by (simp add: ex1_def ex_fds_def split: option.splits)
  then have d1: "good p F n (exchange_finish False ex1 p [])" using finish_good [of p F ex1 n] assms(1) by simp
  have tcp: "ex_is_tcp ex" using assms(2,3) by (simp add: ex_ok_def)
  have o: "owns p (F + ex_fds ex') (Suc n)" "ex_ready ex'" "ex_ok ex'"
    using assms(1,3) up h tcp by (simp_all add: ex_fds_def ex_ready_def ex_ok_def)
  have d: "good p F n (exchange_finish False ex' p outs)" "good p F n (Some (p, Some ex', outs))" "good p F n (start_upstream E p ex')"
    using finish_good [OF o(1)] keep_good [OF o(1,3)] start_upstream_good [OF o(1,2) assms(4)] by simp_all
  show ?thesis
    using fin k d d1 h(1)
    by (cases f1; cases f2; cases disp) (simp_all add: on_tcp_client_read_def f1 f2 want_def [symmetric] ex1_def [symmetric] Let_def)
qed

lemma start_total:
  assumes "px_udp_fd p = None" "px_tcp_fd p = None" "fresh_listen L p" "distinct (px_open p)"
  shows "\<exists>e q. mt_dnsproxy_start L addr_ok p = Some (e, q) \<and> distinct (px_open q) \<and> mset (px_open q) = listeners q + mset (px_open p) \<and>
    px_pool q = px_pool p \<and> px_inflight q = px_inflight p \<and> same_limits p q"
  using assms
  by (auto simp: mt_dnsproxy_start_def fresh_listen_def Let_def open_fd_def close_fd_def listeners_def map_filter_simps same_limits_def
      split: sum.splits)

lemma start_owns:
  assumes "owns p F n" "px_udp_fd p = None" "px_tcp_fd p = None" "fresh_listen L p" "mt_dnsproxy_start L addr_ok p = Some (e, q)"
  shows "owns q F n \<and> same_limits p q"
  using assms(1) start_total [OF assms(2-4), of addr_ok] assms(2,3,5)
  by (auto simp: owns_def same_limits_def listeners_def map_filter_simps)

definition px_init :: "(family \<Rightarrow> string \<Rightarrow> u8 list option) \<Rightarrow> mt_dnsproxy_config \<Rightarrow> proxy \<times> 'c exchange list \<Rightarrow> bool" where
  "px_init pton cfg s \<longleftrightarrow> snd s = [] \<and> (\<exists>fam up. mt_dnsproxy_create pton cfg = Inr (fam, up, fst s))"

definition px_inv :: "mt_dnsproxy_config \<Rightarrow> proxy \<times> 'c exchange list \<Rightarrow> bool" where
  "px_inv cfg s \<longleftrightarrow> (case s of (p, exs) \<Rightarrow>
     px_max p = pc_max_concurrent cfg \<and> px_pool_cap p = pc_max_idle_conns cfg \<and>
     owns p (\<Sum>ex\<leftarrow>exs. ex_fds ex) (length exs) \<and> length exs \<le> px_max p \<and> list_all ex_ok exs)"

lemma inv_at:
  assumes "px_inv cfg (p, exs)" "i < length exs"
  shows "owns p ((\<Sum>ex\<leftarrow>take i exs @ drop (Suc i) exs. ex_fds ex) + ex_fds (exs ! i)) (Suc (length exs - 1)) \<and> ex_ok (exs ! i)"
proof -
  have "exs = take i exs @ exs ! i # drop (Suc i) exs" using assms(2) by (simp add: id_take_nth_drop)
  then have "(\<Sum>ex\<leftarrow>exs. ex_fds ex) = (\<Sum>ex\<leftarrow>take i exs @ exs ! i # drop (Suc i) exs. ex_fds ex)" by simp
  then have "(\<Sum>ex\<leftarrow>exs. ex_fds ex) = (\<Sum>ex\<leftarrow>take i exs @ drop (Suc i) exs. ex_fds ex) + ex_fds (exs ! i)" by (simp add: ac_simps)
  moreover have "Suc (length exs - 1) = length exs" using assms(2) by simp
  ultimately show ?thesis using assms by (simp only: px_inv_def list_all_length prod.case)
qed

lemma inv_settle:
  assumes "px_inv cfg (p, exs)" "i < length exs"
    and "good p (\<Sum>ex\<leftarrow>take i exs @ drop (Suc i) exs. ex_fds ex) (length exs - 1) (Some (q, r, outs))"
  shows "px_inv cfg (q, settle i r exs)"
proof (cases r)
  case None
  then show ?thesis
    using assms by (auto simp: px_inv_def good_def same_limits_def settle_def list_all_iff dest!: in_set_takeD in_set_dropD)
next
  case (Some ex)
  have "exs[i := ex] = take i exs @ ex # drop (Suc i) exs" using assms(2) by (simp add: upd_conv_take_nth_drop)
  then have "(\<Sum>ex\<leftarrow>exs[i := ex]. ex_fds ex) = (\<Sum>ex\<leftarrow>take i exs @ drop (Suc i) exs. ex_fds ex) + ex_fds ex" by (simp add: ac_simps)
  moreover have "list_all ex_ok (exs[i := ex])"
    using assms(1,3) Some by (auto simp: px_inv_def good_def list_all_iff dest!: set_update_subset_insert [THEN subsetD])
  moreover have "Suc (length exs - Suc 0) = length exs" using assms(2) by simp
  ultimately show ?thesis
    using assms Some by (simp add: px_inv_def good_def same_limits_def settle_def del: Suc_pred)
qed

lemma inv_callback:
  assumes "px_inv cfg (p, exs)" "i < length exs" "oc = Some (q, r, outs)"
    and "\<And>F n. owns p (F + ex_fds (exs ! i)) (Suc n) \<Longrightarrow> ex_ok (exs ! i) \<Longrightarrow> good p F n oc"
  shows "px_inv cfg (q, settle i r exs)"
  using inv_at [OF assms(1,2)] assms(4) by (intro inv_settle [OF assms(1,2), of q r outs]) (simp add: assms(3))

lemma inv_add:
  assumes "px_inv cfg (p, exs)" "good p (\<Sum>ex\<leftarrow>exs. ex_fds ex) (length exs) (Some (q, r, outs))" "r \<noteq> None \<longrightarrow> length exs < px_max p"
  shows "px_inv cfg (q, add_exchange r exs)"
  using assms by (cases r) (auto simp: px_inv_def good_def same_limits_def add_exchange_def ac_simps)

lemma udp_new: "on_udp_readable E client bytes p = Some (q, r, outs) \<Longrightarrow> r \<noteq> None \<Longrightarrow> px_inflight p < px_max p"
  and tcp_new: "on_tcp_accept add_ok cfd p = Some (q, r, outs) \<Longrightarrow> r \<noteq> None \<Longrightarrow> px_inflight p < px_max p"
  by (auto simp: on_udp_readable_def on_tcp_accept_def open_fd_def Let_def split: if_splits)

interpretation px: invariant_system "px_init pton cfg" px_step "px_inv cfg" for pton cfg
proof (unfold_locales, goal_cases)
  case (1 s)
  then show ?case
    by (cases s) (auto simp: px_init_def px_inv_def mt_dnsproxy_create_def owns_def listeners_def map_filter_simps split: option.splits)
next
  case (2 s t)
  from 2(2,1) show ?case
  proof (induction rule: px_step.cases)
    case (datagram E p client bytes p' r outs exs)
    then have "owns p (\<Sum>ex\<leftarrow>exs. ex_fds ex) (length exs)" by (simp add: px_inv_def)
    then show ?case using datagram on_udp_readable_good [of p _ _ E client bytes] udp_new [of E client bytes p p' r outs]
      by (auto simp: owns_def intro!: inv_add [of _ p exs p' r outs])
  next
    case (connection cfd p add_ok p' r outs exs)
    then have "owns p (\<Sum>ex\<leftarrow>exs. ex_fds ex) (length exs)" by (simp add: px_inv_def)
    moreover from this have "good p (\<Sum>ex\<leftarrow>exs. ex_fds ex) (length exs) (Some (p', r, outs))"
      using connection by (subst connection(4) [symmetric]) (rule on_tcp_accept_good, simp_all)
    ultimately show ?case using connection tcp_new [of add_ok cfd p p' r outs] by (auto simp: owns_def intro!: inv_add [of _ p exs p' r outs])
  next
    case (client_read i exs fd E p hup rearm_ok ins p' r outs)
    then show ?case by (auto intro!: on_tcp_client_read_good elim!: inv_callback)
  next
    case (client_write i exs fd hup p sends p' r outs)
    then show ?case by (auto intro!: on_client_writable_good elim!: inv_callback)
  next
    case (upstream_write i exs fd hup so_error rearm_ok p sends p' r outs)
    then show ?case by (auto intro!: on_upstream_writable_good elim!: inv_callback)
  next
    case (upstream_read i exs fd hup so_error p ins p' r outs)
    then show ?case by (auto intro!: on_upstream_good elim!: inv_callback)
  next
    case (deadline i exs p p' r outs)
    then show ?case by (auto intro!: on_timeout_good elim!: inv_callback)
  next
    case (start p L addr_ok e p' exs)
    then show ?case using start_owns [of p "\<Sum>ex\<leftarrow>exs. ex_fds ex" "length exs" L addr_ok e p'] by (auto simp: px_inv_def same_limits_def)
  next
    case (flags p exs no_ptr no_aaaa)
    then show ?case by (simp add: px_inv_def owns_def mt_dnsproxy_set_disable_flags_def)
  qed
qed

lemma close_all_spec:
  assumes "mset (px_open p) = mset fds + R" "distinct (px_open p)"
  shows "\<exists>q. close_all fds p = Some q \<and> mset (px_open q) = R \<and> px_pool q = px_pool p"
  using assms
proof (induction fds arbitrary: p)
  case (Cons fd fds)
  then have fd: "fd \<in> set (px_open p)" by (metis mset.simps(2) add_mset_add_single set_mset_mset union_iff union_single_eq_member add.commute)
  have "mset (px_open (p\<lparr>px_open := remove1 fd (px_open p)\<rparr>)) = mset fds + R" using Cons.prems(1) by simp
  from Cons.IH [OF this] show ?case using fd Cons.prems(2) by (auto simp: close_fd_def distinct_remove1)
qed simp

lemma destroy_spec:
  assumes "owns p F n"
  shows "\<exists>q. mt_dnsproxy_destroy p = Some q \<and> mset (px_open q) = F"
proof -
  define l where "l fd = (case fd of None \<Rightarrow> [] | Some fd \<Rightarrow> [fd])" for fd :: "nat option"
  have l: "listeners p = mset (l (px_udp_fd p)) + mset (l (px_tcp_fd p))"
    by (simp add: listeners_def map_filter_simps l_def split: option.splits)
  have c: "\<exists>q. close_listener fd p = Some q \<and> mset (px_open q) = R \<and> px_pool q = px_pool p \<and> px_tcp_fd q = px_tcp_fd p \<and> distinct (px_open q)"
    if "mset (px_open p) = mset (l fd) + R" "distinct (px_open p)" for fd R p
  proof (cases fd)
    case (Some x)
    then have m: "mset (px_open p) = add_mset x R" using that(1) by (simp add: l_def)
    then have "x \<in> set (px_open p)" by (metis set_mset_mset union_single_eq_member)
    then show ?thesis using m that(2) Some by (simp add: close_listener_def close_fd_def distinct_remove1)
  qed (use that in \<open>simp add: close_listener_def l_def\<close>)
  have "mset (px_open p) = mset (l (px_udp_fd p)) + (mset (l (px_tcp_fd p)) + (mset (px_pool p) + F))" "distinct (px_open p)"
    using assms l by (simp_all add: owns_def ac_simps)
  from c [OF this] obtain q where q: "close_listener (px_udp_fd p) p = Some q" "mset (px_open q) = mset (l (px_tcp_fd q)) + (mset (px_pool q) + F)"
      "distinct (px_open q)" "px_pool q = px_pool p" by auto
  from c [OF q(2,3)] obtain r where r: "close_listener (px_tcp_fd q) q = Some r" "mset (px_open r) = mset (px_pool r) + F" "distinct (px_open r)" by auto
  show ?thesis using close_all_spec [OF r(2,3)] by (auto simp: mt_dnsproxy_destroy_def q(1) r(1) pool_clear_def)
qed

lemma good_defined: "good p F n oc \<Longrightarrow> oc \<noteq> None"
  by (auto simp: good_def)

lemma inv_defined:
  assumes "px_inv cfg (p, exs)"
  shows "fresh_env E p \<Longrightarrow> on_udp_readable E client bytes p \<noteq> None"
    and "cfd \<notin> set (px_open p) \<Longrightarrow> on_tcp_accept add_ok cfd p \<noteq> None"
    and "ex \<in> set exs \<Longrightarrow> on_client_writable hup p ex sends \<noteq> None"
    and "ex \<in> set exs \<Longrightarrow> on_upstream_writable hup so_error rearm_ok p ex sends \<noteq> None"
    and "ex \<in> set exs \<Longrightarrow> on_upstream hup so_error p ex ins \<noteq> None"
    and "ex \<in> set exs \<Longrightarrow> fresh_env E p \<Longrightarrow> ex_client_fd ex = Some (fd, OnTcpClientRead) \<Longrightarrow> on_tcp_client_read E hup rearm_ok p ex ins \<noteq> None"
    and "ex \<in> set exs \<Longrightarrow> \<exists>q. on_timeout p ex = Some (q, None, []) \<and> px_inflight q = px_inflight p - 1"
proof -
  have o: "owns p (\<Sum>ex\<leftarrow>exs. ex_fds ex) (length exs)" using assms by (simp add: px_inv_def)
  have at: "\<exists>F. owns p (F + ex_fds ex) (Suc (length exs - 1)) \<and> ex_ok ex" if "ex \<in> set exs" for ex
    using that inv_at [OF assms] by (metis in_set_conv_nth)
  show "fresh_env E p \<Longrightarrow> on_udp_readable E client bytes p \<noteq> None" "cfd \<notin> set (px_open p) \<Longrightarrow> on_tcp_accept add_ok cfd p \<noteq> None"
    by (rule good_defined [OF on_udp_readable_good [OF o]] good_defined [OF on_tcp_accept_good [OF o]]; assumption)+
  have d: "oc \<noteq> None" if "ex \<in> set exs" "\<And>F. owns p (F + ex_fds ex) (Suc (length exs - 1)) \<Longrightarrow> ex_ok ex \<Longrightarrow> good p F (length exs - 1) oc" for oc
    using at [OF that(1)] that(2) good_defined by blast
  show "ex \<in> set exs \<Longrightarrow> on_client_writable hup p ex sends \<noteq> None"
    "ex \<in> set exs \<Longrightarrow> on_upstream_writable hup so_error rearm_ok p ex sends \<noteq> None"
    "ex \<in> set exs \<Longrightarrow> on_upstream hup so_error p ex ins \<noteq> None"
    "ex \<in> set exs \<Longrightarrow> fresh_env E p \<Longrightarrow> ex_client_fd ex = Some (fd, OnTcpClientRead) \<Longrightarrow> on_tcp_client_read E hup rearm_ok p ex ins \<noteq> None"
    by (rule d, assumption, (rule on_client_writable_good on_upstream_writable_good on_upstream_good on_tcp_client_read_good; assumption))+
  show "\<exists>q. on_timeout p ex = Some (q, None, []) \<and> px_inflight q = px_inflight p - 1" if ex: "ex \<in> set exs"
  proof -
    obtain F where F: "owns p (F + ex_fds ex) (Suc (length exs - 1))" using at [OF ex] by blast
    from on_timeout_good [OF F] obtain q r os where q: "on_timeout p ex = Some (q, r, os)" "r = None \<Longrightarrow> owns q F (length exs - 1)"
      by (auto simp: good_def split: option.split_asm)
    have "r = None" "os = []" using q(1) by (auto simp: on_timeout_def exchange_finish_def split: option.splits)
    then show ?thesis using q F by (simp add: owns_def)
  qed
qed

text \<open>
  C7.  The books of the DNS proxy.  In every state that any sequence of datagrams, connections, reads, writes, deadlines and changes of the
  flags reaches from a new proxy, whatever the kernel answers: the counter of exchanges is their number and at most the limit; the pool is
  at most as long as it may be; every open descriptor is a listener, in the pool or of one exchange, and only one of these; an exchange
  with an upstream socket has a deadline.  No callback then closes a descriptor that is not open, counts below zero or reads outside a
  message; a deadline ends its exchange and gives its slot back; and \<^verbatim>\<open>mt_dnsproxy_destroy\<close> leaves nothing open but what the exchanges
  hold.
\<close>

theorem proxy_accounts:
  fixes exs :: "'c exchange list"
  assumes "reachable (px_init pton cfg) px_step (p, exs)"
  shows "px_inflight p = length exs \<and> length exs \<le> pc_max_concurrent cfg \<and> length (px_pool p) \<le> pc_max_idle_conns cfg \<and>
    distinct (px_open p) \<and> mset (px_open p) = listeners p + mset (px_pool p) + (\<Sum>ex\<leftarrow>exs. ex_fds ex) \<and>
    (\<forall>ex\<in>set exs. ex_upstream ex \<noteq> None \<longrightarrow> ex_timer ex) \<and>
    (\<forall>E client bytes. fresh_env E p \<longrightarrow> on_udp_readable E (client :: 'c) bytes p \<noteq> None) \<and>
    (\<forall>cfd add_ok. cfd \<notin> set (px_open p) \<longrightarrow> (on_tcp_accept add_ok cfd p :: 'c outcome) \<noteq> None) \<and>
    (\<forall>ex\<in>set exs. \<forall>E fd hup rearm_ok ins. fresh_env E p \<longrightarrow> ex_client_fd ex = Some (fd, OnTcpClientRead) \<longrightarrow>
       on_tcp_client_read E hup rearm_ok p ex ins \<noteq> None) \<and>
    (\<forall>ex\<in>set exs. \<forall>hup so_error rearm_ok ins sends. on_client_writable hup p ex sends \<noteq> None \<and>
       on_upstream_writable hup so_error rearm_ok p ex sends \<noteq> None \<and> on_upstream hup so_error p ex ins \<noteq> None) \<and>
    (\<forall>ex\<in>set exs. \<exists>q. on_timeout p ex = Some (q, None, []) \<and> px_inflight q = px_inflight p - 1) \<and>
    (\<exists>q. mt_dnsproxy_destroy p = Some q \<and> mset (px_open q) = (\<Sum>ex\<leftarrow>exs. ex_fds ex))"
proof -
  note inv = px.reachable_inv [OF assms]
  have "owns p (\<Sum>ex\<leftarrow>exs. ex_fds ex) (length exs)" "length exs \<le> pc_max_concurrent cfg" "px_pool_cap p = pc_max_idle_conns cfg"
    "\<forall>ex\<in>set exs. ex_upstream ex \<noteq> None \<longrightarrow> ex_timer ex"
    using inv by (simp_all add: px_inv_def list_all_iff ex_ok_def)
  with inv_defined [OF inv] destroy_spec show ?thesis by (intro conjI allI ballI impI; simp add: owns_def)
qed

lemma finish_exact:
  assumes "owns p (F + ex_fds ex) (Suc n)"
  shows "\<exists>q. exchange_finish b ex p outs = Some (q, None, outs) \<and> owns q F n"
proof -
  from finish_good [OF assms, of b outs] obtain q r os where "exchange_finish b ex p outs = Some (q, r, os)" "case r of None \<Rightarrow> owns q F n | Some ex \<Rightarrow> True"
    by (auto simp: good_def split: option.splits)
  moreover from this(1) have "r = None" "os = outs" by (auto simp: exchange_finish_def split: option.splits)
  ultimately show ?thesis by simp
qed

lemma deliver_udp:
  assumes "owns p (F + ex_fds ex) (Suc n)" "\<not> ex_is_tcp ex" "ex_client ex = Some c" "mt_dns_msg_parse resp = Some (Inr msg)"
  shows "\<exists>q outs. deliver_response p ex resp = Some (q, None, outs) \<and> owns q F n \<and>
    (if px_no_drop_aaaa p then outs = [Hook msg False, To_client c resp]
     else if length (ser_msg (mt_dns_msg_strip_aaaa msg)) > 65535 then outs = [Hook msg False]
     else outs = [Hook msg False, To_client c (ser_msg (mt_dns_msg_strip_aaaa msg))])"
proof -
  have "msg_ok msg" using assms(4) by (cases rule: parse_total [of resp]) auto
  then have "msg_ok (mt_dns_msg_strip_aaaa msg)" by (rule strip_ok)
  from pack_ok [OF this] show ?thesis
    using finish_exact [OF assms(1), of True] finish_exact [OF assms(1), of False] assms(2-4)
    by (auto simp: deliver_response_def)
qed

lemma start_udp_ok:
  assumes "owns p F n" "fresh_env E p" "ue_socket E = Some fd0" "ue_connect E = Connected" "ue_send E = Some (length (ex_req ex))"
    and "ue_add_fd E" "ue_add_timer E" "ex_upstream ex = None"
  shows "\<exists>fd q. start_udp E p ex = Some (q, Some (ex\<lparr>ex_req_sent := length (ex_req ex), ex_upstream := Some (fd, OnUpstream), ex_timer := True\<rparr>),
      [To_upstream fd (ex_req ex)]) \<and> owns q (add_mset fd F) n \<and> px_no_drop_aaaa q = px_no_drop_aaaa p"
proof (cases "pool_get p")
  case None
  have "fd0 \<notin> set (px_open p)" using assms(2,3) by (simp add: fresh_env_def)
  then show ?thesis using None assms open_fd_owns [OF assms(1)] by (simp add: start_udp_def udp_send_def add_deadline_def open_fd_def)
next
  case (Some a)
  moreover obtain fd q where a: "a = (fd, q)" by (rule prod.exhaust)
  moreover have "owns q (add_mset fd F) n" using pool_get_owns [OF assms(1)] Some a by simp
  moreover have "px_no_drop_aaaa q = px_no_drop_aaaa p" using Some a by (auto simp: pool_get_def split: if_splits)
  ultimately show ?thesis using assms by (simp add: start_udp_def udp_send_def add_deadline_def)
qed

text \<open>
  C6.  A query over UDP, from the client and back.  While there is a slot, and the kernel gives what is asked of it, a request that is a
  DNS message, other than a single PTR question while these are answered locally, is sent upstream unchanged, under a deadline.  When any
  datagram that is a DNS message comes back on that socket, the hook gets the message, the client that asked gets an answer, and the slot
  is free again.  With the removal of IPv6 addresses turned off the answer is that datagram, byte for byte; else it is a message that parses
  to the same one without its answers of type AAAA, or nothing when this does not fit 65535 bytes without compression.
\<close>

theorem proxy_udp_exact:
  fixes exs :: "'c exchange list"
  assumes "reachable (px_init pton cfg) px_step (p, exs)" "length exs < pc_max_concurrent cfg"
    and "mt_dns_msg_parse req = Some (Inr m)" "length req \<le> 65535" "px_no_fake_ptr p \<or> mt_dns_is_single_ptr_query req = Got False"
    and "fresh_env E p" "ue_socket E = Some fd0" "ue_connect E = Connected" "ue_send E = Some (length req)" "ue_add_fd E" "ue_add_timer E"
    and "mt_dns_msg_parse resp = Some (Inr msg)" "length resp \<le> 65535"
  shows "\<exists>p1 ex fd p2 outs. on_udp_readable E (c :: 'c) req p = Some (p1, Some ex, [To_upstream fd req]) \<and> ex_timer ex \<and>
    ex_upstream ex = Some (fd, OnUpstream) \<and> px_inflight p1 = px_inflight p + 1 \<and>
    on_upstream False False p1 ex [Bytes resp] = Some (p2, None, outs) \<and> px_inflight p2 = px_inflight p \<and>
    (if px_no_drop_aaaa p then outs = [Hook msg False, To_client c resp]
     else let msg' = msg\<lparr>answers := filter (\<lambda>rr. rtype rr \<noteq> 28) (answers msg)\<rparr>
          in if length (ser_msg msg') > 65535 then outs = [Hook msg False]
             else \<exists>out. outs = [Hook msg False, To_client c out] \<and> mt_dns_msg_parse out = Some (Inr msg'))"
proof -
  note inv = px.reachable_inv [OF assms(1)]
  let ?F = "\<Sum>ex\<leftarrow>exs. ex_fds ex"
  define p0 where "p0 = p\<lparr>px_inflight := px_inflight p + 1\<rparr>"
  define ex where "ex = udp_exchange c req"
  have o: "owns p ?F (length exs)" "px_inflight p < px_max p" using inv assms(2) by (simp_all add: px_inv_def owns_def)
  then have o0: "owns p0 ?F (Suc (length exs))" "fresh_env E p0" using assms(6,7) by (simp_all add: p0_def owns_def fresh_env_def)
  have h: "handle_request_common p0 ex = Some (REQ_FORWARD, ex, [])"
    using assms(3,5) by (auto simp: handle_request_common_def ex_def udp_exchange_def p0_def)
  obtain fd p1 where s: "start_udp E p0 ex = Some (p1, Some (ex\<lparr>ex_req_sent := length (ex_req ex), ex_upstream := Some (fd, OnUpstream), ex_timer := True\<rparr>),
      [To_upstream fd (ex_req ex)])" "owns p1 (add_mset fd ?F) (Suc (length exs))" "px_no_drop_aaaa p1 = px_no_drop_aaaa p0"
    using start_udp_ok [OF o0 assms(7,8), of ex] assms(9-11) by (auto simp: ex_def udp_exchange_def)
  define ex1 where "ex1 = ex\<lparr>ex_req_sent := length (ex_req ex), ex_upstream := Some (fd, OnUpstream), ex_timer := True\<rparr>"
  have e1: "ex_upstream ex1 = Some (fd, OnUpstream)" "ex_timer ex1" "\<not> ex_is_tcp ex1" "ex_client ex1 = Some c" "ex_fds ex1 = {#fd#}"
    by (simp_all add: ex1_def ex_def udp_exchange_def ex_fds_def)
  have "on_udp_readable E c req p = Some (p1, Some ex1, [To_upstream fd req])"
    using o(2) h s(1) assms(4) unfolding p0_def ex_def ex1_def
    by (simp add: on_udp_readable_def MT_DNS_MAX_MSG_def start_upstream_def udp_exchange_def)
  moreover have "resp \<noteq> []" using assms(12) by (auto simp: mt_dns_msg_parse_def parse_message_def rd_result_def MT_DNS_HEADER_LEN_def)
  then have "on_upstream False False p1 ex1 [Bytes resp] = deliver_response p1 ex1 resp"
    using e1 assms(13) by (simp add: on_upstream_def MT_DNS_MAX_MSG_def)
  moreover
  have "owns p1 (?F + ex_fds ex1) (Suc (length exs))" using s(2) e1(5) by simp
  moreover from deliver_udp [OF this e1(3,4) assms(12)] obtain p2 outs where "deliver_response p1 ex1 resp = Some (p2, None, outs)" "px_inflight p2 = length exs"
    and outs: "if px_no_drop_aaaa p1 then outs = [Hook msg False, To_client c resp]
     else if length (ser_msg (mt_dns_msg_strip_aaaa msg)) > 65535 then outs = [Hook msg False]
     else outs = [Hook msg False, To_client c (ser_msg (mt_dns_msg_strip_aaaa msg))]" by (auto simp: owns_def)
  moreover note outs
  moreover have "px_inflight p1 = px_inflight p + 1" "px_inflight p = length exs" using s(2) o(1) by (simp_all add: owns_def)
  moreover have "mt_dns_msg_parse (ser_msg (mt_dns_msg_strip_aaaa msg)) = Some (Inr (mt_dns_msg_strip_aaaa msg))"
    if "length (ser_msg (mt_dns_msg_strip_aaaa msg)) \<le> 65535"
    using that parse_ser [of "mt_dns_msg_strip_aaaa msg"] strip_ok [of msg] assms(12)
    by (cases rule: parse_total [of resp]) (auto simp: mt_dns_msg_parse_def rd_result_def MT_DNS_MAX_MSG_def)
  ultimately show ?thesis using s(3) e1(1,2)
    by (intro exI [of _ p1] exI [of _ ex1] exI [of _ fd] exI [of _ p2] exI [of _ outs]) (auto simp: p0_def Let_def strip_aaaa_exact [symmetric])
qed

text \<open>
  Connections that send nothing.  Each takes a slot and has no deadline, so as many as the limit keep every query out, and nothing the
  proxy does by itself ends them: the deadline is armed only when a request goes upstream.
\<close>

lemma connections_reach:
  assumes "px_init pton cfg (p0, [] :: 'c exchange list)" "n \<le> pc_max_concurrent cfg"
  shows "\<exists>p exs. reachable (px_init pton cfg) px_step (p, exs :: 'c exchange list) \<and> length exs = n \<and>
    list_all (\<lambda>ex. \<not> ex_timer ex \<and> ex_upstream ex = None) exs"
  using assms(2)
proof (induction n)
  case 0
  then show ?case using assms(1) reach_init [of "px_init pton cfg", OF assms(1)] by (intro exI [of _ p0] exI [of _ "[]"]) simp
next
  case (Suc n)
  then obtain p and exs :: "'c exchange list" where r: "reachable (px_init pton cfg) px_step (p, exs)" "length exs = n"
    "list_all (\<lambda>ex. \<not> ex_timer ex \<and> ex_upstream ex = None) exs" by auto
  from px.reachable_inv [OF r(1)] r(2) Suc.prems have i: "px_inflight p < px_max p" by (simp add: px_inv_def owns_def)
  obtain cfd where c: "cfd \<notin> set (px_open p)" using ex_new_if_finite [OF infinite_UNIV_nat, of "set (px_open p)"] by auto
  have "on_tcp_accept True cfd p = Some ((open_fd cfd p)\<lparr>px_inflight := px_inflight p + 1\<rparr>, Some (tcp_exchange cfd), [])"
    using i by (simp add: on_tcp_accept_def open_fd_def)
  from px_step.connection [OF c this, of exs]
  have "px_step (p, exs) ((open_fd cfd p)\<lparr>px_inflight := px_inflight p + 1\<rparr>, exs @ [tcp_exchange cfd])" by (simp add: add_exchange_def)
  from reach_step [OF r(1) this] r(2,3) show ?case
    by (intro exI [of _ "(open_fd cfd p)\<lparr>px_inflight := px_inflight p + 1\<rparr>"] exI [of _ "exs @ [tcp_exchange cfd]"]) (simp add: tcp_exchange_def)
qed

lemma idle_connections_pin_slots:
  assumes "px_init pton cfg (p0, [] :: 'c exchange list)"
  shows "\<exists>p exs. reachable (px_init pton cfg) px_step (p, exs :: 'c exchange list) \<and>
    list_all (\<lambda>ex. \<not> ex_timer ex \<and> ex_upstream ex = None) exs \<and>
    (\<forall>E c bytes. on_udp_readable E (c :: 'c) bytes p = Some (p\<lparr>px_dropped := px_dropped p + 1\<rparr>, None, []))"
proof -
  obtain p and exs :: "'c exchange list" where r: "reachable (px_init pton cfg) px_step (p, exs)" "length exs = pc_max_concurrent cfg"
    "list_all (\<lambda>ex. \<not> ex_timer ex \<and> ex_upstream ex = None) exs" using connections_reach [OF assms order_refl] by blast
  moreover from px.reachable_inv [OF r(1)] r(2) have "px_max p \<le> px_inflight p" by (simp add: px_inv_def owns_def)
  then have "on_udp_readable E c bytes p = Some (p\<lparr>px_dropped := px_dropped p + 1\<rparr>, None, [])" for E bytes and c :: 'c
    by (simp add: on_udp_readable_def)
  ultimately show ?thesis by blast
qed

definition demo_cfg :: mt_dnsproxy_config where
  "demo_cfg = \<lparr>pc_listen_addr = None, pc_upstream_addr = Some ''10.0.0.1'', pc_max_concurrent = 2, pc_max_idle_conns = 1,
    pc_disable_fake_ptr = False, pc_disable_drop_aaaa = False\<rparr>"

definition demo_pton :: "family \<Rightarrow> string \<Rightarrow> u8 list option" where
  "demo_pton fam a = (if fam = AF_INET then Some [10, 0, 0, 1] else None)"

definition demo_msg :: mt_dns_msg where
  "demo_msg = \<lparr>msg_id = 7, msg_flags = 0x0100, questions = [\<lparr>q_name = [1, 97, 0], qtype = 1, qclass = 1\<rparr>],
    answers = [], authority = [], additional = []\<rparr>"

definition demo_env :: up_env where
  "demo_env = \<lparr>ue_socket = Some 5, ue_connect = Connected, ue_send = Some (length (ser_msg demo_msg)), ue_add_fd = True, ue_add_timer = True\<rparr>"

definition demo_proxy :: proxy where
  "demo_proxy = \<lparr>px_max = 2, px_no_fake_ptr = False, px_no_drop_aaaa = False, px_pool = [], px_pool_cap = 1, px_inflight = 0, px_dropped = 0,
    px_udp_fd = None, px_tcp_fd = None, px_open = []\<rparr>"

lemma demo_init: "px_init demo_pton demo_cfg (demo_proxy, [] :: nat exchange list)"
  by (simp add: px_init_def mt_dnsproxy_create_def demo_cfg_def demo_pton_def demo_proxy_def parse_listen_def unbracket_def)

lemma demo_msg_facts:
  "mt_dns_msg_parse (ser_msg demo_msg) = Some (Inr demo_msg)" "length (ser_msg demo_msg) = 19"
  "mt_dns_is_single_ptr_query (ser_msg demo_msg) = Got False"
proof -
  have name: "name_ok [1, x, 0]" for x
    unfolding name_ok_def by (rule exI [of _ "[[x]]"]) (simp add: label_ok_def enc_label_def)
  then have ok: "msg_ok demo_msg" by (simp add: msg_ok_def demo_msg_def)
  show len: "length (ser_msg demo_msg) = 19" by (simp add: ser_msg_def ser_question_def demo_msg_def)
  show "mt_dns_msg_parse (ser_msg demo_msg) = Some (Inr demo_msg)"
    using parse_ser [OF ok] len by (simp add: mt_dns_msg_parse_def rd_result_def MT_DNS_MAX_MSG_def)
  have "ser_msg demo_msg = [0, 7, 1, 0, 0, 1, 0, 0, 0, 0, 0, 0, 1, 97, 0, 0, 1, 0, 1]" by code_simp
  then show "mt_dns_is_single_ptr_query (ser_msg demo_msg) = Got False"
    by (simp add: mt_dns_is_single_ptr_query_def MT_DNS_HEADER_LEN_def raw_u16_def byte_at_def rd_name_def
        rd_name_loop.simps bytes_at_def put_def MT_DNS_MAX_NAME_def rd_u16_def)
qed

theorem proxy_udp_exact_witness:
  "\<exists>p1 ex fd p2 out. on_udp_readable demo_env (1 :: nat) (ser_msg demo_msg) demo_proxy = Some (p1, Some ex, [To_upstream fd (ser_msg demo_msg)]) \<and>
    on_upstream False False p1 ex [Bytes (ser_msg demo_msg)] = Some (p2, None, [Hook demo_msg False, To_client 1 out]) \<and>
    mt_dns_msg_parse out = Some (Inr demo_msg)"
proof -
  have m: "demo_msg\<lparr>answers := filter (\<lambda>rr. rtype rr \<noteq> 28) (answers demo_msg)\<rparr> = demo_msg" by (simp add: demo_msg_def)
  have r: "reachable (px_init demo_pton demo_cfg) px_step (demo_proxy, [] :: nat exchange list)" by (rule reach_init) (rule demo_init)
  show ?thesis
    using proxy_udp_exact [OF r _ demo_msg_facts(1) _ _ _ _ _ _ _ _ demo_msg_facts(1), of demo_env 5 1] demo_msg_facts(2,3)
    by (fastforce simp: m Let_def demo_cfg_def demo_env_def demo_proxy_def fresh_env_def)
qed

lemma demo_datagram:
  "on_udp_readable demo_env (1 :: nat) (ser_msg demo_msg) demo_proxy =
    Some (demo_proxy\<lparr>px_inflight := 1, px_open := [5]\<rparr>,
      Some ((udp_exchange 1 (ser_msg demo_msg))\<lparr>ex_req_sent := 19, ex_upstream := Some (5, OnUpstream), ex_timer := True\<rparr>),
      [To_upstream 5 (ser_msg demo_msg)])"
  by (simp add: on_udp_readable_def demo_proxy_def demo_env_def handle_request_common_def udp_exchange_def demo_msg_facts start_upstream_def
      start_udp_def pool_get_def udp_send_def add_deadline_def open_fd_def MT_DNS_MAX_MSG_def)

theorem proxy_accounts_witness:
  "\<exists>p ex. on_udp_readable demo_env (1 :: nat) (ser_msg demo_msg) demo_proxy = Some (p, Some ex, [To_upstream 5 (ser_msg demo_msg)]) \<and>
    reachable (px_init demo_pton demo_cfg) px_step (p, [ex]) \<and> px_inflight p = 1 \<and> ex_timer ex \<and>
    mset (px_open p) = listeners p + mset (px_pool p) + ex_fds ex \<and> (\<exists>q. on_timeout p ex = Some (q, None, []) \<and> px_inflight q = 0)"
proof -
  define p where "p = demo_proxy\<lparr>px_inflight := 1, px_open := [5]\<rparr>"
  define ex where "ex = (udp_exchange (1 :: nat) (ser_msg demo_msg))\<lparr>ex_req_sent := 19, ex_upstream := Some (5, OnUpstream), ex_timer := True\<rparr>"
  have "fresh_env demo_env demo_proxy" by (simp add: fresh_env_def demo_env_def demo_proxy_def)
  from px_step.datagram [OF this demo_datagram, of "[]"] have "px_step (demo_proxy, []) (p, [ex])" by (simp add: add_exchange_def p_def ex_def)
  then have r: "reachable (px_init demo_pton demo_cfg) px_step (p, [ex])" using demo_init by (blast intro: reach_init reach_step)
  show ?thesis
    using proxy_accounts [OF r] r demo_datagram unfolding p_def [symmetric] ex_def [symmetric]
    by (intro exI [of _ p] exI [of _ ex]) (auto simp: ex_def)
qed

end
