(* ===== verification/C_Text.thy ===== *)
theory C_Text
  imports Prelude
begin

text \<open>
  The functions of the C library on text that the modelled sources use: copies of strings, decimal
  printing and decimal reading.
\<close>

text \<open>\<^verbatim>\<open>strndup\<close> and \<^verbatim>\<open>strdup\<close> copy up to the first NUL.\<close>

definition cstr :: "string \<Rightarrow> string" where
  "cstr s = takeWhile (\<lambda>c. c \<noteq> CHR 0x00) s"

text \<open>\<^verbatim>\<open>%d\<close> of \<^verbatim>\<open>snprintf\<close>.\<close>

definition c_digit :: "nat \<Rightarrow> char" where
  "c_digit d = char_of (48 + d)"

fun c_dec :: "nat \<Rightarrow> string" where
  "c_dec n = (if n < 10 then [c_digit n] else c_dec (n div 10) @ [c_digit (n mod 10)])"

declare c_dec.simps [simp del]

definition c_dec_int :: "int \<Rightarrow> string" where
  "c_dec_int i = (if i < 0 then CHR ''-'' # c_dec (nat (- i)) else c_dec (nat i))"

text \<open>
  \<^verbatim>\<open>strtol(s, &end, 10)\<close>: white space, a sign, digits; without digits nothing is consumed; values out of
  the range of a 64-bit \<^verbatim>\<open>long\<close> saturate.  The result is the value and the rest of the string.
\<close>

definition is_digit :: "char \<Rightarrow> bool" where
  "is_digit c \<longleftrightarrow> 48 \<le> (of_char c :: nat) \<and> (of_char c :: nat) \<le> 57"

definition c_isspace :: "char \<Rightarrow> bool" where
  "c_isspace c \<longleftrightarrow> c = CHR '' '' \<or> 9 \<le> (of_char c :: nat) \<and> (of_char c :: nat) \<le> 13"

definition digits_val :: "string \<Rightarrow> nat" where
  "digits_val ds = fold (\<lambda>c n. n * 10 + (of_char c - 48)) ds 0"

definition c_strtol :: "string \<Rightarrow> int \<times> string" where
  "c_strtol s =
    (let s1 = dropWhile c_isspace s;
         neg = (case s1 of c # _ \<Rightarrow> c = CHR ''-'' | [] \<Rightarrow> False);
         s2 = (case s1 of c # t \<Rightarrow> if c = CHR ''-'' \<or> c = CHR ''+'' then t else s1 | [] \<Rightarrow> s1);
         ds = takeWhile is_digit s2;
         v = (if neg then - int (digits_val ds) else int (digits_val ds))
     in if ds = [] then (0, s) else (max (- (2 ^ 63)) (min (2 ^ 63 - 1) v), dropWhile is_digit s2))"

text \<open>
  \<^verbatim>\<open>strtoul(s, NULL, 10)\<close> with a 64-bit \<^verbatim>\<open>long\<close>: a minus sign negates in the unsigned type, values out of range become the
  largest one.
\<close>

definition c_strtoul :: "string \<Rightarrow> nat" where
  "c_strtoul s =
    (let s1 = dropWhile c_isspace s;
         neg = (case s1 of c # _ \<Rightarrow> c = CHR ''-'' | [] \<Rightarrow> False);
         s2 = (case s1 of c # t \<Rightarrow> if c = CHR ''-'' \<or> c = CHR ''+'' then t else s1 | [] \<Rightarrow> s1);
         v = digits_val (takeWhile is_digit s2)
     in if v \<ge> 2 ^ 64 then 2 ^ 64 - 1 else if neg \<and> v > 0 then 2 ^ 64 - v else v)"

text \<open>\<^verbatim>\<open>strcasecmp\<close> as a test for equality, in the C locale.\<close>

definition lower :: "char \<Rightarrow> char" where
  "lower c = (let n = of_char c :: nat in if 65 \<le> n \<and> n \<le> 90 then char_of (n + 32) else c)"

definition strcaseeq :: "string \<Rightarrow> string \<Rightarrow> bool" where
  "strcaseeq s t \<longleftrightarrow> map lower s = map lower t"

lemma c_dec_one: "c_dec_int 1 = ''1''"
  by code_simp

lemma strtol_one: "c_strtol ''1'' = (1, [])"
  by (simp add: c_strtol_def c_isspace_def is_digit_def digits_val_def)

lemma length_c_dec: "n < 10 ^ Suc k \<Longrightarrow> length (c_dec n) \<le> Suc k"
proof (induction k arbitrary: n)
  case (Suc k)
  then have "n div 10 < 10 ^ Suc k" by (simp add: div_less_iff_less_mult)
  then show ?case using Suc.IH [of "n div 10"] by (subst c_dec.simps) simp
qed (simp add: c_dec.simps)

end
