(* ===== verification/Duration.thy ===== *)
theory Duration
  imports C_Text
begin

text \<open>
  \<^verbatim>\<open>src/config/duration.c\<close>: reading and printing durations the way Go does.  A duration is a number of nanoseconds in 64 bits with a
  sign; numbers without a sign are natural numbers here, reduced modulo $2^{64}$ where the code can reach that.  \<open>None\<close> is undefined
  behaviour: the negation of the least number, or a character written in front of the array.
\<close>

section \<open>Floating point\<close>

text \<open>
  The part of \<^verbatim>\<open>double\<close> that the fraction needs: \<open>(m, e)\<close> is $m \cdot 2^e$.  Results are rounded to 53 bits, to the nearest, and to the even
  one in the middle.  The exponent has no bounds: a scale too large for a \<^verbatim>\<open>double\<close> is infinite in C, and then the fraction is zero, as
  it is here.
\<close>

type_synonym c_double = "nat \<times> int"

fun bit_len :: "nat \<Rightarrow> nat" where
  "bit_len n = (if n = 0 then 0 else Suc (bit_len (n div 2)))"

declare bit_len.simps [simp del]

definition round53 :: "nat \<Rightarrow> int \<Rightarrow> c_double" where
  "round53 n e =
    (let k = bit_len n - 53; q = n div 2 ^ k; r = 2 * (n mod 2 ^ k)
     in (if k > 0 \<and> (r > 2 ^ k \<or> r = 2 ^ k \<and> odd q) then q + 1 else q, e + int k))"

definition dbl_of :: "nat \<Rightarrow> c_double" where
  "dbl_of n = round53 n 0"

definition dbl_mult :: "c_double \<Rightarrow> c_double \<Rightarrow> c_double" where
  "dbl_mult x y = round53 (fst x * fst y) (snd x + snd y)"

text \<open>The quotient has at least 120 bits more than it needs, and a last bit that says whether anything is left.\<close>

definition dbl_div :: "c_double \<Rightarrow> c_double \<Rightarrow> c_double" where
  "dbl_div x y =
    (let n = fst x * 2 ^ 120
     in round53 (2 * (n div fst y) + (if n mod fst y = 0 then 0 else 1)) (snd x - snd y - 121))"

definition dbl_to_u64 :: "c_double \<Rightarrow> nat" where
  "dbl_to_u64 x = (if snd x \<ge> 0 then fst x * 2 ^ nat (snd x) else fst x div 2 ^ nat (- snd x))"

section \<open>Reading\<close>

abbreviation TWO63 :: nat where "TWO63 \<equiv> 9223372036854775808"
abbreviation TWO64 :: nat where "TWO64 \<equiv> 18446744073709551616"

definition digit_val :: "char \<Rightarrow> nat" where
  "digit_val c = of_char c - 48"

fun leading_int :: "nat \<Rightarrow> string \<Rightarrow> mt_err + nat \<times> string" where
  "leading_int x [] = Inr (x, [])"
| "leading_int x (c # s) =
    (if \<not> is_digit c then Inr (x, c # s)
     else if x > TWO63 div 10 then Inl MT_ERR_INVAL
     else let y = x * 10 + digit_val c in if y > TWO63 then Inl MT_ERR_INVAL else leading_int y s)"

fun leading_fraction :: "nat \<Rightarrow> c_double \<Rightarrow> bool \<Rightarrow> string \<Rightarrow> nat \<times> c_double \<times> string" where
  "leading_fraction x sc overflow [] = (x, sc, [])"
| "leading_fraction x sc overflow (c # s) =
    (if \<not> is_digit c then (x, sc, c # s)
     else if overflow \<or> x > TWO63 div 10 then leading_fraction x sc True s
     else let y = x * 10 + digit_val c
          in if y > TWO63 then leading_fraction x sc True s else leading_fraction y (dbl_mult sc (10, 0)) False s)"

definition UNITS :: "(string \<times> nat) list" where
  "UNITS =
    [(''ns'', 1), (''us'', 1000), ([CHR 0xC2, CHR 0xB5, CHR ''s''], 1000), ([CHR 0xCE, CHR 0xBC, CHR ''s''], 1000),
     (''ms'', 1000000), (''s'', 1000000000), (''m'', 60000000000), (''h'', 3600000000000)]"

definition lookup_unit :: "string \<Rightarrow> nat option" where
  "lookup_unit s = map_of UNITS s"

definition in_unit :: "char \<Rightarrow> bool" where
  "in_unit c \<longleftrightarrow> c \<noteq> CHR ''.'' \<and> \<not> is_digit c"

text \<open>The number and the fraction of one round of the loop: whether there were digits, the number, the fraction and its scale, the rest.\<close>

definition read_number :: "string \<Rightarrow> mt_err + bool \<times> nat \<times> nat \<times> c_double \<times> string" where
  "read_number s =
    (case leading_int 0 s of
       Inl e \<Rightarrow> Inl e
     | Inr (v, s1) \<Rightarrow>
         if s1 \<noteq> [] \<and> hd s1 = CHR ''.''
         then (case leading_fraction 0 (1, 0) False (tl s1) of
                 (f, scale, s2) \<Rightarrow> Inr (s1 \<noteq> s \<or> s2 \<noteq> tl s1, v, f, scale, s2))
         else Inr (s1 \<noteq> s, v, 0, (1, 0), s1))"

definition with_fraction :: "nat \<Rightarrow> nat \<Rightarrow> nat \<Rightarrow> c_double \<Rightarrow> nat" where
  "with_fraction v unit f scale = (if f > 0 then (v + dbl_to_u64 (dbl_mult (dbl_of f) (dbl_div (unit, 0) scale))) mod TWO64 else v)"

lemma leading_int_length: "leading_int x s = Inr (v, t) \<Longrightarrow> length t \<le> length s"
  by (induction x s rule: leading_int.induct) (auto simp: Let_def split: if_splits)

lemma leading_fraction_length: "length (snd (snd (leading_fraction x sc o1 s))) \<le> length s"
  by (induction x sc o1 s rule: leading_fraction.induct) (auto simp: Let_def)

lemma read_number_length: "read_number s = Inr (a, v, f, sc, u) \<Longrightarrow> length u \<le> length s"
proof -
  assume r: "read_number s = Inr (a, v, f, sc, u)"
  then obtain w t where t: "leading_int 0 s = Inr (w, t)" by (auto simp: read_number_def split: sum.splits)
  have "u = t \<or> u = snd (snd (leading_fraction 0 (1, 0) False (tl t)))" using r by (auto simp: read_number_def t split: prod.splits if_splits)
  moreover have "length t \<le> length s" by (rule leading_int_length [OF t])
  moreover have "length (snd (snd (leading_fraction 0 (1, 0) False (tl t)))) \<le> length (tl t)" by (rule leading_fraction_length)
  ultimately show ?thesis by auto
qed

lemma drop_unit_shorter: "takeWhile in_unit u \<noteq> [] \<Longrightarrow> length u \<le> length s \<Longrightarrow> length (dropWhile in_unit u) < length s"
  by (cases u) (auto split: if_splits intro: le_less_trans [OF length_dropWhile_le])

function parse_rounds :: "nat \<Rightarrow> string \<Rightarrow> mt_err + nat" where
  "parse_rounds d s =
    (if s = [] then Inr d
     else if \<not> (hd s = CHR ''.'' \<or> is_digit (hd s)) then Inl MT_ERR_INVAL
     else case read_number s of
       Inl e \<Rightarrow> Inl e
     | Inr (digits, v, f, scale, u) \<Rightarrow>
         if \<not> digits then Inl MT_ERR_INVAL
         else if takeWhile in_unit u = [] then Inl MT_ERR_INVAL
         else case lookup_unit (takeWhile in_unit u) of
           None \<Rightarrow> Inl MT_ERR_INVAL
         | Some unit \<Rightarrow>
             if v > (TWO63 - 1) div unit then Inl MT_ERR_INVAL
             else let w = with_fraction (v * unit) unit f scale; d' = (d + w) mod TWO64
                  in if f > 0 \<and> w > TWO63 then Inl MT_ERR_INVAL
                     else if d' > TWO63 then Inl MT_ERR_INVAL
                     else parse_rounds d' (dropWhile in_unit u))"
  by pat_completeness auto
termination
  by (relation "measure (\<lambda>(d, s). length s)") (auto dest: read_number_length intro: drop_unit_shorter)

declare parse_rounds.simps [simp del]

definition mt_duration_parse :: "string \<Rightarrow> (mt_err + int) option" where
  "mt_duration_parse s =
    (let neg = (s \<noteq> [] \<and> hd s = CHR ''-''); s = (if s \<noteq> [] \<and> (hd s = CHR ''-'' \<or> hd s = CHR ''+'') then tl s else s)
     in if s = ''0'' then Some (Inr 0)
        else if s = [] then Some (Inl MT_ERR_INVAL)
        else case parse_rounds 0 s of
          Inl e \<Rightarrow> Some (Inl e)
        | Inr d \<Rightarrow>
            if neg then (if d = TWO63 then None else Some (Inr (- int d)))
            else if d > TWO63 - 1 then Some (Inl MT_ERR_INVAL)
            else Some (Inr (int d)))"

section \<open>Printing\<close>

text \<open>The text grows from the end of an array of 32 characters.\<close>

definition putb :: "char \<Rightarrow> string \<Rightarrow> string option" where
  "putb c buf = (if length buf < 32 then Some (c # buf) else None)"

fun frac_digits :: "nat \<Rightarrow> bool \<Rightarrow> nat \<Rightarrow> string \<Rightarrow> (bool \<times> nat \<times> string) option" where
  "frac_digits 0 print v buf = Some (print, v, buf)"
| "frac_digits (Suc prec) print v buf =
    (let print = (print \<or> v mod 10 \<noteq> 0)
     in case (if print then putb (c_digit (v mod 10)) buf else Some buf) of
          None \<Rightarrow> None
        | Some buf \<Rightarrow> frac_digits prec print (v div 10) buf)"

definition fmt_frac :: "nat \<Rightarrow> nat \<Rightarrow> string \<Rightarrow> (nat \<times> string) option" where
  "fmt_frac v prec buf =
    (case frac_digits prec False v buf of
       None \<Rightarrow> None
     | Some (print, v, buf) \<Rightarrow> map_option (Pair v) (if print then putb (CHR ''.'') buf else Some buf))"

fun int_digits :: "nat \<Rightarrow> string \<Rightarrow> string option" where
  "int_digits v buf =
    (if v = 0 then Some buf
     else case putb (c_digit (v mod 10)) buf of None \<Rightarrow> None | Some buf \<Rightarrow> int_digits (v div 10) buf)"

declare int_digits.simps [simp del]

definition fmt_int :: "nat \<Rightarrow> string \<Rightarrow> string option" where
  "fmt_int v buf = (if v = 0 then putb (CHR ''0'') buf else int_digits v buf)"

fun puts :: "string \<Rightarrow> string \<Rightarrow> string option" where
  "puts [] buf = Some buf"
| "puts (c # cs) buf = (case puts cs buf of None \<Rightarrow> None | Some buf \<Rightarrow> putb c buf)"

text \<open>A number of nanoseconds below a second, and one that is at least a second.\<close>

definition small_unit :: "nat \<Rightarrow> nat \<times> string" where
  "small_unit u =
    (if u < 1000 then (0, ''ns'') else if u < 1000000 then (3, [CHR 0xC2, CHR 0xB5, CHR ''s'']) else (6, ''ms''))"

definition format_small :: "nat \<Rightarrow> string option" where
  "format_small u =
    (case puts (snd (small_unit u)) [] of
       None \<Rightarrow> None
     | Some buf \<Rightarrow> (case fmt_frac u (fst (small_unit u)) buf of None \<Rightarrow> None | Some (v, buf) \<Rightarrow> fmt_int v buf))"

definition fmt_part :: "nat \<Rightarrow> char \<Rightarrow> string \<Rightarrow> string option" where
  "fmt_part v unit buf = (case putb unit buf of None \<Rightarrow> None | Some buf \<Rightarrow> fmt_int v buf)"

definition format_large :: "nat \<Rightarrow> string option" where
  "format_large u =
    (case putb (CHR ''s'') [] of
       None \<Rightarrow> None
     | Some buf \<Rightarrow>
         (case fmt_frac u 9 buf of
            None \<Rightarrow> None
          | Some (v, buf) \<Rightarrow>
              (case fmt_int (v mod 60) buf of
                 None \<Rightarrow> None
               | Some buf \<Rightarrow>
                   if v div 60 = 0 then Some buf
                   else (case fmt_part (v div 60 mod 60) (CHR ''m'') buf of
                           None \<Rightarrow> None
                         | Some buf \<Rightarrow> if v div 60 div 60 = 0 then Some buf else fmt_part (v div 60 div 60) (CHR ''h'') buf))))"

text \<open>What is in \<open>out\<close> afterwards: \<open>Some None\<close> is an array that is not written.\<close>

definition mt_duration_format :: "int \<Rightarrow> nat \<Rightarrow> string option option" where
  "mt_duration_format d out_len =
    (let u = (if d < 0 then nat (- (d + 1)) + 1 else nat d)
     in if u = 0 then Some (if out_len \<ge> 3 then Some ''0s'' else None)
        else case (if u < 1000000000 then format_small u else format_large u) of
          None \<Rightarrow> None
        | Some buf \<Rightarrow>
            (case (if d < 0 then putb (CHR ''-'') buf else Some buf) of
               None \<Rightarrow> None
             | Some buf \<Rightarrow> Some (if length buf + 1 \<le> out_len then Some buf else if out_len > 0 then Some [] else None)))"

section \<open>Exact fractions\<close>

lemma bit_len_le: "n < 2 ^ k \<Longrightarrow> bit_len n \<le> k"
proof (induction k arbitrary: n)
  case (Suc k)
  then have "bit_len (n div 2) \<le> k" by simp
  then show ?case by (subst bit_len.simps) simp
qed (simp add: bit_len.simps)

lemma bit_len_shift: "0 < a \<Longrightarrow> bit_len (a * 2 ^ t) = bit_len a + t"
proof (induction t)
  case (Suc t)
  have "bit_len (a * 2 ^ Suc t) = Suc (bit_len ((a * 2 ^ Suc t) div 2))" using Suc.prems by (subst bit_len.simps) simp
  also have "(a * 2 ^ Suc t) div 2 = a * 2 ^ t" by simp
  finally show ?case using Suc by simp
qed simp

text \<open>A number of at most 53 bits, and zeros behind them, is not rounded.\<close>

lemma round53_exact:
  assumes "0 < a" "a < 2 ^ 53"
  shows "\<exists>s. round53 (a * 2 ^ t) (- int t) = (a * 2 ^ s, - int s)"
proof -
  define k where "k = bit_len (a * 2 ^ t) - 53"
  have "k \<le> t" using bit_len_le [OF assms(2)] bit_len_shift [OF assms(1), of t] by (simp add: k_def)
  then have p: "a * 2 ^ t = (a * 2 ^ (t - k)) * 2 ^ k" by (simp add: power_add [symmetric])
  have "a * 2 ^ t div 2 ^ k = a * 2 ^ (t - k)" "a * 2 ^ t mod 2 ^ k = 0" by (subst p, simp)+
  then have "round53 (a * 2 ^ t) (- int t) = (a * 2 ^ (t - k), - int t + int k)"
    unfolding round53_def Let_def k_def [symmetric] by simp
  also have "- int t + int k = - int (t - k)" using \<open>k \<le> t\<close> by simp
  finally show ?thesis by blast
qed

lemma round53_small: "n < 2 ^ 53 \<Longrightarrow> round53 n 0 = (n, 0)"
  using bit_len_le [of n 53] by (simp add: round53_def)

lemma dbl_div_exact:
  assumes "0 < a" "a < 2 ^ 53" "0 < b"
  shows "\<exists>s. dbl_div (a * b, 0) (b, 0) = (a * 2 ^ s, - int s)"
proof -
  have n: "a * b * 2 ^ 120 = (a * 2 ^ 120) * b" by simp
  have "a * b * 2 ^ 120 div b = a * 2 ^ 120" "a * b * 2 ^ 120 mod b = 0" using assms(3) by (subst n, simp)+
  then have "dbl_div (a * b, 0) (b, 0) = round53 (2 * (a * 2 ^ 120)) (- 121)" unfolding dbl_div_def Let_def by simp
  also have "\<dots> = round53 (a * 2 ^ 121) (- int 121)" by (simp add: mult.commute)
  finally show ?thesis using round53_exact [OF assms(1,2), of 121] by metis
qed

lemma fraction_exact:
  assumes "0 < f" "f * a < 2 ^ 53" "0 < a" "0 < b"
  shows "dbl_to_u64 (dbl_mult (dbl_of f) (dbl_div (a * b, 0) (b, 0))) = f * a"
proof -
  have "f < 2 ^ 53" "a < 2 ^ 53"
    using assms(1,3) assms(2) le_less_trans [of f "f * a"] le_less_trans [of a "f * a"] by simp_all
  then obtain s where s: "dbl_of f = (f, 0)" "dbl_div (a * b, 0) (b, 0) = (a * 2 ^ s, - int s)"
    using dbl_div_exact [OF assms(3) _ assms(4)] by (auto simp: dbl_of_def round53_small)
  obtain s' where "round53 (f * a * 2 ^ s) (- int s) = (f * a * 2 ^ s', - int s')"
    using round53_exact [of "f * a" s] assms by auto
  then show ?thesis by (simp add: s dbl_mult_def dbl_to_u64_def mult.assoc)
qed

section \<open>Digits\<close>

lemma c_digit_val [simp]: "n < 10 \<Longrightarrow> digit_val (c_digit n) = n" "n < 10 \<Longrightarrow> is_digit (c_digit n)"
  by (simp_all add: digit_val_def c_digit_def is_digit_def)

text \<open>Exactly \<open>n\<close> digits of a number, and all digits of a number.\<close>

primrec pad :: "nat \<Rightarrow> nat \<Rightarrow> string" where
  "pad 0 v = []"
| "pad (Suc n) v = pad n (v div 10) @ [c_digit (v mod 10)]"

lemma length_pad [simp]: "length (pad n v) = n"
  by (induction n arbitrary: v) auto

lemma c_dec_leading: "v \<le> TWO63 \<Longrightarrow> leading_int 0 (c_dec v @ s) = leading_int v s"
proof (induction v arbitrary: s rule: c_dec.induct)
  case (1 n)
  show ?case
  proof (cases "n < 10")
    case False
    then have "leading_int 0 (c_dec n @ s) = leading_int (n div 10) (c_digit (n mod 10) # s)" using 1 by (subst c_dec.simps) simp
    also have "n div 10 \<le> TWO63 div 10" using 1(2) by (rule div_le_mono)
    then have "leading_int (n div 10) (c_digit (n mod 10) # s) = leading_int n s" using 1(2) by (simp add: Let_def)
    finally show ?thesis .
  qed (subst c_dec.simps, simp)
qed

lemma fmt_int_dec:
  assumes "v < 10 ^ Suc n" "length buf + Suc n \<le> 32"
  shows "fmt_int v buf = Some (c_dec v @ buf)"
proof -
  have "int_digits v buf = Some (if v = 0 then buf else c_dec v @ buf)"
    using assms
  proof (induction n arbitrary: v buf)
    case 0
    then show ?case by (subst int_digits.simps) (subst c_dec.simps, auto simp: putb_def int_digits.simps)
  next
    case (Suc n)
    show ?case
    proof (cases "v < 10")
      case True
      then show ?thesis using Suc.prems by (subst int_digits.simps) (subst c_dec.simps, auto simp: putb_def int_digits.simps)
    next
      case False
      then have "v div 10 \<noteq> 0" by simp
      have "v div 10 < 10 ^ Suc n" using Suc.prems(1) by (simp add: less_mult_imp_div_less mult.commute)
      from Suc.IH [OF this, of "c_digit (v mod 10) # buf"] show ?thesis
        using Suc.prems(2) False \<open>v div 10 \<noteq> 0\<close> by (subst int_digits.simps) (subst c_dec.simps, simp add: putb_def)
    qed
  qed
  moreover have "c_dec 0 = ''0''" by code_simp
  ultimately show ?thesis using assms(2) by (simp add: fmt_int_def putb_def)
qed

lemma frac_digits_pad:
  "length buf + n \<le> 32 \<Longrightarrow> frac_digits n True v buf = Some (True, v div 10 ^ n, pad n v @ buf)"
  by (induction n arbitrary: v buf) (simp_all add: putb_def div_mult2_eq)

lemma frac_digits_trim:
  assumes "length buf + n \<le> 32"
  shows "\<exists>k\<le>n. frac_digits n False v buf = Some (k > 0, v div 10 ^ n, pad k (v div 10 ^ (n - k)) @ buf) \<and>
    (v mod 10 ^ n = v div 10 ^ (n - k) mod 10 ^ k * 10 ^ (n - k)) \<and> (k > 0 \<longrightarrow> v mod 10 ^ n > 0)"
  using assms
proof (induction n arbitrary: v)
  case (Suc n)
  show ?case
  proof (cases "v mod 10 = 0")
    case True
    obtain k where k: "k \<le> n" "frac_digits n False (v div 10) buf = Some (k > 0, v div 10 div 10 ^ n, pad k (v div 10 div 10 ^ (n - k)) @ buf)"
      "v div 10 mod 10 ^ n = v div 10 div 10 ^ (n - k) mod 10 ^ k * 10 ^ (n - k)" "k > 0 \<longrightarrow> v div 10 mod 10 ^ n > 0"
      using Suc.IH [of "v div 10"] Suc.prems by auto
    have "v mod 10 ^ Suc n = 10 * (v div 10 mod 10 ^ n)" using True mod_mult2_eq [of v 10 "10 ^ n"] by simp
    moreover have "Suc n - k = Suc (n - k)" using k(1) by simp
    ultimately show ?thesis using k True by (intro exI [of _ k]) (simp add: div_mult2_eq)
  next
    case False
    then have "v mod 10 ^ Suc n > 0" using mod_mult2_eq [of v 10 "10 ^ n"] by simp
    then show ?thesis using False Suc.prems frac_digits_pad [of "c_digit (v mod 10) # buf" n "v div 10"]
      by (intro exI [of _ "Suc n"]) (simp add: putb_def div_mult2_eq)
  qed
qed simp

lemma pad_leading:
  assumes "x * 10 ^ n + v mod 10 ^ n \<le> TWO63" "(10::nat) ^ (m + n) < 2 ^ 53"
  shows "leading_fraction x (10 ^ m, 0) False (pad n v @ s) = leading_fraction (x * 10 ^ n + v mod 10 ^ n) (10 ^ (m + n), 0) False s"
  using assms
proof (induction n arbitrary: v s)
  case (Suc n)
  have v: "v mod 10 ^ Suc n = 10 * (v div 10 mod 10 ^ n) + v mod 10" using mod_mult2_eq [of v 10 "10 ^ n"] by simp
  define y where "y = x * 10 ^ n + v div 10 mod 10 ^ n"
  have y: "y * 10 + v mod 10 = x * 10 ^ Suc n + v mod 10 ^ Suc n" unfolding y_def v by (simp add: algebra_simps)
  have "y \<le> TWO63 div 10" using Suc.prems(1) unfolding y [symmetric] by presburger
  moreover have p: "(10::nat) ^ (m + n) < 10 ^ (m + Suc n)" by simp
  then have "(10::nat) ^ (m + n) < 2 ^ 53" using Suc.prems(2) by (rule less_trans)
  moreover have "y \<le> TWO63" using \<open>y \<le> TWO63 div 10\<close> by simp
  ultimately have "leading_fraction x (10 ^ m, 0) False (pad n (v div 10) @ c_digit (v mod 10) # s) =
      leading_fraction y (10 ^ (m + n), 0) False (c_digit (v mod 10) # s)" using Suc.IH by (simp add: y_def)
  also have "\<dots> = leading_fraction (y * 10 + v mod 10) (dbl_mult (10 ^ (m + n), 0) (10, 0)) False s"
    using \<open>y \<le> TWO63 div 10\<close> Suc.prems(1) unfolding y [symmetric] by (simp add: Let_def)
  also have "dbl_mult (10 ^ (m + n), 0) (10, 0) = (10 ^ (m + Suc n), 0)"
    using Suc.prems(2) round53_small [of "10 ^ (m + n) * 10"] by (simp add: dbl_mult_def mult.commute)
  finally show ?case by (simp add: y)
qed simp

section \<open>Reading what was printed\<close>

definition frac_text :: "nat \<Rightarrow> nat \<Rightarrow> string" where
  "frac_text k w = (if k = 0 then [] else CHR ''.'' # pad k w)"

lemma c_dec_shape: "\<exists>c cs. c_dec v = c # cs \<and> is_digit c"
proof (induction v rule: c_dec.induct)
  case (1 n)
  then show ?case by (subst c_dec.simps) auto
qed

lemma read_number_text:
  assumes "v \<le> TWO63" "(10::nat) ^ k < 2 ^ 53" "u \<noteq> []" "in_unit (hd u)"
  shows "\<exists>scale. read_number (c_dec v @ frac_text k w @ u) = Inr (True, v, w mod 10 ^ k, scale, u) \<and> (k > 0 \<longrightarrow> scale = (10 ^ k, 0))"
proof -
  obtain c cs where u: "u = c # cs" "\<not> is_digit c" "c \<noteq> CHR ''.''" using assms(3,4) by (cases u) (auto simp: in_unit_def)
  have dot: "\<not> is_digit (CHR ''.'')" by (simp add: is_digit_def)
  have ne: "frac_text k w @ u \<noteq> c_dec v @ frac_text k w @ u" using c_dec_shape [of v] by auto
  have l: "leading_int 0 (c_dec v @ frac_text k w @ u) = Inr (v, frac_text k w @ u)"
    using u dot by (simp add: c_dec_leading [OF assms(1)] frac_text_def)
  show ?thesis
  proof (cases "k = 0")
    case True
    then show ?thesis using l ne u by (simp add: read_number_def frac_text_def)
  next
    case False
    have "w mod 10 ^ k \<le> TWO63" using assms(2) mod_less_divisor [of "10 ^ k" w] by (simp add: less_imp_le order_trans [OF less_imp_le, of _ "10 ^ k"])
    then have "leading_fraction 0 (1, 0) False (pad k w @ u) = (w mod 10 ^ k, (10 ^ k, 0), u)"
      using pad_leading [of 0 k w 0 u] assms(2) u by simp
    then show ?thesis using l ne False by (simp add: read_number_def frac_text_def)
  qed
qed

lemma parse_round:
  assumes "lookup_unit name = Some (a * 10 ^ k)" "name \<noteq> []" "list_all in_unit name" "s = [] \<or> is_digit (hd s)"
    and "(10::nat) ^ k < 2 ^ 53" "0 < a" "a * 10 ^ k < 2 ^ 53" "k > 0 \<longrightarrow> w mod 10 ^ k > 0"
    and "v * (a * 10 ^ k) < TWO63" "d + v * (a * 10 ^ k) + w mod 10 ^ k * a \<le> TWO63"
  shows "parse_rounds d (c_dec v @ frac_text k w @ name @ s) = parse_rounds (d + v * (a * 10 ^ k) + w mod 10 ^ k * a) s"
proof -
  let ?s = "c_dec v @ frac_text k w @ name @ s" and ?u = "a * 10 ^ k" and ?f = "w mod 10 ^ k"
  have U: "0 < ?u" using assms(6) by simp
  then have "v * 1 \<le> v * ?u" by (intro mult_le_mono2) simp
  then have "v \<le> TWO63" using assms(9) by linarith
  moreover have "in_unit (hd name)" using assms(2,3) by (cases name) auto
  ultimately obtain scale where r: "read_number ?s = Inr (True, v, ?f, scale, name @ s)" "k > 0 \<longrightarrow> scale = (10 ^ k, 0)"
    using read_number_text [of v k "name @ s" w] assms(2,5) by auto
  have h: "?s \<noteq> []" "is_digit (hd ?s)" using c_dec_shape [of v] by auto
  have t: "takeWhile in_unit (name @ s) = name" "dropWhile in_unit (name @ s) = s"
    using assms(3,4) by (cases s; auto simp: list_all_iff takeWhile_append dropWhile_append in_unit_def)+
  have v: "\<not> v > (TWO63 - 1) div ?u" using assms(9) U by (simp add: not_less less_eq_div_iff_mult_less_eq)
  have "?f * a < 10 ^ k * a" using assms(6) by simp
  then have "?f * a < 2 ^ 53" using assms(7) unfolding mult.commute [of "10 ^ k" a] by (rule less_trans)
  then have "with_fraction (v * ?u) ?u ?f scale = v * ?u + ?f * a"
    using fraction_exact [of ?f a "10 ^ k"] assms(6,8,10) r(2) by (cases "k = 0") (simp_all add: with_fraction_def)
  then show ?thesis using h r(1) t assms(1,2,10) v by (subst parse_rounds.simps) (simp add: Let_def add.assoc)
qed

lemma puts_fits: "length cs + length buf \<le> 32 \<Longrightarrow> puts cs buf = Some (cs @ buf)"
  by (induction cs) (simp_all add: putb_def)

lemma fmt_frac_text:
  assumes "length buf + n < 32"
  shows "\<exists>k\<le>n. fmt_frac v n buf = Some (v div 10 ^ n, frac_text k (v div 10 ^ (n - k)) @ buf) \<and>
    v mod 10 ^ n = v div 10 ^ (n - k) mod 10 ^ k * 10 ^ (n - k) \<and> (k > 0 \<longrightarrow> v div 10 ^ (n - k) mod 10 ^ k > 0)"
proof -
  have "length buf + n \<le> 32" using assms by simp
  from frac_digits_trim [OF this, of v] obtain k where k: "k \<le> n"
    "frac_digits n False v buf = Some (k > 0, v div 10 ^ n, pad k (v div 10 ^ (n - k)) @ buf)"
    "v mod 10 ^ n = v div 10 ^ (n - k) mod 10 ^ k * 10 ^ (n - k)" "k > 0 \<longrightarrow> v mod 10 ^ n > 0" by blast
  moreover have "k > 0 \<longrightarrow> v div 10 ^ (n - k) mod 10 ^ k > 0" using k(3,4) by (metis mult_is_0 neq0_conv)
  ultimately show ?thesis using assms by (intro exI [of _ k]) (auto simp: fmt_frac_def frac_text_def putb_def)
qed

text \<open>The unit of a printed part, with its size and the number of digits behind the point that it can have.\<close>

lemma units:
  "lookup_unit ''ns'' = Some 1" "lookup_unit [CHR 0xC2, CHR 0xB5, CHR ''s''] = Some 1000" "lookup_unit ''ms'' = Some 1000000"
  "lookup_unit ''s'' = Some 1000000000" "lookup_unit ''m'' = Some 60000000000" "lookup_unit ''h'' = Some 3600000000000"
  "list_all in_unit ''ns''" "list_all in_unit [CHR 0xC2, CHR 0xB5, CHR ''s'']" "list_all in_unit ''ms''"
  "list_all in_unit ''s''" "list_all in_unit ''m''" "list_all in_unit ''h''"
  by (simp_all add: lookup_unit_def UNITS_def in_unit_def is_digit_def)

lemma parse_last:
  assumes "lookup_unit name = Some (10 ^ n)" "name \<noteq> []" "list_all in_unit name" "n \<le> 9" "k \<le> n"
    and "x mod 10 ^ n = x div 10 ^ (n - k) mod 10 ^ k * 10 ^ (n - k)" "k > 0 \<longrightarrow> x div 10 ^ (n - k) mod 10 ^ k > 0"
    and "d + y * 10 ^ n + x mod 10 ^ n \<le> TWO63" "y * 10 ^ n < TWO63"
  shows "parse_rounds d (c_dec y @ frac_text k (x div 10 ^ (n - k)) @ name) = Inr (d + y * 10 ^ n + x mod 10 ^ n)"
proof -
  have n: "(10::nat) ^ (n - k) * 10 ^ k = 10 ^ n" using assms(5) by (simp add: power_add [symmetric])
  have "(10::nat) ^ k \<le> 10 ^ 9" "(10::nat) ^ n \<le> 10 ^ 9" using assms(4,5) by (simp_all only: power_increasing_iff)
  then show ?thesis
    using parse_round [of name "10 ^ (n - k)" k "[]" "x div 10 ^ (n - k)" y d] assms unfolding n assms(6) [symmetric]
    by (simp add: parse_rounds.simps [of _ "[]"])
qed

lemma parse_part:
  assumes "lookup_unit [c] = Some U" "in_unit c" "s \<noteq> []" "is_digit (hd s)" "0 < U" "U < 2 ^ 53" "v * U < TWO63" "d + v * U \<le> TWO63"
  shows "parse_rounds d (c_dec v @ c # s) = parse_rounds (d + v * U) s"
  using parse_round [of "[c]" U 0 s 0 v d] assms by (simp add: frac_text_def)

definition printed :: "nat \<Rightarrow> nat \<Rightarrow> string \<Rightarrow> bool" where
  "printed n u s \<longleftrightarrow> 1 < length s \<and> length s \<le> n \<and> is_digit (hd s) \<and> (\<forall>d. d + u \<le> TWO63 \<longrightarrow> parse_rounds d s = Inr (d + u))"

text \<open>The last part of a text: a number with a fraction and its unit.\<close>

lemma fmt_last:
  assumes "lookup_unit name = Some (10 ^ n)" "name \<noteq> []" "list_all in_unit name" "n \<le> 9" "length name \<le> 3"
    and "y < 10 ^ Suc m" "m \<le> 6" "y * 10 ^ n < TWO63"
  shows "\<exists>buf s. fmt_frac x n name = Some (x div 10 ^ n, buf) \<and> fmt_int y buf = Some s \<and> printed (n + m + length name + 2) (y * 10 ^ n + x mod 10 ^ n) s"
proof -
  have "length name + n < 32" using assms(4,5) by simp
  from fmt_frac_text [OF this, of x] obtain k where k: "k \<le> n" "fmt_frac x n name = Some (x div 10 ^ n, frac_text k (x div 10 ^ (n - k)) @ name)"
    "x mod 10 ^ n = x div 10 ^ (n - k) mod 10 ^ k * 10 ^ (n - k)" "k > 0 \<longrightarrow> x div 10 ^ (n - k) mod 10 ^ k > 0" by blast
  have len: "length (frac_text k (x div 10 ^ (n - k))) \<le> Suc n" using k(1) by (simp add: frac_text_def)
  obtain c cs where c: "c_dec y = c # cs" "is_digit c" using c_dec_shape by blast
  have "fmt_int y (frac_text k (x div 10 ^ (n - k)) @ name) = Some (c_dec y @ frac_text k (x div 10 ^ (n - k)) @ name)"
    using assms(4,5,7) len by (intro fmt_int_dec [OF assms(6)]) simp
  moreover have "printed (n + m + length name + 2) (y * 10 ^ n + x mod 10 ^ n) (c_dec y @ frac_text k (x div 10 ^ (n - k)) @ name)"
    using parse_last [OF assms(1-4) k(1,3,4), of _ y] assms(2,8) len length_c_dec [OF assms(6)] c
    by (cases name) (auto simp: printed_def add.assoc)
  ultimately show ?thesis using k(2) by blast
qed

lemma small_printed:
  assumes "0 < u" "u < 1000000000"
  shows "\<exists>s. format_small u = Some s \<and> printed 13 u s"
proof -
  define n name where nn: "n = fst (small_unit u)" "name = snd (small_unit u)"
  have a: "lookup_unit name = Some (10 ^ n)" "name \<noteq> []" "list_all in_unit name" "n \<le> 6" "length name \<le> 3" "u div 10 ^ n < 10 ^ Suc 2"
    using assms(2) units by (auto simp: nn small_unit_def)
  have "u div 10 ^ n * 10 ^ n + u mod 10 ^ n = u" by (rule div_mult_mod_eq)
  moreover have "u div 10 ^ n * 10 ^ n < TWO63" using assms(2) div_times_less_eq_dividend [of u "10 ^ n"] by linarith
  moreover have "puts name [] = Some name" using puts_fits [of name "[]"] a(5) by simp
  ultimately show ?thesis
    using fmt_last [OF a(1-3) _ a(5,6), of u] a(4,5) by (fastforce simp: format_small_def nn [symmetric] printed_def)
qed

lemma part_printed:
  assumes "printed n u s" "n \<le> 20" "lookup_unit [c] = Some U" "in_unit c" "0 < U" "U < 2 ^ 53" "v * U + u \<le> TWO63" "v * U < TWO63" "v < 10 ^ Suc m" "m \<le> 8"
  shows "\<exists>t. fmt_part v c s = Some t \<and> printed (n + m + 2) (v * U + u) t"
proof -
  have s: "s \<noteq> []" "length s \<le> n" "1 < length s" using assms(1) by (auto simp: printed_def)
  have "fmt_part v c s = Some (c_dec v @ c # s)"
    using fmt_int_dec [OF assms(9), of "c # s"] s(2) assms(2,10) by (simp add: fmt_part_def putb_def)
  moreover have "parse_rounds d (c_dec v @ c # s) = Inr (d + (v * U + u))" if "d + (v * U + u) \<le> TWO63" for d
  proof -
    have "parse_rounds d (c_dec v @ c # s) = parse_rounds (d + v * U) s"
      using assms that s(1) by (intro parse_part) (auto simp: printed_def)
    then show ?thesis using assms(1) that by (simp add: printed_def add.assoc)
  qed
  moreover obtain c' cs where "c_dec v = c' # cs" "is_digit c'" using c_dec_shape by blast
  ultimately show ?thesis using s length_c_dec [OF assms(9)] by (intro exI [of _ "c_dec v @ c # s"]) (simp add: printed_def)
qed

lemma hms: "v = h * 3600 + m * 60 + s \<Longrightarrow> u = v * 10 ^ 9 + r \<Longrightarrow> u = h * 3600000000000 + (m * 60000000000 + (s * 10 ^ 9 + r))" for u :: nat
  by simp

lemma large_printed:
  assumes "1000000000 \<le> u" "u \<le> TWO63"
  shows "\<exists>s. format_large u = Some s \<and> printed 24 u s"
proof -
  define v where "v = u div 10 ^ 9"
  have v: "u = v * 10 ^ 9 + u mod 10 ^ 9" "v \<le> 9223372036" using assms(2) div_le_mono [OF assms(2), of "10 ^ 9"] by (simp_all add: v_def)
  have "v mod 60 < 10 ^ Suc 1" "v mod 60 * 10 ^ 9 < TWO63" using mod_less_divisor [of 60 v] by simp_all
  from fmt_last [of "''s''" 9 "v mod 60" 1 u, OF _ _ _ _ _ this(1) _ this(2)] units
  obtain buf s1 where s1: "fmt_frac u 9 ''s'' = Some (v, buf)" "fmt_int (v mod 60) buf = Some s1" "printed 13 (v mod 60 * 10 ^ 9 + u mod 10 ^ 9) s1"
    by (auto simp: v_def)
  show ?thesis
  proof (cases "v div 60 = 0")
    case True
    then have "v mod 60 = v" by simp
    then show ?thesis using s1 v(1) True by (auto simp: format_large_def putb_def printed_def)
  next
    case False
    define u2 where "u2 = v div 60 mod 60 * 60000000000 + (v mod 60 * 10 ^ 9 + u mod 10 ^ 9)"
    have "v = v div 60 * 60 + v mod 60" "v div 60 = v div 60 div 60 * 60 + v div 60 mod 60" by (rule div_mult_mod_eq [symmetric])+
    then have "v = v div 60 div 60 * 3600 + v div 60 mod 60 * 60 + v mod 60" by linarith
    then have u: "u = v div 60 div 60 * 3600000000000 + u2" using v(1) unfolding u2_def by (rule hms)
    have m: "v div 60 mod 60 < 60" by simp
    have "in_unit (CHR ''m'')" "in_unit (CHR ''h'')" using units by simp_all
    note c = this
    have "u2 \<le> TWO63" using u assms(2) by linarith
    then have "\<exists>s2. fmt_part (v div 60 mod 60) (CHR ''m'') s1 = Some s2 \<and> printed (13 + 1 + 2) u2 s2"
      unfolding u2_def by (intro part_printed [OF s1(3) _ units(5) c(1)]) (use m in simp_all)
    then obtain s2 where s2: "fmt_part (v div 60 mod 60) (CHR ''m'') s1 = Some s2" "printed 16 u2 s2" by auto
    have f: "format_large u = (if v div 60 div 60 = 0 then Some s2 else fmt_part (v div 60 div 60) (CHR ''h'') s2)"
      using False by (simp add: format_large_def putb_def s1 s2(1))
    have "v div 60 div 60 \<le> 9223372036 div 60 div 60" using v(2) by (intro div_le_mono)
    then have h: "v div 60 div 60 \<le> 2562047" by simp
    have h1: "v div 60 div 60 * 3600000000000 < TWO63" by (rule le_less_trans [OF mult_le_mono1 [OF h]]) simp
    have h2: "v div 60 div 60 < 10 ^ Suc 6" by (rule le_less_trans [OF h]) simp
    have h3: "v div 60 div 60 * 3600000000000 + u2 \<le> TWO63" unfolding u [symmetric] by (rule assms(2))
    have "\<exists>s3. fmt_part (v div 60 div 60) (CHR ''h'') s2 = Some s3 \<and> printed (16 + 6 + 2) (v div 60 div 60 * 3600000000000 + u2) s3"
      by (intro part_printed [OF s2(2) _ units(6) c(2) _ _ h3 h1 h2]) simp_all
    then have "\<exists>s3. fmt_part (v div 60 div 60) (CHR ''h'') s2 = Some s3 \<and> printed 24 u s3" unfolding u [symmetric] by simp
    moreover have "v div 60 div 60 = 0 \<Longrightarrow> printed 24 u s2" using s2(2) u by (simp add: printed_def)
    ultimately show ?thesis using f by simp
  qed
qed

lemma parse_printed:
  assumes "printed 24 u s" "u \<le> TWO63"
  shows "mt_duration_parse s = Some (if u = TWO63 then Inl MT_ERR_INVAL else Inr (int u))"
    and "mt_duration_parse (CHR ''-'' # s) = (if u = TWO63 then None else Some (Inr (- int u)))"
proof -
  have s: "s \<noteq> []" "s \<noteq> ''0''" "is_digit (hd s)" "parse_rounds 0 s = Inr u" using assms by (auto simp: printed_def)
  then have h: "hd s \<noteq> CHR ''-''" "hd s \<noteq> CHR ''+''" by (auto simp: is_digit_def)
  show "mt_duration_parse s = Some (if u = TWO63 then Inl MT_ERR_INVAL else Inr (int u))"
    using s h assms(2) by (auto simp: mt_duration_parse_def Let_def)
  show "mt_duration_parse (CHR ''-'' # s) = (if u = TWO63 then None else Some (Inr (- int u)))"
    using s by (simp add: mt_duration_parse_def Let_def)
qed

lemma parse_zero: "mt_duration_parse ''0s'' = Some (Inr 0)"
proof -
  have "c_dec 0 = ''0''" by code_simp
  then have "parse_rounds 0 ''0s'' = Inr 0" using parse_last [of "''s''" 9 0 0 0 0] units by (simp add: frac_text_def)
  then show ?thesis by (simp add: mt_duration_parse_def Let_def)
qed

text \<open>
  C30.  Printing and reading back.  For every duration of 64 bits and room for 26 characters, printing stays within its array of 32
  characters and writes a text of at most 25; reading this text gives the same duration, to the nanosecond, although the fraction goes through
  floating point.  The one exception is the least duration: reading its text negates the least number of 64 bits, which C does not
  define.
\<close>

theorem duration_round_trip:
  assumes "- (2 ^ 63) \<le> d" "d < 2 ^ 63" "26 \<le> out_len"
  shows "\<exists>s. mt_duration_format d out_len = Some (Some s) \<and> length s \<le> 25 \<and>
    mt_duration_parse s = (if d = - (2 ^ 63) then None else Some (Inr d))"
proof (cases "d = 0")
  case True
  then show ?thesis using assms(3) parse_zero by (simp add: mt_duration_format_def)
next
  case False
  define u where "u = (if d < 0 then nat (- (d + 1)) + 1 else nat d)"
  have u: "0 < u" "u \<le> TWO63" "int u = \<bar>d\<bar>" "u = TWO63 \<longleftrightarrow> d = - (2 ^ 63)" using assms(1,2) False by (auto simp: u_def)
  have "\<exists>s. (if u < 1000000000 then format_small u else format_large u) = Some s \<and> printed 24 u s"
    using small_printed [of u] large_printed [of u] u(1,2) by (auto simp: printed_def)
  then obtain s where s: "(if u < 1000000000 then format_small u else format_large u) = Some s" "printed 24 u s" by blast
  then have "length s \<le> 24" by (simp add: printed_def)
  then have "mt_duration_format d out_len = Some (Some (if d < 0 then CHR ''-'' # s else s))"
    using u(1) assms(3) s(1) unfolding mt_duration_format_def Let_def u_def [symmetric] by (simp add: putb_def)
  then show ?thesis using parse_printed [OF s(2) u(2)] u(3,4) \<open>length s \<le> 24\<close> by auto
qed

theorem duration_round_trip_witness:
  "\<exists>s. mt_duration_format (- 5400000000001) 64 = Some (Some s) \<and> length s \<le> 25 \<and> mt_duration_parse s = Some (Inr (- 5400000000001))"
  using duration_round_trip [of "- 5400000000001" 64] by simp

end
