(* ===== verification/Ipset.thy ===== *)
theory Ipset
  imports Prelude
begin

text \<open>
  \<^verbatim>\<open>src/netfilter/ipset.c\<close>: the pair of kernel sets of one group, an IPv4 and an IPv6 one, behind a
  transport that is a record of functions on the state of the transport (\<^verbatim>\<open>mt_ipset_nl_ops_t\<close>); and
  \<^verbatim>\<open>tests/unit/fake_ipset_nl.c\<close>, the in-memory transport of the tests (without its call log and
  injected failures; its names are kept in 64 bytes, and the model has no such bound).

  \<^verbatim>\<open>mt_ipv4_subnet_t\<close> and \<^verbatim>\<open>mt_ipv6_subnet_t\<close> are both an address and a prefix length; the two entry types
  of the lists become one, with the timeout an option (\<^verbatim>\<open>has_timeout\<close>).
\<close>

section \<open>Data\<close>

type_synonym mt_subnet = "u8 list \<times> u8"

record mt_ipset_entry =
  ie_subnet :: mt_subnet
  ie_timeout :: "u32 option"

datatype inet_family = AF_INET | AF_INET6

record 's mt_ipset_nl =
  nl_create :: "string \<Rightarrow> inet_family \<Rightarrow> u32 \<Rightarrow> 's \<Rightarrow> mt_err \<times> 's"
  nl_destroy :: "string \<Rightarrow> 's \<Rightarrow> mt_err \<times> 's"
  nl_add :: "string \<Rightarrow> u8 list \<Rightarrow> u8 \<Rightarrow> u32 option \<Rightarrow> bool \<Rightarrow> 's \<Rightarrow> mt_err \<times> 's"
  nl_del :: "string \<Rightarrow> u8 list \<Rightarrow> u8 \<Rightarrow> 's \<Rightarrow> mt_err \<times> 's"
  nl_list4 :: "string \<Rightarrow> 's \<Rightarrow> mt_err + mt_ipset_entry list"
  nl_list6 :: "string \<Rightarrow> 's \<Rightarrow> mt_err + mt_ipset_entry list"

record mt_ipset =
  name4 :: string
  name6 :: string
  ipset_on :: bool

section \<open>The pair of sets\<close>

definition MT_IPSET_DEFAULT_TIMEOUT :: u32 where
  "MT_IPSET_DEFAULT_TIMEOUT = 300"

definition mt_ipset_new :: "string \<Rightarrow> mt_ipset" where
  "mt_ipset_new name = \<lparr>name4 = name @ ''_4'', name6 = name @ ''_6'', ipset_on = False\<rparr>"

definition ipset_destroy_both :: "'s mt_ipset_nl \<Rightarrow> mt_ipset \<Rightarrow> 's \<Rightarrow> mt_err \<times> 's" where
  "ipset_destroy_both N r s =
    (case nl_destroy N (name4 r) s of (e4, s1) \<Rightarrow>
     case nl_destroy N (name6 r) s1 of (e6, s2) \<Rightarrow>
       (if e4 \<noteq> MT_OK then e4 else e6, s2))"

definition ipset_create_both :: "'s mt_ipset_nl \<Rightarrow> mt_ipset \<Rightarrow> 's \<Rightarrow> mt_err \<times> 's" where
  "ipset_create_both N r s =
    (case nl_create N (name4 r) AF_INET MT_IPSET_DEFAULT_TIMEOUT s of (err, s1) \<Rightarrow>
       if err \<noteq> MT_OK then (err, s1)
       else nl_create N (name6 r) AF_INET6 MT_IPSET_DEFAULT_TIMEOUT s1)"

definition mt_ipset_enable :: "'s mt_ipset_nl \<Rightarrow> mt_ipset \<Rightarrow> 's \<Rightarrow> mt_err \<times> mt_ipset \<times> 's" where
  "mt_ipset_enable N r s =
    (if ipset_on r then (MT_OK, r, s)
     else case ipset_destroy_both N r s of (err, s1) \<Rightarrow>
       case (if err = MT_OK then ipset_create_both N r s1 else (err, s1)) of (err, s2) \<Rightarrow>
         if err \<noteq> MT_OK then (err, r, snd (ipset_destroy_both N r s2))
         else (MT_OK, r\<lparr>ipset_on := True\<rparr>, s2))"

definition mt_ipset_disable :: "'s mt_ipset_nl \<Rightarrow> mt_ipset \<Rightarrow> 's \<Rightarrow> mt_err \<times> mt_ipset \<times> 's" where
  "mt_ipset_disable N r s =
    (if \<not> ipset_on r then (MT_OK, r, s)
     else case ipset_destroy_both N r s of (err, s1) \<Rightarrow> (err, r\<lparr>ipset_on := False\<rparr>, s1))"

definition tv_of :: "u32 option \<Rightarrow> u32" where
  "tv_of timeout = (case timeout of Some t \<Rightarrow> t | None \<Rightarrow> 0)"

definition mt_ipset_add4 :: "'s mt_ipset_nl \<Rightarrow> mt_ipset \<Rightarrow> mt_subnet \<Rightarrow> u32 option \<Rightarrow> 's \<Rightarrow> mt_err \<times> 's" where
  "mt_ipset_add4 N r subnet timeout s =
    (if \<not> ipset_on r then (MT_OK, s)
     else nl_add N (name4 r) (fst subnet) (snd subnet) (Some (tv_of timeout)) True s)"

definition mt_ipset_add6 :: "'s mt_ipset_nl \<Rightarrow> mt_ipset \<Rightarrow> mt_subnet \<Rightarrow> u32 option \<Rightarrow> 's \<Rightarrow> mt_err \<times> 's" where
  "mt_ipset_add6 N r subnet timeout s =
    (if \<not> ipset_on r then (MT_OK, s)
     else nl_add N (name6 r) (fst subnet) (snd subnet) (Some (tv_of timeout)) True s)"

definition mt_ipset_del4 :: "'s mt_ipset_nl \<Rightarrow> mt_ipset \<Rightarrow> mt_subnet \<Rightarrow> 's \<Rightarrow> mt_err \<times> 's" where
  "mt_ipset_del4 N r subnet s =
    (if \<not> ipset_on r then (MT_OK, s) else nl_del N (name4 r) (fst subnet) (snd subnet) s)"

definition mt_ipset_del6 :: "'s mt_ipset_nl \<Rightarrow> mt_ipset \<Rightarrow> mt_subnet \<Rightarrow> 's \<Rightarrow> mt_err \<times> 's" where
  "mt_ipset_del6 N r subnet s =
    (if \<not> ipset_on r then (MT_OK, s) else nl_del N (name6 r) (fst subnet) (snd subnet) s)"

definition mt_ipset_list4 :: "'s mt_ipset_nl \<Rightarrow> mt_ipset \<Rightarrow> 's \<Rightarrow> mt_err + mt_ipset_entry list" where
  "mt_ipset_list4 N r s = (if \<not> ipset_on r then Inr [] else nl_list4 N (name4 r) s)"

definition mt_ipset_list6 :: "'s mt_ipset_nl \<Rightarrow> mt_ipset \<Rightarrow> 's \<Rightarrow> mt_err + mt_ipset_entry list" where
  "mt_ipset_list6 N r s = (if \<not> ipset_on r then Inr [] else nl_list6 N (name6 r) s)"

section \<open>The in-memory transport\<close>

record fake_set =
  fs_name :: string
  fs_exists :: bool
  fs_entries :: "mt_ipset_entry list"

definition fake_find :: "fake_set list \<Rightarrow> string \<Rightarrow> fake_set option" where
  "fake_find sets name = find (\<lambda>x. fs_name x = name) sets"

fun fake_update :: "(fake_set \<Rightarrow> fake_set) \<Rightarrow> string \<Rightarrow> fake_set list \<Rightarrow> fake_set list" where
  "fake_update f name [] = [f \<lparr>fs_name = name, fs_exists = False, fs_entries = []\<rparr>]"
| "fake_update f name (x # xs) = (if fs_name x = name then f x # xs else x # fake_update f name xs)"

definition fake_create :: "string \<Rightarrow> inet_family \<Rightarrow> u32 \<Rightarrow> fake_set list \<Rightarrow> mt_err \<times> fake_set list" where
  "fake_create name family default_timeout sets =
    (MT_OK, fake_update (\<lambda>x. x\<lparr>fs_exists := True, fs_entries := []\<rparr>) name sets)"

definition fake_destroy :: "string \<Rightarrow> fake_set list \<Rightarrow> mt_err \<times> fake_set list" where
  "fake_destroy name sets =
    (MT_OK, if fake_find sets name = None then sets
            else fake_update (\<lambda>x. x\<lparr>fs_exists := False, fs_entries := []\<rparr>) name sets)"

fun entries_add ::
  "mt_subnet \<Rightarrow> u32 option \<Rightarrow> mt_ipset_entry list \<Rightarrow> mt_ipset_entry list" where
  "entries_add key timeout [] = [\<lparr>ie_subnet = key, ie_timeout = timeout\<rparr>]"
| "entries_add key timeout (e # es) =
     (if ie_subnet e = key then e\<lparr>ie_timeout := timeout\<rparr> # es else e # entries_add key timeout es)"

definition fake_add ::
  "string \<Rightarrow> u8 list \<Rightarrow> u8 \<Rightarrow> u32 option \<Rightarrow> bool \<Rightarrow> fake_set list \<Rightarrow> mt_err \<times> fake_set list" where
  "fake_add name ip cidr timeout replace sets =
    (if \<not> replace \<and> (case fake_find sets name of None \<Rightarrow> False
          | Some x \<Rightarrow> list_ex (\<lambda>e. ie_subnet e = (ip, cidr)) (fs_entries x))
     then (MT_ERR_EXIST, sets)
     else (MT_OK, fake_update (\<lambda>x. x\<lparr>fs_entries := entries_add (ip, cidr) timeout (fs_entries x)\<rparr>) name sets))"

fun entries_del :: "mt_subnet \<Rightarrow> mt_ipset_entry list \<Rightarrow> mt_ipset_entry list" where
  "entries_del key [] = []"
| "entries_del key (e # es) = (if ie_subnet e = key then es else e # entries_del key es)"

definition fake_del :: "string \<Rightarrow> u8 list \<Rightarrow> u8 \<Rightarrow> fake_set list \<Rightarrow> mt_err \<times> fake_set list" where
  "fake_del name ip cidr sets =
    (MT_OK, if fake_find sets name = None then sets
            else fake_update (\<lambda>x. x\<lparr>fs_entries := entries_del (ip, cidr) (fs_entries x)\<rparr>) name sets)"

definition fake_list :: "nat \<Rightarrow> string \<Rightarrow> fake_set list \<Rightarrow> mt_err + mt_ipset_entry list" where
  "fake_list iplen name sets =
    (case fake_find sets name of None \<Rightarrow> Inr []
     | Some x \<Rightarrow> if \<not> fs_exists x \<or> fs_entries x = [] then Inr []
                 else Inr (filter (\<lambda>e. length (fst (ie_subnet e)) = iplen) (fs_entries x)))"

definition fake_ipset_nl :: "fake_set list mt_ipset_nl" where
  "fake_ipset_nl =
    \<lparr>nl_create = fake_create, nl_destroy = fake_destroy, nl_add = fake_add, nl_del = fake_del,
     nl_list4 = fake_list 4, nl_list6 = fake_list 16\<rparr>"

end
