(* ===== verification/Ruleset_Sync.thy ===== *)
theory Ruleset_Sync
  imports Ipset C_Text Models Matcher Dns_Cache
begin

text \<open>
  The synchronisation of a group with its kernel sets, \<^verbatim>\<open>sync_build_new_lists\<close>, \<^verbatim>\<open>sync_diff_v4\<close> and
  \<^verbatim>\<open>sync_diff_v6\<close> of \<^verbatim>\<open>src/netfilter/ruleset.c\<close>: the addresses a group should have are collected from its
  subnet rules and from the DNS cache, and the difference to what the sets hold is sent to the
  transport.

  The address parsers of the C library are the two functions of a parameter; an allocation that fails
  is not modelled.  \<^const>\<open>None\<close> is a rule without a type or a text, which the C code would dereference.
\<close>

record inet_lib =
  pton4 :: "string \<Rightarrow> u8 list option"
  pton6 :: "string \<Rightarrow> u8 list option"

section \<open>The wanted addresses\<close>

type_synonym new_list = "(mt_subnet \<times> u32 option) list"

definition should_overwrite :: "u32 option \<Rightarrow> u32 option \<Rightarrow> bool" where
  "should_overwrite t ttl = (case (t, ttl) of (Some old, Some new) \<Rightarrow> new > old | _ \<Rightarrow> False)"

fun new_upsert ::
  "('k \<times> u32 option) list \<Rightarrow> 'k \<Rightarrow> u32 option \<Rightarrow> bool \<Rightarrow> ('k \<times> u32 option) list" where
  "new_upsert [] key ttl improve_only = [(key, ttl)]"
| "new_upsert ((k, t) # l) key ttl improve_only =
    (if k \<noteq> key then (k, t) # new_upsert l key ttl improve_only
     else if improve_only \<and> \<not> should_overwrite t ttl then (k, t) # l
     else (k, ttl) # l)"

definition new4_upsert :: "new_list \<Rightarrow> mt_subnet \<Rightarrow> u32 option \<Rightarrow> bool \<Rightarrow> new_list" where
  "new4_upsert = new_upsert"

definition new6_upsert :: "new_list \<Rightarrow> mt_subnet \<Rightarrow> u32 option \<Rightarrow> bool \<Rightarrow> new_list" where
  "new6_upsert = new_upsert"

text \<open>The optional prefix length after a slash; \<^const>\<open>None\<close> rejects the rule.\<close>

definition split_prefix :: "string \<Rightarrow> int \<Rightarrow> (string \<times> int) option" where
  "split_prefix rule full =
    (if length rule \<ge> 256 then None
     else if CHR ''/'' \<notin> set rule then Some (rule, full)
     else let buf = takeWhile (\<lambda>c. c \<noteq> CHR ''/'') rule;
              text = tl (dropWhile (\<lambda>c. c \<noteq> CHR ''/'') rule)
          in case c_strtol text of (ones, rest) \<Rightarrow>
               if rest = text \<or> rest \<noteq> [] \<or> ones < 0 \<or> ones > full then None else Some (buf, ones))"

definition u32_of_bytes :: "u8 list \<Rightarrow> u32" where
  "u32_of_bytes bs = push_bit 24 (ucast (bs ! 0)) OR push_bit 16 (ucast (bs ! 1)) OR
     push_bit 8 (ucast (bs ! 2)) OR ucast (bs ! 3)"

definition bytes_of_u32 :: "u32 \<Rightarrow> u8 list" where
  "bytes_of_u32 w = [ucast (drop_bit 24 w), ucast (drop_bit 16 w), ucast (drop_bit 8 w), ucast w]"

definition prefix_mask :: "int \<Rightarrow> u32" where
  "prefix_mask ones = (if ones = 0 then 0 else push_bit (nat (32 - ones)) 0xFFFFFFFF)"

definition parse_ipv4_rule :: "inet_lib \<Rightarrow> string \<Rightarrow> mt_subnet option" where
  "parse_ipv4_rule L rule =
    (case split_prefix rule 32 of None \<Rightarrow> None
     | Some (buf, ones) \<Rightarrow>
       (case pton4 L buf of None \<Rightarrow> None
        | Some a \<Rightarrow> Some (bytes_of_u32 (u32_of_bytes a AND prefix_mask ones), word_of_int ones)))"

definition mask_byte :: "int \<Rightarrow> nat \<Rightarrow> u8 \<Rightarrow> u8" where
  "mask_byte ones i b =
    (let full_bytes = nat (ones div 8); rem_bits = nat (ones mod 8) in
     if i < full_bytes then b
     else if i = full_bytes \<and> rem_bits > 0 then b AND push_bit (8 - rem_bits) 0xFF
     else 0)"

definition parse_ipv6_rule :: "inet_lib \<Rightarrow> string \<Rightarrow> mt_subnet option" where
  "parse_ipv6_rule L rule =
    (case split_prefix rule 128 of None \<Rightarrow> None
     | Some (buf, ones) \<Rightarrow>
       (case pton6 L buf of None \<Rightarrow> None
        | Some a \<Rightarrow> Some (map (\<lambda>i. mask_byte ones i (a ! i)) [0..<16], word_of_int ones)))"

text \<open>A rule for everything becomes the two halves of the address space.\<close>

definition add_static4 :: "mt_subnet \<Rightarrow> new_list \<Rightarrow> new_list" where
  "add_static4 subnet new4 =
    (if snd subnet = 0
     then new4_upsert (new4_upsert new4 ([0x00, 0, 0, 0], 1) None False) ([0x80, 0, 0, 0], 1) None False
     else new4_upsert new4 subnet None False)"

definition add_static6 :: "mt_subnet \<Rightarrow> new_list \<Rightarrow> new_list" where
  "add_static6 subnet new6 =
    (if snd subnet = 0
     then new6_upsert (new6_upsert new6 (replicate 16 0, 1) None False) (0x80 # replicate 15 0, 1) None False
     else new6_upsert new6 subnet None False)"

definition add_cached :: "int \<Rightarrow> cache_addr \<Rightarrow> new_list \<times> new_list \<Rightarrow> new_list \<times> new_list" where
  "add_cached now a st =
    (case st of (new4, new6) \<Rightarrow>
     let remain = deadline a - now; ttl = word_of_int remain in
     if remain \<le> 0 then st
     else if length (addr a) = 4 then (new4_upsert new4 (addr a, 0) (Some ttl) True, new6)
     else if length (addr a) = 16 then (new4, new6_upsert new6 (addr a, 0) (Some ttl) True)
     else st)"

definition add_domain ::
  "'re pcre2 \<Rightarrow> mt_cache \<Rightarrow> int \<Rightarrow> 're mt_rule_matcher \<Rightarrow> string \<Rightarrow> new_list \<times> new_list \<Rightarrow> new_list \<times> new_list" where
  "add_domain P c now rm d st =
    (if \<not> mt_rule_matcher_match P rm d then st
     else fold (add_cached now) (mt_cache_get_addresses c d now) st)"

definition sync_rule ::
  "'re pcre2 \<Rightarrow> inet_lib \<Rightarrow> mt_cache \<Rightarrow> int \<Rightarrow> mt_rule \<Rightarrow> new_list \<times> new_list \<Rightarrow> (new_list \<times> new_list) option" where
  "sync_rule P L c now r st =
    (if \<not> rule_enable r then Some st
     else case (rule_type r, rule_rule r) of
       (Some type, Some rule) \<Rightarrow>
         if type = ''subnet'' then
           Some (case parse_ipv4_rule L rule of None \<Rightarrow> st | Some s \<Rightarrow> (add_static4 s (fst st), snd st))
         else if type = ''subnet6'' then
           Some (case parse_ipv6_rule L rule of None \<Rightarrow> st | Some s \<Rightarrow> (fst st, add_static6 s (snd st)))
         else Some (fold (add_domain P c now (mt_rule_matcher_new P type rule))
                     (mt_cache_list_known_domains c) st)
     | _ \<Rightarrow> None)"

definition sync_build_new_lists ::
  "'re pcre2 \<Rightarrow> inet_lib \<Rightarrow> mt_group \<Rightarrow> mt_cache \<Rightarrow> int \<Rightarrow> (new_list \<times> new_list) option" where
  "sync_build_new_lists P L g c now = foldM (sync_rule P L c now) (items (group_rules g)) ([], [])"

section \<open>The difference to the sets\<close>

fun first_index :: "mt_subnet \<Rightarrow> mt_ipset_entry list \<Rightarrow> nat option" where
  "first_index k [] = None"
| "first_index k (e # es) = (if ie_subnet e = k then Some 0 else map_option Suc (first_index k es))"

definition skip_add :: "mt_ipset_entry \<Rightarrow> u32 option \<Rightarrow> bool" where
  "skip_add e ttl =
    (case ie_timeout e of None \<Rightarrow> True
     | Some old \<Rightarrow> (case ttl of Some new \<Rightarrow> new < old | None \<Rightarrow> False))"

fun diff_adds ::
  "(mt_subnet \<Rightarrow> u32 option \<Rightarrow> 's \<Rightarrow> mt_err \<times> 's) \<Rightarrow> mt_ipset_entry list \<Rightarrow> new_list \<Rightarrow> bool list \<Rightarrow> 's \<Rightarrow>
   bool list \<times> 's" where
  "diff_adds add old [] kept s = (kept, s)"
| "diff_adds add old ((k, ttl) # new) kept s =
    (case first_index k old of
       None \<Rightarrow> diff_adds add old new kept (snd (add k ttl s))
     | Some j \<Rightarrow> diff_adds add old new (kept[j := True])
                  (if skip_add (old ! j) ttl then s else snd (add k ttl s)))"

fun diff_dels :: "(mt_subnet \<Rightarrow> 's \<Rightarrow> mt_err \<times> 's) \<Rightarrow> mt_ipset_entry list \<Rightarrow> bool list \<Rightarrow> 's \<Rightarrow> 's" where
  "diff_dels del (e # old) (k # kept) s = diff_dels del old kept (if k then s else snd (del (ie_subnet e) s))"
| "diff_dels del _ _ s = s"

definition sync_diff ::
  "(mt_subnet \<Rightarrow> u32 option \<Rightarrow> 's \<Rightarrow> mt_err \<times> 's) \<Rightarrow> (mt_subnet \<Rightarrow> 's \<Rightarrow> mt_err \<times> 's) \<Rightarrow>
   (mt_err + mt_ipset_entry list) \<Rightarrow> new_list \<Rightarrow> 's \<Rightarrow> mt_err \<times> 's" where
  "sync_diff add del listed new s =
    (case listed of Inl e \<Rightarrow> (e, s)
     | Inr old \<Rightarrow>
       (case diff_adds add old new (replicate (length old) False) s of (kept, s1) \<Rightarrow>
          (MT_OK, diff_dels del old kept s1)))"

definition sync_diff_v4 :: "'s mt_ipset_nl \<Rightarrow> mt_ipset \<Rightarrow> new_list \<Rightarrow> 's \<Rightarrow> mt_err \<times> 's" where
  "sync_diff_v4 N r new4 s = sync_diff (mt_ipset_add4 N r) (mt_ipset_del4 N r) (mt_ipset_list4 N r s) new4 s"

definition sync_diff_v6 :: "'s mt_ipset_nl \<Rightarrow> mt_ipset \<Rightarrow> new_list \<Rightarrow> 's \<Rightarrow> mt_err \<times> 's" where
  "sync_diff_v6 N r new6 s = sync_diff (mt_ipset_add6 N r) (mt_ipset_del6 N r) (mt_ipset_list6 N r s) new6 s"

text \<open>The body of \<^verbatim>\<open>mt_ruleset_sync\<close> behind its two guards.\<close>

definition ruleset_sync_sets ::
  "'re pcre2 \<Rightarrow> inet_lib \<Rightarrow> 's mt_ipset_nl \<Rightarrow> mt_group \<Rightarrow> mt_ipset \<Rightarrow> mt_cache \<Rightarrow> int \<Rightarrow> 's \<Rightarrow> (mt_err \<times> 's) option" where
  "ruleset_sync_sets P L N g r c now s =
    (case sync_build_new_lists P L g c now of None \<Rightarrow> None
     | Some (new4, new6) \<Rightarrow>
       Some (case sync_diff_v4 N r new4 s of (err, s1) \<Rightarrow>
         if err = MT_OK then sync_diff_v6 N r new6 s1 else (err, s1)))"

section \<open>The wanted addresses, exactly\<close>

lemma upsert_map_of:
  "map_of (new_upsert l k ttl imp) =
    (map_of l)(k \<mapsto> (case map_of l k of None \<Rightarrow> ttl
       | Some t \<Rightarrow> if imp \<and> \<not> should_overwrite t ttl then t else ttl))"
  by (induction l k ttl imp rule: new_upsert.induct) (auto simp: fun_eq_iff)

lemma upsert_keys:
  "map fst (new_upsert l k ttl imp) = (if k \<in> set (map fst l) then map fst l else map fst l @ [k])"
proof (induction l)
  case (Cons a l)
  then show ?case by (cases a; cases "fst a = k") simp_all
qed simp

text \<open>
  The upserts of a synchronisation, in order: a static subnet is permanent and overwrites, a cached
  address has a lifetime, the prefix length 0 and only improves.
\<close>

definition run_ops :: "('k \<times> u32 option) list \<Rightarrow> ('k \<times> u32 option) list \<Rightarrow> ('k \<times> u32 option) list" where
  "run_ops ops l = fold (\<lambda>(k, ttl) l. new_upsert l k ttl (ttl \<noteq> None)) ops l"

lemma run_ops_simps [simp]:
  "run_ops [] l = l"
  "run_ops ((k, ttl) # ops) l = run_ops ops (new_upsert l k ttl (ttl \<noteq> None))"
  "run_ops (ops @ ops') l = run_ops ops' (run_ops ops l)"
  by (simp_all add: run_ops_def)

lemma run_ops_distinct: "distinct (map fst l) \<Longrightarrow> distinct (map fst (run_ops ops l))"
  by (induction ops arbitrary: l) (auto simp: upsert_keys)

lemma run_ops_snoc: "run_ops (ops @ [(k, ttl)]) l = new_upsert (run_ops ops l) k ttl (ttl \<noteq> None)"
  by simp

lemma run_ops_step:
  fixes old :: "u32 option option" and tt :: "u32 option"
  assumes None: "old = None \<longleftrightarrow> k \<notin> fst ` set ops" and perm: "old = Some None \<longleftrightarrow> (k, None) \<in> set ops"
    and ttl: "\<And>t. old = Some (Some t) \<longleftrightarrow>
      (k, None) \<notin> set ops \<and> (k, Some t) \<in> set ops \<and> (\<forall>t'. (k, Some t') \<in> set ops \<longrightarrow> t' \<le> t)"
  defines "new \<equiv> (case old of None \<Rightarrow> tt | Some v \<Rightarrow> if tt \<noteq> None \<and> \<not> should_overwrite v tt then v else tt)"
  shows "new = None \<longleftrightarrow> (k, None) \<in> set (ops @ [(k, tt)])"
    "new = Some t \<longleftrightarrow> (k, None) \<notin> set (ops @ [(k, tt)]) \<and> (k, Some t) \<in> set (ops @ [(k, tt)]) \<and>
       (\<forall>t'. (k, Some t') \<in> set (ops @ [(k, tt)]) \<longrightarrow> t' \<le> t)"
proof -
  have fresh: "(k, x) \<notin> set ops" if "old = None" for x using None that by force
  show "new = None \<longleftrightarrow> (k, None) \<in> set (ops @ [(k, tt)])"
    using perm fresh [of None] by (cases old; cases tt) (auto simp: new_def should_overwrite_def)
  show "new = Some t \<longleftrightarrow> (k, None) \<notin> set (ops @ [(k, tt)]) \<and> (k, Some t) \<in> set (ops @ [(k, tt)]) \<and>
       (\<forall>t'. (k, Some t') \<in> set (ops @ [(k, tt)]) \<longrightarrow> t' \<le> t)"
  proof (cases old)
    case None
    then show ?thesis using fresh by (auto simp: new_def)
  next
    case (Some v)
    show ?thesis
    proof (cases v)
      case None
      with Some perm show ?thesis by (cases tt) (auto simp: new_def should_overwrite_def)
    next
      case (Some o')
      with \<open>old = Some v\<close> ttl have o': "(k, None) \<notin> set ops" "(k, Some o') \<in> set ops"
        "\<And>t'. (k, Some t') \<in> set ops \<Longrightarrow> t' \<le> o'" by auto
      have new: "new = (if tt \<noteq> None \<and> \<not> should_overwrite (Some o') tt then Some o' else tt)"
        using Some \<open>old = Some v\<close> by (simp add: new_def)
      show ?thesis
      proof (cases tt)
        case (Some n)
        show ?thesis
        proof (cases "o' < n")
          case True
          with o' have lt: "\<And>t'. (k, Some t') \<in> set ops \<Longrightarrow> t' < n" by (meson le_less_trans)
          have new: "new = Some n" using new True Some by (simp add: should_overwrite_def)
          have "(k, Some t) \<in> set ops \<Longrightarrow> \<not> n \<le> t" for t using lt [of t] by simp
          moreover have "(k, Some t) \<in> set ops \<Longrightarrow> t \<le> n" for t using lt [of t] by simp
          ultimately show ?thesis using Some new o'(1) by auto
        next
          case False
          then show ?thesis using Some new o' by (auto simp: should_overwrite_def intro: antisym)
        qed
      qed (use new in auto)
    qed
  qed
qed

lemma run_ops_map_of:
  "(map_of (run_ops ops []) k = None \<longleftrightarrow> k \<notin> fst ` set ops) \<and>
   (map_of (run_ops ops []) k = Some None \<longleftrightarrow> (k, None) \<in> set ops) \<and>
   (\<forall>t. map_of (run_ops ops []) k = Some (Some t) \<longleftrightarrow>
     (k, None) \<notin> set ops \<and> (k, Some t) \<in> set ops \<and> (\<forall>t'. (k, Some t') \<in> set ops \<longrightarrow> t' \<le> t))"
proof (induction ops rule: rev_induct)
  case (snoc op ops)
  obtain kk tt where op: "op = (kk, tt)" by (cases op)
  show ?case
  proof (cases "k = kk")
    case True
    let ?old = "map_of (run_ops ops []) k"
    let ?new = "case ?old of None \<Rightarrow> tt | Some v \<Rightarrow> if tt \<noteq> None \<and> \<not> should_overwrite v tt then v else tt"
    have new: "map_of (run_ops (ops @ [op]) []) k = Some ?new"
      using True unfolding op run_ops_snoc upsert_map_of by simp
    have "?new = None \<longleftrightarrow> (k, None) \<in> set (ops @ [(k, tt)])"
      "?new = Some t \<longleftrightarrow> (k, None) \<notin> set (ops @ [(k, tt)]) \<and> (k, Some t) \<in> set (ops @ [(k, tt)]) \<and>
         (\<forall>t'. (k, Some t') \<in> set (ops @ [(k, tt)]) \<longrightarrow> t' \<le> t)" for t
      by (rule run_ops_step; use snoc in blast)+
    then show ?thesis unfolding new using True by (auto simp: op)
  qed (use snoc in \<open>simp add: op upsert_map_of\<close>)
qed simp

definition static_keys :: "u8 list \<Rightarrow> u8 list \<Rightarrow> mt_subnet \<Rightarrow> mt_subnet list" where
  "static_keys low high s = (if snd s = 0 then [(low, 1), (high, 1)] else [s])"

definition cached_ops :: "nat \<Rightarrow> int \<Rightarrow> cache_addr list \<Rightarrow> (mt_subnet \<times> u32 option) list" where
  "cached_ops n now as =
    map (\<lambda>a. ((addr a, 0), Some (word_of_int (deadline a - now))))
      (filter (\<lambda>a. deadline a > now \<and> length (addr a) = n) as)"

definition domain_ops ::
  "nat \<Rightarrow> 're pcre2 \<Rightarrow> mt_cache \<Rightarrow> int \<Rightarrow> string \<Rightarrow> string \<Rightarrow> string list \<Rightarrow> (mt_subnet \<times> u32 option) list" where
  "domain_ops n P c now type rule ds =
    concat (map (\<lambda>d. if mt_rule_matcher_match P (mt_rule_matcher_new P type rule) d
      then cached_ops n now (mt_cache_get_addresses c d now) else []) ds)"

definition rule_ops4 ::
  "'re pcre2 \<Rightarrow> inet_lib \<Rightarrow> mt_cache \<Rightarrow> int \<Rightarrow> mt_rule \<Rightarrow> (mt_subnet \<times> u32 option) list" where
  "rule_ops4 P L c now r =
    (if \<not> rule_enable r then []
     else case (rule_type r, rule_rule r) of
       (Some type, Some rule) \<Rightarrow>
         if type = ''subnet'' then
           (case parse_ipv4_rule L rule of None \<Rightarrow> []
            | Some s \<Rightarrow> map (\<lambda>k. (k, None)) (static_keys [0, 0, 0, 0] [0x80, 0, 0, 0] s))
         else if type = ''subnet6'' then []
         else domain_ops 4 P c now type rule (mt_cache_list_known_domains c)
     | _ \<Rightarrow> [])"

definition rule_ops6 ::
  "'re pcre2 \<Rightarrow> inet_lib \<Rightarrow> mt_cache \<Rightarrow> int \<Rightarrow> mt_rule \<Rightarrow> (mt_subnet \<times> u32 option) list" where
  "rule_ops6 P L c now r =
    (if \<not> rule_enable r then []
     else case (rule_type r, rule_rule r) of
       (Some type, Some rule) \<Rightarrow>
         if type = ''subnet'' then []
         else if type = ''subnet6'' then
           (case parse_ipv6_rule L rule of None \<Rightarrow> []
            | Some s \<Rightarrow> map (\<lambda>k. (k, None)) (static_keys (replicate 16 0) (0x80 # replicate 15 0) s))
         else domain_ops 16 P c now type rule (mt_cache_list_known_domains c)
     | _ \<Rightarrow> [])"

lemma add_static_ops:
  "add_static4 s l = run_ops (map (\<lambda>k. (k, None)) (static_keys [0, 0, 0, 0] [0x80, 0, 0, 0] s)) l"
  "add_static6 s l = run_ops (map (\<lambda>k. (k, None)) (static_keys (replicate 16 0) (0x80 # replicate 15 0) s)) l"
  by (simp_all add: add_static4_def add_static6_def static_keys_def new4_upsert_def new6_upsert_def)

lemma fold_add_cached:
  "fold (add_cached now) as (l4, l6) = (run_ops (cached_ops 4 now as) l4, run_ops (cached_ops 16 now as) l6)"
  by (induction as arbitrary: l4 l6)
    (auto simp: cached_ops_def add_cached_def Let_def new4_upsert_def new6_upsert_def)

lemma fold_add_domain:
  "fold (add_domain P c now (mt_rule_matcher_new P type rule)) ds (l4, l6) =
    (run_ops (domain_ops 4 P c now type rule ds) l4, run_ops (domain_ops 16 P c now type rule ds) l6)"
  by (induction ds arbitrary: l4 l6) (auto simp: domain_ops_def add_domain_def fold_add_cached)

lemma sync_rule_ops:
  "sync_rule P L c now r (l4, l6) = Some st \<Longrightarrow>
   st = (run_ops (rule_ops4 P L c now r) l4, run_ops (rule_ops6 P L c now r) l6)"
  by (auto simp: sync_rule_def rule_ops4_def rule_ops6_def fold_add_domain add_static_ops
      split: if_splits option.splits)

lemma sync_rules_ops:
  "foldM (sync_rule P L c now) rs (l4, l6) = Some st \<Longrightarrow>
   st = (run_ops (concat (map (rule_ops4 P L c now) rs)) l4, run_ops (concat (map (rule_ops6 P L c now) rs)) l6)"
  by (induction rs arbitrary: l4 l6) (auto split: option.splits dest: sync_rule_ops)

text \<open>
  What a group asks for.  \<open>static4\<close>, \<open>static6\<close>: the networks of its enabled subnet rules.  \<open>resolved\<close>: the
  addresses of length \<open>n\<close> that the cache knows for a name one of its other enabled rules matches, with
  the seconds they are still valid.
\<close>

definition group_rule :: "mt_group \<Rightarrow> string \<Rightarrow> string \<Rightarrow> bool" where
  "group_rule g type rule \<longleftrightarrow>
    (\<exists>r\<in>set (items (group_rules g)). rule_enable r \<and> rule_type r = Some type \<and> rule_rule r = Some rule)"

definition static4 :: "inet_lib \<Rightarrow> mt_group \<Rightarrow> mt_subnet \<Rightarrow> bool" where
  "static4 L g k \<longleftrightarrow> (\<exists>rule s. group_rule g ''subnet'' rule \<and> parse_ipv4_rule L rule = Some s \<and>
     (if snd s = 0 then k = ([0, 0, 0, 0], 1) \<or> k = ([0x80, 0, 0, 0], 1) else k = s))"

definition static6 :: "inet_lib \<Rightarrow> mt_group \<Rightarrow> mt_subnet \<Rightarrow> bool" where
  "static6 L g k \<longleftrightarrow> (\<exists>rule s. group_rule g ''subnet6'' rule \<and> parse_ipv6_rule L rule = Some s \<and>
     (if snd s = 0 then k = (replicate 16 0, 1) \<or> k = (0x80 # replicate 15 0, 1) else k = s))"

definition resolved :: "nat \<Rightarrow> 're pcre2 \<Rightarrow> mt_group \<Rightarrow> mt_cache \<Rightarrow> int \<Rightarrow> u8 list \<Rightarrow> u32 \<Rightarrow> bool" where
  "resolved n P g c now ip t \<longleftrightarrow>
    (\<exists>type rule d a. group_rule g type rule \<and> type \<noteq> ''subnet'' \<and> type \<noteq> ''subnet6'' \<and>
       d \<in> set (mt_cache_list_known_domains c) \<and> mt_rule_matcher_match P (mt_rule_matcher_new P type rule) d \<and>
       a \<in> set (mt_cache_get_addresses c d now) \<and> ip = addr a \<and> length (addr a) = n \<and>
       deadline a > now \<and> t = word_of_int (deadline a - now))"

lemma domain_ops_mem:
  "(k, x) \<in> set (domain_ops n P c now type rule ds) \<longleftrightarrow>
    (\<exists>d\<in>set ds. mt_rule_matcher_match P (mt_rule_matcher_new P type rule) d \<and>
       (\<exists>a\<in>set (mt_cache_get_addresses c d now). k = (addr a, 0) \<and> length (addr a) = n \<and>
          deadline a > now \<and> x = Some (word_of_int (deadline a - now))))"
  by (auto simp: domain_ops_def cached_ops_def split: if_splits)

lemma static_keys_mem: "k \<in> set (static_keys low high s) \<longleftrightarrow> (if snd s = 0 then k = (low, 1) \<or> k = (high, 1) else k = s)"
  by (auto simp: static_keys_def)

lemma rule_ops4_mem:
  "(k, x) \<in> set (rule_ops4 P L c now r) \<longleftrightarrow>
    (\<exists>type rule. rule_enable r \<and> rule_type r = Some type \<and> rule_rule r = Some rule \<and>
      (type = ''subnet'' \<and> x = None \<and> (\<exists>s. parse_ipv4_rule L rule = Some s \<and>
         k \<in> set (static_keys [0, 0, 0, 0] [0x80, 0, 0, 0] s)) \<or>
       type \<noteq> ''subnet'' \<and> type \<noteq> ''subnet6'' \<and>
         (k, x) \<in> set (domain_ops 4 P c now type rule (mt_cache_list_known_domains c))))"
  by (cases "rule_type r"; cases "rule_rule r"; cases "parse_ipv4_rule L (the (rule_rule r))")
    (auto simp: rule_ops4_def)

lemma rule_ops6_mem:
  "(k, x) \<in> set (rule_ops6 P L c now r) \<longleftrightarrow>
    (\<exists>type rule. rule_enable r \<and> rule_type r = Some type \<and> rule_rule r = Some rule \<and>
      (type = ''subnet6'' \<and> x = None \<and> (\<exists>s. parse_ipv6_rule L rule = Some s \<and>
         k \<in> set (static_keys (replicate 16 0) (0x80 # replicate 15 0) s)) \<or>
       type \<noteq> ''subnet'' \<and> type \<noteq> ''subnet6'' \<and>
         (k, x) \<in> set (domain_ops 16 P c now type rule (mt_cache_list_known_domains c))))"
  by (cases "rule_type r"; cases "rule_rule r"; cases "parse_ipv6_rule L (the (rule_rule r))")
    (auto simp: rule_ops6_def)

lemma ops_static4:
  "(k, None) \<in> set (concat (map (rule_ops4 P L c now) (items (group_rules g)))) \<longleftrightarrow> static4 L g k"
  unfolding static4_def group_rule_def static_keys_mem [symmetric] set_concat set_map UN_iff bex_simps rule_ops4_mem
    domain_ops_mem by blast

lemma ops_static6:
  "(k, None) \<in> set (concat (map (rule_ops6 P L c now) (items (group_rules g)))) \<longleftrightarrow> static6 L g k"
  unfolding static6_def group_rule_def static_keys_mem [symmetric] set_concat set_map UN_iff bex_simps rule_ops6_mem
    domain_ops_mem by blast

lemma ops_resolved4:
  "(k, Some t) \<in> set (concat (map (rule_ops4 P L c now) (items (group_rules g)))) \<longleftrightarrow>
    snd k = 0 \<and> resolved 4 P g c now (fst k) t"
  unfolding resolved_def group_rule_def set_concat set_map UN_iff bex_simps rule_ops4_mem
    domain_ops_mem prod_eq_iff [of k] fst_conv snd_conv option.inject option.distinct(2) by blast

lemma ops_resolved6:
  "(k, Some t) \<in> set (concat (map (rule_ops6 P L c now) (items (group_rules g)))) \<longleftrightarrow>
    snd k = 0 \<and> resolved 16 P g c now (fst k) t"
  unfolding resolved_def group_rule_def set_concat set_map UN_iff bex_simps rule_ops6_mem
    domain_ops_mem prod_eq_iff [of k] fst_conv snd_conv option.inject option.distinct(2) by blast

lemma static_prefix: "static4 L g k \<Longrightarrow> snd k \<noteq> 0" "static6 L g k \<Longrightarrow> snd k \<noteq> 0"
  by (auto simp: static4_def static6_def split: if_splits)

lemma ops_list:
  assumes "distinct (map fst l)" "l = run_ops ops []"
  shows "(k, None) \<in> set l \<longleftrightarrow> (k, None) \<in> set ops"
    "(k, Some t) \<in> set l \<longleftrightarrow>
      (k, None) \<notin> set ops \<and> (k, Some t) \<in> set ops \<and> (\<forall>t'. (k, Some t') \<in> set ops \<longrightarrow> t' \<le> t)"
proof -
  have l: "(k, v) \<in> set l \<longleftrightarrow> map_of (run_ops ops []) k = Some v" for v
    using map_of_eq_Some_iff [OF assms(1), of k v] assms(2) by simp
  show "(k, None) \<in> set l \<longleftrightarrow> (k, None) \<in> set ops" unfolding l using run_ops_map_of [of ops k] by blast
  show "(k, Some t) \<in> set l \<longleftrightarrow>
      (k, None) \<notin> set ops \<and> (k, Some t) \<in> set ops \<and> (\<forall>t'. (k, Some t') \<in> set ops \<longrightarrow> t' \<le> t)"
    unfolding l using run_ops_map_of [of ops k] by blast
qed

text \<open>
  C16.  The addresses wanted by a group.  Each family's list names every network at most once; the
  permanent entries are exactly the networks of the enabled subnet rules, with a rule for everything
  split into the two halves of the address space; the other entries are exactly the unexpired cached
  addresses of the names the other enabled rules match, each with the largest of the lifetimes it is
  found with.
\<close>

theorem sync_build_exact:
  assumes "sync_build_new_lists P L g c now = Some (new4, new6)"
  shows "distinct (map fst new4) \<and> distinct (map fst new6) \<and>
    (\<forall>k. (k, None) \<in> set new4 \<longleftrightarrow> static4 L g k) \<and>
    (\<forall>k. (k, None) \<in> set new6 \<longleftrightarrow> static6 L g k) \<and>
    (\<forall>k t. (k, Some t) \<in> set new4 \<longleftrightarrow> snd k = 0 \<and> resolved 4 P g c now (fst k) t \<and>
       (\<forall>t'. resolved 4 P g c now (fst k) t' \<longrightarrow> t' \<le> t)) \<and>
    (\<forall>k t. (k, Some t) \<in> set new6 \<longleftrightarrow> snd k = 0 \<and> resolved 16 P g c now (fst k) t \<and>
       (\<forall>t'. resolved 16 P g c now (fst k) t' \<longrightarrow> t' \<le> t))"
proof -
  let ?ops4 = "concat (map (rule_ops4 P L c now) (items (group_rules g)))"
  let ?ops6 = "concat (map (rule_ops6 P L c now) (items (group_rules g)))"
  have new: "new4 = run_ops ?ops4 []" "new6 = run_ops ?ops6 []"
    using sync_rules_ops [of P L c now "items (group_rules g)" "[]" "[]"] assms
    by (auto simp: sync_build_new_lists_def)
  have d: "distinct (map fst new4)" "distinct (map fst new6)"
    unfolding new by (simp_all add: run_ops_distinct)
  show ?thesis
    unfolding ops_list [OF d(1) new(1)] ops_list [OF d(2) new(2)] ops_static4 ops_static6
      ops_resolved4 ops_resolved6
    using d static_prefix by blast
qed

definition ex_lib :: inet_lib where
  "ex_lib = \<lparr>pton4 = (\<lambda>s. if s = ''10.1.2.3'' then Some [10, 1, 2, 3] else None), pton6 = (\<lambda>_. None)\<rparr>"

definition ex_subnet_group :: mt_group where
  "ex_subnet_group =
    \<lparr>group_id = MtId 0 0 0 1, group_name = Some ''g'', group_color = None, group_iface = None, group_enable = True,
     group_rules = \<lparr>items = [\<lparr>rule_id = MtId 0 0 0 2, rule_name = None, rule_type = Some ''subnet'',
       rule_rule = Some ''10.1.2.3/12'', rule_enable = True\<rparr>], cap = 8\<rparr>\<rparr>"

theorem sync_build_exact_witness:
  "static4 ex_lib ex_subnet_group ([10, 0, 0, 0], 12) \<and>
   sync_build_new_lists literal_pcre2 ex_lib ex_subnet_group (mt_cache_create 8) 0 = Some ([(([10, 0, 0, 0], 12), None)], [])"
proof -
  have p: "parse_ipv4_rule ex_lib ''10.1.2.3/12'' = Some ([10, 0, 0, 0], 12)" by code_simp
  then have b: "sync_build_new_lists literal_pcre2 ex_lib ex_subnet_group (mt_cache_create 8) 0 = Some ([(([10, 0, 0, 0], 12), None)], [])"
    by (simp add: sync_build_new_lists_def ex_subnet_group_def sync_rule_def add_static4_def new4_upsert_def)
  have "(([10, 0, 0, 0], 12), None) \<in> set [(([10, 0, 0, 0], 12 :: u8), None :: u32 option)]" by simp
  then have "static4 ex_lib ex_subnet_group ([10, 0, 0, 0], 12)" using sync_build_exact [OF b] by blast
  with b show ?thesis by (intro conjI)
qed

section \<open>The difference, exactly\<close>

text \<open>
  What the synchronisation relies on from a set of the transport: \<open>ent\<close> is the content of the set, a map
  from networks to timeouts; adding and deleting act on the network as the transport normalises it
  (\<open>norm\<close>), and the list reports every entry once, with its timeout as \<open>report\<close> shows it.
\<close>

definition listed_map :: "mt_ipset_entry list \<Rightarrow> mt_subnet \<Rightarrow> u32 option option" where
  "listed_map es = map_of (map (\<lambda>e. (ie_subnet e, ie_timeout e)) es)"

lemma listed_map_None: "listed_map es k = None \<longleftrightarrow> k \<notin> ie_subnet ` set es"
  unfolding listed_map_def map_of_eq_None_iff by (simp add: image_image)

lemma first_index_Some:
  "first_index k es = Some j \<Longrightarrow> j < length es \<and> ie_subnet (es ! j) = k \<and> listed_map es k = Some (ie_timeout (es ! j))"
  by (induction es arbitrary: j) (auto simp: listed_map_def split: if_splits)

lemma first_index_None: "first_index k es = None \<longleftrightarrow> k \<notin> ie_subnet ` set es"
  by (induction es) auto

text \<open>
  What a synchronisation makes of the entry for the network \<open>k\<close>.  An entry that the set has (with the timeout
  \<open>t\<close>) is deleted unless the list names its network literally; otherwise every element of the list that
  stands for \<open>k\<close> is written, the last one winning, but the element that names it literally is not written
  when the set reports the entry as permanent or with a longer timeout.
\<close>

definition overwrites :: "(u32 \<Rightarrow> u32 option) \<Rightarrow> mt_subnet \<Rightarrow> u32 option \<Rightarrow> mt_subnet \<times> u32 option \<Rightarrow> bool" where
  "overwrites report k old e =
    (case old of None \<Rightarrow> True
     | Some t \<Rightarrow> \<not> (fst e = k \<and> skip_add \<lparr>ie_subnet = k, ie_timeout = report t\<rparr> (snd e)))"

definition sync_written ::
  "(mt_subnet \<Rightarrow> mt_subnet) \<Rightarrow> (u32 \<Rightarrow> u32 option) \<Rightarrow> new_list \<Rightarrow> mt_subnet \<Rightarrow> u32 option \<Rightarrow> u32 option" where
  "sync_written norm report new k old =
    (let ws = filter (\<lambda>e. norm (fst e) = k \<and> overwrites report k old e) new
     in if ws = [] then old else Some (tv_of (snd (last ws))))"

definition sync_outcome ::
  "(mt_subnet \<Rightarrow> mt_subnet) \<Rightarrow> (u32 \<Rightarrow> u32 option) \<Rightarrow> new_list \<Rightarrow> mt_subnet \<Rightarrow> u32 option \<Rightarrow> u32 option" where
  "sync_outcome norm report new k old =
    (if old \<noteq> None \<and> k \<notin> fst ` set new then None else sync_written norm report new k old)"

locale ipset_store =
  fixes ent :: "'s \<Rightarrow> mt_subnet \<Rightarrow> u32 option"
    and add :: "mt_subnet \<Rightarrow> u32 option \<Rightarrow> 's \<Rightarrow> mt_err \<times> 's"
    and del :: "mt_subnet \<Rightarrow> 's \<Rightarrow> mt_err \<times> 's"
    and listing :: "'s \<Rightarrow> mt_err + mt_ipset_entry list"
    and norm :: "mt_subnet \<Rightarrow> mt_subnet"
    and report :: "u32 \<Rightarrow> u32 option"
    and wf :: "'s \<Rightarrow> bool"
    and wf_key :: "mt_subnet \<Rightarrow> bool"
  assumes ent_add: "wf s \<Longrightarrow> wf_key k \<Longrightarrow> ent (snd (add k t s)) = (ent s)(norm k \<mapsto> tv_of t)"
    and wf_add: "wf s \<Longrightarrow> wf_key k \<Longrightarrow> wf (snd (add k t s))"
    and ent_del: "wf s \<Longrightarrow> ent (snd (del k s)) = (ent s)(norm k := None)"
    and wf_del: "wf s \<Longrightarrow> wf (snd (del k s))"
    and ent_list: "wf s \<Longrightarrow> \<exists>es. listing s = Inr es \<and> distinct (map ie_subnet es) \<and>
      listed_map es = map_option report \<circ> ent s"
    and norm_ent: "wf s \<Longrightarrow> ent s k \<noteq> None \<Longrightarrow> norm k = k"
begin

lemma diff_adds_kept:
  assumes "distinct (map ie_subnet old)" "length kept = length old" "diff_adds add old new kept s = (kept', s')"
  shows "length kept' = length old \<and>
    (\<forall>j < length old. kept' ! j \<longleftrightarrow> kept ! j \<or> ie_subnet (old ! j) \<in> fst ` set new)"
  using assms(2,3)
proof (induction new arbitrary: kept s)
  case (Cons e new)
  obtain k ttl where e: "e = (k, ttl)" by (cases e)
  show ?case
  proof (cases "first_index k old")
    case None
    then have "\<forall>j < length old. ie_subnet (old ! j) \<noteq> k" by (auto simp: first_index_None)
    moreover have "length kept' = length old \<and> (\<forall>i < length old. kept' ! i \<longleftrightarrow>
        kept ! i \<or> ie_subnet (old ! i) \<in> fst ` set new)"
      using Cons.IH [OF Cons.prems(1)] Cons.prems(2) None by (simp add: e)
    ultimately show ?thesis by (simp add: e)
  next
    case (Some j)
    have j: "j < length old" "ie_subnet (old ! j) = k" using first_index_Some [OF Some] by auto
    have only: "i = j" if "i < length old" "ie_subnet (old ! i) = k" for i
      using nth_eq_iff_index_eq [OF assms(1), of i j] j that by simp
    have at: "kept[j := True] ! i \<longleftrightarrow> kept ! i \<or> ie_subnet (old ! i) = k" if i: "i < length old" for i
    proof (cases "i = j")
      case True
      then show ?thesis using j Cons.prems(1) by simp
    next
      case False
      then show ?thesis using only [OF i] by (metis nth_list_update_neq)
    qed
    have len: "length (kept[j := True]) = length old" using Cons.prems(1) by simp
    from Cons.IH [OF len] Cons.prems(2) Some
    have "length kept' = length old \<and> (\<forall>i < length old. kept' ! i \<longleftrightarrow>
        kept[j := True] ! i \<or> ie_subnet (old ! i) \<in> fst ` set new)" by (simp add: e)
    then show ?thesis using at by (simp add: e disj_ac)
  qed
qed simp

lemma diff_dels_ent:
  assumes "wf s" "length kept = length old"
  shows "wf (diff_dels del old kept s) \<and>
    ent (diff_dels del old kept s) k =
      (if \<exists>j < length old. \<not> kept ! j \<and> norm (ie_subnet (old ! j)) = k then None else ent s k)"
  using assms
proof (induction old kept arbitrary: s rule: list_induct2')
  case (4 e old b kept)
  have s: "wf (if b then s else snd (del (ie_subnet e) s))" using 4 by (simp add: wf_del)
  have ex: "(\<exists>j < length (e # old). \<not> (b # kept) ! j \<and> norm (ie_subnet ((e # old) ! j)) = k) \<longleftrightarrow>
      \<not> b \<and> norm (ie_subnet e) = k \<or> (\<exists>j < length old. \<not> kept ! j \<and> norm (ie_subnet (old ! j)) = k)"
    by (auto simp: less_Suc_eq_0_disj)
  show ?case using 4(1) [OF s] 4(2,3) unfolding ex by (auto simp: ent_del)
qed auto

lemma diff_adds_wf:
  "wf s \<Longrightarrow> list_all (\<lambda>e. wf_key (fst e)) new \<Longrightarrow> diff_adds add old new kept s = (kept', s') \<Longrightarrow> wf s'"
proof (induction new arbitrary: kept s)
  case (Cons e new)
  obtain k ttl where e: "e = (k, ttl)" by (cases e)
  have s: "wf s" "wf (snd (add k ttl s))" "list_all (\<lambda>e. wf_key (fst e)) new"
    using Cons.prems(1,2) wf_add by (auto simp: e)
  show ?case
  proof (cases "first_index k old")
    case None
    then show ?thesis using Cons.prems(3) Cons.IH [OF s(2,3), of kept] by (simp add: e)
  next
    case (Some j)
    have "wf (if skip_add (old ! j) ttl then s else snd (add k ttl s))" using s by simp
    then show ?thesis using Cons.prems(3) Cons.IH [OF _ s(3), of _ "kept[j := True]"] Some by (simp add: e)
  qed
qed auto

lemma diff_adds_ent:
  assumes "wf s" "list_all (\<lambda>e. wf_key (fst e) \<and> norm (fst e) = fst e) new" "distinct (map fst new)"
    "diff_adds add old new kept s = (kept', s')"
  shows "ent s' k = (case map_of new k of None \<Rightarrow> ent s k
     | Some ttl \<Rightarrow> (case listed_map old k of None \<Rightarrow> Some (tv_of ttl)
        | Some t \<Rightarrow> if skip_add \<lparr>ie_subnet = k, ie_timeout = t\<rparr> ttl then ent s k else Some (tv_of ttl)))"
  using assms
proof (induction new arbitrary: kept s)
  case (Cons e new)
  obtain kk ttl where e: "e = (kk, ttl)" by (cases e)
  have own: "map_of new kk = None" using Cons.prems(3) by (simp add: e map_of_eq_None_iff)
  have key: "wf_key kk" "norm kk = kk" using Cons.prems(2) by (auto simp: e)
  have add: "ent (snd (add kk ttl s)) = (ent s)(kk \<mapsto> tv_of ttl)" "wf (snd (add kk ttl s))"
    using ent_add [OF Cons.prems(1) key(1)] wf_add [OF Cons.prems(1) key(1)] key(2) by auto
  show ?case
  proof (cases "first_index kk old")
    case None
    then have "listed_map old kk = None" by (simp add: first_index_None listed_map_None)
    with Cons.IH [OF add(2), of kept] Cons.prems None own add show ?thesis
      by (cases "k = kk") (auto simp: e split: option.splits)
  next
    case (Some j)
    note j = first_index_Some [OF Some]
    have skip: "skip_add (old ! j) ttl = skip_add \<lparr>ie_subnet = kk, ie_timeout = ie_timeout (old ! j)\<rparr> ttl"
      by (simp add: skip_add_def)
    let ?s = "if skip_add (old ! j) ttl then s else snd (add kk ttl s)"
    have "wf ?s" using Cons.prems(1) add(2) by simp
    from Cons.IH [OF this, of "kept[j := True]"] Cons.prems Some own add j skip show ?thesis
      by (cases "k = kk") (auto simp: e split: option.splits)
  qed
qed simp

lemma diff_adds_written:
  assumes "wf s" "list_all (\<lambda>e. wf_key (fst e)) new" "diff_adds add old new kept s = (kept', s')"
    and old: "\<And>k. listed_map old k = map_option report (e0 k)" "\<And>k. e0 k \<noteq> None \<Longrightarrow> norm k = k"
  shows "ent s' k =
    (let ws = filter (\<lambda>e. norm (fst e) = k \<and> overwrites report k (e0 k) e) new
     in if ws = [] then ent s k else Some (tv_of (snd (last ws))))"
  using assms(1-3)
proof (induction new arbitrary: kept s)
  case (Cons e new)
  obtain kk ttl where e: "e = (kk, ttl)" by (cases e)
  have key: "wf_key kk" using Cons.prems(2) by (simp add: e)
  have add: "ent (snd (add kk ttl s)) = (ent s)(norm kk \<mapsto> tv_of ttl)" "wf (snd (add kk ttl s))"
    using ent_add [OF Cons.prems(1) key] wf_add [OF Cons.prems(1) key] by auto
  define w where "w = (\<not> (\<exists>j. first_index kk old = Some j \<and> skip_add (old ! j) ttl))"
  have w: "overwrites report (norm kk) (e0 (norm kk)) (kk, ttl) = w"
  proof (cases "first_index kk old")
    case None
    then have "e0 kk = None" using old(1) [of kk] by (simp add: first_index_None listed_map_None [symmetric])
    then have "norm kk = kk \<Longrightarrow> e0 (norm kk) = None" by simp
    then show ?thesis using None by (auto simp: w_def overwrites_def split: option.splits)
  next
    case (Some j)
    note j = first_index_Some [OF Some]
    then obtain t where t: "e0 kk = Some t" "ie_timeout (old ! j) = report t" using old(1) [of kk] by auto
    then have "norm kk = kk" using old(2) by simp
    then show ?thesis using t Some by (simp add: w_def overwrites_def skip_add_def)
  qed
  let ?s = "if w then snd (add kk ttl s) else s"
  have "wf ?s" using Cons.prems(1) add(2) by simp
  moreover have "\<exists>kept1. diff_adds add old new kept1 ?s = (kept', s')"
    using Cons.prems(3) by (cases "first_index kk old") (auto simp: e w_def)
  moreover have "list_all (\<lambda>e. wf_key (fst e)) new" using Cons.prems(2) by simp
  ultimately have IH: "ent s' k = (let ws = filter (\<lambda>e. norm (fst e) = k \<and> overwrites report k (e0 k) e) new
     in if ws = [] then ent ?s k else Some (tv_of (snd (last ws))))" using Cons.IH by blast
  show ?case
  proof (cases "norm kk = k \<and> w")
    case True
    then show ?thesis using IH add(1) w by (auto simp: e Let_def)
  next
    case False
    then have "ent ?s k = ent s k" using add(1) by auto
    moreover have "\<not> (norm kk = k \<and> overwrites report k (e0 k) (kk, ttl))" using False w by auto
    ultimately show ?thesis unfolding IH by (simp only: e filter.simps fst_conv if_False)
  qed
qed simp

lemma sync_diff_synced:
  assumes "wf s" "list_all (\<lambda>e. wf_key (fst e)) new"
  shows "\<exists>s'. sync_diff add del (listing s) new s = (MT_OK, s') \<and> wf s' \<and>
    (\<forall>k. ent s' k = sync_outcome norm report new k (ent s k))"
proof -
  obtain es where es: "listing s = Inr es" "distinct (map ie_subnet es)" "listed_map es = map_option report \<circ> ent s"
    using ent_list [OF assms(1)] by blast
  obtain kept s1 where adds: "diff_adds add es new (replicate (length es) False) s = (kept, s1)" by fastforce
  have kept: "length kept = length es" "\<And>j. j < length es \<Longrightarrow> kept ! j \<longleftrightarrow> ie_subnet (es ! j) \<in> fst ` set new"
    using diff_adds_kept [OF es(2) _ adds] by auto
  have s1: "wf s1" by (rule diff_adds_wf [OF assms adds])
  have listed: "ent s k \<noteq> None \<longleftrightarrow> k \<in> ie_subnet ` set es" for k
    using listed_map_None [of es k] es(3) by (cases "ent s k") auto
  have gone: "(\<exists>j < length es. \<not> kept ! j \<and> norm (ie_subnet (es ! j)) = k) \<longleftrightarrow>
      ent s k \<noteq> None \<and> k \<notin> fst ` set new" for k
  proof
    assume "\<exists>j < length es. \<not> kept ! j \<and> norm (ie_subnet (es ! j)) = k"
    then obtain j where j: "j < length es" "\<not> kept ! j" "norm (ie_subnet (es ! j)) = k" by blast
    then have "ent s (ie_subnet (es ! j)) \<noteq> None" using listed by simp
    then show "ent s k \<noteq> None \<and> k \<notin> fst ` set new" using norm_ent [OF assms(1)] j kept(2) by metis
  next
    assume k: "ent s k \<noteq> None \<and> k \<notin> fst ` set new"
    then obtain j where "j < length es" "ie_subnet (es ! j) = k" using listed by (auto simp: in_set_conv_nth)
    then show "\<exists>j < length es. \<not> kept ! j \<and> norm (ie_subnet (es ! j)) = k"
      using kept(2) k norm_ent [OF assms(1)] by metis
  qed
  have "ent (diff_dels del es kept s1) k = sync_outcome norm report new k (ent s k)" for k
    using diff_dels_ent [OF s1 kept(1), of k] diff_adds_written [OF assms adds, of "ent s" k] es(3) norm_ent [OF assms(1)]
    unfolding gone sync_outcome_def sync_written_def by simp
  then show ?thesis using es(1) adds diff_dels_ent [OF s1 kept(1)] by (auto simp: sync_diff_def)
qed

lemma sync_diff_total:
  assumes "wf s" "list_all (\<lambda>e. wf_key (fst e)) new"
  shows "\<exists>s'. sync_diff add del (listing s) new s = (MT_OK, s') \<and> wf s' \<and>
    (\<forall>k. ent s k \<noteq> None \<and> k \<notin> fst ` set new \<longrightarrow> ent s' k = None)"
proof -
  obtain es where es: "listing s = Inr es" "distinct (map ie_subnet es)" "listed_map es = map_option report \<circ> ent s"
    using ent_list [OF assms(1)] by blast
  obtain kept s1 where adds: "diff_adds add es new (replicate (length es) False) s = (kept, s1)" by fastforce
  have kept: "length kept = length es" "\<And>j. j < length es \<Longrightarrow> kept ! j \<longleftrightarrow> ie_subnet (es ! j) \<in> fst ` set new"
    using diff_adds_kept [OF es(2) _ adds] by auto
  have s1: "wf s1" by (rule diff_adds_wf [OF assms adds])
  have "ent (diff_dels del es kept s1) k = None" if k: "ent s k \<noteq> None" "k \<notin> fst ` set new" for k
  proof -
    have "listed_map es k \<noteq> None" using k(1) es(3) by simp
    then have "k \<in> ie_subnet ` set es" by (simp add: listed_map_None)
    then obtain j where "j < length es" "ie_subnet (es ! j) = k" by (auto simp: in_set_conv_nth)
    then have "\<exists>j < length es. \<not> kept ! j \<and> norm (ie_subnet (es ! j)) = k"
      using kept(2) k norm_ent [OF assms(1) k(1)] by auto
    then show ?thesis using diff_dels_ent [OF s1 kept(1), of k] by simp
  qed
  then show ?thesis using es(1) adds diff_dels_ent [OF s1 kept(1)] by (auto simp: sync_diff_def)
qed

lemma sync_diff_exact:
  assumes "wf s" "list_all (\<lambda>e. wf_key (fst e) \<and> norm (fst e) = fst e) new" "distinct (map fst new)"
  shows "\<exists>s'. sync_diff add del (listing s) new s = (MT_OK, s') \<and> wf s' \<and>
    (\<forall>k. ent s' k = (case map_of new k of None \<Rightarrow> None
       | Some ttl \<Rightarrow> (case ent s k of None \<Rightarrow> Some (tv_of ttl)
          | Some t \<Rightarrow> if skip_add \<lparr>ie_subnet = k, ie_timeout = report t\<rparr> ttl then Some t else Some (tv_of ttl))))"
proof -
  have keys: "list_all (\<lambda>e. wf_key (fst e)) new" using assms(2) by (auto simp: list_all_iff)
  obtain es where es: "listing s = Inr es" "distinct (map ie_subnet es)" "listed_map es = map_option report \<circ> ent s"
    using ent_list [OF assms(1)] by blast
  obtain kept s1 where adds: "diff_adds add es new (replicate (length es) False) s = (kept, s1)" by fastforce
  have kept: "length kept = length es" "\<And>j. j < length es \<Longrightarrow> kept ! j \<longleftrightarrow> ie_subnet (es ! j) \<in> fst ` set new"
    using diff_adds_kept [OF es(2) _ adds] by auto
  have s1: "wf s1" by (rule diff_adds_wf [OF assms(1) keys adds])
  have old: "norm (ie_subnet (es ! j)) = ie_subnet (es ! j)" if "j < length es" for j
  proof -
    have "listed_map es (ie_subnet (es ! j)) \<noteq> None"
      using that by (simp add: listed_map_None)
    then show ?thesis using es(3) norm_ent [OF assms(1)] by simp
  qed
  obtain s' where s': "sync_diff add del (listing s) new s = (MT_OK, s')" "wf s'"
    "\<And>k. ent s k \<noteq> None \<Longrightarrow> k \<notin> fst ` set new \<Longrightarrow> ent s' k = None"
    using sync_diff_total [OF assms(1) keys] by blast
  have s'_eq: "s' = diff_dels del es kept s1" using s'(1) es(1) adds by (simp add: sync_diff_def)
  have inside: "ent s' k = ent s1 k" if k: "k \<in> fst ` set new" for k
  proof -
    have "\<not> (\<exists>j < length es. \<not> kept ! j \<and> norm (ie_subnet (es ! j)) = k)" using kept(2) old k by metis
    then show ?thesis using diff_dels_ent [OF s1 kept(1), of k] unfolding s'_eq by (simp only: if_False)
  qed
  have out: "ent s' k = None" if "k \<notin> fst ` set new" for k
  proof (cases "ent s k")
    case None
    have "ent s1 k = ent s k" using diff_adds_ent [OF assms adds, of k] that
      by (simp add: map_of_eq_None_iff [THEN iffD2])
    then show ?thesis using None diff_dels_ent [OF s1 kept(1), of k] by (simp add: s'_eq)
  qed (use s'(3) that in blast)
  have "ent s' k = (case map_of new k of None \<Rightarrow> None
       | Some ttl \<Rightarrow> (case ent s k of None \<Rightarrow> Some (tv_of ttl)
          | Some t \<Rightarrow> if skip_add \<lparr>ie_subnet = k, ie_timeout = report t\<rparr> ttl then Some t else Some (tv_of ttl)))" for k
  proof (cases "map_of new k")
    case None
    then have "k \<notin> fst ` set new" by (simp add: map_of_eq_None_iff)
    then show ?thesis using out None by simp
  next
    case (Some ttl)
    then have "k \<in> fst ` set new" by (force dest: map_of_SomeD)
    then have "ent s' k = ent s1 k" by (rule inside)
    then show ?thesis using diff_adds_ent [OF assms adds, of k] es(3) Some
      by (cases "ent s k") (simp_all add: if_distrib)
  qed
  then show ?thesis using s'(1,2) by blast
qed

end

section \<open>The in-memory transport, and one that reports host prefixes\<close>

text \<open>
  The kernel stores an entry that was added without a prefix length as a host entry, lists it with the
  full prefix length (32 or 128, also what the parser of the lists assumes when the attribute is
  absent), and a timeout of 0 is listed as none.  \<open>host\<close> selects that behaviour; without it the
  operations are those of the transport of the tests.
\<close>

definition host_cidr :: "u8 list \<Rightarrow> u8 \<Rightarrow> u8" where
  "host_cidr ip cidr = (if cidr = 0 then of_nat (8 * length ip) else cidr)"

definition norm_key :: "bool \<Rightarrow> mt_subnet \<Rightarrow> mt_subnet" where
  "norm_key host k = (fst k, if host then host_cidr (fst k) (snd k) else snd k)"

definition report_timeout :: "bool \<Rightarrow> u32 \<Rightarrow> u32 option" where
  "report_timeout host t = (if host \<and> t = 0 then None else Some t)"

definition set_add ::
  "bool \<Rightarrow> string \<Rightarrow> mt_subnet \<Rightarrow> u32 option \<Rightarrow> fake_set list \<Rightarrow> mt_err \<times> fake_set list" where
  "set_add host name k t s =
    fake_add name (fst (norm_key host k)) (snd (norm_key host k)) (Some (tv_of t)) True s"

definition set_del :: "bool \<Rightarrow> string \<Rightarrow> mt_subnet \<Rightarrow> fake_set list \<Rightarrow> mt_err \<times> fake_set list" where
  "set_del host name k s = fake_del name (fst (norm_key host k)) (snd (norm_key host k)) s"

definition set_list :: "bool \<Rightarrow> nat \<Rightarrow> string \<Rightarrow> fake_set list \<Rightarrow> mt_err + mt_ipset_entry list" where
  "set_list host n name s =
    map_sum id (map (\<lambda>e. e\<lparr>ie_timeout := report_timeout host (tv_of (ie_timeout e))\<rparr>)) (fake_list n name s)"

definition host_ipset_nl :: "fake_set list mt_ipset_nl" where
  "host_ipset_nl =
    \<lparr>nl_create = fake_create, nl_destroy = fake_destroy,
     nl_add = (\<lambda>name ip cidr timeout replace s. fake_add name ip (host_cidr ip cidr) timeout replace s),
     nl_del = (\<lambda>name ip cidr s. fake_del name ip (host_cidr ip cidr) s),
     nl_list4 = set_list True 4, nl_list6 = set_list True 16\<rparr>"

definition set_entries :: "string \<Rightarrow> fake_set list \<Rightarrow> mt_ipset_entry list" where
  "set_entries name s = (case fake_find s name of None \<Rightarrow> [] | Some x \<Rightarrow> fs_entries x)"

definition set_ent :: "string \<Rightarrow> fake_set list \<Rightarrow> mt_subnet \<Rightarrow> u32 option" where
  "set_ent name s = map_option tv_of \<circ> listed_map (set_entries name s)"

definition set_wf :: "bool \<Rightarrow> nat \<Rightarrow> string \<Rightarrow> fake_set list \<Rightarrow> bool" where
  "set_wf host n name s \<longleftrightarrow>
    (\<exists>x. fake_find s name = Some x \<and> fs_exists x) \<and> distinct (map ie_subnet (set_entries name s)) \<and>
    list_all (\<lambda>e. ie_timeout e \<noteq> None \<and> length (fst (ie_subnet e)) = n \<and> (host \<longrightarrow> snd (ie_subnet e) \<noteq> 0))
      (set_entries name s)"

definition set_key :: "bool \<Rightarrow> nat \<Rightarrow> mt_subnet \<Rightarrow> bool" where
  "set_key host n k \<longleftrightarrow> length (fst k) = n \<and> (n = 4 \<or> n = 16)"

lemma fake_find_update:
  assumes "\<forall>x. fs_name (f x) = fs_name x"
  shows "fake_find (fake_update f name s) n =
    (if n = name then Some (f (case fake_find s name of Some x \<Rightarrow> x
        | None \<Rightarrow> \<lparr>fs_name = name, fs_exists = False, fs_entries = []\<rparr>))
     else fake_find s n)"
  using assms by (induction s) (auto simp: fake_find_def)

lemma listed_map_Cons [simp]:
  "listed_map [] = Map.empty"
  "listed_map (e # es) = (listed_map es)(ie_subnet e \<mapsto> ie_timeout e)"
  by (simp_all add: listed_map_def)

lemma entries_add_keys:
  "map ie_subnet (entries_add k t es) =
    (if k \<in> ie_subnet ` set es then map ie_subnet es else map ie_subnet es @ [k])"
  by (induction k t es rule: entries_add.induct) auto

lemma entries_add_map: "listed_map (entries_add k t es) = (listed_map es)(k \<mapsto> t)"
  by (induction k t es rule: entries_add.induct) (auto simp: fun_eq_iff)

lemma entries_add_set: "e \<in> set (entries_add k t es) \<Longrightarrow> e \<in> set es \<or> (ie_subnet e = k \<and> ie_timeout e = t)"
  by (induction k t es rule: entries_add.induct) (auto split: if_splits)

lemma entries_del_subset: "set (entries_del k es) \<subseteq> set es"
  by (induction k es rule: entries_del.induct) auto

lemma entries_del_distinct: "distinct (map ie_subnet es) \<Longrightarrow> distinct (map ie_subnet (entries_del k es))"
proof (induction k es rule: entries_del.induct)
  case (2 k e es)
  moreover have "ie_subnet e \<notin> ie_subnet ` set es \<Longrightarrow> ie_subnet e \<notin> ie_subnet ` set (entries_del k es)"
    using entries_del_subset by blast
  ultimately show ?case by auto
qed simp

lemma entries_del_map:
  "distinct (map ie_subnet es) \<Longrightarrow> listed_map (entries_del k es) = (listed_map es)(k := None)"
proof (induction k es rule: entries_del.induct)
  case (2 k e es)
  moreover have "ie_subnet e \<notin> ie_subnet ` set es \<Longrightarrow> listed_map es (ie_subnet e) = None"
    by (simp add: listed_map_None)
  ultimately show ?case by (auto simp: fun_eq_iff)
qed (simp add: fun_eq_iff)

lemma set_entries_add:
  "set_entries name (snd (set_add h name k t s)) = entries_add (norm_key h k) (Some (tv_of t)) (set_entries name s)"
  by (auto simp: set_entries_def set_add_def fake_add_def fake_find_update split: option.splits)

lemma set_entries_del:
  "set_entries name (snd (set_del h name k s)) = entries_del (norm_key h k) (set_entries name s)"
  by (auto simp: set_entries_def set_del_def fake_del_def fake_find_update split: option.splits)

lemma set_exists_add:
  "fake_find s name = Some x \<Longrightarrow> \<exists>y. fake_find (snd (set_add h name k t s)) name = Some y \<and> fs_exists y = fs_exists x"
  "fake_find s name = Some x \<Longrightarrow> \<exists>y. fake_find (snd (set_del h name k s)) name = Some y \<and> fs_exists y = fs_exists x"
  by (auto simp: set_add_def set_del_def fake_add_def fake_del_def fake_find_update)

lemma listed_map_map:
  "listed_map (map (\<lambda>e. e\<lparr>ie_timeout := f (ie_timeout e)\<rparr>) es) = map_option f \<circ> listed_map es"
  by (induction es) (auto simp: fun_eq_iff)

interpretation sets: ipset_store "set_ent name" "set_add h name" "set_del h name" "set_list h n name"
  "norm_key h" "report_timeout h" "set_wf h n name" "set_key h n" for h n name
proof
  fix s :: "fake_set list" and k :: mt_subnet and t :: "u32 option"
  assume wf: "set_wf h n name s"
  then obtain x where x: "fake_find s name = Some x" "fs_exists x" by (auto simp: set_wf_def)
  have old: "distinct (map ie_subnet (set_entries name s))"
    "\<forall>e\<in>set (set_entries name s). ie_timeout e \<noteq> None \<and> length (fst (ie_subnet e)) = n \<and> (h \<longrightarrow> snd (ie_subnet e) \<noteq> 0)"
    using wf by (auto simp: set_wf_def list_all_iff)
  show "set_ent name (snd (set_del h name k s)) = (set_ent name s)(norm_key h k := None)"
    by (simp add: set_ent_def set_entries_del entries_del_map [OF old(1)] fun_eq_iff)
  show "set_wf h n name (snd (set_del h name k s))"
    using set_exists_add(2) [OF x(1), of h k] x(2) entries_del_distinct [OF old(1)] old(2) entries_del_subset
    unfolding set_wf_def set_entries_del list_all_iff by blast
  show "\<exists>es. set_list h n name s = Inr es \<and> distinct (map ie_subnet es) \<and>
      listed_map es = map_option (report_timeout h) \<circ> set_ent name s"
  proof -
    have "fake_list n name s = Inr (set_entries name s)"
      using x old(2) by (auto simp: fake_list_def set_entries_def filter_id_conv)
    then show ?thesis using old(1)
      using listed_map_map [of "\<lambda>t. report_timeout h (tv_of t)" "set_entries name s"]
      by (auto simp: set_list_def set_ent_def comp_def option.map_comp)
  qed
  show "norm_key h k = k" if "set_ent name s k \<noteq> None"
  proof -
    have "k \<in> ie_subnet ` set (set_entries name s)"
      using that listed_map_None [of "set_entries name s" k] by (auto simp: set_ent_def)
    then have "h \<longrightarrow> snd k \<noteq> 0" using old(2) by blast
    then show ?thesis by (simp add: norm_key_def host_cidr_def)
  qed
  assume key: "set_key h n k"
  show "set_ent name (snd (set_add h name k t s)) = (set_ent name s)(norm_key h k \<mapsto> tv_of t)"
    by (simp add: set_ent_def set_entries_add entries_add_map fun_eq_iff tv_of_def)
  have nz: "h \<longrightarrow> snd (norm_key h k) \<noteq> 0" "length (fst (norm_key h k)) = n"
    using key by (auto simp: set_key_def norm_key_def host_cidr_def)
  have "ie_timeout e \<noteq> None \<and> length (fst (ie_subnet e)) = n \<and> (h \<longrightarrow> snd (ie_subnet e) \<noteq> 0)"
    if "e \<in> set (entries_add (norm_key h k) (Some (tv_of t)) (set_entries name s))" for e
    using that [THEN entries_add_set] old(2) nz by auto
  moreover have "distinct (map ie_subnet (entries_add (norm_key h k) (Some (tv_of t)) (set_entries name s)))"
    using old(1) by (simp add: entries_add_keys)
  ultimately show "set_wf h n name (snd (set_add h name k t s))"
    using set_exists_add(1) [OF x(1), of h k t] x(2) unfolding set_wf_def set_entries_add list_all_iff by blast
qed

lemma ipset_ops_fake:
  assumes "ipset_on r"
  shows "mt_ipset_add4 fake_ipset_nl r = set_add False (name4 r)"
    "mt_ipset_del4 fake_ipset_nl r = set_del False (name4 r)"
    "mt_ipset_add6 fake_ipset_nl r = set_add False (name6 r)"
    "mt_ipset_del6 fake_ipset_nl r = set_del False (name6 r)"
    "mt_ipset_add4 host_ipset_nl r = set_add True (name4 r)"
    "mt_ipset_del4 host_ipset_nl r = set_del True (name4 r)"
    "mt_ipset_list4 host_ipset_nl r = set_list True 4 (name4 r)"
    "mt_ipset_add6 host_ipset_nl r = set_add True (name6 r)"
    "mt_ipset_del6 host_ipset_nl r = set_del True (name6 r)"
    "mt_ipset_list6 host_ipset_nl r = set_list True 16 (name6 r)"
  using assms
  by (auto simp: fun_eq_iff mt_ipset_add4_def mt_ipset_add6_def mt_ipset_del4_def mt_ipset_del6_def
      mt_ipset_list4_def mt_ipset_list6_def set_add_def set_del_def fake_ipset_nl_def host_ipset_nl_def norm_key_def)

lemma set_list_fake:
  assumes "set_wf False n name s"
  shows "fake_list n name s = set_list False n name s"
proof -
  have "e\<lparr>ie_timeout := Some (tv_of (ie_timeout e))\<rparr> = e" if "e \<in> set (set_entries name s)" for e
    using assms that by (cases e) (auto simp: set_wf_def list_all_iff tv_of_def)
  then have "map (\<lambda>e. e\<lparr>ie_timeout := Some (tv_of (ie_timeout e))\<rparr>) (filter P (set_entries name s)) =
      filter P (set_entries name s)" for P by (intro map_idI) simp
  then show ?thesis
    by (auto simp: set_list_def fake_list_def set_entries_def report_timeout_def split: option.splits)
qed

text \<open>Both transports: that of the tests, and the one that lists entries as the kernel does.\<close>

definition set_nl :: "bool \<Rightarrow> fake_set list mt_ipset_nl" where
  "set_nl host = (if host then host_ipset_nl else fake_ipset_nl)"

lemma set_nl_ops:
  assumes "ipset_on r"
  shows "mt_ipset_add4 (set_nl h) r = set_add h (name4 r)" "mt_ipset_del4 (set_nl h) r = set_del h (name4 r)"
    "mt_ipset_add6 (set_nl h) r = set_add h (name6 r)" "mt_ipset_del6 (set_nl h) r = set_del h (name6 r)"
    "set_wf h 4 (name4 r) s \<Longrightarrow> mt_ipset_list4 (set_nl h) r s = set_list h 4 (name4 r) s"
    "set_wf h 16 (name6 r) s \<Longrightarrow> mt_ipset_list6 (set_nl h) r s = set_list h 16 (name6 r) s"
proof -
  have fake: "mt_ipset_list4 fake_ipset_nl r s = fake_list 4 (name4 r) s"
    "mt_ipset_list6 fake_ipset_nl r s = fake_list 16 (name6 r) s"
    using assms by (simp_all add: mt_ipset_list4_def mt_ipset_list6_def fake_ipset_nl_def)
  show "mt_ipset_add4 (set_nl h) r = set_add h (name4 r)" "mt_ipset_del4 (set_nl h) r = set_del h (name4 r)"
    "mt_ipset_add6 (set_nl h) r = set_add h (name6 r)" "mt_ipset_del6 (set_nl h) r = set_del h (name6 r)"
    "set_wf h 4 (name4 r) s \<Longrightarrow> mt_ipset_list4 (set_nl h) r s = set_list h 4 (name4 r) s"
    "set_wf h 16 (name6 r) s \<Longrightarrow> mt_ipset_list6 (set_nl h) r s = set_list h 16 (name6 r) s"
    by (cases h; simp add: set_nl_def ipset_ops_fake [OF assms] fake set_list_fake)+
qed


text \<open>
  Against the transport of the tests and without repetitions the set becomes exactly the list: a wanted
  network that was present keeps the longer of the two lifetimes.
\<close>

lemma sync_diff_fake_exact:
  assumes "ipset_on r" "set_wf False 4 (name4 r) s"
    and "distinct (map fst new4)" "list_all (\<lambda>e. length (fst (fst e)) = 4) new4"
  shows "\<exists>s'. sync_diff_v4 fake_ipset_nl r new4 s = (MT_OK, s') \<and>
      (\<forall>k. set_ent (name4 r) s' k = (case map_of new4 k of None \<Rightarrow> None
         | Some ttl \<Rightarrow> (case (set_ent (name4 r) s k, ttl) of
             (Some old, Some t) \<Rightarrow> Some (max old t) | _ \<Rightarrow> Some (tv_of ttl))))"
proof -
  have skip: "(if skip_add \<lparr>ie_subnet = k, ie_timeout = report_timeout False t\<rparr> ttl then Some t else Some (tv_of ttl)) =
      (case ttl of Some n \<Rightarrow> Some (max t n) | None \<Rightarrow> Some (tv_of ttl))" for k t ttl
    by (auto simp: skip_add_def report_timeout_def tv_of_def max_def split: option.splits)
  have val: "(case map_of new k of None \<Rightarrow> None
       | Some ttl \<Rightarrow> (case e of None \<Rightarrow> Some (tv_of ttl)
          | Some t \<Rightarrow> if skip_add \<lparr>ie_subnet = k, ie_timeout = report_timeout False t\<rparr> ttl then Some t else Some (tv_of ttl))) =
      (case map_of new k of None \<Rightarrow> None
         | Some ttl \<Rightarrow> (case (e, ttl) of (Some old, Some t) \<Rightarrow> Some (max old t) | _ \<Rightarrow> Some (tv_of ttl)))"
    for new :: new_list and k :: mt_subnet and e :: "u32 option"
    unfolding skip by (auto split: option.splits)
  have keys: "list_all (\<lambda>e. set_key False 4 (fst e) \<and> norm_key False (fst e) = fst e) new4"
    using assms(4) by (auto simp: list_all_iff set_key_def norm_key_def)
  have ops: "mt_ipset_list4 fake_ipset_nl r s = set_list False 4 (name4 r) s"
    using set_nl_ops(5) [OF assms(1,2)] by (simp add: set_nl_def)
  show ?thesis
    using sets.sync_diff_exact [OF assms(2) keys assms(3)]
    unfolding sync_diff_v4_def ipset_ops_fake(1,2) [OF assms(1)] ops val by blast
qed

lemma static_lengths: "static4 L g k \<Longrightarrow> length (fst k) = 4" "static6 L g k \<Longrightarrow> length (fst k) = 16"
  by (auto simp: static4_def static6_def parse_ipv4_rule_def parse_ipv6_rule_def bytes_of_u32_def
      split: if_splits option.splits)

lemma new_lengths:
  assumes "sync_build_new_lists P L g c now = Some (new4, new6)"
  shows "list_all (\<lambda>e. length (fst (fst e)) = 4) new4" "list_all (\<lambda>e. length (fst (fst e)) = 16) new6"
proof -
  let ?ops4 = "concat (map (rule_ops4 P L c now) (items (group_rules g)))"
  let ?ops6 = "concat (map (rule_ops6 P L c now) (items (group_rules g)))"
  have new: "new4 = run_ops ?ops4 []" "new6 = run_ops ?ops6 []"
    using sync_rules_ops [of P L c now "items (group_rules g)" "[]" "[]"] assms
    by (auto simp: sync_build_new_lists_def)
  have d: "distinct (map fst new4)" "distinct (map fst new6)"
    unfolding new by (simp_all add: run_ops_distinct)
  have "length (fst k) = 4" if "(k, v) \<in> set new4" for k v
  proof (cases v)
    case None
    with that have "static4 L g k" unfolding None ops_list(1) [OF d(1) new(1)] ops_static4 by simp
    then show ?thesis by (rule static_lengths)
  next
    case (Some t)
    with that show ?thesis unfolding Some ops_list(2) [OF d(1) new(1)] ops_resolved4 resolved_def by auto
  qed
  moreover have "length (fst k) = 16" if "(k, v) \<in> set new6" for k v
  proof (cases v)
    case None
    with that have "static6 L g k" unfolding None ops_list(1) [OF d(2) new(2)] ops_static6 by simp
    then show ?thesis by (rule static_lengths)
  next
    case (Some t)
    with that show ?thesis unfolding Some ops_list(2) [OF d(2) new(2)] ops_resolved6 resolved_def by auto
  qed
  ultimately show "list_all (\<lambda>e. length (fst (fst e)) = 4) new4" "list_all (\<lambda>e. length (fst (fst e)) = 16) new6"
    by (auto simp: list_all_iff)
qed

text \<open>
  With a transport that lists host entries with their full prefix length, as the kernel does, an
  address that a rule still wants does not survive a synchronisation: the wanted list names it with the
  prefix length 0, which never equals the listed one, so it is added again and then deleted as unknown,
  unless a subnet rule wants the same host.
\<close>

theorem sync_drops_present_hosts:
  assumes "ipset_on r" "set_wf True 4 (name4 r) s"
    and "sync_build_new_lists P L g c now = Some (new4, new6)"
    and "resolved 4 P g c now ip t" "\<not> static4 L g (ip, 32)"
    and "set_ent (name4 r) s (ip, 32) = Some old"
  shows "\<exists>s'. sync_diff_v4 host_ipset_nl r new4 s = (MT_OK, s') \<and> set_ent (name4 r) s' (ip, 32) = None"
proof -
  let ?ops4 = "concat (map (rule_ops4 P L c now) (items (group_rules g)))"
  have new: "new4 = run_ops ?ops4 []"
    using sync_rules_ops [of P L c now "items (group_rules g)" "[]" "[]"] assms(3)
    by (auto simp: sync_build_new_lists_def)
  have d: "distinct (map fst new4)" unfolding new by (simp add: run_ops_distinct)
  have none: "((ip, 32), None) \<notin> set new4"
    unfolding ops_list(1) [OF d new] ops_static4 by (rule assms(5))
  have some: "((ip, 32), Some u) \<notin> set new4" for u
    unfolding ops_list(2) [OF d new] ops_resolved4 by simp
  have "((ip, 32), v) \<notin> set new4" for v using none some by (cases v) auto
  then have "(ip, 32) \<notin> fst ` set new4" by force
  moreover have "list_all (\<lambda>e. set_key True 4 (fst e)) new4"
    using new_lengths(1) [OF assms(3)] by (simp add: set_key_def list_all_iff)
  ultimately show ?thesis
    using sets.sync_diff_total [OF assms(2), of new4] assms(6)
    unfolding sync_diff_v4_def ipset_ops_fake(5-7) [OF assms(1)] by (metis option.distinct(1))
qed

text \<open>An example: the set of one group holds the host 10.0.0.1, which the cache knows for the name of its
  only rule.\<close>

definition ex_domain_group :: mt_group where
  "ex_domain_group =
    \<lparr>group_id = MtId 0 0 0 1, group_name = Some ''g'', group_color = None, group_iface = None, group_enable = True,
     group_rules = \<lparr>items = [\<lparr>rule_id = MtId 0 0 0 2, rule_name = None, rule_type = Some ''domain'',
       rule_rule = Some ''a'', rule_enable = True\<rparr>], cap = 8\<rparr>\<rparr>"

definition ex_cache :: mt_cache where
  "ex_cache = mt_cache_add_address (mt_cache_create 8) ''a'' [10, 0, 0, 1] 60 0"

definition ex_ipset :: mt_ipset where
  "ex_ipset = \<lparr>name4 = ''g_4'', name6 = ''g_6'', ipset_on = True\<rparr>"

definition ex_sets :: "fake_set list" where
  "ex_sets =
    [\<lparr>fs_name = ''g_4'', fs_exists = True, fs_entries = [\<lparr>ie_subnet = ([10, 0, 0, 1], 32), ie_timeout = Some 30\<rparr>]\<rparr>,
     \<lparr>fs_name = ''g_6'', fs_exists = True, fs_entries = []\<rparr>]"

lemma ex_resolved: "resolved 4 P ex_domain_group ex_cache 0 [10, 0, 0, 1] 60"
proof -
  have ok: "cache_ok (mt_cache_create 8)" by (rule cache.reachable_inv [OF reachable_created])
  have new: "dom_find_or_create (mt_cache_create 8) ''a'' \<noteq> None"
    by (auto simp: dom_find_or_create_def mt_cache_create_def split: option.splits)
  note find = add_address_find [OF ok new, of "[10, 0, 0, 1]" 60 0]
  have known: "''a'' \<in> set (mt_cache_list_known_domains ex_cache)"
    unfolding ex_cache_def known_domains [OF cache_ok_add_address [OF ok]] find by simp
  have "\<lparr>addr = [10, 0, 0, 1], deadline = 60\<rparr> \<in> set (refresh_addr [10, 0, 0, 1] 60 xs)" for xs
    by (induction xs) auto
  then have "\<lparr>addr = [10, 0, 0, 1], deadline = 60\<rparr> \<in> set (live_addrs ex_cache 0 ''a'')"
    unfolding ex_cache_def by (simp add: live_addrs_def find valid_addrs_def)
  then have "\<lparr>addr = [10, 0, 0, 1], deadline = 60\<rparr> \<in> set (first_live ex_cache 0 (Suc 62) ''a'')"
    unfolding first_live.simps(2) by auto
  then have "\<lparr>addr = [10, 0, 0, 1], deadline = 60\<rparr> \<in> set (mt_cache_get_addresses ex_cache ''a'' 0)"
    unfolding get_addresses_first_live by (simp only: eval_nat_numeral(3) [symmetric] BitM.simps)
  moreover have "group_rule ex_domain_group ''domain'' ''a''"
    by (simp add: group_rule_def ex_domain_group_def)
  moreover have "mt_rule_matcher_match P (mt_rule_matcher_new P ''domain'' ''a'') ''a''"
    by (simp add: mt_rule_matcher_match_def mt_rule_matcher_new_def kind_of_def)
  ultimately show ?thesis unfolding resolved_def using known
    by (intro exI [of _ "''domain''"] exI [of _ "''a''"] exI [of _ "\<lparr>addr = [10, 0, 0, 1], deadline = 60\<rparr>"]) simp
qed

lemma ex_sets_wf: "set_wf h 4 ''g_4'' ex_sets" "set_wf h 16 ''g_6'' ex_sets" "ipset_on ex_ipset"
  "name4 ex_ipset = ''g_4''" "name6 ex_ipset = ''g_6''"
  by (simp_all add: set_wf_def ex_sets_def fake_find_def set_entries_def ex_ipset_def)

theorem sync_drops_present_hosts_witness:
  "set_ent ''g_4'' ex_sets ([10, 0, 0, 1], 32) = Some 30 \<and> resolved 4 literal_pcre2 ex_domain_group ex_cache 0 [10, 0, 0, 1] 60 \<and>
   (\<exists>new4 new6 s'. sync_build_new_lists literal_pcre2 ex_lib ex_domain_group ex_cache 0 = Some (new4, new6) \<and>
     sync_diff_v4 host_ipset_nl ex_ipset new4 ex_sets = (MT_OK, s') \<and> set_ent ''g_4'' s' ([10, 0, 0, 1], 32) = None)"
proof -
  obtain new4 new6 where build: "sync_build_new_lists literal_pcre2 ex_lib ex_domain_group ex_cache 0 = Some (new4, new6)"
    by (simp add: sync_build_new_lists_def sync_rule_def ex_domain_group_def) (metis surj_pair)
  have no: "\<not> static4 ex_lib ex_domain_group ([10, 0, 0, 1], 32)"
    by (simp add: static4_def group_rule_def ex_domain_group_def)
  have ent: "set_ent ''g_4'' ex_sets ([10, 0, 0, 1], 32) = Some 30"
    by (simp add: set_ent_def set_entries_def ex_sets_def fake_find_def tv_of_def)
  show ?thesis
    using sync_drops_present_hosts [OF ex_sets_wf(3) _ build ex_resolved no, of ex_sets 30] ent ex_sets_wf(1) [of True] ex_resolved build
    unfolding ex_sets_wf(4) by blast
qed


end
