(* ===== verification/Rtnl.thy ===== *)
theory Rtnl
  imports Ipset
begin

text \<open>
  \<^verbatim>\<open>src/netlink/nlattr_iter.c\<close>, the walk over the attributes of a netlink message, and
  \<^verbatim>\<open>src/netlink/rtnl.c\<close>, the requests that add and delete policy rules and routes, look up an
  interface or a gateway, and choose an unused mark and routing table.

  The exchange with the kernel (\<^verbatim>\<open>nl_execute\<close>: send, then receive until the answer is complete) and
  \<^verbatim>\<open>if_nametoindex\<close> are parameters, the fields of the record \<open>netlink\<close> over an arbitrary state of the
  kernel: for a request they give an error of the socket or the error code of the answer, and the
  messages that the callback sees, in order.  Requests are kept as the fields that are filled in; the
  messages of an answer are bytes behind the netlink header, read in the byte order \<open>be\<close> of the host
  (\<open>True\<close> is big-endian).
\<close>

section \<open>Data\<close>

datatype rtm =
    RTM_NEWLINK | RTM_GETLINK | RTM_NEWROUTE | RTM_DELROUTE | RTM_GETROUTE
  | RTM_NEWRULE | RTM_DELRULE | RTM_GETRULE | RTM_OTHER nat

datatype nlm_flag = NLM_F_REQUEST | NLM_F_ACK | NLM_F_EXCL | NLM_F_CREATE | NLM_F_DUMP

datatype rt_kind = FR_ACT_UNSPEC | FR_ACT_TO_TBL | RTN_UNSPEC | RTN_UNICAST | RTN_BLACKHOLE

datatype rt_attr =
    FRA_FWMARK u32 | FRA_TABLE u32 | RTA_TABLE u32 | RTA_PRIORITY u32 | RTA_OIF u32
  | RTA_GATEWAY "u8 list"

record nl_request =
  rq_type :: rtm
  rq_flags :: "nlm_flag list"
  rq_seq :: u32
  rq_family :: "inet_family option"
  rq_table :: u8
  rq_kind :: rt_kind
  rq_index :: int
  rq_attrs :: "rt_attr list"

record nl_msg =
  nlm_type :: rtm
  nlm_body :: "u8 list"

record nl_reply =
  rp_err :: mt_err
  rp_code :: c_errno
  rp_msgs :: "nl_msg list"

record 's netlink =
  nl_execute :: "nl_request \<Rightarrow> 's \<Rightarrow> nl_reply \<times> 's"
  if_nametoindex :: "string \<Rightarrow> 's \<Rightarrow> u32"

record 's mt_rtnl =
  rt_sock :: 's
  rt_seq :: u32

record mt_link_info =
  li_ifindex :: int
  li_up :: bool
  li_point_to_point :: bool

text \<open>\<^verbatim>\<open>ENODEV\<close> is 19 on every Linux architecture.\<close>

abbreviation ENODEV :: c_errno where
  "ENODEV \<equiv> E_OTHER 19"

section \<open>Attributes\<close>

definition host_bytes :: "bool \<Rightarrow> u8 list \<Rightarrow> u32" where
  "host_bytes be bs = foldr (\<lambda>b v. 256 * v + ucast b) (if be then rev bs else bs) 0"

definition hu16 :: "bool \<Rightarrow> u8 list \<Rightarrow> nat \<Rightarrow> nat" where
  "hu16 be bs i = unat (host_bytes be [bs ! i, bs ! (i + 1)])"

definition hu32 :: "bool \<Rightarrow> u8 list \<Rightarrow> nat \<Rightarrow> u32" where
  "hu32 be bs i = host_bytes be [bs ! i, bs ! (i + 1), bs ! (i + 2), bs ! (i + 3)]"

definition align_len :: "nat \<Rightarrow> nat" where
  "align_len len = (len + 3) div 4 * 4"

record nlattr =
  nla_type :: nat
  nla_data :: "u8 list"

definition mt_nlattr_iter_init_nlmsg :: "nl_msg \<Rightarrow> nat \<Rightarrow> u8 list option" where
  "mt_nlattr_iter_init_nlmsg h extra_header_len =
    (if length (nlm_body h) < align_len extra_header_len then None
     else Some (drop (align_len extra_header_len) (nlm_body h)))"

definition mt_nlattr_iter_next :: "bool \<Rightarrow> u8 list \<Rightarrow> (nlattr \<times> u8 list) option" where
  "mt_nlattr_iter_next be it =
    (if length it < 4 then None
     else let attr_len = hu16 be it 0 in
       if attr_len < 4 \<or> attr_len > length it then None
       else Some (\<lparr>nla_type = hu16 be it 2, nla_data = take (attr_len - 4) (drop 4 it)\<rparr>,
                  if align_len attr_len \<ge> length it then [] else drop (align_len attr_len) it))"

lemma align_len_bounds: "len \<le> align_len len" "align_len len < len + 4" "4 dvd align_len len"
  by (auto simp: align_len_def)

lemma iter_next_shrinks:
  "mt_nlattr_iter_next be it = Some (a, it') \<Longrightarrow> length it' < length it"
  using align_len_bounds(1) [of "hu16 be it 0"]
  by (auto simp: mt_nlattr_iter_next_def Let_def split: if_splits)

function nlattrs :: "bool \<Rightarrow> u8 list \<Rightarrow> nlattr list" where
  "nlattrs be it =
    (case mt_nlattr_iter_next be it of None \<Rightarrow> [] | Some (a, it') \<Rightarrow> a # nlattrs be it')"
  by pat_completeness auto
termination
  by (relation "measure (length \<circ> snd)") (auto dest: iter_next_shrinks)

declare nlattrs.simps [simp del]

definition msg_attrs :: "bool \<Rightarrow> nl_msg \<Rightarrow> nat \<Rightarrow> nlattr list" where
  "msg_attrs be h extra_header_len =
    (case mt_nlattr_iter_init_nlmsg h extra_header_len of None \<Rightarrow> [] | Some it \<Rightarrow> nlattrs be it)"

text \<open>\<^verbatim>\<open>mnl_attr_get_type\<close> strips the two flag bits of the type.\<close>

definition attr_type :: "nlattr \<Rightarrow> nat" where
  "attr_type a = nla_type a mod 16384"

section \<open>Rules and routes\<close>

definition rt_execute ::
  "'s netlink \<Rightarrow> (u32 \<Rightarrow> nl_request) \<Rightarrow> 's mt_rtnl \<Rightarrow> nl_reply \<times> 's mt_rtnl" where
  "rt_execute K mk r =
    (case nl_execute K (mk (rt_seq r + 1)) (rt_sock r) of (rp, s) \<Rightarrow>
       (rp, \<lparr>rt_sock = s, rt_seq = rt_seq r + 1\<rparr>))"

definition nl_result :: "c_errno list \<Rightarrow> nl_reply \<Rightarrow> mt_err" where
  "nl_result fine rp =
    (if rp_err rp \<noteq> MT_OK then rp_err rp
     else if rp_code rp \<in> set fine then MT_OK else mt_err_from_errno (rp_code rp))"

definition low_table :: "u32 \<Rightarrow> u8" where
  "low_table table = (if table < 256 then ucast table else 0)"

definition put_rule_header ::
  "rtm \<Rightarrow> nlm_flag list \<Rightarrow> inet_family \<Rightarrow> u32 \<Rightarrow> rt_attr list \<Rightarrow> u32 \<Rightarrow> nl_request" where
  "put_rule_header type flags family table attrs sq =
    \<lparr>rq_type = type, rq_flags = flags, rq_seq = sq, rq_family = Some family,
     rq_table = low_table table,
     rq_kind = (if type = RTM_NEWRULE then FR_ACT_TO_TBL else FR_ACT_UNSPEC), rq_index = 0,
     rq_attrs = attrs\<rparr>"

definition put_route_header ::
  "rtm \<Rightarrow> nlm_flag list \<Rightarrow> inet_family \<Rightarrow> u32 \<Rightarrow> rt_kind \<Rightarrow> rt_attr list \<Rightarrow> u32 \<Rightarrow> nl_request" where
  "put_route_header type flags family table rtm_type attrs sq =
    \<lparr>rq_type = type, rq_flags = flags, rq_seq = sq, rq_family = Some family,
     rq_table = low_table table, rq_kind = rtm_type, rq_index = 0, rq_attrs = attrs\<rparr>"

definition rule_attrs :: "u32 \<Rightarrow> u32 \<Rightarrow> rt_attr list" where
  "rule_attrs mark table = FRA_FWMARK mark # (if table \<ge> 256 then [FRA_TABLE table] else [])"

definition mt_rtnl_rule_add ::
  "'s netlink \<Rightarrow> inet_family \<Rightarrow> u32 \<Rightarrow> u32 \<Rightarrow> 's mt_rtnl \<Rightarrow> mt_err \<times> 's mt_rtnl" where
  "mt_rtnl_rule_add K family mark table r =
    (case rt_execute K (put_rule_header RTM_NEWRULE [NLM_F_REQUEST, NLM_F_CREATE, NLM_F_EXCL, NLM_F_ACK]
       family table (rule_attrs mark table)) r of (rp, r') \<Rightarrow> (nl_result [E_NONE] rp, r'))"

definition mt_rtnl_rule_del ::
  "'s netlink \<Rightarrow> inet_family \<Rightarrow> u32 \<Rightarrow> u32 \<Rightarrow> 's mt_rtnl \<Rightarrow> mt_err \<times> 's mt_rtnl" where
  "mt_rtnl_rule_del K family mark table r =
    (case rt_execute K (put_rule_header RTM_DELRULE [NLM_F_REQUEST, NLM_F_ACK]
       family table (rule_attrs mark table)) r of (rp, r') \<Rightarrow> (nl_result [E_NONE, ENOENT] rp, r'))"

definition route_attrs :: "u32 \<Rightarrow> u32 \<Rightarrow> rt_attr list" where
  "route_attrs table priority = (if table \<ge> 256 then [RTA_TABLE table] else []) @ [RTA_PRIORITY priority]"

definition mt_rtnl_route_add_blackhole ::
  "'s netlink \<Rightarrow> inet_family \<Rightarrow> u32 \<Rightarrow> u32 \<Rightarrow> 's mt_rtnl \<Rightarrow> mt_err \<times> 's mt_rtnl" where
  "mt_rtnl_route_add_blackhole K family table priority r =
    (case rt_execute K (put_route_header RTM_NEWROUTE [NLM_F_REQUEST, NLM_F_CREATE, NLM_F_EXCL, NLM_F_ACK]
       family table RTN_BLACKHOLE (route_attrs table priority)) r of (rp, r') \<Rightarrow>
         (nl_result [E_NONE, EEXIST] rp, r'))"

definition mt_rtnl_route_del_blackhole ::
  "'s netlink \<Rightarrow> inet_family \<Rightarrow> u32 \<Rightarrow> u32 \<Rightarrow> 's mt_rtnl \<Rightarrow> mt_err \<times> 's mt_rtnl" where
  "mt_rtnl_route_del_blackhole K family table priority r =
    (case rt_execute K (put_route_header RTM_DELROUTE [NLM_F_REQUEST, NLM_F_ACK]
       family table RTN_BLACKHOLE (route_attrs table priority)) r of (rp, r') \<Rightarrow>
         (nl_result [E_NONE, ESRCH] rp, r'))"

definition iface_attrs :: "u32 \<Rightarrow> u32 \<Rightarrow> int \<Rightarrow> u8 list option \<Rightarrow> rt_attr list" where
  "iface_attrs table priority oif gw =
    route_attrs table priority @ [RTA_OIF (word_of_int oif)] @
    (case gw of None \<Rightarrow> [] | Some g \<Rightarrow> if g = [] then [] else [RTA_GATEWAY g])"

definition mt_rtnl_route_add_iface ::
  "'s netlink \<Rightarrow> inet_family \<Rightarrow> u32 \<Rightarrow> u32 \<Rightarrow> int \<Rightarrow> u8 list option \<Rightarrow> 's mt_rtnl \<Rightarrow>
   mt_err \<times> bool \<times> 's mt_rtnl" where
  "mt_rtnl_route_add_iface K family table priority oif gw r =
    (case rt_execute K (put_route_header RTM_NEWROUTE [NLM_F_REQUEST, NLM_F_CREATE, NLM_F_EXCL, NLM_F_ACK]
       family table RTN_UNICAST (iface_attrs table priority oif gw)) r of (rp, r') \<Rightarrow>
         if rp_err rp \<noteq> MT_OK then (rp_err rp, False, r')
         else if rp_code rp = ENODEV then (MT_OK, True, r')
         else (nl_result [E_NONE, EEXIST] rp, False, r'))"

definition mt_rtnl_route_del_iface ::
  "'s netlink \<Rightarrow> inet_family \<Rightarrow> u32 \<Rightarrow> u32 \<Rightarrow> int \<Rightarrow> u8 list option \<Rightarrow> 's mt_rtnl \<Rightarrow> mt_err \<times> 's mt_rtnl" where
  "mt_rtnl_route_del_iface K family table priority oif gw r =
    (case rt_execute K (put_route_header RTM_DELROUTE [NLM_F_REQUEST, NLM_F_ACK]
       family table RTN_UNICAST (iface_attrs table priority oif gw)) r of (rp, r') \<Rightarrow>
         (nl_result [E_NONE, ESRCH] rp, r'))"

section \<open>Interfaces and gateways\<close>

text \<open>
  The payload of a link message is a \<^verbatim>\<open>struct ifinfomsg\<close>, whose flags are at offset 8; the last one
  received wins.
\<close>

definition link_msg_cb :: "bool \<Rightarrow> nl_msg \<Rightarrow> u32 option \<Rightarrow> u32 option" where
  "link_msg_cb be h ctx = (if nlm_type h \<noteq> RTM_NEWLINK then ctx else Some (hu32 be (nlm_body h) 8))"

definition mt_rtnl_link_by_name ::
  "bool \<Rightarrow> 's netlink \<Rightarrow> string \<Rightarrow> 's mt_rtnl \<Rightarrow> mt_err \<times> mt_link_info option \<times> 's mt_rtnl" where
  "mt_rtnl_link_by_name be K name r =
    (let idx = if_nametoindex K name (rt_sock r) in
     if idx = 0 then (MT_OK, None, r)
     else case rt_execute K (\<lambda>sq. \<lparr>rq_type = RTM_GETLINK, rq_flags = [NLM_F_REQUEST], rq_seq = sq,
         rq_family = None, rq_table = 0, rq_kind = RTN_UNSPEC, rq_index = sint idx, rq_attrs = []\<rparr>) r of
       (rp, r') \<Rightarrow>
         if rp_err rp \<noteq> MT_OK then (rp_err rp, None, r')
         else if rp_code rp \<noteq> E_NONE \<and> rp_code rp \<noteq> ENODEV then (mt_err_from_errno (rp_code rp), None, r')
         else (MT_OK,
           map_option (\<lambda>flags. \<lparr>li_ifindex = sint idx, li_up = bit flags 0, li_point_to_point = bit flags 4\<rparr>)
             (fold (link_msg_cb be) (rp_msgs rp) None), r'))"

definition gw_attr :: "bool \<Rightarrow> nlattr \<Rightarrow> int \<times> u8 list \<Rightarrow> int \<times> u8 list" where
  "gw_attr be a st =
    (let len = length (nla_data a) in
     if attr_type a = 4 then (if len = 4 then (sint (hu32 be (nla_data a) 0), snd st) else st)
     else if attr_type a = 5 then (if len = 4 \<or> len = 16 then (fst st, nla_data a) else st)
     else st)"

definition gw_msg_cb :: "bool \<Rightarrow> int \<Rightarrow> nl_msg \<Rightarrow> u8 list option \<Rightarrow> u8 list option" where
  "gw_msg_cb be want_oif h ctx =
    (if ctx \<noteq> None \<or> nlm_type h \<noteq> RTM_NEWROUTE then ctx
     else case mt_nlattr_iter_init_nlmsg h 12 of
       None \<Rightarrow> ctx
     | Some it \<Rightarrow>
       (case fold (gw_attr be) (nlattrs be it) (-1, []) of (oif, gw) \<Rightarrow>
          if oif = want_oif \<and> gw \<noteq> [] then Some gw else ctx))"

definition dump_request :: "rtm \<Rightarrow> inet_family \<Rightarrow> u32 \<Rightarrow> nl_request" where
  "dump_request type family sq =
    \<lparr>rq_type = type, rq_flags = [NLM_F_REQUEST, NLM_F_ACK, NLM_F_DUMP], rq_seq = sq,
     rq_family = Some family, rq_table = 0, rq_kind = RTN_UNSPEC, rq_index = 0, rq_attrs = []\<rparr>"

definition mt_rtnl_gateway_for_iface ::
  "bool \<Rightarrow> 's netlink \<Rightarrow> inet_family \<Rightarrow> int \<Rightarrow> 's mt_rtnl \<Rightarrow> mt_err \<times> u8 list option \<times> 's mt_rtnl" where
  "mt_rtnl_gateway_for_iface be K family ifindex r =
    (case rt_execute K (dump_request RTM_GETROUTE family) r of (rp, r') \<Rightarrow>
       if nl_result [E_NONE] rp \<noteq> MT_OK then (nl_result [E_NONE] rp, None, r')
       else (MT_OK, fold (gw_msg_cb be ifindex) (rp_msgs rp) None, r'))"

section \<open>An unused mark and table\<close>

definition used_set_add :: "u32 \<Rightarrow> u32 list \<Rightarrow> u32 list" where
  "used_set_add v s = (if v \<in> set s then s else s @ [v])"

record scan_ctx =
  sc_marks :: "u32 list"
  sc_tables :: "u32 list"

definition add_mark :: "u32 \<Rightarrow> scan_ctx \<Rightarrow> scan_ctx" where
  "add_mark v ctx = ctx\<lparr>sc_marks := used_set_add v (sc_marks ctx)\<rparr>"

definition add_table :: "u32 \<Rightarrow> scan_ctx \<Rightarrow> scan_ctx" where
  "add_table v ctx = ctx\<lparr>sc_tables := used_set_add v (sc_tables ctx)\<rparr>"

definition rule_scan_attr :: "bool \<Rightarrow> nlattr \<Rightarrow> scan_ctx \<Rightarrow> scan_ctx" where
  "rule_scan_attr be a ctx =
    (if attr_type a = 10 \<and> length (nla_data a) = 4 then add_mark (hu32 be (nla_data a) 0) ctx
     else if attr_type a = 15 \<and> length (nla_data a) = 4 then add_table (hu32 be (nla_data a) 0) ctx
     else ctx)"

definition rule_scan_cb :: "bool \<Rightarrow> nl_msg \<Rightarrow> scan_ctx \<Rightarrow> scan_ctx" where
  "rule_scan_cb be h ctx =
    (if nlm_type h \<noteq> RTM_NEWRULE then ctx
     else fold (rule_scan_attr be) (msg_attrs be h 12) (add_table (ucast (nlm_body h ! 4)) ctx))"

definition route_scan_attr :: "bool \<Rightarrow> nlattr \<Rightarrow> scan_ctx \<Rightarrow> scan_ctx" where
  "route_scan_attr be a ctx =
    (if attr_type a = 15 \<and> length (nla_data a) = 4 then add_table (hu32 be (nla_data a) 0) ctx else ctx)"

definition route_scan_cb :: "bool \<Rightarrow> nl_msg \<Rightarrow> scan_ctx \<Rightarrow> scan_ctx" where
  "route_scan_cb be h ctx =
    (if nlm_type h \<noteq> RTM_NEWROUTE then ctx
     else fold (route_scan_attr be) (msg_attrs be h 12) (add_table (ucast (nlm_body h ! 4)) ctx))"

definition dump_family ::
  "'s netlink \<Rightarrow> rtm \<Rightarrow> inet_family \<Rightarrow> (nl_msg \<Rightarrow> scan_ctx \<Rightarrow> scan_ctx) \<Rightarrow> scan_ctx \<Rightarrow> 's mt_rtnl \<Rightarrow>
   mt_err \<times> scan_ctx \<times> 's mt_rtnl" where
  "dump_family K msg_type family cb ctx r =
    (case rt_execute K (dump_request msg_type family) r of (rp, r') \<Rightarrow>
       (nl_result [E_NONE] rp, fold cb (rp_msgs rp) ctx, r'))"

fun dump_families ::
  "'s netlink \<Rightarrow> (rtm \<times> inet_family \<times> (nl_msg \<Rightarrow> scan_ctx \<Rightarrow> scan_ctx)) list \<Rightarrow> scan_ctx \<Rightarrow> 's mt_rtnl \<Rightarrow>
   mt_err \<times> scan_ctx \<times> 's mt_rtnl" where
  "dump_families K [] ctx r = (MT_OK, ctx, r)"
| "dump_families K ((type, family, cb) # ds) ctx r =
    (case dump_family K type family cb ctx r of (err, ctx', r') \<Rightarrow>
       if err \<noteq> MT_OK then (err, ctx', r') else dump_families K ds ctx' r')"

lemma unat_succ_small: "idx < 0x7ffffffe \<Longrightarrow> unat (idx + 1) = Suc (unat (idx :: u32))"
  by (simp add: unat_word_ariths(1) word_less_nat_alt)

function first_unused :: "scan_ctx \<Rightarrow> u32 \<Rightarrow> u32" where
  "first_unused ctx idx =
    (if \<not> idx < 0x7ffffffe then idx
     else if idx \<notin> set (sc_tables ctx) \<and> idx \<notin> set (sc_marks ctx) then idx
     else first_unused ctx (idx + 1))"
  by pat_completeness auto

termination
  by (relation "measure (\<lambda>(ctx, idx). 0x7ffffffe - unat idx)")
    (auto simp: unat_succ_small word_less_nat_alt)

declare first_unused.simps [simp del]

definition mt_rtnl_alloc_mark_table ::
  "bool \<Rightarrow> 's netlink \<Rightarrow> u32 \<Rightarrow> 's mt_rtnl \<Rightarrow> mt_err \<times> u32 \<times> 's mt_rtnl" where
  "mt_rtnl_alloc_mark_table be K start_idx r =
    (case dump_families K
       [(RTM_GETRULE, AF_INET, rule_scan_cb be), (RTM_GETRULE, AF_INET6, rule_scan_cb be),
        (RTM_GETROUTE, AF_INET, route_scan_cb be), (RTM_GETROUTE, AF_INET6, route_scan_cb be)]
       (fold add_table [0, 253, 254, 255] \<lparr>sc_marks = [], sc_tables = []\<rparr>) r of
     (err, ctx, r') \<Rightarrow> (err, if err = MT_OK then first_unused ctx start_idx else 0, r'))"

section \<open>The chosen index is free\<close>

text \<open>
  The messages of the four dumps, each with the request it answers, and what they say is in use.
\<close>

fun dump_msgs :: "'s netlink \<Rightarrow> (rtm \<times> inet_family) list \<Rightarrow> 's mt_rtnl \<Rightarrow> (rtm \<times> nl_msg) list" where
  "dump_msgs K [] r = []"
| "dump_msgs K ((type, family) # ds) r =
    (case rt_execute K (dump_request type family) r of (rp, r') \<Rightarrow>
       map (Pair type) (rp_msgs rp) @ dump_msgs K ds r')"

definition u32_attr :: "bool \<Rightarrow> nat \<Rightarrow> nl_msg \<Rightarrow> u32 \<Rightarrow> bool" where
  "u32_attr be ty h v \<longleftrightarrow>
    (\<exists>a\<in>set (msg_attrs be h 12). attr_type a = ty \<and> length (nla_data a) = 4 \<and> v = hu32 be (nla_data a) 0)"

definition table_in_use :: "bool \<Rightarrow> rtm \<times> nl_msg \<Rightarrow> u32 \<Rightarrow> bool" where
  "table_in_use be m v \<longleftrightarrow>
    ((fst m, nlm_type (snd m)) \<in> {(RTM_GETRULE, RTM_NEWRULE), (RTM_GETROUTE, RTM_NEWROUTE)} \<and>
     (v = ucast (nlm_body (snd m) ! 4) \<or> u32_attr be 15 (snd m) v))"

definition mark_in_use :: "bool \<Rightarrow> rtm \<times> nl_msg \<Rightarrow> u32 \<Rightarrow> bool" where
  "mark_in_use be m v \<longleftrightarrow> (fst m, nlm_type (snd m)) = (RTM_GETRULE, RTM_NEWRULE) \<and> u32_attr be 10 (snd m) v"

definition ctx_used :: "scan_ctx \<Rightarrow> u32 \<Rightarrow> bool" where
  "ctx_used ctx v \<longleftrightarrow> v \<in> set (sc_tables ctx) \<or> v \<in> set (sc_marks ctx)"

lemma ctx_used_add [simp]:
  "ctx_used (add_mark w ctx) v \<longleftrightarrow> v = w \<or> ctx_used ctx v"
  "ctx_used (add_table w ctx) v \<longleftrightarrow> v = w \<or> ctx_used ctx v"
  by (auto simp: ctx_used_def add_mark_def add_table_def used_set_add_def)

lemma ctx_used_rule_attrs:
  "ctx_used (fold (rule_scan_attr be) as ctx) v \<longleftrightarrow>
    (\<exists>a\<in>set as. attr_type a \<in> {10, 15} \<and> length (nla_data a) = 4 \<and> v = hu32 be (nla_data a) 0) \<or> ctx_used ctx v"
  by (induction as arbitrary: ctx) (auto simp: rule_scan_attr_def)

lemma ctx_used_route_attrs:
  "ctx_used (fold (route_scan_attr be) as ctx) v \<longleftrightarrow>
    (\<exists>a\<in>set as. attr_type a = 15 \<and> length (nla_data a) = 4 \<and> v = hu32 be (nla_data a) 0) \<or> ctx_used ctx v"
  by (induction as arbitrary: ctx) (auto simp: route_scan_attr_def)

definition scan_cb :: "bool \<Rightarrow> rtm \<Rightarrow> nl_msg \<Rightarrow> scan_ctx \<Rightarrow> scan_ctx" where
  "scan_cb be type = (if type = RTM_GETRULE then rule_scan_cb be else route_scan_cb be)"

lemma ctx_used_cb:
  assumes "type \<in> {RTM_GETRULE, RTM_GETROUTE}"
  shows "ctx_used (scan_cb be type h ctx) v \<longleftrightarrow>
    table_in_use be (type, h) v \<or> mark_in_use be (type, h) v \<or> ctx_used ctx v"
  using assms unfolding scan_cb_def rule_scan_cb_def route_scan_cb_def table_in_use_def mark_in_use_def u32_attr_def
  by (auto simp: ctx_used_rule_attrs ctx_used_route_attrs)

lemma ctx_used_msgs:
  assumes "type \<in> {RTM_GETRULE, RTM_GETROUTE}"
  shows "ctx_used (fold (scan_cb be type) hs ctx) v \<longleftrightarrow>
    (\<exists>m\<in>set (map (Pair type) hs). table_in_use be m v \<or> mark_in_use be m v) \<or> ctx_used ctx v"
  by (induction hs arbitrary: ctx) (auto simp: ctx_used_cb [OF assms])

lemma ctx_used_families:
  assumes "set (map fst ds) \<subseteq> {RTM_GETRULE, RTM_GETROUTE}"
    and "dump_families K (map (\<lambda>(type, family). (type, family, scan_cb be type)) ds) ctx r = (MT_OK, ctx', r')"
  shows "ctx_used ctx' v \<longleftrightarrow>
    (\<exists>m\<in>set (dump_msgs K ds r). table_in_use be m v \<or> mark_in_use be m v) \<or> ctx_used ctx v"
  using assms
proof (induction K ds r arbitrary: ctx rule: dump_msgs.induct)
  case (2 K type family ds r)
  obtain rp r1 where ex: "rt_execute K (dump_request type family) r = (rp, r1)" by fastforce
  then have "dump_families K (map (\<lambda>(type, family). (type, family, scan_cb be type)) ds)
      (fold (scan_cb be type) (rp_msgs rp) ctx) r1 = (MT_OK, ctx', r')"
    using 2(3) by (auto simp: dump_family_def split: if_splits)
  from 2(1) [OF ex [symmetric] _ this] 2(2) ex show ?case by (auto simp: ctx_used_msgs)
qed simp

lemma first_unused_props:
  "let i = first_unused ctx idx in
    (idx < 0x7ffffffe \<longrightarrow> idx \<le> i \<and> i \<le> 0x7ffffffe \<and> (i < 0x7ffffffe \<longrightarrow> \<not> ctx_used ctx i) \<and>
       (\<forall>v. idx \<le> v \<longrightarrow> v < i \<longrightarrow> ctx_used ctx v)) \<and>
    (\<not> idx < 0x7ffffffe \<longrightarrow> i = idx)"
proof (induction ctx idx rule: first_unused.induct)
  case (1 ctx idx)
  show ?case
  proof (cases "idx < 0x7ffffffe \<and> ctx_used ctx idx")
    case True
    have up: "v = idx \<or> idx + 1 \<le> v" if "idx \<le> v" for v
      using that True by (metis inc_le order_le_less)
    have "idx < idx + 1" using True unat_succ_small [of idx] by (simp add: word_less_nat_alt)
    moreover have "idx + 1 \<le> 0x7ffffffe" using True by (simp add: inc_le)
    moreover have "first_unused ctx idx = first_unused ctx (idx + 1)"
      using True by (subst first_unused.simps) (auto simp: ctx_used_def)
    ultimately show ?thesis using 1 True up unfolding ctx_used_def Let_def
      by (smt (verit) nle_le order_le_less order_trans)
  next
    case False
    then have "first_unused ctx idx = idx" by (subst first_unused.simps) (auto simp: ctx_used_def)
    then show ?thesis using False by auto
  qed
qed

text \<open>
  When the four dumps of rules and routes succeed, the index chosen for a group's mark and table is
  the first one from the configured start that is neither one of the reserved tables 0, 253, 254 and 255
  nor a table or a mark that any dumped rule or route uses: the search never stops early and never
  passes a free index, and ends at \<open>0x7ffffffe\<close> at the latest.  (From a start beyond that limit the start
  itself is returned, used or not.)
\<close>

theorem alloc_mark_table_first_free:
  assumes "mt_rtnl_alloc_mark_table be K start r = (MT_OK, idx, r')"
  shows "let msgs = dump_msgs K [(RTM_GETRULE, AF_INET), (RTM_GETRULE, AF_INET6),
             (RTM_GETROUTE, AF_INET), (RTM_GETROUTE, AF_INET6)] r;
           used = (\<lambda>v. v \<in> {0, 253, 254, 255} \<or> (\<exists>m\<in>set msgs. table_in_use be m v \<or> mark_in_use be m v))
         in (start < 0x7ffffffe \<longrightarrow> start \<le> idx \<and> idx \<le> 0x7ffffffe \<and> (idx < 0x7ffffffe \<longrightarrow> \<not> used idx) \<and>
               (\<forall>v. start \<le> v \<longrightarrow> v < idx \<longrightarrow> used v)) \<and>
            (\<not> start < 0x7ffffffe \<longrightarrow> idx = start)"
proof -
  let ?ds = "[(RTM_GETRULE, AF_INET), (RTM_GETRULE, AF_INET6), (RTM_GETROUTE, AF_INET), (RTM_GETROUTE, AF_INET6)]"
  let ?ctx0 = "fold add_table [0, 253, 254, 255] \<lparr>sc_marks = [], sc_tables = []\<rparr>"
  obtain err ctx where d: "dump_families K (map (\<lambda>(type, family). (type, family, scan_cb be type)) ?ds) ?ctx0 r =
      (err, ctx, r')" "err = MT_OK" "idx = first_unused ctx start"
    using assms by (auto simp: mt_rtnl_alloc_mark_table_def scan_cb_def split: prod.splits if_splits)
  have "ctx_used ?ctx0 v \<longleftrightarrow> v \<in> {0, 253, 254, 255}" for v
    by (simp add: ctx_used_def add_table_def used_set_add_def)
  moreover have "ctx_used ctx v \<longleftrightarrow>
      (\<exists>m\<in>set (dump_msgs K ?ds r). table_in_use be m v \<or> mark_in_use be m v) \<or> ctx_used ?ctx0 v" for v
    by (rule ctx_used_families [OF _ d(1) [unfolded d(2)]]) simp
  ultimately have used: "ctx_used ctx v \<longleftrightarrow> v \<in> {0, 253, 254, 255} \<or>
      (\<exists>m\<in>set (dump_msgs K ?ds r). table_in_use be m v \<or> mark_in_use be m v)" for v by blast
  show ?thesis using first_unused_props [of ctx start] unfolding Let_def used d(3) [symmetric] .
qed

text \<open>A kernel with one rule: table 100, mark 101.\<close>

definition ex_netlink :: "unit netlink" where
  "ex_netlink =
    \<lparr>nl_execute = (\<lambda>rq s. (\<lparr>rp_err = MT_OK, rp_code = E_NONE,
       rp_msgs = (if rq_type rq = RTM_GETRULE
         then [\<lparr>nlm_type = RTM_NEWRULE, nlm_body = [2, 0, 0, 0, 100, 0, 0, 0, 0, 0, 0, 0, 8, 0, 10, 0, 101, 0, 0, 0]\<rparr>]
         else [])\<rparr>, s)),
     if_nametoindex = (\<lambda>name s. 0)\<rparr>"

lemma ex_alloc:
  "mt_rtnl_alloc_mark_table False ex_netlink 100 \<lparr>rt_sock = (), rt_seq = 0\<rparr> =
    (MT_OK, 102, \<lparr>rt_sock = (), rt_seq = 4\<rparr>)"
  by code_simp

theorem alloc_mark_table_first_free_witness:
  "\<exists>m\<in>set (dump_msgs ex_netlink [(RTM_GETRULE, AF_INET), (RTM_GETRULE, AF_INET6), (RTM_GETROUTE, AF_INET),
      (RTM_GETROUTE, AF_INET6)] \<lparr>rt_sock = (), rt_seq = 0\<rparr>).
    table_in_use False m 101 \<or> mark_in_use False m 101"
proof -
  have "(100 :: u32) < 0x7ffffffe" "(100 :: u32) \<le> 101" "(101 :: u32) < 102" "(101 :: u32) \<notin> {0, 253, 254, 255}"
    by simp_all
  then show ?thesis using alloc_mark_table_first_free [OF ex_alloc, unfolded Let_def] by blast
qed

end
