(* ===== verification/Ipt_Chain.thy ===== *)
theory Ipt_Chain
  imports Prelude "HOL-Library.Sublist"
begin

text \<open>
  \<^verbatim>\<open>src/iptables/rule.c\<close>, \<^verbatim>\<open>chain_override.c\<close>, \<^verbatim>\<open>chain_patch.c\<close> and \<^verbatim>\<open>chain_delete.c\<close>: rules as lists of
  argv-style parts, and the three kinds of chain the engine stages them in, each of which compiles
  itself against the rules found on the system into a list of commands.

  An array of rules that may be \<^verbatim>\<open>NULL\<close> (the chain does not exist) is a \<^typ>\<open>string list list option\<close>.
\<close>

section \<open>Rules\<close>

type_synonym mt_ipt_rule = "string list"

definition mt_ipt_rule_new :: "string option list \<Rightarrow> mt_ipt_rule" where
  "mt_ipt_rule_new args = map (\<lambda>a. case a of Some s \<Rightarrow> s | None \<Rightarrow> '''') args"

definition mt_ipt_rule_clone :: "mt_ipt_rule \<Rightarrow> mt_ipt_rule" where
  "mt_ipt_rule_clone r = mt_ipt_rule_new (map Some r)"

fun parts_equal :: "string list \<Rightarrow> string list \<Rightarrow> bool" where
  "parts_equal (a # as) (b # bs) = (if a \<noteq> b then False else parts_equal as bs)"
| "parts_equal _ _ = True"

definition mt_ipt_rule_equal :: "mt_ipt_rule \<Rightarrow> mt_ipt_rule \<Rightarrow> bool" where
  "mt_ipt_rule_equal a b = (if length a \<noteq> length b then False else parts_equal a b)"

fun mt_ipt_rule_string :: "mt_ipt_rule \<Rightarrow> string" where
  "mt_ipt_rule_string [] = ''''"
| "mt_ipt_rule_string [p] = p"
| "mt_ipt_rule_string (p # q # ps) = p @ '' '' @ mt_ipt_rule_string (q # ps)"

fun c_strstr :: "string \<Rightarrow> string \<Rightarrow> bool" where
  "c_strstr [] sub = (sub = [])"
| "c_strstr (c # cs) sub = (take (length sub) (c # cs) = sub \<or> c_strstr cs sub)"

definition mt_ipt_rule_contains :: "mt_ipt_rule \<Rightarrow> string \<Rightarrow> bool" where
  "mt_ipt_rule_contains r sub = c_strstr (mt_ipt_rule_string r) sub"

text \<open>
  The tokenizer of a line, \<^verbatim>\<open>split_fields\<close> of \<^verbatim>\<open>engine.c\<close>: \<open>cur\<close> is the text from \<open>start\<close> to the current
  byte, empty when no field is open.
\<close>

fun split_fields_loop :: "string \<Rightarrow> string \<Rightarrow> string list" where
  "split_fields_loop [] cur = (if cur \<noteq> [] then [cur] else [])"
| "split_fields_loop (b # bs) cur =
    (if b = CHR '' '' \<or> b = CHR 0x09
     then (if cur \<noteq> [] then cur # split_fields_loop bs [] else split_fields_loop bs [])
     else split_fields_loop bs (cur @ [b]))"

definition split_fields :: "string \<Rightarrow> string list" where
  "split_fields line = split_fields_loop line []"

section \<open>Commands\<close>

datatype mt_ipt_option =
    MT_IPT_OP_APPEND | MT_IPT_OP_DELETE | MT_IPT_OP_INSERT | MT_IPT_OP_FLUSH | MT_IPT_OP_DELETE_CHAIN

record mt_ipt_command =
  cmd_option :: mt_ipt_option
  cmd_chain :: string
  cmd_rule_num :: int
  cmd_rule :: "mt_ipt_rule option"

section \<open>The override chain\<close>

type_synonym chain_override = "mt_ipt_rule list"

fun override_match :: "mt_ipt_rule list \<Rightarrow> mt_ipt_rule list \<Rightarrow> bool" where
  "override_match (r # rs) (e # es) =
    (if \<not> mt_ipt_rule_equal r e then False else override_match rs es)"
| "override_match _ _ = True"

definition override_compile ::
  "chain_override \<Rightarrow> string \<Rightarrow> mt_ipt_rule list option \<Rightarrow> mt_ipt_command list \<times> int" where
  "override_compile c chain_name existing =
    (if (case existing of None \<Rightarrow> False | Some ex \<Rightarrow> length ex = length c \<and> override_match c ex)
     then ([], -128)
     else (\<lparr>cmd_option = MT_IPT_OP_FLUSH, cmd_chain = chain_name, cmd_rule_num = 0, cmd_rule = None\<rparr> #
           map (\<lambda>r. \<lparr>cmd_option = MT_IPT_OP_APPEND, cmd_chain = chain_name, cmd_rule_num = 0,
                     cmd_rule = Some (mt_ipt_rule_clone r)\<rparr>) c, -128))"

definition override_append :: "chain_override \<Rightarrow> mt_ipt_rule \<Rightarrow> chain_override" where
  "override_append c r = c @ [mt_ipt_rule_clone r]"

definition override_insert :: "chain_override \<Rightarrow> int \<Rightarrow> mt_ipt_rule \<Rightarrow> chain_override" where
  "override_insert c rule_num r =
    (if rule_num < 1 \<or> nat rule_num > length c + 1 then c
     else let insert_idx = nat rule_num - 1
          in take insert_idx c @ [mt_ipt_rule_clone r] @ drop insert_idx c)"

fun override_remove :: "chain_override \<Rightarrow> mt_ipt_rule \<Rightarrow> chain_override" where
  "override_remove [] r = []"
| "override_remove (x # xs) r =
    (if \<not> mt_ipt_rule_equal x r then x # override_remove xs r else xs)"

section \<open>The patch chain\<close>

record patch_entry =
  pe_option :: mt_ipt_option
  pe_rule_num :: int
  pe_rule :: mt_ipt_rule

type_synonym chain_patch = "patch_entry list"

definition add_rule :: "chain_patch \<Rightarrow> mt_ipt_option \<Rightarrow> int \<Rightarrow> mt_ipt_rule \<Rightarrow> chain_patch" where
  "add_rule c opt rule_num r =
    (let owned = mt_ipt_rule_clone r in
     filter (\<lambda>e. \<not> mt_ipt_rule_equal (pe_rule e) owned) c @
     [\<lparr>pe_option = opt, pe_rule_num = rule_num, pe_rule = owned\<rparr>])"

definition patch_append :: "chain_patch \<Rightarrow> mt_ipt_rule \<Rightarrow> chain_patch" where
  "patch_append c r = add_rule c MT_IPT_OP_APPEND 0 r"

definition patch_insert :: "chain_patch \<Rightarrow> int \<Rightarrow> mt_ipt_rule \<Rightarrow> chain_patch" where
  "patch_insert c rule_num r = add_rule c MT_IPT_OP_INSERT rule_num r"

definition patch_remove :: "chain_patch \<Rightarrow> mt_ipt_rule \<Rightarrow> chain_patch" where
  "patch_remove c r = add_rule c MT_IPT_OP_DELETE 0 r"

text \<open>The string-to-count map of one compilation, an array searched linearly.\<close>

fun count_lookup :: "(string \<times> u32) list \<Rightarrow> string \<Rightarrow> u32 option" where
  "count_lookup [] key = None"
| "count_lookup ((k, n) # m) key = (if k = key then Some n else count_lookup m key)"

fun count_bump :: "(string \<times> u32) list \<Rightarrow> string \<Rightarrow> (string \<times> u32) list" where
  "count_bump [] key = [(key, 1)]"
| "count_bump ((k, n) # m) key = (if k = key then (k, n + 1) # m else (k, n) # count_bump m key)"

definition existing_counts :: "mt_ipt_rule list \<Rightarrow> (string \<times> u32) list" where
  "existing_counts ex = fold (\<lambda>r m. count_bump m (mt_ipt_rule_string r)) ex []"

definition patch_cmd :: "mt_ipt_option \<Rightarrow> string \<Rightarrow> int \<Rightarrow> mt_ipt_rule \<Rightarrow> mt_ipt_command" where
  "patch_cmd opt chain_name rule_num r =
    \<lparr>cmd_option = opt, cmd_chain = chain_name, cmd_rule_num = rule_num,
     cmd_rule = Some (mt_ipt_rule_clone r)\<rparr>"

text \<open>
  One entry: deletions until at most one copy is left, then the entry's own command if it is needed.
\<close>

definition patch_entry_cmds :: "(string \<times> u32) list \<Rightarrow> string \<Rightarrow> patch_entry \<Rightarrow> mt_ipt_command list" where
  "patch_entry_cmds m chain_name e =
    (let r = pe_rule e;
         count = unat (case count_lookup m (mt_ipt_rule_string r) of Some n \<Rightarrow> n | None \<Rightarrow> 0);
         extra = replicate (count - 1) (patch_cmd MT_IPT_OP_DELETE chain_name 0 r);
         left = min count 1
     in extra @ (case pe_option e of
         MT_IPT_OP_APPEND \<Rightarrow> if left > 0 then [] else [patch_cmd MT_IPT_OP_APPEND chain_name 0 r]
       | MT_IPT_OP_INSERT \<Rightarrow>
           if left > 0 then [] else [patch_cmd MT_IPT_OP_INSERT chain_name (pe_rule_num e) r]
       | MT_IPT_OP_DELETE \<Rightarrow> if left = 0 then [] else [patch_cmd MT_IPT_OP_DELETE chain_name 0 r]
       | _ \<Rightarrow> []))"

definition patch_compile ::
  "chain_patch \<Rightarrow> string \<Rightarrow> mt_ipt_rule list option \<Rightarrow> mt_ipt_command list \<times> int" where
  "patch_compile c chain_name existing =
    (let m = existing_counts (case existing of None \<Rightarrow> [] | Some ex \<Rightarrow> ex)
     in (concat (map (patch_entry_cmds m chain_name) c), 0))"

section \<open>The delete chain\<close>

definition delete_compile :: "string \<Rightarrow> mt_ipt_rule list option \<Rightarrow> mt_ipt_command list \<times> int" where
  "delete_compile chain_name existing =
    (case existing of None \<Rightarrow> ([], 127)
     | Some _ \<Rightarrow>
        ([\<lparr>cmd_option = MT_IPT_OP_FLUSH, cmd_chain = chain_name, cmd_rule_num = 0, cmd_rule = None\<rparr>,
          \<lparr>cmd_option = MT_IPT_OP_DELETE_CHAIN, cmd_chain = chain_name, cmd_rule_num = 0,
           cmd_rule = None\<rparr>], 127))"

section \<open>The table of operations of a chain\<close>

datatype mt_ipt_chain =
    ChainPatch chain_patch
  | ChainOverride chain_override
  | ChainDelete

definition mt_ipt_chain_patch_new :: mt_ipt_chain where
  "mt_ipt_chain_patch_new = ChainPatch []"

definition mt_ipt_chain_override_new :: mt_ipt_chain where
  "mt_ipt_chain_override_new = ChainOverride []"

definition mt_ipt_chain_delete_new :: mt_ipt_chain where
  "mt_ipt_chain_delete_new = ChainDelete"

fun chain_compile ::
  "mt_ipt_chain \<Rightarrow> string \<Rightarrow> mt_ipt_rule list option \<Rightarrow> mt_ipt_command list \<times> int" where
  "chain_compile (ChainPatch c) name ex = patch_compile c name ex"
| "chain_compile (ChainOverride c) name ex = override_compile c name ex"
| "chain_compile ChainDelete name ex = delete_compile name ex"

fun chain_append :: "mt_ipt_chain \<Rightarrow> mt_ipt_rule \<Rightarrow> mt_ipt_chain" where
  "chain_append (ChainPatch c) r = ChainPatch (patch_append c r)"
| "chain_append (ChainOverride c) r = ChainOverride (override_append c r)"
| "chain_append ChainDelete r = ChainDelete"

fun chain_insert :: "mt_ipt_chain \<Rightarrow> int \<Rightarrow> mt_ipt_rule \<Rightarrow> mt_ipt_chain" where
  "chain_insert (ChainPatch c) k r = ChainPatch (patch_insert c k r)"
| "chain_insert (ChainOverride c) k r = ChainOverride (override_insert c k r)"
| "chain_insert ChainDelete k r = ChainDelete"

fun chain_remove :: "mt_ipt_chain \<Rightarrow> mt_ipt_rule \<Rightarrow> mt_ipt_chain" where
  "chain_remove (ChainPatch c) r = ChainPatch (patch_remove c r)"
| "chain_remove (ChainOverride c) r = ChainOverride (override_remove c r)"
| "chain_remove ChainDelete r = ChainDelete"

section \<open>Rules: equality and keys\<close>

lemma rule_clone [simp]: "mt_ipt_rule_clone r = r"
  by (simp add: mt_ipt_rule_clone_def mt_ipt_rule_new_def comp_def)

lemma parts_equal_iff: "length a = length b \<Longrightarrow> parts_equal a b \<longleftrightarrow> a = b"
  by (induction a b rule: parts_equal.induct) auto

lemma rule_equal_iff [simp]: "mt_ipt_rule_equal a b \<longleftrightarrow> a = b"
  by (auto simp: mt_ipt_rule_equal_def parts_equal_iff)

lemma override_match_iff: "length a = length b \<Longrightarrow> override_match a b \<longleftrightarrow> a = b"
  by (induction a b rule: override_match.induct) auto

lemma override_remove_eq [simp]: "override_remove c r = remove1 r c"
  by (induction c) auto

text \<open>
  A word of a rule as \<^verbatim>\<open>iptables-save\<close> prints it and the engine writes it: not empty, no separator, no
  line end, no terminator.  Rules made of words are told apart by their strings.
\<close>

definition word_char :: "char \<Rightarrow> bool" where
  "word_char c \<longleftrightarrow> c \<noteq> CHR '' '' \<and> c \<noteq> CHR 0x09 \<and> c \<noteq> CHR 0x0A \<and> c \<noteq> CHR 0x00"

definition is_word :: "string \<Rightarrow> bool" where
  "is_word s \<longleftrightarrow> s \<noteq> [] \<and> list_all word_char s"

lemma split_word: "list_all word_char w \<Longrightarrow> split_fields_loop (w @ s) cur = split_fields_loop s (cur @ w)"
  by (induction w arbitrary: cur) (auto simp: word_char_def)

lemma split_rule_string:
  "list_all is_word r \<Longrightarrow> split_fields (mt_ipt_rule_string r) = r"
proof (induction r rule: mt_ipt_rule_string.induct)
  case (2 p)
  then show ?case using split_word [of p "[]" "[]"] by (simp add: split_fields_def is_word_def)
next
  case (3 p q ps)
  then show ?case using split_word [of p "CHR '' '' # mt_ipt_rule_string (q # ps)" "[]"]
    by (simp add: split_fields_def is_word_def)
qed (simp add: split_fields_def)

lemma rule_string_inj:
  "list_all is_word r \<Longrightarrow> list_all is_word r' \<Longrightarrow>
   mt_ipt_rule_string r = mt_ipt_rule_string r' \<longleftrightarrow> r = r'"
  using split_rule_string by metis

section \<open>Counting the rules found on the system\<close>

lemma count_lookup_bump:
  "count_lookup (count_bump m k) k' =
    (if k' = k then Some (case count_lookup m k of None \<Rightarrow> 1 | Some n \<Rightarrow> n + 1) else count_lookup m k')"
  by (induction m k rule: count_bump.induct) auto

definition str_count :: "mt_ipt_rule list \<Rightarrow> string \<Rightarrow> nat" where
  "str_count ex k = length (filter (\<lambda>r. mt_ipt_rule_string r = k) ex)"

lemma fold_count_bump:
  "(case count_lookup (fold (\<lambda>r m. count_bump m (mt_ipt_rule_string r)) ex m) k of
      Some n \<Rightarrow> n | None \<Rightarrow> 0) =
   (case count_lookup m k of Some n \<Rightarrow> n | None \<Rightarrow> 0) + of_nat (str_count ex k)"
  by (induction ex arbitrary: m) (auto simp: str_count_def count_lookup_bump split: option.splits)

lemma existing_counts_word:
  "(case count_lookup (existing_counts ex) k of Some n \<Rightarrow> n | None \<Rightarrow> 0) = of_nat (str_count ex k)"
  using fold_count_bump [of ex "[]" k] by (simp add: existing_counts_def)

lemma str_count_words:
  "list_all (list_all is_word) ex \<Longrightarrow> list_all is_word r \<Longrightarrow>
   str_count ex (mt_ipt_rule_string r) = count_list ex r"
  by (induction ex) (auto simp: str_count_def rule_string_inj)

lemma existing_counts_exact:
  assumes "list_all (list_all is_word) ex" "list_all is_word r" "length ex < 2 ^ 32"
  shows "unat (case count_lookup (existing_counts ex) (mt_ipt_rule_string r) of
           Some n \<Rightarrow> n | None \<Rightarrow> 0) = count_list ex r"
proof -
  have "count_list ex r < 2 ^ 32" using count_le_length [of ex r] assms(3) by linarith
  then show ?thesis
    unfolding existing_counts_word str_count_words [OF assms(1,2)]
    by (simp add: unat_of_nat)
qed

section \<open>Interface: the program that carries out the commands\<close>

text \<open>
  What the engine relies on from \<^verbatim>\<open>iptables-restore\<close>, one command on the chain it names, after the chain
  has been declared: append at the end, insert at a position, delete the first equal rule, flush,
  delete an empty chain.  \<open>exec\<close> maps the rules of the chain (\<^const>\<open>None\<close>: no such chain) to an error or
  to the new rules.
\<close>

fun run_cmds ::
  "(mt_ipt_command \<Rightarrow> mt_ipt_rule list option \<Rightarrow> mt_err + mt_ipt_rule list option) \<Rightarrow>
   mt_ipt_command list \<Rightarrow> mt_ipt_rule list option \<Rightarrow> mt_err + mt_ipt_rule list option" where
  "run_cmds exec [] st = Inr st"
| "run_cmds exec (c # cs) st =
    (case exec c st of Inl e \<Rightarrow> Inl e | Inr st' \<Rightarrow> run_cmds exec cs st')"

lemma run_cmds_append:
  "run_cmds exec (cs @ ds) st = (case run_cmds exec cs st of Inl e \<Rightarrow> Inl e | Inr st' \<Rightarrow> run_cmds exec ds st')"
  by (induction cs arbitrary: st) (auto split: sum.splits)

abbreviation or_empty :: "'a list option \<Rightarrow> 'a list" where
  "or_empty ex \<equiv> (case ex of None \<Rightarrow> [] | Some rs \<Rightarrow> rs)"

abbreviation rules_ok :: "mt_ipt_rule list \<Rightarrow> bool" where
  "rules_ok rs \<equiv> list_all (list_all is_word) rs"

text \<open>The staged chains the promise covers: rules made of words, and insertions at the head, the only
  position the program inserts at.\<close>

definition patch_entry_ok :: "patch_entry \<Rightarrow> bool" where
  "patch_entry_ok e \<longleftrightarrow> list_all is_word (pe_rule e) \<and>
     (pe_option e = MT_IPT_OP_APPEND \<or> pe_option e = MT_IPT_OP_DELETE \<or>
      pe_option e = MT_IPT_OP_INSERT \<and> pe_rule_num e = 1)"

fun chain_ok :: "mt_ipt_chain \<Rightarrow> bool" where
  "chain_ok (ChainPatch es) \<longleftrightarrow> distinct (map pe_rule es) \<and> list_all patch_entry_ok es"
| "chain_ok (ChainOverride c) \<longleftrightarrow> rules_ok c"
| "chain_ok ChainDelete \<longleftrightarrow> True"

text \<open>
  What each kind of chain is for.  Override: afterwards the chain is exactly the staged list.  Delete:
  afterwards the chain is gone.  Patch: afterwards every rule staged for appending or inserting is
  there exactly once, every rule staged for deletion is gone, and all other rules are as they were,
  in their order.
\<close>

definition patch_goal :: "chain_patch \<Rightarrow> mt_ipt_rule list \<Rightarrow> mt_ipt_rule list \<Rightarrow> bool" where
  "patch_goal es before after \<longleftrightarrow>
     (\<forall>e \<in> set es. count_list after (pe_rule e) = (if pe_option e = MT_IPT_OP_DELETE then 0 else 1)) \<and>
     filter (\<lambda>r. r \<notin> pe_rule ` set es) after = filter (\<lambda>r. r \<notin> pe_rule ` set es) before"

fun chain_goal :: "mt_ipt_chain \<Rightarrow> mt_ipt_rule list option \<Rightarrow> mt_ipt_rule list option \<Rightarrow> bool" where
  "chain_goal (ChainOverride c) before after \<longleftrightarrow> after = Some c"
| "chain_goal ChainDelete before after \<longleftrightarrow> after = None"
| "chain_goal (ChainPatch es) before after \<longleftrightarrow>
     (before \<noteq> None \<longrightarrow> after \<noteq> None) \<and> patch_goal es (or_empty before) (or_empty after)"

lemma count_list_filter: "P r \<Longrightarrow> count_list (filter P xs) r = count_list xs r"
  by (induction xs) auto

lemma count_list_same:
  assumes "filter P xs = filter P ys" "P r"
  shows "count_list xs r = count_list ys r"
  using assms count_list_filter [of P r xs] count_list_filter [of P r ys] by simp

lemma filter_neq_remove1: "filter (\<lambda>x. x \<noteq> r) (remove1 r xs) = filter (\<lambda>x. x \<noteq> r) xs"
  by (induction xs) auto

lemma count_list_remove1: "count_list (remove1 r xs) r = count_list xs r - 1"
proof (induction xs)
  case (Cons x xs)
  then show ?case by (cases "r \<in> set xs") (auto simp: count_list_0_iff)
qed simp

locale restore_backend =
  fixes exec :: "mt_ipt_command \<Rightarrow> mt_ipt_rule list option \<Rightarrow> mt_err + mt_ipt_rule list option"
  assumes exec_append:
      "list_all is_word r \<Longrightarrow>
       exec \<lparr>cmd_option = MT_IPT_OP_APPEND, cmd_chain = n, cmd_rule_num = 0, cmd_rule = Some r\<rparr>
         (Some rs) = Inr (Some (rs @ [r]))"
    and exec_insert:
      "list_all is_word r \<Longrightarrow>
       exec \<lparr>cmd_option = MT_IPT_OP_INSERT, cmd_chain = n, cmd_rule_num = 1, cmd_rule = Some r\<rparr>
         (Some rs) = Inr (Some (r # rs))"
    and exec_delete:
      "list_all is_word r \<Longrightarrow> r \<in> set rs \<Longrightarrow>
       exec \<lparr>cmd_option = MT_IPT_OP_DELETE, cmd_chain = n, cmd_rule_num = 0, cmd_rule = Some r\<rparr>
         (Some rs) = Inr (Some (remove1 r rs))"
    and exec_flush:
      "exec \<lparr>cmd_option = MT_IPT_OP_FLUSH, cmd_chain = n, cmd_rule_num = 0, cmd_rule = None\<rparr>
         (Some rs) = Inr (Some [])"
    and exec_delete_chain:
      "exec \<lparr>cmd_option = MT_IPT_OP_DELETE_CHAIN, cmd_chain = n, cmd_rule_num = 0, cmd_rule = None\<rparr>
         (Some []) = Inr None"
begin

lemma run_appends:
  "rules_ok c \<Longrightarrow>
   run_cmds exec (map (\<lambda>r. \<lparr>cmd_option = MT_IPT_OP_APPEND, cmd_chain = n, cmd_rule_num = 0,
     cmd_rule = Some (mt_ipt_rule_clone r)\<rparr>) c) (Some rs) = Inr (Some (rs @ c))"
  by (induction c arbitrary: rs) (auto simp: exec_append)

lemma run_deletes:
  "list_all is_word r \<Longrightarrow> k \<le> count_list rs r \<Longrightarrow>
   \<exists>rs'. run_cmds exec (replicate k (patch_cmd MT_IPT_OP_DELETE n 0 r)) (Some rs) = Inr (Some rs') \<and>
     count_list rs' r = count_list rs r - k \<and> filter (\<lambda>x. x \<noteq> r) rs' = filter (\<lambda>x. x \<noteq> r) rs"
proof (induction k arbitrary: rs)
  case (Suc k)
  have mem: "r \<in> set rs" using Suc.prems(2) count_notin [of r rs] by fastforce
  have "k \<le> count_list (remove1 r rs) r" using Suc.prems(2) by (simp add: count_list_remove1)
  from Suc.IH [OF Suc.prems(1) this] mem Suc.prems(1) show ?case
    by (auto simp: patch_cmd_def exec_delete count_list_remove1 filter_neq_remove1)
qed simp

lemma run_entry:
  assumes e: "patch_entry_ok e"
    and count: "unat (case count_lookup m (mt_ipt_rule_string (pe_rule e)) of Some n \<Rightarrow> n | None \<Rightarrow> 0) =
      count_list rs (pe_rule e)"
  shows "\<exists>rs'. run_cmds exec (patch_entry_cmds m n e) (Some rs) = Inr (Some rs') \<and>
     count_list rs' (pe_rule e) = (if pe_option e = MT_IPT_OP_DELETE then 0 else 1) \<and>
     filter (\<lambda>x. x \<noteq> pe_rule e) rs' = filter (\<lambda>x. x \<noteq> pe_rule e) rs"
proof -
  let ?r = "pe_rule e" and ?k = "count_list rs (pe_rule e)"
  have w: "list_all is_word ?r" using e by (simp add: patch_entry_ok_def)
  obtain rs1 where rs1: "run_cmds exec (replicate (?k - 1) (patch_cmd MT_IPT_OP_DELETE n 0 ?r)) (Some rs) =
      Inr (Some rs1)" "count_list rs1 ?r = min ?k 1"
    "filter (\<lambda>x. x \<noteq> ?r) rs1 = filter (\<lambda>x. x \<noteq> ?r) rs"
    using run_deletes [OF w, of "?k - 1" rs n] by (auto simp: min_def)
  have "?k \<noteq> 0 \<Longrightarrow> ?r \<in> set rs1" using rs1(2) count_notin [of ?r rs1] by fastforce
  then have del: "?k \<noteq> 0 \<Longrightarrow> exec (patch_cmd MT_IPT_OP_DELETE n 0 ?r) (Some rs1) = Inr (Some (remove1 ?r rs1))"
    by (simp add: patch_cmd_def exec_delete w)
  have app: "exec (patch_cmd MT_IPT_OP_APPEND n 0 ?r) (Some rs1) = Inr (Some (rs1 @ [?r]))"
    "exec (patch_cmd MT_IPT_OP_INSERT n 1 ?r) (Some rs1) = Inr (Some (?r # rs1))"
    by (simp_all add: patch_cmd_def exec_append exec_insert w)
  define own where "own = (case pe_option e of
         MT_IPT_OP_APPEND \<Rightarrow> if min ?k 1 > 0 then [] else [patch_cmd MT_IPT_OP_APPEND n 0 ?r]
       | MT_IPT_OP_INSERT \<Rightarrow> if min ?k 1 > 0 then [] else [patch_cmd MT_IPT_OP_INSERT n (pe_rule_num e) ?r]
       | MT_IPT_OP_DELETE \<Rightarrow> if min ?k 1 = 0 then [] else [patch_cmd MT_IPT_OP_DELETE n 0 ?r]
       | _ \<Rightarrow> [])"
  have "patch_entry_cmds m n e = replicate (?k - 1) (patch_cmd MT_IPT_OP_DELETE n 0 ?r) @ own"
    unfolding patch_entry_cmds_def Let_def count own_def ..
  then have run: "run_cmds exec (patch_entry_cmds m n e) (Some rs) = run_cmds exec own (Some rs1)"
    using rs1(1) by (simp add: run_cmds_append)
  from e consider "pe_option e = MT_IPT_OP_APPEND" | "pe_option e = MT_IPT_OP_DELETE"
    | "pe_option e = MT_IPT_OP_INSERT" "pe_rule_num e = 1" by (auto simp: patch_entry_ok_def)
  then show ?thesis
  proof cases
    case 1
    then show ?thesis using rs1(2,3) app unfolding run own_def by (cases "?k = 0") simp_all
  next
    case 2
    then show ?thesis using rs1(2,3) del unfolding run own_def
      by (cases "?k = 0") (simp_all add: count_list_remove1 filter_neq_remove1)
  next
    case 3
    then show ?thesis using rs1(2,3) app unfolding run own_def by (cases "?k = 0") simp_all
  qed
qed

lemma run_entries:
  assumes "distinct (map pe_rule es)" "list_all patch_entry_ok es"
    and "\<forall>e\<in>set es. unat (case count_lookup m (mt_ipt_rule_string (pe_rule e)) of
        Some n \<Rightarrow> n | None \<Rightarrow> 0) = count_list rs (pe_rule e)"
  shows "\<exists>rs'. run_cmds exec (concat (map (patch_entry_cmds m n) es)) (Some rs) = Inr (Some rs') \<and>
     patch_goal es rs rs'"
  using assms
proof (induction es arbitrary: rs)
  case (Cons e es)
  obtain rs1 where rs1: "run_cmds exec (patch_entry_cmds m n e) (Some rs) = Inr (Some rs1)"
    "count_list rs1 (pe_rule e) = (if pe_option e = MT_IPT_OP_DELETE then 0 else 1)"
    "filter (\<lambda>x. x \<noteq> pe_rule e) rs1 = filter (\<lambda>x. x \<noteq> pe_rule e) rs"
    using run_entry [of e m rs n] Cons.prems by auto
  have other: "count_list rs1 (pe_rule f) = count_list rs (pe_rule f)" if "f \<in> set es" for f
  proof -
    have "pe_rule f \<in> pe_rule ` set es" "pe_rule e \<notin> pe_rule ` set es"
      using that Cons.prems(1) by simp_all
    then have "pe_rule f \<noteq> pe_rule e" by metis
    then show ?thesis by (rule count_list_same [OF rs1(3)])
  qed
  then obtain rs' where rs': "run_cmds exec (concat (map (patch_entry_cmds m n) es)) (Some rs1) =
      Inr (Some rs')" "patch_goal es rs1 rs'"
    using Cons.IH [of rs1] Cons.prems other by (simp add: list_all_iff) blast
  have out: "filter (\<lambda>r. r \<notin> pe_rule ` set es) rs' = filter (\<lambda>r. r \<notin> pe_rule ` set es) rs1"
    using rs'(2) by (simp add: patch_goal_def)
  have "count_list rs' (pe_rule e) = count_list rs1 (pe_rule e)"
    using count_list_same [OF out] Cons.prems(1) by auto
  moreover have "filter (\<lambda>r. r \<notin> pe_rule ` set (e # es)) rs' = filter (\<lambda>r. r \<notin> pe_rule ` set (e # es)) rs"
  proof -
    have split: "filter (\<lambda>r. r \<notin> pe_rule ` set (e # es)) xs =
        filter (\<lambda>r. r \<notin> pe_rule ` set es) (filter (\<lambda>x. x \<noteq> pe_rule e) xs)"
      "filter (\<lambda>r. r \<notin> pe_rule ` set (e # es)) xs =
        filter (\<lambda>x. x \<noteq> pe_rule e) (filter (\<lambda>r. r \<notin> pe_rule ` set es) xs)" for xs
      by (auto simp: conj_commute intro: filter_cong)
    have "filter (\<lambda>r. r \<notin> pe_rule ` set (e # es)) rs' = filter (\<lambda>r. r \<notin> pe_rule ` set (e # es)) rs1"
      by (simp only: split(2) out)
    also have "\<dots> = filter (\<lambda>r. r \<notin> pe_rule ` set (e # es)) rs" by (simp only: split(1) rs1(3))
    finally show ?thesis .
  qed
  ultimately show ?case using rs1 rs' by (auto simp: run_cmds_append patch_goal_def)
qed (simp add: patch_goal_def)

lemma compile_correct:
  assumes "chain_ok k" "rules_ok (or_empty ex)" "length (or_empty ex) < 2 ^ 32"
    and "fst (chain_compile k n ex) \<noteq> []"
  shows "\<exists>after. run_cmds exec (fst (chain_compile k n ex)) (Some (or_empty ex)) = Inr after \<and>
    chain_goal k ex after"
proof (cases k)
  case (ChainPatch es)
  have "\<forall>e\<in>set es. unat (case count_lookup (existing_counts (or_empty ex)) (mt_ipt_rule_string (pe_rule e)) of
        Some n \<Rightarrow> n | None \<Rightarrow> 0) = count_list (or_empty ex) (pe_rule e)"
    using existing_counts_exact [OF assms(2) _ assms(3)] assms(1) ChainPatch
    by (auto simp: list_all_iff patch_entry_ok_def)
  from run_entries [OF _ _ this, of n] ChainPatch assms(1) show ?thesis
    by (auto simp: patch_compile_def Let_def)
next
  case (ChainOverride c)
  then show ?thesis using assms run_appends [of c n "[]"]
    by (auto simp: override_compile_def exec_flush split: if_splits)
next
  case ChainDelete
  then show ?thesis using assms(4)
    by (auto simp: delete_compile_def exec_flush exec_delete_chain split: option.splits)
qed

end

lemma patch_entry_no_cmds:
  assumes "patch_entry_ok e"
    and "unat (case count_lookup m (mt_ipt_rule_string (pe_rule e)) of Some n \<Rightarrow> n | None \<Rightarrow> 0) =
      count_list rs (pe_rule e)"
  shows "patch_entry_cmds m n e = [] \<longleftrightarrow>
    count_list rs (pe_rule e) = (if pe_option e = MT_IPT_OP_DELETE then 0 else 1)"
  using assms by (auto simp: patch_entry_cmds_def Let_def patch_entry_ok_def patch_cmd_def min_def)

lemma compile_nothing:
  assumes "chain_ok k" "rules_ok (or_empty ex)" "length (or_empty ex) < 2 ^ 32"
  shows "fst (chain_compile k n ex) = [] \<longleftrightarrow> chain_goal k ex ex"
proof (cases k)
  case (ChainPatch es)
  have "\<forall>e\<in>set es. unat (case count_lookup (existing_counts (or_empty ex)) (mt_ipt_rule_string (pe_rule e)) of
        Some n \<Rightarrow> n | None \<Rightarrow> 0) = count_list (or_empty ex) (pe_rule e)"
    using existing_counts_exact [OF assms(2) _ assms(3)] assms(1) ChainPatch
    by (auto simp: list_all_iff patch_entry_ok_def)
  with ChainPatch assms(1) show ?thesis
    by (auto simp: patch_compile_def Let_def patch_goal_def patch_entry_no_cmds [where rs = "or_empty ex"]
        list_all_iff)
next
  case (ChainOverride c)
  then show ?thesis
    by (auto simp: override_compile_def override_match_iff split: option.splits)
next
  case ChainDelete
  then show ?thesis by (auto simp: delete_compile_def split: option.splits)
qed

end
