(* ===== verification/Bytebuf.thy ===== *)
theory Bytebuf
  imports Prelude "HOL-Library.Sublist"
begin

text \<open>
  \<^verbatim>\<open>src/util/bytebuf.c\<close>: a growable byte buffer with a hard cap, used for the transcripts handed to
  \<^verbatim>\<open>iptables-restore\<close> and for captured subprocess output.  \<open>bb_data\<close> is the part of the allocation in use
  (its length is the field \<open>len\<close> of the struct), \<open>bb_cap\<close> the size of the allocation.
\<close>

record mt_bytebuf =
  bb_data :: string
  bb_cap :: nat
  bb_max_cap :: nat

definition MT_BYTEBUF_MAX_DEFAULT :: nat where
  "MT_BYTEBUF_MAX_DEFAULT = 64 * 1024 * 1024"

definition mt_bytebuf_init_bounded :: "nat \<Rightarrow> mt_bytebuf" where
  "mt_bytebuf_init_bounded max_cap =
    \<lparr>bb_data = [], bb_cap = 0,
     bb_max_cap = (if max_cap \<noteq> 0 then max_cap else MT_BYTEBUF_MAX_DEFAULT)\<rparr>"

definition mt_bytebuf_init :: mt_bytebuf where
  "mt_bytebuf_init = mt_bytebuf_init_bounded 0"

text \<open>
  The growth loop of \<^verbatim>\<open>mt_bytebuf_append\<close>.  It is entered with \<open>newcap\<close> positive (4096, or a
  capacity that is not 0), which is why the doubling ends; the test for 0 only makes the definition
  total.
\<close>

function bb_grow :: "nat \<Rightarrow> nat \<Rightarrow> nat \<Rightarrow> nat" where
  "bb_grow newcap need max_cap =
    (if newcap = 0 \<or> newcap \<ge> need then newcap
     else if newcap > max_cap div 2 then max_cap
     else bb_grow (newcap * 2) need max_cap)"
  by auto
termination by (relation "measure (\<lambda>(newcap, need, _). need - newcap)") auto

declare bb_grow.simps [simp del]

definition bb_new_cap :: "mt_bytebuf \<Rightarrow> nat \<Rightarrow> nat" where
  "bb_new_cap b need =
    (let newcap = bb_grow (if bb_cap b = 0 then 4096 else bb_cap b) need (bb_max_cap b)
     in if newcap > bb_max_cap b then bb_max_cap b else newcap)"

definition mt_bytebuf_append :: "mt_bytebuf \<Rightarrow> string \<Rightarrow> mt_err \<times> mt_bytebuf" where
  "mt_bytebuf_append b s =
    (let len = length s; used = length (bb_data b) in
     if len = 0 then (MT_OK, b)
     else if len > bb_max_cap b \<or> used > bb_max_cap b - len then (MT_ERR_LIMIT, b)
     else (MT_OK, b\<lparr>bb_cap := (if used + len > bb_cap b then bb_new_cap b (used + len) else bb_cap b),
                    bb_data := bb_data b @ s\<rparr>))"

definition mt_bytebuf_append_str :: "mt_bytebuf \<Rightarrow> string \<Rightarrow> mt_err \<times> mt_bytebuf" where
  "mt_bytebuf_append_str b s = mt_bytebuf_append b s"

definition mt_bytebuf_append_byte :: "mt_bytebuf \<Rightarrow> char \<Rightarrow> mt_err \<times> mt_bytebuf" where
  "mt_bytebuf_append_byte b c = mt_bytebuf_append b [c]"

section \<open>Invariant\<close>

text \<open>What is in use fits the allocation, and the allocation respects the cap.\<close>

definition bb_wf :: "mt_bytebuf \<Rightarrow> bool" where
  "bb_wf b \<longleftrightarrow> length (bb_data b) \<le> bb_cap b \<and> bb_cap b \<le> bb_max_cap b \<and> 0 < bb_max_cap b"

lemma bb_wf_init [simp]: "bb_wf (mt_bytebuf_init_bounded m)"
  by (simp add: bb_wf_def mt_bytebuf_init_bounded_def MT_BYTEBUF_MAX_DEFAULT_def)

lemma bb_grow_enough:
  "0 < newcap \<Longrightarrow> need \<le> max_cap \<Longrightarrow> need \<le> bb_grow newcap need max_cap"
  by (induction newcap need max_cap rule: bb_grow.induct) (subst bb_grow.simps, auto)

lemma bb_new_cap_bounds:
  assumes "need \<le> bb_max_cap b"
  shows "need \<le> bb_new_cap b need" "bb_new_cap b need \<le> bb_max_cap b"
  using assms bb_grow_enough [of "if bb_cap b = 0 then 4096 else bb_cap b" need "bb_max_cap b"]
  by (auto simp: bb_new_cap_def Let_def)

text \<open>
  A run of appends that stops at the first error, as the writers of the transcripts chain them
  (\<^verbatim>\<open>if (err == MT_OK) { err = mt_bytebuf_append...; }\<close>).
\<close>

fun bb_appends :: "mt_bytebuf \<Rightarrow> string list \<Rightarrow> mt_err \<times> mt_bytebuf" where
  "bb_appends b [] = (MT_OK, b)"
| "bb_appends b (s # ss) =
    (case mt_bytebuf_append b s of (err, b') \<Rightarrow>
       if err = MT_OK then bb_appends b' ss else (err, b'))"

lemma append_wf:
  "bb_wf b \<Longrightarrow> mt_bytebuf_append b s = (err, b') \<Longrightarrow> bb_wf b' \<and> bb_max_cap b' = bb_max_cap b"
  using bb_new_cap_bounds [of "length (bb_data b) + length s" b]
  by (auto simp: bb_wf_def mt_bytebuf_append_def Let_def split: if_splits)

lemma append_fits:
  "bb_wf b \<Longrightarrow> length (bb_data b) + length s \<le> bb_max_cap b \<Longrightarrow>
   \<exists>b'. mt_bytebuf_append b s = (MT_OK, b') \<and> bb_data b' = bb_data b @ s"
  by (auto simp: mt_bytebuf_append_def Let_def)

lemma append_overflows:
  "bb_wf b \<Longrightarrow> length (bb_data b) + length s > bb_max_cap b \<Longrightarrow>
   mt_bytebuf_append b s = (MT_ERR_LIMIT, b)"
  by (auto simp: mt_bytebuf_append_def bb_wf_def Let_def)

lemma appends_spec:
  assumes "bb_wf b"
  shows "\<exists>err b'. bb_appends b ss = (err, b') \<and> bb_wf b' \<and> bb_max_cap b' = bb_max_cap b \<and>
     (if length (bb_data b @ concat ss) \<le> bb_max_cap b
      then err = MT_OK \<and> bb_data b' = bb_data b @ concat ss
      else err = MT_ERR_LIMIT \<and> prefix (bb_data b') (bb_data b @ concat ss))"
  using assms
proof (induction ss arbitrary: b)
  case Nil
  then show ?case by (simp add: bb_wf_def)
next
  case (Cons s ss)
  show ?case
  proof (cases "length (bb_data b) + length s \<le> bb_max_cap b")
    case True
    then obtain b1 where b1: "mt_bytebuf_append b s = (MT_OK, b1)" "bb_data b1 = bb_data b @ s"
      using append_fits Cons.prems by blast
    with append_wf [OF Cons.prems b1(1)] Cons.IH [of b1] show ?thesis
      by (auto split: if_splits)
  next
    case False
    with append_overflows [OF Cons.prems, of s] Cons.prems show ?thesis by auto
  qed
qed

text \<open>
  A run of appends to a fresh buffer of cap \<open>m\<close> never writes beyond its allocation and never
  allocates more than the cap; it succeeds exactly when everything fits the cap, and then the buffer
  holds exactly the concatenation; otherwise the error is \<open>MT_ERR_LIMIT\<close> and what the buffer holds
  is a prefix of what was to be written.
\<close>

theorem bytebuf_appends_exact:
  "\<exists>err b. bb_appends (mt_bytebuf_init_bounded m) ss = (err, b) \<and>
     length (bb_data b) \<le> bb_cap b \<and>
     bb_cap b \<le> (if m = 0 then 67108864 else m) \<and>
     (if length (concat ss) \<le> (if m = 0 then 67108864 else m)
      then err = MT_OK \<and> bb_data b = concat ss
      else err = MT_ERR_LIMIT \<and> (\<exists>rest. concat ss = bb_data b @ rest))"
  using appends_spec [OF bb_wf_init, of m ss]
  by (auto simp: bb_wf_def mt_bytebuf_init_bounded_def MT_BYTEBUF_MAX_DEFAULT_def prefix_def
      split: if_splits)

end
