(* ===== verification/Ipt_Engine.thy ===== *)
theory Ipt_Engine
  imports Ipt_Chain Bytebuf C_Text
begin

text \<open>
  \<^verbatim>\<open>src/iptables/engine.c\<close>: the registration of tables and chains, the parser of the output of
  \<^verbatim>\<open>iptables-save\<close>, and the commit that compiles every registered chain against the rules found on the
  system and hands one transcript to \<^verbatim>\<open>iptables-restore\<close>.

  The arrays of named entries (tables of chains, chains of rules, buckets by priority) are association
  lists in the order of the array; the linear searches are \<^const>\<open>map_of\<close>, and \<open>find_or_create\<close> is the
  search that appends a new entry when there is none, followed by the change \<open>f\<close> of the entry found.
\<close>

section \<open>Text\<close>

text \<open>The loop over the bytes of a text that cuts it at the line ends.\<close>

fun split_lines_loop :: "string \<Rightarrow> string \<Rightarrow> string list" where
  "split_lines_loop [] line = [line]"
| "split_lines_loop (b # bs) line =
    (if b = CHR 0x0A then line # split_lines_loop bs [] else split_lines_loop bs (line @ [b]))"

definition split_lines :: "string \<Rightarrow> string list" where
  "split_lines data = split_lines_loop data []"

section \<open>Arrays of named entries\<close>

fun find_or_create ::
  "('k \<Rightarrow> 'k) \<Rightarrow> 'v \<Rightarrow> ('v \<Rightarrow> 'v) \<Rightarrow> 'k \<Rightarrow> ('k \<times> 'v) list \<Rightarrow> ('k \<times> 'v) list" where
  "find_or_create copy d f k [] = [(copy k, f d)]"
| "find_or_create copy d f k ((k', v) # xs) =
    (if k' = k then (k', f v) # xs else (k', v) # find_or_create copy d f k xs)"

text \<open>Where the entry found or created is.\<close>

fun index_of :: "'k \<Rightarrow> ('k \<times> 'v) list \<Rightarrow> nat" where
  "index_of k [] = 0"
| "index_of k ((k', v) # xs) = (if k' = k then 0 else Suc (index_of k xs))"

section \<open>Registration\<close>

type_synonym chain_regs = "(string \<times> mt_ipt_chain) list"
type_synonym mt_ipt = "(string \<times> chain_regs) list"

definition mt_ipt_new :: mt_ipt where
  "mt_ipt_new = []"

definition register_chain :: "mt_ipt \<Rightarrow> string \<Rightarrow> string \<Rightarrow> mt_ipt_chain \<Rightarrow> mt_ipt" where
  "register_chain ipt table chain new =
    find_or_create id [] (find_or_create id new (\<lambda>_. new) chain) table ipt"

definition mt_ipt_register_chain_delete :: "mt_ipt \<Rightarrow> string \<Rightarrow> string \<Rightarrow> mt_ipt" where
  "mt_ipt_register_chain_delete ipt table chain = register_chain ipt table chain mt_ipt_chain_delete_new"

definition mt_ipt_register_chain_patch :: "mt_ipt \<Rightarrow> string \<Rightarrow> string \<Rightarrow> mt_ipt" where
  "mt_ipt_register_chain_patch ipt table chain = register_chain ipt table chain mt_ipt_chain_patch_new"

definition mt_ipt_register_chain_override :: "mt_ipt \<Rightarrow> string \<Rightarrow> string \<Rightarrow> mt_ipt" where
  "mt_ipt_register_chain_override ipt table chain = register_chain ipt table chain mt_ipt_chain_override_new"

text \<open>\<open>op\<close>: 0 is append, 1 insert, anything else delete.\<close>

definition dispatch_rule_op ::
  "mt_ipt \<Rightarrow> string \<Rightarrow> string \<Rightarrow> string option list \<Rightarrow> int \<Rightarrow> int \<Rightarrow> mt_err \<times> mt_ipt" where
  "dispatch_rule_op ipt table chain args rule_num op =
    (case map_of ipt table of
       None \<Rightarrow> (MT_ERR_STATE, ipt)
     | Some t \<Rightarrow>
       (case map_of t chain of
          None \<Rightarrow> (MT_ERR_STATE, ipt)
        | Some c \<Rightarrow>
          let rule = mt_ipt_rule_new args;
              c' = (if op = 0 then chain_append c rule
                    else if op = 1 then chain_insert c rule_num rule
                    else chain_remove c rule)
          in (MT_OK, find_or_create id [] (find_or_create id c (\<lambda>_. c') chain) table ipt)))"

definition mt_ipt_append :: "mt_ipt \<Rightarrow> string \<Rightarrow> string \<Rightarrow> string option list \<Rightarrow> mt_err \<times> mt_ipt" where
  "mt_ipt_append ipt table chain args = dispatch_rule_op ipt table chain args 0 0"

definition mt_ipt_insert ::
  "mt_ipt \<Rightarrow> string \<Rightarrow> string \<Rightarrow> int \<Rightarrow> string option list \<Rightarrow> mt_err \<times> mt_ipt" where
  "mt_ipt_insert ipt table chain rule_num args = dispatch_rule_op ipt table chain args rule_num 1"

definition mt_ipt_delete :: "mt_ipt \<Rightarrow> string \<Rightarrow> string \<Rightarrow> string option list \<Rightarrow> mt_err \<times> mt_ipt" where
  "mt_ipt_delete ipt table chain args = dispatch_rule_op ipt table chain args 0 2"

definition mt_ipt_err_is_chain_not_initialized :: "mt_err \<Rightarrow> bool" where
  "mt_ipt_err_is_chain_not_initialized err \<longleftrightarrow> err = MT_ERR_STATE"

section \<open>The rules found on the system\<close>

type_synonym chain_rules = "(string \<times> mt_ipt_rule list) list"
type_synonym rules_snapshot = "(string \<times> chain_rules) list"

definition with_cur_table ::
  "(chain_rules \<Rightarrow> chain_rules) \<Rightarrow> rules_snapshot \<Rightarrow> nat \<Rightarrow> rules_snapshot" where
  "with_cur_table f tables i = tables[i := (fst (tables ! i), f (snd (tables ! i)))]"

text \<open>One line; the state is the array of tables and the index of the current one.\<close>

definition parse_rule_line ::
  "string \<Rightarrow> rules_snapshot \<times> nat option \<Rightarrow> mt_err + rules_snapshot \<times> nat option" where
  "parse_rule_line line st =
    (case st of (tables, cur) \<Rightarrow>
     (case cur of None \<Rightarrow> Inl MT_ERR_PROTO
      | Some i \<Rightarrow>
        let fields = split_fields line in
        if length fields < 2 then Inl MT_ERR_PROTO
        else if length (fields ! 0) < 2 then Inl MT_ERR_PROTO
        else if fields ! 0 ! 1 = CHR ''A''
        then Inr (with_cur_table
               (find_or_create cstr [] (\<lambda>rs. rs @ [mt_ipt_rule_new (map (Some \<circ> cstr) (drop 2 fields))])
                 (fields ! 1)) tables i, cur)
        else Inl MT_ERR_PROTO))"

definition parse_line ::
  "string \<Rightarrow> rules_snapshot \<times> nat option \<Rightarrow> mt_err + rules_snapshot \<times> nat option" where
  "parse_line line st =
    (case st of (tables, cur) \<Rightarrow>
     (case line of
        [] \<Rightarrow> Inr st
      | c # body \<Rightarrow>
        if c = CHR ''*'' then
          Inr (find_or_create cstr [] id body tables, Some (index_of body tables))
        else if c = CHR '':'' then
          (let name = takeWhile (\<lambda>b. b \<noteq> CHR '' '') body in
           if name = [] then Inl MT_ERR_PROTO
           else case cur of None \<Rightarrow> Inl MT_ERR_PROTO
             | Some i \<Rightarrow> Inr (with_cur_table (find_or_create cstr [] id name) tables i, cur))
        else if c = CHR ''-'' then parse_rule_line line st
        else if c = CHR ''#'' then Inr st
        else if c = CHR ''C'' then Inr (tables, None)
        else Inl MT_ERR_PROTO))"

fun each_line :: "(string \<Rightarrow> 's \<Rightarrow> mt_err + 's) \<Rightarrow> string list \<Rightarrow> 's \<Rightarrow> mt_err + 's" where
  "each_line f [] st = Inr st"
| "each_line f (l # ls) st = (case f l st of Inl e \<Rightarrow> Inl e | Inr st' \<Rightarrow> each_line f ls st')"

text \<open>The two calls into the backend: save prints the tables, restore carries out a transcript.\<close>

record 'x mt_ipt_executable =
  exe_save :: "'x \<Rightarrow> mt_err + string"
  exe_restore :: "string \<Rightarrow> 'x \<Rightarrow> mt_err \<times> 'x"

definition parse_rules :: "string \<Rightarrow> mt_err + rules_snapshot" where
  "parse_rules data =
    (case each_line parse_line (split_lines data) ([], None) of
       Inl e \<Rightarrow> Inl e | Inr (tables, _) \<Rightarrow> Inr tables)"

definition mt_ipt_get_current_rules :: "'x mt_ipt_executable \<Rightarrow> 'x \<Rightarrow> mt_err + rules_snapshot" where
  "mt_ipt_get_current_rules exe x =
    (case exe_save exe x of Inl e \<Rightarrow> Inl e | Inr data \<Rightarrow> parse_rules data)"

definition mt_ipt_rules_snapshot_find_table :: "rules_snapshot \<Rightarrow> string \<Rightarrow> chain_rules option" where
  "mt_ipt_rules_snapshot_find_table snap name = map_of snap name"

definition mt_ipt_table_rules_find_chain :: "chain_rules \<Rightarrow> string \<Rightarrow> mt_ipt_rule list option" where
  "mt_ipt_table_rules_find_chain t name = map_of t name"

section \<open>Commit\<close>

fun rule_chunks :: "mt_ipt_rule \<Rightarrow> string list" where
  "rule_chunks [] = []"
| "rule_chunks [p] = [p]"
| "rule_chunks (p # q # ps) = p # '' '' # rule_chunks (q # ps)"

definition write_rule_string :: "mt_bytebuf \<Rightarrow> mt_ipt_rule \<Rightarrow> mt_err \<times> mt_bytebuf" where
  "write_rule_string buf r = bb_appends buf (rule_chunks r)"

definition opt_rule_chunks :: "mt_ipt_rule option \<Rightarrow> string list" where
  "opt_rule_chunks ro =
    (case ro of Some r \<Rightarrow> (if length r > 0 then '' '' # rule_chunks r else []) | None \<Rightarrow> [])"

fun command_chunks :: "mt_ipt_option \<Rightarrow> mt_ipt_command \<Rightarrow> string list" where
  "command_chunks MT_IPT_OP_APPEND cmd =
    [''-A '', cmd_chain cmd] @ opt_rule_chunks (cmd_rule cmd) @ [[CHR 0x0A]]"
| "command_chunks MT_IPT_OP_DELETE cmd =
    [''-D '', cmd_chain cmd] @ opt_rule_chunks (cmd_rule cmd) @ [[CHR 0x0A]]"
| "command_chunks MT_IPT_OP_INSERT cmd =
    [''-I '', cmd_chain cmd, '' '', c_dec_int (cmd_rule_num cmd)] @ opt_rule_chunks (cmd_rule cmd) @
    [[CHR 0x0A]]"
| "command_chunks MT_IPT_OP_FLUSH cmd = [''-F '', cmd_chain cmd, [CHR 0x0A]]"
| "command_chunks MT_IPT_OP_DELETE_CHAIN cmd = [''-X '', cmd_chain cmd, [CHR 0x0A]]"

definition write_command :: "mt_bytebuf \<Rightarrow> mt_ipt_command \<Rightarrow> mt_err \<times> mt_bytebuf" where
  "write_command buf cmd = bb_appends buf (command_chunks (cmd_option cmd) cmd)"

fun write_commands :: "mt_bytebuf \<Rightarrow> mt_ipt_command list \<Rightarrow> mt_err \<times> mt_bytebuf" where
  "write_commands buf [] = (MT_OK, buf)"
| "write_commands buf (c # cs) =
    (case write_command buf c of (err, buf') \<Rightarrow>
       if err = MT_OK then write_commands buf' cs else (err, buf'))"

type_synonym prio_buckets = "(int \<times> mt_ipt_command list) list"

definition bucket_append_range :: "prio_buckets \<Rightarrow> int \<Rightarrow> mt_ipt_command list \<Rightarrow> prio_buckets" where
  "bucket_append_range buckets prio cmds = find_or_create id [] (\<lambda>b. b @ cmds) prio buckets"

definition table_head :: "string \<Rightarrow> string list" where
  "table_head tname = [''*'', tname, [CHR 0x0A]]"

definition chain_decl :: "string \<Rightarrow> string list" where
  "chain_decl name = ['':'', name, '' - [0:0]'' @ [CHR 0x0A]]"

text \<open>The chains of one table: declarations are written at once, commands go to the buckets.\<close>

fun commit_chains ::
  "string \<Rightarrow> chain_rules option \<Rightarrow> chain_regs \<Rightarrow> mt_bytebuf \<Rightarrow> prio_buckets \<Rightarrow> bool \<Rightarrow>
   mt_err + (mt_bytebuf \<times> prio_buckets \<times> bool)" where
  "commit_chains tname cur_table [] buf buckets written = Inr (buf, buckets, written)"
| "commit_chains tname cur_table ((name, c) # rest) buf buckets written =
    (let existing = (case cur_table of None \<Rightarrow> None | Some t \<Rightarrow> mt_ipt_table_rules_find_chain t name)
     in case chain_compile c name existing of (cmds, priority) \<Rightarrow>
       if length cmds = 0 then commit_chains tname cur_table rest buf buckets written
       else case (if written then (MT_OK, buf) else bb_appends buf (table_head tname)) of (err, buf1) \<Rightarrow>
         if err \<noteq> MT_OK then Inl err
         else case bb_appends buf1 (chain_decl name) of (err, buf2) \<Rightarrow>
           if err \<noteq> MT_OK then Inl err
           else commit_chains tname cur_table rest buf2 (bucket_append_range buckets priority cmds) True)"

definition commit_table ::
  "rules_snapshot \<Rightarrow> string \<times> chain_regs \<Rightarrow> mt_bytebuf \<Rightarrow> mt_err + mt_bytebuf" where
  "commit_table cur t buf =
    (case commit_chains (fst t) (mt_ipt_rules_snapshot_find_table cur (fst t)) (snd t) buf [] False of
       Inl e \<Rightarrow> Inl e
     | Inr (buf1, buckets, written) \<Rightarrow>
       if \<not> written then Inr buf1
       else case write_commands buf1 (concat (map snd (sort_key fst buckets))) of (err, buf2) \<Rightarrow>
         if err \<noteq> MT_OK then Inl err
         else case mt_bytebuf_append_str buf2 (''COMMIT'' @ [CHR 0x0A]) of (err, buf3) \<Rightarrow>
           if err \<noteq> MT_OK then Inl err else Inr buf3)"

fun commit_tables :: "rules_snapshot \<Rightarrow> mt_ipt \<Rightarrow> mt_bytebuf \<Rightarrow> mt_err + mt_bytebuf" where
  "commit_tables cur [] buf = Inr buf"
| "commit_tables cur (t # ts) buf =
    (case commit_table cur t buf of Inl e \<Rightarrow> Inl e | Inr buf' \<Rightarrow> commit_tables cur ts buf')"

text \<open>
  \<open>canceled1\<close> and \<open>canceled2\<close> are what the two looks at the cancellation token find (both
  \<^const>\<open>False\<close> when no token is attached).
\<close>

definition mt_ipt_commit ::
  "'x mt_ipt_executable \<Rightarrow> bool \<Rightarrow> bool \<Rightarrow> mt_ipt \<Rightarrow> 'x \<Rightarrow> mt_err \<times> 'x" where
  "mt_ipt_commit exe canceled1 canceled2 ipt x =
    (if canceled1 then (MT_ERR_CANCELED, x)
     else case mt_ipt_get_current_rules exe x of
       Inl e \<Rightarrow> (e, x)
     | Inr cur \<Rightarrow>
       (case commit_tables cur ipt mt_bytebuf_init of
          Inl e \<Rightarrow> (e, x)
        | Inr buf \<Rightarrow>
          if bb_data buf = [] then (MT_OK, x)
          else if canceled2 then (MT_ERR_CANCELED, x)
          else exe_restore exe (bb_data buf) x))"

section \<open>Named entries\<close>

lemma find_or_create_map:
  "copy k = k \<Longrightarrow> map_of (find_or_create copy d f k xs) =
     (map_of xs)(k \<mapsto> f (case map_of xs k of None \<Rightarrow> d | Some v \<Rightarrow> v))"
  by (induction copy d f k xs rule: find_or_create.induct) (auto simp: fun_eq_iff)

lemma find_or_create_keys:
  "copy k = k \<Longrightarrow> map fst (find_or_create copy d f k xs) =
     (if k \<in> set (map fst xs) then map fst xs else map fst xs @ [k])"
  by (induction copy d f k xs rule: find_or_create.induct) auto

lemma find_or_create_distinct:
  "copy k = k \<Longrightarrow> distinct (map fst xs) \<Longrightarrow> distinct (map fst (find_or_create copy d f k xs))"
  by (simp add: find_or_create_keys)

lemma index_of_find_or_create:
  "copy k = k \<Longrightarrow> index_of k xs < length (find_or_create copy d f k xs) \<and>
   find_or_create copy d f k xs ! index_of k xs = (k, f (case map_of xs k of None \<Rightarrow> d | Some v \<Rightarrow> v))"
  by (induction copy d f k xs rule: find_or_create.induct) auto

text \<open>
  A run of \<open>find_or_create\<close>, each adding a list to an entry: the buckets of a commit, and the chains
  collected from the lines of a table.
\<close>

definition collect ::
  "('k \<Rightarrow> 'k) \<Rightarrow> ('k \<times> 'v list) list \<Rightarrow> ('k \<times> 'v list) list \<Rightarrow> ('k \<times> 'v list) list" where
  "collect copy its = fold (\<lambda>(k, vs). find_or_create copy [] (\<lambda>b. b @ vs) k) its"

lemma collect_simps [simp]:
  "collect copy [] bs = bs"
  "collect copy (i # its) bs = collect copy its (find_or_create copy [] (\<lambda>b. b @ snd i) (fst i) bs)"
  by (simp_all add: collect_def split: prod.split)

lemma collect_map:
  "\<forall>i\<in>set its. copy (fst i) = fst i \<Longrightarrow>
   map_of (collect copy its bs) k =
    (if k \<in> fst ` set bs \<or> k \<in> fst ` set its
     then Some (or_empty (map_of bs k) @ concat (map snd (filter (\<lambda>i. fst i = k) its)))
     else None)"
proof (induction its arbitrary: bs)
  case Nil
  then show ?case by (auto simp: map_of_eq_None_iff split: option.splits)
next
  case (Cons i its)
  let ?bs = "find_or_create copy [] (\<lambda>b. b @ snd i) (fst i) bs"
  have i: "copy (fst i) = fst i" using Cons.prems by simp
  have "fst ` set ?bs = insert (fst i) (fst ` set bs)"
    using find_or_create_keys [of copy "fst i" "[]" "\<lambda>b. b @ snd i" bs, OF i]
    unfolding list.set_map [symmetric] by (cases "fst i \<in> set (map fst bs)") auto
  with Cons.IH [of ?bs] Cons.prems show ?case by (auto simp: find_or_create_map [of copy "fst i", OF i])
qed

lemma collect_distinct:
  "\<forall>i\<in>set its. copy (fst i) = fst i \<Longrightarrow> distinct (map fst bs) \<Longrightarrow>
   distinct (map fst (collect copy its bs))"
  by (induction its arbitrary: bs) (simp_all add: find_or_create_distinct)

section \<open>The transcript of a commit\<close>

lemma bb_appends_append:
  "bb_appends b (xs @ ys) =
    (case bb_appends b xs of (err, b') \<Rightarrow> if err = MT_OK then bb_appends b' ys else (err, b'))"
  by (induction xs arbitrary: b) (auto split: prod.splits)

lemma bb_appends_single: "bb_appends b [s] = mt_bytebuf_append b s"
  by (auto split: prod.splits)

definition cur_chain :: "chain_rules option \<Rightarrow> string \<Rightarrow> mt_ipt_rule list option" where
  "cur_chain t name = (case t of None \<Rightarrow> None | Some t \<Rightarrow> map_of t name)"

text \<open>The chains of a table that need commands, with the commands and their priority.\<close>

definition compiled ::
  "chain_rules option \<Rightarrow> chain_regs \<Rightarrow> (string \<times> mt_ipt_command list \<times> int) list" where
  "compiled t regs =
    filter (\<lambda>(_, cmds, _). cmds \<noteq> []) (map (\<lambda>(n, c). (n, chain_compile c n (cur_chain t n))) regs)"

definition buckets_of :: "(string \<times> mt_ipt_command list \<times> int) list \<Rightarrow> prio_buckets \<Rightarrow> prio_buckets" where
  "buckets_of cs = collect id (map (\<lambda>(_, cmds, p). (p, cmds)) cs)"

definition table_cmds :: "(string \<times> mt_ipt_command list \<times> int) list \<Rightarrow> mt_ipt_command list" where
  "table_cmds cs = concat (map snd (sort_key fst (buckets_of cs [])))"

definition decl_chunks :: "(string \<times> mt_ipt_command list \<times> int) list \<Rightarrow> string list" where
  "decl_chunks cs = concat (map (\<lambda>(n, _). chain_decl n) cs)"

definition table_chunks :: "string \<Rightarrow> (string \<times> mt_ipt_command list \<times> int) list \<Rightarrow> string list" where
  "table_chunks tname cs =
    (if cs = [] then []
     else table_head tname @ decl_chunks cs @
       concat (map (\<lambda>c. command_chunks (cmd_option c) c) (table_cmds cs)) @ [''COMMIT'' @ [CHR 0x0A]])"

definition transcript :: "rules_snapshot \<Rightarrow> mt_ipt \<Rightarrow> string" where
  "transcript cur ipt =
    concat (concat (map (\<lambda>(t, regs). table_chunks t (compiled (map_of cur t) regs)) ipt))"

lemma compiled_Nil [simp]: "compiled t [] = []"
  by (simp add: compiled_def)

lemma compiled_Cons [simp]:
  "compiled t ((n, c) # regs) =
    (case chain_compile c n (cur_chain t n) of (cmds, p) \<Rightarrow>
       if cmds = [] then compiled t regs else (n, cmds, p) # compiled t regs)"
  by (auto simp: compiled_def split: prod.splits)

lemma commit_chains_chunks:
  "commit_chains tname t regs buf bs w =
    (case bb_appends buf ((if w \<or> compiled t regs = [] then [] else table_head tname) @
        decl_chunks (compiled t regs)) of (err, buf') \<Rightarrow>
       if err \<noteq> MT_OK then Inl err
       else Inr (buf', buckets_of (compiled t regs) bs, w \<or> compiled t regs \<noteq> []))"
proof (induction tname t regs buf bs w rule: commit_chains.induct)
  case (1 tname cur_table buf buckets written)
  then show ?case by (simp add: decl_chunks_def buckets_of_def)
next
  case (2 tname t name c rest buf buckets written)
  obtain cmds p where c: "chain_compile c name (cur_chain t name) = (cmds, p)" by fastforce
  then have c': "chain_compile c name (case t of None \<Rightarrow> None
      | Some t \<Rightarrow> mt_ipt_table_rules_find_chain t name) = (cmds, p)"
    unfolding cur_chain_def mt_ipt_table_rules_find_chain_def .
  show ?case
  proof (cases "cmds = []")
    case True
    with c have same: "compiled t ((name, c) # rest) = compiled t rest" by simp
    show ?thesis
      unfolding commit_chains.simps(2) Let_def c' same using True 2(1) [OF refl c'[symmetric]] by simp
  next
    case False
    note IH = 2(2) [OF refl c'[symmetric]]
    show ?thesis
      unfolding commit_chains.simps(2) Let_def c' prod.case if_not_P [OF False [folded length_0_conv]]
        compiled_Cons c if_not_P [OF False]
      using IH False
      by (simp add: decl_chunks_def buckets_of_def bb_appends_append bucket_append_range_def
          split: prod.splits if_splits)
  qed
qed

lemma write_commands_chunks:
  "write_commands buf cs = bb_appends buf (concat (map (\<lambda>c. command_chunks (cmd_option c) c) cs))"
  by (induction cs arbitrary: buf) (auto simp: write_command_def bb_appends_append split: prod.splits)

lemma commit_table_chunks:
  "commit_table cur (t, regs) buf =
    (case bb_appends buf (table_chunks t (compiled (map_of cur t) regs)) of (err, buf') \<Rightarrow>
       if err \<noteq> MT_OK then Inl err else Inr buf')"
  unfolding commit_table_def commit_chains_chunks mt_ipt_rules_snapshot_find_table_def fst_conv snd_conv
    write_commands_chunks mt_bytebuf_append_str_def table_chunks_def
  by (auto simp: decl_chunks_def bb_appends_append table_cmds_def bb_appends_single
      simp del: bb_appends.simps(2) split: prod.splits)

lemma commit_tables_chunks:
  "commit_tables cur ipt buf =
    (case bb_appends buf (concat (map (\<lambda>(t, regs). table_chunks t (compiled (map_of cur t) regs)) ipt)) of
       (err, buf') \<Rightarrow> if err \<noteq> MT_OK then Inl err else Inr buf')"
proof (induction ipt arbitrary: buf)
  case (Cons t ts)
  then show ?case
    by (cases t) (auto simp: commit_table_chunks bb_appends_append split: prod.splits)
qed simp

lemma commit_tables_transcript:
  assumes "length (transcript cur ipt) \<le> MT_BYTEBUF_MAX_DEFAULT"
  shows "\<exists>b. commit_tables cur ipt mt_bytebuf_init = Inr b \<and> bb_data b = transcript cur ipt"
proof -
  let ?cs = "concat (map (\<lambda>(t, regs). table_chunks t (compiled (map_of cur t) regs)) ipt)"
  have "\<exists>b. bb_appends mt_bytebuf_init ?cs = (MT_OK, b) \<and> bb_data b = concat ?cs"
    using appends_spec [OF bb_wf_init, of 0 ?cs] assms
    unfolding mt_bytebuf_init_def transcript_def
    by (auto simp: mt_bytebuf_init_bounded_def split: if_splits)
  then show ?thesis by (auto simp: commit_tables_chunks transcript_def)
qed

lemma commit_tables_limit:
  assumes "length (transcript cur ipt) > MT_BYTEBUF_MAX_DEFAULT"
  shows "commit_tables cur ipt mt_bytebuf_init = Inl MT_ERR_LIMIT"
proof -
  let ?cs = "concat (map (\<lambda>(t, regs). table_chunks t (compiled (map_of cur t) regs)) ipt)"
  have "\<exists>b. bb_appends mt_bytebuf_init ?cs = (MT_ERR_LIMIT, b)"
    using appends_spec [OF bb_wf_init, of 0 ?cs] assms
    unfolding mt_bytebuf_init_def transcript_def
    by (auto simp: mt_bytebuf_init_bounded_def split: if_splits)
  then show ?thesis by (auto simp: commit_tables_chunks)
qed

section \<open>The order of the commands\<close>

lemma buckets_of_map:
  "map_of (buckets_of cs []) p =
    (if p \<in> (\<lambda>(_, _, p). p) ` set cs
     then Some (concat (map (\<lambda>(_, cmds, _). cmds) (filter (\<lambda>(_, _, q). q = p) cs))) else None)"
proof -
  have "concat (map snd (filter (\<lambda>i. fst i = p) (map (\<lambda>(_, cmds, p). (p, cmds)) cs))) =
      concat (map (\<lambda>(_, cmds, _). cmds) (filter (\<lambda>(_, _, q). q = p) cs))"
    by (induction cs) auto
  then show ?thesis by (auto simp: buckets_of_def collect_map image_iff split: prod.splits)
qed

lemma buckets_of_distinct: "distinct (map fst bs) \<Longrightarrow> distinct (map fst (buckets_of cs bs))"
  by (simp add: buckets_of_def collect_distinct)

lemma filter_key_map_of:
  "distinct (map fst bs) \<Longrightarrow>
   concat (map snd (filter (\<lambda>b. fst b = p) bs)) = (case map_of bs p of None \<Rightarrow> [] | Some v \<Rightarrow> v)"
proof (induction bs)
  case (Cons b bs)
  moreover have "filter (\<lambda>b'. fst b' = fst b) bs = []" if "fst b \<notin> set (map fst bs)"
    using that unfolding filter_empty_conv by (metis image_eqI list.set_map)
  ultimately show ?case by auto
qed simp

lemma sorted_three:
  fixes a b c :: int
  assumes "sorted (map f xs)" "a < b" "b < c" "\<forall>x\<in>set xs. f x = a \<or> f x = b \<or> f x = c"
  shows "xs = filter (\<lambda>x. f x = a) xs @ filter (\<lambda>x. f x = b) xs @ filter (\<lambda>x. f x = c) xs"
  using assms
proof (induction xs)
  case (Cons x xs)
  have none: "filter (\<lambda>y. f y = d) xs = []" if "d < f x" for d
    using Cons.prems(1) that by (fastforce simp: filter_empty_conv)
  from Cons.prems consider "f x = a" | "f x = b" | "f x = c" by auto
  then show ?case
  proof cases
    case 1
    then show ?thesis using Cons by simp
  next
    case 2
    then show ?thesis using Cons none [of a] by simp
  next
    case 3
    then show ?thesis using Cons none [of a] none [of b] by simp
  qed
qed simp

definition of_prio :: "int \<Rightarrow> (string \<times> mt_ipt_command list \<times> int) list \<Rightarrow> mt_ipt_command list" where
  "of_prio p cs = concat (map (\<lambda>(_, cmds, _). cmds) (filter (\<lambda>(_, _, q). q = p) cs))"

lemma compile_prio: "snd (chain_compile c n ex) =
   (case c of ChainOverride _ \<Rightarrow> -128 | ChainPatch _ \<Rightarrow> 0 | ChainDelete \<Rightarrow> 127)"
  by (cases c) (auto simp: patch_compile_def override_compile_def delete_compile_def Let_def
      split: option.splits)

lemma compiled_prio: "(n, cmds, p) \<in> set (compiled t regs) \<Longrightarrow> p = -128 \<or> p = 0 \<or> p = 127"
proof -
  assume "(n, cmds, p) \<in> set (compiled t regs)"
  then obtain c where "(cmds, p) = chain_compile c n (cur_chain t n)" by (auto simp: compiled_def)
  then have "p = snd (chain_compile c n (cur_chain t n))" by (metis snd_conv)
  then show ?thesis unfolding compile_prio by (simp split: mt_ipt_chain.splits)
qed

lemma table_cmds_order:
  "table_cmds (compiled t regs) =
    of_prio (-128) (compiled t regs) @ of_prio 0 (compiled t regs) @ of_prio 127 (compiled t regs)"
proof -
  let ?cs = "compiled t regs"
  let ?bs = "buckets_of ?cs []"
  have dist: "distinct (map fst ?bs)" by (simp add: buckets_of_distinct)
  have part: "concat (map snd (filter (\<lambda>b. fst b = p) (sort_key fst ?bs))) = of_prio p ?cs" for p
  proof -
    have "concat (map snd (filter (\<lambda>b. fst b = p) ?bs)) = of_prio p ?cs"
      unfolding filter_key_map_of [OF dist] buckets_of_map of_prio_def
      by (force simp: filter_empty_conv)
    then show ?thesis by (simp add: sort_key_stable)
  qed
  have "\<forall>b\<in>set ?bs. fst b = -128 \<or> fst b = 0 \<or> fst b = 127"
  proof
    fix b assume "b \<in> set ?bs"
    then have "map_of ?bs (fst b) \<noteq> None" unfolding map_of_eq_None_iff by simp
    then have "fst b \<in> (\<lambda>(_, _, p). p) ` set ?cs" by (auto simp: buckets_of_map split: if_splits)
    then show "fst b = -128 \<or> fst b = 0 \<or> fst b = 127" using compiled_prio by force
  qed
  then have "sort_key fst ?bs = filter (\<lambda>b. fst b = -128) (sort_key fst ?bs) @
      filter (\<lambda>b. fst b = 0) (sort_key fst ?bs) @ filter (\<lambda>b. fst b = 127) (sort_key fst ?bs)"
    by (intro sorted_three) simp_all
  then have "table_cmds ?cs = concat (map snd (filter (\<lambda>b. fst b = -128) (sort_key fst ?bs))) @
      concat (map snd (filter (\<lambda>b. fst b = 0) (sort_key fst ?bs))) @
      concat (map snd (filter (\<lambda>b. fst b = 127) (sort_key fst ?bs)))"
    unfolding table_cmds_def by (metis concat_append map_append)
  then show ?thesis by (simp only: part)
qed

definition table_text :: "rules_snapshot \<Rightarrow> string \<Rightarrow> chain_regs \<Rightarrow> string" where
  "table_text cur t regs =
    (let cs = compiled (map_of cur t) regs;
         put = (\<lambda>p. concat (map (\<lambda>c. concat (command_chunks (cmd_option c) c)) (of_prio p cs))) in
     if cs = [] then []
     else ''*'' @ t @ [CHR 0x0A] @
       concat (map (\<lambda>(n, _). '':'' @ n @ '' - [0:0]'' @ [CHR 0x0A]) cs) @
       put (-128) @ put 0 @ put 127 @ ''COMMIT'' @ [CHR 0x0A])"

lemma transcript_tables: "transcript cur ipt = concat (map (\<lambda>(t, regs). table_text cur t regs) ipt)"
proof -
  have cmds: "concat (concat (map f ds)) = concat (map (\<lambda>c. concat (f c)) ds)"
    for f :: "mt_ipt_command \<Rightarrow> string list" and ds by (induction ds) auto
  have decls: "concat (decl_chunks cs) = concat (map (\<lambda>(n, _). '':'' @ n @ '' - [0:0]'' @ [CHR 0x0A]) cs)" for cs
    by (induction cs) (auto simp: decl_chunks_def chain_decl_def)
  have "concat (table_chunks t (compiled (map_of cur t) regs)) = table_text cur t regs" for t regs
    by (simp add: table_chunks_def table_text_def Let_def table_head_def table_cmds_order cmds decls
        del: append.simps)
  then show ?thesis by (induction ipt) (auto simp: transcript_def)
qed

text \<open>
  The transcript handed to the backend, whatever the backend is.  For every table with something
  to do, in the order of registration, it declares the chains that need commands and then lists all
  commands of override chains before all commands of patch chains before all commands of deleted
  chains, so that a chain is filled before a jump to it is added, and emptied and deleted after the
  jumps to it are removed; a table with nothing to do is not mentioned, and when the transcript is
  empty the backend is not called.  A transcript larger than 64 MiB is an error and nothing is
  written.
\<close>

theorem commit_transcript_order:
  assumes "exe_save exe x = Inr data" "parse_rules data = Inr cur"
  shows "mt_ipt_commit exe False False ipt x =
    (let text = concat (map (\<lambda>(t, regs). table_text cur t regs) ipt) in
     if length text > 67108864 then (MT_ERR_LIMIT, x)
     else if text = [] then (MT_OK, x) else exe_restore exe text x)"
  using assms commit_tables_transcript [of cur ipt] commit_tables_limit [of cur ipt]
  unfolding transcript_tables [symmetric] MT_BYTEBUF_MAX_DEFAULT_def
  by (cases "length (transcript cur ipt) > 67108864")
    (auto simp: mt_ipt_commit_def mt_ipt_get_current_rules_def Let_def)

theorem commit_transcript_order_witness:
  "mt_ipt_commit \<lparr>exe_save = (\<lambda>_. Inr (''*nat'' @ [CHR 0x0A])), exe_restore = (\<lambda>text log. (MT_OK, log @ [text]))\<rparr>
     False False [(''nat'', [(''OLD'', ChainDelete), (''MT'', ChainOverride [[''-j'', ''X'']])])] [] =
   (MT_OK, [''*nat'' @ [CHR 0x0A] @ '':MT - [0:0]'' @ [CHR 0x0A] @ ''-F MT'' @ [CHR 0x0A] @
      ''-A MT -j X'' @ [CHR 0x0A] @ ''COMMIT'' @ [CHR 0x0A]])"
proof -
  have "parse_rules (''*nat'' @ [CHR 0x0A]) = Inr [(''nat'', [])]" by code_simp
  moreover have "table_text [(''nat'', [])] ''nat'' [(''OLD'', ChainDelete), (''MT'', ChainOverride [[''-j'', ''X'']])] =
      ''*nat'' @ [CHR 0x0A] @ '':MT - [0:0]'' @ [CHR 0x0A] @ ''-F MT'' @ [CHR 0x0A] @
      ''-A MT -j X'' @ [CHR 0x0A] @ ''COMMIT'' @ [CHR 0x0A]" by code_simp
  ultimately show ?thesis
    using commit_transcript_order [where data = "''*nat'' @ [CHR 0x0A]" and cur = "[(''nat'', [])]" and x = "[]" and
        ipt = "[(''nat'', [(''OLD'', ChainDelete), (''MT'', ChainOverride [[''-j'', ''X'']])])]" and
        exe = "\<lparr>exe_save = (\<lambda>_. Inr (''*nat'' @ [CHR 0x0A])), exe_restore = (\<lambda>text log. (MT_OK, log @ [text]))\<rparr>"]
    by (simp add: Let_def)
qed

text \<open>
  A raised cancellation token stops a commit before it reads the tables, or before it writes:
  the error is \<open>MT_ERR_CANCELED\<close> and the system is as it was.  Only a commit that had nothing to write
  still succeeds; an error of the save, of the parser or of the buffer is returned as it is.
\<close>

theorem commit_canceled:
  "mt_ipt_commit exe True c2 ipt x = (MT_ERR_CANCELED, x) \<and>
   mt_ipt_commit exe False True ipt x =
     (case mt_ipt_get_current_rules exe x of
        Inl e \<Rightarrow> (e, x)
      | Inr cur \<Rightarrow>
        (let text = concat (map (\<lambda>(t, regs). table_text cur t regs) ipt) in
         if length text > 67108864 then (MT_ERR_LIMIT, x)
         else if text = [] then (MT_OK, x) else (MT_ERR_CANCELED, x)))"
proof (cases "mt_ipt_get_current_rules exe x")
  case (Inr cur)
  then show ?thesis using commit_tables_transcript [of cur ipt] commit_tables_limit [of cur ipt]
    unfolding transcript_tables [symmetric] MT_BYTEBUF_MAX_DEFAULT_def
    by (cases "length (transcript cur ipt) > 67108864") (auto simp: mt_ipt_commit_def Let_def)
qed (simp add: mt_ipt_commit_def)

end
