(* ===== verification/Ipt_Fake.thy ===== *)
theory Ipt_Fake
  imports Ipt_Engine "HOL-Library.List_Lexorder" "HOL-Library.Char_ord"
begin

text \<open>
  \<^verbatim>\<open>tests/unit/fake_iptables.c\<close>: the in-memory backend the repository runs the engine against, with
  \<^verbatim>\<open>iptables-save\<close> and \<^verbatim>\<open>iptables-restore --noflush\<close> as functions on text, and the proof that a commit of
  the engine against it reaches the goal of every staged chain and leaves every other chain alone.
\<close>

section \<open>The backend\<close>

type_synonym fake_ipt = rules_snapshot

fun rule_parts_chunks :: "mt_ipt_rule \<Rightarrow> string list" where
  "rule_parts_chunks [] = []"
| "rule_parts_chunks (p # ps) = '' '' # p # rule_parts_chunks ps"

definition save_rule_chunks :: "string \<Rightarrow> mt_ipt_rule \<Rightarrow> string list" where
  "save_rule_chunks cname r = [''-A '', cname] @ rule_parts_chunks r @ [[CHR 0x0A]]"

definition save_table_chunks :: "string \<times> chain_rules \<Rightarrow> string list" where
  "save_table_chunks t =
    (let chs = sort_key fst (snd t) in
     table_head (fst t) @ concat (map (\<lambda>(n, _). chain_decl n) chs) @
     concat (map (\<lambda>(n, rs). concat (map (save_rule_chunks n) rs)) chs) @
     [''COMMIT'' @ [CHR 0x0A]])"

definition fake_save :: "fake_ipt \<Rightarrow> mt_err + string" where
  "fake_save f =
    (case bb_appends mt_bytebuf_init (concat (map save_table_chunks (sort_key fst f))) of (err, buf) \<Rightarrow>
       if err \<noteq> MT_OK then Inl err else Inr (bb_data buf))"

definition rule_from_fields :: "string list \<Rightarrow> nat \<Rightarrow> mt_ipt_rule" where
  "rule_from_fields fs start = mt_ipt_rule_new (map (Some \<circ> cstr) (drop start fs))"

text \<open>The deletion of the first entry of that name, the array shifted down.\<close>

fun drop_entry :: "'k \<Rightarrow> ('k \<times> 'v) list \<Rightarrow> ('k \<times> 'v) list" where
  "drop_entry k [] = []"
| "drop_entry k ((k', v) # xs) = (if k' = k then xs else (k', v) # drop_entry k xs)"

definition fake_rule_op :: "string list \<Rightarrow> chain_rules \<Rightarrow> mt_err + chain_rules" where
  "fake_rule_op fs chs =
    (let op = fs ! 0 ! 1; cname = fs ! 1 in
     if op = CHR ''A'' then
       Inr (find_or_create cstr [] (\<lambda>rs. rs @ [rule_from_fields fs 2]) cname chs)
     else if op = CHR ''I'' then
       (if length fs < 3 then Inl MT_ERR_PROTO
        else case c_strtol (cstr (take 31 (fs ! 2))) of (pos, rest) \<Rightarrow>
          if rest = cstr (take 31 (fs ! 2)) \<or> rest \<noteq> [] \<or> pos < 1 then Inl MT_ERR_PROTO
          else Inr (find_or_create cstr []
            (\<lambda>rs. let idx = min (nat (pos - 1)) (length rs)
                  in take idx rs @ [rule_from_fields fs 3] @ drop idx rs) cname chs))
     else if op = CHR ''D'' then
       (case map_of chs cname of
          None \<Rightarrow> Inl MT_ERR_NOENT
        | Some rs \<Rightarrow>
          if list_ex (\<lambda>r. mt_ipt_rule_equal r (rule_from_fields fs 2)) rs
          then Inr (find_or_create cstr [] (\<lambda>rs. override_remove rs (rule_from_fields fs 2)) cname chs)
          else Inl MT_ERR_NOENT)
     else if op = CHR ''F'' then Inr (find_or_create cstr [] (\<lambda>_. []) cname chs)
     else if op = CHR ''X'' then
       (case map_of chs cname of
          None \<Rightarrow> Inr chs
        | Some rs \<Rightarrow> if length rs \<noteq> 0 then Inl MT_ERR_STATE else Inr (drop_entry cname chs))
     else Inl MT_ERR_PROTO)"

definition fake_line ::
  "string \<Rightarrow> fake_ipt \<times> nat option \<Rightarrow> mt_err + fake_ipt \<times> nat option" where
  "fake_line line st =
    (case st of (tables, cur) \<Rightarrow>
     (case line of
        [] \<Rightarrow> Inr st
      | c # body \<Rightarrow>
        if c = CHR ''*'' then
          Inr (find_or_create cstr [] id body tables, Some (index_of body tables))
        else if c = CHR '':'' then
          (let fs = split_fields body in
           if length fs = 0 then Inl MT_ERR_PROTO
           else case cur of None \<Rightarrow> Inl MT_ERR_PROTO
             | Some i \<Rightarrow> Inr (with_cur_table (find_or_create cstr [] id (fs ! 0)) tables i, cur))
        else if c = CHR ''-'' then
          (case cur of None \<Rightarrow> Inl MT_ERR_PROTO
           | Some i \<Rightarrow>
             let fs = split_fields line in
             if length fs < 2 \<or> length (fs ! 0) < 2 then Inl MT_ERR_PROTO
             else case fake_rule_op fs (snd (tables ! i)) of
               Inl e \<Rightarrow> Inl e
             | Inr chs \<Rightarrow> Inr (tables[i := (fst (tables ! i), chs)], cur))
        else if c = CHR ''#'' then Inr st
        else if c = CHR ''C'' then Inr (tables, None)
        else Inl MT_ERR_PROTO))"

text \<open>
  On an error the lines before it have been carried out; \<open>restore_lines\<close> returns the tables as they
  are then.
\<close>

fun restore_lines :: "string list \<Rightarrow> fake_ipt \<times> nat option \<Rightarrow> mt_err \<times> fake_ipt" where
  "restore_lines [] st = (MT_OK, fst st)"
| "restore_lines (l # ls) st =
    (case fake_line l st of Inl e \<Rightarrow> (e, fst st) | Inr st' \<Rightarrow> restore_lines ls st')"

definition fake_restore :: "string \<Rightarrow> fake_ipt \<Rightarrow> mt_err \<times> fake_ipt" where
  "fake_restore data f = restore_lines (split_lines data) (f, None)"

definition fake_executable :: "fake_ipt mt_ipt_executable" where
  "fake_executable = \<lparr>exe_save = fake_save, exe_restore = fake_restore\<rparr>"

section \<open>Lines and fs\<close>

lemma split_lines_loop_append:
  "CHR 0x0A \<notin> set l \<Longrightarrow> split_lines_loop (l @ CHR 0x0A # s) acc = (acc @ l) # split_lines_loop s []"
  by (induction l arbitrary: acc) auto

lemma split_lines_concat:
  "\<forall>l\<in>set ls. CHR 0x0A \<notin> set l \<Longrightarrow> split_lines (concat (map (\<lambda>l. l @ [CHR 0x0A]) ls)) = ls @ [[]]"
  by (induction ls) (auto simp: split_lines_def split_lines_loop_append)

lemma cstr_word [simp]: "is_word s \<Longrightarrow> cstr s = s"
  by (auto simp: cstr_def is_word_def list_all_iff word_char_def takeWhile_eq_all_conv)

lemma map_cstr_words [simp]: "list_all is_word r \<Longrightarrow> map cstr r = r"
  by (induction r) auto

lemma rule_new_cstr: "list_all is_word r \<Longrightarrow> mt_ipt_rule_new (map (Some \<circ> cstr) r) = r"
  by (induction r) (auto simp: mt_ipt_rule_new_def)

lemma concat_rule_chunks: "concat (rule_chunks r) = mt_ipt_rule_string r"
  by (induction r rule: rule_chunks.induct) auto

lemma concat_rule_parts: "concat (rule_parts_chunks r) = (if r = [] then [] else CHR '' '' # mt_ipt_rule_string r)"
proof (induction r)
  case (Cons p ps)
  then show ?case by (cases ps) auto
qed simp

lemma rule_string_Cons: "mt_ipt_rule_string (p # ps) = p @ (if ps = [] then [] else CHR '' '' # mt_ipt_rule_string ps)"
  by (cases ps) auto

text \<open>The line of a rule or a command is a rule string of words, and the tokenizer gives them back.\<close>

lemma rule_string_no_newline: "list_all is_word r \<Longrightarrow> CHR 0x0A \<notin> set (mt_ipt_rule_string r)"
  by (induction r rule: mt_ipt_rule_string.induct) (auto simp: is_word_def list_all_iff word_char_def)

definition decl_words :: "string \<Rightarrow> string list" where
  "decl_words n = [n, ''-'', ''[0:0]'']"

lemma decl_words_ok [simp]: "is_word n \<Longrightarrow> list_all is_word (decl_words n)"
  by (simp add: decl_words_def is_word_def word_char_def)

lemma takeWhile_word: "is_word n \<Longrightarrow> takeWhile (\<lambda>b. b \<noteq> CHR '' '') (n @ CHR '' '' # s) = n"
  by (subst takeWhile_append2) (auto simp: is_word_def list_all_iff word_char_def)

section \<open>Save and parse\<close>

text \<open>
  The lines of one table as the save prints them: an item \<open>(n, [])\<close> declares the chain \<open>n\<close>, an item
  \<open>(n, [r])\<close> is the rule \<open>r\<close> of the chain \<open>n\<close>.
\<close>

definition item_line :: "string \<times> mt_ipt_rule list \<Rightarrow> string" where
  "item_line i = (case snd i of [] \<Rightarrow> CHR '':'' # mt_ipt_rule_string (decl_words (fst i))
     | r # _ \<Rightarrow> mt_ipt_rule_string (''-A'' # fst i # r))"

definition item_ok :: "string \<times> mt_ipt_rule list \<Rightarrow> bool" where
  "item_ok i \<longleftrightarrow> is_word (fst i) \<and> rules_ok (snd i) \<and> length (snd i) \<le> 1"

definition table_items :: "chain_rules \<Rightarrow> (string \<times> mt_ipt_rule list) list" where
  "table_items chs = map (\<lambda>(n, _). (n, [])) chs @ concat (map (\<lambda>(n, rs). map (\<lambda>r. (n, [r])) rs) chs)"

definition save_table_lines :: "string \<times> chain_rules \<Rightarrow> string list" where
  "save_table_lines t =
    [CHR ''*'' # fst t] @ map item_line (table_items (sort_key fst (snd t))) @ [''COMMIT'']"

lemma item_line_no_newline: "item_ok i \<Longrightarrow> CHR 0x0A \<notin> set (item_line i)"
  using rule_string_no_newline [of "decl_words (fst i)"]
    rule_string_no_newline [of "''-A'' # fst i # hd (snd i)"]
  by (cases "snd i") (auto simp: item_line_def item_ok_def is_word_def word_char_def)

lemma save_rule_line:
  "concat (save_rule_chunks n r) = mt_ipt_rule_string (''-A'' # n # r) @ [CHR 0x0A]"
  by (simp add: save_rule_chunks_def concat_rule_parts rule_string_Cons)

lemma save_rules_lines:
  "concat (concat (map (save_rule_chunks n) rs)) =
    concat (map (\<lambda>i. item_line i @ [CHR 0x0A]) (map (\<lambda>r. (n, [r])) rs))"
  by (induction rs) (auto simp: save_rule_line item_line_def)

lemma save_table_text:
  "concat (save_table_chunks t) = concat (map (\<lambda>l. l @ [CHR 0x0A]) (save_table_lines t))"
proof -
  have decls: "concat (concat (map (\<lambda>(n, _). chain_decl n) chs)) =
      concat (map (\<lambda>i. item_line i @ [CHR 0x0A]) (map (\<lambda>(n, _). (n, [])) chs))" for chs :: chain_rules
    by (induction chs) (auto simp: item_line_def decl_words_def chain_decl_def)
  have rules: "concat (concat (map (\<lambda>(n, rs). concat (map (save_rule_chunks n) rs)) chs)) =
      concat (map (\<lambda>i. item_line i @ [CHR 0x0A]) (concat (map (\<lambda>(n, rs). map (\<lambda>r. (n, [r])) rs) chs)))"
    for chs :: chain_rules
    using save_rules_lines by (induction chs) auto
  show ?thesis
    unfolding save_table_chunks_def save_table_lines_def table_items_def Let_def
    by (simp add: decls rules comp_def table_head_def)
qed

lemma each_line_append:
  "each_line f (as @ bs) st = (case each_line f as st of Inl e \<Rightarrow> Inl e | Inr st' \<Rightarrow> each_line f bs st')"
  by (induction as arbitrary: st) (auto split: sum.splits)

lemma with_cur_table_length [simp]: "length (with_cur_table f ts i) = length ts"
  by (simp add: with_cur_table_def)

lemma with_cur_table_comp:
  "i < length ts \<Longrightarrow> with_cur_table g (with_cur_table f ts i) i = with_cur_table (g \<circ> f) ts i"
  by (simp add: with_cur_table_def)

lemma parse_line_dash: "parse_line (CHR ''-'' # l) st = parse_rule_line (CHR ''-'' # l) st"
  by (simp add: parse_line_def split: prod.splits)

lemma parse_item_line:
  assumes "item_ok i"
  shows "parse_line (item_line i) (ts, Some k) =
    Inr (with_cur_table (find_or_create cstr [] (\<lambda>b. b @ snd i) (fst i)) ts k, Some k)"
proof (cases "snd i")
  case Nil
  then show ?thesis using assms takeWhile_word [of "fst i"]
    by (auto simp: item_line_def parse_line_def decl_words_def item_ok_def is_word_def id_def)
next
  case (Cons r rs)
  with assms have r: "list_all is_word r" "is_word (fst i)" "rs = []" by (auto simp: item_ok_def)
  have "split_fields (item_line i) = ''-A'' # fst i # r"
    using split_rule_string [of "''-A'' # fst i # r"] r Cons
    by (simp add: item_line_def is_word_def word_char_def)
  moreover have "item_line i = CHR ''-'' # tl (item_line i)"
    using Cons by (simp add: item_line_def rule_string_Cons)
  then have "parse_line (item_line i) (ts, Some k) = parse_rule_line (item_line i) (ts, Some k)"
    by (metis parse_line_dash)
  ultimately show ?thesis using r Cons by (simp add: parse_rule_line_def rule_new_cstr)
qed

lemma parse_item_lines:
  "list_all item_ok its \<Longrightarrow> k < length ts \<Longrightarrow>
   each_line parse_line (map item_line its) (ts, Some k) =
     Inr (with_cur_table (collect cstr its) ts k, Some k)"
proof (induction its arbitrary: ts)
  case Nil
  then show ?case by (simp add: with_cur_table_def)
next
  case (Cons i its)
  then show ?case by (simp add: parse_item_line with_cur_table_comp comp_def)
qed

text \<open>What is on the system: the rules of the chain \<open>n\<close> of the table \<open>t\<close>, if there is one.\<close>

definition look :: "rules_snapshot \<Rightarrow> string \<Rightarrow> string \<Rightarrow> mt_ipt_rule list option" where
  "look f t n = cur_chain (map_of f t) n"

definition chains_ok :: "chain_rules \<Rightarrow> bool" where
  "chains_ok chs \<longleftrightarrow> distinct (map fst chs) \<and> list_all (\<lambda>(n, rs). is_word n \<and> rules_ok rs) chs"

definition system_ok :: "fake_ipt \<Rightarrow> bool" where
  "system_ok f \<longleftrightarrow> distinct (map fst f) \<and> list_all (\<lambda>(t, chs). is_word t \<and> chains_ok chs) f"

lemma table_items_ok: "chains_ok chs \<Longrightarrow> list_all item_ok (table_items chs)"
  by (auto simp: chains_ok_def table_items_def item_ok_def list_all_iff)

lemma filter_table_items:
  "distinct (map fst chs) \<Longrightarrow>
   concat (map snd (filter (\<lambda>i. fst i = n) (table_items chs))) = or_empty (map_of chs n)"
proof -
  assume dist: "distinct (map fst chs)"
  have a: "concat (map snd (filter (\<lambda>i. fst i = n) (map (\<lambda>(n, _). (n, [])) chs))) = ([] :: mt_ipt_rule list)"
    by (induction chs) auto
  have own: "filter (\<lambda>i. fst i = n) (map (\<lambda>r. (m, [r])) rs) = (if m = n then map (\<lambda>r. (m, [r])) rs else [])"
    for m and rs :: "mt_ipt_rule list" by (induction rs) auto
  have sing: "concat (map snd (map (\<lambda>r. (m, [r])) rs)) = rs" for m :: string and rs :: "mt_ipt_rule list"
    by (induction rs) auto
  have none: "concat (map snd (filter (\<lambda>i. fst i = n) (concat (map (\<lambda>(n, rs). map (\<lambda>r. (n, [r])) rs) chs)))) = []"
    if "n \<notin> fst ` set chs" for chs :: chain_rules
    using that by (induction chs) (auto simp: own)
  have "concat (map snd (filter (\<lambda>i. fst i = n) (concat (map (\<lambda>(n, rs). map (\<lambda>r. (n, [r])) rs) chs)))) =
      or_empty (map_of chs n)"
    using dist by (induction chs) (auto simp: own sing none simp del: map_map)
  with a show ?thesis by (simp add: table_items_def)
qed

lemma collect_table_items:
  assumes "chains_ok chs"
  shows "map_of (collect cstr (table_items chs) []) = map_of chs"
proof
  fix n
  have ok: "\<forall>i\<in>set (table_items chs). cstr (fst i) = fst i"
    using table_items_ok [OF assms] by (auto simp: list_all_iff item_ok_def)
  have "n \<in> fst ` set (table_items chs) \<longleftrightarrow> n \<in> fst ` set chs"
    by (force simp: table_items_def image_iff)
  then show "map_of (collect cstr (table_items chs) []) n = map_of chs n"
    using assms map_of_eq_None_iff [of chs n] unfolding collect_map [OF ok] chains_ok_def
    by (cases "map_of chs n") (auto simp: filter_table_items)
qed

lemma chains_ok_sort: "chains_ok chs \<Longrightarrow> chains_ok (sort_key fst chs)"
  by (auto simp: chains_ok_def list_all_iff distinct_map inj_on_def)

lemma map_of_sort: "distinct (map fst xs) \<Longrightarrow> map_of (sort_key fst xs) = map_of xs"
  for xs :: "('k::linorder \<times> 'v) list"
  by (rule map_of_inject_set [THEN iffD2]) (auto simp: distinct_map)

lemma find_or_create_new:
  "copy k = k \<Longrightarrow> k \<notin> fst ` set xs \<Longrightarrow> find_or_create copy d f k xs = xs @ [(k, f d)] \<and> index_of k xs = length xs"
  by (induction copy d f k xs rule: find_or_create.induct) auto

lemma parse_table_lines:
  assumes "is_word t" "chains_ok chs" "t \<notin> fst ` set ts"
  shows "each_line parse_line (save_table_lines (t, chs)) (ts, cur) =
    Inr (ts @ [(t, collect cstr (table_items (sort_key fst chs)) [])], None)"
proof -
  have "parse_line (CHR ''*'' # t) (ts, cur) = Inr (ts @ [(t, [])], Some (length ts))"
    using find_or_create_new [of cstr t ts "[]" id] assms by (simp add: parse_line_def)
  moreover have "each_line parse_line (map item_line (table_items (sort_key fst chs)))
      (ts @ [(t, [])], Some (length ts)) =
      Inr (ts @ [(t, collect cstr (table_items (sort_key fst chs)) [])], Some (length ts))"
    using parse_item_lines [OF table_items_ok [OF chains_ok_sort [OF assms(2)]], of "length ts" "ts @ [(t, [])]"]
    by (simp add: with_cur_table_def)
  moreover have "parse_line ''COMMIT'' (ts', c) = Inr (ts', None)" for ts' c
    by (simp add: parse_line_def)
  ultimately show ?thesis by (simp add: save_table_lines_def each_line_append)
qed

lemma parse_tables_lines:
  assumes "system_ok f" "fst ` set f \<inter> fst ` set ts = {}"
  shows "each_line parse_line (concat (map save_table_lines f)) (ts, None) =
    Inr (ts @ map (\<lambda>(t, chs). (t, collect cstr (table_items (sort_key fst chs)) [])) f, None)"
  using assms
proof (induction f arbitrary: ts)
  case (Cons t f)
  obtain n chs where t: "t = (n, chs)" by (cases t)
  have "each_line parse_line (save_table_lines (n, chs)) (ts, None) =
      Inr (ts @ [(n, collect cstr (table_items (sort_key fst chs)) [])], None)"
    by (rule parse_table_lines) (use Cons.prems t in \<open>auto simp: system_ok_def\<close>)
  moreover have "system_ok f" "fst ` set f \<inter> fst ` set (ts @ [(n, collect cstr (table_items (sort_key fst chs)) [])]) = {}"
    using Cons.prems t by (auto simp: system_ok_def)
  ultimately show ?case using Cons.IH t by (simp add: each_line_append)
qed simp

definition save_text :: "fake_ipt \<Rightarrow> string" where
  "save_text f = concat (map (\<lambda>l. l @ [CHR 0x0A]) (concat (map save_table_lines (sort_key fst f))))"

lemma save_text_chunks: "concat (concat (map save_table_chunks f)) =
    concat (map (\<lambda>l. l @ [CHR 0x0A]) (concat (map save_table_lines f)))"
  by (induction f) (simp_all add: save_table_text)

lemma fake_save_text:
  assumes "length (save_text f) \<le> MT_BYTEBUF_MAX_DEFAULT"
  shows "fake_save f = Inr (save_text f)"
proof -
  let ?cs = "concat (map save_table_chunks (sort_key fst f))"
  have "\<exists>b. bb_appends mt_bytebuf_init ?cs = (MT_OK, b) \<and> bb_data b = concat ?cs"
    using appends_spec [OF bb_wf_init, of 0 ?cs] assms
    unfolding mt_bytebuf_init_def save_text_def save_text_chunks
    by (auto simp: mt_bytebuf_init_bounded_def split: if_splits)
  then show ?thesis by (auto simp: fake_save_def save_text_def save_text_chunks)
qed

lemma system_ok_sort: "system_ok f \<Longrightarrow> system_ok (sort_key fst f)"
  by (auto simp: system_ok_def list_all_iff distinct_map inj_on_def)

lemma save_lines_no_newline:
  assumes "system_ok f" "l \<in> set (concat (map save_table_lines f))"
  shows "CHR 0x0A \<notin> set l"
proof -
  obtain t chs where t: "(t, chs) \<in> set f" "l \<in> set (save_table_lines (t, chs))" using assms(2) by auto
  then have ok: "is_word t" "chains_ok (sort_key fst chs)"
    using assms(1) chains_ok_sort by (auto simp: system_ok_def list_all_iff)
  have "list_all item_ok (table_items (sort_key fst chs))" using table_items_ok ok(2) by blast
  then show ?thesis using t(2) ok(1) item_line_no_newline
    by (auto simp: save_table_lines_def list_all_iff is_word_def word_char_def)
qed

lemma map_of_map_snd: "map_of (map (\<lambda>(k, v). (k, f v)) xs) k = map_option f (map_of xs k)"
  by (induction xs) auto

lemma parse_save_text:
  assumes "system_ok f"
  shows "parse_rules (save_text f) =
    Inr (map (\<lambda>(t, chs). (t, collect cstr (table_items (sort_key fst chs)) [])) (sort_key fst f))"
proof -
  let ?f = "sort_key fst f"
  have ok: "system_ok ?f" using assms by (rule system_ok_sort)
  have "split_lines (save_text f) = concat (map save_table_lines ?f) @ [[]]"
    unfolding save_text_def by (rule split_lines_concat) (use save_lines_no_newline [OF ok] in blast)
  then show ?thesis
    using parse_tables_lines [OF ok, of "[]"] by (simp add: parse_rules_def each_line_append parse_line_def)
qed

lemma parse_save_distinct:
  assumes "system_ok f" "parse_rules (save_text f) = Inr cur"
  shows "distinct (map fst cur)" "\<forall>(t, chs)\<in>set cur. distinct (map fst chs)"
proof -
  let ?f = "sort_key fst f" and ?g = "\<lambda>chs. collect cstr (table_items (sort_key fst chs)) []"
  have ok: "system_ok ?f" using assms(1) by (rule system_ok_sort)
  have cur: "cur = map (\<lambda>(t, chs). (t, ?g chs)) ?f" using parse_save_text [OF assms(1)] assms(2) by simp
  show "distinct (map fst cur)" using ok unfolding cur by (simp add: system_ok_def comp_def split_def)
  have "distinct (map fst (?g chs))" if "chains_ok chs" for chs
    by (rule collect_distinct) (use table_items_ok [OF chains_ok_sort [OF that]] in \<open>auto simp: list_all_iff item_ok_def\<close>)
  then show "\<forall>(t, chs)\<in>set cur. distinct (map fst chs)"
    using ok unfolding cur by (auto simp: system_ok_def list_all_iff)
qed

lemma parse_save:
  assumes "system_ok f"
  shows "\<exists>cur. parse_rules (save_text f) = Inr cur \<and> (\<forall>t n. look cur t n = look f t n)"
proof -
  let ?f = "sort_key fst f" and ?g = "\<lambda>chs. collect cstr (table_items (sort_key fst chs)) []"
  note p = parse_save_text [OF assms]
  have "look (map (\<lambda>(t, chs). (t, ?g chs)) ?f) t n = look f t n" for t n
  proof (cases "map_of f t")
    case None
    then show ?thesis using assms
      by (simp add: look_def map_of_map_snd map_of_sort system_ok_def)
  next
    case (Some chs)
    then have c: "chains_ok chs" using assms map_of_SomeD [OF Some] by (auto simp: system_ok_def list_all_iff)
    have "map_of (?g chs) n = map_of chs n"
      unfolding collect_table_items [OF chains_ok_sort [OF c]] using c
      by (simp add: chains_ok_def map_of_sort)
    with Some assms show ?thesis
      by (simp add: look_def map_of_map_snd map_of_sort system_ok_def cur_chain_def)
  qed
  with p show ?thesis by blast
qed

section \<open>Carrying out a transcript\<close>

fun cmd_words :: "mt_ipt_option \<Rightarrow> mt_ipt_command \<Rightarrow> string list" where
  "cmd_words MT_IPT_OP_APPEND c = ''-A'' # cmd_chain c # or_empty (cmd_rule c)"
| "cmd_words MT_IPT_OP_DELETE c = ''-D'' # cmd_chain c # or_empty (cmd_rule c)"
| "cmd_words MT_IPT_OP_INSERT c = ''-I'' # cmd_chain c # c_dec_int (cmd_rule_num c) # or_empty (cmd_rule c)"
| "cmd_words MT_IPT_OP_FLUSH c = [''-F'', cmd_chain c]"
| "cmd_words MT_IPT_OP_DELETE_CHAIN c = [''-X'', cmd_chain c]"

abbreviation cmd_line :: "mt_ipt_command \<Rightarrow> string" where
  "cmd_line c \<equiv> mt_ipt_rule_string (cmd_words (cmd_option c) c)"

definition cmd_ok :: "mt_ipt_command \<Rightarrow> bool" where
  "cmd_ok c \<longleftrightarrow> is_word (cmd_chain c) \<and> list_all is_word (or_empty (cmd_rule c)) \<and>
     (cmd_option c = MT_IPT_OP_INSERT \<longrightarrow> cmd_rule_num c = 1)"

lemma concat_opt_rule_chunks:
  "concat (opt_rule_chunks ro) = (if or_empty ro = [] then [] else CHR '' '' # mt_ipt_rule_string (or_empty ro))"
  by (auto simp: opt_rule_chunks_def concat_rule_chunks split: option.splits)

lemma command_text: "concat (command_chunks (cmd_option c) c) = cmd_line c @ [CHR 0x0A]"
  by (cases "cmd_option c") (simp_all add: concat_opt_rule_chunks rule_string_Cons)

lemma cmd_words_ok: "cmd_ok c \<Longrightarrow> list_all is_word (cmd_words (cmd_option c) c)"
  by (cases "cmd_option c") (auto simp: cmd_ok_def is_word_def word_char_def c_dec_one)

lemma cmd_line_dash: "\<exists>l. cmd_line c = CHR ''-'' # l"
  by (cases "cmd_option c") (simp_all add: rule_string_Cons)

text \<open>What one command does to the chain it names.\<close>

definition fake_exec :: "mt_ipt_command \<Rightarrow> mt_ipt_rule list option \<Rightarrow> mt_err + mt_ipt_rule list option" where
  "fake_exec c st =
    (let r = or_empty (cmd_rule c) in
     case cmd_option c of
       MT_IPT_OP_APPEND \<Rightarrow> Inr (Some (or_empty st @ [r]))
     | MT_IPT_OP_INSERT \<Rightarrow> Inr (Some (r # or_empty st))
     | MT_IPT_OP_DELETE \<Rightarrow>
         (case st of None \<Rightarrow> Inl MT_ERR_NOENT
          | Some rs \<Rightarrow> if r \<in> set rs then Inr (Some (remove1 r rs)) else Inl MT_ERR_NOENT)
     | MT_IPT_OP_FLUSH \<Rightarrow> Inr (Some [])
     | MT_IPT_OP_DELETE_CHAIN \<Rightarrow>
         (case st of None \<Rightarrow> Inr None | Some rs \<Rightarrow> if rs = [] then Inr None else Inl MT_ERR_STATE))"

interpretation fk: restore_backend fake_exec
  by unfold_locales (auto simp: fake_exec_def)

lemma map_of_drop_entry: "distinct (map fst xs) \<Longrightarrow> map_of (drop_entry k xs) = (map_of xs)(k := None)"
proof (induction k xs rule: drop_entry.induct)
  case (2 k k' v xs)
  moreover have "map_of xs k = None" if "k \<notin> fst ` set xs" using that by (simp add: map_of_eq_None_iff)
  ultimately show ?case by (auto simp: fun_eq_iff)
qed auto

lemma drop_entry_subset: "set (drop_entry k xs) \<subseteq> set xs"
  by (induction k xs rule: drop_entry.induct) auto

lemma drop_entry_distinct: "distinct (map fst xs) \<Longrightarrow> distinct (map fst (drop_entry k xs))"
  using drop_entry_subset by (induction k xs rule: drop_entry.induct) fastforce+

lemma fake_rule_op_exec:
  assumes c: "cmd_ok c" and dist: "distinct (map fst chs)"
    and exec: "fake_exec c (map_of chs (cmd_chain c)) = Inr st"
  shows "\<exists>chs'. fake_rule_op (cmd_words (cmd_option c) c) chs = Inr chs' \<and> distinct (map fst chs') \<and>
    map_of chs' = (map_of chs)(cmd_chain c := st)"
proof -
  have w: "cstr (cmd_chain c) = cmd_chain c" "rule_from_fields (a # b # or_empty (cmd_rule c)) 2 = or_empty (cmd_rule c)"
    "rule_from_fields (a # b # d # or_empty (cmd_rule c)) 3 = or_empty (cmd_rule c)" for a b d
    using c by (simp_all add: cmd_ok_def rule_from_fields_def rule_new_cstr)
  note upd = find_or_create_map [of cstr, OF w(1)] find_or_create_distinct [of cstr, OF w(1) dist]
  show ?thesis
  proof (cases "cmd_option c")
    case MT_IPT_OP_APPEND
    then show ?thesis using exec by (auto simp: fake_rule_op_def fake_exec_def w upd)
  next
    case MT_IPT_OP_DELETE
    then obtain rs where rs: "map_of chs (cmd_chain c) = Some rs" "or_empty (cmd_rule c) \<in> set rs"
      "st = Some (remove1 (or_empty (cmd_rule c)) rs)"
      using exec by (auto simp: fake_exec_def Let_def split: option.splits if_splits)
    then show ?thesis unfolding MT_IPT_OP_DELETE cmd_words.simps
      by (simp add: fake_rule_op_def Let_def w upd list_ex_iff)
  next
    case MT_IPT_OP_INSERT
    then have "cmd_rule_num c = 1" using c by (simp add: cmd_ok_def)
    then show ?thesis using MT_IPT_OP_INSERT exec
      by (auto simp: fake_rule_op_def fake_exec_def w upd c_dec_one strtol_one cstr_def)
  next
    case MT_IPT_OP_FLUSH
    then show ?thesis using exec by (auto simp: fake_rule_op_def fake_exec_def w upd)
  next
    case MT_IPT_OP_DELETE_CHAIN
    then show ?thesis using exec dist
      by (auto simp: fake_rule_op_def fake_exec_def map_of_drop_entry drop_entry_distinct fun_upd_idem
          split: option.splits if_splits)
  qed
qed

fun table_ops :: "mt_ipt_command list \<Rightarrow> chain_rules \<Rightarrow> mt_err + chain_rules" where
  "table_ops [] chs = Inr chs"
| "table_ops (c # cs) chs =
    (case fake_rule_op (cmd_words (cmd_option c) c) chs of Inl e \<Rightarrow> Inl e | Inr chs' \<Rightarrow> table_ops cs chs')"

text \<open>Commands on different chains do not disturb each other.\<close>

lemma table_ops_by_chain:
  assumes "list_all cmd_ok cs" "distinct (map fst chs)"
    and "\<forall>n. run_cmds fake_exec (filter (\<lambda>c. cmd_chain c = n) cs) (map_of chs n) = Inr (g n)"
  shows "\<exists>chs'. table_ops cs chs = Inr chs' \<and> distinct (map fst chs') \<and> map_of chs' = g"
  using assms
proof (induction cs arbitrary: chs)
  case Nil
  then show ?case by (auto simp: fun_eq_iff)
next
  case (Cons c cs)
  let ?m = "cmd_chain c"
  obtain st where st: "fake_exec c (map_of chs ?m) = Inr st"
    "run_cmds fake_exec (filter (\<lambda>d. cmd_chain d = ?m) cs) st = Inr (g ?m)"
    using Cons.prems(3) [rule_format, of ?m] by (auto split: sum.splits)
  obtain chs1 where chs1: "fake_rule_op (cmd_words (cmd_option c) c) chs = Inr chs1"
    "distinct (map fst chs1)" "map_of chs1 = (map_of chs)(?m := st)"
    using fake_rule_op_exec [OF _ Cons.prems(2) st(1)] Cons.prems(1) by auto
  have "run_cmds fake_exec (filter (\<lambda>d. cmd_chain d = n) cs) (map_of chs1 n) = Inr (g n)" for n
    using st(2) Cons.prems(3) [rule_format, of n] chs1(3) by (cases "n = ?m") auto
  with Cons.IH [of chs1] Cons.prems(1) chs1 show ?case by auto
qed

lemma fake_line_cmd:
  assumes "cmd_ok c" "i < length ts"
  shows "fake_line (cmd_line c) (ts, Some i) =
    (case fake_rule_op (cmd_words (cmd_option c) c) (snd (ts ! i)) of Inl e \<Rightarrow> Inl e
     | Inr chs \<Rightarrow> Inr (ts[i := (fst (ts ! i), chs)], Some i))"
proof -
  obtain l where l: "cmd_line c = CHR ''-'' # l" using cmd_line_dash by blast
  have split: "split_fields (CHR ''-'' # l) = cmd_words (cmd_option c) c"
    using split_rule_string [OF cmd_words_ok [OF assms(1)]] l by simp
  have "2 \<le> length (cmd_words (cmd_option c) c)" "2 \<le> length (cmd_words (cmd_option c) c ! 0)"
    by (cases "cmd_option c"; simp)+
  then show ?thesis unfolding l by (simp add: fake_line_def Let_def split)
qed

lemma fake_cmd_lines:
  assumes "list_all cmd_ok cs" "i < length ts" "table_ops cs (snd (ts ! i)) = Inr chs"
  shows "each_line fake_line (map cmd_line cs) (ts, Some i) = Inr (ts[i := (fst (ts ! i), chs)], Some i)"
  using assms
proof (induction cs arbitrary: ts)
  case (Cons c cs)
  obtain chs1 where chs1: "fake_rule_op (cmd_words (cmd_option c) c) (snd (ts ! i)) = Inr chs1"
    "table_ops cs chs1 = Inr chs" using Cons.prems(3) by (auto split: sum.splits)
  have "fake_line (cmd_line c) (ts, Some i) = Inr (ts[i := (fst (ts ! i), chs1)], Some i)"
    using fake_line_cmd [of c i ts] Cons.prems(1,2) chs1(1) by simp
  with Cons.IH [of "ts[i := (fst (ts ! i), chs1)]"] Cons.prems(1,2) chs1(2) show ?case by simp
next
  case Nil
  then have "(fst (ts ! i), chs) = ts ! i" by (simp add: prod_eq_iff)
  then show ?case by simp
qed

lemma fake_decl_lines:
  assumes "list_all is_word ns" "i < length ts"
  shows "each_line fake_line (map (\<lambda>n. CHR '':'' # mt_ipt_rule_string (decl_words n)) ns) (ts, Some i) =
    Inr (with_cur_table (collect cstr (map (\<lambda>n. (n, [])) ns)) ts i, Some i)"
  using assms
proof (induction ns arbitrary: ts)
  case Nil
  then show ?case by (simp add: with_cur_table_def)
next
  case (Cons n ns)
  have "fake_line (CHR '':'' # mt_ipt_rule_string (decl_words n)) (ts, Some i) =
      Inr (with_cur_table (find_or_create cstr [] id n) ts i, Some i)"
    using split_rule_string [of "decl_words n"] Cons.prems
    by (simp add: fake_line_def decl_words_def is_word_def word_char_def)
  with Cons show ?case by (simp add: with_cur_table_comp comp_def id_def)
qed

section \<open>A commit against the backend\<close>

definition table_block :: "string \<Rightarrow> (string \<times> mt_ipt_command list \<times> int) list \<Rightarrow> string list" where
  "table_block t cs =
    (if cs = [] then []
     else [CHR ''*'' # t] @ map (\<lambda>n. CHR '':'' # mt_ipt_rule_string (decl_words n)) (map fst cs) @
       map cmd_line (table_cmds cs) @ [''COMMIT''])"

lemma table_block_text: "concat (table_chunks t cs) = concat (map (\<lambda>l. l @ [CHR 0x0A]) (table_block t cs))"
proof -
  have decls: "concat (decl_chunks cs) =
      concat (map (\<lambda>n. (CHR '':'' # mt_ipt_rule_string (decl_words n)) @ [CHR 0x0A]) (map fst cs))"
    by (induction cs) (auto simp: decl_chunks_def chain_decl_def decl_words_def)
  have cmds: "concat (concat (map (\<lambda>c. command_chunks (cmd_option c) c) ds)) =
      concat (map (\<lambda>c. cmd_line c @ [CHR 0x0A]) ds)" for ds
    by (induction ds) (auto simp: command_text)
  show ?thesis by (simp add: table_chunks_def table_block_def table_head_def decls cmds comp_def)
qed

definition transcript_lines :: "rules_snapshot \<Rightarrow> mt_ipt \<Rightarrow> string list" where
  "transcript_lines cur ipt = concat (map (\<lambda>(t, regs). table_block t (compiled (map_of cur t) regs)) ipt)"

lemma transcript_text: "transcript cur ipt = concat (map (\<lambda>l. l @ [CHR 0x0A]) (transcript_lines cur ipt))"
  by (induction ipt) (auto simp: transcript_def transcript_lines_def table_block_text)

text \<open>What may be staged: distinct names that are words, and chains the compilation is right for.\<close>

definition regs_ok :: "chain_regs \<Rightarrow> bool" where
  "regs_ok regs \<longleftrightarrow> distinct (map fst regs) \<and> list_all (\<lambda>(n, c). is_word n \<and> chain_ok c) regs"

definition ipt_ok :: "mt_ipt \<Rightarrow> bool" where
  "ipt_ok ipt \<longleftrightarrow> distinct (map fst ipt) \<and> list_all (\<lambda>(t, regs). is_word t \<and> regs_ok regs) ipt"

lemma compile_cmds_ok:
  assumes "is_word n" "chain_ok c" "cmd \<in> set (fst (chain_compile c n ex))"
  shows "cmd_ok cmd \<and> cmd_chain cmd = n"
proof (cases c)
  case (ChainPatch es)
  then obtain e where e: "e \<in> set es" "cmd \<in> set (patch_entry_cmds (existing_counts (or_empty ex)) n e)"
    using assms(3) by (auto simp: patch_compile_def Let_def)
  have "patch_entry_ok e" using e(1) assms(2) ChainPatch by (simp add: list_all_iff)
  with e(2) assms(1) show ?thesis
    by (auto simp: patch_entry_cmds_def Let_def patch_entry_ok_def patch_cmd_def cmd_ok_def
        split: if_splits)
next
  case (ChainOverride rs)
  then show ?thesis using assms
    by (auto simp: override_compile_def cmd_ok_def list_all_iff split: if_splits)
next
  case ChainDelete
  then show ?thesis using assms by (auto simp: delete_compile_def cmd_ok_def split: option.splits)
qed

lemma compiled_cmds_ok:
  assumes "regs_ok regs" "(n, cmds, p) \<in> set (compiled t regs)"
  shows "is_word n \<and> list_all cmd_ok cmds \<and> list_all (\<lambda>c. cmd_chain c = n) cmds"
proof -
  obtain c where c: "(n, c) \<in> set regs" "(cmds, p) = chain_compile c n (cur_chain t n)"
    using assms(2) by (auto simp: compiled_def)
  then have "is_word n" "chain_ok c" using assms(1) by (auto simp: regs_ok_def list_all_iff)
  moreover have "cmds = fst (chain_compile c n (cur_chain t n))" using c(2) by (metis fst_conv)
  ultimately show ?thesis using compile_cmds_ok [of n c] by (auto simp: list_all_iff)
qed

lemma compiled_keys: "set (map fst (compiled t regs)) \<subseteq> set (map fst regs)"
  by (auto simp: compiled_def intro: rev_image_eqI)

lemma compiled_distinct: "distinct (map fst regs) \<Longrightarrow> distinct (map fst (compiled t regs))"
  unfolding compiled_def by (rule distinct_map_filter) (simp add: comp_def case_prod_unfold)

lemma compiled_map_of:
  "distinct (map fst regs) \<Longrightarrow> map_of (compiled t regs) n =
    (case map_of regs n of None \<Rightarrow> None
     | Some c \<Rightarrow> if fst (chain_compile c n (cur_chain t n)) = [] then None
                 else Some (chain_compile c n (cur_chain t n)))"
proof (induction regs)
  case (Cons r regs)
  have "n \<notin> fst ` set regs \<Longrightarrow> n \<notin> fst ` set (compiled t regs)"
    using compiled_keys [of t regs] by auto
  then have "n \<notin> fst ` set regs \<Longrightarrow> map_of (compiled t regs) n = None" by (simp add: map_of_eq_None_iff)
  with Cons show ?case by (cases r) (auto split: prod.splits)
qed simp

lemma filter_of_prio:
  assumes "distinct (map fst cs)" "\<forall>(n, cmds, p)\<in>set cs. list_all (\<lambda>c. cmd_chain c = n) cmds"
  shows "filter (\<lambda>c. cmd_chain c = n) (of_prio p cs) =
    (case map_of cs n of None \<Rightarrow> [] | Some (cmds, q) \<Rightarrow> if q = p then cmds else [])"
  using assms
proof (induction cs)
  case (Cons e cs)
  obtain m cmds q where e: "e = (m, cmds, q)" by (cases e)
  have "filter (\<lambda>c. cmd_chain c = n) cmds = (if m = n then cmds else [])"
    using Cons.prems(2) by (auto simp: e list_all_iff filter_empty_conv filter_id_conv)
  moreover have "m \<notin> fst ` set cs \<Longrightarrow> map_of cs m = None" by (simp add: map_of_eq_None_iff)
  ultimately show ?case using Cons by (auto simp: e of_prio_def)
qed (simp add: of_prio_def)

lemma filter_table_cmds:
  assumes "regs_ok regs"
  shows "filter (\<lambda>c. cmd_chain c = n) (table_cmds (compiled t regs)) =
    (case map_of (compiled t regs) n of None \<Rightarrow> [] | Some (cmds, _) \<Rightarrow> cmds)"
proof -
  have "distinct (map fst (compiled t regs))" using assms by (simp add: regs_ok_def compiled_distinct)
  moreover have "\<forall>(n, cmds, p)\<in>set (compiled t regs). list_all (\<lambda>c. cmd_chain c = n) cmds"
    using compiled_cmds_ok [OF assms] by blast
  ultimately have "filter (\<lambda>c. cmd_chain c = n) (of_prio p (compiled t regs)) =
      (case map_of (compiled t regs) n of None \<Rightarrow> [] | Some (cmds, q) \<Rightarrow> if q = p then cmds else [])" for p
    by (rule filter_of_prio)
  moreover have "q = -128 \<or> q = 0 \<or> q = 127" if "map_of (compiled t regs) n = Some (cmds, q)" for cmds q
    using compiled_prio [OF map_of_SomeD [OF that]] .
  ultimately show ?thesis by (auto simp: table_cmds_order split: option.splits)
qed

lemma of_prio_cmds_ok:
  "regs_ok regs \<Longrightarrow> list_all cmd_ok (table_cmds (compiled t regs))"
  using compiled_cmds_ok by (fastforce simp: table_cmds_order of_prio_def list_all_iff)

lemma find_or_create_update:
  "copy k = k \<Longrightarrow> (find_or_create copy d f k xs)[index_of k xs := (k, v)] = find_or_create copy d (\<lambda>_. v) k xs"
  by (induction copy d f k xs rule: find_or_create.induct) auto

lemma chains_ok_map_of:
  "chains_ok chs \<longleftrightarrow> distinct (map fst chs) \<and> (\<forall>n rs. map_of chs n = Some rs \<longrightarrow> is_word n \<and> rules_ok rs)"
proof -
  have "list_all (\<lambda>(n, rs). is_word n \<and> rules_ok rs) chs \<longleftrightarrow>
      (\<forall>n rs. map_of chs n = Some rs \<longrightarrow> is_word n \<and> rules_ok rs)" if "distinct (map fst chs)"
    using that unfolding list_all_iff [of _ chs] by (simp add: Ball_def)
  then show ?thesis unfolding chains_ok_def by blast
qed

lemma system_ok_map_of:
  "system_ok f \<longleftrightarrow> distinct (map fst f) \<and> (\<forall>t chs. map_of f t = Some chs \<longrightarrow> is_word t \<and> chains_ok chs)"
  by (auto simp: system_ok_def list_all_iff dest: map_of_SomeD)

lemma goal_rules_ok:
  assumes "chain_ok k" "rules_ok (or_empty ex)" "chain_goal k ex after"
  shows "rules_ok (or_empty after)"
proof (cases k)
  case (ChainPatch es)
  have "list_all is_word r" if r: "r \<in> set (or_empty after)" for r
  proof (cases "r \<in> pe_rule ` set es")
    case True
    then show ?thesis using assms(1) ChainPatch by (auto simp: list_all_iff patch_entry_ok_def)
  next
    case False
    then have "r \<in> set (filter (\<lambda>r. r \<notin> pe_rule ` set es) (or_empty after))" using r by simp
    moreover have "filter (\<lambda>r. r \<notin> pe_rule ` set es) (or_empty after) =
        filter (\<lambda>r. r \<notin> pe_rule ` set es) (or_empty ex)"
      using assms(3) ChainPatch by (simp add: patch_goal_def)
    ultimately have "r \<in> set (filter (\<lambda>r. r \<notin> pe_rule ` set es) (or_empty ex))" by (simp only:)
    then show ?thesis using assms(2) by (auto simp: list_all_iff)
  qed
  then show ?thesis by (simp add: list_all_iff)
qed (use assms in auto)

text \<open>
  One table.  \<open>after\<close> gives what the chains of the table are to be: for a chain that needs commands
  what running them gives, for any other chain what it was.
\<close>

definition chain_after ::
  "chain_rules option \<Rightarrow> chain_regs \<Rightarrow> string \<Rightarrow> mt_ipt_rule list option" where
  "chain_after T regs n =
    (case map_of (compiled T regs) n of
       None \<Rightarrow> cur_chain T n
     | Some (cmds, _) \<Rightarrow>
       (case run_cmds fake_exec cmds (Some (or_empty (cur_chain T n))) of
          Inr after \<Rightarrow> after | Inl _ \<Rightarrow> None))"

lemma chain_after_goal:
  assumes "regs_ok regs" "rules_ok (or_empty (cur_chain T n))" "length (or_empty (cur_chain T n)) < 2 ^ 32"
  shows "(case map_of (compiled T regs) n of None \<Rightarrow> True
      | Some (cmds, _) \<Rightarrow>
        run_cmds fake_exec cmds (Some (or_empty (cur_chain T n))) = Inr (chain_after T regs n)) \<and>
    (case map_of regs n of None \<Rightarrow> chain_after T regs n = cur_chain T n
     | Some k \<Rightarrow> chain_goal k (cur_chain T n) (chain_after T regs n))"
proof (cases "map_of regs n")
  case None
  with assms(1) show ?thesis by (simp add: chain_after_def regs_ok_def compiled_map_of)
next
  case (Some k)
  have k: "chain_ok k" using assms(1) map_of_SomeD [OF Some] by (auto simp: regs_ok_def list_all_iff)
  have m: "map_of (compiled T regs) n = (if fst (chain_compile k n (cur_chain T n)) = [] then None
      else Some (chain_compile k n (cur_chain T n)))"
    using assms(1) Some by (simp add: regs_ok_def compiled_map_of)
  show ?thesis
  proof (cases "fst (chain_compile k n (cur_chain T n)) = []")
    case True
    then have "chain_goal k (cur_chain T n) (cur_chain T n)"
      using compile_nothing [OF k assms(2,3), of n] by simp
    with m True Some show ?thesis by (simp add: chain_after_def)
  next
    case False
    with fk.compile_correct [OF k assms(2,3) this] m Some show ?thesis
      by (auto simp: chain_after_def split: prod.splits)
  qed
qed

lemma restore_table_block:
  assumes regs: "is_word t" "regs_ok regs" and ts: "system_ok ts"
    and len: "\<forall>n. length (or_empty (look ts t n)) < 2 ^ 32"
    and T: "\<forall>n. cur_chain T n = look ts t n" and cs: "compiled T regs \<noteq> []"
  shows "\<exists>ts'. each_line fake_line (table_block t (compiled T regs)) (ts, None) = Inr (ts', None) \<and>
    system_ok ts' \<and> (\<forall>n. look ts' t n = chain_after T regs n) \<and>
    (\<forall>u n. u \<noteq> t \<longrightarrow> look ts' u n = look ts u n)"
proof -
  define chs where "chs = or_empty (map_of ts t)"
  define ns where "ns = map fst (compiled T regs)"
  let ?i = "index_of t ts" and ?ts1 = "find_or_create cstr [] id t ts"
  have chs: "chains_ok chs" using ts by (auto simp: chs_def system_ok_map_of chains_ok_def split: option.splits)
  have old: "map_of chs n = cur_chain T n" for n
    using T by (auto simp: chs_def look_def cur_chain_def split: option.splits)
  have rok: "rules_ok (or_empty (cur_chain T n))" for n
    using chs unfolding old [of n, symmetric] chains_ok_map_of by (simp split: option.split)
  have ns: "list_all is_word ns" using compiled_cmds_ok [OF regs(2)] by (force simp: ns_def list_all_iff)
  have i: "?i < length ?ts1" "?ts1 ! ?i = (t, chs)"
    using index_of_find_or_create [of cstr t ts "[]" id] regs(1) by (auto simp: chs_def)
  have words: "\<forall>i\<in>set (map (\<lambda>n. (n, [] :: mt_ipt_rule list)) ns). cstr (fst i) = fst i"
    using ns by (auto simp: list_all_iff)
  define chs2 where "chs2 = collect cstr (map (\<lambda>n. (n, [])) ns) chs"
  have decl: "map_of chs2 n = (if n \<in> set ns then Some (or_empty (cur_chain T n)) else cur_chain T n)" for n
    using map_of_eq_None_iff [of chs n] old [of n] unfolding chs2_def collect_map [OF words]
    by (cases "map_of chs n") (auto simp: comp_def image_iff)
  have "run_cmds fake_exec (filter (\<lambda>c. cmd_chain c = n) (table_cmds (compiled T regs))) (map_of chs2 n) =
      Inr (chain_after T regs n)" for n
  proof (cases "map_of (compiled T regs) n")
    case None
    then have "n \<notin> set ns" by (auto simp: ns_def map_of_eq_None_iff)
    with None show ?thesis by (simp add: filter_table_cmds [OF regs(2)] decl chain_after_def)
  next
    case (Some c)
    then have "n \<in> set ns" by (auto simp: ns_def dest: map_of_SomeD intro: rev_image_eqI)
    with Some chain_after_goal [OF regs(2) rok, of n] len T show ?thesis
      by (auto simp: filter_table_cmds [OF regs(2)] decl)
  qed
  moreover have "distinct (map fst chs2)"
    unfolding chs2_def by (rule collect_distinct [OF words]) (use chs in \<open>simp add: chains_ok_def\<close>)
  ultimately obtain chs3 where chs3: "table_ops (table_cmds (compiled T regs)) chs2 = Inr chs3"
    "distinct (map fst chs3)" "map_of chs3 = chain_after T regs"
    using table_ops_by_chain [OF of_prio_cmds_ok [OF regs(2)]] by blast
  define ts' where "ts' = ?ts1[?i := (t, chs3)]"
  have head: "fake_line (CHR ''*'' # t) (ts, None) = Inr (?ts1, Some ?i)" by (simp add: fake_line_def)
  have "each_line fake_line (map (\<lambda>n. CHR '':'' # mt_ipt_rule_string (decl_words n)) ns) (?ts1, Some ?i) =
      Inr (?ts1[?i := (t, chs2)], Some ?i)"
    using fake_decl_lines [OF ns i(1)] i(2) by (simp add: with_cur_table_def chs2_def)
  moreover have "each_line fake_line (map cmd_line (table_cmds (compiled T regs))) (?ts1[?i := (t, chs2)], Some ?i) =
      Inr (ts', Some ?i)"
    using fake_cmd_lines [OF of_prio_cmds_ok [OF regs(2), of T], of ?i "?ts1[?i := (t, chs2)]" chs3] i chs3(1)
    by (simp add: ts'_def)
  moreover have "fake_line ''COMMIT'' (ts', Some ?i) = Inr (ts', None)" by (simp add: fake_line_def)
  ultimately have run: "each_line fake_line (table_block t (compiled T regs)) (ts, None) = Inr (ts', None)"
    using head cs by (simp add: table_block_def each_line_append ns_def)
  have upd: "map_of ts' = (map_of ts)(t \<mapsto> chs3)" "distinct (map fst ts')"
    using regs(1) ts find_or_create_update [of cstr t "[]" id ts chs3]
      find_or_create_map [of cstr t "[]" "\<lambda>_. chs3" ts] find_or_create_distinct [of cstr t ts "[]" "\<lambda>_. chs3"]
    by (simp_all add: ts'_def system_ok_def)
  have "is_word n \<and> rules_ok rs" if n: "chain_after T regs n = Some rs" for n rs
  proof (cases "map_of regs n")
    case None
    then have "map_of chs n = Some rs" using n chain_after_goal [OF regs(2) rok, of n] len T old by simp
    then show ?thesis using chs by (auto simp: chains_ok_map_of)
  next
    case (Some k)
    have k: "is_word n" "chain_ok k" using regs(2) map_of_SomeD [OF Some] by (auto simp: regs_ok_def list_all_iff)
    have "chain_goal k (cur_chain T n) (Some rs)"
      using Some n chain_after_goal [OF regs(2) rok, of n] len T by simp
    then show ?thesis using goal_rules_ok [OF k(2) rok] k(1) by fastforce
  qed
  then have "chains_ok chs3" using chs3 by (simp add: chains_ok_map_of)
  then have "system_ok ts'" using upd ts regs(1) by (auto simp: system_ok_map_of)
  then show ?thesis using run upd chs3(3) by (auto simp: look_def cur_chain_def)
qed

definition staged :: "mt_ipt \<Rightarrow> string \<Rightarrow> string \<Rightarrow> mt_ipt_chain option" where
  "staged ipt t n = (case map_of ipt t of None \<Rightarrow> None | Some regs \<Rightarrow> map_of regs n)"

lemma restore_lines_each:
  "each_line fake_line ls st = Inr st' \<Longrightarrow> restore_lines ls st = (MT_OK, fst st')"
  by (induction ls arbitrary: st) (auto split: sum.splits)

lemma restore_blocks:
  assumes "ipt_ok ipt" "system_ok ts"
    and "\<forall>t\<in>fst ` set ipt. \<forall>n. length (or_empty (look ts t n)) < 2 ^ 32 \<and> look cur t n = look ts t n"
  shows "\<exists>ts'. each_line fake_line (transcript_lines cur ipt) (ts, None) = Inr (ts', None) \<and> system_ok ts' \<and>
    (\<forall>t n. case staged ipt t n of None \<Rightarrow> look ts' t n = look ts t n
       | Some k \<Rightarrow> chain_goal k (look ts t n) (look ts' t n))"
  using assms
proof (induction ipt arbitrary: ts)
  case Nil
  then show ?case by (simp add: transcript_lines_def staged_def)
next
  case (Cons e ipt)
  obtain t regs where e: "e = (t, regs)" by (cases e)
  let ?T = "map_of cur t" and ?cs = "compiled (map_of cur t) regs"
  have regs: "is_word t" "regs_ok regs" "ipt_ok ipt" "t \<notin> fst ` set ipt"
    using Cons.prems(1) by (auto simp: ipt_ok_def e)
  have T: "\<forall>n. cur_chain ?T n = look ts t n" and len: "\<forall>n. length (or_empty (look ts t n)) < 2 ^ 32"
    using Cons.prems(3) by (auto simp: e look_def)
  have "\<exists>ts1. each_line fake_line (table_block t ?cs) (ts, None) = Inr (ts1, None) \<and> system_ok ts1 \<and>
      (\<forall>n. look ts1 t n = chain_after ?T regs n) \<and> (\<forall>u n. u \<noteq> t \<longrightarrow> look ts1 u n = look ts u n)"
  proof (cases "?cs = []")
    case True
    then show ?thesis using T Cons.prems(2) by (simp add: table_block_def chain_after_def)
  next
    case False
    then show ?thesis using restore_table_block [OF regs(1,2) Cons.prems(2) len T] by blast
  qed
  then obtain ts1 where ts1: "each_line fake_line (table_block t ?cs) (ts, None) = Inr (ts1, None)"
    "system_ok ts1" "\<forall>n. look ts1 t n = chain_after ?T regs n" "\<forall>u n. u \<noteq> t \<longrightarrow> look ts1 u n = look ts u n"
    by blast
  have rok: "rules_ok (or_empty (cur_chain ?T n))" for n
    using Cons.prems(2) T
    by (auto simp: look_def cur_chain_def system_ok_map_of chains_ok_map_of split: option.splits)
  have goal: "case map_of regs n of None \<Rightarrow> look ts1 t n = look ts t n
      | Some k \<Rightarrow> chain_goal k (look ts t n) (look ts1 t n)" for n
    using chain_after_goal [OF regs(2) rok, of n] ts1(3) T len by (simp split: option.splits)
  have "\<forall>u\<in>fst ` set ipt. \<forall>n. length (or_empty (look ts1 u n)) < 2 ^ 32 \<and> look cur u n = look ts1 u n"
  proof
    fix u assume u: "u \<in> fst ` set ipt"
    then have "u \<noteq> t" using regs(4) by blast
    with u show "\<forall>n. length (or_empty (look ts1 u n)) < 2 ^ 32 \<and> look cur u n = look ts1 u n"
      using ts1(4) Cons.prems(3) by auto
  qed
  from Cons.IH [OF regs(3) ts1(2) this] obtain ts' where ts':
    "each_line fake_line (transcript_lines cur ipt) (ts1, None) = Inr (ts', None)" "system_ok ts'"
    "\<forall>u n. case staged ipt u n of None \<Rightarrow> look ts' u n = look ts1 u n
       | Some k \<Rightarrow> chain_goal k (look ts1 u n) (look ts' u n)" by blast
  have "case staged (e # ipt) u n of None \<Rightarrow> look ts' u n = look ts u n
       | Some k \<Rightarrow> chain_goal k (look ts u n) (look ts' u n)" for u n
  proof (cases "u = t")
    case True
    then have "map_of ipt u = None" using regs(4) by (simp add: map_of_eq_None_iff)
    then have "look ts' u n = look ts1 u n" using ts'(3) [rule_format, of u n] by (simp add: staged_def)
    with goal [of n] True show ?thesis by (simp add: staged_def e split: option.splits)
  next
    case False
    with ts'(3) [rule_format, of u n] ts1(4) show ?thesis
      by (simp add: staged_def e split: option.splits)
  qed
  moreover have "transcript_lines cur (e # ipt) = table_block t ?cs @ transcript_lines cur ipt"
    by (simp add: transcript_lines_def e)
  ultimately show ?case using ts1(1) ts'(1,2) by (auto simp: each_line_append)
qed

lemma length_lines: "length ls \<le> length (concat (map (\<lambda>l. l @ [CHR 0x0A]) ls))"
  by (induction ls) auto

lemma look_length:
  assumes "system_ok f"
  shows "length (or_empty (look f t n)) \<le> length (save_text f)"
proof (cases "look f t n")
  case (Some rs)
  then obtain chs where chs: "(t, chs) \<in> set f" "(n, rs) \<in> set chs"
    by (auto simp: look_def cur_chain_def split: option.splits dest!: map_of_SomeD)
  have "rs = or_empty (map_of chs n)" using Some chs assms
    by (auto simp: look_def cur_chain_def system_ok_def split: option.splits)
  have part: "length (h x) \<le> length (concat (map h xs))" if "x \<in> set xs" for h :: "'a \<Rightarrow> 'b list" and x xs
    using that by (induction xs) auto
  have "length rs \<le> length (concat (map (\<lambda>(n, rs). map (\<lambda>r. (n, [r])) rs) (sort_key fst chs)))"
    using part [of "(n, rs)" "sort_key fst chs" "\<lambda>(n, rs). map (\<lambda>r. (n, [r])) rs"] chs(2) by simp
  also have "\<dots> \<le> length (save_table_lines (t, chs))" by (simp add: save_table_lines_def table_items_def)
  also have "\<dots> \<le> length (concat (map save_table_lines (sort_key fst f)))"
    by (rule part) (use chs(1) in simp)
  also have "\<dots> \<le> length (save_text f)" unfolding save_text_def by (rule length_lines)
  finally show ?thesis using Some by simp
qed simp

lemma transcript_lines_no_newline:
  assumes "ipt_ok ipt" "l \<in> set (transcript_lines cur ipt)"
  shows "CHR 0x0A \<notin> set l"
proof -
  obtain t regs where t: "(t, regs) \<in> set ipt" "l \<in> set (table_block t (compiled (map_of cur t) regs))"
    using assms(2) by (auto simp: transcript_lines_def)
  then have ok: "is_word t" "regs_ok regs" using assms(1) by (auto simp: ipt_ok_def list_all_iff)
  have names: "is_word n" if "(n, p) \<in> set (compiled (map_of cur t) regs)" for n p
    using compiled_cmds_ok [OF ok(2)] that by (cases p) blast
  have "CHR 0x0A \<notin> set (cmd_line c)" if "c \<in> set (table_cmds (compiled (map_of cur t) regs))" for c
    by (rule rule_string_no_newline, rule cmd_words_ok)
      (use of_prio_cmds_ok [OF ok(2)] that in \<open>simp add: list_all_iff\<close>)
  moreover have "CHR 0x0A \<notin> set (CHR '':'' # mt_ipt_rule_string (decl_words n))" if "is_word n" for n
    using rule_string_no_newline [OF decl_words_ok [OF that]] by simp
  ultimately show ?thesis using t(2) ok(1) names
    by (auto simp: table_block_def is_word_def word_char_def list_all_iff split: if_splits)
qed

lemma commit_fake:
  assumes "ipt_ok ipt" "system_ok f" "parse_rules (save_text f) = Inr cur"
    and "length (save_text f) \<le> MT_BYTEBUF_MAX_DEFAULT" "length (transcript cur ipt) \<le> MT_BYTEBUF_MAX_DEFAULT"
  shows "\<exists>f'. mt_ipt_commit fake_executable False False ipt f = (MT_OK, f') \<and> system_ok f' \<and>
     (\<forall>t n. case staged ipt t n of None \<Rightarrow> look f' t n = look f t n
        | Some k \<Rightarrow> chain_goal k (look f t n) (look f' t n))"
proof -
  have cur: "look cur t n = look f t n" for t n using parse_save [OF assms(2)] assms(3) by auto
  have "length (or_empty (look f t n)) < 2 ^ 32" for t n
    using look_length [OF assms(2), of t n] assms(4) by (simp add: MT_BYTEBUF_MAX_DEFAULT_def)
  then obtain f' where f': "each_line fake_line (transcript_lines cur ipt) (f, None) = Inr (f', None)"
    "system_ok f'" "\<forall>t n. case staged ipt t n of None \<Rightarrow> look f' t n = look f t n
       | Some k \<Rightarrow> chain_goal k (look f t n) (look f' t n)"
    using restore_blocks [OF assms(1,2), of cur] cur by auto
  have "split_lines (transcript cur ipt) = transcript_lines cur ipt @ [[]]"
    unfolding transcript_text by (rule split_lines_concat) (use transcript_lines_no_newline [OF assms(1)] in blast)
  then have "fake_restore (transcript cur ipt) f = (MT_OK, f')"
    using f'(1) restore_lines_each [of "transcript_lines cur ipt @ [[]]" "(f, None)" "(f', None)"]
    by (simp add: fake_restore_def each_line_append fake_line_def)
  moreover obtain b where "commit_tables cur ipt mt_bytebuf_init = Inr b" "bb_data b = transcript cur ipt"
    using commit_tables_transcript [OF assms(5)] by blast
  moreover have "transcript cur ipt = [] \<Longrightarrow> f' = f"
    using f'(1) by (simp add: transcript_text)
  ultimately show ?thesis using f'(2,3) assms(3) fake_save_text [OF assms(4)]
    by (auto simp: mt_ipt_commit_def mt_ipt_get_current_rules_def fake_executable_def)
qed

lemma compiled_goal_Nil:
  assumes "ipt_ok ipt" "system_ok f" "\<forall>t n. look cur t n = look f t n"
    and "length (save_text f) \<le> MT_BYTEBUF_MAX_DEFAULT"
    and "\<forall>t n k. staged ipt t n = Some k \<longrightarrow> chain_goal k (look f t n) (look f t n)"
  shows "transcript cur ipt = []"
proof -
  have "compiled (map_of cur t) regs = []" if t: "(t, regs) \<in> set ipt" for t regs
  proof -
    have regs: "regs_ok regs" "map_of ipt t = Some regs"
      using assms(1) t by (auto simp: ipt_ok_def list_all_iff)
    have "map_of (compiled (map_of cur t) regs) n = None" for n
    proof (cases "map_of regs n")
      case (Some k)
      have k: "chain_ok k" using regs(1) map_of_SomeD [OF Some] by (auto simp: regs_ok_def list_all_iff)
      have e: "cur_chain (map_of cur t) n = look f t n" using assms(3) by (simp add: look_def)
      have "rules_ok (or_empty (look f t n))" using assms(2)
        by (auto simp: look_def cur_chain_def system_ok_map_of chains_ok_map_of split: option.splits)
      moreover have "length (or_empty (look f t n)) < 2 ^ 32"
        using look_length [OF assms(2), of t n] assms(4) by (simp add: MT_BYTEBUF_MAX_DEFAULT_def)
      moreover have "chain_goal k (look f t n) (look f t n)" using assms(5) Some regs(2) by (simp add: staged_def)
      ultimately have "fst (chain_compile k n (look f t n)) = []" using compile_nothing [OF k] by blast
      with Some e regs(1) show ?thesis by (simp add: compiled_map_of regs_ok_def)
    qed (use regs(1) in \<open>simp add: compiled_map_of regs_ok_def\<close>)
    then have "map_of (compiled (map_of cur t) regs) = Map.empty" by (simp add: fun_eq_iff)
    then show ?thesis by simp
  qed
  then have "concat (map (\<lambda>(t, regs). table_chunks t (compiled (map_of cur t) regs)) ipt) = []"
    by (fastforce simp: table_chunks_def concat_eq_Nil_conv)
  then show ?thesis by (simp add: transcript_def)
qed

lemma goal_stable:
  "chain_goal k ex after \<Longrightarrow> chain_goal k after after"
  by (cases k) (auto simp: patch_goal_def)

text \<open>
  C8.  Save, parse, compile, print, restore: when everything staged is made of words and the two
  texts fit the 64 MiB buffer, a commit against the in-memory backend succeeds; afterwards every
  staged chain is what its kind promises (an override chain is exactly the staged list, a deleted
  chain is gone, a patched chain holds each appended or inserted rule exactly once, no deleted rule,
  and its other rules in their order), and every chain that was not staged, in whatever table, is
  as it was.
\<close>

theorem commit_reaches_goal:
  assumes "ipt_ok ipt" "system_ok f" "parse_rules (save_text f) = Inr cur"
    and "length (save_text f) \<le> 67108864" "length (transcript cur ipt) \<le> 67108864"
  shows "\<exists>f'. mt_ipt_commit fake_executable False False ipt f = (MT_OK, f') \<and>
     (\<forall>t n. case staged ipt t n of
        None \<Rightarrow> look f' t n = look f t n
      | Some k \<Rightarrow> chain_goal k (look f t n) (look f' t n))"
  using commit_fake [OF assms(1-3)] assms(4,5) by (auto simp: MT_BYTEBUF_MAX_DEFAULT_def)

text \<open>
  A commit is idempotent: after a successful commit a second commit of the same staged chains
  writes nothing at all, it leaves the backend in the same state.
\<close>

theorem commit_idempotent:
  assumes "ipt_ok ipt" "system_ok f" "parse_rules (save_text f) = Inr cur"
    and "length (save_text f) \<le> 67108864" "length (transcript cur ipt) \<le> 67108864"
    and "mt_ipt_commit fake_executable False False ipt f = (MT_OK, f')"
    and "length (save_text f') \<le> 67108864"
  shows "mt_ipt_commit fake_executable False False ipt f' = (MT_OK, f')"
proof -
  have f': "system_ok f'" "\<forall>t n. case staged ipt t n of None \<Rightarrow> look f' t n = look f t n
      | Some k \<Rightarrow> chain_goal k (look f t n) (look f' t n)"
    using commit_fake [OF assms(1-3)] assms(4-6) by (auto simp: MT_BYTEBUF_MAX_DEFAULT_def)
  obtain cur' where cur': "parse_rules (save_text f') = Inr cur'" "\<forall>t n. look cur' t n = look f' t n"
    using parse_save [OF f'(1)] by blast
  have goal: "\<forall>t n k. staged ipt t n = Some k \<longrightarrow> chain_goal k (look f' t n) (look f' t n)"
    using f'(2) goal_stable by (metis option.simps(5))
  have len: "length (save_text f') \<le> MT_BYTEBUF_MAX_DEFAULT"
    using assms(7) by (simp add: MT_BYTEBUF_MAX_DEFAULT_def)
  have none: "transcript cur' ipt = []" by (rule compiled_goal_Nil [OF assms(1) f'(1) cur'(2) len goal])
  then obtain b where "commit_tables cur' ipt mt_bytebuf_init = Inr b" "bb_data b = []"
    using commit_tables_transcript [of cur' ipt] by auto
  then show ?thesis using cur'(1) fake_save_text [OF len]
    by (simp add: mt_ipt_commit_def mt_ipt_get_current_rules_def fake_executable_def)
qed

lemma commit_fake_eval:
  assumes "parse_rules (save_text f) = Inr cur" "length (save_text f) \<le> 67108864"
    "length (transcript cur ipt) \<le> 67108864" "transcript cur ipt \<noteq> []"
  shows "mt_ipt_commit fake_executable False False ipt f = fake_restore (transcript cur ipt) f"
proof -
  obtain b where "commit_tables cur ipt mt_bytebuf_init = Inr b" "bb_data b = transcript cur ipt"
    using commit_tables_transcript [of cur ipt] assms(3) by (auto simp: MT_BYTEBUF_MAX_DEFAULT_def)
  then show ?thesis using assms fake_save_text [of f]
    by (simp add: mt_ipt_commit_def mt_ipt_get_current_rules_def fake_executable_def MT_BYTEBUF_MAX_DEFAULT_def)
qed

text \<open>An example: a jump staged at the head of a built-in chain, and the chain it jumps to.\<close>

definition ex_system :: fake_ipt where
  "ex_system = [(''nat'', [(''PRE'', [[''-j'', ''X'']]), (''OLD'', [[''-j'', ''X'']])])]"

definition ex_ipt :: mt_ipt where
  "ex_ipt = [(''nat'', [(''PRE'', ChainPatch [\<lparr>pe_option = MT_IPT_OP_INSERT, pe_rule_num = 1, pe_rule = [''-j'', ''MT'']\<rparr>]),
     (''MT'', ChainOverride [[''-p'', ''tcp'']]), (''OLD'', ChainDelete)])]"

definition ex_after :: fake_ipt where
  "ex_after = [(''nat'', [(''PRE'', [[''-j'', ''MT''], [''-j'', ''X'']]), (''MT'', [[''-p'', ''tcp'']])])]"

lemma ex_ok: "ipt_ok ex_ipt" "system_ok ex_system"
  by code_simp+

definition ex_current :: rules_snapshot where
  "ex_current = [(''nat'', [(''OLD'', [[''-j'', ''X'']]), (''PRE'', [[''-j'', ''X'']])])]"

lemma ex_cur: "parse_rules (save_text ex_system) = Inr ex_current"
  by code_simp

lemma ex_small: "length (save_text ex_system) < 200" "length (save_text ex_after) < 200"
  "length (transcript ex_current ex_ipt) < 200"
  by code_simp+

lemmas ex_fits = ex_small [THEN less_imp_le, THEN le_trans [where k = 67108864], simplified]

lemma ex_commit: "mt_ipt_commit fake_executable False False ex_ipt ex_system = (MT_OK, ex_after)"
proof -
  have "transcript ex_current ex_ipt \<noteq> []" by code_simp
  moreover have "fake_restore (transcript ex_current ex_ipt) ex_system = (MT_OK, ex_after)" by code_simp
  ultimately show ?thesis using commit_fake_eval [OF ex_cur ex_fits(1,3)] by simp
qed

theorem commit_reaches_goal_witness:
  "look ex_after ''nat'' ''PRE'' = Some [[''-j'', ''MT''], [''-j'', ''X'']] \<and>
   chain_goal (ChainOverride [[''-p'', ''tcp'']]) None (look ex_after ''nat'' ''MT'') \<and>
   chain_goal ChainDelete (Some [[''-j'', ''X'']]) (look ex_after ''nat'' ''OLD'')"
proof -
  have staged: "staged ex_ipt ''nat'' ''MT'' = Some (ChainOverride [[''-p'', ''tcp'']])"
    "staged ex_ipt ''nat'' ''OLD'' = Some ChainDelete"
    "look ex_system ''nat'' ''MT'' = None" "look ex_system ''nat'' ''OLD'' = Some [[''-j'', ''X'']]"
    by (simp_all add: staged_def ex_ipt_def look_def ex_system_def cur_chain_def)
  have "look ex_after ''nat'' ''PRE'' = Some [[''-j'', ''MT''], [''-j'', ''X'']]"
    by (simp add: look_def ex_after_def cur_chain_def)
  with commit_reaches_goal [OF ex_ok ex_cur ex_fits(1,3)] staged show ?thesis
    unfolding ex_commit by (metis (no_types, lifting) option.simps(5) prod.inject)
qed

theorem commit_idempotent_witness:
  "mt_ipt_commit fake_executable False False ex_ipt ex_after = (MT_OK, ex_after)"
  by (rule commit_idempotent [OF ex_ok ex_cur ex_fits(1,3) ex_commit ex_fits(2)])

section \<open>Staging\<close>

lemma add_rule_ok:
  assumes "chain_ok (ChainPatch es)" "list_all is_word r"
    "opt = MT_IPT_OP_APPEND \<or> opt = MT_IPT_OP_DELETE \<or> opt = MT_IPT_OP_INSERT \<and> num = 1"
  shows "chain_ok (ChainPatch (add_rule es opt num r))"
  using assms by (auto simp: add_rule_def Let_def patch_entry_ok_def list_all_iff distinct_map_filter)

lemma chain_ops_ok:
  assumes "chain_ok c" "list_all is_word r"
  shows "chain_ok (chain_append c r)" "chain_ok (chain_insert c 1 r)" "chain_ok (chain_remove c r)"
  using assms add_rule_ok [OF _ assms(2)]
  by (cases c; auto simp: patch_append_def patch_insert_def patch_remove_def override_append_def
      override_insert_def list_all_iff simp del: chain_ok.simps(1) dest: notin_set_remove1)+

lemma find_or_create_all:
  assumes "copy k = k" "list_all (\<lambda>(k, v). P k \<and> Q v) xs" "P k" "Q (f (case map_of xs k of None \<Rightarrow> d | Some v \<Rightarrow> v))"
  shows "list_all (\<lambda>(k, v). P k \<and> Q v) (find_or_create copy d f k xs)"
  using assms by (induction copy d f k xs rule: find_or_create.induct) (auto split: if_splits)

lemma regs_ok_update:
  assumes "regs_ok regs" "is_word n" "chain_ok c"
  shows "regs_ok (find_or_create id d (\<lambda>_. c) n regs)"
  using assms find_or_create_all [of id n is_word chain_ok regs "\<lambda>_. c" d]
    find_or_create_distinct [of id n regs d "\<lambda>_. c"] by (simp add: regs_ok_def)

lemma ipt_ok_update:
  assumes "ipt_ok ipt" "is_word t" "is_word n" "chain_ok c"
  shows "ipt_ok (find_or_create id [] (find_or_create id d (\<lambda>_. c) n) t ipt)"
proof -
  have "regs_ok (or_empty (map_of ipt t))" using assms(1)
    by (auto simp: ipt_ok_def list_all_iff regs_ok_def split: option.splits dest: map_of_SomeD)
  then have "regs_ok (find_or_create id d (\<lambda>_. c) n (or_empty (map_of ipt t)))"
    by (rule regs_ok_update [OF _ assms(3,4)])
  then show ?thesis
    using assms find_or_create_all [of id t is_word regs_ok ipt "find_or_create id d (\<lambda>_. c) n" "[]"]
      find_or_create_distinct [of id t ipt "[]"] by (simp add: ipt_ok_def)
qed

lemma staged_chain_ok: "ipt_ok ipt \<Longrightarrow> map_of ipt t = Some regs \<Longrightarrow> map_of regs n = Some c \<Longrightarrow> chain_ok c"
  by (auto simp: ipt_ok_def regs_ok_def list_all_iff dest!: map_of_SomeD)

lemma dispatch_ok:
  assumes "ipt_ok ipt" "is_word t" "is_word n" "list_all is_word r"
  shows "ipt_ok (snd (dispatch_rule_op ipt t n (map Some r) 1 op))"
    "op \<noteq> 1 \<Longrightarrow> ipt_ok (snd (dispatch_rule_op ipt t n (map Some r) k op))"
proof -
  have new: "mt_ipt_rule_new (map Some r) = r" by (simp add: mt_ipt_rule_new_def comp_def)
  have step: "ipt_ok (snd (dispatch_rule_op ipt t n (map Some r) k op))" if "op \<noteq> 1 \<or> k = 1" for k
    using assms staged_chain_ok [OF assms(1)] chain_ops_ok [OF _ assms(4)] that
    by (auto simp: dispatch_rule_op_def new Let_def intro!: ipt_ok_update split: option.splits)
  show "ipt_ok (snd (dispatch_rule_op ipt t n (map Some r) 1 op))" by (simp add: step)
  show "op \<noteq> 1 \<Longrightarrow> ipt_ok (snd (dispatch_rule_op ipt t n (map Some r) k op))" by (simp add: step)
qed

text \<open>The states of the engine the program can stage: registrations, and rule operations made of words,
  insertions at the head.\<close>

inductive stages :: "mt_ipt \<Rightarrow> mt_ipt \<Rightarrow> bool" where
  "is_word t \<Longrightarrow> is_word n \<Longrightarrow> stages ipt (mt_ipt_register_chain_delete ipt t n)"
| "is_word t \<Longrightarrow> is_word n \<Longrightarrow> stages ipt (mt_ipt_register_chain_patch ipt t n)"
| "is_word t \<Longrightarrow> is_word n \<Longrightarrow> stages ipt (mt_ipt_register_chain_override ipt t n)"
| "is_word t \<Longrightarrow> is_word n \<Longrightarrow> list_all is_word r \<Longrightarrow> stages ipt (snd (mt_ipt_append ipt t n (map Some r)))"
| "is_word t \<Longrightarrow> is_word n \<Longrightarrow> list_all is_word r \<Longrightarrow> stages ipt (snd (mt_ipt_insert ipt t n 1 (map Some r)))"
| "is_word t \<Longrightarrow> is_word n \<Longrightarrow> list_all is_word r \<Longrightarrow> stages ipt (snd (mt_ipt_delete ipt t n (map Some r)))"

interpretation staging: invariant_system "\<lambda>ipt. ipt = mt_ipt_new" stages ipt_ok
proof
  show "ipt = mt_ipt_new \<Longrightarrow> ipt_ok ipt" for ipt by (simp add: mt_ipt_new_def ipt_ok_def)
  show "ipt_ok ipt \<Longrightarrow> stages ipt ipt' \<Longrightarrow> ipt_ok ipt'" for ipt ipt'
    by (erule stages.cases)
      (simp_all add: mt_ipt_register_chain_delete_def mt_ipt_register_chain_patch_def
        mt_ipt_register_chain_override_def register_chain_def ipt_ok_update
        mt_ipt_chain_delete_new_def mt_ipt_chain_patch_new_def mt_ipt_chain_override_new_def
        mt_ipt_append_def mt_ipt_insert_def mt_ipt_delete_def dispatch_ok)
qed

text \<open>
  Whatever sequence of registrations and rule operations the engine went through, the names of
  its tables and of the chains of a table are distinct, and in a patch chain no rule is staged twice:
  the state is one a commit is right for.
\<close>

theorem staging_invariant:
  "reachable (\<lambda>ipt. ipt = mt_ipt_new) stages ipt \<Longrightarrow> ipt_ok ipt"
  by (rule staging.reachable_inv)

theorem staging_invariant_witness:
  "ipt_ok (snd (mt_ipt_insert (mt_ipt_register_chain_patch mt_ipt_new ''nat'' ''PRE'') ''nat'' ''PRE'' 1
     [Some ''-j'', Some ''MT'']))"
proof -
  have w: "is_word ''nat''" "is_word ''PRE''" "list_all is_word [''-j'', ''MT'']" by code_simp+
  have "reachable (\<lambda>ipt. ipt = mt_ipt_new) stages (mt_ipt_register_chain_patch mt_ipt_new ''nat'' ''PRE'')"
    by (rule reach_step, rule reach_init, rule refl, rule stages.intros(2) [OF w(1,2)])
  then have "reachable (\<lambda>ipt. ipt = mt_ipt_new) stages (snd (mt_ipt_insert
      (mt_ipt_register_chain_patch mt_ipt_new ''nat'' ''PRE'') ''nat'' ''PRE'' 1 (map Some [''-j'', ''MT''])))"
    by (rule reach_step) (rule stages.intros(5) [OF w])
  then show ?thesis using staging_invariant by simp
qed

text \<open>
  Appending, inserting or deleting a rule fails, with \<open>MT_ERR_STATE\<close> and without any change,
  exactly when the chain was never registered; registering a chain makes it empty and leaves every
  other chain as staged.
\<close>

theorem staging_errors:
  "(staged ipt t n = None \<longleftrightarrow> fst (mt_ipt_append ipt t n args) = MT_ERR_STATE) \<and>
   (staged ipt t n = None \<longleftrightarrow> mt_ipt_err_is_chain_not_initialized (fst (mt_ipt_insert ipt t n k args))) \<and>
   fst (mt_ipt_delete ipt t n args) = (if staged ipt t n = None then MT_ERR_STATE else MT_OK) \<and>
   (if staged ipt t n = None then snd (mt_ipt_delete ipt t n args) = ipt else True) \<and>
   staged (mt_ipt_register_chain_patch ipt t n) =
     (\<lambda>t' n'. if t' = t \<and> n' = n then Some (ChainPatch []) else staged ipt t' n')"
  by (auto simp: staged_def mt_ipt_append_def mt_ipt_insert_def mt_ipt_delete_def dispatch_rule_op_def
      mt_ipt_err_is_chain_not_initialized_def mt_ipt_register_chain_patch_def register_chain_def
      mt_ipt_chain_patch_new_def find_or_create_map Let_def fun_eq_iff split: option.splits)

end
