(* ===== verification/Ipset_To_Link.thy ===== *)
theory Ipset_To_Link
  imports Rtnl Ipt_Fake
begin

text \<open>
  \<^verbatim>\<open>src/netfilter/ipset_to_link.c\<close>: the connection of a group's pair of sets to a network interface, made
  of iptables chains (accept, mark, masquerade), a policy rule that sends marked packets to a routing
  table of the group's own, and the routes of that table (a blackhole and, when the interface is up, a
  route through it).

  The connections to the kernel that the C object borrows are the record \<open>net\<close>: the rtnetlink socket and,
  for each address family that is in use, the iptables engine with the state of its backend.  The commit of
  an engine is the parameter \<open>commit\<close>, to be \<^const>\<open>mt_ipt_commit\<close> with a backend and cancellation
  flags; \<open>K\<close> is the netlink exchange and \<open>be\<close> the byte order of \<^theory_text>\<open>Rtnl\<close>.
\<close>

section \<open>Data\<close>

record family_state =
  rule_added :: bool
  blackhole_added :: bool
  iface_route_present :: bool
  iface_has_gw :: bool
  fs_gw :: "u8 list"

record mt_ipset_to_link =
  il_chain :: string
  il_iface :: string
  il_start_idx :: u32
  il_enabled :: bool
  il_mark :: u32
  il_table :: u32
  il_v4 :: family_state
  il_v6 :: family_state

type_synonym 'x engine = "(mt_ipt \<times> 'x) option"

record ('s, 'x) net =
  nw_rtnl :: "'s mt_rtnl"
  nw_ipt4 :: "'x engine"
  nw_ipt6 :: "'x engine"

type_synonym 'x committer = "mt_ipt \<Rightarrow> 'x \<Rightarrow> mt_err \<times> 'x"

definition no_family_state :: family_state where
  "no_family_state =
    \<lparr>rule_added = False, blackhole_added = False, iface_route_present = False, iface_has_gw = False, fs_gw = []\<rparr>"

definition mt_ipset_to_link_new :: "string \<Rightarrow> string \<Rightarrow> u32 \<Rightarrow> mt_ipset_to_link" where
  "mt_ipset_to_link_new chain_name iface_name start_idx =
    \<lparr>il_chain = chain_name, il_iface = iface_name, il_start_idx = start_idx, il_enabled = False,
     il_mark = 0, il_table = 0, il_v4 = no_family_state, il_v6 = no_family_state\<rparr>"

definition MT_IPSET_TO_LINK_BLACKHOLE :: string where
  "MT_IPSET_TO_LINK_BLACKHOLE = ''blackhole''"

section \<open>Chains\<close>

text \<open>The engine calls of a builder, up to the first that fails.\<close>

fun stage_all :: "(mt_ipt \<Rightarrow> mt_err \<times> mt_ipt) list \<Rightarrow> mt_ipt \<Rightarrow> mt_err \<times> mt_ipt" where
  "stage_all [] ipt = (MT_OK, ipt)"
| "stage_all (f # fs) ipt =
    (case f ipt of (err, ipt') \<Rightarrow> if err \<noteq> MT_OK then (err, ipt') else stage_all fs ipt')"

definition st_override :: "string \<Rightarrow> string \<Rightarrow> mt_ipt \<Rightarrow> mt_err \<times> mt_ipt" where
  "st_override table chain ipt = (MT_OK, mt_ipt_register_chain_override ipt table chain)"

definition st_append :: "string \<Rightarrow> string \<Rightarrow> string list \<Rightarrow> mt_ipt \<Rightarrow> mt_err \<times> mt_ipt" where
  "st_append table chain args ipt = mt_ipt_append ipt table chain (map Some args)"

definition build_iptables_rules :: "mt_ipset_to_link \<Rightarrow> mt_ipt \<Rightarrow> string \<Rightarrow> mt_err \<times> mt_ipt" where
  "build_iptables_rules l ipt ipset_name =
    stage_all
     ([st_override ''filter'' (il_chain l)] @
      (if il_iface l \<noteq> MT_IPSET_TO_LINK_BLACKHOLE
       then [st_append ''filter'' (il_chain l)
              [''-o'', il_iface l, ''-m'', ''set'', ''--match-set'', ipset_name, ''dst'', ''-j'', ''ACCEPT'']]
       else []) @
      [st_append ''filter'' ''FORWARD'' [''-j'', il_chain l],
       st_override ''mangle'' (il_chain l),
       st_append ''mangle'' (il_chain l) [''-m'', ''conntrack'', ''--ctdir'', ''REPLY'', ''-j'', ''RETURN''],
       st_append ''mangle'' (il_chain l)
         [''-m'', ''set'', ''--match-set'', ipset_name, ''dst'', ''-j'', ''MARK'', ''--set-mark'', c_dec (unat (il_mark l))],
       st_append ''mangle'' (il_chain l)
         [''-m'', ''set'', ''--match-set'', ipset_name, ''dst'', ''-j'', ''CONNMARK'', ''--save-mark''],
       st_append ''mangle'' ''PREROUTING'' [''-j'', il_chain l],
       st_override ''nat'' (il_chain l),
       st_append ''nat'' (il_chain l) [''-m'', ''set'', ''--match-set'', ipset_name, ''dst'', ''-j'', ''MASQUERADE''],
       st_append ''nat'' ''POSTROUTING'' [''-j'', il_chain l]]) ipt"

definition insert_iptables_rules ::
  "'x committer \<Rightarrow> mt_ipset_to_link \<Rightarrow> string \<Rightarrow> 'x engine \<Rightarrow> mt_err \<times> 'x engine" where
  "insert_iptables_rules commit l ipset_name eng =
    (case eng of None \<Rightarrow> (MT_OK, None)
     | Some (ipt, x) \<Rightarrow>
       (case build_iptables_rules l ipt ipset_name of (err, ipt') \<Rightarrow>
          if err \<noteq> MT_OK then (err, Some (ipt', x))
          else (case commit ipt' x of (err', x') \<Rightarrow> (err', Some (ipt', x')))))"

definition prepare_one :: "mt_ipset_to_link \<Rightarrow> string \<Rightarrow> 'x engine \<Rightarrow> mt_err \<times> 'x engine" where
  "prepare_one l ipset_name eng =
    (case eng of None \<Rightarrow> (MT_OK, None)
     | Some (ipt, x) \<Rightarrow>
       (case build_iptables_rules l ipt ipset_name of (err, ipt') \<Rightarrow> (err, Some (ipt', x))))"

definition mt_ipset_to_link_prepare_iptables ::
  "mt_ipset \<Rightarrow> mt_ipset_to_link \<Rightarrow> ('s, 'x) net \<Rightarrow> mt_err \<times> ('s, 'x) net" where
  "mt_ipset_to_link_prepare_iptables ips l w =
    (if \<not> il_enabled l then (MT_OK, w)
     else case prepare_one l (name4 ips) (nw_ipt4 w) of (e4, eng4) \<Rightarrow>
       case prepare_one l (name6 ips) (nw_ipt6 w) of (e6, eng6) \<Rightarrow>
         (if e4 \<noteq> MT_OK then e4 else e6, w\<lparr>nw_ipt4 := eng4, nw_ipt6 := eng6\<rparr>))"

definition first_of :: "mt_err \<Rightarrow> mt_err \<Rightarrow> mt_err" where
  "first_of e1 e2 = (if e1 \<noteq> MT_OK then e1 else e2)"

text \<open>\<open>delete_chain\<close> is the pair of calls made for one table; the error of a jump that is not there is ignored.\<close>

definition delete_chain :: "string \<Rightarrow> string \<Rightarrow> string \<Rightarrow> mt_err \<times> mt_ipt \<Rightarrow> mt_err \<times> mt_ipt" where
  "delete_chain table base chain st =
    (case mt_ipt_delete (mt_ipt_register_chain_delete (snd st) table chain) table base [Some ''-j'', Some chain] of
       (err, ipt) \<Rightarrow> (first_of (fst st) (if err = MT_ERR_NOENT then MT_OK else err), ipt))"

definition delete_iptables_rules ::
  "'x committer \<Rightarrow> mt_ipset_to_link \<Rightarrow> 'x engine \<Rightarrow> mt_err \<times> 'x engine" where
  "delete_iptables_rules commit l eng =
    (case eng of None \<Rightarrow> (MT_OK, None)
     | Some (ipt, x) \<Rightarrow>
       (case delete_chain ''nat'' ''POSTROUTING'' (il_chain l)
               (delete_chain ''mangle'' ''PREROUTING'' (il_chain l)
                 (delete_chain ''filter'' ''FORWARD'' (il_chain l) (MT_OK, ipt))) of
          (first_err, ipt') \<Rightarrow>
          (case commit ipt' x of (err, x') \<Rightarrow> (first_of first_err err, Some (ipt', x')))))"

section \<open>The policy rule\<close>

text \<open>
  The two families are handled by the same code; \<open>fam_state\<close> and \<open>set_fam\<close> read and write the state of one,
  and a family is in use when its engine is there.
\<close>

definition fam_state :: "inet_family \<Rightarrow> mt_ipset_to_link \<Rightarrow> family_state" where
  "fam_state family l = (case family of AF_INET \<Rightarrow> il_v4 l | AF_INET6 \<Rightarrow> il_v6 l)"

definition upd_fam :: "inet_family \<Rightarrow> (family_state \<Rightarrow> family_state) \<Rightarrow> mt_ipset_to_link \<Rightarrow> mt_ipset_to_link" where
  "upd_fam family f l =
    (case family of AF_INET \<Rightarrow> l\<lparr>il_v4 := f (il_v4 l)\<rparr> | AF_INET6 \<Rightarrow> l\<lparr>il_v6 := f (il_v6 l)\<rparr>)"

type_synonym 's link_op = "mt_ipset_to_link \<Rightarrow> 's mt_rtnl \<Rightarrow> mt_err \<times> mt_ipset_to_link \<times> 's mt_rtnl"

definition insert_rule_fam :: "'s netlink \<Rightarrow> inet_family \<Rightarrow> 's link_op" where
  "insert_rule_fam K family l r =
    (case mt_rtnl_rule_del K family (il_mark l) (il_table l) r of (_, r1) \<Rightarrow>
     case mt_rtnl_rule_add K family (il_mark l) (il_table l) r1 of (err, r2) \<Rightarrow>
       if err \<noteq> MT_OK then (err, l, r2)
       else (MT_OK, upd_fam family (\<lambda>fs. fs\<lparr>rule_added := True\<rparr>) l, r2))"

text \<open>An operation on the families that are in use, up to the first error.\<close>

definition fams_op :: "bool \<Rightarrow> bool \<Rightarrow> (inet_family \<Rightarrow> 's link_op) \<Rightarrow> 's link_op" where
  "fams_op has4 has6 f l r =
    (case (if has4 then f AF_INET l r else (MT_OK, l, r)) of (err, l1, r1) \<Rightarrow>
       if err \<noteq> MT_OK then (err, l1, r1)
       else if has6 then f AF_INET6 l1 r1 else (MT_OK, l1, r1))"

definition insert_ip_rule :: "'s netlink \<Rightarrow> bool \<Rightarrow> bool \<Rightarrow> 's link_op" where
  "insert_ip_rule K has4 has6 = fams_op has4 has6 (insert_rule_fam K)"

definition delete_rule_fam :: "'s netlink \<Rightarrow> inet_family \<Rightarrow> 's link_op" where
  "delete_rule_fam K family l r =
    (if \<not> rule_added (fam_state family l) then (MT_OK, l, r)
     else case mt_rtnl_rule_del K family (il_mark l) (il_table l) r of (err, r') \<Rightarrow>
       (err, upd_fam family (\<lambda>fs. fs\<lparr>rule_added := False\<rparr>) l, r'))"

text \<open>Operations that all run, keeping the first error.\<close>

definition link_then :: "'s link_op \<Rightarrow> 's link_op \<Rightarrow> 's link_op" where
  "link_then f g l r =
    (case f l r of (e1, l1, r1) \<Rightarrow> case g l1 r1 of (e2, l2, r2) \<Rightarrow> (first_of e1 e2, l2, r2))"

definition delete_ip_rule :: "'s netlink \<Rightarrow> 's link_op" where
  "delete_ip_rule K = link_then (delete_rule_fam K AF_INET) (delete_rule_fam K AF_INET6)"

section \<open>Routes\<close>

definition update_iface_route ::
  "bool \<Rightarrow> 's netlink \<Rightarrow> int \<Rightarrow> bool \<Rightarrow> inet_family \<Rightarrow> 's link_op" where
  "update_iface_route be K ifindex point_to_point family l r =
    (let fs = fam_state family l in
     case (if point_to_point then (None, r)
           else case mt_rtnl_gateway_for_iface be K family ifindex r of (err, gw, r') \<Rightarrow>
             (if err \<noteq> MT_OK then None else gw, r')) of (gw, r1) \<Rightarrow>
     if iface_route_present fs \<and> (gw \<noteq> None) = iface_has_gw fs \<and> (gw = None \<or> gw = Some (fs_gw fs))
     then (MT_OK, l, r1)
     else case (if iface_route_present fs \<and> gw \<noteq> None
                then (case mt_rtnl_route_del_iface K family (il_table l) 10 ifindex
                        (if iface_has_gw fs then Some (fs_gw fs) else None) r1 of (err, r') \<Rightarrow>
                        if err \<noteq> MT_OK then (err, l, r')
                        else (MT_OK, upd_fam family (\<lambda>fs. fs\<lparr>iface_route_present := False\<rparr>) l, r'))
                else (MT_OK, l, r1)) of (err1, l1, r2) \<Rightarrow>
       if err1 \<noteq> MT_OK then (err1, l1, r2)
       else case mt_rtnl_route_add_iface K family (il_table l) 10 ifindex gw r2 of (err, enodev, r3) \<Rightarrow>
         if err \<noteq> MT_OK then (err, l1, r3)
         else if enodev then (MT_OK, upd_fam family (\<lambda>fs. fs\<lparr>iface_route_present := False\<rparr>) l1, r3)
         else (MT_OK, upd_fam family (\<lambda>fs. fs\<lparr>iface_route_present := True, iface_has_gw := (gw \<noteq> None),
                 fs_gw := (case gw of None \<Rightarrow> [] | Some g \<Rightarrow> g)\<rparr>) l1, r3))"

definition insert_blackhole_fam :: "'s netlink \<Rightarrow> inet_family \<Rightarrow> 's link_op" where
  "insert_blackhole_fam K family l r =
    (case mt_rtnl_route_add_blackhole K family (il_table l) 20 r of (err, r') \<Rightarrow>
       if err \<noteq> MT_OK then (err, l, r')
       else (MT_OK, upd_fam family (\<lambda>fs. fs\<lparr>blackhole_added := True\<rparr>) l, r'))"

definition insert_ip_route :: "bool \<Rightarrow> 's netlink \<Rightarrow> bool \<Rightarrow> bool \<Rightarrow> 's link_op" where
  "insert_ip_route be K has4 has6 l r =
    (case fams_op has4 has6 (insert_blackhole_fam K) l r of (err, l1, r1) \<Rightarrow>
     if err \<noteq> MT_OK then (err, l1, r1)
     else if il_iface l = MT_IPSET_TO_LINK_BLACKHOLE then (MT_OK, l1, r1)
     else case mt_rtnl_link_by_name be K (il_iface l) r1 of (err, found, r2) \<Rightarrow>
       if err \<noteq> MT_OK then (err, l1, r2)
       else case found of
         None \<Rightarrow> (MT_OK, l1, r2)
       | Some li \<Rightarrow>
         if \<not> li_up li then (MT_OK, l1, r2)
         else fams_op has4 has6 (update_iface_route be K (li_ifindex li) (li_point_to_point li)) l1 r2)"

definition delete_iface_fam :: "bool \<Rightarrow> 's netlink \<Rightarrow> inet_family \<Rightarrow> 's link_op" where
  "delete_iface_fam be K family l r =
    (let fs = fam_state family l in
     if \<not> iface_route_present fs then (MT_OK, l, r)
     else case mt_rtnl_link_by_name be K (il_iface l) r of (_, found, r1) \<Rightarrow>
       case mt_rtnl_route_del_iface K family (il_table l) 10
              (case found of None \<Rightarrow> 0 | Some li \<Rightarrow> li_ifindex li)
              (if iface_has_gw fs then Some (fs_gw fs) else None) r1 of (err, r2) \<Rightarrow>
         (err, upd_fam family (\<lambda>fs. fs\<lparr>iface_route_present := False\<rparr>) l, r2))"

definition delete_blackhole_fam :: "'s netlink \<Rightarrow> inet_family \<Rightarrow> 's link_op" where
  "delete_blackhole_fam K family l r =
    (if \<not> blackhole_added (fam_state family l) then (MT_OK, l, r)
     else case mt_rtnl_route_del_blackhole K family (il_table l) 20 r of (err, r') \<Rightarrow>
       (err, upd_fam family (\<lambda>fs. fs\<lparr>blackhole_added := False\<rparr>) l, r'))"

definition delete_ip_route :: "bool \<Rightarrow> 's netlink \<Rightarrow> 's link_op" where
  "delete_ip_route be K =
    link_then (link_then (delete_iface_fam be K AF_INET) (delete_iface_fam be K AF_INET6))
      (link_then (delete_blackhole_fam K AF_INET) (delete_blackhole_fam K AF_INET6))"

section \<open>Enabling and disabling\<close>

type_synonym ('s, 'x) net_op =
  "mt_ipset_to_link \<Rightarrow> ('s, 'x) net \<Rightarrow> mt_err \<times> mt_ipset_to_link \<times> ('s, 'x) net"

definition on_rtnl :: "'s link_op \<Rightarrow> ('s, 'x) net_op" where
  "on_rtnl f l w = (case f l (nw_rtnl w) of (err, l', r') \<Rightarrow> (err, l', w\<lparr>nw_rtnl := r'\<rparr>))"

definition teardown :: "bool \<Rightarrow> 's netlink \<Rightarrow> 'x committer \<Rightarrow> ('s, 'x) net_op" where
  "teardown be K commit l w =
    (case on_rtnl (delete_ip_route be K) l w of (e1, l1, w1) \<Rightarrow>
     case on_rtnl (delete_ip_rule K) l1 w1 of (e2, l2, w2) \<Rightarrow>
     case delete_iptables_rules commit l2 (nw_ipt4 w2) of (e3, eng4) \<Rightarrow>
     case delete_iptables_rules commit l2 (nw_ipt6 w2) of (e4, eng6) \<Rightarrow>
       (first_of e1 (first_of e2 (first_of e3 e4)), l2, w2\<lparr>nw_ipt4 := eng4, nw_ipt6 := eng6\<rparr>))"

definition enable_steps ::
  "bool \<Rightarrow> 's netlink \<Rightarrow> 'x committer \<Rightarrow> mt_ipset \<Rightarrow> ('s, 'x) net_op" where
  "enable_steps be K commit ips l w =
    (let has4 = (nw_ipt4 w \<noteq> None); has6 = (nw_ipt6 w \<noteq> None) in
     case on_rtnl (insert_ip_rule K has4 has6) l w of (err, l1, w1) \<Rightarrow>
     if err \<noteq> MT_OK then (err, l1, w1)
     else case on_rtnl (insert_ip_route be K has4 has6) l1 w1 of (err, l2, w2) \<Rightarrow>
     if err \<noteq> MT_OK then (err, l2, w2)
     else case insert_iptables_rules commit l2 (name4 ips) (nw_ipt4 w2) of (err, eng4) \<Rightarrow>
     if err \<noteq> MT_OK then (err, l2, w2\<lparr>nw_ipt4 := eng4\<rparr>)
     else case insert_iptables_rules commit l2 (name6 ips) (nw_ipt6 w2) of (err, eng6) \<Rightarrow>
       (err, l2, w2\<lparr>nw_ipt4 := eng4, nw_ipt6 := eng6\<rparr>))"

definition mt_ipset_to_link_enable ::
  "bool \<Rightarrow> 's netlink \<Rightarrow> 'x committer \<Rightarrow> mt_ipset \<Rightarrow> ('s, 'x) net_op" where
  "mt_ipset_to_link_enable be K commit ips l w =
    (if il_enabled l then (MT_OK, l, w)
     else case mt_rtnl_alloc_mark_table be K (il_start_idx l) (nw_rtnl w) of (err, idx, r) \<Rightarrow>
       if err \<noteq> MT_OK then (err, l, w\<lparr>nw_rtnl := r\<rparr>)
       else case enable_steps be K commit ips (l\<lparr>il_mark := idx, il_table := idx\<rparr>) (w\<lparr>nw_rtnl := r\<rparr>) of
         (err, l1, w1) \<Rightarrow>
           if err \<noteq> MT_OK then (case teardown be K commit l1 w1 of (_, l2, w2) \<Rightarrow> (err, l2, w2))
           else (MT_OK, l1\<lparr>il_enabled := True\<rparr>, w1))"

definition mt_ipset_to_link_disable :: "bool \<Rightarrow> 's netlink \<Rightarrow> 'x committer \<Rightarrow> ('s, 'x) net_op" where
  "mt_ipset_to_link_disable be K commit l w =
    (if \<not> il_enabled l then (MT_OK, l, w)
     else teardown be K commit (l\<lparr>il_enabled := False\<rparr>) w)"

definition mt_ipset_to_link_clear_if_disabled :: "bool \<Rightarrow> 's netlink \<Rightarrow> 'x committer \<Rightarrow> ('s, 'x) net_op" where
  "mt_ipset_to_link_clear_if_disabled be K commit l w =
    (if il_enabled l then (MT_OK, l, w) else teardown be K commit l w)"

definition mt_ipset_to_link_on_link_up :: "bool \<Rightarrow> 's netlink \<Rightarrow> ('s, 'x) net_op" where
  "mt_ipset_to_link_on_link_up be K l w =
    (if \<not> il_enabled l then (MT_OK, l, w)
     else on_rtnl (insert_ip_route be K (nw_ipt4 w \<noteq> None) (nw_ipt6 w \<noteq> None)) l w)"

definition addr_change_route :: "bool \<Rightarrow> 's netlink \<Rightarrow> bool \<Rightarrow> bool \<Rightarrow> 's link_op" where
  "addr_change_route be K has4 has6 l r =
    (case mt_rtnl_link_by_name be K (il_iface l) r of (err, found, r1) \<Rightarrow>
       if err \<noteq> MT_OK then (err, l, r1)
       else case found of
         None \<Rightarrow> (MT_OK, l, r1)
       | Some li \<Rightarrow>
         fams_op has4 has6 (update_iface_route be K (li_ifindex li) (li_point_to_point li)) l r1)"

definition mt_ipset_to_link_on_addr_change :: "bool \<Rightarrow> 's netlink \<Rightarrow> ('s, 'x) net_op" where
  "mt_ipset_to_link_on_addr_change be K l w =
    (if \<not> il_enabled l \<or> il_iface l = MT_IPSET_TO_LINK_BLACKHOLE then (MT_OK, l, w)
     else on_rtnl (addr_change_route be K (nw_ipt4 w \<noteq> None) (nw_ipt6 w \<noteq> None)) l w)"

section \<open>What the kernel still holds\<close>

text \<open>
  The kernel with a record of every exchange, and an upper bound of the rules and routes the exchanges leave
  in it.  A route is told apart from others of its table by its interface index and gateway.  An addition
  that the kernel accepted (or, for a route, answered with \<^verbatim>\<open>EEXIST\<close>) puts one there; only a deletion that
  the kernel carried out, or answered by saying that there is no such rule or route, takes it away.
\<close>

definition logged :: "'s netlink \<Rightarrow> ('s \<times> (nl_request \<times> nl_reply) list) netlink" where
  "logged K =
    \<lparr>nl_execute = (\<lambda>rq (s, log). case nl_execute K rq s of (rp, s') \<Rightarrow> (rp, (s', log @ [(rq, rp)]))),
     if_nametoindex = (\<lambda>name (s, log). if_nametoindex K name s)\<rparr>"

datatype nl_obj =
    ORule inet_family u32 u32
  | ORoute inet_family rt_kind u32 "u32 option" "u8 list option"

fun mark_attr :: "rt_attr list \<Rightarrow> u32" where
  "mark_attr (FRA_FWMARK m # as) = m"
| "mark_attr (a # as) = mark_attr as"
| "mark_attr [] = 0"

fun table_attr :: "rt_attr list \<Rightarrow> u32 option" where
  "table_attr (FRA_TABLE t # as) = Some t"
| "table_attr (RTA_TABLE t # as) = Some t"
| "table_attr (a # as) = table_attr as"
| "table_attr [] = None"

fun oif_attr :: "rt_attr list \<Rightarrow> u32 option" where
  "oif_attr (RTA_OIF i # as) = Some i"
| "oif_attr (a # as) = oif_attr as"
| "oif_attr [] = None"

fun gateway_attr :: "rt_attr list \<Rightarrow> u8 list option" where
  "gateway_attr (RTA_GATEWAY g # as) = Some g"
| "gateway_attr (a # as) = gateway_attr as"
| "gateway_attr [] = None"

definition req_table :: "nl_request \<Rightarrow> u32" where
  "req_table rq = (case table_attr (rq_attrs rq) of Some t \<Rightarrow> t | None \<Rightarrow> ucast (rq_table rq))"

definition req_obj :: "nl_request \<Rightarrow> nl_obj option" where
  "req_obj rq =
    (case rq_family rq of None \<Rightarrow> None
     | Some f \<Rightarrow>
       if rq_type rq \<in> {RTM_NEWRULE, RTM_DELRULE} then Some (ORule f (mark_attr (rq_attrs rq)) (req_table rq))
       else if rq_type rq \<in> {RTM_NEWROUTE, RTM_DELROUTE}
       then Some (ORoute f (rq_kind rq) (req_table rq) (oif_attr (rq_attrs rq)) (gateway_attr (rq_attrs rq)))
       else None)"

definition deletion_done :: "nl_request \<Rightarrow> nl_reply \<Rightarrow> bool" where
  "deletion_done rq rp \<longleftrightarrow> rp_err rp = MT_OK \<and>
    (rp_code rp = E_NONE \<or> rq_type rq = RTM_DELRULE \<and> rp_code rp = ENOENT \<or>
     rq_type rq = RTM_DELROUTE \<and> rp_code rp = ESRCH)"

definition outstanding_step :: "nl_request \<times> nl_reply \<Rightarrow> nl_obj set \<Rightarrow> nl_obj set" where
  "outstanding_step e S =
    (case e of (rq, rp) \<Rightarrow>
     case req_obj rq of None \<Rightarrow> S
     | Some ob \<Rightarrow>
       if rq_type rq \<in> {RTM_DELRULE, RTM_DELROUTE} then (if deletion_done rq rp then S - {ob} else S)
       else if rp_err rp = MT_OK \<and> (rp_code rp = E_NONE \<or> rp_code rp = EEXIST \<and> rq_type rq = RTM_NEWROUTE)
       then insert ob S
       else S)"

definition outstanding :: "(nl_request \<times> nl_reply) list \<Rightarrow> nl_obj set" where
  "outstanding log = fold outstanding_step log {}"

text \<open>
  The objects among them that a link no longer knows of, by the exchange that made it so: the kernel refused
  the deletion; the deletion, or a later addition, was for a route of the same kind and table through another
  interface index or gateway; or the kernel answered a later addition by saying that there is no such
  interface.  A new addition brings the object back.
\<close>

fun same_slot :: "nl_obj \<Rightarrow> nl_obj \<Rightarrow> bool" where
  "same_slot (ORule f m t) (ORule f' m' t') = (f' = f \<and> m' = m \<and> t' = t)"
| "same_slot (ORoute f k t i g) (ORoute f' k' t' i' g') = (f' = f \<and> k' = k \<and> t' = t)"
| "same_slot _ _ = False"

definition forgotten_step :: "nl_request \<times> nl_reply \<Rightarrow> nl_obj set \<Rightarrow> nl_obj set \<Rightarrow> nl_obj set" where
  "forgotten_step e S F =
    (case e of (rq, rp) \<Rightarrow>
     case req_obj rq of None \<Rightarrow> F
     | Some ob \<Rightarrow>
       if rq_type rq \<in> {RTM_DELRULE, RTM_DELROUTE}
       then (F \<union> Set.filter (same_slot ob) S) - (if deletion_done rq rp then {ob} else {})
       else if rp_err rp \<noteq> MT_OK then F
       else if rp_code rp = E_NONE \<or> rp_code rp = EEXIST \<and> rq_type rq = RTM_NEWROUTE
       then (F \<union> Set.filter (same_slot ob) S) - {ob}
       else if rp_code rp = ENODEV \<and> rq_kind rq = RTN_UNICAST then F \<union> Set.filter (same_slot ob) S
       else F)"

definition accounts :: "(nl_request \<times> nl_reply) list \<Rightarrow> nl_obj set \<times> nl_obj set" where
  "accounts log = fold (\<lambda>e (S, F). (outstanding_step e S, forgotten_step e S F)) log ({}, {})"

definition forgotten :: "(nl_request \<times> nl_reply) list \<Rightarrow> nl_obj set" where
  "forgotten log = snd (accounts log)"

lemma accounts_snoc:
  "accounts (log @ [e]) =
   (outstanding_step e (fst (accounts log)), forgotten_step e (fst (accounts log)) (snd (accounts log)))"
  by (simp add: accounts_def split: prod.splits)

lemma accounts_outstanding: "fst (accounts log) = outstanding log"
  by (induction log rule: rev_induct) (simp_all add: accounts_snoc, simp_all add: accounts_def outstanding_def)

fun slot_mates :: "nl_obj \<Rightarrow> nl_obj set" where
  "slot_mates (ORule f m t) = {ORule f m t}"
| "slot_mates (ORoute f k t i g) = {ORoute f k t i' g' | i' g'. True}"

lemma same_slot_iff [simp]: "same_slot ob ob' \<longleftrightarrow> ob' \<in> slot_mates ob"
  by (cases ob; cases ob') auto

lemma slot_mates_refl [simp]: "ob \<in> slot_mates ob"
  by (cases ob) auto

lemma forgotten_snoc: "forgotten (log @ [e]) = forgotten_step e (outstanding log) (forgotten log)"
  by (simp add: forgotten_def accounts_snoc accounts_outstanding)

lemma outstanding_snoc: "outstanding (log @ [e]) = outstanding_step e (outstanding log)"
  by (simp add: outstanding_def)

lemma forgotten_outstanding: "forgotten log \<subseteq> outstanding log"
proof (induction log rule: rev_induct)
  case (snoc e log)
  obtain rq rp where e: "e = (rq, rp)" by fastforce
  show ?case
  proof (cases "req_obj rq")
    case None
    with snoc show ?thesis by (simp add: forgotten_snoc outstanding_snoc e outstanding_step_def forgotten_step_def)
  next
    case (Some ob)
    with snoc show ?thesis
      by (auto simp: forgotten_snoc outstanding_snoc e outstanding_step_def forgotten_step_def)
  qed
qed (simp add: forgotten_def accounts_def)

text \<open>
  Nothing is forgotten as long as the kernel refuses no deletion, never answers that an interface does not
  exist, and the routes of one kind and table are always through the same interface index and gateway.
\<close>

definition one_way :: "nl_request \<Rightarrow> nl_request \<Rightarrow> bool" where
  "one_way rq1 rq2 \<longleftrightarrow>
    (case (req_obj rq1, req_obj rq2) of (Some o1, Some o2) \<Rightarrow> same_slot o1 o2 \<longrightarrow> o2 = o1 | _ \<Rightarrow> True)"

definition undisturbed :: "(nl_request \<times> nl_reply) list \<Rightarrow> bool" where
  "undisturbed log \<longleftrightarrow>
    (\<forall>(rq, rp)\<in>set log.
       (rq_type rq \<in> {RTM_DELRULE, RTM_DELROUTE} \<longrightarrow> deletion_done rq rp) \<and>
       (rq_kind rq = RTN_UNICAST \<longrightarrow> rp_code rp \<noteq> ENODEV)) \<and>
    (\<forall>e1\<in>set log. \<forall>e2\<in>set log. one_way (fst e1) (fst e2))"

lemma outstanding_named: "ob \<in> outstanding log \<Longrightarrow> \<exists>(rq, rp)\<in>set log. req_obj rq = Some ob"
proof (induction log rule: rev_induct)
  case (snoc e log)
  obtain rq rp where e: "e = (rq, rp)" by fastforce
  have "ob \<in> outstanding log \<or> req_obj rq = Some ob"
    using snoc.prems by (auto simp: outstanding_snoc e outstanding_step_def split: option.splits if_splits)
  with snoc.IH e show ?case by auto
qed (simp add: outstanding_def)

lemma undisturbed_prefix: "undisturbed (log @ [e]) \<Longrightarrow> undisturbed log"
  unfolding undisturbed_def by auto

lemma undisturbed_forgotten: "undisturbed log \<Longrightarrow> forgotten log = {}"
proof (induction log rule: rev_induct)
  case (snoc e log)
  obtain rq rp where e: "e = (rq, rp)" by fastforce
  have IH: "forgotten log = {}" by (rule snoc.IH [OF undisturbed_prefix [OF snoc.prems]])
  show ?case
  proof (cases "req_obj rq")
    case None
    with IH show ?thesis by (simp add: forgotten_snoc e forgotten_step_def)
  next
    case (Some ob)
    have mates: "outstanding log \<inter> slot_mates ob \<subseteq> {ob}"
    proof
      fix ob' assume "ob' \<in> outstanding log \<inter> slot_mates ob"
      then obtain rq' rp' where "(rq', rp') \<in> set log" "req_obj rq' = Some ob'" "ob' \<in> slot_mates ob"
        using outstanding_named by blast
      moreover from this(1) have "one_way rq rq'" using snoc.prems unfolding undisturbed_def e by force
      ultimately show "ob' \<in> {ob}" using Some by (simp add: one_way_def)
    qed
    have "rq_type rq \<in> {RTM_DELRULE, RTM_DELROUTE} \<Longrightarrow> deletion_done rq rp"
      "rq_kind rq = RTN_UNICAST \<Longrightarrow> rp_code rp \<noteq> ENODEV"
      using snoc.prems by (auto simp: undisturbed_def e)
    with Some IH mates show ?thesis by (auto simp: forgotten_snoc e forgotten_step_def)
  qed
qed (simp add: forgotten_def accounts_def)

text \<open>What is outstanding and not forgotten; an exchange changes it by the slot of its object alone.\<close>

definition out :: "('s \<times> (nl_request \<times> nl_reply) list) mt_rtnl \<Rightarrow> nl_obj set" where
  "out r = outstanding (snd (rt_sock r)) - forgotten (snd (rt_sock r))"

definition out_step :: "nl_request \<times> nl_reply \<Rightarrow> nl_obj set \<Rightarrow> nl_obj set" where
  "out_step e S =
    (case e of (rq, rp) \<Rightarrow>
     case req_obj rq of None \<Rightarrow> S
     | Some ob \<Rightarrow>
       if rq_type rq \<in> {RTM_DELRULE, RTM_DELROUTE} then S - slot_mates ob
       else if rp_err rp \<noteq> MT_OK then S
       else if rp_code rp = E_NONE \<or> rp_code rp = EEXIST \<and> rq_type rq = RTM_NEWROUTE
       then insert ob (S - slot_mates ob)
       else if rp_code rp = ENODEV \<and> rq_kind rq = RTN_UNICAST then S - slot_mates ob
       else S)"

lemma out_step_accounts: "outstanding_step e S - forgotten_step e S F = out_step e (S - F)"
proof -
  obtain rq rp where e: "e = (rq, rp)" by fastforce
  show ?thesis
  proof (cases "req_obj rq")
    case (Some ob)
    show ?thesis by (auto simp: e Some outstanding_step_def forgotten_step_def out_step_def)
  qed (simp add: e outstanding_step_def forgotten_step_def out_step_def)
qed

lemma out_execute:
  "rt_execute (logged K) mk r = (rp, r') \<Longrightarrow> out r' = out_step (mk (rt_seq r + 1), rp) (out r)"
  by (auto simp: rt_execute_def logged_def out_def outstanding_snoc forgotten_snoc
      simp flip: out_step_accounts split: prod.splits)

lemma errno_ok [simp]: "mt_err_from_errno c = MT_OK \<longleftrightarrow> c = E_NONE"
  by (cases c) auto

lemma low_table_ucast: "table < 256 \<Longrightarrow> ucast (low_table table) = (table :: u32)"
  by (simp add: low_table_def word_unat_eq_iff unsigned_ucast_eq unsigned_take_bit_eq take_bit_nat_eq_self_iff word_less_nat_alt)

lemma req_obj_rule:
  assumes "ty \<in> {RTM_NEWRULE, RTM_DELRULE}"
  shows "req_obj (put_rule_header ty flags family table (rule_attrs mark table) sq) = Some (ORule family mark table)"
  using assms low_table_ucast [of table] by (auto simp: req_obj_def put_rule_header_def rule_attrs_def req_table_def)

text \<open>An address of length zero is not sent.\<close>

definition sent_gw :: "u8 list option \<Rightarrow> u8 list option" where
  "sent_gw gw = (case gw of None \<Rightarrow> None | Some g \<Rightarrow> if g = [] then None else Some g)"

lemma req_obj_route:
  assumes "ty \<in> {RTM_NEWROUTE, RTM_DELROUTE}"
  shows "req_obj (put_route_header ty flags family table kind (route_attrs table p) sq) =
      Some (ORoute family kind table None None)"
    "req_obj (put_route_header ty flags family table kind (iface_attrs table p oif gw) sq) =
      Some (ORoute family kind table (Some (word_of_int oif)) (sent_gw gw))"
  using assms low_table_ucast [of table]
  by (auto simp: req_obj_def put_route_header_def route_attrs_def iface_attrs_def sent_gw_def req_table_def split: option.splits)

text \<open>What each request does to it.\<close>

lemma header_simps [simp]:
  "rq_type (put_rule_header ty flags family table as sq) = ty"
  "rq_type (put_route_header ty flags family table kind as sq) = ty"
  "rq_kind (put_route_header ty flags family table kind as sq) = kind"
  "rq_kind (put_rule_header ty flags family table as sq) \<noteq> RTN_UNICAST"
  by (simp_all add: put_rule_header_def put_route_header_def)

lemma result_ok [simp]: "nl_result fine rp = MT_OK \<longleftrightarrow> rp_err rp = MT_OK \<and> (rp_code rp = E_NONE \<or> rp_code rp \<in> set fine)"
  by (auto simp: nl_result_def)

lemma out_del:
  assumes "rt_execute (logged K) mk r = (rp, r1)" "\<And>sq. req_obj (mk sq) = Some ob"
    "\<And>sq. rq_type (mk sq) \<in> {RTM_DELRULE, RTM_DELROUTE}"
  shows "out r1 = out r - slot_mates ob"
  using out_execute [OF assms(1)] assms(2,3) by (simp add: out_step_def)

lemma out_new:
  assumes "rt_execute (logged K) mk r = (rp, r1)" "\<And>sq. req_obj (mk sq) = Some ob"
    "\<And>sq. rq_type (mk sq) = ty" "ty = RTM_NEWRULE \<or> ty = RTM_NEWROUTE"
    "\<And>sq. (rq_kind (mk sq) = RTN_UNICAST) = uni"
  shows "out r1 = (if rp_err rp \<noteq> MT_OK then out r
      else if rp_code rp = E_NONE \<or> rp_code rp = EEXIST \<and> ty = RTM_NEWROUTE then insert ob (out r - slot_mates ob)
      else if rp_code rp = ENODEV \<and> uni then out r - slot_mates ob else out r)"
  using out_execute [OF assms(1)] assms(4) by (auto simp: out_step_def assms(2,3,5))

lemma out_get:
  assumes "rt_execute (logged K) mk r = (rp, r1)" "\<And>sq. rq_type (mk sq) \<in> {RTM_GETROUTE, RTM_GETRULE, RTM_GETLINK}"
  shows "out r1 = out r"
proof -
  have "req_obj (mk sq) = None" for sq using assms(2) [of sq] by (auto simp: req_obj_def split: option.splits)
  then show ?thesis using out_execute [OF assms(1)] by (simp add: out_step_def)
qed

definition routes_at :: "inet_family \<Rightarrow> rt_kind \<Rightarrow> u32 \<Rightarrow> nl_obj set" where
  "routes_at f k t = {ORoute f k t i g | i g. True}"

lemma out_rule_add:
  assumes "mt_rtnl_rule_add (logged K) family mark table r = (err, r')"
  shows "out r' = (if err = MT_OK then insert (ORule family mark table) (out r) else out r)"
proof -
  obtain rp where ex: "rt_execute (logged K) (put_rule_header RTM_NEWRULE [NLM_F_REQUEST, NLM_F_CREATE, NLM_F_EXCL, NLM_F_ACK]
       family table (rule_attrs mark table)) r = (rp, r')" "err = nl_result [E_NONE] rp"
    using assms by (auto simp: mt_rtnl_rule_add_def split: prod.splits)
  show ?thesis using out_new [OF ex(1), of "ORule family mark table" RTM_NEWRULE False] ex(2) by (simp add: req_obj_rule)
qed

lemma out_rule_del:
  assumes "mt_rtnl_rule_del (logged K) family mark table r = (err, r')"
  shows "out r' = out r - {ORule family mark table}"
proof -
  obtain rp where ex: "rt_execute (logged K) (put_rule_header RTM_DELRULE [NLM_F_REQUEST, NLM_F_ACK]
       family table (rule_attrs mark table)) r = (rp, r')"
    using assms by (auto simp: mt_rtnl_rule_del_def split: prod.splits)
  show ?thesis using out_del [OF ex, of "ORule family mark table"] by (simp add: req_obj_rule)
qed

lemma out_blackhole_add:
  assumes "mt_rtnl_route_add_blackhole (logged K) family table p r = (err, r')"
  shows "out r' = (if err = MT_OK
      then insert (ORoute family RTN_BLACKHOLE table None None) (out r - routes_at family RTN_BLACKHOLE table)
      else out r)"
proof -
  obtain rp where ex: "rt_execute (logged K) (put_route_header RTM_NEWROUTE [NLM_F_REQUEST, NLM_F_CREATE, NLM_F_EXCL, NLM_F_ACK]
       family table RTN_BLACKHOLE (route_attrs table p)) r = (rp, r')" "err = nl_result [E_NONE, EEXIST] rp"
    using assms by (auto simp: mt_rtnl_route_add_blackhole_def split: prod.splits)
  show ?thesis using out_new [OF ex(1), of "ORoute family RTN_BLACKHOLE table None None" RTM_NEWROUTE False] ex(2)
    by (simp add: req_obj_route routes_at_def)
qed

lemma out_blackhole_del:
  assumes "mt_rtnl_route_del_blackhole (logged K) family table p r = (err, r')"
  shows "out r' = out r - routes_at family RTN_BLACKHOLE table"
proof -
  obtain rp where ex: "rt_execute (logged K) (put_route_header RTM_DELROUTE [NLM_F_REQUEST, NLM_F_ACK]
       family table RTN_BLACKHOLE (route_attrs table p)) r = (rp, r')"
    using assms by (auto simp: mt_rtnl_route_del_blackhole_def split: prod.splits)
  show ?thesis using out_del [OF ex, of "ORoute family RTN_BLACKHOLE table None None"]
    by (simp add: req_obj_route routes_at_def)
qed

lemma out_iface_add:
  assumes "mt_rtnl_route_add_iface (logged K) family table p oif gw r = (err, enodev, r')"
  shows "out r' = (if err \<noteq> MT_OK then out r
      else if enodev then out r - routes_at family RTN_UNICAST table
      else insert (ORoute family RTN_UNICAST table (Some (word_of_int oif)) (sent_gw gw))
        (out r - routes_at family RTN_UNICAST table))"
proof -
  obtain rp r1 where ex: "rt_execute (logged K) (put_route_header RTM_NEWROUTE [NLM_F_REQUEST, NLM_F_CREATE, NLM_F_EXCL, NLM_F_ACK]
       family table RTN_UNICAST (iface_attrs table p oif gw)) r = (rp, r1)" by fastforce
  then have res: "r1 = r'" "(err, enodev) = (if rp_err rp \<noteq> MT_OK then (rp_err rp, False)
      else if rp_code rp = ENODEV then (MT_OK, True) else (nl_result [E_NONE, EEXIST] rp, False))"
    using assms by (auto simp: mt_rtnl_route_add_iface_def split: if_splits)
  show ?thesis using out_new [OF ex(1), of "ORoute family RTN_UNICAST table (Some (word_of_int oif)) (sent_gw gw)"
      RTM_NEWROUTE True] res
    by (simp add: req_obj_route routes_at_def split: if_splits)
qed

lemma out_iface_del:
  assumes "mt_rtnl_route_del_iface (logged K) family table p oif gw r = (err, r')"
  shows "out r' = out r - routes_at family RTN_UNICAST table"
proof -
  obtain rp where ex: "rt_execute (logged K) (put_route_header RTM_DELROUTE [NLM_F_REQUEST, NLM_F_ACK]
       family table RTN_UNICAST (iface_attrs table p oif gw)) r = (rp, r')"
    using assms by (auto simp: mt_rtnl_route_del_iface_def split: prod.splits)
  show ?thesis using out_del [OF ex, of "ORoute family RTN_UNICAST table (Some (word_of_int oif)) (sent_gw gw)"]
    by (simp add: req_obj_route routes_at_def)
qed

lemma out_link_by_name:
  assumes "mt_rtnl_link_by_name be (logged K) name r = (err, li, r')"
  shows "out r' = out r"
proof (cases "if_nametoindex (logged K) name (rt_sock r) = 0")
  case False
  let ?mk = "\<lambda>sq. \<lparr>rq_type = RTM_GETLINK, rq_flags = [NLM_F_REQUEST], rq_seq = sq, rq_family = None, rq_table = 0,
      rq_kind = RTN_UNSPEC, rq_index = sint (if_nametoindex (logged K) name (rt_sock r)), rq_attrs = []\<rparr>"
  obtain rp r1 where ex: "rt_execute (logged K) ?mk r = (rp, r1)" by fastforce
  then have "r1 = r'" using False assms by (auto simp: mt_rtnl_link_by_name_def Let_def split: if_splits)
  then show ?thesis using out_get [OF ex(1)] by simp
qed (use assms in \<open>simp add: mt_rtnl_link_by_name_def\<close>)

lemma out_gateway:
  assumes "mt_rtnl_gateway_for_iface be (logged K) family i r = (err, gw, r')"
  shows "out r' = out r"
proof -
  obtain rp r1 where ex: "rt_execute (logged K) (dump_request RTM_GETROUTE family) r = (rp, r1)" by fastforce
  then have "r1 = r'" using assms by (auto simp: mt_rtnl_gateway_for_iface_def split: if_splits)
  then show ?thesis using out_get [OF ex(1)] by (simp add: dump_request_def)
qed

lemma out_dump_families:
  assumes "dump_families (logged K) ds ctx r = (err, ctx', r')" "set (map fst ds) \<subseteq> {RTM_GETROUTE, RTM_GETRULE}"
  shows "out r' = out r"
  using assms
proof (induction "logged K" ds ctx r rule: dump_families.induct)
  case (2 type family cb ds ctx r)
  obtain e1 ctx1 r1 where d: "dump_family (logged K) type family cb ctx r = (e1, ctx1, r1)" by (rule prod_cases3)
  then obtain rp where ex: "rt_execute (logged K) (dump_request type family) r = (rp, r1)"
    by (auto simp: dump_family_def split: prod.splits)
  then have "out r1 = out r" using out_get [OF ex] 2(3) by (auto simp: dump_request_def)
  then show ?case using 2(1) [OF d [symmetric] refl] 2(2,3) d by (auto split: if_splits)
qed simp

lemma out_alloc: "mt_rtnl_alloc_mark_table be (logged K) start r = (err, idx, r') \<Longrightarrow> out r' = out r"
  by (auto simp: mt_rtnl_alloc_mark_table_def dest!: out_dump_families simp del: dump_families.simps split: prod.splits)

lemmas out_simps = out_rule_add out_rule_del out_blackhole_add out_blackhole_del out_iface_add out_iface_del
  out_link_by_name out_gateway out_alloc

section \<open>What a link owns\<close>

text \<open>
  A link records its rules and routes in its flags; of the interface route it records the gateway, not the
  interface index, which it looks up by name.
\<close>

definition recorded_gw :: "family_state \<Rightarrow> u8 list option" where
  "recorded_gw fs = sent_gw (if iface_has_gw fs then Some (fs_gw fs) else None)"

definition owned :: "mt_ipset_to_link \<Rightarrow> nl_obj set" where
  "owned l = {ORule f (il_mark l) (il_table l) | f. rule_added (fam_state f l)} \<union>
    {ORoute f RTN_BLACKHOLE (il_table l) None None | f. blackhole_added (fam_state f l)} \<union>
    {ORoute f RTN_UNICAST (il_table l) (Some i) (recorded_gw (fam_state f l)) | f i.
       iface_route_present (fam_state f l)}"

lemma fam_state_upd [simp]: "fam_state g (upd_fam f h l) = (if g = f then h (fam_state f l) else fam_state g l)"
  by (cases f; cases g) (auto simp: fam_state_def upd_fam_def)

lemma upd_fam_fields [simp]:
  "il_mark (upd_fam f h l) = il_mark l" "il_table (upd_fam f h l) = il_table l"
  "il_enabled (upd_fam f h l) = il_enabled l"
  by (auto simp: upd_fam_def split: inet_family.splits)

text \<open>
  An operation on the rules and routes is sound when it keeps the mark, the table and the enabled flag and
  leaves nothing in the kernel that the link does not own.
\<close>

definition kept :: "mt_ipset_to_link \<Rightarrow> mt_ipset_to_link \<Rightarrow> bool" where
  "kept l l' \<longleftrightarrow> il_mark l' = il_mark l \<and> il_table l' = il_table l \<and> il_enabled l' = il_enabled l"

definition sound_op :: "('s \<times> (nl_request \<times> nl_reply) list) link_op \<Rightarrow> bool" where
  "sound_op f \<longleftrightarrow>
    (\<forall>l r err l' r'. out r \<subseteq> owned l \<longrightarrow> f l r = (err, l', r') \<longrightarrow> out r' \<subseteq> owned l' \<and> kept l l')"

lemma sound_opI:
  "(\<And>l r err l' r'. out r \<subseteq> owned l \<Longrightarrow> f l r = (err, l', r') \<Longrightarrow> out r' \<subseteq> owned l' \<and> kept l l') \<Longrightarrow> sound_op f"
  unfolding sound_op_def by blast

lemma sound_opD:
  "sound_op f \<Longrightarrow> f l r = (err, l', r') \<Longrightarrow> out r \<subseteq> owned l \<Longrightarrow> out r' \<subseteq> owned l' \<and> kept l l'"
  unfolding sound_op_def by blast

lemma kept_refl [simp]: "kept l l" and kept_trans: "kept l l1 \<Longrightarrow> kept l1 l2 \<Longrightarrow> kept l l2"
  and kept_upd [simp]: "kept l (upd_fam f h l1) = kept l l1"
  by (simp_all add: kept_def)

lemma owned_upd:
  "owned (upd_fam f (rule_added_update (\<lambda>_. True)) l) = insert (ORule f (il_mark l) (il_table l)) (owned l)"
  "owned (upd_fam f (rule_added_update (\<lambda>_. False)) l) = owned l - {ORule f (il_mark l) (il_table l)}"
  "owned (upd_fam f (blackhole_added_update (\<lambda>_. True)) l) =
    insert (ORoute f RTN_BLACKHOLE (il_table l) None None) (owned l - routes_at f RTN_BLACKHOLE (il_table l))"
  "owned (upd_fam f (blackhole_added_update (\<lambda>_. False)) l) = owned l - routes_at f RTN_BLACKHOLE (il_table l)"
  "owned (upd_fam f (iface_route_present_update (\<lambda>_. False)) l) = owned l - routes_at f RTN_UNICAST (il_table l)"
  "owned (upd_fam f (\<lambda>fs. fs\<lparr>iface_route_present := True, iface_has_gw := b, fs_gw := g\<rparr>) l) =
    {ORoute f RTN_UNICAST (il_table l) (Some i) (sent_gw (if b then Some g else None)) | i. True} \<union>
    (owned l - routes_at f RTN_UNICAST (il_table l))"
  by (auto simp: owned_def routes_at_def recorded_gw_def split: if_splits)

lemma sound_then:
  assumes "sound_op f" "sound_op g"
  shows "sound_op (link_then f g)"
proof (rule sound_opI)
  fix l :: mt_ipset_to_link and r :: "('a \<times> (nl_request \<times> nl_reply) list) mt_rtnl" and err l' r'
  assume a: "out r \<subseteq> owned l" "link_then f g l r = (err, l', r')"
  obtain e1 l1 r1 where f: "f l r = (e1, l1, r1)" by (rule prod_cases3)
  obtain e2 where "g l1 r1 = (e2, l', r')" using a(2) f by (auto simp: link_then_def split: prod.splits)
  then show "out r' \<subseteq> owned l' \<and> kept l l'"
    using sound_opD [OF assms(1) f a(1)] sound_opD [OF assms(2)] kept_trans by blast
qed

lemma sound_fams:
  assumes "\<And>g. sound_op (f g)"
  shows "sound_op (fams_op has4 has6 f)"
proof (rule sound_opI)
  fix l :: mt_ipset_to_link and r :: "('a \<times> (nl_request \<times> nl_reply) list) mt_rtnl" and err l' r'
  assume a: "out r \<subseteq> owned l" "fams_op has4 has6 f l r = (err, l', r')"
  obtain e1 l1 r1 where first: "(if has4 then f AF_INET l r else (MT_OK, l, r)) = (e1, l1, r1)" by (rule prod_cases3)
  have one: "out r1 \<subseteq> owned l1 \<and> kept l l1"
  proof (cases has4)
    case True
    then have "f AF_INET l r = (e1, l1, r1)" using first by simp
    from sound_opD [OF assms this a(1)] show ?thesis .
  qed (use first a(1) in \<open>simp add: kept_def\<close>)
  show "out r' \<subseteq> owned l' \<and> kept l l'"
  proof (cases "e1 = MT_OK \<and> has6")
    case True
    then have "f AF_INET6 l1 r1 = (err, l', r')" using a(2) first by (simp add: fams_op_def)
    with sound_opD [OF assms this] one kept_trans show ?thesis by blast
  next
    case False
    then have "l' = l1" "r' = r1" using a(2) first by (auto simp: fams_op_def split: if_splits)
    with one show ?thesis by simp
  qed
qed

lemma sound_delete_rule: "sound_op (delete_rule_fam (logged K) f)"
  by (rule sound_opI) (auto simp: delete_rule_fam_def owned_upd dest!: out_rule_del split: if_splits prod.splits)

lemma sound_delete_blackhole: "sound_op (delete_blackhole_fam (logged K) f)"
  by (rule sound_opI) (auto simp: delete_blackhole_fam_def owned_upd dest!: out_blackhole_del split: if_splits prod.splits)

lemma sound_delete_iface: "sound_op (delete_iface_fam be (logged K) f)"
  by (rule sound_opI) (auto simp: delete_iface_fam_def owned_upd Let_def
      dest!: out_iface_del out_link_by_name split: if_splits prod.splits)

lemma sound_insert_blackhole: "sound_op (insert_blackhole_fam (logged K) f)"
  by (rule sound_opI) (auto simp: insert_blackhole_fam_def owned_upd dest!: out_blackhole_add split: if_splits prod.splits)

lemma sound_insert_rule: "sound_op (insert_rule_fam (logged K) f)"
  by (rule sound_opI) (auto simp: insert_rule_fam_def owned_upd dest!: out_rule_add out_rule_del split: if_splits prod.splits)

lemma sound_update_iface: "sound_op (update_iface_route be (logged K) i p2p f)"
proof (rule sound_opI)
  fix l :: mt_ipset_to_link and r :: "('a \<times> (nl_request \<times> nl_reply) list) mt_rtnl" and err l' r'
  assume own: "out r \<subseteq> owned l" and upd: "update_iface_route be (logged K) i p2p f l r = (err, l', r')"
  define fs where "fs = fam_state f l"
  obtain gw r1 where gw: "(if p2p then (None, r) else case mt_rtnl_gateway_for_iface be (logged K) f i r of (err, gw, r') \<Rightarrow>
      (if err \<noteq> MT_OK then None else gw, r')) = (gw, r1)" by fastforce
  then have r1: "out r1 \<subseteq> owned l" using own by (auto dest!: out_gateway split: if_splits prod.splits)
  obtain err1 l1 r2 where del: "(if iface_route_present fs \<and> gw \<noteq> None
      then (case mt_rtnl_route_del_iface (logged K) f (il_table l) 10 i
              (if iface_has_gw fs then Some (fs_gw fs) else None) r1 of (err, r') \<Rightarrow>
              if err \<noteq> MT_OK then (err, l, r')
              else (MT_OK, upd_fam f (\<lambda>fs. fs\<lparr>iface_route_present := False\<rparr>) l, r'))
      else (MT_OK, l, r1)) = (err1, l1, r2)" by (rule prod_cases3)
  have sub: "out r2 \<subseteq> owned l1 \<and> kept l l1"
  proof (cases "iface_route_present fs \<and> gw \<noteq> None")
    case True
    obtain e r'' where d: "mt_rtnl_route_del_iface (logged K) f (il_table l) 10 i
        (if iface_has_gw fs then Some (fs_gw fs) else None) r1 = (e, r'')" by fastforce
    have "(err1, l1, r2) = (if e \<noteq> MT_OK then (e, l, r'')
        else (MT_OK, upd_fam f (\<lambda>fs. fs\<lparr>iface_route_present := False\<rparr>) l, r''))"
      using del True d by simp
    then show ?thesis using out_iface_del [OF d] r1 by (cases "e = MT_OK") (auto simp: owned_upd)
  next
    case False
    then have "(MT_OK, l, r1) = (err1, l1, r2)" using del by (simp only: if_False)
    then show ?thesis using r1 by simp
  qed
  obtain err2 enodev r3 where add: "mt_rtnl_route_add_iface (logged K) f (il_table l) 10 i gw r2 = (err2, enodev, r3)"
    by (rule prod_cases3)
  have eq: "(err, l', r') =
     (if iface_route_present fs \<and> (gw \<noteq> None) = iface_has_gw fs \<and> (gw = None \<or> gw = Some (fs_gw fs))
      then (MT_OK, l, r1) else if err1 \<noteq> MT_OK then (err1, l1, r2)
      else if err2 \<noteq> MT_OK then (err2, l1, r3)
      else if enodev then (MT_OK, upd_fam f (\<lambda>fs. fs\<lparr>iface_route_present := False\<rparr>) l1, r3)
      else (MT_OK, upd_fam f (\<lambda>fs. fs\<lparr>iface_route_present := True, iface_has_gw := (gw \<noteq> None),
              fs_gw := (case gw of None \<Rightarrow> [] | Some g \<Rightarrow> g)\<rparr>) l1, r3))"
    using upd unfolding update_iface_route_def fs_def [symmetric] Let_def gw prod.case del add by simp
  let ?U = "routes_at f RTN_UNICAST (il_table l1)"
  have "out r3 \<subseteq> (if err2 \<noteq> MT_OK then owned l1 else if enodev then owned l1 - ?U
      else insert (ORoute f RTN_UNICAST (il_table l1) (Some (word_of_int i)) (sent_gw gw)) (owned l1 - ?U))"
    using sub out_iface_add [OF add] by (auto simp: kept_def)
  moreover have "sent_gw (if gw \<noteq> None then Some (case gw of None \<Rightarrow> [] | Some g \<Rightarrow> g) else None) = sent_gw gw"
    by (cases gw) simp_all
  ultimately show "out r' \<subseteq> owned l' \<and> kept l l'"
    using eq r1 sub by (auto simp: owned_upd kept_def split: if_splits)
qed

lemma sound_insert_route: "sound_op (insert_ip_route be (logged K) has4 has6)"
proof (rule sound_opI)
  fix l :: mt_ipset_to_link and r :: "('a \<times> (nl_request \<times> nl_reply) list) mt_rtnl" and err l' r'
  assume own: "out r \<subseteq> owned l" and ins: "insert_ip_route be (logged K) has4 has6 l r = (err, l', r')"
  obtain e1 l1 r1 where bh: "fams_op has4 has6 (insert_blackhole_fam (logged K)) l r = (e1, l1, r1)" by (rule prod_cases3)
  obtain e2 li r2 where link: "mt_rtnl_link_by_name be (logged K) (il_iface l) r1 = (e2, li, r2)" by (rule prod_cases3)
  have own1: "out r1 \<subseteq> owned l1" "kept l l1" "out r2 \<subseteq> owned l1"
    using sound_opD [OF sound_fams [OF sound_insert_blackhole] bh own] out_link_by_name [OF link] by simp_all
  show "out r' \<subseteq> owned l' \<and> kept l l'"
  proof (cases "\<exists>i. e1 = MT_OK \<and> il_iface l \<noteq> MT_IPSET_TO_LINK_BLACKHOLE \<and> e2 = MT_OK \<and> li = Some i \<and> li_up i")
    case True
    then obtain i where i: "e1 = MT_OK" "il_iface l \<noteq> MT_IPSET_TO_LINK_BLACKHOLE" "e2 = MT_OK" "li = Some i" "li_up i"
      by blast
    then have "fams_op has4 has6 (update_iface_route be (logged K) (li_ifindex i) (li_point_to_point i)) l1 r2 = (err, l', r')"
      using ins unfolding insert_ip_route_def bh prod.case link by simp
    from sound_opD [OF sound_fams [OF sound_update_iface] this own1(3)] own1(2) kept_trans show ?thesis by blast
  next
    case False
    then have "l' = l1 \<and> (r' = r1 \<or> r' = r2)"
      using ins unfolding insert_ip_route_def bh prod.case link by (auto split: if_splits option.splits)
    with own1 show ?thesis by blast
  qed
qed

lemma sound_addr_change: "sound_op (addr_change_route be (logged K) has4 has6)"
proof (rule sound_opI)
  fix l :: mt_ipset_to_link and r :: "('a \<times> (nl_request \<times> nl_reply) list) mt_rtnl" and err l' r'
  assume own: "out r \<subseteq> owned l" and ins: "addr_change_route be (logged K) has4 has6 l r = (err, l', r')"
  obtain e2 li r2 where link: "mt_rtnl_link_by_name be (logged K) (il_iface l) r = (e2, li, r2)" by (rule prod_cases3)
  have own1: "out r2 \<subseteq> owned l" using own out_link_by_name [OF link] by simp
  show "out r' \<subseteq> owned l' \<and> kept l l'"
  proof (cases "\<exists>i. e2 = MT_OK \<and> li = Some i")
    case True
    then obtain i where "e2 = MT_OK" "li = Some i" by blast
    then have "fams_op has4 has6 (update_iface_route be (logged K) (li_ifindex i) (li_point_to_point i)) l r2 = (err, l', r')"
      using ins unfolding addr_change_route_def prod.case link by simp
    from sound_opD [OF sound_fams [OF sound_update_iface] this own1] show ?thesis .
  next
    case False
    then have "l' = l \<and> r' = r2"
      using ins unfolding addr_change_route_def prod.case link by (auto split: if_splits option.splits)
    with own1 show ?thesis by simp
  qed
qed

lemmas sound_rules = sound_then [OF sound_delete_rule sound_delete_rule] sound_fams [OF sound_insert_rule]
lemmas sound_delete_route =
  sound_then [OF sound_then [OF sound_delete_iface sound_delete_iface] sound_then [OF sound_delete_blackhole sound_delete_blackhole]]

text \<open>A teardown clears every flag, whatever the kernel answers.\<close>

lemma delete_fam_result:
  "delete_rule_fam K f l r = (err, l', r') \<Longrightarrow> l' = upd_fam f (rule_added_update (\<lambda>_. False)) l"
  "delete_blackhole_fam K f l r = (err, l', r') \<Longrightarrow> l' = upd_fam f (blackhole_added_update (\<lambda>_. False)) l"
  "delete_iface_fam be K f l r = (err, l', r') \<Longrightarrow> l' = upd_fam f (iface_route_present_update (\<lambda>_. False)) l"
  by (auto simp: delete_rule_fam_def delete_blackhole_fam_def delete_iface_fam_def Let_def fam_state_def upd_fam_def
      split: if_splits prod.splits inet_family.splits)

lemma then_result:
  assumes "link_then f g l r = (err, l', r')"
  obtains e1 l1 r1 e2 where "f l r = (e1, l1, r1)" "g l1 r1 = (e2, l', r')"
  using assms by (auto simp: link_then_def split: prod.splits)

lemma delete_route_clears:
  assumes "delete_ip_route be K l r = (err, l', r')"
  shows "\<not> blackhole_added (fam_state f l')" "\<not> iface_route_present (fam_state f l')"
  using assms unfolding delete_ip_route_def
  by (cases f; auto elim!: then_result dest!: delete_fam_result)+

lemma delete_rule_clears:
  assumes "delete_ip_rule K l r = (err, l', r')"
  shows "\<not> rule_added (fam_state f l')"
    "blackhole_added (fam_state f l') = blackhole_added (fam_state f l)"
    "iface_route_present (fam_state f l') = iface_route_present (fam_state f l)"
  using assms unfolding delete_ip_rule_def by (cases f; auto elim!: then_result dest!: delete_fam_result)+

lemma owned_empty:
  assumes "\<And>f. \<not> rule_added (fam_state f l) \<and> \<not> blackhole_added (fam_state f l) \<and> \<not> iface_route_present (fam_state f l)"
  shows "owned l = {}"
  using assms by (auto simp: owned_def)

type_synonym 's log_state = "'s \<times> (nl_request \<times> nl_reply) list"

lemma teardown_owned:
  assumes "teardown be (logged K) commit l w = (err, l', w')" "out (nw_rtnl w) \<subseteq> owned l"
  shows "owned l' = {} \<and> out (nw_rtnl w') = {} \<and> kept l l'"
proof -
  obtain e1 l1 r1 where d1: "delete_ip_route be (logged K) l (nw_rtnl w) = (e1, l1, r1)" by (rule prod_cases3)
  obtain e2 l2 r2 where d2: "delete_ip_rule (logged K) l1 r1 = (e2, l2, r2)" by (rule prod_cases3)
  have eq: "l' = l2" "nw_rtnl w' = r2"
    using assms(1) d1 d2 by (auto simp: teardown_def on_rtnl_def split: prod.splits)
  have s1: "out r1 \<subseteq> owned l1 \<and> kept l l1"
    using sound_opD [OF sound_delete_route d1 [unfolded delete_ip_route_def] assms(2)] .
  have s2: "out r2 \<subseteq> owned l2 \<and> kept l1 l2"
    using sound_opD [OF sound_rules(1) d2 [unfolded delete_ip_rule_def]] s1 by blast
  have "owned l2 = {}"
    by (rule owned_empty) (simp add: delete_rule_clears [OF d2] delete_route_clears [OF d1])
  then show ?thesis using s1 s2 eq kept_trans by auto
qed

lemma enable_steps_owned:
  assumes "enable_steps be (logged K) commit ips l w = (err, l', w')" "out (nw_rtnl w) \<subseteq> owned l"
  shows "out (nw_rtnl w') \<subseteq> owned l' \<and> kept l l'"
proof -
  let ?has4 = "nw_ipt4 w \<noteq> None" and ?has6 = "nw_ipt6 w \<noteq> None"
  obtain e1 l1 r1 where d1: "insert_ip_rule (logged K) ?has4 ?has6 l (nw_rtnl w) = (e1, l1, r1)" by (rule prod_cases3)
  obtain e2 l2 r2 where d2: "insert_ip_route be (logged K) ?has4 ?has6 l1 r1 = (e2, l2, r2)" by (rule prod_cases3)
  have eq: "l' = l1 \<and> nw_rtnl w' = r1 \<or> l' = l2 \<and> nw_rtnl w' = r2"
    using assms(1) unfolding enable_steps_def on_rtnl_def Let_def d1 prod.case
    by (auto simp: d2 simp del: not_None_eq split: if_splits prod.splits)
  have s1: "out r1 \<subseteq> owned l1 \<and> kept l l1"
    using sound_opD [OF sound_rules(2) d1 [unfolded insert_ip_rule_def] assms(2)] .
  have s2: "out r2 \<subseteq> owned l2 \<and> kept l1 l2"
    using sound_opD [OF sound_insert_route d2] s1 by blast
  from eq s1 s2 kept_trans show ?thesis by blast
qed

section \<open>Nothing is forgotten\<close>

text \<open>
  The operations of a link, in any order, between arbitrary changes of the kernel and of the engines by
  others (the engines are shared by all groups).
\<close>

inductive link_step ::
  "bool \<Rightarrow> 's netlink \<Rightarrow> 'x committer \<Rightarrow> mt_ipset_to_link \<times> ('s log_state, 'x) net \<Rightarrow>
   mt_ipset_to_link \<times> ('s log_state, 'x) net \<Rightarrow> bool"
  for be K commit where
  enable: "mt_ipset_to_link_enable be (logged K) commit ips l w = (err, l', w') \<Longrightarrow>
    link_step be K commit (l, w) (l', w')"
| disable: "mt_ipset_to_link_disable be (logged K) commit l w = (err, l', w') \<Longrightarrow>
    link_step be K commit (l, w) (l', w')"
| clear: "mt_ipset_to_link_clear_if_disabled be (logged K) commit l w = (err, l', w') \<Longrightarrow>
    link_step be K commit (l, w) (l', w')"
| link_up: "mt_ipset_to_link_on_link_up be (logged K) l w = (err, l', w') \<Longrightarrow>
    link_step be K commit (l, w) (l', w')"
| addr_change: "mt_ipset_to_link_on_addr_change be (logged K) l w = (err, l', w') \<Longrightarrow>
    link_step be K commit (l, w) (l', w')"
| prepare: "mt_ipset_to_link_prepare_iptables ips l w = (err, w') \<Longrightarrow> link_step be K commit (l, w) (l, w')"
| others: "snd (rt_sock (nw_rtnl w')) = snd (rt_sock (nw_rtnl w)) \<Longrightarrow> link_step be K commit (l, w) (l, w')"

definition link_init :: "mt_ipset_to_link \<times> ('s log_state, 'x) net \<Rightarrow> bool" where
  "link_init s \<longleftrightarrow> (\<exists>chain iface idx. fst s = mt_ipset_to_link_new chain iface idx) \<and> snd (rt_sock (nw_rtnl (snd s))) = []"

definition link_inv :: "mt_ipset_to_link \<times> ('s log_state, 'x) net \<Rightarrow> bool" where
  "link_inv s \<longleftrightarrow> out (nw_rtnl (snd s)) \<subseteq> owned (fst s) \<and> (\<not> il_enabled (fst s) \<longrightarrow> owned (fst s) = {})"

lemma fam_state_fields [simp]:
  "fam_state f (l\<lparr>il_enabled := b\<rparr>) = fam_state f l"
  "fam_state f (l\<lparr>il_mark := m, il_table := t\<rparr>) = fam_state f l"
  by (simp_all add: fam_state_def split: inet_family.splits)

lemma owned_fields [simp]: "owned (l\<lparr>il_enabled := b\<rparr>) = owned l"
  by (simp add: owned_def)

lemma owned_empty_iff:
  "owned l = {} \<longleftrightarrow> (\<forall>f. \<not> rule_added (fam_state f l) \<and> \<not> blackhole_added (fam_state f l) \<and> \<not> iface_route_present (fam_state f l))"
proof
  assume none: "owned l = {}"
  show "\<forall>f. \<not> rule_added (fam_state f l) \<and> \<not> blackhole_added (fam_state f l) \<and> \<not> iface_route_present (fam_state f l)"
  proof
    fix f
    have "ORule f (il_mark l) (il_table l) \<notin> owned l" "ORoute f RTN_BLACKHOLE (il_table l) None None \<notin> owned l"
      "ORoute f RTN_UNICAST (il_table l) (Some 0) (recorded_gw (fam_state f l)) \<notin> owned l"
      using none by simp_all
    then show "\<not> rule_added (fam_state f l) \<and> \<not> blackhole_added (fam_state f l) \<and> \<not> iface_route_present (fam_state f l)"
      by (auto simp: owned_def)
  qed
qed (simp add: owned_def)

lemma link_inv_sound:
  assumes "sound_op f" "on_rtnl f l w = (err, l', w')" "link_inv (l, w)" "il_enabled l"
  shows "link_inv (l', w')"
proof -
  obtain r' where "f l (nw_rtnl w) = (err, l', r')" "nw_rtnl w' = r'"
    using assms(2) by (auto simp: on_rtnl_def split: prod.splits)
  then show ?thesis using sound_opD [OF assms(1)] assms(3,4) by (auto simp: link_inv_def kept_def)
qed

lemma link_inv_enable:
  assumes "link_inv (l, w)" "mt_ipset_to_link_enable be (logged K) commit ips l w = (err, l', w')"
  shows "link_inv (l', w') \<and> (err \<noteq> MT_OK \<longrightarrow> \<not> il_enabled l') \<and> (err = MT_OK \<longrightarrow> il_enabled l')"
proof (cases "il_enabled l")
  case True
  then show ?thesis using assms by (simp add: mt_ipset_to_link_enable_def)
next
  case False
  obtain e1 idx r1 where alloc: "mt_rtnl_alloc_mark_table be (logged K) (il_start_idx l) (nw_rtnl w) = (e1, idx, r1)"
    by (rule prod_cases3)
  have none: "owned l = {}" "out r1 = {}" using assms(1) False out_alloc [OF alloc] by (auto simp: link_inv_def)
  define l0 where "l0 = l\<lparr>il_mark := idx, il_table := idx\<rparr>"
  have l0: "\<not> il_enabled l0" "owned l0 = {}"
    using False none(1) unfolding l0_def owned_empty_iff by simp_all
  obtain e2 l1 w1 where st: "enable_steps be (logged K) commit ips l0 (w\<lparr>nw_rtnl := r1\<rparr>) = (e2, l1, w1)"
    by (rule prod_cases3)
  have s1: "out (nw_rtnl w1) \<subseteq> owned l1" "kept l0 l1"
    using enable_steps_owned [OF st] none(2) by simp_all
  obtain e3 l2 w2 where td: "teardown be (logged K) commit l1 w1 = (e3, l2, w2)" by (rule prod_cases3)
  have eq: "(err, l', w') = (if e1 \<noteq> MT_OK then (e1, l, w\<lparr>nw_rtnl := r1\<rparr>)
      else if e2 \<noteq> MT_OK then (e2, l2, w2) else (MT_OK, l1\<lparr>il_enabled := True\<rparr>, w1))"
    using assms(2) False unfolding mt_ipset_to_link_enable_def alloc prod.case l0_def [symmetric] st td by simp
  show ?thesis using eq none False l0 s1 teardown_owned [OF td s1(1)]
    by (auto simp: link_inv_def kept_def split: if_splits)
qed

lemma link_inv_step:
  assumes inv: "link_inv s" and "link_step be K commit s t"
  shows "link_inv t"
  using assms(2)
proof cases
  case (disable l w err l' w')
  with inv show ?thesis using teardown_owned [of be K commit "l\<lparr>il_enabled := False\<rparr>" w err l' w']
    by (auto simp: mt_ipset_to_link_disable_def link_inv_def split: if_splits)
next
  case (clear l w err l' w')
  with inv show ?thesis using teardown_owned [of be K commit l w err l' w']
    by (auto simp: mt_ipset_to_link_clear_if_disabled_def link_inv_def split: if_splits)
next
  case (link_up l w err l' w')
  with inv show ?thesis using link_inv_sound [OF sound_insert_route]
    by (auto simp: mt_ipset_to_link_on_link_up_def split: if_splits)
next
  case (addr_change l w err l' w')
  with inv show ?thesis using link_inv_sound [OF sound_addr_change]
    by (auto simp: mt_ipset_to_link_on_addr_change_def split: if_splits)
next
  case (prepare ips l w err w')
  then have "nw_rtnl w' = nw_rtnl w"
    by (auto simp: mt_ipset_to_link_prepare_iptables_def split: if_splits prod.splits)
  with prepare inv show ?thesis by (simp add: link_inv_def)
next
  case (others w' w l)
  with inv show ?thesis by (simp add: link_inv_def out_def)
qed (use inv link_inv_enable in blast)

interpretation links: invariant_system link_init "link_step be K commit" link_inv for be K commit
proof
  show "link_inv s" if "link_init s" for s :: "mt_ipset_to_link \<times> ('s log_state, 'x) net"
    using that by (auto simp: link_init_def link_inv_def out_def outstanding_def forgotten_def accounts_def owned_def mt_ipset_to_link_new_def
        fam_state_def no_family_state_def split: inet_family.splits)
qed (rule link_inv_step)

text \<open>
  C20.  What a link leaves in the kernel, whatever the kernel answers and whoever else changes it in between.
  Every rule and route that the kernel accepted and has not reported deleted is on record in the link's
  flags, or was forgotten for one of three reasons: the kernel refused its deletion, the link went on with
  another interface index or gateway, or the kernel said that the interface does not exist.  When the link
  is not enabled, and after an enable that fails half-way, only forgotten ones are left; and if none of the
  three has happened in the link's history, nothing is left at all.
\<close>

theorem link_leftovers_accounted:
  assumes "reachable link_init (link_step be K commit) (l, w)" and "log = snd (rt_sock (nw_rtnl w))"
  shows "outstanding log \<subseteq> owned l \<union> forgotten log \<and>
    (\<not> il_enabled l \<longrightarrow> outstanding log = forgotten log) \<and>
    (undisturbed log \<longrightarrow> forgotten log = {}) \<and>
    (\<forall>ips err l' w'. mt_ipset_to_link_enable be (logged K) commit ips l w = (err, l', w') \<longrightarrow> err \<noteq> MT_OK \<longrightarrow>
       \<not> il_enabled l' \<and>
       outstanding (snd (rt_sock (nw_rtnl w'))) = forgotten (snd (rt_sock (nw_rtnl w'))) \<and>
       (undisturbed (snd (rt_sock (nw_rtnl w'))) \<longrightarrow> outstanding (snd (rt_sock (nw_rtnl w'))) = {}))"
proof -
  have inv: "link_inv (l, w)" by (rule links.reachable_inv [OF assms(1)])
  have "\<not> il_enabled l' \<and>
      outstanding (snd (rt_sock (nw_rtnl w'))) = forgotten (snd (rt_sock (nw_rtnl w')))"
    if "mt_ipset_to_link_enable be (logged K) commit ips l w = (err, l', w')" "err \<noteq> MT_OK" for ips err l' w'
    using link_inv_enable [OF inv that(1)] that(2) forgotten_outstanding by (auto simp: link_inv_def out_def)
  moreover have "outstanding log \<subseteq> owned l \<union> forgotten log" "\<not> il_enabled l \<longrightarrow> outstanding log = forgotten log"
    using inv forgotten_outstanding [of log] by (auto simp: link_inv_def out_def assms(2))
  ultimately show ?thesis by (simp add: undisturbed_forgotten)
qed

text \<open>An engine whose base chains were never registered: the enable fails after the rule and the route.\<close>

definition ex_net :: "(unit log_state, unit) net" where
  "ex_net = \<lparr>nw_rtnl = \<lparr>rt_sock = ((), []), rt_seq = 0\<rparr>, nw_ipt4 = Some ([], ()), nw_ipt6 = None\<rparr>"

lemma ex_enable_fails:
  "case mt_ipset_to_link_enable False (logged ex_netlink) (\<lambda>ipt x. (MT_OK, x)) (mt_ipset_new ''g'')
      (mt_ipset_to_link_new ''MT_g'' ''nwg0'' 100) ex_net of (err, l', w') \<Rightarrow>
    err = MT_ERR_STATE \<and> undisturbed (snd (rt_sock (nw_rtnl w'))) \<and>
    [req_obj rq. (rq, rp) \<leftarrow> snd (rt_sock (nw_rtnl w')), rq_type rq = RTM_NEWROUTE] =
      [Some (ORoute AF_INET RTN_BLACKHOLE 102 None None)]"
  by code_simp

theorem link_leftovers_accounted_witness:
  "\<exists>l' w'. mt_ipset_to_link_enable False (logged ex_netlink) (\<lambda>ipt x. (MT_OK, x)) (mt_ipset_new ''g'')
      (mt_ipset_to_link_new ''MT_g'' ''nwg0'' 100) ex_net = (MT_ERR_STATE, l', w') \<and>
    outstanding (snd (rt_sock (nw_rtnl w'))) = {}"
proof -
  have reach: "reachable link_init (link_step False ex_netlink (\<lambda>ipt x. (MT_OK, x))) (mt_ipset_to_link_new ''MT_g'' ''nwg0'' 100, ex_net)"
    by (rule reachable.reach_init) (auto simp: link_init_def ex_net_def)
  obtain l' w' where en: "mt_ipset_to_link_enable False (logged ex_netlink) (\<lambda>ipt x. (MT_OK, x)) (mt_ipset_new ''g'')
      (mt_ipset_to_link_new ''MT_g'' ''nwg0'' 100) ex_net = (MT_ERR_STATE, l', w')"
    and calm: "undisturbed (snd (rt_sock (nw_rtnl w')))"
    using ex_enable_fails by (auto split: prod.splits)
  have "outstanding (snd (rt_sock (nw_rtnl w'))) = {}"
    using link_leftovers_accounted [OF reach refl] en calm by blast
  with en show ?thesis by blast
qed

end
