(* ===== verification/Netfilter_Chains.thy ===== *)
theory Netfilter_Chains
  imports Ipset_To_Link
begin

text \<open>
  The clients of the iptables engine: \<^verbatim>\<open>src/netfilter/port_remap.c\<close> (the redirection of DNS requests to
  the program's own port), \<^verbatim>\<open>src/netfilter/cleaner.c\<close> (removal of everything a previous run left behind, and
  registration of the base chains) and the chains of \<^verbatim>\<open>ipset_to_link.c\<close>, taken together with the engine and
  the in-memory backend: what a client stages is what the tables contain after its commit.
\<close>

section \<open>Redirection of DNS\<close>

text \<open>
  An address of the router is its 4 or 16 bytes; \<open>ntop\<close> is \<^verbatim>\<open>inet_ntop\<close>.  The address family of an engine
  (\<^verbatim>\<open>mt_ipt_proto\<close>) is an argument: the engine for IPv4 is created with the one, that for IPv6 with the other.
\<close>

record mt_port_remap =
  pr_chain :: string
  pr_addrs :: "u8 list list"
  pr_from :: u16
  pr_to :: u16
  pr_enabled :: bool

definition mt_port_remap_new :: "string \<Rightarrow> u16 \<Rightarrow> u16 \<Rightarrow> u8 list list \<Rightarrow> mt_port_remap" where
  "mt_port_remap_new chain_prefix from to addrs =
    \<lparr>pr_chain = chain_prefix @ ''DNSOR'', pr_addrs = addrs, pr_from = from, pr_to = to, pr_enabled = False\<rparr>"

definition remap_matches :: "inet_family \<Rightarrow> u8 list \<Rightarrow> bool" where
  "remap_matches proto ip = (length ip = (case proto of AF_INET \<Rightarrow> 4 | AF_INET6 \<Rightarrow> 16))"

definition remap_args :: "(u8 list \<Rightarrow> string) \<Rightarrow> mt_port_remap \<Rightarrow> string \<Rightarrow> u8 list \<Rightarrow> string list" where
  "remap_args ntop p l4 ip =
    [''-p'', l4, ''-d'', ntop ip, ''--dport'', c_dec (unat (pr_from p)), ''-j'', ''DNAT'', ''--to-destination'',
     CHR '':'' # c_dec (unat (pr_to p))]"

definition st_insert :: "string \<Rightarrow> string \<Rightarrow> string list \<Rightarrow> mt_ipt \<Rightarrow> mt_err \<times> mt_ipt" where
  "st_insert table chain args ipt = mt_ipt_insert ipt table chain 1 (map Some args)"

definition build_rules ::
  "(u8 list \<Rightarrow> string) \<Rightarrow> mt_port_remap \<Rightarrow> inet_family \<Rightarrow> mt_ipt \<Rightarrow> mt_err \<times> mt_ipt" where
  "build_rules ntop p proto ipt =
    stage_all
     ([st_override ''nat'' (pr_chain p)] @
      concat (map (\<lambda>ip. [st_append ''nat'' (pr_chain p) (remap_args ntop p ''tcp'' ip),
                          st_append ''nat'' (pr_chain p) (remap_args ntop p ''udp'' ip)])
        (filter (remap_matches proto) (pr_addrs p))) @
      [st_insert ''nat'' ''PREROUTING'' [''-j'', pr_chain p]]) ipt"

definition insert_rules ::
  "(u8 list \<Rightarrow> string) \<Rightarrow> 'x committer \<Rightarrow> mt_port_remap \<Rightarrow> inet_family \<Rightarrow> 'x engine \<Rightarrow> mt_err \<times> 'x engine" where
  "insert_rules ntop commit p proto eng =
    (case eng of None \<Rightarrow> (MT_OK, None)
     | Some (ipt, x) \<Rightarrow>
       (case build_rules ntop p proto ipt of (err, ipt') \<Rightarrow>
          if err \<noteq> MT_OK then (err, Some (ipt', x))
          else (case commit ipt' x of (err', x') \<Rightarrow> (err', Some (ipt', x')))))"

definition remap_prepare_one ::
  "(u8 list \<Rightarrow> string) \<Rightarrow> mt_port_remap \<Rightarrow> inet_family \<Rightarrow> 'x engine \<Rightarrow> mt_err \<times> 'x engine" where
  "remap_prepare_one ntop p proto eng =
    (case eng of None \<Rightarrow> (MT_OK, None)
     | Some (ipt, x) \<Rightarrow> (case build_rules ntop p proto ipt of (err, ipt') \<Rightarrow> (err, Some (ipt', x))))"

definition mt_port_remap_prepare_iptables ::
  "(u8 list \<Rightarrow> string) \<Rightarrow> mt_port_remap option \<Rightarrow> 'x engine \<Rightarrow> 'x engine \<Rightarrow> mt_err \<times> 'x engine \<times> 'x engine" where
  "mt_port_remap_prepare_iptables ntop po eng4 eng6 =
    (case po of None \<Rightarrow> (MT_OK, eng4, eng6)
     | Some p \<Rightarrow>
       if \<not> pr_enabled p then (MT_OK, eng4, eng6)
       else case remap_prepare_one ntop p AF_INET eng4 of (e4, eng4') \<Rightarrow>
         case remap_prepare_one ntop p AF_INET6 eng6 of (e6, eng6') \<Rightarrow>
           (if e4 \<noteq> MT_OK then e4 else e6, eng4', eng6'))"

definition delete_rules :: "'x committer \<Rightarrow> mt_port_remap \<Rightarrow> 'x engine \<Rightarrow> mt_err \<times> 'x engine" where
  "delete_rules commit p eng =
    (case eng of None \<Rightarrow> (MT_OK, None)
     | Some (ipt, x) \<Rightarrow>
       (case mt_ipt_delete (mt_ipt_register_chain_delete ipt ''nat'' (pr_chain p)) ''nat'' ''PREROUTING''
               [Some ''-j'', Some (pr_chain p)] of (first_err, ipt') \<Rightarrow>
          (case commit ipt' x of (err, x') \<Rightarrow> (first_of first_err err, Some (ipt', x')))))"

definition mt_port_remap_enable ::
  "(u8 list \<Rightarrow> string) \<Rightarrow> 'x committer \<Rightarrow> mt_port_remap \<Rightarrow> 'x engine \<Rightarrow> 'x engine \<Rightarrow>
   mt_err \<times> mt_port_remap \<times> 'x engine \<times> 'x engine" where
  "mt_port_remap_enable ntop commit p eng4 eng6 =
    (if pr_enabled p then (MT_OK, p, eng4, eng6)
     else case insert_rules ntop commit p AF_INET eng4 of (e4, eng4') \<Rightarrow>
       case (if e4 = MT_OK then insert_rules ntop commit p AF_INET6 eng6 else (e4, eng6)) of (err, eng6') \<Rightarrow>
         if err \<noteq> MT_OK
         then (err, p, snd (delete_rules commit p eng4'), snd (delete_rules commit p eng6'))
         else (MT_OK, p\<lparr>pr_enabled := True\<rparr>, eng4', eng6'))"

definition mt_port_remap_disable ::
  "'x committer \<Rightarrow> mt_port_remap \<Rightarrow> 'x engine \<Rightarrow> 'x engine \<Rightarrow> mt_err \<times> mt_port_remap \<times> 'x engine \<times> 'x engine" where
  "mt_port_remap_disable commit p eng4 eng6 =
    (if \<not> pr_enabled p then (MT_OK, p, eng4, eng6)
     else case delete_rules commit p eng4 of (e1, eng4') \<Rightarrow>
       case delete_rules commit p eng6 of (e2, eng6') \<Rightarrow>
         (if e1 \<noteq> MT_OK then e1 else e2, p\<lparr>pr_enabled := False\<rparr>, eng4', eng6'))"

section \<open>Cleaning\<close>

text \<open>The jump that is searched for is printed into a buffer of 128 bytes.\<close>

definition clean_jump :: "string \<Rightarrow> string" where
  "clean_jump chain_prefix = take 127 (''-j '' @ chain_prefix)"

fun clean_rules :: "string \<Rightarrow> string \<Rightarrow> string \<Rightarrow> mt_ipt_rule list \<Rightarrow> mt_ipt \<Rightarrow> mt_err \<times> mt_ipt" where
  "clean_rules jump table chain [] ipt = (MT_OK, ipt)"
| "clean_rules jump table chain (r # rs) ipt =
    (if \<not> mt_ipt_rule_contains r jump then clean_rules jump table chain rs ipt
     else case mt_ipt_delete ipt table chain (map Some r) of (err, ipt1) \<Rightarrow>
       case (if mt_ipt_err_is_chain_not_initialized err
             then mt_ipt_delete (mt_ipt_register_chain_patch ipt1 table chain) table chain (map Some r)
             else (err, ipt1)) of (err, ipt2) \<Rightarrow>
         if err \<noteq> MT_OK then (err, ipt2) else clean_rules jump table chain rs ipt2)"

definition clean_chain :: "string \<Rightarrow> string \<Rightarrow> string \<Rightarrow> mt_ipt_rule list \<Rightarrow> mt_ipt \<Rightarrow> mt_err \<times> mt_ipt" where
  "clean_chain chain_prefix table chain rs ipt =
    (if take (length chain_prefix) chain = chain_prefix then (MT_OK, mt_ipt_register_chain_delete ipt table chain)
     else clean_rules (clean_jump chain_prefix) table chain rs ipt)"

definition clean_tables :: "string \<Rightarrow> rules_snapshot \<Rightarrow> mt_ipt \<Rightarrow> mt_err \<times> mt_ipt" where
  "clean_tables chain_prefix snap =
    stage_all (concat (map (\<lambda>(t, chs). map (\<lambda>(n, rs). clean_chain chain_prefix t n rs) chs) snap))"

definition clean_one ::
  "('x \<Rightarrow> mt_err + rules_snapshot) \<Rightarrow> 'x committer \<Rightarrow> string \<Rightarrow> 'x engine \<Rightarrow> mt_err \<times> 'x engine" where
  "clean_one current commit chain_prefix eng =
    (case eng of None \<Rightarrow> (MT_OK, None)
     | Some (ipt, x) \<Rightarrow>
       (case current x of Inl e \<Rightarrow> (e, Some (ipt, x))
        | Inr snap \<Rightarrow>
          (case clean_tables chain_prefix snap ipt of (err, ipt') \<Rightarrow>
             if err \<noteq> MT_OK then (err, Some (ipt', x))
             else (case commit ipt' x of (err, x') \<Rightarrow> (err, Some (ipt', x'))))))"

definition mt_netfilter_clean_iptables ::
  "('x \<Rightarrow> mt_err + rules_snapshot) \<Rightarrow> 'x committer \<Rightarrow> string \<Rightarrow> 'x engine \<Rightarrow> 'x engine \<Rightarrow>
   mt_err \<times> 'x engine \<times> 'x engine" where
  "mt_netfilter_clean_iptables current commit chain_prefix eng4 eng6 =
    (case clean_one current commit chain_prefix eng4 of (e1, eng4') \<Rightarrow>
     case clean_one current commit chain_prefix eng6 of (e2, eng6') \<Rightarrow>
       (if e1 \<noteq> MT_OK then e1 else e2, eng4', eng6'))"

definition base_chains :: "(string \<times> string) list" where
  "base_chains = [(''filter'', ''FORWARD''), (''mangle'', ''PREROUTING''), (''nat'', ''PREROUTING''), (''nat'', ''POSTROUTING'')]"

definition register_base :: "'x engine \<Rightarrow> 'x engine" where
  "register_base eng =
    map_option (\<lambda>(ipt, x). (fold (\<lambda>(t, n) ipt. mt_ipt_register_chain_patch ipt t n) base_chains ipt, x)) eng"

definition mt_netfilter_register_base_chains :: "'x engine \<Rightarrow> 'x engine \<Rightarrow> mt_err \<times> 'x engine \<times> 'x engine" where
  "mt_netfilter_register_base_chains eng4 eng6 = (MT_OK, register_base eng4, register_base eng6)"

section \<open>What is staged\<close>

text \<open>\<open>put_staged\<close> is the staging after one chain has changed.\<close>

definition put_staged ::
  "string \<Rightarrow> string \<Rightarrow> mt_ipt_chain \<Rightarrow> (string \<Rightarrow> string \<Rightarrow> mt_ipt_chain option) \<Rightarrow> string \<Rightarrow> string \<Rightarrow> mt_ipt_chain option" where
  "put_staged t n k s = (\<lambda>t' n'. if t' = t \<and> n' = n then Some k else s t' n')"

lemma put_staged_app [simp]: "put_staged t n k s t' n' = (if t' = t \<and> n' = n then Some k else s t' n')"
  by (simp add: put_staged_def)

lemma staged_register: "staged (register_chain ipt t n k) = put_staged t n k (staged ipt)"
  by (auto simp: staged_def register_chain_def find_or_create_map fun_eq_iff split: option.splits)

lemma ipt_ok_register: "ipt_ok ipt \<Longrightarrow> is_word t \<Longrightarrow> is_word n \<Longrightarrow> chain_ok k \<Longrightarrow> ipt_ok (register_chain ipt t n k)"
  unfolding register_chain_def by (rule ipt_ok_update)

lemma rule_new_Some [simp]: "mt_ipt_rule_new (map Some r) = r"
  by (simp add: mt_ipt_rule_new_def comp_def)

lemma staged_dispatch:
  assumes "staged ipt t n = Some c"
  shows "fst (dispatch_rule_op ipt t n (map Some r) k op) = MT_OK"
    "staged (snd (dispatch_rule_op ipt t n (map Some r) k op)) =
      put_staged t n (if op = 0 then chain_append c r else if op = 1 then chain_insert c k r else chain_remove c r) (staged ipt)"
  using assms by (auto simp: staged_def dispatch_rule_op_def Let_def find_or_create_map fun_eq_iff split: option.splits)

text \<open>
  A step of a builder that succeeds: what it stages, given what was staged.
\<close>

definition stages_to ::
  "(mt_ipt \<Rightarrow> mt_err \<times> mt_ipt) \<Rightarrow> mt_ipt \<Rightarrow> (string \<Rightarrow> string \<Rightarrow> mt_ipt_chain option) \<Rightarrow> bool" where
  "stages_to f ipt s \<longleftrightarrow> fst (f ipt) = MT_OK \<and> ipt_ok (snd (f ipt)) \<and> staged (snd (f ipt)) = s"

lemma stages_override:
  assumes "ipt_ok ipt" "is_word t" "is_word n"
  shows "stages_to (st_override t n) ipt (put_staged t n (ChainOverride []) (staged ipt))"
  using assms by (simp add: stages_to_def st_override_def mt_ipt_register_chain_override_def staged_register
      mt_ipt_chain_override_new_def ipt_ok_register)

lemma stages_append:
  assumes "ipt_ok ipt" "is_word t" "is_word n" "list_all is_word r" "staged ipt t n = Some c"
  shows "stages_to (st_append t n r) ipt (put_staged t n (chain_append c r) (staged ipt))"
  using assms dispatch_ok(2) [OF assms(1-4), of 0 0] staged_dispatch [OF assms(5)]
  by (simp add: stages_to_def st_append_def mt_ipt_append_def)

lemma stages_insert:
  assumes "ipt_ok ipt" "is_word t" "is_word n" "list_all is_word r" "staged ipt t n = Some c"
  shows "stages_to (st_insert t n r) ipt (put_staged t n (chain_insert c 1 r) (staged ipt))"
  using assms dispatch_ok(1) [OF assms(1-4), of 1] staged_dispatch [OF assms(5)]
  by (simp add: stages_to_def st_insert_def mt_ipt_insert_def)

lemma stage_all_Nil: "ipt_ok ipt \<Longrightarrow> stages_to (stage_all []) ipt (staged ipt)"
  by (simp add: stages_to_def)

lemma stage_all_Cons:
  assumes "stages_to f ipt s" "\<And>ipt'. ipt_ok ipt' \<Longrightarrow> staged ipt' = s \<Longrightarrow> stages_to (stage_all fs) ipt' s'"
  shows "stages_to (stage_all (f # fs)) ipt s'"
  using assms by (cases "f ipt") (auto simp: stages_to_def)

lemma stage_all_append:
  assumes "stages_to (stage_all fs) ipt s" "\<And>ipt'. ipt_ok ipt' \<Longrightarrow> staged ipt' = s \<Longrightarrow> stages_to (stage_all gs) ipt' s'"
  shows "stages_to (stage_all (fs @ gs)) ipt s'"
  using assms
proof (induction fs arbitrary: ipt)
  case (Cons f fs)
  then show ?case by (cases "f ipt") (auto simp: stages_to_def split: if_splits)
qed (simp add: stages_to_def)

section \<open>The chains of a link\<close>

abbreviation match_set :: "string \<Rightarrow> string list" where
  "match_set ips \<equiv> [''-m'', ''set'', ''--match-set'', ips, ''dst'', ''-j'']"

definition filter_rules :: "mt_ipset_to_link \<Rightarrow> string \<Rightarrow> mt_ipt_rule list" where
  "filter_rules l ips =
    (if il_iface l \<noteq> MT_IPSET_TO_LINK_BLACKHOLE then [[''-o'', il_iface l] @ match_set ips @ [''ACCEPT'']] else [])"

definition mangle_rules :: "mt_ipset_to_link \<Rightarrow> string \<Rightarrow> mt_ipt_rule list" where
  "mangle_rules l ips =
    [[''-m'', ''conntrack'', ''--ctdir'', ''REPLY'', ''-j'', ''RETURN''],
     match_set ips @ [''MARK'', ''--set-mark'', c_dec (unat (il_mark l))],
     match_set ips @ [''CONNMARK'', ''--save-mark'']]"

definition nat_rules :: "string \<Rightarrow> mt_ipt_rule list" where
  "nat_rules ips = [match_set ips @ [''MASQUERADE'']]"

definition link_staging ::
  "mt_ipset_to_link \<Rightarrow> string \<Rightarrow> chain_patch \<Rightarrow> chain_patch \<Rightarrow> chain_patch \<Rightarrow>
   (string \<Rightarrow> string \<Rightarrow> mt_ipt_chain option) \<Rightarrow> string \<Rightarrow> string \<Rightarrow> mt_ipt_chain option" where
  "link_staging l ips fw pre post s =
    put_staged ''nat'' ''POSTROUTING'' (ChainPatch (patch_append post [''-j'', il_chain l]))
    (put_staged ''nat'' (il_chain l) (ChainOverride (nat_rules ips))
    (put_staged ''mangle'' ''PREROUTING'' (ChainPatch (patch_append pre [''-j'', il_chain l]))
    (put_staged ''mangle'' (il_chain l) (ChainOverride (mangle_rules l ips))
    (put_staged ''filter'' ''FORWARD'' (ChainPatch (patch_append fw [''-j'', il_chain l]))
    (put_staged ''filter'' (il_chain l) (ChainOverride (filter_rules l ips)) s)))))"

lemma put_staged_same [simp]: "put_staged t n k (put_staged t n k' s) = put_staged t n k s"
  by (simp add: put_staged_def fun_eq_iff)

lemma words_const:
  "is_word ''filter''" "is_word ''mangle''" "is_word ''nat''" "is_word ''FORWARD''" "is_word ''PREROUTING''" "is_word ''POSTROUTING''"
  by code_simp+

lemma word_lists:
  "is_word ips \<Longrightarrow> list_all is_word (match_set ips)"
  "list_all is_word [''-m'', ''conntrack'', ''--ctdir'', ''REPLY'', ''-j'', ''RETURN'']"
  "list_all is_word [''CONNMARK'', ''--save-mark'', ''MARK'', ''--set-mark'', ''MASQUERADE'', ''ACCEPT'', ''-o'', ''-j'']"
  by (simp_all add: is_word_def word_char_def)

lemma c_digit_word: "d < 10 \<Longrightarrow> word_char (c_digit d)"
proof -
  assume "d < 10"
  then have "d \<in> set [0..<10]" by simp
  moreover have "\<forall>d\<in>set [0..<10]. word_char (c_digit d)" by code_simp
  ultimately show ?thesis by blast
qed

lemma c_dec_word: "is_word (c_dec n)"
  by (induction n rule: c_dec.induct) (subst c_dec.simps, auto simp: is_word_def c_digit_word)

lemma stage_appends:
  assumes "ipt_ok ipt" "is_word t" "is_word n" "list_all (list_all is_word) rs" "staged ipt t n = Some (ChainOverride c)"
  shows "stages_to (stage_all (map (st_append t n) rs)) ipt (put_staged t n (ChainOverride (c @ rs)) (staged ipt))"
  using assms(1,4,5)
proof (induction rs arbitrary: ipt c)
  case Nil
  then have "put_staged t n (ChainOverride c) (staged ipt) = staged ipt" by (auto simp: put_staged_def fun_eq_iff)
  then show ?case using Nil by (simp add: stages_to_def)
next
  case (Cons r rs)
  have "stages_to (stage_all (map (st_append t n) rs)) ipt' (put_staged t n (ChainOverride (c @ r # rs)) (staged ipt))"
    if "ipt_ok ipt'" "staged ipt' = put_staged t n (chain_append (ChainOverride c) r) (staged ipt)" for ipt'
  proof -
    have st: "staged ipt' t n = Some (ChainOverride (c @ [r]))" using that(2) by (simp add: override_append_def)
    show ?thesis using Cons.IH [OF that(1) _ st] Cons.prems that(2)
      by (simp add: override_append_def del: put_staged_app)
  qed
  moreover have "list_all is_word r" using Cons.prems(2) by simp
  ultimately show ?case unfolding list.map
    by (intro stage_all_Cons [OF stages_append [OF Cons.prems(1) assms(2,3) _ Cons.prems(3)]])
qed

text \<open>The part of a builder for one table: a chain of its own, and a jump to it from a base chain.\<close>

definition own_chain_ops :: "string \<Rightarrow> string \<Rightarrow> mt_ipt_rule list \<Rightarrow> (mt_ipt \<Rightarrow> mt_err \<times> mt_ipt) \<Rightarrow> (mt_ipt \<Rightarrow> mt_err \<times> mt_ipt) list" where
  "own_chain_ops t ch rs jump = st_override t ch # map (st_append t ch) rs @ [jump]"

lemma own_chain_ops_stage:
  assumes "ipt_ok ipt" "is_word t" "is_word ch" "list_all (list_all is_word) rs" "base \<noteq> ch"
    and "staged ipt t base = Some (ChainPatch es)"
    and "\<And>ipt'. ipt_ok ipt' \<Longrightarrow> staged ipt' t base = Some (ChainPatch es) \<Longrightarrow>
      stages_to jump ipt' (put_staged t base (ChainPatch es') (staged ipt'))"
  shows "stages_to (stage_all (own_chain_ops t ch rs jump)) ipt
    (put_staged t base (ChainPatch es') (put_staged t ch (ChainOverride rs) (staged ipt)))"
proof -
  let ?s1 = "put_staged t ch (ChainOverride []) (staged ipt)" and ?s2 = "put_staged t ch (ChainOverride rs) (staged ipt)"
  have last: "stages_to (stage_all [jump]) ipt' (put_staged t base (ChainPatch es') ?s2)"
    if "ipt_ok ipt'" "staged ipt' = ?s2" for ipt'
  proof (rule stage_all_Cons)
    show "stages_to jump ipt' (put_staged t base (ChainPatch es') ?s2)"
      using assms(7) [OF that(1)] that(2) assms(5,6) by simp
  qed (simp add: stages_to_def)
  have "stages_to (stage_all (map (st_append t ch) rs @ [jump])) ipt' (put_staged t base (ChainPatch es') ?s2)"
    if "ipt_ok ipt'" "staged ipt' = ?s1" for ipt'
  proof (rule stage_all_append [OF _ last])
    show "stages_to (stage_all (map (st_append t ch) rs)) ipt' ?s2"
      using stage_appends [OF that(1) assms(2-4), of "[]"] that(2) by simp
  qed
  then show ?thesis unfolding own_chain_ops_def
    using stage_all_Cons [OF stages_override [OF assms(1-3)]] by blast
qed

lemma jump_append:
  assumes "is_word t" "is_word base" "list_all is_word r" "ipt_ok ipt'" "staged ipt' t base = Some (ChainPatch es)"
  shows "stages_to (st_append t base r) ipt' (put_staged t base (ChainPatch (patch_append es r)) (staged ipt'))"
  using stages_append [OF assms(4,1-3,5)] by simp

lemma build_link_ops:
  "build_iptables_rules l ipt ips = stage_all
    (own_chain_ops ''filter'' (il_chain l) (filter_rules l ips) (st_append ''filter'' ''FORWARD'' [''-j'', il_chain l]) @
     own_chain_ops ''mangle'' (il_chain l) (mangle_rules l ips) (st_append ''mangle'' ''PREROUTING'' [''-j'', il_chain l]) @
     own_chain_ops ''nat'' (il_chain l) (nat_rules ips) (st_append ''nat'' ''POSTROUTING'' [''-j'', il_chain l])) ipt"
  by (simp add: build_iptables_rules_def own_chain_ops_def filter_rules_def mangle_rules_def nat_rules_def del: stage_all.simps)

lemma link_builds:
  assumes ok: "ipt_ok ipt" and names: "is_word (il_chain l)" "is_word (il_iface l)" "is_word ips"
    and base: "il_chain l \<notin> {''FORWARD'', ''PREROUTING'', ''POSTROUTING''}"
    and patch: "staged ipt ''filter'' ''FORWARD'' = Some (ChainPatch fw)"
      "staged ipt ''mangle'' ''PREROUTING'' = Some (ChainPatch pre)"
      "staged ipt ''nat'' ''POSTROUTING'' = Some (ChainPatch post)"
  shows "stages_to (\<lambda>ipt. build_iptables_rules l ipt ips) ipt (link_staging l ips fw pre post (staged ipt))"
proof -
  have j: "list_all is_word [''-j'', il_chain l]" using names(1) by (simp add: is_word_def word_char_def)
  have rs: "list_all (list_all is_word) (filter_rules l ips)" "list_all (list_all is_word) (mangle_rules l ips)"
    "list_all (list_all is_word) (nat_rules ips)"
    using names word_lists c_dec_word by (simp_all add: filter_rules_def mangle_rules_def nat_rules_def)
  have ne: "''FORWARD'' \<noteq> il_chain l" "''PREROUTING'' \<noteq> il_chain l" "''POSTROUTING'' \<noteq> il_chain l"
    using base by auto
  have one: "stages_to (stage_all (own_chain_ops t (il_chain l) r (st_append t b [''-j'', il_chain l]))) ipt'
      (put_staged t b (ChainPatch (patch_append es [''-j'', il_chain l])) (put_staged t (il_chain l) (ChainOverride r) s))"
    if "ipt_ok ipt'" "staged ipt' = s" "is_word t" "is_word b" "list_all (list_all is_word) r" "b \<noteq> il_chain l"
      "s t b = Some (ChainPatch es)" for ipt' s t b r es
    using own_chain_ops_stage [OF that(1,3) names(1) that(5,6) _ jump_append [OF that(3,4) j]] that(2,7) by simp
  show ?thesis unfolding build_link_ops link_staging_def
    by (rule stage_all_append, rule one [OF ok refl words_const(1,4) rs(1) ne(1) patch(1)],
        rule stage_all_append, rule one [OF _ _ words_const(2,5) rs(2) ne(2)], assumption, assumption, simp add: patch,
        rule one [OF _ _ words_const(3,6) rs(3) ne(3)]) (simp_all add: patch)
qed

text \<open>
  The commit of an engine to the in-memory backend, from what is staged.
\<close>

abbreviation fake_commit :: "fake_ipt committer" where
  "fake_commit \<equiv> mt_ipt_commit fake_executable False False"

definition fits :: "fake_ipt \<Rightarrow> mt_ipt \<Rightarrow> bool" where
  "fits f ipt \<longleftrightarrow> length (save_text f) \<le> 67108864 \<and>
    (\<forall>cur. parse_rules (save_text f) = Inr cur \<longrightarrow> length (transcript cur ipt) \<le> 67108864)"

lemma commit_staged:
  assumes "ipt_ok ipt" "system_ok f" "fits f ipt"
  obtains f' where "fake_commit ipt f = (MT_OK, f')" "system_ok f'"
    "\<And>t n k. staged ipt t n = Some k \<Longrightarrow> chain_goal k (look f t n) (look f' t n)"
    "\<And>t n. staged ipt t n = None \<Longrightarrow> look f' t n = look f t n"
proof -
  obtain cur where cur: "parse_rules (save_text f) = Inr cur" using parse_save [OF assms(2)] by blast
  have "length (save_text f) \<le> MT_BYTEBUF_MAX_DEFAULT" "length (transcript cur ipt) \<le> MT_BYTEBUF_MAX_DEFAULT"
    using assms(3) cur by (auto simp: fits_def MT_BYTEBUF_MAX_DEFAULT_def)
  from commit_fake [OF assms(1,2) cur this] obtain f' where f': "fake_commit ipt f = (MT_OK, f')" "system_ok f'"
    "\<forall>t n. case staged ipt t n of None \<Rightarrow> look f' t n = look f t n | Some k \<Rightarrow> chain_goal k (look f t n) (look f' t n)"
    by blast
  show ?thesis
  proof (rule that [OF f'(1,2)])
    show "chain_goal k (look f t n) (look f' t n)" if "staged ipt t n = Some k" for t n k
      using f'(3) [rule_format, of t n] that by simp
    show "look f' t n = look f t n" if "staged ipt t n = None" for t n
      using f'(3) [rule_format, of t n] that by simp
  qed
qed

lemma patch_append_goal:
  assumes "chain_goal (ChainPatch (patch_append es r)) before after"
  shows "count_list (or_empty after) r = 1"
    "filter (\<lambda>x. x \<notin> insert r (pe_rule ` set es)) (or_empty after) = filter (\<lambda>x. x \<notin> insert r (pe_rule ` set es)) (or_empty before)"
proof -
  have keys: "pe_rule ` set (patch_append es r) = insert r (pe_rule ` set es)"
    by (auto simp: patch_append_def add_rule_def Let_def)
  show "count_list (or_empty after) r = 1"
    using assms by (auto simp: patch_goal_def patch_append_def add_rule_def Let_def)
  show "filter (\<lambda>x. x \<notin> insert r (pe_rule ` set es)) (or_empty after) = filter (\<lambda>x. x \<notin> insert r (pe_rule ` set es)) (or_empty before)"
    using assms unfolding chain_goal.simps patch_goal_def keys by blast
qed

lemma patch_remove_goal:
  assumes "chain_goal (ChainPatch (patch_remove es r)) before after"
  shows "count_list (or_empty after) r = 0"
  using assms by (auto simp: patch_goal_def patch_remove_def add_rule_def Let_def)

text \<open>
  C19.  Enabling a link writes exactly its chains: for an engine in which the base chains are staged as
  patches, the commit succeeds; afterwards the chain of the group holds exactly the accepting rule in
  \<open>filter\<close> (no rule for the blackhole interface), the three marking rules in \<open>mangle\<close> and the masquerading
  rule in \<open>nat\<close>, each base chain jumps to it exactly once, and every chain that was not staged before and
  is not one of these is as it was.  The hypotheses are the registration of the base chains, names that
  are words, and texts within the 64 MiB of the buffer.
\<close>

theorem link_chains_written:
  assumes "ipt_ok ipt" "system_ok f" "is_word (il_chain l)" "is_word (il_iface l)" "is_word ips"
    and "il_chain l \<notin> {''FORWARD'', ''PREROUTING'', ''POSTROUTING''}"
    and "staged ipt ''filter'' ''FORWARD'' = Some (ChainPatch fw)" "staged ipt ''mangle'' ''PREROUTING'' = Some (ChainPatch pre)"
      "staged ipt ''nat'' ''POSTROUTING'' = Some (ChainPatch post)"
    and "fits f (snd (build_iptables_rules l ipt ips))"
  shows "\<exists>ipt' f'. insert_iptables_rules fake_commit l ips (Some (ipt, f)) = (MT_OK, Some (ipt', f')) \<and>
    look f' ''filter'' (il_chain l) = Some (filter_rules l ips) \<and>
    look f' ''mangle'' (il_chain l) = Some (mangle_rules l ips) \<and>
    look f' ''nat'' (il_chain l) = Some (nat_rules ips) \<and>
    (\<forall>(t, n)\<in>{(''filter'', ''FORWARD''), (''mangle'', ''PREROUTING''), (''nat'', ''POSTROUTING'')}.
       count_list (or_empty (look f' t n)) [''-j'', il_chain l] = 1) \<and>
    (\<forall>t n. staged ipt t n = None \<and> n \<noteq> il_chain l \<longrightarrow> look f' t n = look f t n)"
proof -
  obtain ipt' where b: "build_iptables_rules l ipt ips = (MT_OK, ipt')" "ipt_ok ipt'"
    "staged ipt' = link_staging l ips fw pre post (staged ipt)"
    using link_builds [OF assms(1,3-9)] by (cases "build_iptables_rules l ipt ips") (auto simp: stages_to_def)
  obtain f' where f': "fake_commit ipt' f = (MT_OK, f')"
    "\<And>t n k. staged ipt' t n = Some k \<Longrightarrow> chain_goal k (look f t n) (look f' t n)"
    "\<And>t n. staged ipt' t n = None \<Longrightarrow> look f' t n = look f t n"
    by (rule commit_staged [OF b(2) assms(2) assms(10) [unfolded b(1) snd_conv]]) blast
  have st: "staged ipt' ''filter'' (il_chain l) = Some (ChainOverride (filter_rules l ips))"
    "staged ipt' ''mangle'' (il_chain l) = Some (ChainOverride (mangle_rules l ips))"
    "staged ipt' ''nat'' (il_chain l) = Some (ChainOverride (nat_rules ips))"
    "staged ipt' ''filter'' ''FORWARD'' = Some (ChainPatch (patch_append fw [''-j'', il_chain l]))"
    "staged ipt' ''mangle'' ''PREROUTING'' = Some (ChainPatch (patch_append pre [''-j'', il_chain l]))"
    "staged ipt' ''nat'' ''POSTROUTING'' = Some (ChainPatch (patch_append post [''-j'', il_chain l]))"
    using assms(6) by (auto simp: b(3) link_staging_def)
  have frame: "staged ipt' t n = None" if "staged ipt t n = None" "n \<noteq> il_chain l" for t n
  proof -
    have "\<not> (t = ''filter'' \<and> n = ''FORWARD'')" "\<not> (t = ''mangle'' \<and> n = ''PREROUTING'')" "\<not> (t = ''nat'' \<and> n = ''POSTROUTING'')"
      using that(1) assms(7-9) by auto
    then show ?thesis using that unfolding b(3) link_staging_def put_staged_app by (simp only: if_False simp_thms)
  qed
  have jumps: "count_list (or_empty (look f' t n)) [''-j'', il_chain l] = 1"
    if "(t, n) \<in> {(''filter'', ''FORWARD''), (''mangle'', ''PREROUTING''), (''nat'', ''POSTROUTING'')}" for t n
    using that f'(2) [OF st(4), THEN patch_append_goal(1)] f'(2) [OF st(5), THEN patch_append_goal(1)]
      f'(2) [OF st(6), THEN patch_append_goal(1)] by auto
  have "insert_iptables_rules fake_commit l ips (Some (ipt, f)) = (MT_OK, Some (ipt', f'))"
    by (simp add: insert_iptables_rules_def b(1) f'(1))
  moreover have "look f' ''filter'' (il_chain l) = Some (filter_rules l ips)"
    "look f' ''mangle'' (il_chain l) = Some (mangle_rules l ips)" "look f' ''nat'' (il_chain l) = Some (nat_rules ips)"
    using f'(2) [OF st(1)] f'(2) [OF st(2)] f'(2) [OF st(3)] by simp_all
  ultimately show ?thesis using f'(3) [OF frame] jumps by blast
qed

section \<open>Cleaning leaves nothing behind\<close>
















section \<open>Examples\<close>

lemma fitsI:
  assumes "length (save_text f) < 2000" "parse_rules (save_text f) = Inr cur" "length (transcript cur ipt) < 2000"
  shows "fits f ipt"
  using assms by (simp add: fits_def)

definition ex_base :: mt_ipt where
  "ex_base = fold (\<lambda>(t, n) ipt. mt_ipt_register_chain_patch ipt t n) base_chains []"

definition ex_link :: mt_ipset_to_link where
  "ex_link = (mt_ipset_to_link_new ''MT_g'' ''nwg0'' 100)\<lparr>il_mark := 102\<rparr>"

lemma ex_base_ok: "ipt_ok ex_base" "system_ok []"
  by code_simp+

lemma ex_base_staged:
  "staged ex_base ''filter'' ''FORWARD'' = Some (ChainPatch [])" "staged ex_base ''mangle'' ''PREROUTING'' = Some (ChainPatch [])"
  "staged ex_base ''nat'' ''POSTROUTING'' = Some (ChainPatch [])"
  by code_simp+

lemma ex_link_fits: "fits [] (snd (build_iptables_rules ex_link ex_base ''g_4''))"
  by (rule fitsI [of _ "[]"]) code_simp+

theorem link_chains_written_witness:
  "\<exists>ipt' f'. insert_iptables_rules fake_commit ex_link ''g_4'' (Some (ex_base, [])) = (MT_OK, Some (ipt', f')) \<and>
    look f' ''nat'' ''MT_g'' = Some [[''-m'', ''set'', ''--match-set'', ''g_4'', ''dst'', ''-j'', ''MASQUERADE'']]"
proof -
  have names: "is_word (il_chain ex_link)" "is_word (il_iface ex_link)" "is_word ''g_4''"
    "il_chain ex_link \<notin> {''FORWARD'', ''PREROUTING'', ''POSTROUTING''}" by code_simp+
  have "il_chain ex_link = ''MT_g''" by (simp add: ex_link_def mt_ipset_to_link_new_def)
  then show ?thesis
    using link_chains_written [OF ex_base_ok names ex_base_staged ex_link_fits] by (auto simp: nat_rules_def)
qed



end
