(* ===== verification/Queue_Bounded.thy ===== *)
theory Queue_Bounded
  imports Prelude
begin

text \<open>
  \<^verbatim>\<open>src/util/queue.c\<close>: the bounded queue between the threads, a circular buffer with an explicit policy for
  overflow.  Every operation holds the mutex from its first to its last access, so an operation is one
  step on the state; waiting for the condition variable is the possibility of steps of others between two
  attempts of a pop.  The laws a client may rely on are the locale \<open>bounded_fifo\<close>, stated on the sequence
  of elements; the circular buffer is shown to be one.
\<close>

section \<open>The circular buffer\<close>

datatype mt_queue_policy = MT_QUEUE_REJECT | MT_QUEUE_DROP_OLDEST

record 'a mt_queue =
  q_items :: "'a option list"
  q_capacity :: nat
  q_head :: nat
  q_len :: nat
  q_dropped :: u64
  q_policy :: mt_queue_policy
  q_closed :: bool

definition mt_queue_create :: "nat \<Rightarrow> mt_queue_policy \<Rightarrow> 'a mt_queue option" where
  "mt_queue_create capacity policy =
    (if capacity = 0 then None
     else Some \<lparr>q_items = replicate capacity None, q_capacity = capacity, q_head = 0, q_len = 0,
                q_dropped = 0, q_policy = policy, q_closed = False\<rparr>)"

definition q_store :: "'a \<Rightarrow> 'a mt_queue \<Rightarrow> 'a mt_queue" where
  "q_store x q =
    q\<lparr>q_items := (q_items q)[(q_head q + q_len q) mod q_capacity q := Some x], q_len := q_len q + 1\<rparr>"

text \<open>The result is the error code, the evicted element (when one is reported) and the queue.\<close>

definition mt_queue_push :: "'a mt_queue \<Rightarrow> 'a \<Rightarrow> mt_err \<times> 'a option \<times> 'a mt_queue" where
  "mt_queue_push q x =
    (if q_closed q then (MT_ERR_CLOSED, None, q)
     else if q_len q = q_capacity q then
       (if q_policy q = MT_QUEUE_REJECT then (MT_ERR_LIMIT, None, q\<lparr>q_dropped := q_dropped q + 1\<rparr>)
        else (MT_OK, q_items q ! q_head q,
              q_store x (q\<lparr>q_head := (q_head q + 1) mod q_capacity q, q_len := q_len q - 1, q_dropped := q_dropped q + 1\<rparr>)))
     else (MT_OK, None, q_store x q))"

definition pop_locked :: "'a mt_queue \<Rightarrow> mt_err \<times> 'a option \<times> 'a mt_queue" where
  "pop_locked q =
    (if q_len q = 0 then (if q_closed q then MT_ERR_CLOSED else MT_ERR_AGAIN, None, q)
     else (MT_OK, q_items q ! q_head q, q\<lparr>q_head := (q_head q + 1) mod q_capacity q, q_len := q_len q - 1\<rparr>))"

definition mt_queue_try_pop :: "'a mt_queue \<Rightarrow> mt_err \<times> 'a option \<times> 'a mt_queue" where
  "mt_queue_try_pop q = pop_locked q"

text \<open>
  A blocking pop.  The environment is the list of what happens each time it waits: what the other threads
  made of the queue, or the expiry of the timeout.  The end of the list is a wait that is still going on.
\<close>

datatype 'a wakeup = Woken "'a mt_queue" | Expired "'a mt_queue"

fun pop_loop :: "'a mt_queue \<Rightarrow> 'a wakeup list \<Rightarrow> (mt_err \<times> 'a option \<times> 'a mt_queue) option" where
  "pop_loop q ws =
    (case pop_locked q of (err, x, q') \<Rightarrow>
       if err \<noteq> MT_ERR_AGAIN then Some (err, x, q')
       else (case ws of [] \<Rightarrow> None
             | Woken q2 # ws' \<Rightarrow> pop_loop q2 ws'
             | Expired q2 # _ \<Rightarrow> Some (MT_ERR_TIMEOUT, None, q2)))"

declare pop_loop.simps [simp del]

definition mt_queue_pop :: "'a mt_queue \<Rightarrow> int \<Rightarrow> 'a wakeup list \<Rightarrow> (mt_err \<times> 'a option \<times> 'a mt_queue) option" where
  "mt_queue_pop q timeout_ms ws = (if timeout_ms = 0 then Some (mt_queue_try_pop q) else pop_loop q ws)"

definition mt_queue_close :: "'a mt_queue \<Rightarrow> 'a mt_queue" where
  "mt_queue_close q = q\<lparr>q_closed := True\<rparr>"

definition mt_queue_len :: "'a mt_queue \<Rightarrow> nat" where
  "mt_queue_len q = q_len q"

definition mt_queue_capacity :: "'a mt_queue \<Rightarrow> nat" where
  "mt_queue_capacity q = q_capacity q"

definition mt_queue_dropped :: "'a mt_queue \<Rightarrow> u64" where
  "mt_queue_dropped q = q_dropped q"

section \<open>Interface: a bounded first-in first-out queue\<close>

text \<open>
  A queue as its clients see it: the sequence of elements, a bound, a flag.  \<open>push\<close> and \<open>pop\<close> are total
  on well-formed queues and act on the sequence alone.
\<close>

definition fifo_push :: "nat \<Rightarrow> bool \<Rightarrow> bool \<Rightarrow> 'a \<Rightarrow> 'a list \<Rightarrow> mt_err \<times> 'a option \<times> 'a list" where
  "fifo_push bound closed evict x xs =
    (if closed then (MT_ERR_CLOSED, None, xs)
     else if length xs < bound then (MT_OK, None, xs @ [x])
     else if evict then (MT_OK, Some (hd xs), tl xs @ [x])
     else (MT_ERR_LIMIT, None, xs))"

definition fifo_pop :: "bool \<Rightarrow> 'a list \<Rightarrow> mt_err \<times> 'a option \<times> 'a list" where
  "fifo_pop closed xs =
    (case xs of [] \<Rightarrow> (if closed then MT_ERR_CLOSED else MT_ERR_AGAIN, None, []) | x # ys \<Rightarrow> (MT_OK, Some x, ys))"

text \<open>
  Every run of the three operations by any number of threads, with the elements accepted so far and the
  elements that came out, evicted or delivered.
\<close>

inductive queue_runs ::
  "('q \<Rightarrow> 'a \<Rightarrow> mt_err \<times> 'a option \<times> 'q) \<Rightarrow> ('q \<Rightarrow> mt_err \<times> 'a option \<times> 'q) \<Rightarrow> ('q \<Rightarrow> 'q) \<Rightarrow>
   'q \<Rightarrow> 'a list \<Rightarrow> 'a list \<Rightarrow> 'q \<Rightarrow> bool"
  for push pop shut q0 where
  start: "queue_runs push pop shut q0 [] [] q0"
| pushed: "queue_runs push pop shut q0 ins outs q \<Longrightarrow> push q x = (err, ev, q') \<Longrightarrow>
    queue_runs push pop shut q0 (ins @ (if err = MT_OK then [x] else [])) (outs @ (case ev of None \<Rightarrow> [] | Some e \<Rightarrow> [e])) q'"
| popped: "queue_runs push pop shut q0 ins outs q \<Longrightarrow> pop q = (err, y, q') \<Longrightarrow>
    queue_runs push pop shut q0 ins (outs @ (case y of None \<Rightarrow> [] | Some e \<Rightarrow> [e])) q'"
| closing: "queue_runs push pop shut q0 ins outs q \<Longrightarrow> queue_runs push pop shut q0 ins outs (shut q)"

locale bounded_fifo =
  fixes wf :: "'q \<Rightarrow> bool"
    and seq_of :: "'q \<Rightarrow> 'a list"
    and bound :: "'q \<Rightarrow> nat"
    and closed :: "'q \<Rightarrow> bool"
    and drops :: "'q \<Rightarrow> bool"
    and push :: "'q \<Rightarrow> 'a \<Rightarrow> mt_err \<times> 'a option \<times> 'q"
    and pop :: "'q \<Rightarrow> mt_err \<times> 'a option \<times> 'q"
    and shut :: "'q \<Rightarrow> 'q"
  assumes bounded: "wf q \<Longrightarrow> length (seq_of q) \<le> bound q"
    and push_seq: "wf q \<Longrightarrow> push q x = (err, ev, q') \<Longrightarrow>
      (err, ev, seq_of q') = fifo_push (bound q) (closed q) (drops q) x (seq_of q)"
    and push_keeps: "wf q \<Longrightarrow> push q x = (err, ev, q') \<Longrightarrow>
      wf q' \<and> bound q' = bound q \<and> closed q' = closed q \<and> drops q' = drops q"
    and pop_seq: "wf q \<Longrightarrow> pop q = (err, y, q') \<Longrightarrow> (err, y, seq_of q') = fifo_pop (closed q) (seq_of q)"
    and pop_keeps: "wf q \<Longrightarrow> pop q = (err, y, q') \<Longrightarrow>
      wf q' \<and> bound q' = bound q \<and> closed q' = closed q \<and> drops q' = drops q"
    and shut_seq: "wf q \<Longrightarrow> wf (shut q) \<and> seq_of (shut q) = seq_of q \<and> closed (shut q) \<and> bound (shut q) = bound q \<and> drops (shut q) = drops q"
begin

text \<open>Conservation and order: what went in is what came out followed by what is still there.\<close>

lemma runs_fifo:
  assumes "queue_runs push pop shut q0 ins outs q" "wf q0" "seq_of q0 = []" "0 < bound q0"
  shows "wf q \<and> bound q = bound q0 \<and> ins = outs @ seq_of q"
  using assms(1)
proof induction
  case start
  then show ?case using assms by simp
next
  case (pushed ins outs q x err ev q')
  have eq: "(err, ev, seq_of q') = fifo_push (bound q) (closed q) (drops q) x (seq_of q)"
    using push_seq pushed by blast
  have "seq_of q \<noteq> []" if "\<not> length (seq_of q) < bound q" using that pushed.IH assms(4) by auto
  then show ?case using eq push_keeps [OF _ pushed(2)] pushed.IH
    by (cases "closed q"; cases "length (seq_of q) < bound q"; cases "drops q") (auto simp: fifo_push_def)
next
  case (popped ins outs q err y q')
  have "(err, y, seq_of q') = fifo_pop (closed q) (seq_of q)" using pop_seq popped by blast
  then show ?case using pop_keeps [OF _ popped(2)] popped.IH
    by (cases "seq_of q") (auto simp: fifo_pop_def)
qed (use shut_seq in auto)

end

section \<open>The circular buffer is one\<close>

definition q_seq :: "'a mt_queue \<Rightarrow> 'a list" where
  "q_seq q = map (\<lambda>i. the (q_items q ! ((q_head q + i) mod q_capacity q))) [0..<q_len q]"

definition q_wf :: "'a mt_queue \<Rightarrow> bool" where
  "q_wf q \<longleftrightarrow> 0 < q_capacity q \<and> length (q_items q) = q_capacity q \<and> q_head q < q_capacity q \<and> q_len q \<le> q_capacity q \<and>
    (\<forall>i<q_len q. q_items q ! ((q_head q + i) mod q_capacity q) \<noteq> None)"

lemma length_q_seq [simp]: "length (q_seq q) = q_len q"
  by (simp add: q_seq_def)

lemma slot_other: "i < len \<Longrightarrow> len < c \<Longrightarrow> (h + len) mod c \<noteq> (h + i) mod (c :: nat)"
proof
  assume a: "i < len" "len < c" "(h + len) mod c = (h + i) mod c"
  then have "c dvd (h + len) - (h + i)" by (metis mod_eq_dvd_iff_nat add_le_cancel_left less_imp_le)
  then show False using a by (auto dest: dvd_imp_le)
qed

lemma store_wf:
  assumes "q_wf q" "q_len q < q_capacity q"
  shows "q_wf (q_store x q) \<and> q_seq (q_store x q) = q_seq q @ [x]"
proof -
  let ?k = "(q_head q + q_len q) mod q_capacity q"
  have k: "?k < length (q_items q)" using assms by (simp add: q_wf_def)
  have old: "(q_items q)[?k := Some x] ! ((q_head q + i) mod q_capacity q) = q_items q ! ((q_head q + i) mod q_capacity q)"
    if "i < q_len q" for i using slot_other [OF that assms(2)] by simp
  have "q_wf (q_store x q)"
    using assms k old by (auto simp: q_wf_def q_store_def less_Suc_eq)
  moreover have "q_seq (q_store x q) = q_seq q @ [x]"
    using k old by (simp add: q_seq_def q_store_def)
  ultimately show ?thesis ..
qed

lemma advance_wf:
  assumes "q_wf q" "0 < q_len q"
  shows "q_wf (q\<lparr>q_head := (q_head q + 1) mod q_capacity q, q_len := q_len q - 1, q_dropped := d\<rparr>)"
    "q_seq q = the (q_items q ! q_head q) # q_seq (q\<lparr>q_head := (q_head q + 1) mod q_capacity q, q_len := q_len q - 1, q_dropped := d\<rparr>)"
    "q_items q ! q_head q \<noteq> None"
proof -
  have shift: "(Suc (q_head q) mod q_capacity q + i) mod q_capacity q = (q_head q + Suc i) mod q_capacity q" for i
    by (simp add: mod_add_left_eq)
  show "q_wf (q\<lparr>q_head := (q_head q + 1) mod q_capacity q, q_len := q_len q - 1, q_dropped := d\<rparr>)"
  proof -
    have "q_items q ! ((q_head q + Suc i) mod q_capacity q) \<noteq> None" if "i < q_len q - 1" for i
      using assms(1) that unfolding q_wf_def by (auto simp only: less_diff_conv Suc_eq_plus1)
    moreover have "q_len q - 1 \<le> q_capacity q" using assms(1) unfolding q_wf_def by linarith
    ultimately show ?thesis using assms unfolding q_wf_def by (simp add: shift)
  qed
  have "[0..<q_len q] = 0 # map Suc [0..<q_len q - 1]"
    using assms(2) by (metis Suc_diff_1 map_Suc_upt upt_conv_Cons)
  then show "q_seq q = the (q_items q ! q_head q) # q_seq (q\<lparr>q_head := (q_head q + 1) mod q_capacity q, q_len := q_len q - 1, q_dropped := d\<rparr>)"
    using assms(1) by (simp add: q_seq_def shift comp_def q_wf_def)
  show "q_items q ! q_head q \<noteq> None"
    using assms by (auto simp: q_wf_def dest!: spec [of _ 0])
qed

lemma advance_wf_pop:
  assumes "q_wf q" "0 < q_len q"
  shows "q_wf (q\<lparr>q_head := (q_head q + 1) mod q_capacity q, q_len := q_len q - 1\<rparr>)"
    "q_seq q = the (q_items q ! q_head q) # q_seq (q\<lparr>q_head := (q_head q + 1) mod q_capacity q, q_len := q_len q - 1\<rparr>)"
  using advance_wf(1,2) [OF assms, of "q_dropped q"] by (simp_all add: q_wf_def q_seq_def)

lemma push_fifo:
  assumes "q_wf q"
  shows "mt_queue_push q x = (err, ev, q') \<Longrightarrow>
      (err, ev, q_seq q') = fifo_push (q_capacity q) (q_closed q) (q_policy q = MT_QUEUE_DROP_OLDEST) x (q_seq q) \<and> q_wf q' \<and>
      q_capacity q' = q_capacity q \<and> q_closed q' = q_closed q \<and> q_policy q' = q_policy q"
proof -
  assume push: "mt_queue_push q x = (err, ev, q')"
  have room: "q_len q \<le> q_capacity q" "0 < q_capacity q" using assms by (auto simp: q_wf_def)
  let ?a = "q\<lparr>q_head := (q_head q + 1) mod q_capacity q, q_len := q_len q - 1, q_dropped := q_dropped q + 1\<rparr>"
  have dropped: "q_wf (q\<lparr>q_dropped := d\<rparr>) \<and> q_seq (q\<lparr>q_dropped := d\<rparr>) = q_seq q" for d
    using assms by (simp add: q_wf_def q_seq_def)
  consider "q_closed q" | "\<not> q_closed q" "q_len q < q_capacity q" | "\<not> q_closed q" "q_len q = q_capacity q" "q_policy q = MT_QUEUE_REJECT"
    | "\<not> q_closed q" "q_len q = q_capacity q" "q_policy q = MT_QUEUE_DROP_OLDEST"
    using room by (metis le_neq_implies_less mt_queue_policy.exhaust)
  then show ?thesis
  proof cases
    case 2
    then show ?thesis using push store_wf [OF assms 2(2), of x] by (auto simp: mt_queue_push_def fifo_push_def q_store_def)
  next
    case 4
    have len: "0 < q_len q" using 4 room by simp
    have "q_len ?a < q_capacity ?a" using 4(2) room by simp
    note st = store_wf [OF advance_wf(1) [OF assms len] this, of x]
    show ?thesis using push 4 st advance_wf(2) [OF assms len, of "q_dropped q + 1"] advance_wf(3) [OF assms len]
      by (auto simp: mt_queue_push_def fifo_push_def q_store_def)
  qed (use push assms dropped in \<open>auto simp: mt_queue_push_def fifo_push_def\<close>)
qed

lemma pop_fifo:
  assumes "q_wf q" "mt_queue_try_pop q = (err, y, q')"
  shows "(err, y, q_seq q') = fifo_pop (q_closed q) (q_seq q) \<and> q_wf q' \<and>
    q_capacity q' = q_capacity q \<and> q_closed q' = q_closed q \<and> q_policy q' = q_policy q"
proof (cases "q_len q = 0")
  case True
  then show ?thesis using assms by (auto simp: mt_queue_try_pop_def pop_locked_def fifo_pop_def q_seq_def)
next
  case False
  then show ?thesis using assms(2) advance_wf_pop [OF assms(1)] advance_wf(3) [OF assms(1)]
    by (auto simp: mt_queue_try_pop_def pop_locked_def fifo_pop_def)
qed

interpretation cq: bounded_fifo q_wf q_seq q_capacity q_closed "\<lambda>q. q_policy q = MT_QUEUE_DROP_OLDEST"
  mt_queue_push mt_queue_try_pop mt_queue_close
proof
  show "length (q_seq q) \<le> q_capacity q" if "q_wf q" for q :: "'a mt_queue" using that by (simp add: q_wf_def)
  show "q_wf (mt_queue_close q) \<and> q_seq (mt_queue_close q) = q_seq q \<and> q_closed (mt_queue_close q) \<and>
      q_capacity (mt_queue_close q) = q_capacity q \<and> (q_policy (mt_queue_close q) = MT_QUEUE_DROP_OLDEST) = (q_policy q = MT_QUEUE_DROP_OLDEST)"
    if "q_wf q" for q :: "'a mt_queue" using that by (simp add: mt_queue_close_def q_wf_def q_seq_def)
next
  fix q q' :: "'a mt_queue" and x err ev
  assume "q_wf q" "mt_queue_push q x = (err, ev, q')"
  note p = push_fifo [OF this]
  then show "(err, ev, q_seq q') = fifo_push (q_capacity q) (q_closed q) (q_policy q = MT_QUEUE_DROP_OLDEST) x (q_seq q)"
    by (rule conjunct1)
  from p show "q_wf q' \<and> q_capacity q' = q_capacity q \<and> q_closed q' = q_closed q \<and>
      (q_policy q' = MT_QUEUE_DROP_OLDEST) = (q_policy q = MT_QUEUE_DROP_OLDEST)" by simp
next
  fix q q' :: "'a mt_queue" and err y
  assume "q_wf q" "mt_queue_try_pop q = (err, y, q')"
  note p = pop_fifo [OF this]
  then show "(err, y, q_seq q') = fifo_pop (q_closed q) (q_seq q)" by (rule conjunct1)
  from p show "q_wf q' \<and> q_capacity q' = q_capacity q \<and> q_closed q' = q_closed q \<and>
      (q_policy q' = MT_QUEUE_DROP_OLDEST) = (q_policy q = MT_QUEUE_DROP_OLDEST)" by simp
qed

text \<open>
  C33.  The queue is first-in first-out and loses nothing silently: in every run of pushes, pops and closes by
  any threads on a queue that was created empty, the elements accepted are, in order, those that came out
  (delivered or reported as evicted) followed by those still queued; there are never more than the capacity;
  a push is refused exactly with \<open>MT_ERR_CLOSED\<close> after a close and, under the rejecting policy, with
  \<open>MT_ERR_LIMIT\<close> when the queue is full, and a pop fails exactly when the queue is empty.
\<close>

theorem queue_fifo:
  assumes "mt_queue_create c policy = Some q0"
    and "queue_runs mt_queue_push mt_queue_try_pop mt_queue_close q0 ins outs q"
  shows "ins = outs @ q_seq q \<and> mt_queue_len q = length (q_seq q) \<and> mt_queue_len q \<le> c \<and>
    (fst (mt_queue_push q x) = (if q_closed q then MT_ERR_CLOSED
       else if mt_queue_len q = c \<and> q_policy q = MT_QUEUE_REJECT then MT_ERR_LIMIT else MT_OK)) \<and>
    (fst (mt_queue_try_pop q) = (if q_seq q \<noteq> [] then MT_OK else if q_closed q then MT_ERR_CLOSED else MT_ERR_AGAIN))"
proof -
  have q0: "q_wf q0" "q_seq q0 = []" "q_capacity q0 = c" "0 < c"
    using assms(1) by (auto simp: mt_queue_create_def q_wf_def q_seq_def split: if_splits)
  then have r: "q_wf q" "q_capacity q = c" "ins = outs @ q_seq q"
    using cq.runs_fifo [OF assms(2)] by auto
  then have "mt_queue_len q \<le> c" using cq.bounded [of q] by (simp add: mt_queue_len_def)
  moreover have "q_seq q = [] \<longleftrightarrow> q_len q = 0" using length_q_seq [of q] by (metis length_0_conv)
  ultimately show ?thesis using r by (auto simp: mt_queue_len_def mt_queue_push_def mt_queue_try_pop_def pop_locked_def)
qed

theorem queue_fifo_witness:
  "\<exists>q. [1 :: nat, 2] = [1] @ q_seq q \<and> mt_queue_len q \<le> 1"
proof -
  define q0 :: "nat mt_queue" where "q0 = the (mt_queue_create 1 MT_QUEUE_DROP_OLDEST)"
  have q0: "mt_queue_create 1 MT_QUEUE_DROP_OLDEST = Some q0" by (simp add: q0_def mt_queue_create_def)
  define q1 where "q1 = snd (snd (mt_queue_push q0 1))"
  define q2 where "q2 = snd (snd (mt_queue_push q1 2))"
  have p: "mt_queue_push q0 1 = (MT_OK, None, q1)" "mt_queue_push q1 2 = (MT_OK, Some 1, q2)"
    by (simp_all add: q2_def q1_def q0_def mt_queue_create_def mt_queue_push_def q_store_def)
  have "queue_runs mt_queue_push mt_queue_try_pop mt_queue_close q0 [] [] q0" by (rule queue_runs.start)
  from queue_runs.pushed [OF this p(1)]
  have "queue_runs mt_queue_push mt_queue_try_pop mt_queue_close q0 [1] [] q1" by simp
  from queue_runs.pushed [OF this p(2)]
  have "queue_runs mt_queue_push mt_queue_try_pop mt_queue_close q0 [1, 2] [1] q2" by simp
  from queue_fifo [OF q0 this] show ?thesis by blast
qed

end
