(* ===== verification/Committer.thy ===== *)
theory Committer
  imports Prelude
begin

text \<open>
  \<^verbatim>\<open>src/netfilter/committer.c\<close> with the token of \<^verbatim>\<open>src/util/cancel.c\<close>: the thread that rebuilds the netfilter
  tables when somebody asks for it, and starts over when a rebuild fails or is interrupted.

  The shared state is the record \<open>mt_nfcommit\<close>.  Each critical section of the C code is one step; between
  two critical sections any other thread may run.  The thread of the committer is a program counter \<open>pc\<close>
  with its local variable \<open>delay_ms\<close>; a thread that has seen \<open>running\<close> and is about to raise the token,
  outside the lock, is counted in \<open>nc_raises\<close>.  The rebuild itself is a parameter: it returns any error
  code.

  Two counters that the program does not have record history: how many requests were made, and how many
  had been made when the pass in progress and the last successful pass began.
\<close>

section \<open>The cancellation token\<close>

text \<open>The flag and the number of bytes that wait in the pipe.\<close>

record mt_cancel =
  raised :: bool
  pipe_bytes :: nat

definition mt_cancel_new :: mt_cancel where
  "mt_cancel_new = \<lparr>raised = False, pipe_bytes = 0\<rparr>"

definition mt_cancel_raise :: "mt_cancel \<Rightarrow> mt_cancel" where
  "mt_cancel_raise c = (if raised c then c else \<lparr>raised = True, pipe_bytes = pipe_bytes c + 1\<rparr>)"

definition mt_cancel_clear :: "mt_cancel \<Rightarrow> mt_cancel" where
  "mt_cancel_clear c = \<lparr>raised = False, pipe_bytes = 0\<rparr>"

definition token_ok :: "mt_cancel \<Rightarrow> bool" where
  "token_ok c \<longleftrightarrow> pipe_bytes c = (if raised c then 1 else 0)"

lemma token_ok_ops [simp]:
  "token_ok mt_cancel_new" "token_ok c \<Longrightarrow> token_ok (mt_cancel_raise c)" "token_ok (mt_cancel_clear c)"
  by (auto simp: token_ok_def mt_cancel_new_def mt_cancel_raise_def mt_cancel_clear_def)

section \<open>State\<close>

datatype pc =
    Unstarted | Waiting | Settling | Starting | Clearing | Rebuilding | Finishing mt_err | Requeue | Exited

record mt_nfcommit =
  nc_started :: bool
  nc_stopping :: bool
  nc_pending :: bool
  nc_running :: bool
  nc_passes :: u64
  nc_delay_ms :: u32
  nc_max_delay_ms :: u32
  nc_cancel :: mt_cancel
  nc_raises :: nat
  nc_pc :: pc
  nc_local_delay :: u32
  nc_reqs :: nat
  nc_begun :: nat
  nc_served :: nat

definition MT_NFCOMMIT_DELAY_MS :: u32 where
  "MT_NFCOMMIT_DELAY_MS = 150"

definition MT_NFCOMMIT_MAX_DELAY_MS :: u32 where
  "MT_NFCOMMIT_MAX_DELAY_MS = 5000"

definition mt_nfcommit_new :: mt_nfcommit where
  "mt_nfcommit_new =
    \<lparr>nc_started = False, nc_stopping = False, nc_pending = False, nc_running = False, nc_passes = 0,
     nc_delay_ms = MT_NFCOMMIT_DELAY_MS, nc_max_delay_ms = MT_NFCOMMIT_MAX_DELAY_MS,
     nc_cancel = mt_cancel_new, nc_raises = 0, nc_pc = Unstarted, nc_local_delay = 0, nc_reqs = 0, nc_begun = 0, nc_served = 0\<rparr>"

section \<open>The other threads\<close>

definition mt_nfcommit_request :: "mt_nfcommit \<Rightarrow> mt_nfcommit" where
  "mt_nfcommit_request c =
    c\<lparr>nc_pending := True, nc_raises := nc_raises c + (if nc_running c then 1 else 0), nc_reqs := nc_reqs c + 1\<rparr>"

definition mt_nfcommit_interrupt :: "mt_nfcommit \<Rightarrow> mt_nfcommit" where
  "mt_nfcommit_interrupt c = c\<lparr>nc_raises := nc_raises c + (if nc_running c then 1 else 0)\<rparr>"

text \<open>The raise that \<^verbatim>\<open>request\<close>, \<^verbatim>\<open>interrupt\<close> and \<^verbatim>\<open>stop\<close> perform after they have left the lock.\<close>

definition late_raise :: "mt_nfcommit \<Rightarrow> mt_nfcommit" where
  "late_raise c = c\<lparr>nc_cancel := mt_cancel_raise (nc_cancel c), nc_raises := nc_raises c - 1\<rparr>"

definition mt_nfcommit_start :: "mt_nfcommit \<Rightarrow> mt_err \<times> mt_nfcommit" where
  "mt_nfcommit_start c =
    (if nc_started c then (MT_ERR_STATE, c)
     else (MT_OK, c\<lparr>nc_started := True, nc_pc := Waiting, nc_local_delay := nc_delay_ms c\<rparr>))"

text \<open>\<^verbatim>\<open>mt_nfcommit_stop\<close> up to its join, which is a step of its own.\<close>

definition mt_nfcommit_stop :: "mt_nfcommit \<Rightarrow> mt_nfcommit" where
  "mt_nfcommit_stop c =
    (if \<not> nc_started c then c else c\<lparr>nc_stopping := True, nc_raises := nc_raises c + 1\<rparr>)"

definition stop_join :: "mt_nfcommit \<Rightarrow> mt_nfcommit" where
  "stop_join c = c\<lparr>nc_started := False\<rparr>"

section \<open>The thread\<close>

definition next_delay :: "mt_nfcommit \<Rightarrow> mt_err \<Rightarrow> u32" where
  "next_delay c err =
    (if err = MT_OK \<or> err = MT_ERR_CANCELED \<or> err = MT_ERR_AGAIN then nc_delay_ms c
     else if nc_local_delay c * 2 < nc_max_delay_ms c then nc_local_delay c * 2 else nc_max_delay_ms c)"

text \<open>One step of \<^verbatim>\<open>committer_main\<close>; \<open>None\<close> when it waits or is gone.  \<open>err\<close> is what a rebuild returns.\<close>

definition committer_main :: "mt_err \<Rightarrow> mt_nfcommit \<Rightarrow> mt_nfcommit option" where
  "committer_main err c =
    (case nc_pc c of
       Unstarted \<Rightarrow> None
     | Waiting \<Rightarrow>
         if nc_stopping c then Some (c\<lparr>nc_pc := Exited\<rparr>)
         else if nc_pending c then Some (c\<lparr>nc_pc := Settling\<rparr>) else None
     | Settling \<Rightarrow> Some (c\<lparr>nc_pc := (if nc_stopping c then Exited else Starting)\<rparr>)
     | Starting \<Rightarrow>
         if nc_stopping c then Some (c\<lparr>nc_pc := Exited\<rparr>)
         else Some (c\<lparr>nc_pending := False, nc_running := True, nc_passes := nc_passes c + 1, nc_pc := Clearing,
                      nc_begun := nc_reqs c\<rparr>)
     | Clearing \<Rightarrow> Some (c\<lparr>nc_cancel := mt_cancel_clear (nc_cancel c), nc_pc := Rebuilding\<rparr>)
     | Rebuilding \<Rightarrow> Some (c\<lparr>nc_pc := Finishing err\<rparr>)
     | Finishing e \<Rightarrow>
         Some (let c' = c\<lparr>nc_running := False, nc_served := (if e = MT_OK then nc_begun c else nc_served c)\<rparr> in
               if nc_stopping c then c'\<lparr>nc_pc := Exited\<rparr>
               else c'\<lparr>nc_local_delay := next_delay c e, nc_pc := (if e = MT_OK then Waiting else Requeue)\<rparr>)
     | Requeue \<Rightarrow> Some (c\<lparr>nc_pending := True, nc_pc := Waiting\<rparr>)
     | Exited \<Rightarrow> None)"

inductive nc_step :: "mt_nfcommit \<Rightarrow> mt_nfcommit \<Rightarrow> bool" where
  request: "nc_step c (mt_nfcommit_request c)"
| interrupt: "nc_step c (mt_nfcommit_interrupt c)"
| raise: "0 < nc_raises c \<Longrightarrow> nc_step c (late_raise c)"
| start: "nc_step c (snd (mt_nfcommit_start c))"
| stop: "nc_step c (mt_nfcommit_stop c)"
| join: "nc_pc c = Exited \<Longrightarrow> nc_step c (stop_join c)"
| thread: "committer_main err c = Some c' \<Longrightarrow> nc_step c c'"

section \<open>No request is lost\<close>

fun in_pass :: "pc \<Rightarrow> bool" where
  "in_pass Clearing = True"
| "in_pass Rebuilding = True"
| "in_pass (Finishing e) = True"
| "in_pass _ = False"

definition nc_inv :: "mt_nfcommit \<Rightarrow> bool" where
  "nc_inv c \<longleftrightarrow>
    (nc_running c \<longleftrightarrow> in_pass (nc_pc c)) \<and>
    nc_served c \<le> nc_begun c \<and> nc_begun c \<le> nc_reqs c \<and>
    (\<not> nc_pending c \<longrightarrow> nc_begun c = nc_reqs c) \<and>
    (\<not> nc_pending c \<and> \<not> nc_stopping c \<and> nc_pc c \<in> {Unstarted, Waiting, Settling, Starting} \<longrightarrow>
       nc_served c = nc_reqs c) \<and>
    (nc_pc c \<noteq> Unstarted \<longrightarrow> 150 \<le> nc_local_delay c \<and> nc_local_delay c \<le> 5000) \<and>
    nc_delay_ms c = 150 \<and> nc_max_delay_ms c = 5000 \<and>
    token_ok (nc_cancel c) \<and>
    (nc_pc c = Unstarted \<longrightarrow> \<not> nc_started c) \<and>
    (nc_pc c = Exited \<longrightarrow> nc_stopping c) \<and>
    (nc_pc c \<noteq> Unstarted \<and> nc_pc c \<noteq> Exited \<longrightarrow> nc_started c) \<and>
    (nc_pc c \<in> {Settling, Starting} \<longrightarrow> nc_pending c)"

lemmas nc_defs = mt_nfcommit_request_def mt_nfcommit_interrupt_def late_raise_def mt_nfcommit_start_def
  mt_nfcommit_stop_def stop_join_def

lemma nc_inv_new: "nc_inv mt_nfcommit_new"
  by (simp add: nc_inv_def mt_nfcommit_new_def MT_NFCOMMIT_DELAY_MS_def MT_NFCOMMIT_MAX_DELAY_MS_def)

lemma next_delay_bounds:
  assumes "nc_delay_ms c = 150" "nc_max_delay_ms c = 5000" "150 \<le> nc_local_delay c" "nc_local_delay c \<le> 5000"
  shows "150 \<le> next_delay c err" "next_delay c err \<le> 5000"
proof -
  have "unat (nc_local_delay c * 2) = unat (nc_local_delay c) * 2"
    using assms(4) by (simp add: unat_word_ariths(2) word_le_nat_alt)
  then have "nc_local_delay c \<le> nc_local_delay c * 2"
    by (simp add: word_le_nat_alt)
  then show "150 \<le> next_delay c err" "next_delay c err \<le> 5000"
    using assms unfolding next_delay_def by (auto intro: order_trans)
qed

lemma nc_inv_thread:
  assumes "nc_inv c" "committer_main err c = Some c'"
  shows "nc_inv c'"
  using assms next_delay_bounds [of c]
  by (cases "nc_pc c") (auto simp: nc_inv_def committer_main_def Let_def split: if_splits)

lemma nc_inv_request: "nc_inv c \<Longrightarrow> nc_inv (mt_nfcommit_request c)"
  by (cases "nc_pc c") (simp_all add: nc_inv_def mt_nfcommit_request_def)

lemma nc_inv_interrupt: "nc_inv c \<Longrightarrow> nc_inv (mt_nfcommit_interrupt c)"
  by (cases "nc_pc c") (simp_all add: nc_inv_def mt_nfcommit_interrupt_def)

lemma nc_inv_raise: "nc_inv c \<Longrightarrow> nc_inv (late_raise c)"
  by (cases "nc_pc c") (simp_all add: nc_inv_def late_raise_def)

lemma nc_inv_start: "nc_inv c \<Longrightarrow> nc_inv (snd (mt_nfcommit_start c))"
  by (cases "nc_pc c"; cases "nc_started c") (simp_all add: nc_inv_def mt_nfcommit_start_def)

lemma nc_inv_stop: "nc_inv c \<Longrightarrow> nc_inv (mt_nfcommit_stop c)"
  by (cases "nc_pc c") (simp_all add: nc_inv_def mt_nfcommit_stop_def)

lemma nc_inv_join: "nc_inv c \<Longrightarrow> nc_pc c = Exited \<Longrightarrow> nc_inv (stop_join c)"
  by (simp add: nc_inv_def stop_join_def)

lemma nc_inv_step: "nc_step c c' \<Longrightarrow> nc_inv c \<Longrightarrow> nc_inv c'"
  by (induction rule: nc_step.induct)
    (rule nc_inv_request nc_inv_interrupt nc_inv_raise nc_inv_start nc_inv_stop nc_inv_join nc_inv_thread; assumption)+

interpretation committer: invariant_system "\<lambda>c. c = mt_nfcommit_new" nc_step nc_inv
  by unfold_locales (simp_all add: nc_inv_new nc_inv_step)

text \<open>
  C14.  No request is lost, whatever the interleaving of the threads and whatever the rebuilds return: in
  every reachable state in which nobody has asked the committer to stop and its thread is back at its wait
  with nothing pending, a rebuild that began after the last request has succeeded.  A pass is in flight
  exactly when \<open>running\<close> says so, the pause between passes is between 150 and 5000 milliseconds (so its
  doubling never wraps), and the pipe of the cancellation token holds one byte when the token is raised and
  none otherwise.
\<close>

theorem committer_serves_requests:
  assumes "reachable (\<lambda>c. c = mt_nfcommit_new) nc_step c"
  shows "(nc_pc c = Waiting \<and> \<not> nc_pending c \<and> \<not> nc_stopping c \<longrightarrow> nc_served c = nc_reqs c) \<and>
    (nc_running c \<longleftrightarrow> in_pass (nc_pc c)) \<and>
    (nc_pc c \<noteq> Unstarted \<longrightarrow> nc_local_delay c \<in> {150..5000}) \<and>
    pipe_bytes (nc_cancel c) = (if raised (nc_cancel c) then 1 else 0)"
  using committer.reachable_inv [OF assms] by (simp add: nc_inv_def token_ok_def)

text \<open>A request that is made while a rebuild runs, and the rebuild that it interrupts.\<close>

abbreviation (input) thread_step :: "mt_err \<Rightarrow> mt_nfcommit \<Rightarrow> mt_nfcommit" where
  "thread_step err c \<equiv> the (committer_main err c)"

definition nc_passing :: mt_nfcommit where
  "nc_passing =
    thread_step MT_OK (thread_step MT_OK (thread_step MT_OK
      (mt_nfcommit_request (snd (mt_nfcommit_start mt_nfcommit_new)))))"

definition nc_interrupted :: mt_nfcommit where
  "nc_interrupted =
    thread_step MT_OK (thread_step MT_ERR_CANCELED (late_raise (mt_nfcommit_request (thread_step MT_OK nc_passing))))"

abbreviation (input) nc_reachable :: "mt_nfcommit \<Rightarrow> bool" where
  "nc_reachable c \<equiv> reachable (\<lambda>c. c = mt_nfcommit_new) nc_step c"

lemma nc_reach:
  "nc_reachable mt_nfcommit_new"
  "nc_reachable c \<Longrightarrow> nc_reachable (mt_nfcommit_request c)"
  "nc_reachable c \<Longrightarrow> nc_reachable (snd (mt_nfcommit_start c))"
  "nc_reachable c \<Longrightarrow> nc_reachable (mt_nfcommit_stop c)"
  "nc_reachable c \<Longrightarrow> 0 < nc_raises c \<Longrightarrow> nc_reachable (late_raise c)"
  "nc_reachable c \<Longrightarrow> committer_main err c \<noteq> None \<Longrightarrow> nc_reachable (thread_step err c)"
  by (auto intro: reach_init) (blast intro: reach_step nc_step.intros)+

lemma nc_passing_reachable: "nc_reachable nc_passing"
  unfolding nc_passing_def by (intro nc_reach; code_simp)

lemma nc_interrupted_reachable: "nc_reachable nc_interrupted"
  unfolding nc_interrupted_def by (intro nc_reach nc_passing_reachable; code_simp)

lemma nc_example_pcs: "nc_pc nc_passing = Clearing" "nc_pc nc_interrupted = Requeue"
  by code_simp+

theorem committer_serves_requests_witness:
  "nc_running nc_passing \<and> nc_pc nc_interrupted = Requeue \<and> nc_local_delay nc_interrupted \<in> {150..5000}"
  using committer_serves_requests [OF nc_passing_reachable] committer_serves_requests [OF nc_interrupted_reachable]
  by (simp add: nc_example_pcs)

section \<open>The committer comes to rest\<close>

text \<open>The thread alone for at most \<open>n\<close> of its steps, while its rebuilds succeed.\<close>

fun committer_run :: "nat \<Rightarrow> mt_nfcommit \<Rightarrow> mt_nfcommit" where
  "committer_run 0 c = c"
| "committer_run (Suc n) c = (case committer_main MT_OK c of None \<Rightarrow> c | Some c' \<Rightarrow> committer_run n c')"

lemma committer_run_none: "committer_main MT_OK c = None \<Longrightarrow> committer_run n c = c"
  by (cases n) simp_all

lemma committer_run_add: "committer_run (m + n) c = committer_run n (committer_run m c)"
  by (induction m arbitrary: c) (auto split: option.split simp: committer_run_none)

lemma committer_main_stopped: "nc_pc c = Exited \<Longrightarrow> committer_run n c = c"
  by (rule committer_run_none) (simp add: committer_main_def)

lemma run_from_waiting:
  assumes "nc_pc c = Waiting" "nc_pending c" "\<not> nc_stopping c"
  shows "nc_pc (committer_run 6 c) = Waiting \<and> \<not> nc_pending (committer_run 6 c)
    \<and> nc_served (committer_run 6 c) = nc_reqs c \<and> nc_reqs (committer_run 6 c) = nc_reqs c"
  using assms by (simp add: eval_nat_numeral committer_main_def Let_def)



lemma run_inv: "nc_inv c \<Longrightarrow> nc_inv (committer_run n c)"
  by (induction n arbitrary: c) (auto split: option.split intro: nc_inv_thread)

lemma run_reaches_waiting:
  assumes "nc_inv c" "nc_pc c \<notin> {Unstarted, Exited}" "\<not> nc_stopping c"
  shows "\<exists>n\<le>5. nc_pc (committer_run n c) = Waiting \<and> \<not> nc_stopping (committer_run n c)
    \<and> nc_reqs (committer_run n c) = nc_reqs c \<and> nc_inv (committer_run n c)"
proof (cases "nc_pc c")
  case Settling
  then show ?thesis
    using assms run_inv [OF assms(1), of 5]
    by (intro exI [of _ 5]) (simp add: eval_nat_numeral committer_main_def Let_def)
next
  case Starting
  then show ?thesis
    using assms run_inv [OF assms(1), of 4]
    by (intro exI [of _ 4]) (simp add: eval_nat_numeral committer_main_def Let_def)
next
  case Clearing
  then show ?thesis
    using assms run_inv [OF assms(1), of 3]
    by (intro exI [of _ 3]) (simp add: eval_nat_numeral committer_main_def Let_def)
next
  case Rebuilding
  then show ?thesis
    using assms run_inv [OF assms(1), of 2]
    by (intro exI [of _ 2]) (simp add: eval_nat_numeral committer_main_def Let_def)
next
  case (Finishing e)
  then show ?thesis
    using assms run_inv [OF assms(1), of "if e = MT_OK then 1 else 2"]
    by (intro exI [of _ "if e = MT_OK then 1 else 2"]) (simp add: eval_nat_numeral committer_main_def Let_def)
next
  case Requeue
  then show ?thesis
    using assms run_inv [OF assms(1), of 1]
    by (intro exI [of _ 1]) (simp add: eval_nat_numeral committer_main_def Let_def)
qed (use assms in \<open>auto intro: exI [of _ 0]\<close>)

lemma run_stopping: "nc_stopping (committer_run n c) = nc_stopping c"
proof (induction n arbitrary: c)
  case (Suc n)
  have "nc_stopping c' = nc_stopping c" if "committer_main MT_OK c = Some c'" for c'
    using that by (cases "nc_pc c") (auto simp: committer_main_def Let_def split: if_splits)
  then show ?case using Suc by (auto split: option.split)
qed simp

lemma committer_rests:
  assumes "nc_inv c" "nc_pc c \<notin> {Unstarted, Exited}" "\<not> nc_stopping c"
  shows "nc_pc (committer_run 11 c) = Waiting \<and> \<not> nc_pending (committer_run 11 c)
    \<and> nc_served (committer_run 11 c) = nc_reqs c"
proof -
  obtain n where n: "n \<le> 5" "nc_pc (committer_run n c) = Waiting" "\<not> nc_stopping (committer_run n c)"
    "nc_reqs (committer_run n c) = nc_reqs c" "nc_inv (committer_run n c)"
    using run_reaches_waiting [OF assms] by blast
  show ?thesis
  proof (cases "nc_pending (committer_run n c)")
    case True
    note six = run_from_waiting [OF n(2) True n(3)]
    have eq: "committer_run 11 c = committer_run (11 - n - 6) (committer_run 6 (committer_run n c))"
      using n(1) committer_run_add [of n 6 c] committer_run_add [of "n + 6" "11 - n - 6" c] by simp
    have "nc_stopping (committer_run 6 (committer_run n c)) = nc_stopping (committer_run n c)"
      by (rule run_stopping)
    then have "committer_main MT_OK (committer_run 6 (committer_run n c)) = None"
      using six n(3) by (simp add: committer_main_def)
    then have "committer_run 11 c = committer_run 6 (committer_run n c)"
      unfolding eq by (rule committer_run_none)
    then show ?thesis using six n(4) by simp
  next
    case False
    then have "committer_main MT_OK (committer_run n c) = None"
      using n(2,3) by (simp add: committer_main_def)
    then have "committer_run 11 c = committer_run n c"
      using committer_run_add [of n "11 - n" c] n(1) by (simp add: committer_run_none)
    moreover have "nc_served (committer_run n c) = nc_reqs (committer_run n c)"
      using n(2,3,5) False by (simp add: nc_inv_def)
    ultimately show ?thesis using n False by simp
  qed
qed

lemma committer_exits:
  assumes "nc_pc c \<noteq> Unstarted" "nc_stopping c"
  shows "nc_pc (committer_run 3 c) = Exited"
  using assms by (cases "nc_pc c") (simp_all add: eval_nat_numeral committer_main_def Let_def)

text \<open>
  C32.  The committer comes to rest.  Let the other threads pause in any reachable state in which the thread
  of the committer runs, and let rebuilds succeed from then on: if a stop was asked for, the thread has
  exited after at most three of its steps, and otherwise, after at most eleven, it is back at its wait with
  nothing pending and every request that was ever made served.
\<close>

theorem committer_settles:
  assumes "reachable (\<lambda>c. c = mt_nfcommit_new) nc_step c" "nc_pc c \<noteq> Unstarted" "nc_pc c \<noteq> Exited"
  shows "if nc_stopping c then nc_pc (committer_run 3 c) = Exited
    else nc_pc (committer_run 11 c) = Waiting \<and> \<not> nc_pending (committer_run 11 c)
      \<and> nc_served (committer_run 11 c) = nc_reqs c"
  using committer_rests [OF committer.reachable_inv [OF assms(1)]] committer_exits [OF assms(2)] assms(2,3) by simp

theorem committer_settles_witness:
  "nc_served (committer_run 11 nc_interrupted) = 2 \<and> nc_pc (committer_run 11 nc_interrupted) = Waiting"
proof -
  have "nc_reqs nc_interrupted = 2" "\<not> nc_stopping nc_interrupted"
    by code_simp+
  then show ?thesis
    using committer_settles [OF nc_interrupted_reachable] by (simp add: nc_example_pcs)
qed

section \<open>A stop can miss its rebuild\<close>

definition nc_stop_wiped :: mt_nfcommit where
  "nc_stop_wiped = thread_step MT_OK (late_raise (mt_nfcommit_stop nc_passing))"

lemma nc_stop_wiped_reachable: "nc_reachable nc_stop_wiped"
  unfolding nc_stop_wiped_def by (intro nc_reach nc_passing_reachable; code_simp)

lemma nc_stop_wiped_state:
  "nc_stopping nc_stop_wiped \<and> nc_pc nc_stop_wiped = Rebuilding \<and> \<not> raised (nc_cancel nc_stop_wiped)
    \<and> nc_raises nc_stop_wiped = 0"
  by code_simp

text \<open>
  A stop can fail to interrupt the rebuild it waits for: there is a reachable state in which a stop was
  asked for and has already raised the token, the thread is inside its rebuild, and yet the token is down and
  no raise is outstanding, because the thread cleared the token after it had announced \<open>running\<close> under the
  lock and the raise fell between the two.  The join then lasts as long as the rebuild.
\<close>

theorem committer_stop_lost:
  "\<exists>c. reachable (\<lambda>c. c = mt_nfcommit_new) nc_step c \<and> nc_stopping c \<and> nc_pc c = Rebuilding
    \<and> \<not> raised (nc_cancel c) \<and> nc_raises c = 0"
  using nc_stop_wiped_reachable nc_stop_wiped_state by blast

end
