(* ===== verification/Httpd.thy ===== *)
theory Httpd
  imports C_Text
begin

text \<open>
  \<^verbatim>\<open>src/api/httpd.c\<close>: the HTTP server of the API.  Reading a request from a connection in whatever pieces it arrives, taking it apart,
  cleaning its path, finding the route, and writing the response.

  The bytes of the network are characters.  What a socket holds is a list of pieces; \<^verbatim>\<open>recv\<close> returns at most what was asked for of the
  first one, and the end of the list is \<^verbatim>\<open>EAGAIN\<close>.  An array of \<^verbatim>\<open>char\<close> that is read as a C string is modelled by the
  string in it.  The encoder of JSON is a parameter, and so are the handlers, which may change a state of their own.
\<close>

definition MT_HTTPD_MAX_ROUTES :: nat where "MT_HTTPD_MAX_ROUTES = 64"
definition MT_HTTPD_MAX_REQ_HEADERS :: nat where "MT_HTTPD_MAX_REQ_HEADERS = 32"
definition MT_HTTPD_MAX_RES_HEADERS :: nat where "MT_HTTPD_MAX_RES_HEADERS = 8"
definition MT_HTTPD_MAX_QUERY :: nat where "MT_HTTPD_MAX_QUERY = 16"
definition MT_HTTPD_MAX_SEGMENTS :: nat where "MT_HTTPD_MAX_SEGMENTS = 8"
definition MT_HTTPD_MAX_CLEAN_SEGMENTS :: nat where "MT_HTTPD_MAX_CLEAN_SEGMENTS = 64"
definition MT_HTTPD_MAX_HEADER_BYTES :: nat where "MT_HTTPD_MAX_HEADER_BYTES = 8192"
definition MT_HTTPD_MAX_BODY_BYTES :: nat where "MT_HTTPD_MAX_BODY_BYTES = 1024 * 1024"
definition MT_HTTPD_MAX_CONNS :: nat where "MT_HTTPD_MAX_CONNS = 64"
definition MT_HTTPD_MAX_PARAMS :: nat where "MT_HTTPD_MAX_PARAMS = 4"

lemmas httpd_limits = MT_HTTPD_MAX_ROUTES_def MT_HTTPD_MAX_REQ_HEADERS_def MT_HTTPD_MAX_RES_HEADERS_def MT_HTTPD_MAX_QUERY_def
  MT_HTTPD_MAX_SEGMENTS_def MT_HTTPD_MAX_CLEAN_SEGMENTS_def MT_HTTPD_MAX_HEADER_BYTES_def MT_HTTPD_MAX_BODY_BYTES_def
  MT_HTTPD_MAX_CONNS_def MT_HTTPD_MAX_PARAMS_def

abbreviation SLASH :: char where "SLASH \<equiv> CHR ''/''"
abbreviation CR :: char where "CR \<equiv> CHR 0x0D"
abbreviation LF :: char where "LF \<equiv> CHR 0x0A"

text \<open>Names have room for 63 characters, values for 511.\<close>

record kv =
  kv_name :: string
  kv_value :: string

record mt_http_req =
  rq_method :: string
  rq_path :: string
  rq_query :: "kv list"
  rq_params :: "kv list"
  rq_headers :: "kv list"
  rq_body :: string

definition http_req_zero :: mt_http_req where
  "http_req_zero = \<lparr>rq_method = [], rq_path = [], rq_query = [], rq_params = [], rq_headers = [], rq_body = []\<rparr>"

record mt_http_res =
  rs_status :: int
  rs_headers :: "kv list"
  rs_body :: string
  rs_responded :: bool

section \<open>Strings\<close>

text \<open>The next segment of a path and what follows it: the loop that \<^verbatim>\<open>split_segments\<close> and \<^verbatim>\<open>path_clean\<close> share.\<close>

definition next_segment :: "string \<Rightarrow> (string \<times> string) option" where
  "next_segment s =
    (let r = dropWhile (\<lambda>c. c = SLASH) s
     in if r = [] then None else Some (takeWhile (\<lambda>c. c \<noteq> SLASH) r, dropWhile (\<lambda>c. c \<noteq> SLASH) r))"

fun split_segments :: "nat \<Rightarrow> string \<Rightarrow> string list" where
  "split_segments 0 s = []"
| "split_segments (Suc n) s = (case next_segment s of None \<Rightarrow> [] | Some (g, r) \<Rightarrow> g # split_segments n r)"

definition hex_digits :: string where "hex_digits = ''0123456789abcdef''"

definition c_isxdigit :: "char \<Rightarrow> bool" where
  "c_isxdigit c \<longleftrightarrow> lower c \<in> set hex_digits"

definition hex_val :: "char \<Rightarrow> nat" where
  "hex_val c = length (takeWhile (\<lambda>d. d \<noteq> lower c) hex_digits)"

text \<open>\<open>room\<close> is the capacity of the output without the terminator.\<close>

fun percent_decode :: "nat \<Rightarrow> bool \<Rightarrow> string \<Rightarrow> string" where
  "percent_decode room plus_as_space [] = []"
| "percent_decode room plus_as_space (c # s) =
    (if room = 0 then []
     else case s of
       a # b # t \<Rightarrow>
         if c = CHR ''%'' \<and> c_isxdigit a \<and> c_isxdigit b
         then char_of (16 * hex_val a + hex_val b) # percent_decode (room - 1) plus_as_space t
         else (if plus_as_space \<and> c = CHR ''+'' then CHR '' '' else c) # percent_decode (room - 1) plus_as_space s
     | _ \<Rightarrow> (if plus_as_space \<and> c = CHR ''+'' then CHR '' '' else c) # percent_decode (room - 1) plus_as_space s)"

definition find_header :: "kv list \<Rightarrow> string \<Rightarrow> string option" where
  "find_header hs name = map_option kv_value (List.find (\<lambda>h. strcaseeq (kv_name h) name) hs)"

definition find_value :: "kv list \<Rightarrow> string \<Rightarrow> string option" where
  "find_value kvs key = map_option kv_value (List.find (\<lambda>h. kv_name h = key) kvs)"

definition mt_http_req_query :: "mt_http_req \<Rightarrow> string \<Rightarrow> string option" where
  "mt_http_req_query req key = find_value (rq_query req) key"

definition mt_http_req_query_is_true :: "mt_http_req \<Rightarrow> string \<Rightarrow> bool" where
  "mt_http_req_query_is_true req key \<longleftrightarrow> mt_http_req_query req key = Some ''true''"

definition mt_http_req_param :: "mt_http_req \<Rightarrow> string \<Rightarrow> string option" where
  "mt_http_req_param req name = find_value (rq_params req) name"

definition mt_http_req_header :: "mt_http_req \<Rightarrow> string \<Rightarrow> string option" where
  "mt_http_req_header req name = find_header (rq_headers req) name"

section \<open>Cleaning a path\<close>

definition clean_step :: "string list \<Rightarrow> string \<Rightarrow> string list" where
  "clean_step kept g =
    (if g = ''.'' then kept
     else if g = ''..'' then butlast kept
     else if length kept < MT_HTTPD_MAX_CLEAN_SEGMENTS then kept @ [g]
     else kept)"

lemma next_segment_shorter:
  assumes "next_segment s = Some (g, r)"
  shows "length r < length s"
proof (cases "dropWhile (\<lambda>c. c = SLASH) s")
  case Nil
  then show ?thesis using assms by (simp add: next_segment_def)
next
  case (Cons c t)
  then have "c \<noteq> SLASH" by (simp add: dropWhile_eq_Cons_conv)
  then have "length r \<le> length t" using assms Cons by (auto simp: next_segment_def length_dropWhile_le)
  moreover have "length (c # t) \<le> length s" unfolding Cons [symmetric] by (rule length_dropWhile_le)
  ultimately show ?thesis by simp
qed

function clean_loop :: "string list \<Rightarrow> string \<Rightarrow> string list" where
  "clean_loop kept s = (case next_segment s of None \<Rightarrow> kept | Some (g, r) \<Rightarrow> clean_loop (clean_step kept g) r)"
  by pat_completeness auto
termination
  by (relation "measure (\<lambda>(kept, s). length s)") (auto dest: next_segment_shorter)

declare clean_loop.simps [simp del]

text \<open>Writing the segments that are left; \<open>room\<close> is the capacity with the terminator.\<close>

fun clean_out :: "nat \<Rightarrow> bool \<Rightarrow> string list \<Rightarrow> string \<Rightarrow> string" where
  "clean_out out_cap first [] out = out"
| "clean_out out_cap first (g # gs) out =
    (let out = (if \<not> first \<and> length out + 1 < out_cap then out @ [SLASH] else out);
         copy = (if length out + length g \<ge> out_cap then (if out_cap > length out + 1 then out_cap - 1 - length out else 0)
                 else length g)
     in clean_out out_cap False gs (out @ take copy g))"

definition path_clean :: "nat \<Rightarrow> string \<Rightarrow> string" where
  "path_clean out_cap s = clean_out out_cap True (clean_loop [] s) (if 1 < out_cap then [SLASH] else [])"

section \<open>Taking a request apart\<close>

definition strip_cr :: "string \<Rightarrow> string" where
  "strip_cr l = (if l \<noteq> [] \<and> last l = CR then butlast l else l)"

text \<open>The part before the first \<open>c\<close> and the part after it.\<close>

definition before :: "char \<Rightarrow> string \<Rightarrow> string" where
  "before c s = takeWhile (\<lambda>x. x \<noteq> c) s"

definition after :: "char \<Rightarrow> string \<Rightarrow> string" where
  "after c s = drop (length (before c s) + 1) s"

text \<open>Method, path with query, and whether the version is 1.0.\<close>

definition parse_request_line :: "string \<Rightarrow> (string \<times> string \<times> bool) option" where
  "parse_request_line line =
    (let method = before (CHR '' '') line; rest = after (CHR '' '') line; version = after (CHR '' '') rest
     in if CHR '' '' \<notin> set line then None
        else if length method \<ge> 8 then None
        else if CHR '' '' \<notin> set rest then None
        else Some (cstr method, before (CHR '' '') rest, length version \<ge> 8 \<and> take 8 version = ''HTTP/1.0''))"

fun parse_query :: "nat \<Rightarrow> string \<Rightarrow> kv list" where
  "parse_query 0 q = []"
| "parse_query (Suc n) q =
    (if q = [] then []
     else let pair = before (CHR ''&'') q
          in \<lparr>kv_name = cstr (percent_decode 63 True (before (CHR ''='') pair)),
              kv_value = (if CHR ''='' \<in> set pair then cstr (percent_decode 511 True (after (CHR ''='') pair)) else [])\<rparr>
             # parse_query n (after (CHR ''&'') q))"

text \<open>The lines after the first one, until a blank line; \<open>room\<close> is how many more headers fit.\<close>

lemma after_shorter: "c \<in> set s \<Longrightarrow> length (after c s) < length s"
  by (cases s) (auto simp: after_def before_def)

function parse_header_lines :: "nat \<Rightarrow> string \<Rightarrow> kv list" where
  "parse_header_lines room s =
    (if room = 0 \<or> LF \<notin> set s then []
     else let line = strip_cr (before LF s); name = before (CHR '':'') line
          in if line = [] then []
             else if CHR '':'' \<notin> set line \<or> length name \<ge> 64 then parse_header_lines room (after LF s)
             else \<lparr>kv_name = cstr name, kv_value = cstr (take 511 (dropWhile (\<lambda>c. c = CHR '' '') (after (CHR '':'') line)))\<rparr>
                  # parse_header_lines (room - 1) (after LF s))"
  by pat_completeness auto
termination
  by (relation "measure (\<lambda>(room, s). length s)") (auto simp: after_shorter)

declare parse_header_lines.simps [simp del]

text \<open>\<open>hdr\<close> is the buffer up to the end of the headers; the result also says whether the version is 1.0.\<close>

definition parse_headers :: "string \<Rightarrow> (mt_http_req \<times> bool) option" where
  "parse_headers hdr =
    (if LF \<notin> set hdr then None
     else case parse_request_line (strip_cr (before LF hdr)) of
       None \<Rightarrow> None
     | Some (method, full_path, http10) \<Rightarrow>
         let decoded = cstr (percent_decode 511 False (before (CHR ''?'') full_path))
         in Some (\<lparr>rq_method = method, rq_path = path_clean 512 decoded,
                   rq_query = (if CHR ''?'' \<in> set full_path then parse_query MT_HTTPD_MAX_QUERY (after (CHR ''?'') full_path) else []),
                   rq_params = [], rq_headers = parse_header_lines MT_HTTPD_MAX_REQ_HEADERS (after LF hdr), rq_body = []\<rparr>, http10))"

section \<open>Reading from a connection\<close>

record mt_http_conn =
  hc_fd :: nat
  hc_rbuf :: string
  hc_rbuf_cap :: nat
  hc_headers_done :: bool
  hc_header_end :: nat
  hc_content_length :: nat
  hc_req :: mt_http_req
  hc_wbuf :: string
  hc_wbuf_sent :: nat
  hc_close_after_write :: bool
  hc_http_1_0 :: bool

definition conn_new :: "nat \<Rightarrow> mt_http_conn" where
  "conn_new fd = \<lparr>hc_fd = fd, hc_rbuf = [], hc_rbuf_cap = 0, hc_headers_done = False, hc_header_end = 0, hc_content_length = 0,
     hc_req = http_req_zero, hc_wbuf = [], hc_wbuf_sent = 0, hc_close_after_write = False, hc_http_1_0 = False\<rparr>"

definition conn_reset_for_next_request :: "mt_http_conn \<Rightarrow> mt_http_conn" where
  "conn_reset_for_next_request c =
    c\<lparr>hc_rbuf := [], hc_headers_done := False, hc_header_end := 0, hc_content_length := 0, hc_req := http_req_zero,
      hc_wbuf := [], hc_wbuf_sent := 0\<rparr>"

text \<open>Where the headers end: after the first blank line, with or without carriage returns.\<close>

fun find_marker :: "nat \<Rightarrow> string \<Rightarrow> nat option" where
  "find_marker i (a # b # s) =
    (if take 4 (a # b # s) = [CR, LF, CR, LF] then Some (i + 4)
     else if a = LF \<and> b = LF then Some (i + 2)
     else find_marker (i + 1) (b # s))"
| "find_marker i _ = None"

datatype sock_in = Piece string | Eof | Failed

text \<open>
  What reading leads to: more must arrive; the connection is closed, after an answer or without; a request is complete.
\<close>

datatype read_result = Wait | CloseAfter string | Complete

definition status_only :: "string \<Rightarrow> string" where
  "status_only what = ''HTTP/1.1 '' @ what @ [CR, LF] @ ''Content-Length: 0'' @ [CR, LF] @ ''Connection: close'' @ [CR, LF, CR, LF]"

text \<open>Looking for the headers once new bytes are in the buffer: an answer that ends the connection, or the connection.\<close>

definition scan_headers :: "mt_http_conn \<Rightarrow> string + mt_http_conn" where
  "scan_headers c =
    (if hc_headers_done c then Inr c
     else case find_marker 0 (hc_rbuf c) of
       Some e \<Rightarrow>
         (case parse_headers (take e (hc_rbuf c)) of
            None \<Rightarrow> Inl (status_only ''400 Bad Request'')
          | Some (req, http10) \<Rightarrow>
              let len = (case find_header (rq_headers req) ''Content-Length'' of None \<Rightarrow> 0 | Some v \<Rightarrow> c_strtoul v)
              in if len > MT_HTTPD_MAX_BODY_BYTES then Inl (status_only ''413 Payload Too Large'')
                 else Inr (c\<lparr>hc_header_end := e, hc_headers_done := True, hc_req := req,
                             hc_http_1_0 := hc_http_1_0 c \<or> http10, hc_content_length := len\<rparr>))
     | None \<Rightarrow>
         if length (hc_rbuf c) \<ge> MT_HTTPD_MAX_HEADER_BYTES then Inl (status_only ''431 Request Header Fields Too Large'')
         else Inr c)"

definition cap_needed :: "mt_http_conn \<Rightarrow> nat" where
  "cap_needed c = (if hc_headers_done c then hc_header_end c + hc_content_length c else MT_HTTPD_MAX_HEADER_BYTES)"

definition grow_rbuf :: "mt_http_conn \<Rightarrow> mt_http_conn" where
  "grow_rbuf c = (if hc_rbuf_cap c < cap_needed c + 1 then c\<lparr>hc_rbuf_cap := cap_needed c + 1\<rparr> else c)"

fun waiting_bytes :: "sock_in list \<Rightarrow> nat" where
  "waiting_bytes [] = 0"
| "waiting_bytes (Piece p # ins) = length p + 1 + waiting_bytes ins"
| "waiting_bytes (_ # ins) = waiting_bytes ins"

text \<open>
  The loop of \<^verbatim>\<open>on_conn_readable\<close>.  \<open>None\<close> is a write behind the buffer: the number of bytes to ask for is an unsigned difference, and the
  buffer has to have room for them.  An empty piece is none; \<^verbatim>\<open>recv\<close> returns 0 for \<open>Eof\<close>.
\<close>

function read_loop :: "mt_http_conn \<Rightarrow> sock_in list \<Rightarrow> (read_result \<times> mt_http_conn \<times> sock_in list) option" where
  "read_loop c ins =
    (let need = cap_needed c;
         c = grow_rbuf c
     in if length (hc_rbuf c) > need \<or> need > hc_rbuf_cap c then None
        else if need = length (hc_rbuf c) then Some (Wait, c, ins)
        else case ins of
          [] \<Rightarrow> Some (Wait, c, [])
        | Failed # rest \<Rightarrow> Some (CloseAfter [], c, rest)
        | Eof # rest \<Rightarrow> Some (CloseAfter [], c, rest)
        | Piece p # rest \<Rightarrow>
            let want = need - length (hc_rbuf c); got = take want p;
                rest = (if length p > want then Piece (drop want p) # rest else rest)
            in if p = [] then read_loop c rest
               else case scan_headers (c\<lparr>hc_rbuf := hc_rbuf c @ got\<rparr>) of
                 Inl answer \<Rightarrow> Some (CloseAfter answer, c, rest)
               | Inr c \<Rightarrow>
                   if hc_headers_done c \<and> length (hc_rbuf c) \<ge> hc_header_end c + hc_content_length c then Some (Complete, c, rest)
                   else read_loop c rest)"
  by pat_completeness auto

termination
proof (relation "measure (\<lambda>(c, ins). waiting_bytes ins)", goal_cases)
  case 1 then show ?case by simp
qed (auto split: if_splits)

declare read_loop.simps [simp del]

section \<open>Responses\<close>

definition http_res_zero :: mt_http_res where
  "http_res_zero = \<lparr>rs_status = 200, rs_headers = [], rs_body = [], rs_responded = False\<rparr>"

definition mt_http_res_set_header :: "string \<Rightarrow> string \<Rightarrow> mt_http_res \<Rightarrow> mt_http_res" where
  "mt_http_res_set_header name value res =
    (if length (rs_headers res) \<ge> MT_HTTPD_MAX_RES_HEADERS then res
     else res\<lparr>rs_headers := rs_headers res @ [\<lparr>kv_name = take 63 name, kv_value = take 511 value\<rparr>]\<rparr>)"

definition mt_http_res_write :: "int \<Rightarrow> string option \<Rightarrow> string \<Rightarrow> mt_http_res \<Rightarrow> mt_http_res" where
  "mt_http_res_write status content_type data res =
    (let res = res\<lparr>rs_body := data, rs_status := status\<rparr>;
         res = (case content_type of None \<Rightarrow> res | Some t \<Rightarrow> mt_http_res_set_header ''Content-Type'' t res)
     in res\<lparr>rs_responded := True\<rparr>)"

definition JSON_TYPE :: string where "JSON_TYPE = ''application/json; charset=utf-8''"

text \<open>
  The library that builds and prints JSON: \<^verbatim>\<open>mt_json_error\<close> and \<^verbatim>\<open>mt_json_dump\<close> over an object \<open>'j\<close>; either may fail.  A failure to
  print leads to another error document, and a failure to print that one to the next; \<open>fuel\<close> counts the errors
  that may be printed.
\<close>

record 'j json_lib =
  jl_error :: "string \<Rightarrow> 'j option"
  jl_dump :: "'j \<Rightarrow> string option"

definition FALLBACK :: string where
  "FALLBACK = ''{'' @ [CHR 0x22] @ ''error'' @ [CHR 0x22] @ '':'' @ [CHR 0x22] @ ''internal error'' @ [CHR 0x22] @ ''}''"

fun mt_http_res_write_json :: "'j json_lib \<Rightarrow> nat \<Rightarrow> int \<Rightarrow> 'j \<Rightarrow> mt_http_res \<Rightarrow> mt_http_res option" where
  "mt_http_res_write_json J fuel status obj res =
    (case jl_dump J obj of
       Some dump \<Rightarrow> Some (mt_http_res_write status (Some JSON_TYPE) dump res)
     | None \<Rightarrow>
         (case fuel of
            0 \<Rightarrow> None
          | Suc fuel \<Rightarrow>
              (case jl_error J ''failed to encode response'' of
                 None \<Rightarrow> Some (mt_http_res_write 500 (Some JSON_TYPE) FALLBACK res)
               | Some obj \<Rightarrow> mt_http_res_write_json J fuel 500 obj res)))"

declare mt_http_res_write_json.simps [simp del]

definition mt_http_res_write_error :: "'j json_lib \<Rightarrow> nat \<Rightarrow> int \<Rightarrow> string \<Rightarrow> mt_http_res \<Rightarrow> mt_http_res option" where
  "mt_http_res_write_error J fuel status msg res =
    (case jl_error J msg of
       None \<Rightarrow> Some (mt_http_res_write 500 (Some JSON_TYPE) FALLBACK res)
     | Some obj \<Rightarrow> mt_http_res_write_json J fuel status obj res)"

definition reason_phrase :: "int \<Rightarrow> string" where
  "reason_phrase status =
    (if status = 200 then ''OK'' else if status = 400 then ''Bad Request'' else if status = 401 then ''Unauthorized''
     else if status = 404 then ''Not Found'' else if status = 405 then ''Method Not Allowed''
     else if status = 409 then ''Conflict'' else if status = 413 then ''Payload Too Large''
     else if status = 431 then ''Request Header Fields Too Large'' else if status = 500 then ''Internal Server Error''
     else if status = 502 then ''Bad Gateway'' else [])"

text \<open>
  One \<^verbatim>\<open>snprintf\<close> into the array \<^verbatim>\<open>head[2048]\<close> behind what is there.  The length of \<open>head\<close> is \<^verbatim>\<open>off\<close>, which counts what did not
  fit too.  Text that reaches the end of the array loses its last character to the terminator; behind the end the size passed on has wrapped
  around, and the write is out of bounds.
\<close>

definition head_put :: "string \<Rightarrow> string \<Rightarrow> string option" where
  "head_put text head =
    (if length head > 2048 then None
     else if length head < 2048 \<and> length head + length text \<ge> 2048 then Some ((head @ text)[2047 := CHR 0x00])
     else Some (head @ text))"

fun head_fields :: "kv list \<Rightarrow> string \<Rightarrow> string option" where
  "head_fields [] head = Some head"
| "head_fields (h # hs) head =
    (if length head \<ge> 2048 then Some head
     else case head_put (kv_name h @ '': '' @ kv_value h @ [CR, LF]) head of None \<Rightarrow> None | Some head \<Rightarrow> head_fields hs head)"

definition build_response_bytes :: "bool \<Rightarrow> mt_http_res \<Rightarrow> string option" where
  "build_response_bytes close_after_write res =
    (case head_put (''HTTP/1.1 '' @ c_dec_int (rs_status res) @ '' '' @ reason_phrase (rs_status res) @ [CR, LF]) [] of
       None \<Rightarrow> None
     | Some h0 \<Rightarrow>
       (case head_fields (rs_headers res) h0 of
          None \<Rightarrow> None
        | Some h1 \<Rightarrow>
          (case head_put (''Content-Length: '' @ c_dec (length (rs_body res)) @ [CR, LF]) h1 of
             None \<Rightarrow> None
           | Some h2 \<Rightarrow>
             (case head_put (''Connection: '' @ (if close_after_write then ''close'' else ''keep-alive'') @ [CR, LF]) h2 of
                None \<Rightarrow> None
              | Some h3 \<Rightarrow>
                (case head_put [CR, LF] h3 of
                   None \<Rightarrow> None
                 | Some h4 \<Rightarrow> if length h4 > 2048 then None else Some (h4 @ rs_body res))))))"

section \<open>Routes\<close>

type_synonym 's handler = "mt_http_req \<Rightarrow> mt_http_res \<Rightarrow> 's \<Rightarrow> (mt_http_res \<times> 's) option"

record 's route =
  rt_method :: string
  rt_pattern :: string
  rt_fn :: "'s handler"

record 's mt_httpd =
  hd_routes :: "'s route list"
  hd_middleware :: "(mt_http_req \<Rightarrow> mt_http_res \<Rightarrow> 's \<Rightarrow> (bool \<times> mt_http_res \<times> 's) option) option"
  hd_not_found :: "'s handler option"
  hd_n_conns :: nat
  hd_conns :: "mt_http_conn list"

definition mt_httpd_create :: "'s mt_httpd" where
  "mt_httpd_create = \<lparr>hd_routes = [], hd_middleware = None, hd_not_found = None, hd_n_conns = 0, hd_conns = []\<rparr>"

definition mt_httpd_route :: "string \<Rightarrow> string \<Rightarrow> 's handler \<Rightarrow> 's mt_httpd \<Rightarrow> mt_err \<times> 's mt_httpd" where
  "mt_httpd_route method pattern f h =
    (if length (hd_routes h) \<ge> MT_HTTPD_MAX_ROUTES then (MT_ERR_LIMIT, h)
     else (MT_OK, h\<lparr>hd_routes := hd_routes h @ [\<lparr>rt_method = take 7 method, rt_pattern = take 255 pattern, rt_fn = f\<rparr>]\<rparr>))"

definition is_param :: "string \<Rightarrow> bool" where
  "is_param p \<longleftrightarrow> length p \<ge> 2 \<and> hd p = CHR ''{'' \<and> last p = CHR ''}''"

fun match_segments :: "string list \<Rightarrow> string list \<Rightarrow> kv list \<Rightarrow> kv list option" where
  "match_segments (p # ps) (s # ss) params =
    (if is_param p
     then if length params \<ge> MT_HTTPD_MAX_PARAMS then None
          else match_segments ps ss (params @ [\<lparr>kv_name = take 63 (butlast (tl p)), kv_value = take 511 s\<rparr>])
     else if p \<noteq> s then None
     else match_segments ps ss params)"
| "match_segments [] [] params = Some params"
| "match_segments _ _ params = None"

fun match_route :: "'s route list \<Rightarrow> mt_http_req \<Rightarrow> ('s route \<times> mt_http_req) option" where
  "match_route [] req = None"
| "match_route (r # rs) req =
    (if rt_method r \<noteq> rq_method req then match_route rs req
     else case match_segments (split_segments MT_HTTPD_MAX_SEGMENTS (rt_pattern r))
                 (split_segments MT_HTTPD_MAX_SEGMENTS (rq_path req)) [] of
       None \<Rightarrow> match_route rs req
     | Some params \<Rightarrow> Some (r, req\<lparr>rq_params := params\<rparr>))"

text \<open>The answer to a request: the gate, the route, the handler.\<close>

definition dispatch :: "'j json_lib \<Rightarrow> nat \<Rightarrow> 's mt_httpd \<Rightarrow> mt_http_req \<Rightarrow> 's \<Rightarrow> (mt_http_res \<times> 's) option" where
  "dispatch J fuel h req s =
    (case (case hd_middleware h of None \<Rightarrow> Some (True, http_res_zero, s) | Some mw \<Rightarrow> mw req http_res_zero s) of
       None \<Rightarrow> None
     | Some (proceed, res, s) \<Rightarrow>
         (case (if \<not> proceed then Some (res, s)
                else case match_route (hd_routes h) req of
                  Some (r, req) \<Rightarrow> rt_fn r req res s
                | None \<Rightarrow>
                    (case hd_not_found h of
                       Some f \<Rightarrow> f req res s
                     | None \<Rightarrow> map_option (\<lambda>res. (res, s)) (mt_http_res_write_error J fuel 404 ''not found'' res))) of
            None \<Rightarrow> None
          | Some (res, s) \<Rightarrow>
              if rs_responded res then Some (res, s)
              else map_option (\<lambda>res. (res, s)) (mt_http_res_write_error J fuel 500 ''handler produced no response'' res)))"

definition wants_close :: "nat \<Rightarrow> mt_http_conn \<Rightarrow> bool" where
  "wants_close n_conns c =
    (let hdr = find_header (rq_headers (hc_req c)) ''Connection'';
         want = (case hdr of
                   None \<Rightarrow> hc_http_1_0 c
                 | Some v \<Rightarrow> if strcaseeq v ''keep-alive'' then False else if strcaseeq v ''close'' then True else hc_http_1_0 c)
     in want \<or> n_conns > MT_HTTPD_MAX_CONNS)"

definition handle_complete_request ::
  "'j json_lib \<Rightarrow> nat \<Rightarrow> 's mt_httpd \<Rightarrow> mt_http_conn \<Rightarrow> 's \<Rightarrow> (mt_http_conn \<times> 's) option" where
  "handle_complete_request J fuel h c s =
    (let req = (hc_req c)\<lparr>rq_body := take (hc_content_length c) (drop (hc_header_end c) (hc_rbuf c))\<rparr>;
         c = c\<lparr>hc_req := req, hc_close_after_write := wants_close (hd_n_conns h) c\<rparr>
     in case dispatch J fuel h req s of
          None \<Rightarrow> None
        | Some (res, s) \<Rightarrow>
            (case build_response_bytes (hc_close_after_write c) res of
               None \<Rightarrow> None
             | Some bytes \<Rightarrow> Some (c\<lparr>hc_wbuf := bytes, hc_wbuf_sent := 0\<rparr>, s)))"

section \<open>Writing, and the connections of the server\<close>

text \<open>
  What \<^verbatim>\<open>send\<close> does: it takes some of the bytes, or it fails; the end of the list is \<^verbatim>\<open>EAGAIN\<close>.  The result is the bytes sent and the
  connection, or none when it is closed.  The watch of the event loop changes with the phase, which is the state of the buffers.
\<close>

datatype sock_out = Sent nat | SendFailed

fun start_write :: "mt_http_conn \<Rightarrow> sock_out list \<Rightarrow> string \<times> mt_http_conn option" where
  "start_write c outs =
    (if hc_wbuf_sent c < length (hc_wbuf c)
     then (case outs of
             [] \<Rightarrow> ([], Some c)
           | SendFailed # _ \<Rightarrow> ([], None)
           | Sent n # outs \<Rightarrow>
               let n = min n (length (hc_wbuf c) - hc_wbuf_sent c)
               in (case start_write (c\<lparr>hc_wbuf_sent := hc_wbuf_sent c + n\<rparr>) outs of
                     (bytes, c') \<Rightarrow> (take n (drop (hc_wbuf_sent c) (hc_wbuf c)) @ bytes, c')))
     else if hc_close_after_write c then ([], None)
     else ([], Some (conn_reset_for_next_request c)))"

declare start_write.simps [simp del]

definition put_conn :: "nat \<Rightarrow> mt_http_conn option \<Rightarrow> 's mt_httpd \<Rightarrow> 's mt_httpd" where
  "put_conn fd c h =
    (case c of
       Some c \<Rightarrow> h\<lparr>hd_conns := map (\<lambda>d. if hc_fd d = fd then c else d) (hd_conns h)\<rparr>
     | None \<Rightarrow> h)"

definition conn_close :: "nat \<Rightarrow> 's mt_httpd \<Rightarrow> 's mt_httpd" where
  "conn_close fd h =
    (if \<exists>d \<in> set (hd_conns h). hc_fd d = fd
     then h\<lparr>hd_conns := remove1 (the (List.find (\<lambda>d. hc_fd d = fd) (hd_conns h))) (hd_conns h), hd_n_conns := hd_n_conns h - 1\<rparr>
     else h)"

definition finish_write :: "nat \<Rightarrow> string \<times> mt_http_conn option \<Rightarrow> 's mt_httpd \<Rightarrow> 's mt_httpd" where
  "finish_write fd r h = (case snd r of None \<Rightarrow> conn_close fd h | Some c \<Rightarrow> put_conn fd (Some c) h)"

definition on_conn_writable :: "bool \<Rightarrow> mt_http_conn \<Rightarrow> sock_out list \<Rightarrow> 's mt_httpd \<Rightarrow> string \<times> 's mt_httpd" where
  "on_conn_writable hup c outs h =
    (if hup then ([], conn_close (hc_fd c) h)
     else let r = start_write c outs in (fst r, finish_write (hc_fd c) r h))"

text \<open>The result is the bytes sent, the server, the state of the handlers and what is left in the socket.\<close>

definition on_conn_readable ::
  "'j json_lib \<Rightarrow> nat \<Rightarrow> bool \<Rightarrow> mt_http_conn \<Rightarrow> sock_in list \<Rightarrow> sock_out list \<Rightarrow> 's mt_httpd \<Rightarrow> 's
    \<Rightarrow> (string \<times> 's mt_httpd \<times> 's \<times> sock_in list) option" where
  "on_conn_readable J fuel hup c ins outs h s =
    (if hup then Some ([], conn_close (hc_fd c) h, s, ins)
     else case read_loop c ins of
       None \<Rightarrow> None
     | Some (Wait, c, ins) \<Rightarrow> Some ([], put_conn (hc_fd c) (Some c) h, s, ins)
     | Some (CloseAfter answer, c, ins) \<Rightarrow> Some (answer, conn_close (hc_fd c) h, s, ins)
     | Some (Complete, c, ins) \<Rightarrow>
         (case handle_complete_request J fuel h c s of
            None \<Rightarrow> None
          | Some (c, s) \<Rightarrow> let r = start_write c outs in Some (fst r, finish_write (hc_fd c) r h, s, ins)))"

definition on_accept :: "nat \<Rightarrow> 's mt_httpd \<Rightarrow> 's mt_httpd" where
  "on_accept fd h =
    (if hd_n_conns h \<ge> MT_HTTPD_MAX_CONNS then h
     else h\<lparr>hd_n_conns := hd_n_conns h + 1, hd_conns := conn_new fd # hd_conns h\<rparr>)"

section \<open>The request does not depend on how it arrives\<close>

text \<open>
  What a stream of bytes asks for, read as a whole: the answer that ends the connection, a request that is complete with the version, or
  more bytes.
\<close>

datatype stream_says = Refuse string | Request mt_http_req bool | Incomplete

definition content_length_of :: "mt_http_req \<Rightarrow> nat" where
  "content_length_of req = (case find_header (rq_headers req) ''Content-Length'' of None \<Rightarrow> 0 | Some v \<Rightarrow> c_strtoul v)"

definition read_stream :: "string \<Rightarrow> stream_says" where
  "read_stream s =
    (case find_marker 0 (take MT_HTTPD_MAX_HEADER_BYTES s) of
       None \<Rightarrow> if length s \<ge> MT_HTTPD_MAX_HEADER_BYTES then Refuse (status_only ''431 Request Header Fields Too Large'') else Incomplete
     | Some e \<Rightarrow>
         (case parse_headers (take e s) of
            None \<Rightarrow> Refuse (status_only ''400 Bad Request'')
          | Some (req, http10) \<Rightarrow>
              if content_length_of req > MT_HTTPD_MAX_BODY_BYTES then Refuse (status_only ''413 Payload Too Large'')
              else if length s < e + content_length_of req then Incomplete
              else Request (req\<lparr>rq_body := take (content_length_of req) (drop e s)\<rparr>) http10))"

fun bytes_in :: "sock_in list \<Rightarrow> string" where
  "bytes_in [] = []"
| "bytes_in (Piece p # ins) = p @ bytes_in ins"
| "bytes_in (_ # ins) = []"

fun pieces_only :: "sock_in list \<Rightarrow> bool" where
  "pieces_only [] = True"
| "pieces_only (Piece p # ins) = pieces_only ins"
| "pieces_only _ = False"

lemma find_marker_bounds: "find_marker i s = Some e \<Longrightarrow> i < e \<and> e \<le> i + length s"
proof (induction i s rule: find_marker.induct)
  case (1 i a b s)
  have "2 \<le> length s" if "take 4 (a # b # s) = [CR, LF, CR, LF]"
    using arg_cong [OF that, of length] by simp
  then show ?case using 1 by (auto split: if_splits)
qed simp_all

lemma take4_append: "take 4 (a # b # s) \<noteq> [CR, LF, CR, LF] \<Longrightarrow> take 4 (a # b # s @ t) = [CR, LF, CR, LF] \<Longrightarrow>
    a = CR \<and> b = LF \<and> (s = [] \<or> s = [CR])"
  by (cases s rule: remdups_adj.cases) (auto simp: take_Cons')

lemma find_marker_short: "find_marker i [CR, LF] = None" "find_marker i [CR, LF, CR] = None"
  by simp_all

lemma find_marker_append: "find_marker i s = Some e \<Longrightarrow> find_marker i (s @ t) = Some e"
proof (induction i s rule: find_marker.induct)
  case (1 i a b s)
  show ?case
  proof (cases "take 4 (a # b # s) = [CR, LF, CR, LF]")
    case True
    then have "take 4 ((a # b # s) @ t) = [CR, LF, CR, LF]"
      by (cases s rule: remdups_adj.cases) (auto simp: take_Cons')
    then show ?thesis using 1(2) True by simp
  next
    case False
    note F = False
    show ?thesis
    proof (cases "take 4 (a # b # s @ t) = [CR, LF, CR, LF]")
      case True
      have "a = CR \<and> b = LF \<and> (s = [] \<or> s = [CR])" by (rule take4_append [OF F True])
      then have "find_marker i (a # b # s) = None" by (elim conjE disjE) (simp_all only: find_marker_short)
      then show ?thesis using 1(2) by simp
    next
      case N: False
      then show ?thesis using 1 F by (auto split: if_splits)
    qed
  qed
qed simp_all


text \<open>A connection in the middle of a request; \<open>old\<close> is what it remembers of earlier requests.\<close>

definition reading :: "bool \<Rightarrow> mt_http_conn \<Rightarrow> bool" where
  "reading old c \<longleftrightarrow>
    (if hc_headers_done c
     then find_marker 0 (hc_rbuf c) = Some (hc_header_end c) \<and> hc_header_end c \<le> MT_HTTPD_MAX_HEADER_BYTES \<and>
       (\<exists>v. parse_headers (take (hc_header_end c) (hc_rbuf c)) = Some (hc_req c, v) \<and> hc_http_1_0 c = (old \<or> v)) \<and>
       hc_content_length c = content_length_of (hc_req c) \<and> hc_content_length c \<le> MT_HTTPD_MAX_BODY_BYTES \<and>
       length (hc_rbuf c) < hc_header_end c + hc_content_length c
     else find_marker 0 (hc_rbuf c) = None \<and> length (hc_rbuf c) < MT_HTTPD_MAX_HEADER_BYTES \<and> hc_http_1_0 c = old)"

lemma grow_simps [simp]:
  "hc_rbuf (grow_rbuf c) = hc_rbuf c" "cap_needed (grow_rbuf c) = cap_needed c" "hc_headers_done (grow_rbuf c) = hc_headers_done c"
  "hc_header_end (grow_rbuf c) = hc_header_end c" "hc_content_length (grow_rbuf c) = hc_content_length c" "hc_req (grow_rbuf c) = hc_req c"
  "hc_http_1_0 (grow_rbuf c) = hc_http_1_0 c" "hc_fd (grow_rbuf c) = hc_fd c" "hc_wbuf (grow_rbuf c) = hc_wbuf c" "hc_wbuf_sent (grow_rbuf c) = hc_wbuf_sent c"
  "cap_needed c < hc_rbuf_cap (grow_rbuf c)"
  by (auto simp: grow_rbuf_def cap_needed_def)

lemma reading_room: "reading old c \<Longrightarrow> length (hc_rbuf c) < cap_needed c"
  by (auto simp: reading_def cap_needed_def split: if_splits)

lemma read_loop_unfold:
  assumes "reading old c"
  shows "read_loop c ins =
    (case ins of
       [] \<Rightarrow> Some (Wait, grow_rbuf c, [])
     | Failed # rest \<Rightarrow> Some (CloseAfter [], grow_rbuf c, rest)
     | Eof # rest \<Rightarrow> Some (CloseAfter [], grow_rbuf c, rest)
     | Piece p # rest \<Rightarrow>
         let want = cap_needed c - length (hc_rbuf c); rest = (if length p > want then Piece (drop want p) # rest else rest)
         in if p = [] then read_loop (grow_rbuf c) rest
            else case scan_headers ((grow_rbuf c)\<lparr>hc_rbuf := hc_rbuf c @ take want p\<rparr>) of
              Inl answer \<Rightarrow> Some (CloseAfter answer, grow_rbuf c, rest)
            | Inr c \<Rightarrow>
                if hc_headers_done c \<and> length (hc_rbuf c) \<ge> hc_header_end c + hc_content_length c then Some (Complete, c, rest)
                else read_loop c rest)"
proof -
  have "\<not> (length (hc_rbuf c) > cap_needed c \<or> cap_needed c > hc_rbuf_cap (grow_rbuf c))" "cap_needed c \<noteq> length (hc_rbuf c)"
    using reading_room [OF assms] grow_simps(11) [of c] by linarith+
  then show ?thesis
    by (subst read_loop.simps) (simp add: Let_def del: grow_simps(11) split: list.split sock_in.split)
qed

lemma find_marker_take: "find_marker i s = Some e \<Longrightarrow> e \<le> i + n \<Longrightarrow> find_marker i (take n s) = Some e"
proof (induction i s arbitrary: n rule: find_marker.induct)
  case (1 i a b s)
  have b: "i + 2 \<le> e" using find_marker_bounds [of "i + 1"] 1(2) by (fastforce split: if_splits)
  then obtain m where m: "n = Suc (Suc m)" using 1(3) by (metis add_le_cancel_left le_trans le_Suc_ex add_2_eq_Suc)
  show ?case
  proof (cases "take 4 (a # b # s) = [CR, LF, CR, LF]")
    case True
    then have "e = i + 4" using 1(2) by simp
    then have "4 \<le> n" using 1(3) by simp
    then have "take 4 (take n (a # b # s)) = [CR, LF, CR, LF]" using True by (simp only: take_take min_absorb1)
    then show ?thesis using \<open>e = i + 4\<close> by (simp add: m)
  next
    case False
    have "take 4 (take n (a # b # s)) \<noteq> [CR, LF, CR, LF]"
    proof
      assume h: "take 4 (take n (a # b # s)) = [CR, LF, CR, LF]"
      have "length (take 4 (take n (a # b # s))) = 4" unfolding h by simp
      then have "4 \<le> n" unfolding length_take by linarith
      then show False using h False by (simp only: take_take min_absorb1)
    qed
    moreover have "find_marker (i + 1) (take (Suc m) (b # s)) = Some e" if "\<not> (a = LF \<and> b = LF)"
    proof (rule 1(1) [OF False that])
      show "find_marker (i + 1) (b # s) = Some e" using 1(2) by (simp only: find_marker.simps that False if_False)
      show "e \<le> i + 1 + Suc m" using 1(3) by (simp add: m)
    qed
    ultimately show ?thesis using False 1(2) by (cases "a = LF \<and> b = LF") (auto simp: m simp del: take_Cons_numeral)
  qed
qed simp_all

text \<open>What the bytes read so far say about the whole stream.\<close>

lemma stream_headers:
  assumes "find_marker 0 b = Some e" "length b \<le> MT_HTTPD_MAX_HEADER_BYTES \<or> e \<le> MT_HTTPD_MAX_HEADER_BYTES"
  shows "find_marker 0 (take MT_HTTPD_MAX_HEADER_BYTES (b @ t)) = Some e" "take e (b @ t) = take e b" "e \<le> length b"
proof -
  show e: "e \<le> length b" using find_marker_bounds [OF assms(1)] by simp
  then show "take e (b @ t) = take e b" by simp
  show "find_marker 0 (take MT_HTTPD_MAX_HEADER_BYTES (b @ t)) = Some e"
  proof (cases "length b \<le> MT_HTTPD_MAX_HEADER_BYTES")
    case True
    then show ?thesis using find_marker_append [OF assms(1)] by simp
  next
    case False
    then have "e \<le> MT_HTTPD_MAX_HEADER_BYTES" using assms(2) by simp
    then show ?thesis using find_marker_take [OF assms(1), of MT_HTTPD_MAX_HEADER_BYTES] False by simp
  qed
qed

lemma scan_unfinished:
  assumes "reading old c" "\<not> hc_headers_done c" "length g \<le> cap_needed c - length (hc_rbuf c)"
    and c1: "c1 = (grow_rbuf c)\<lparr>hc_rbuf := hc_rbuf c @ g\<rparr>"
  shows "(case scan_headers c1 of
     Inl a \<Rightarrow> read_stream (hc_rbuf c @ g @ t) = Refuse a
   | Inr c2 \<Rightarrow> hc_rbuf c2 = hc_rbuf c @ g \<and> hc_fd c2 = hc_fd c \<and>
       (if hc_headers_done c2 \<and> length (hc_rbuf c2) \<ge> hc_header_end c2 + hc_content_length c2
        then \<exists>v. read_stream (hc_rbuf c @ g @ t) =
               Request ((hc_req c2)\<lparr>rq_body := take (hc_content_length c2) (drop (hc_header_end c2) (hc_rbuf c2))\<rparr>) v \<and> hc_http_1_0 c2 = (old \<or> v)
        else reading old c2))"
proof (cases "find_marker 0 (hc_rbuf c @ g)")
  case None
  have len: "length (hc_rbuf c @ g) \<le> MT_HTTPD_MAX_HEADER_BYTES"
    using assms(1-3) reading_room [OF assms(1)] by (simp add: cap_needed_def)
  show ?thesis
  proof (cases "length (hc_rbuf c @ g) = MT_HTTPD_MAX_HEADER_BYTES")
    case True
    then have "take MT_HTTPD_MAX_HEADER_BYTES (hc_rbuf c @ g @ t) = hc_rbuf c @ g" by (metis append.assoc append_eq_conv_conj)
    then show ?thesis using True None assms(2) by (simp add: c1 scan_headers_def read_stream_def)
  next
    case False
    then show ?thesis using None len assms(1,2) by (simp add: c1 scan_headers_def reading_def)
  qed
next
  case (Some e)
  have len: "length (hc_rbuf c @ g) \<le> MT_HTTPD_MAX_HEADER_BYTES"
    using assms(1-3) reading_room [OF assms(1)] by (simp add: cap_needed_def)
  note sh = stream_headers(1) [OF Some disjI1 [OF len], where t = t, unfolded append.assoc]
    stream_headers(2) [OF Some disjI1 [OF len], where t = t, unfolded append.assoc] stream_headers(3) [OF Some disjI1 [OF len]]
  have old: "hc_http_1_0 c = old" using assms(1,2) by (simp add: reading_def)
  show ?thesis
  proof (cases "parse_headers (take e (hc_rbuf c @ g))")
    case None
    then show ?thesis using Some sh assms(2) by (simp add: c1 scan_headers_def read_stream_def)
  next
    case (Some rv)
    obtain req v where rv: "rv = (req, v)" by (rule prod.exhaust)
    define cl where "cl = content_length_of req"
    have scan: "scan_headers c1 = (if cl > MT_HTTPD_MAX_BODY_BYTES then Inl (status_only ''413 Payload Too Large'')
        else Inr (c1\<lparr>hc_header_end := e, hc_headers_done := True, hc_req := req, hc_http_1_0 := old \<or> v, hc_content_length := cl\<rparr>))"
      using \<open>find_marker 0 (hc_rbuf c @ g) = Some e\<close> Some assms(2) old
      by (simp add: c1 scan_headers_def rv cl_def content_length_of_def Let_def)
    have stream: "read_stream (hc_rbuf c @ g @ t) =
        (if cl > MT_HTTPD_MAX_BODY_BYTES then Refuse (status_only ''413 Payload Too Large'')
         else if length (hc_rbuf c @ g @ t) < e + cl then Incomplete
         else Request (req\<lparr>rq_body := take cl (drop e (hc_rbuf c @ g @ t))\<rparr>) v)"
      by (simp only: read_stream_def sh Some rv option.case prod.case cl_def)
    have "take cl (drop e (hc_rbuf c @ g @ t)) = take cl (drop e (hc_rbuf c @ g))" if "e + cl \<le> length (hc_rbuf c @ g)"
      using that by (metis (no_types, lifting) append.assoc le_diff_conv2 length_drop sh(3) take_append drop_append diff_is_0_eq
          append_Nil2 take0 add.commute)
    then show ?thesis
      unfolding scan stream using Some sh(3) len \<open>find_marker 0 (hc_rbuf c @ g) = Some e\<close> c1
      by (cases "cl > MT_HTTPD_MAX_BODY_BYTES"; cases "e + cl \<le> length (hc_rbuf c @ g)") (simp_all add: rv reading_def cl_def not_le)
  qed
qed

lemma scan_done:
  assumes "reading old c" "hc_headers_done c" "length g \<le> cap_needed c - length (hc_rbuf c)"
    and c1: "c1 = (grow_rbuf c)\<lparr>hc_rbuf := hc_rbuf c @ g\<rparr>"
  shows "scan_headers c1 = Inr c1 \<and>
    (if length (hc_rbuf c1) \<ge> hc_header_end c1 + hc_content_length c1
     then \<exists>v. read_stream (hc_rbuf c @ g @ t) =
            Request ((hc_req c1)\<lparr>rq_body := take (hc_content_length c1) (drop (hc_header_end c1) (hc_rbuf c1))\<rparr>) v \<and> hc_http_1_0 c1 = (old \<or> v)
     else reading old c1)"
proof -
  let ?e = "hc_header_end c" and ?cl = "hc_content_length c"
  obtain v where v: "find_marker 0 (hc_rbuf c) = Some ?e" "?e \<le> MT_HTTPD_MAX_HEADER_BYTES"
      "parse_headers (take ?e (hc_rbuf c)) = Some (hc_req c, v)" "hc_http_1_0 c = (old \<or> v)" "?cl = content_length_of (hc_req c)"
      "?cl \<le> MT_HTTPD_MAX_BODY_BYTES" "length (hc_rbuf c) < ?e + ?cl"
    using assms(1,2) by (auto simp: reading_def)
  note sh = stream_headers(1,2) [OF v(1) disjI2 [OF v(2)], where t = "g @ t"] stream_headers(3) [OF v(1) disjI2 [OF v(2)]]
  have stream: "read_stream (hc_rbuf c @ g @ t) =
      (if length (hc_rbuf c @ g @ t) < ?e + ?cl then Incomplete
       else Request ((hc_req c)\<lparr>rq_body := take ?cl (drop ?e (hc_rbuf c @ g @ t))\<rparr>) v)"
    using v(6) by (simp only: read_stream_def sh v(3) v(5) option.case prod.case not_less [symmetric] if_False)
  have "take ?cl (drop ?e (hc_rbuf c @ g @ t)) = take ?cl (drop ?e (hc_rbuf c @ g))" if "?e + ?cl \<le> length (hc_rbuf c @ g)"
    using that sh(3) by (simp add: take_append drop_append)
  moreover have "take ?e (hc_rbuf c @ g) = take ?e (hc_rbuf c)" using sh(3) by simp
  moreover have "find_marker 0 (hc_rbuf c @ g) = Some ?e" by (rule find_marker_append [OF v(1)])
  moreover have "scan_headers c1 = Inr c1" using assms(2) by (simp add: scan_headers_def c1)
  ultimately show ?thesis
    using stream v sh(3) assms(2)
    by (cases "?e + ?cl \<le> length (hc_rbuf c @ g)") (auto simp: c1 reading_def simp del: take_append drop_append)
qed

lemma reading_incomplete:
  assumes "reading old c"
  shows "read_stream (hc_rbuf c) = Incomplete"
proof (cases "hc_headers_done c")
  case True
  then obtain v where v: "find_marker 0 (hc_rbuf c) = Some (hc_header_end c)" "hc_header_end c \<le> MT_HTTPD_MAX_HEADER_BYTES"
      "parse_headers (take (hc_header_end c) (hc_rbuf c)) = Some (hc_req c, v)" "hc_content_length c = content_length_of (hc_req c)"
      "hc_content_length c \<le> MT_HTTPD_MAX_BODY_BYTES" "length (hc_rbuf c) < hc_header_end c + hc_content_length c"
    using assms by (auto simp: reading_def)
  then show ?thesis
    using stream_headers(1) [OF v(1) disjI2 [OF v(2)], where t = "[]"] by (simp add: read_stream_def)
next
  case False
  then show ?thesis using assms by (simp add: reading_def read_stream_def)
qed

lemma reading_grown: "reading old c \<Longrightarrow> reading old (grow_rbuf c)"
  by (auto simp: reading_def)

text \<open>The loop reads what the stream says, for every connection in the middle of a request.\<close>

definition agrees :: "bool \<Rightarrow> stream_says \<Rightarrow> read_result \<Rightarrow> mt_http_conn \<Rightarrow> bool" where
  "agrees old says r c \<longleftrightarrow>
    (case says of
       Incomplete \<Rightarrow> r = Wait \<and> reading old c
     | Refuse a \<Rightarrow> r = CloseAfter a
     | Request req v \<Rightarrow> r = Complete \<and> hc_http_1_0 c = (old \<or> v) \<and>
         req = (hc_req c)\<lparr>rq_body := take (hc_content_length c) (drop (hc_header_end c) (hc_rbuf c))\<rparr>)"

lemma read_loop_agrees:
  assumes "reading old c" "pieces_only ins"
  shows "\<exists>r c' rest. read_loop c ins = Some (r, c', rest) \<and> agrees old (read_stream (hc_rbuf c @ bytes_in ins)) r c' \<and>
    (r = Wait \<longrightarrow> rest = [] \<and> hc_rbuf c' = hc_rbuf c @ bytes_in ins)"
  using assms
proof (induction "waiting_bytes ins" arbitrary: c ins rule: less_induct)
  case less
  show ?case
  proof (cases ins)
    case Nil
    then show ?thesis
      using reading_incomplete [OF less.prems(1)] reading_grown [OF less.prems(1)]
      by (simp add: read_loop_unfold [OF less.prems(1)] agrees_def)
  next
    case (Cons i rest0)
    then obtain p where i: "i = Piece p" using less.prems(2) by (cases i) auto
    define want where "want = cap_needed c - length (hc_rbuf c)"
    define g where "g = take want p"
    define rest where "rest = (if length p > want then Piece (drop want p) # rest0 else rest0)"
    define c1 where "c1 = (grow_rbuf c)\<lparr>hc_rbuf := hc_rbuf c @ g\<rparr>"
    have want: "0 < want" using reading_room [OF less.prems(1)] by (simp add: want_def)
    have bytes: "g @ bytes_in rest = bytes_in ins" by (simp add: g_def rest_def Cons i)
    have ok: "pieces_only rest" using less.prems(2) by (simp add: rest_def Cons i)
    show ?thesis
    proof (cases "p = []")
      case True
      then show ?thesis
        using less.hyps [OF _ reading_grown [OF less.prems(1)], of rest0] less.prems(2)
        by (simp add: read_loop_unfold [OF less.prems(1)] Cons i)
    next
      case False
      then have smaller: "waiting_bytes rest < waiting_bytes ins" using want by (auto simp: rest_def Cons i)
      have unfold: "read_loop c ins =
          (case scan_headers c1 of
             Inl answer \<Rightarrow> Some (CloseAfter answer, grow_rbuf c, rest)
           | Inr c \<Rightarrow>
               if hc_headers_done c \<and> length (hc_rbuf c) \<ge> hc_header_end c + hc_content_length c then Some (Complete, c, rest)
               else read_loop c rest)"
        unfolding read_loop_unfold [OF less.prems(1)] Cons i list.case sock_in.case Let_def want_def [symmetric]
          rest_def [symmetric] g_def [symmetric] c1_def [symmetric]
        using False by simp
      have glen: "length g \<le> cap_needed c - length (hc_rbuf c)" by (simp add: g_def want_def)
      have step: "case scan_headers c1 of
         Inl a \<Rightarrow> read_stream (hc_rbuf c @ g @ bytes_in rest) = Refuse a
       | Inr c2 \<Rightarrow> hc_rbuf c2 = hc_rbuf c @ g \<and>
           (if hc_headers_done c2 \<and> length (hc_rbuf c2) \<ge> hc_header_end c2 + hc_content_length c2
            then \<exists>v. read_stream (hc_rbuf c @ g @ bytes_in rest) =
                   Request ((hc_req c2)\<lparr>rq_body := take (hc_content_length c2) (drop (hc_header_end c2) (hc_rbuf c2))\<rparr>) v \<and>
                   hc_http_1_0 c2 = (old \<or> v)
            else reading old c2)"
      proof (cases "hc_headers_done c")
        case True
        then show ?thesis using scan_done [OF less.prems(1) True glen c1_def, of "bytes_in rest"] by (auto simp: c1_def split: if_splits)
      next
        case False
        show ?thesis using scan_unfinished [OF less.prems(1) False glen c1_def, of "bytes_in rest"] by (auto split: sum.splits)
      qed
      show ?thesis
      proof (cases "scan_headers c1")
        case (Inl a)
        then show ?thesis using step unfold by (simp add: bytes agrees_def)
      next
        case (Inr c2)
        show ?thesis
        proof (cases "hc_headers_done c2 \<and> length (hc_rbuf c2) \<ge> hc_header_end c2 + hc_content_length c2")
          case True
          then show ?thesis using step unfold Inr by (auto simp: bytes agrees_def)
        next
          case f: False
          then have c2: "reading old c2" "hc_rbuf c2 = hc_rbuf c @ g" using step Inr by (auto split: if_splits)
          have "read_loop c ins = read_loop c2 rest" unfolding unfold Inr sum.case using f by (rule if_not_P)
          then show ?thesis using less.hyps [OF smaller c2(1) ok] c2(2) by (simp add: bytes)
        qed
      qed
    qed
  qed
qed

text \<open>Once the bytes say something, more bytes do not change it.\<close>

lemma read_stream_stable:
  assumes "read_stream s \<noteq> Incomplete"
  shows "read_stream (s @ t) = read_stream s"
proof (cases "find_marker 0 (take MT_HTTPD_MAX_HEADER_BYTES s)")
  case None
  then have "MT_HTTPD_MAX_HEADER_BYTES \<le> length s" using assms by (auto simp: read_stream_def split: if_splits)
  then show ?thesis using None by (simp add: read_stream_def)
next
  case (Some e)
  have e: "e \<le> length s" "e \<le> MT_HTTPD_MAX_HEADER_BYTES" using find_marker_bounds [OF Some] by simp_all
  have m: "find_marker 0 (take MT_HTTPD_MAX_HEADER_BYTES (s @ t)) = Some e" using find_marker_append [OF Some] by simp
  show ?thesis
  proof (cases "parse_headers (take e s)")
    case None
    then show ?thesis using Some e m by (simp add: read_stream_def)
  next
    case p: (Some rv)
    obtain req v where rv: "rv = (req, v)" by (rule prod.exhaust)
    have "e + content_length_of req \<le> length s \<or> content_length_of req > MT_HTTPD_MAX_BODY_BYTES"
      using assms Some p rv by (auto simp: read_stream_def split: if_splits)
    then show ?thesis using Some p rv e m by (auto simp: read_stream_def)
  qed
qed

text \<open>The callbacks of one request: each finds some pieces in the socket.\<close>

fun read_calls :: "mt_http_conn \<Rightarrow> sock_in list list \<Rightarrow> (read_result \<times> mt_http_conn) option" where
  "read_calls c [] = Some (Wait, c)"
| "read_calls c (ins # inss) =
    (case read_loop c ins of
       None \<Rightarrow> None
     | Some (r, c, _) \<Rightarrow> if r = Wait then read_calls c inss else Some (r, c))"

lemma read_calls_agrees:
  assumes "reading old c" "list_all pieces_only inss"
  shows "\<exists>r c'. read_calls c inss = Some (r, c') \<and> agrees old (read_stream (hc_rbuf c @ concat (map bytes_in inss))) r c'"
  using assms
proof (induction inss arbitrary: c)
  case Nil
  then show ?case using reading_incomplete [OF Nil(1)] by (simp add: agrees_def)
next
  case (Cons ins inss)
  obtain r c' rest where r: "read_loop c ins = Some (r, c', rest)" "agrees old (read_stream (hc_rbuf c @ bytes_in ins)) r c'"
      "r = Wait \<longrightarrow> rest = [] \<and> hc_rbuf c' = hc_rbuf c @ bytes_in ins"
    using read_loop_agrees [OF Cons.prems(1), of ins] Cons.prems(2) by auto
  show ?case
  proof (cases "read_stream (hc_rbuf c @ bytes_in ins) = Incomplete")
    case True
    then have "r = Wait" "reading old c'" using r(2) by (simp_all add: agrees_def)
    then show ?thesis using Cons.IH [of c'] Cons.prems(2) r by simp
  next
    case False
    then have "r \<noteq> Wait" using r(2) by (auto simp: agrees_def split: stream_says.splits)
    then show ?thesis using read_stream_stable [OF False, of "concat (map bytes_in inss)"] r(1,2) by simp
  qed
qed

text \<open>
  C15.  What a connection is asked for does not depend on how the network cuts the bytes: whatever pieces arrive in whatever callbacks, a
  connection between two requests never writes outside its buffer and comes to exactly what the bytes as a whole say.  It waits as long
  as the request is incomplete; it refuses with 400, 413 or 431 when the first line is malformed, when the body announced is larger
  than one MiB, or when the headers do not end within 8192 bytes; otherwise the request it hands on is the one in the headers (up to
  the first blank line, with or without carriage returns) with exactly the announced body.
\<close>

theorem http_request_any_pieces:
  assumes "list_all pieces_only inss" "hc_rbuf c = []" "\<not> hc_headers_done c"
  shows "\<exists>r c'. read_calls c inss = Some (r, c') \<and>
    (case read_stream (concat (map bytes_in inss)) of
       Incomplete \<Rightarrow> r = Wait
     | Refuse answer \<Rightarrow> r = CloseAfter answer
     | Request req http10 \<Rightarrow> r = Complete \<and> hc_http_1_0 c' = (hc_http_1_0 c \<or> http10) \<and>
         req = (hc_req c')\<lparr>rq_body := take (hc_content_length c') (drop (hc_header_end c') (hc_rbuf c'))\<rparr>)"
proof -
  have "reading (hc_http_1_0 c) c" using assms(2,3) by (simp add: reading_def httpd_limits)
  then show ?thesis
    using read_calls_agrees [of "hc_http_1_0 c" c inss] assms(1,2)
    by (cases "read_stream (concat (map bytes_in inss))") (auto simp: agrees_def)
qed

section \<open>The connections of the server\<close>

text \<open>A connection waits for a request, or has bytes of a response left.\<close>

definition conn_ok :: "mt_http_conn \<Rightarrow> bool" where
  "conn_ok c \<longleftrightarrow> (if hc_wbuf c = [] then \<exists>old. reading old c else hc_wbuf_sent c < length (hc_wbuf c))"

lemma read_loop_total:
  assumes "reading old c"
  shows "\<exists>r c' rest. read_loop c ins = Some (r, c', rest) \<and> (r = Wait \<longrightarrow> reading old c') \<and> hc_fd c' = hc_fd c \<and> hc_wbuf c' = hc_wbuf c"
  using assms
proof (induction "waiting_bytes ins" arbitrary: c ins rule: less_induct)
  case less
  note unfold = read_loop_unfold [OF less.prems] and room = reading_room [OF less.prems]
  show ?case
  proof (cases ins)
    case Nil
    then show ?thesis using reading_grown [OF less.prems] by (simp add: unfold)
  next
    case (Cons i rest0)
    show ?thesis
    proof (cases i)
      case i: (Piece p)
      define want where "want = cap_needed c - length (hc_rbuf c)"
      define rest where "rest = (if length p > want then Piece (drop want p) # rest0 else rest0)"
      define c1 where "c1 = (grow_rbuf c)\<lparr>hc_rbuf := hc_rbuf c @ take want p\<rparr>"
      show ?thesis
      proof (cases "p = []")
        case True
        then show ?thesis using less.hyps [OF _ reading_grown [OF less.prems], of rest0] by (simp add: unfold Cons i)
      next
        case False
        then have smaller: "waiting_bytes rest < waiting_bytes ins" using room by (auto simp: rest_def want_def Cons i)
        have u: "read_loop c ins =
            (case scan_headers c1 of
               Inl answer \<Rightarrow> Some (CloseAfter answer, grow_rbuf c, rest)
             | Inr c \<Rightarrow>
                 if hc_headers_done c \<and> length (hc_rbuf c) \<ge> hc_header_end c + hc_content_length c then Some (Complete, c, rest)
                 else read_loop c rest)"
          unfolding unfold Cons i list.case sock_in.case Let_def want_def [symmetric] rest_def [symmetric] c1_def [symmetric]
          using False by simp
        have len: "length (take want p) \<le> cap_needed c - length (hc_rbuf c)" by (simp add: want_def)
        have "hc_fd c2 = hc_fd c \<and> hc_wbuf c2 = hc_wbuf c" if "scan_headers c1 = Inr c2" for c2
          using that by (auto simp: scan_headers_def c1_def Let_def split: if_splits option.splits prod.splits)
        moreover have "reading old c2"
          if "scan_headers c1 = Inr c2" "\<not> (hc_headers_done c2 \<and> length (hc_rbuf c2) \<ge> hc_header_end c2 + hc_content_length c2)" for c2
        proof (cases "hc_headers_done c")
          case True
          then show ?thesis using scan_done [OF less.prems True len c1_def, of "[]"] that by (auto simp: c1_def split: if_splits)
        next
          case F: False
          then show ?thesis using scan_unfinished [OF less.prems F len c1_def, of "[]"] that by (auto split: if_splits)
        qed
        ultimately show ?thesis
          using less.hyps [OF smaller] by (cases "scan_headers c1") (simp_all add: u, metis)
      qed
    qed (simp_all add: unfold Cons)
  qed
qed

lemma head_put_nonempty: "head_put text head = Some h \<Longrightarrow> text \<noteq> [] \<or> head \<noteq> [] \<Longrightarrow> h \<noteq> []"
  by (auto simp: head_put_def split: if_splits)

lemma response_nonempty: "build_response_bytes cl res = Some b \<Longrightarrow> b \<noteq> []"
  by (auto simp: build_response_bytes_def split: option.splits if_splits dest!: head_put_nonempty)

lemma complete_conn:
  assumes "handle_complete_request J fuel h c s = Some (c', s')"
  shows "hc_wbuf c' \<noteq> [] \<and> hc_wbuf_sent c' = 0 \<and> hc_fd c' = hc_fd c"
  using assms response_nonempty by (auto simp: handle_complete_request_def Let_def split: option.splits prod.splits)

lemma reset_reading: "reading (hc_http_1_0 c) (conn_reset_for_next_request c)"
  by (simp add: reading_def conn_reset_for_next_request_def httpd_limits)

lemma start_write_ok:
  assumes "hc_wbuf c \<noteq> []" "start_write c outs = (b, Some c')"
  shows "conn_ok c' \<and> hc_fd c' = hc_fd c"
  using assms
proof (induction outs arbitrary: c b)
  case Nil
  then show ?case
    using reset_reading [of c]
    by (subst (asm) start_write.simps) (auto simp: conn_ok_def conn_reset_for_next_request_def split: if_splits)
next
  case (Cons x outs)
  show ?case
  proof (cases "hc_wbuf_sent c < length (hc_wbuf c)")
    case False
    then show ?thesis
      using Cons.prems reset_reading [of c]
      by (subst (asm) start_write.simps) (auto simp: conn_ok_def conn_reset_for_next_request_def split: if_splits)
  next
    case True
    then obtain n where x: "x = Sent n" using Cons.prems(2) by (cases x) (simp_all add: start_write.simps)
    define m where "m = min n (length (hc_wbuf c) - hc_wbuf_sent c)"
    obtain b' where "start_write (c\<lparr>hc_wbuf_sent := hc_wbuf_sent c + m\<rparr>) outs = (b', Some c')"
      using Cons.prems(2) True by (subst (asm) start_write.simps) (auto simp: x m_def Let_def split: prod.splits)
    then show ?thesis using Cons.IH [of "c\<lparr>hc_wbuf_sent := hc_wbuf_sent c + m\<rparr>"] Cons.prems(1) by simp
  qed
qed

definition httpd_inv :: "'s mt_httpd \<Rightarrow> bool" where
  "httpd_inv h \<longleftrightarrow> hd_n_conns h = length (hd_conns h) \<and> hd_n_conns h \<le> MT_HTTPD_MAX_CONNS \<and>
    distinct (map hc_fd (hd_conns h)) \<and> list_all conn_ok (hd_conns h)"

lemma httpd_close: "httpd_inv h \<Longrightarrow> httpd_inv (conn_close fd h)"
proof -
  assume h: "httpd_inv h"
  show ?thesis
  proof (cases "\<exists>d \<in> set (hd_conns h). hc_fd d = fd")
    case True
    then obtain d where d: "List.find (\<lambda>d. hc_fd d = fd) (hd_conns h) = Some d" "d \<in> set (hd_conns h)"
      by (metis (mono_tags, lifting) find_None_iff find_Some_iff nth_mem not_None_eq)
    have "distinct (map hc_fd (remove1 d (hd_conns h)))"
      using h by (simp add: httpd_inv_def distinct_map distinct_remove1 inj_on_def)
    moreover have "list_all conn_ok (remove1 d (hd_conns h))"
      using h set_remove1_subset [of d "hd_conns h"] by (auto simp: httpd_inv_def list_all_iff)
    ultimately show ?thesis
      using h True d by (auto simp: conn_close_def httpd_inv_def length_remove1)
  next
    case False
    then show ?thesis using h by (simp add: conn_close_def)
  qed
qed

lemma httpd_put: "httpd_inv h \<Longrightarrow> conn_ok c \<Longrightarrow> httpd_inv (put_conn (hc_fd c) (Some c) h)"
proof -
  assume h: "httpd_inv h" "conn_ok c"
  have "map hc_fd (map (\<lambda>d. if hc_fd d = hc_fd c then c else d) ds) = map hc_fd ds" for ds by (induction ds) auto
  then show ?thesis using h by (auto simp: httpd_inv_def put_conn_def list_all_iff simp del: map_map)
qed

lemma httpd_finish: "httpd_inv h \<Longrightarrow> hc_wbuf c \<noteq> [] \<Longrightarrow> httpd_inv (finish_write (hc_fd c) (start_write c outs) h)"
proof (cases "snd (start_write c outs)")
  case None
  then show "httpd_inv h \<Longrightarrow> ?thesis" by (simp add: finish_write_def httpd_close)
next
  case (Some c')
  assume h: "httpd_inv h" "hc_wbuf c \<noteq> []"
  have "start_write c outs = (fst (start_write c outs), Some c')" using Some by (metis prod.collapse)
  then have "conn_ok c'" "hc_fd c' = hc_fd c" using start_write_ok [OF h(2)] by blast+
  then show ?thesis using Some httpd_put [OF h(1), of c'] by (simp add: finish_write_def)
qed

lemma httpd_accept: "httpd_inv h \<Longrightarrow> fd \<notin> hc_fd ` set (hd_conns h) \<Longrightarrow> httpd_inv (on_accept fd h)"
  by (auto simp: httpd_inv_def on_accept_def conn_ok_def conn_new_def reading_def httpd_limits)

lemma httpd_readable:
  assumes "httpd_inv h" "conn_ok c" "hc_wbuf c = []" "on_conn_readable J fuel hup c ins outs h s = Some (b, h', s', rest)"
  shows "httpd_inv h'"
proof (cases hup)
  case True
  then show ?thesis using assms(1,4) httpd_close by (auto simp: on_conn_readable_def)
next
  case False
  obtain old where old: "reading old c" using assms(2,3) by (auto simp: conn_ok_def)
  obtain r c' rest where r: "read_loop c ins = Some (r, c', rest)" "r = Wait \<longrightarrow> reading old c'" "hc_fd c' = hc_fd c" "hc_wbuf c' = []"
    using read_loop_total [OF old, of ins] assms(3) by auto
  show ?thesis
  proof (cases r)
    case Wait
    then have "conn_ok c'" using r by (auto simp: conn_ok_def)
    then show ?thesis using assms(1,4) r Wait False httpd_put [of h c'] by (auto simp: on_conn_readable_def)
  next
    case (CloseAfter a)
    then show ?thesis using assms(1,4) r False httpd_close by (auto simp: on_conn_readable_def)
  next
    case Complete
    then obtain c2 s2 where c2: "handle_complete_request J fuel h c' s = Some (c2, s2)" "h' = finish_write (hc_fd c2) (start_write c2 outs) h"
      using assms(4) r False by (auto simp: on_conn_readable_def Let_def split: option.splits)
    then show ?thesis using complete_conn [OF c2(1)] httpd_finish [OF assms(1), of c2 outs] by simp
  qed
qed

text \<open>
  The events of the server.  The kernel gives a new connection a descriptor that is not in use; a connection is watched for reading or
  for writing, depending on whether it has a response.
\<close>

inductive http_step :: "'j json_lib \<Rightarrow> nat \<Rightarrow> 's mt_httpd \<times> 's \<Rightarrow> 's mt_httpd \<times> 's \<Rightarrow> bool" for J fuel where
  accept: "fd \<notin> hc_fd ` set (hd_conns h) \<Longrightarrow> http_step J fuel (h, s) (on_accept fd h, s)"
| readable: "c \<in> set (hd_conns h) \<Longrightarrow> hc_wbuf c = [] \<Longrightarrow>
    on_conn_readable J fuel hup c ins outs h s = Some (b, h', s', rest) \<Longrightarrow> http_step J fuel (h, s) (h', s')"
| writable: "c \<in> set (hd_conns h) \<Longrightarrow> hc_wbuf c \<noteq> [] \<Longrightarrow> http_step J fuel (h, s) (snd (on_conn_writable hup c outs h), s)"
| on_idle_timeout: "http_step J fuel (h, s) (conn_close fd h, s)"

interpretation httpd: invariant_system "\<lambda>(h, s). hd_conns h = [] \<and> hd_n_conns h = 0" "http_step J fuel" "\<lambda>(h, s). httpd_inv h" for J fuel
proof (unfold_locales, goal_cases)
  case (1 s)
  then show ?case by (auto simp: httpd_inv_def)
next
  case (2 s t)
  from 2(2,1) show ?case
  proof (induction rule: http_step.cases)
    case (accept fd h s)
    then show ?case using httpd_accept by auto
  next
    case (readable c h hup ins outs s b h' s' rest)
    then have "conn_ok c" by (auto simp: httpd_inv_def list_all_iff)
    then show ?case using readable httpd_readable by auto
  next
    case (writable c h hup outs s)
    then show ?case using httpd_close httpd_finish by (auto simp: on_conn_writable_def Let_def)
  next
    case (on_idle_timeout h s fd)
    then show ?case using httpd_close by auto
  qed
qed

text \<open>
  C23.  The server stays within its limits: in every state it can reach it counts its connections correctly and has at most 64 of them, on
  different descriptors, and whatever then arrives on a connection that waits for a request, in whatever pieces, with an end of the stream or an
  error in between, reading it leaves no buffer.
\<close>

theorem http_server_bounded:
  assumes "reachable (\<lambda>(h, s). hd_conns h = [] \<and> hd_n_conns h = 0) (http_step J fuel) (h, s)"
  shows "hd_n_conns h = length (hd_conns h) \<and> length (hd_conns h) \<le> 64 \<and> distinct (map hc_fd (hd_conns h)) \<and>
    (\<forall>c \<in> set (hd_conns h). hc_wbuf c = [] \<longrightarrow> read_loop c ins \<noteq> None)"
proof -
  have inv: "httpd_inv h" using httpd.reachable_inv [OF assms] by simp
  have "read_loop c ins \<noteq> None" if c: "c \<in> set (hd_conns h)" "hc_wbuf c = []" for c
  proof -
    have "conn_ok c" using inv c(1) by (auto simp: httpd_inv_def list_all_iff)
    then obtain old where "reading old c" using c(2) by (auto simp: conn_ok_def)
    then show ?thesis using read_loop_total [of old c ins] by auto
  qed
  then show ?thesis using inv by (simp add: httpd_inv_def httpd_limits)
qed

section \<open>Paths stay below the root\<close>

function all_segments :: "string \<Rightarrow> string list" where
  "all_segments s = (case next_segment s of None \<Rightarrow> [] | Some (g, r) \<Rightarrow> g # all_segments r)"
  by pat_completeness auto
termination
  by (relation "measure length") (auto dest: next_segment_shorter)

declare all_segments.simps [simp del]

text \<open>The meaning of \<^verbatim>\<open>.\<close> and \<^verbatim>\<open>..\<close> in a rooted path, without limits, and the text of a list of segments.\<close>

definition resolve_step :: "string \<Rightarrow> string list \<Rightarrow> string list" where
  "resolve_step g kept = (if g = ''.'' then kept else if g = ''..'' then butlast kept else kept @ [g])"

definition resolve :: "string list \<Rightarrow> string list" where
  "resolve gs = fold resolve_step gs []"

definition root_join :: "string list \<Rightarrow> string" where
  "root_join gs = (if gs = [] then [SLASH] else concat (map (\<lambda>g. SLASH # g) gs))"

text \<open>Following the segments of a path from a directory that is \<open>d\<close> levels below the root never leaves the root.\<close>

fun stays :: "nat \<Rightarrow> string list \<Rightarrow> bool" where
  "stays d [] = True"
| "stays d (g # gs) =
    (if g = ''.'' then stays d gs else if g = ''..'' then 0 < d \<and> stays (d - 1) gs else stays (d + 1) gs)"

definition plain_segment :: "string \<Rightarrow> bool" where
  "plain_segment g \<longleftrightarrow> g \<noteq> [] \<and> SLASH \<notin> set g \<and> g \<noteq> ''.'' \<and> g \<noteq> ''..''"

lemma next_segment_props:
  assumes "next_segment s = Some (g, r)"
  shows "g \<noteq> [] \<and> SLASH \<notin> set g \<and> length g + length r \<le> length s"
proof -
  define t where "t = dropWhile (\<lambda>c. c = SLASH) s"
  have t: "t \<noteq> []" "g = takeWhile (\<lambda>c. c \<noteq> SLASH) t" "r = dropWhile (\<lambda>c. c \<noteq> SLASH) t"
    using assms by (auto simp: next_segment_def t_def Let_def split: if_splits)
  have "hd t \<noteq> SLASH" using hd_dropWhile [of "\<lambda>c. c = SLASH" s] t(1) by (simp add: t_def)
  then have "g \<noteq> []" using t by (cases t) auto
  moreover have "length g + length r = length t" using t by (metis length_append takeWhile_dropWhile_id)
  moreover have "length t \<le> length s" unfolding t_def by (rule length_dropWhile_le)
  moreover have "SLASH \<notin> set g" using t(2) by (auto dest: set_takeWhileD)
  ultimately show ?thesis by simp
qed

lemma clean_loop_plain: "list_all plain_segment kept \<Longrightarrow> list_all plain_segment (clean_loop kept s)"
proof (induction kept s rule: clean_loop.induct)
  case (1 kept s)
  show ?case
  proof (cases "next_segment s")
    case None
    then show ?thesis using 1(2) by (simp add: clean_loop.simps)
  next
    case (Some gr)
    obtain g r where gr: "gr = (g, r)" by (rule prod.exhaust)
    have "list_all plain_segment (clean_step kept g)"
      using 1(2) next_segment_props [of s g r] Some gr in_set_butlastD [of _ kept]
      by (auto simp: clean_step_def plain_segment_def list_all_iff)
    then show ?thesis using 1(1) [OF Some gr [symmetric]] Some gr by (subst clean_loop.simps) simp
  qed
qed

lemma clean_loop_resolve:
  "length kept + length (all_segments s) \<le> MT_HTTPD_MAX_CLEAN_SEGMENTS \<Longrightarrow> clean_loop kept s = fold resolve_step (all_segments s) kept"
proof (induction kept s rule: clean_loop.induct)
  case (1 kept s)
  show ?case
  proof (cases "next_segment s")
    case None
    then show ?thesis by (simp add: clean_loop.simps all_segments.simps)
  next
    case (Some gr)
    obtain g r where gr: "gr = (g, r)" by (rule prod.exhaust)
    have segs: "all_segments s = g # all_segments r" by (subst all_segments.simps) (simp add: Some gr)
    have "clean_step kept g = resolve_step g kept" using 1(2) by (simp add: clean_step_def resolve_step_def segs)
    moreover have "length (clean_step kept g) \<le> length kept + 1" by (auto simp: clean_step_def)
    ultimately show ?thesis using 1(1) [OF Some gr [symmetric]] 1(2) Some gr by (subst clean_loop.simps) (simp add: segs)
  qed
qed

lemma clean_out_take:
  assumes "out = take n j" "0 < n"
  shows "clean_out (Suc n) False gs out = take n (j @ concat (map (\<lambda>g. SLASH # g) gs))"
  using assms(1)
proof (induction gs arbitrary: out j)
  case (Cons g gs)
  define out1 where "out1 = (if length out + 1 < Suc n then out @ [SLASH] else out)"
  define copy where "copy = (if length out1 + length g \<ge> Suc n then (if Suc n > length out1 + 1 then Suc n - 1 - length out1 else 0) else length g)"
  have out1: "out1 = take n (j @ [SLASH])" using Cons.prems by (auto simp: out1_def)
  then have "out1 @ take copy g = take n (j @ SLASH # g)"
    using assms(2) by (cases g) (auto simp: copy_def take_Cons' min_def)
  then have "clean_out (Suc n) False gs (out1 @ take copy g) = take n ((j @ SLASH # g) @ concat (map (\<lambda>g. SLASH # g) gs))"
    by (rule Cons.IH)
  moreover have "clean_out (Suc n) False (g # gs) out = clean_out (Suc n) False gs (out1 @ take copy g)"
    by (simp only: clean_out.simps Let_def out1_def copy_def simp_thms not_False_eq_True)
  ultimately show ?case by simp
qed simp

lemma path_clean_take: "0 < n \<Longrightarrow> path_clean (Suc n) s = take n (root_join (clean_loop [] s))"
proof -
  assume n: "0 < n"
  show ?thesis
  proof (cases "clean_loop [] s")
    case Nil
    then show ?thesis using n by (simp add: path_clean_def root_join_def take_Cons')
  next
    case (Cons g gs)
    define copy where "copy = (if 1 + length g \<ge> Suc n then (if Suc n > 2 then Suc n - 2 else 0) else length g)"
    have "SLASH # take copy g = take n (SLASH # g)" using n by (auto simp: copy_def take_Cons')
    then have "clean_out (Suc n) False gs (SLASH # take copy g) = take n ((SLASH # g) @ concat (map (\<lambda>g. SLASH # g) gs))"
      using n by (rule clean_out_take)
    then show ?thesis using n Cons by (auto simp: path_clean_def root_join_def Let_def copy_def numeral_2_eq_2 split: if_splits)
  qed
qed

lemma next_segment_slash: "next_segment (SLASH # s) = next_segment s"
  by (simp add: next_segment_def)

lemma next_segment_plain:
  assumes "g \<noteq> []" "SLASH \<notin> set g"
  shows "next_segment (g @ SLASH # r) = Some (g, SLASH # r)" "next_segment g = Some (g, [])"
proof -
  have d: "dropWhile (\<lambda>c. c = SLASH) (g @ t) = g @ t" for t using assms by (cases g) auto
  have t: "takeWhile (\<lambda>c. c \<noteq> SLASH) g = g" "dropWhile (\<lambda>c. c \<noteq> SLASH) g = []"
    using assms(2) by (auto simp: takeWhile_eq_all_conv)
  have "takeWhile (\<lambda>c. c \<noteq> SLASH) (g @ SLASH # r) = g" "dropWhile (\<lambda>c. c \<noteq> SLASH) (g @ SLASH # r) = SLASH # r"
    using assms(2) by (induction g) auto
  then show "next_segment (g @ SLASH # r) = Some (g, SLASH # r)" using d [of "SLASH # r"] assms(1) by (simp add: next_segment_def)
  show "next_segment g = Some (g, [])" using d [of "[]"] t assms(1) by (simp add: next_segment_def)
qed

text \<open>The segments of a text that was cut off: complete ones, and possibly the beginning of one.\<close>

fun cut_segments :: "nat \<Rightarrow> string list \<Rightarrow> string list" where
  "cut_segments n [] = []"
| "cut_segments n (g # gs) =
    (if n \<le> length g then (if n \<le> 1 then [] else [take (n - 1) g]) else g # cut_segments (n - 1 - length g) gs)"

lemma all_segments_cut:
  "list_all plain_segment gs \<Longrightarrow> all_segments (take n (concat (map (\<lambda>g. SLASH # g) gs))) = cut_segments n gs"
proof (induction gs arbitrary: n)
  case Nil
  then show ?case by (simp add: all_segments.simps next_segment_def)
next
  case (Cons g gs)
  let ?rest = "concat (map (\<lambda>g. SLASH # g) gs)"
  have g: "g \<noteq> []" "SLASH \<notin> set g" using Cons.prems by (simp_all add: plain_segment_def)
  show ?case
  proof (cases "n \<le> length g")
    case True
    then have t: "take n (concat (map (\<lambda>g. SLASH # g) (g # gs))) = (if n = 0 then [] else SLASH # take (n - 1) g)" by (simp add: take_Cons')
    show ?thesis
    proof (cases "n \<le> 1")
      case False
      then have "take (n - 1) g \<noteq> []" "SLASH \<notin> set (take (n - 1) g)" using True g by (auto dest: in_set_takeD)
      then have "next_segment (SLASH # take (n - 1) g) = Some (take (n - 1) g, [])"
        unfolding next_segment_slash by (rule next_segment_plain(2))
      then show ?thesis using True False unfolding t by (simp add: all_segments.simps [of "SLASH # _"] all_segments.simps [of "[]"] next_segment_def [of "[]"])
    next
      case le: True
      then have "next_segment (if n = 0 then [] else SLASH # take (n - 1) g) = None" by (auto simp: next_segment_def)
      then show ?thesis using True le unfolding t by (subst all_segments.simps) simp
    qed
  next
    case False
    define m where "m = n - 1 - length g"
    have t: "take n (concat (map (\<lambda>g. SLASH # g) (g # gs))) = SLASH # g @ take m ?rest" using False by (simp add: m_def take_Cons')
    have "next_segment (SLASH # g @ take m ?rest) = Some (g, take m ?rest)"
    proof (cases "take m ?rest")
      case Nil
      show ?thesis unfolding next_segment_slash Nil using next_segment_plain(2) [OF g] by simp
    next
      case (Cons c r)
      then have "c = SLASH" by (cases m; cases gs) auto
      then show ?thesis using Cons next_segment_plain(1) [OF g, of r] by (simp add: next_segment_slash)
    qed
    then show ?thesis using False Cons.IH [of m] Cons.prems unfolding t by (subst all_segments.simps) (simp add: m_def)
  qed
qed

lemma stays_cut: "list_all plain_segment gs \<Longrightarrow> 0 < d \<or> 4 \<le> n \<Longrightarrow> stays d (cut_segments n gs)"
proof (induction gs arbitrary: d n)
  case (Cons g gs)
  have g: "g \<noteq> ''.''" "g \<noteq> ''..''" using Cons.prems(1) by (simp_all add: plain_segment_def)
  have "take (n - 1) g \<noteq> ''..''" if "n \<le> length g" "4 \<le> n"
  proof
    assume "take (n - 1) g = ''..''"
    then have "length (take (n - 1) g) = 2" by simp
    then show False using that by simp
  qed
  then show ?case using Cons.IH [of "d + 1"] Cons.prems g by auto
qed simp

lemma path_segments:
  assumes "path_clean (Suc n) s = p" "0 < n"
  shows "\<exists>gs. list_all plain_segment gs \<and> p = take n (root_join gs) \<and> all_segments p = cut_segments n gs"
proof -
  define gs where "gs = clean_loop [] s"
  have plain: "list_all plain_segment gs" unfolding gs_def by (rule clean_loop_plain) simp
  have p: "p = take n (root_join gs)" using path_clean_take [OF assms(2)] assms(1) by (simp add: gs_def)
  show ?thesis
  proof (cases "gs = []")
    case True
    then have "p = [SLASH]" using p assms(2) by (simp add: root_join_def take_Cons')
    then have "all_segments p = []" by (simp add: all_segments.simps next_segment_def)
    then show ?thesis using True p by (intro exI [of _ "[]"]) simp
  next
    case False
    then have "all_segments p = cut_segments n gs" using all_segments_cut [OF plain, of n] p by (simp add: root_join_def)
    then show ?thesis using plain p by blast
  qed
qed

text \<open>
  The path of a request, which the file server appends to its directory, never leads out of that directory: for every target of a
  request the path begins with a slash, has at most 511 characters, and following its segments, of which the last may be cut off, never rises
  above where they begin.  When the target has at most 64 segments and the result fits, the path is exactly the target with \<^verbatim>\<open>.\<close> and \<^verbatim>\<open>..\<close>
  resolved.
\<close>

theorem path_clean_confined:
  "\<exists>p. path_clean 512 s = SLASH # p \<and> length p \<le> 510 \<and> stays 0 (all_segments (path_clean 512 s)) \<and>
    (length (all_segments s) \<le> 64 \<and> length (root_join (resolve (all_segments s))) \<le> 511
      \<longrightarrow> path_clean 512 s = root_join (resolve (all_segments s)))"
proof -
  have eq: "path_clean 512 s = take 511 (root_join (clean_loop [] s))" using path_clean_take [of 511 s] by simp
  obtain gs where gs: "list_all plain_segment gs" "path_clean 512 s = take 511 (root_join gs)"
      "all_segments (path_clean 512 s) = cut_segments 511 gs"
    using path_segments [of 511 s "path_clean 512 s"] by auto
  have "\<exists>p. root_join gs = SLASH # p" by (cases gs) (auto simp: root_join_def)
  then obtain p where p: "path_clean 512 s = SLASH # p" using gs(2) by (auto simp: take_Cons')
  moreover have "length p \<le> 510" using arg_cong [OF gs(2), of length] p by simp
  moreover have "stays 0 (all_segments (path_clean 512 s))" unfolding gs(3) using gs(1) by (rule stays_cut) simp
  moreover have "path_clean 512 s = root_join (resolve (all_segments s))"
    if "length (all_segments s) \<le> 64" "length (root_join (resolve (all_segments s))) \<le> 511"
    using that clean_loop_resolve [of "[]" s] unfolding eq by (simp add: resolve_def httpd_limits)
  ultimately show ?thesis by blast
qed

theorem path_clean_confined_witness:
  "\<exists>p. path_clean 512 ''/a/./b/../../c'' = SLASH # p \<and> path_clean 512 ''/a/./b/../../c'' = ''/c''"
proof -
  have "all_segments ''/a/./b/../../c'' = [''a'', ''.'', ''b'', ''..'', ''..'', ''c'']" by code_simp
  moreover have "root_join (resolve [''a'', ''.'', ''b'', ''..'', ''..'', ''c'']) = ''/c''" by code_simp
  ultimately show ?thesis using path_clean_confined [of "''/a/./b/../../c''"] by auto
qed

text \<open>
  A cut can leave a segment that was to be resolved: a target without a leading slash is one character longer once it is cleaned, and a last
  segment \<^verbatim>\<open>..x\<close> becomes \<^verbatim>\<open>..\<close>.
\<close>

lemma path_clean_leaves_dots:
  assumes "length a = 507" "SLASH \<notin> set a"
  shows "path_clean 512 (a @ ''/..x'') = SLASH # a @ ''/..''"
proof -
  have a: "a \<noteq> []" "a \<noteq> ''.''" "a \<noteq> ''..''" using assms(1) by auto
  then have "clean_loop [] (a @ ''/..x'') = [a, ''..x'']"
    using next_segment_plain(1) [OF a(1) assms(2), of "''..x''"]
    by (simp add: clean_loop.simps clean_step_def next_segment_def httpd_limits)
  then show ?thesis using path_clean_take [of 511 "a @ ''/..x''"] assms(1) by (simp add: root_join_def)
qed

section \<open>The bytes of a response\<close>

definition field_text :: "kv \<Rightarrow> string" where
  "field_text h = kv_name h @ '': '' @ kv_value h @ [CR, LF]"

definition status_line :: "mt_http_res \<Rightarrow> string" where
  "status_line res = ''HTTP/1.1 '' @ c_dec_int (rs_status res) @ '' '' @ reason_phrase (rs_status res) @ [CR, LF]"

definition last_lines :: "bool \<Rightarrow> mt_http_res \<Rightarrow> string list" where
  "last_lines cl res =
    [''Content-Length: '' @ c_dec (length (rs_body res)) @ [CR, LF],
     ''Connection: '' @ (if cl then ''close'' else ''keep-alive'') @ [CR, LF], [CR, LF]]"

definition head_text :: "bool \<Rightarrow> mt_http_res \<Rightarrow> string" where
  "head_text cl res = status_line res @ concat (map field_text (rs_headers res)) @ concat (last_lines cl res)"

lemma head_put_fits: "length h + length t < 2048 \<Longrightarrow> head_put t h = Some (h @ t)"
  by (simp add: head_put_def)

lemma head_put_length: "head_put t h = Some h' \<Longrightarrow> length h' = length h + length t \<and> length h \<le> 2048"
  by (auto simp: head_put_def split: if_splits)

lemma head_fields_fits: "length h + length (concat (map field_text hs)) < 2048 \<Longrightarrow> head_fields hs h = Some (h @ concat (map field_text hs))"
proof (induction hs arbitrary: h)
  case (Cons x hs)
  have "head_put (field_text x) h = Some (h @ field_text x)" using Cons.prems by (intro head_put_fits) simp
  then have "head_fields (x # hs) h = head_fields hs (h @ field_text x)" using Cons.prems by (simp add: field_text_def)
  also have "\<dots> = Some ((h @ field_text x) @ concat (map field_text hs))" using Cons.prems by (intro Cons.IH) simp
  finally show ?case by simp
qed simp

lemma head_fields_length:
  "head_fields hs h = Some h' \<Longrightarrow> length h' = length h + length (concat (map field_text hs)) \<or> 2048 \<le> length h'"
proof (induction hs arbitrary: h)
  case (Cons x hs)
  show ?case
  proof (cases "2048 \<le> length h")
    case True
    then show ?thesis using Cons.prems by simp
  next
    case False
    then obtain h1 where h1: "head_put (field_text x) h = Some h1" "head_fields hs h1 = Some h'"
      using Cons.prems by (auto simp: field_text_def split: option.splits)
    then show ?thesis using Cons.IH [OF h1(2)] head_put_length [OF h1(1)] by auto
  qed
qed simp

text \<open>
  C39.  The head of a response is exactly the status line, the headers in order, the length of the body and the fate of the connection, as
  long as it has at most 2047 characters, and then the response is this head and the body.  A head of more than
  2048 characters, which four of the eight headers that a handler may set are enough for, is written past the end of an array.
\<close>

theorem http_response_exact:
  "(length (head_text cl res) \<le> 2047 \<longrightarrow> build_response_bytes cl res = Some (head_text cl res @ rs_body res)) \<and>
   (length (head_text cl res) > 2048 \<longrightarrow> build_response_bytes cl res = None)"
proof (intro conjI impI)
  let ?f = "concat (map field_text (rs_headers res))"
  define l1 where "l1 = ''Content-Length: '' @ c_dec (length (rs_body res)) @ [CR, LF]"
  define l2 where "l2 = ''Connection: '' @ (if cl then ''close'' else ''keep-alive'') @ [CR, LF]"
  define l3 where "l3 = [CR, LF]"
  have l: "last_lines cl res = [l1, l2, l3]" by (simp only: last_lines_def l1_def l2_def l3_def)
  have b: "build_response_bytes cl res =
      (case head_put (status_line res) [] of None \<Rightarrow> None | Some h0 \<Rightarrow>
       (case head_fields (rs_headers res) h0 of None \<Rightarrow> None | Some h1 \<Rightarrow>
        (case head_put l1 h1 of None \<Rightarrow> None | Some h2 \<Rightarrow>
         (case head_put l2 h2 of None \<Rightarrow> None | Some h3 \<Rightarrow>
          (case head_put l3 h3 of None \<Rightarrow> None | Some h4 \<Rightarrow> if length h4 > 2048 then None else Some (h4 @ rs_body res))))))"
    by (simp only: build_response_bytes_def status_line_def l1_def l2_def l3_def)
  {
    assume "length (head_text cl res) \<le> 2047"
    then have fits: "length (status_line res) + length ?f + length l1 + length l2 + length l3 < 2048" by (simp add: head_text_def l)
    have "head_put (status_line res) [] = Some (status_line res)" "head_fields (rs_headers res) (status_line res) = Some (status_line res @ ?f)"
      "head_put l1 (status_line res @ ?f) = Some (status_line res @ ?f @ l1)"
      "head_put l2 (status_line res @ ?f @ l1) = Some (status_line res @ ?f @ l1 @ l2)"
      "head_put l3 (status_line res @ ?f @ l1 @ l2) = Some (status_line res @ ?f @ l1 @ l2 @ l3)"
      using fits head_put_fits [of "[]" "status_line res"] head_fields_fits [of "status_line res" "rs_headers res"]
        head_put_fits [of "status_line res @ ?f" l1] head_put_fits [of "status_line res @ ?f @ l1" l2]
        head_put_fits [of "status_line res @ ?f @ l1 @ l2" l3] by simp_all
    then show "build_response_bytes cl res = Some (head_text cl res @ rs_body res)" using fits by (simp add: b head_text_def l)
  }
  assume long: "length (head_text cl res) > 2048"
  have pos: "0 < length l2" "0 < length l3" by (simp_all add: l2_def l3_def)
  show "build_response_bytes cl res = None"
  proof (rule ccontr)
    assume "build_response_bytes cl res \<noteq> None"
    then obtain h0 h1 h2 h3 h4 where h: "head_put (status_line res) [] = Some h0" "head_fields (rs_headers res) h0 = Some h1"
        "head_put l1 h1 = Some h2" "head_put l2 h2 = Some h3" "head_put l3 h3 = Some h4" "length h4 \<le> 2048"
      unfolding b by (auto split: option.splits if_splits)
    then show False
      using head_put_length [OF h(1)] head_fields_length [OF h(2)] head_put_length [OF h(3)] head_put_length [OF h(4)]
        head_put_length [OF h(5)] long pos by (auto simp: head_text_def l)
  qed
qed

definition ex_res :: "nat \<Rightarrow> mt_http_res" where
  "ex_res n = \<lparr>rs_status = 404, rs_headers = replicate n \<lparr>kv_name = ''X'', kv_value = replicate 511 (CHR ''v'')\<rparr>, rs_body = ''no'', rs_responded = True\<rparr>"

theorem http_response_exact_witness:
  "build_response_bytes True (ex_res 0) = Some (head_text True (ex_res 0) @ ''no'') \<and> build_response_bytes True (ex_res 4) = None"
proof -
  have "length (head_text True (ex_res 0)) \<le> 2047" by code_simp
  moreover have "length (concat (map field_text (rs_headers (ex_res 4)))) = 4 * 516"
    by (simp add: ex_res_def length_concat field_text_def sum_list_replicate o_def)
  then have "length (head_text True (ex_res 4)) > 2048" by (simp add: head_text_def)
  ultimately show ?thesis
    using http_response_exact [of True "ex_res 0"] http_response_exact [of True "ex_res 4"] by (simp add: ex_res_def)
qed

section \<open>A request in pieces\<close>

definition ex_bytes :: string where
  "ex_bytes = ''POST /api/v1/x HTTP/1.1'' @ [LF] @ ''content-length: 2'' @ [LF, LF] @ ''{}''"

definition ex_pieces :: "sock_in list list" where
  "ex_pieces = [[Piece (take 10 ex_bytes), Piece (take 30 (drop 10 ex_bytes))], [Piece (drop 40 ex_bytes)]]"

definition ex_read :: mt_http_req where
  "ex_read = \<lparr>rq_method = ''POST'', rq_path = ''/api/v1/x'', rq_query = [], rq_params = [],
     rq_headers = [\<lparr>kv_name = ''content-length'', kv_value = ''2''\<rparr>], rq_body = []\<rparr>"

lemma ex_path: "path_clean 512 ''/api/v1/x'' = ''/api/v1/x''"
proof -
  have "clean_loop [] ''/api/v1/x'' = [''api'', ''v1'', ''x'']" by code_simp
  then show ?thesis using path_clean_take [of 511 "''/api/v1/x''"] by (simp add: root_join_def)
qed

lemma ex_stream: "read_stream ex_bytes = Request (ex_read\<lparr>rq_body := ''{}''\<rparr>) False"
proof -
  have e: "find_marker 0 ex_bytes = Some 43" "length ex_bytes = 45" by code_simp+
  have h: "take 43 ex_bytes = ''POST /api/v1/x HTTP/1.1'' @ [LF] @ ''content-length: 2'' @ [LF, LF]" "drop 43 ex_bytes = ''{}''" by code_simp+
  have p: "parse_request_line ''POST /api/v1/x HTTP/1.1'' = Some (''POST'', ''/api/v1/x'', False)" by code_simp
  have "parse_header_lines 32 (''content-length: 2'' @ [LF, LF]) = [\<lparr>kv_name = ''content-length'', kv_value = ''2''\<rparr>]" by code_simp
  moreover have "cstr (percent_decode 511 False ''/api/v1/x'') = ''/api/v1/x''" by code_simp
  ultimately have "parse_headers (take 43 ex_bytes) = Some (ex_read, False)"
    unfolding h using p ex_path
    by (simp add: parse_headers_def before_def after_def strip_cr_def httpd_limits ex_read_def)
  moreover have "find_header (rq_headers ex_read) ''Content-Length'' = Some ''2''" by code_simp
  then have "content_length_of ex_read = 2"
    by (simp add: content_length_of_def c_strtoul_def c_isspace_def digits_val_def is_digit_def)
  ultimately show ?thesis using e h(2) by (simp add: read_stream_def httpd_limits)
qed

theorem http_request_any_pieces_witness:
  "\<exists>c. read_calls (conn_new 7) ex_pieces = Some (Complete, c) \<and>
     (hc_req c)\<lparr>rq_body := take (hc_content_length c) (drop (hc_header_end c) (hc_rbuf c))\<rparr> = ex_read\<lparr>rq_body := ''{}''\<rparr>"
proof -
  have "list_all pieces_only ex_pieces" "concat (map bytes_in ex_pieces) = ex_bytes" by code_simp+
  then show ?thesis
    using http_request_any_pieces [of ex_pieces "conn_new 7"] ex_stream by (auto simp: conn_new_def)
qed

definition ex_json :: "string json_lib" where
  "ex_json = \<lparr>jl_error = \<lambda>m. Some m, jl_dump = \<lambda>m. Some m\<rparr>"

theorem http_server_bounded_witness:
  "\<exists>h :: unit mt_httpd. length (hd_conns h) = 1 \<and> hd_n_conns h = length (hd_conns h) \<and>
     (\<forall>c \<in> set (hd_conns h). hc_wbuf c = [] \<longrightarrow> read_loop c [Piece ex_bytes, Eof] \<noteq> None)"
proof -
  let ?h = "on_accept 5 (mt_httpd_create :: unit mt_httpd)"
  have "reachable (\<lambda>(h, s). hd_conns h = [] \<and> hd_n_conns h = 0) (http_step ex_json 1) (mt_httpd_create, ())"
    by (rule reach_init) (simp add: mt_httpd_create_def)
  then have "reachable (\<lambda>(h, s). hd_conns h = [] \<and> hd_n_conns h = 0) (http_step ex_json 1) (?h, ())"
    by (rule reach_step) (rule http_step.accept, simp add: mt_httpd_create_def)
  then show ?thesis
    using http_server_bounded [of ex_json 1 ?h "()" "[Piece ex_bytes, Eof]"]
    by (intro exI [of _ ?h]) (simp add: on_accept_def mt_httpd_create_def httpd_limits)
qed

end
