(* ===== verification/Hash_Core.thy ===== *)
theory Hash_Core
  imports Prelude
begin

text \<open>
  What \<^verbatim>\<open>md5.c\<close>, \<^verbatim>\<open>sha256.c\<close> and \<^verbatim>\<open>sha512.c\<close> under \<^verbatim>\<open>src/crypto/\<close> have in common: the context (\<^verbatim>\<open>hash.h\<close>), the loop of
  \<^verbatim>\<open>update\<close> that fills the buffer and compresses full blocks, and the padding of \<^verbatim>\<open>final\<close>.  The three files
  repeat this code with another block length and another compression function, which are arguments here.

  Both loops run forever on a context whose buffer count is out of range, so they are partial: a call that
  does not return is \<open>None\<close>.  The locale \<open>md_hash\<close> proves once, for every block length and compression
  function, that the calls return and that pieces fed one by one give the digest of the whole message,
  padded as RFC 1321 and FIPS 180-4 ask.
\<close>

section \<open>The context and its loops\<close>

record 'w hash_ctx =
  h_state :: "'w list"
  h_total :: u64
  h_buf :: "u8 list"
  h_buf_len :: nat

definition hash_fill :: "nat \<Rightarrow> ('w list \<Rightarrow> u8 list \<Rightarrow> 'w list) \<Rightarrow> u8 list \<Rightarrow> 'w hash_ctx \<Rightarrow> 'w hash_ctx" where
  "hash_fill B blk piece c =
    (let buf = take (h_buf_len c) (h_buf c) @ piece @ drop (h_buf_len c + length piece) (h_buf c);
         bl = h_buf_len c + length piece
     in if bl = B then c\<lparr>h_state := blk (h_state c) buf, h_buf := buf, h_buf_len := 0\<rparr>
        else c\<lparr>h_buf := buf, h_buf_len := bl\<rparr>)"

partial_function (option) update_loop ::
  "nat \<Rightarrow> ('w list \<Rightarrow> u8 list \<Rightarrow> 'w list) \<Rightarrow> u8 list \<Rightarrow> 'w hash_ctx \<Rightarrow> 'w hash_ctx option" where
  "update_loop B blk data c =
    (if data = [] then Some c
     else let n = min (B - h_buf_len c) (length data)
          in update_loop B blk (drop n data) (hash_fill B blk (take n data) c))"

definition hash_update ::
  "nat \<Rightarrow> ('w list \<Rightarrow> u8 list \<Rightarrow> 'w list) \<Rightarrow> 'w hash_ctx \<Rightarrow> u8 list \<Rightarrow> 'w hash_ctx option" where
  "hash_update B blk c data = update_loop B blk data (c\<lparr>h_total := h_total c + of_nat (length data)\<rparr>)"

partial_function (option) zero_loop ::
  "nat \<Rightarrow> nat \<Rightarrow> ('w list \<Rightarrow> u8 list \<Rightarrow> 'w list) \<Rightarrow> 'w hash_ctx \<Rightarrow> 'w hash_ctx option" where
  "zero_loop B tail blk c =
    (if h_buf_len c = B - tail then Some c
     else Option.bind (hash_update B blk c [0]) (zero_loop B tail blk))"

declare update_loop.simps [code] zero_loop.simps [code]

definition hash_final ::
  "nat \<Rightarrow> nat \<Rightarrow> ('w list \<Rightarrow> u8 list \<Rightarrow> 'w list) \<Rightarrow> (u64 \<Rightarrow> u8 list) \<Rightarrow> ('w list \<Rightarrow> u8 list)
    \<Rightarrow> 'w hash_ctx \<Rightarrow> u8 list option" where
  "hash_final B tail blk len_bytes out c =
    (let bit_len = h_total c * 8
     in Option.bind (hash_update B blk c [0x80]) (\<lambda>c.
        Option.bind (zero_loop B tail blk c) (\<lambda>c.
        Some (out (blk (h_state c) (take (B - tail) (h_buf c) @ len_bytes bit_len))))))"

section \<open>The reference\<close>

text \<open>The complete blocks of a message, the padded message, and the digest.\<close>

definition chunks :: "nat \<Rightarrow> 'a list \<Rightarrow> 'a list list" where
  "chunks B m = map (\<lambda>i. take B (drop (i * B) m)) [0..<length m div B]"

definition pad_zeros :: "nat \<Rightarrow> nat \<Rightarrow> nat \<Rightarrow> nat" where
  "pad_zeros B tail n = (B - tail + (B - n mod B)) mod B"

definition md_pad :: "nat \<Rightarrow> nat \<Rightarrow> (u64 \<Rightarrow> u8 list) \<Rightarrow> u8 list \<Rightarrow> u8 list" where
  "md_pad B tail len_bytes m =
    m @ 0x80 # replicate (pad_zeros B tail (length m + 1)) 0 @ len_bytes (of_nat (length m) * 8)"

definition md_digest ::
  "nat \<Rightarrow> nat \<Rightarrow> ('w list \<Rightarrow> u8 list \<Rightarrow> 'w list) \<Rightarrow> (u64 \<Rightarrow> u8 list) \<Rightarrow> ('w list \<Rightarrow> u8 list)
    \<Rightarrow> 'w list \<Rightarrow> u8 list \<Rightarrow> u8 list" where
  "md_digest B tail blk len_bytes out init m = out (foldl blk init (chunks B (md_pad B tail len_bytes m)))"

lemma div_offset:
  fixes r B :: nat
  assumes "r < B"
  shows "(q * B + r) div B = q" "(q * B + r) mod B = r"
  using assms by simp_all

lemma chunk_of_prefix:
  assumes "i < q" "q * B \<le> length m"
  shows "take B (drop (i * B) (m @ d)) = take B (drop (i * B) m)"
proof -
  have "(i + 1) * B \<le> q * B"
    using assms(1) by (intro mult_le_mono1) simp
  then have "i * B + B \<le> length m"
    using assms(2) by simp
  then show ?thesis by simp
qed

lemma chunks_prefix:
  assumes "length m = q * B + r" "r < B"
  shows "map (\<lambda>i. take B (drop (i * B) (m @ d))) [0..<q] = chunks B m"
proof -
  have "take B (drop (i * B) (m @ d)) = take B (drop (i * B) m)" if "i < q" for i
    using that assms(1) by (intro chunk_of_prefix) auto
  then show ?thesis
    unfolding chunks_def using assms by simp
qed

lemma chunks_append_short:
  assumes "length m = q * B + r" "r + length d < B"
  shows "chunks B (m @ d) = chunks B m"
proof -
  have "length (m @ d) = q * B + (r + length d)"
    using assms(1) by simp
  then have "length (m @ d) div B = q"
    using div_offset(1) [OF assms(2), of q] by metis
  then show ?thesis
    using chunks_prefix [of m q B r d] assms by (simp add: chunks_def)
qed

lemma chunks_append_full:
  assumes "length m = q * B + r" "r < B" "r + length d = B"
  shows "chunks B (m @ d) = chunks B m @ [drop (q * B) m @ d]"
proof -
  have len: "length (m @ d) = Suc q * B"
    using assms by simp
  have "B \<noteq> 0"
    using assms(2) by simp
  then have "length (m @ d) div B = Suc q"
    unfolding len by (rule nonzero_mult_div_cancel_right)
  then have "chunks B (m @ d) = chunks B m @ [take B (drop (q * B) (m @ d))]"
    using chunks_prefix [OF assms(1,2), of d] unfolding chunks_def by simp
  moreover have "take B (drop (q * B) (m @ d)) = drop (q * B) m @ d"
    using assms by simp
  ultimately show ?thesis by simp
qed

section \<open>Any block hash\<close>

text \<open>Several calls of \<^verbatim>\<open>update\<close>, one per piece.\<close>

fun hash_feed ::
  "nat \<Rightarrow> ('w list \<Rightarrow> u8 list \<Rightarrow> 'w list) \<Rightarrow> u8 list list \<Rightarrow> 'w hash_ctx \<Rightarrow> 'w hash_ctx option" where
  "hash_feed B blk [] c = Some c"
| "hash_feed B blk (d # ds) c = Option.bind (hash_update B blk c d) (hash_feed B blk ds)"

text \<open>A context that has taken in the message \<open>m\<close>; its byte count is left aside.\<close>

definition absorbed :: "nat \<Rightarrow> ('w list \<Rightarrow> u8 list \<Rightarrow> 'w list) \<Rightarrow> 'w list \<Rightarrow> 'w hash_ctx \<Rightarrow> u8 list \<Rightarrow> bool" where
  "absorbed B blk init c m \<longleftrightarrow>
    h_state c = foldl blk init (chunks B m) \<and> length (h_buf c) = B \<and> h_buf_len c = length m mod B \<and>
    take (h_buf_len c) (h_buf c) = drop (length m div B * B) m"

locale md_hash =
  fixes B tail :: nat and blk :: "'w list \<Rightarrow> u8 list \<Rightarrow> 'w list"
    and len_bytes :: "u64 \<Rightarrow> u8 list" and out :: "'w list \<Rightarrow> u8 list" and init :: "'w list"
  assumes tail_pos: "0 < tail" and tail_less: "tail < B" and len_bytes_len: "length (len_bytes n) = tail"
begin

lemma absorbed_bufE:
  assumes "absorbed B blk init c m"
  obtains q where "length m = q * B + h_buf_len c" "h_buf_len c < B"
    "take (h_buf_len c) (h_buf c) = drop (q * B) m" "h_state c = foldl blk init (chunks B m)" "length (h_buf c) = B"
proof (rule that)
  show "length m = length m div B * B + h_buf_len c" "h_buf_len c < B"
    using assms tail_less by (simp_all add: absorbed_def)
  show "take (h_buf_len c) (h_buf c) = drop (length m div B * B) m" "h_state c = foldl blk init (chunks B m)"
    "length (h_buf c) = B"
    using assms unfolding absorbed_def by blast+
qed

lemma absorbedI:
  assumes "length m = q * B + h_buf_len c" "h_buf_len c < B"
    "take (h_buf_len c) (h_buf c) = drop (q * B) m" "h_state c = foldl blk init (chunks B m)" "length (h_buf c) = B"
  shows "absorbed B blk init c m"
  using assms div_offset [OF assms(2), of q] by (simp add: absorbed_def)

lemma hash_fill_absorbed:
  assumes "absorbed B blk init c m" "h_buf_len c + length d \<le> B"
  shows "absorbed B blk init (hash_fill B blk d c) (m @ d)"
proof -
  obtain q where q: "length m = q * B + h_buf_len c" "h_buf_len c < B"
    "take (h_buf_len c) (h_buf c) = drop (q * B) m" "h_state c = foldl blk init (chunks B m)" "length (h_buf c) = B"
    using assms(1) by (rule absorbed_bufE)
  show ?thesis
  proof (cases "h_buf_len c + length d = B")
    case True
    have "length (m @ d) = Suc q * B"
      using q(1) True by simp
    then show ?thesis
      using True q chunks_append_full [OF q(1,2) True]
      by (intro absorbedI [where q = "Suc q"]) (simp_all add: hash_fill_def Let_def)
  next
    case False
    then have less: "h_buf_len c + length d < B"
      using assms(2) by simp
    then show ?thesis
      using False q chunks_append_short [OF q(1) less]
      by (intro absorbedI [where q = q]) (simp_all add: hash_fill_def Let_def)
  qed
qed

lemma absorbed_total [simp]: "absorbed B blk init (c\<lparr>h_total := n\<rparr>) m = absorbed B blk init c m"
  by (simp add: absorbed_def)

lemma update_loop_absorbed:
  assumes "absorbed B blk init c m"
  shows "\<exists>c'. update_loop B blk d c = Some c' \<and> absorbed B blk init c' (m @ d) \<and> h_total c' = h_total c"
  using assms
proof (induction "length d" arbitrary: c m d rule: less_induct)
  case less
  show ?case
  proof (cases "d = []")
    case True
    then show ?thesis using less.prems by (simp add: update_loop.simps [of B blk "[]"])
  next
    case False
    define n where "n = min (B - h_buf_len c) (length d)"
    have "h_buf_len c < B"
      using less.prems by (rule absorbed_bufE)
    then have n: "0 < n" "h_buf_len c + length (take n d) \<le> B"
      using False by (auto simp: n_def)
    have "length (drop n d) < length d"
      using n(1) False by simp
    from less.hyps [OF this hash_fill_absorbed [OF less.prems n(2)]]
    obtain c' where c': "update_loop B blk (drop n d) (hash_fill B blk (take n d) c) = Some c'"
      "absorbed B blk init c' (m @ d)" "h_total c' = h_total (hash_fill B blk (take n d) c)"
      by auto
    have "update_loop B blk d c = Some c'"
      using c'(1) False by (simp add: update_loop.simps [of B blk d] n_def)
    moreover have "h_total (hash_fill B blk (take n d) c) = h_total c"
      by (simp add: hash_fill_def Let_def)
    ultimately show ?thesis using c' by auto
  qed
qed

text \<open>What \<^verbatim>\<open>update\<close> promises: it returns, and the context has taken in the data.\<close>

definition holds :: "'w hash_ctx \<Rightarrow> u8 list \<Rightarrow> bool" where
  "holds c m \<longleftrightarrow> absorbed B blk init c m \<and> h_total c = of_nat (length m)"

lemma update_holds:
  assumes "holds c m"
  shows "\<exists>c'. hash_update B blk c d = Some c' \<and> holds c' (m @ d)"
  using assms update_loop_absorbed [of "c\<lparr>h_total := h_total c + of_nat (length d)\<rparr>" m d]
  by (auto simp: hash_update_def holds_def)

text \<open>The zeros that \<^verbatim>\<open>final\<close> still has to add.\<close>

definition missing :: "'w hash_ctx \<Rightarrow> nat" where
  "missing c = (B - tail + (B - h_buf_len c)) mod B"

lemma missing_0: "h_buf_len c < B \<Longrightarrow> missing c = 0 \<longleftrightarrow> h_buf_len c = B - tail"
  using tail_pos tail_less
  by (cases "h_buf_len c \<le> B - tail") (auto simp: missing_def mod_if)

lemma missing_step:
  assumes "h_buf_len c < B" "h_buf_len c \<noteq> B - tail" "h_buf_len c' = (h_buf_len c + 1) mod B"
  shows "missing c = Suc (missing c')"
  using assms tail_pos tail_less
  by (cases "h_buf_len c \<le> B - tail"; cases "h_buf_len c + 1 = B") (auto simp: missing_def mod_if)

lemma zero_loop_absorbed:
  assumes "absorbed B blk init c m"
  shows "\<exists>c'. zero_loop B tail blk c = Some c' \<and> absorbed B blk init c' (m @ replicate (missing c) 0)
    \<and> h_buf_len c' = B - tail"
  using assms
proof (induction "missing c" arbitrary: c m)
  case 0
  moreover have "h_buf_len c < B"
    using 0(2) by (rule absorbed_bufE)
  ultimately have "h_buf_len c = B - tail"
    using missing_0 by metis
  then show ?case
    using 0 by (simp add: zero_loop.simps [of B tail blk c])
next
  case (Suc k)
  have less: "h_buf_len c < B"
    using Suc(3) by (rule absorbed_bufE)
  then have ne: "h_buf_len c \<noteq> B - tail"
    using Suc(2) missing_0 by (metis nat.distinct(1))
  obtain c1 where c1: "hash_update B blk c [0] = Some c1" "absorbed B blk init c1 (m @ [0])"
    using update_loop_absorbed [of "c\<lparr>h_total := h_total c + of_nat (length [0::u8])\<rparr>" m "[0]"] Suc(3)
    unfolding hash_update_def by auto
  have "h_buf_len c1 = (h_buf_len c + 1) mod B"
    using c1(2) Suc(3) by (simp add: absorbed_def mod_Suc_eq)
  then have miss: "missing c = Suc (missing c1)"
    using missing_step [OF less ne] by simp
  then obtain c' where "zero_loop B tail blk c1 = Some c'"
    "absorbed B blk init c' ((m @ [0]) @ replicate (missing c1) 0)" "h_buf_len c' = B - tail"
    using Suc(1) [OF _ c1(2)] Suc(2) by auto
  then show ?case
    using ne c1(1) miss by (simp add: zero_loop.simps [of B tail blk c])
qed

lemma final_holds:
  assumes "holds c m"
  shows "hash_final B tail blk len_bytes out c = Some (md_digest B tail blk len_bytes out init m)"
proof -
  obtain c1 where c1: "hash_update B blk c [0x80] = Some c1" "holds c1 (m @ [0x80])"
    using update_holds [OF assms] by blast
  obtain c2 where c2: "zero_loop B tail blk c1 = Some c2" "h_buf_len c2 = B - tail"
    "absorbed B blk init c2 ((m @ [0x80]) @ replicate (missing c1) 0)"
    using zero_loop_absorbed c1(2) unfolding holds_def by blast
  define p where "p = (m @ [0x80]) @ replicate (missing c1) (0::u8)"
  have "missing c1 = pad_zeros B tail (length m + 1)"
    using c1(2) by (simp add: holds_def absorbed_def missing_def pad_zeros_def)
  then have pad: "md_pad B tail len_bytes m = p @ len_bytes (of_nat (length m) * 8)"
    by (simp add: md_pad_def p_def)
  obtain q where q: "length p = q * B + (B - tail)" "take (B - tail) (h_buf c2) = drop (q * B) p"
    "h_state c2 = foldl blk init (chunks B p)"
    using c2(2,3) unfolding p_def [symmetric] by (elim absorbed_bufE) auto
  have "chunks B (p @ len_bytes (of_nat (length m) * 8)) =
    chunks B p @ [drop (q * B) p @ len_bytes (of_nat (length m) * 8)]"
    using q(1) tail_pos tail_less by (intro chunks_append_full [where r = "B - tail"]) (auto simp: len_bytes_len)
  then show ?thesis
    using assms c1(1) c2(1) q(2,3) by (simp add: hash_final_def md_digest_def pad holds_def)
qed

lemma feed_holds: "holds c m \<Longrightarrow> \<exists>c'. hash_feed B blk ds c = Some c' \<and> holds c' (m @ concat ds)"
proof (induction ds arbitrary: c m)
  case (Cons d ds)
  obtain c1 where "hash_update B blk c d = Some c1" "holds c1 (m @ d)"
    using update_holds [OF Cons.prems] by blast
  then show ?case using Cons.IH [of c1 "m @ d"] by auto
qed simp

lemma fresh_holds:
  assumes "h_state c = init" "h_total c = 0" "length (h_buf c) = B" "h_buf_len c = 0"
  shows "holds c []"
  using assms by (simp add: holds_def absorbed_def chunks_def)

text \<open>The contract of the whole interface, and the calls that the clients make.\<close>

theorem streaming:
  assumes "h_state c = init" "h_total c = 0" "length (h_buf c) = B" "h_buf_len c = 0"
  shows "Option.bind (hash_feed B blk ds c) (hash_final B tail blk len_bytes out) =
    Some (md_digest B tail blk len_bytes out init (concat ds))"
  using feed_holds [OF fresh_holds [OF assms], of ds] final_holds by auto

end

end
