(* ===== verification/Hashes.thy ===== *)
theory Hashes
  imports Hash_Core "HOL-Library.Monad_Syntax"
begin

text \<open>
  \<^verbatim>\<open>src/crypto/md5.c\<close>, \<^verbatim>\<open>sha256.c\<close>, \<^verbatim>\<open>sha512.c\<close> and \<^verbatim>\<open>hmac.c\<close>: the compression functions with their tables, and the
  three streaming interfaces as instances of \<open>Hash_Core\<close>.  The buffer of a context is not initialised by
  the code; it is any list of the block length.
\<close>

section \<open>Words and bytes\<close>

definition rotr32 :: "u32 \<Rightarrow> nat \<Rightarrow> u32" where
  "rotr32 x n = drop_bit n x OR push_bit (32 - n) x"

definition rotr64 :: "u64 \<Rightarrow> nat \<Rightarrow> u64" where
  "rotr64 x n = drop_bit n x OR push_bit (64 - n) x"

definition rotl32 :: "u32 \<Rightarrow> nat \<Rightarrow> u32" where
  "rotl32 x n = push_bit n x OR drop_bit (32 - n) x"

text \<open>The bytes of a word, most significant first, and least significant first.\<close>

definition bytes_be :: "nat \<Rightarrow> 'a::len word \<Rightarrow> u8 list" where
  "bytes_be n x = map (\<lambda>i. ucast (drop_bit (8 * (n - 1 - i)) x)) [0..<n]"

definition bytes_le :: "nat \<Rightarrow> 'a::len word \<Rightarrow> u8 list" where
  "bytes_le n x = map (\<lambda>i. ucast (drop_bit (8 * i) x)) [0..<n]"

lemma length_bytes [simp]: "length (bytes_be n x) = n" "length (bytes_le n x) = n"
  by (simp_all add: bytes_be_def bytes_le_def)

section \<open>SHA-2\<close>

text \<open>The loops of \<^verbatim>\<open>sha256_block\<close> and \<^verbatim>\<open>sha512_block\<close>, with the mixing functions as arguments.\<close>

definition sha_schedule ::
  "('a::len word \<Rightarrow> 'a word) \<Rightarrow> ('a word \<Rightarrow> 'a word) \<Rightarrow> nat \<Rightarrow> 'a word list \<Rightarrow> 'a word list" where
  "sha_schedule s0 s1 n w =
    foldl (\<lambda>w i. w @ [w ! (i - 16) + s0 (w ! (i - 15)) + w ! (i - 7) + s1 (w ! (i - 2))]) w [16..<n]"

fun sha_round ::
  "('a::len word \<Rightarrow> 'a word) \<Rightarrow> ('a word \<Rightarrow> 'a word) \<Rightarrow> 'a word list \<Rightarrow> 'a word \<times> 'a word \<Rightarrow> 'a word list" where
  "sha_round S0 S1 [a, b, c, d, e, f, g, h] (k, w) =
    (let temp1 = h + S1 e + ((e AND f) XOR (NOT e AND g)) + k + w;
         temp2 = S0 a + ((a AND b) XOR (a AND c) XOR (b AND c))
     in [temp1 + temp2, a, b, c, d + temp1, e, f, g])"
| "sha_round S0 S1 st kw = st"

text \<open>The tables of constants are the concatenation of the rows that the source prints.\<close>

definition SHA256_K :: "u32 list" where
  "SHA256_K = concat
    [[0x428a2f98, 0x71374491, 0xb5c0fbcf, 0xe9b5dba5, 0x3956c25b, 0x59f111f1],
     [0x923f82a4, 0xab1c5ed5, 0xd807aa98, 0x12835b01, 0x243185be, 0x550c7dc3],
     [0x72be5d74, 0x80deb1fe, 0x9bdc06a7, 0xc19bf174, 0xe49b69c1, 0xefbe4786],
     [0x0fc19dc6, 0x240ca1cc, 0x2de92c6f, 0x4a7484aa, 0x5cb0a9dc, 0x76f988da],
     [0x983e5152, 0xa831c66d, 0xb00327c8, 0xbf597fc7, 0xc6e00bf3, 0xd5a79147],
     [0x06ca6351, 0x14292967, 0x27b70a85, 0x2e1b2138, 0x4d2c6dfc, 0x53380d13],
     [0x650a7354, 0x766a0abb, 0x81c2c92e, 0x92722c85, 0xa2bfe8a1, 0xa81a664b],
     [0xc24b8b70, 0xc76c51a3, 0xd192e819, 0xd6990624, 0xf40e3585, 0x106aa070],
     [0x19a4c116, 0x1e376c08, 0x2748774c, 0x34b0bcb5, 0x391c0cb3, 0x4ed8aa4a],
     [0x5b9cca4f, 0x682e6ff3, 0x748f82ee, 0x78a5636f, 0x84c87814, 0x8cc70208],
     [0x90befffa, 0xa4506ceb, 0xbef9a3f7, 0xc67178f2]]"

definition sha256_block :: "u32 list \<Rightarrow> u8 list \<Rightarrow> u32 list" where
  "sha256_block st block =
    (let w0 = map (\<lambda>i. push_bit 24 (ucast (block ! (i * 4))) OR push_bit 16 (ucast (block ! (i * 4 + 1))) OR
                       push_bit 8 (ucast (block ! (i * 4 + 2))) OR ucast (block ! (i * 4 + 3))) [0..<16];
         w = sha_schedule (\<lambda>x. rotr32 x 7 XOR rotr32 x 18 XOR drop_bit 3 x)
               (\<lambda>x. rotr32 x 17 XOR rotr32 x 19 XOR drop_bit 10 x) 64 w0
     in map2 (+) st
          (foldl (sha_round (\<lambda>x. rotr32 x 2 XOR rotr32 x 13 XOR rotr32 x 22)
                            (\<lambda>x. rotr32 x 6 XOR rotr32 x 11 XOR rotr32 x 25)) st (zip SHA256_K w)))"

definition mt_sha256_init :: "u32 hash_ctx \<Rightarrow> u32 hash_ctx" where
  "mt_sha256_init c =
    c\<lparr>h_state := [0x6a09e667, 0xbb67ae85, 0x3c6ef372, 0xa54ff53a, 0x510e527f, 0x9b05688c, 0x1f83d9ab, 0x5be0cd19],
      h_total := 0, h_buf_len := 0\<rparr>"

definition mt_sha256_update :: "u32 hash_ctx \<Rightarrow> u8 list \<Rightarrow> u32 hash_ctx option" where
  "mt_sha256_update = hash_update 64 sha256_block"

definition mt_sha256_final :: "u32 hash_ctx \<Rightarrow> u8 list option" where
  "mt_sha256_final = hash_final 64 8 sha256_block (bytes_be 8) (\<lambda>st. concat (map (bytes_be 4) st))"

definition ctx64 :: "u32 hash_ctx" where
  "ctx64 = \<lparr>h_state = [], h_total = 0, h_buf = replicate 64 0, h_buf_len = 0\<rparr>"

definition mt_sha256 :: "u8 list \<Rightarrow> u8 list option" where
  "mt_sha256 data = Option.bind (mt_sha256_update (mt_sha256_init ctx64) data) mt_sha256_final"

definition SHA512_K :: "u64 list" where
  "SHA512_K = concat
    [[0x428a2f98d728ae22, 0x7137449123ef65cd, 0xb5c0fbcfec4d3b2f],
     [0xe9b5dba58189dbbc, 0x3956c25bf348b538, 0x59f111f1b605d019],
     [0x923f82a4af194f9b, 0xab1c5ed5da6d8118, 0xd807aa98a3030242],
     [0x12835b0145706fbe, 0x243185be4ee4b28c, 0x550c7dc3d5ffb4e2],
     [0x72be5d74f27b896f, 0x80deb1fe3b1696b1, 0x9bdc06a725c71235],
     [0xc19bf174cf692694, 0xe49b69c19ef14ad2, 0xefbe4786384f25e3],
     [0x0fc19dc68b8cd5b5, 0x240ca1cc77ac9c65, 0x2de92c6f592b0275],
     [0x4a7484aa6ea6e483, 0x5cb0a9dcbd41fbd4, 0x76f988da831153b5],
     [0x983e5152ee66dfab, 0xa831c66d2db43210, 0xb00327c898fb213f],
     [0xbf597fc7beef0ee4, 0xc6e00bf33da88fc2, 0xd5a79147930aa725],
     [0x06ca6351e003826f, 0x142929670a0e6e70, 0x27b70a8546d22ffc],
     [0x2e1b21385c26c926, 0x4d2c6dfc5ac42aed, 0x53380d139d95b3df],
     [0x650a73548baf63de, 0x766a0abb3c77b2a8, 0x81c2c92e47edaee6],
     [0x92722c851482353b, 0xa2bfe8a14cf10364, 0xa81a664bbc423001],
     [0xc24b8b70d0f89791, 0xc76c51a30654be30, 0xd192e819d6ef5218],
     [0xd69906245565a910, 0xf40e35855771202a, 0x106aa07032bbd1b8],
     [0x19a4c116b8d2d0c8, 0x1e376c085141ab53, 0x2748774cdf8eeb99],
     [0x34b0bcb5e19b48a8, 0x391c0cb3c5c95a63, 0x4ed8aa4ae3418acb],
     [0x5b9cca4f7763e373, 0x682e6ff3d6b2b8a3, 0x748f82ee5defb2fc],
     [0x78a5636f43172f60, 0x84c87814a1f0ab72, 0x8cc702081a6439ec],
     [0x90befffa23631e28, 0xa4506cebde82bde9, 0xbef9a3f7b2c67915],
     [0xc67178f2e372532b, 0xca273eceea26619c, 0xd186b8c721c0c207],
     [0xeada7dd6cde0eb1e, 0xf57d4f7fee6ed178, 0x06f067aa72176fba],
     [0x0a637dc5a2c898a6, 0x113f9804bef90dae, 0x1b710b35131c471b],
     [0x28db77f523047d84, 0x32caab7b40c72493, 0x3c9ebe0a15c9bebc],
     [0x431d67c49c100d4c, 0x4cc5d4becb3e42b6, 0x597f299cfc657e2a],
     [0x5fcb6fab3ad6faec, 0x6c44198c4a475817]]"

definition sha512_block :: "u64 list \<Rightarrow> u8 list \<Rightarrow> u64 list" where
  "sha512_block st block =
    (let w0 = map (\<lambda>i. foldl (\<lambda>v j. push_bit 8 v OR ucast (block ! (i * 8 + j))) 0 [0..<8]) [0..<16];
         w = sha_schedule (\<lambda>x. rotr64 x 1 XOR rotr64 x 8 XOR drop_bit 7 x)
               (\<lambda>x. rotr64 x 19 XOR rotr64 x 61 XOR drop_bit 6 x) 80 w0
     in map2 (+) st
          (foldl (sha_round (\<lambda>x. rotr64 x 28 XOR rotr64 x 34 XOR rotr64 x 39)
                            (\<lambda>x. rotr64 x 14 XOR rotr64 x 18 XOR rotr64 x 41)) st (zip SHA512_K w)))"

definition mt_sha512_init :: "u64 hash_ctx \<Rightarrow> u64 hash_ctx" where
  "mt_sha512_init c =
    c\<lparr>h_state := [0x6a09e667f3bcc908, 0xbb67ae8584caa73b, 0x3c6ef372fe94f82b, 0xa54ff53a5f1d36f1,
                 0x510e527fade682d1, 0x9b05688c2b3e6c1f, 0x1f83d9abfb41bd6b, 0x5be0cd19137e2179],
      h_total := 0, h_buf_len := 0\<rparr>"

definition mt_sha512_update :: "u64 hash_ctx \<Rightarrow> u8 list \<Rightarrow> u64 hash_ctx option" where
  "mt_sha512_update = hash_update 128 sha512_block"

definition mt_sha512_final :: "u64 hash_ctx \<Rightarrow> u8 list option" where
  "mt_sha512_final =
    hash_final 128 16 sha512_block (\<lambda>n. replicate 8 0 @ bytes_be 8 n) (\<lambda>st. concat (map (bytes_be 8) st))"

definition ctx128 :: "u64 hash_ctx" where
  "ctx128 = \<lparr>h_state = [], h_total = 0, h_buf = replicate 128 0, h_buf_len = 0\<rparr>"

definition mt_sha512 :: "u8 list \<Rightarrow> u8 list option" where
  "mt_sha512 data = Option.bind (mt_sha512_update (mt_sha512_init ctx128) data) mt_sha512_final"

section \<open>MD5\<close>

definition MD5_K :: "u32 list" where
  "MD5_K =
    [0xd76aa478, 0xe8c7b756, 0x242070db, 0xc1bdceee, 0xf57c0faf, 0x4787c62a,
     0xa8304613, 0xfd469501, 0x698098d8, 0x8b44f7af, 0xffff5bb1, 0x895cd7be,
     0x6b901122, 0xfd987193, 0xa679438e, 0x49b40821, 0xf61e2562, 0xc040b340,
     0x265e5a51, 0xe9b6c7aa, 0xd62f105d, 0x02441453, 0xd8a1e681, 0xe7d3fbc8,
     0x21e1cde6, 0xc33707d6, 0xf4d50d87, 0x455a14ed, 0xa9e3e905, 0xfcefa3f8,
     0x676f02d9, 0x8d2a4c8a, 0xfffa3942, 0x8771f681, 0x6d9d6122, 0xfde5380c,
     0xa4beea44, 0x4bdecfa9, 0xf6bb4b60, 0xbebfbc70, 0x289b7ec6, 0xeaa127fa,
     0xd4ef3085, 0x04881d05, 0xd9d4d039, 0xe6db99e5, 0x1fa27cf8, 0xc4ac5665,
     0xf4292244, 0x432aff97, 0xab9423a7, 0xfc93a039, 0x655b59c3, 0x8f0ccc92,
     0xffeff47d, 0x85845dd1, 0x6fa87e4f, 0xfe2ce6e0, 0xa3014314, 0x4e0811a1,
     0xf7537e82, 0xbd3af235, 0x2ad7d2bb, 0xeb86d391]"

definition MD5_S :: "nat list" where
  "MD5_S =
    [7, 12, 17, 22, 7, 12, 17, 22, 7, 12, 17, 22, 7, 12, 17, 22,
     5, 9, 14, 20, 5, 9, 14, 20, 5, 9, 14, 20, 5, 9, 14, 20,
     4, 11, 16, 23, 4, 11, 16, 23, 4, 11, 16, 23, 4, 11, 16, 23,
     6, 10, 15, 21, 6, 10, 15, 21, 6, 10, 15, 21, 6, 10, 15, 21]"

definition md5_round :: "u32 list \<Rightarrow> u32 \<times> u32 \<times> u32 \<times> u32 \<Rightarrow> nat \<Rightarrow> u32 \<times> u32 \<times> u32 \<times> u32" where
  "md5_round m st i =
    (case st of (a, b, c, d) \<Rightarrow>
      let fg = (if i < 16 then ((b AND c) OR (NOT b AND d), i)
                else if i < 32 then ((d AND b) OR (NOT d AND c), (5 * i + 1) mod 16)
                else if i < 48 then (b XOR c XOR d, (3 * i + 5) mod 16)
                else (c XOR (b OR NOT d), (7 * i) mod 16))
      in (d, b + rotl32 (a + fst fg + MD5_K ! i + m ! snd fg) (MD5_S ! i), b, c))"

definition md5_block :: "u32 list \<Rightarrow> u8 list \<Rightarrow> u32 list" where
  "md5_block st block =
    (let m = map (\<lambda>i. ucast (block ! (i * 4)) OR push_bit 8 (ucast (block ! (i * 4 + 1))) OR
                      push_bit 16 (ucast (block ! (i * 4 + 2))) OR push_bit 24 (ucast (block ! (i * 4 + 3)))) [0..<16]
     in case foldl (md5_round m) (st ! 0, st ! 1, st ! 2, st ! 3) [0..<64] of
          (a, b, c, d) \<Rightarrow> [st ! 0 + a, st ! 1 + b, st ! 2 + c, st ! 3 + d])"

definition mt_md5_init :: "u32 hash_ctx \<Rightarrow> u32 hash_ctx" where
  "mt_md5_init c =
    c\<lparr>h_state := [0x67452301, 0xefcdab89, 0x98badcfe, 0x10325476], h_total := 0, h_buf_len := 0\<rparr>"

definition mt_md5_update :: "u32 hash_ctx \<Rightarrow> u8 list \<Rightarrow> u32 hash_ctx option" where
  "mt_md5_update = hash_update 64 md5_block"

definition mt_md5_final :: "u32 hash_ctx \<Rightarrow> u8 list option" where
  "mt_md5_final = hash_final 64 8 md5_block (bytes_le 8) (\<lambda>st. concat (map (bytes_le 4) st))"

definition mt_md5 :: "u8 list \<Rightarrow> u8 list option" where
  "mt_md5 data = Option.bind (mt_md5_update (mt_md5_init ctx64) data) mt_md5_final"

section \<open>Every interface computes its digest\<close>

text \<open>
  The reference digests: the message is padded with a one bit, zeros and its length in bits, cut into
  blocks, and the blocks are compressed from left to right.
\<close>

definition md5_spec :: "u8 list \<Rightarrow> u8 list" where
  "md5_spec = md_digest 64 8 md5_block (bytes_le 8) (\<lambda>st. concat (map (bytes_le 4) st))
    [0x67452301, 0xefcdab89, 0x98badcfe, 0x10325476]"

definition sha256_spec :: "u8 list \<Rightarrow> u8 list" where
  "sha256_spec = md_digest 64 8 sha256_block (bytes_be 8) (\<lambda>st. concat (map (bytes_be 4) st))
    [0x6a09e667, 0xbb67ae85, 0x3c6ef372, 0xa54ff53a, 0x510e527f, 0x9b05688c, 0x1f83d9ab, 0x5be0cd19]"

definition sha512_spec :: "u8 list \<Rightarrow> u8 list" where
  "sha512_spec = md_digest 128 16 sha512_block (\<lambda>n. replicate 8 0 @ bytes_be 8 n) (\<lambda>st. concat (map (bytes_be 8) st))
    [0x6a09e667f3bcc908, 0xbb67ae8584caa73b, 0x3c6ef372fe94f82b, 0xa54ff53a5f1d36f1,
     0x510e527fade682d1, 0x9b05688c2b3e6c1f, 0x1f83d9abfb41bd6b, 0x5be0cd19137e2179]"

interpretation md5: md_hash 64 8 md5_block "bytes_le 8" "\<lambda>st. concat (map (bytes_le 4) st)"
    "[0x67452301, 0xefcdab89, 0x98badcfe, 0x10325476]"
  by unfold_locales simp_all

interpretation sha256: md_hash 64 8 sha256_block "bytes_be 8" "\<lambda>st. concat (map (bytes_be 4) st)"
    "[0x6a09e667, 0xbb67ae85, 0x3c6ef372, 0xa54ff53a, 0x510e527f, 0x9b05688c, 0x1f83d9ab, 0x5be0cd19]"
  by unfold_locales simp_all

interpretation sha512: md_hash 128 16 sha512_block "\<lambda>n. replicate 8 0 @ bytes_be 8 n"
    "\<lambda>st. concat (map (bytes_be 8) st)"
    "[0x6a09e667f3bcc908, 0xbb67ae8584caa73b, 0x3c6ef372fe94f82b, 0xa54ff53a5f1d36f1,
      0x510e527fade682d1, 0x9b05688c2b3e6c1f, 0x1f83d9abfb41bd6b, 0x5be0cd19137e2179]"
  by unfold_locales simp_all

text \<open>Calls of \<^verbatim>\<open>update\<close> with the pieces of a message, between \<^verbatim>\<open>init\<close> and \<^verbatim>\<open>final\<close>.\<close>

definition md5_of :: "u32 hash_ctx \<Rightarrow> u8 list list \<Rightarrow> u8 list option" where
  "md5_of c ds = Option.bind (hash_feed 64 md5_block ds (mt_md5_init c)) mt_md5_final"

definition sha256_of :: "u32 hash_ctx \<Rightarrow> u8 list list \<Rightarrow> u8 list option" where
  "sha256_of c ds = Option.bind (hash_feed 64 sha256_block ds (mt_sha256_init c)) mt_sha256_final"

definition sha512_of :: "u64 hash_ctx \<Rightarrow> u8 list list \<Rightarrow> u8 list option" where
  "sha512_of c ds = Option.bind (hash_feed 128 sha512_block ds (mt_sha512_init c)) mt_sha512_final"

lemma md5_of_spec: "length (h_buf c) = 64 \<Longrightarrow> md5_of c ds = Some (md5_spec (concat ds))"
  unfolding md5_of_def mt_md5_final_def md5_spec_def by (rule md5.streaming) (simp_all add: mt_md5_init_def)

lemma sha256_of_spec: "length (h_buf c) = 64 \<Longrightarrow> sha256_of c ds = Some (sha256_spec (concat ds))"
  unfolding sha256_of_def mt_sha256_final_def sha256_spec_def
  by (rule sha256.streaming) (simp_all add: mt_sha256_init_def)

lemma sha512_of_spec: "length (h_buf c) = 128 \<Longrightarrow> sha512_of c ds = Some (sha512_spec (concat ds))"
  unfolding sha512_of_def mt_sha512_final_def sha512_spec_def
  by (rule sha512.streaming) (simp_all add: mt_sha512_init_def)

lemma one_shot_spec:
  "mt_md5 data = Some (md5_spec data)" "mt_sha256 data = Some (sha256_spec data)"
  "mt_sha512 data = Some (sha512_spec data)"
  using md5_of_spec [of ctx64 "[data]"] sha256_of_spec [of ctx64 "[data]"] sha512_of_spec [of ctx128 "[data]"]
  by (simp_all add: md5_of_def sha256_of_def sha512_of_def ctx64_def ctx128_def mt_md5_def mt_sha256_def mt_sha512_def
      mt_md5_update_def mt_sha256_update_def mt_sha512_update_def)

section \<open>The published test vectors\<close>

lemma md5_abc: "md5_spec [97, 98, 99] =
  [0x90, 0x01, 0x50, 0x98, 0x3c, 0xd2, 0x4f, 0xb0, 0xd6, 0x96, 0x3f, 0x7d, 0x28, 0xe1, 0x7f, 0x72]"
  by code_simp

lemma sha256_abc: "sha256_spec [97, 98, 99] =
  [0xba, 0x78, 0x16, 0xbf, 0x8f, 0x01, 0xcf, 0xea, 0x41, 0x41, 0x40, 0xde, 0x5d, 0xae, 0x22, 0x23, 0xb0, 0x03, 0x61, 0xa3, 0x96, 0x17, 0x7a, 0x9c, 0xb4, 0x10, 0xff, 0x61, 0xf2, 0x00, 0x15, 0xad]"
  by code_simp

text \<open>
  C31.  The three streaming hashes return, and what they return is the digest of the whole message: however
  a message is cut into pieces, and whatever the uninitialised buffer holds, \<^verbatim>\<open>init\<close>, one \<^verbatim>\<open>update\<close> per piece and
  \<^verbatim>\<open>final\<close> give the bytes that padding the message as RFC 1321 and FIPS 180-4 ask and compressing its blocks
  from left to right gives; the one-shot functions give the same.
\<close>

theorem hashes_streaming:
  assumes "length (h_buf c) = 64" "length (h_buf c') = 128"
  shows "md5_of c ds = Some (md5_spec (concat ds)) \<and> mt_md5 (concat ds) = Some (md5_spec (concat ds)) \<and>
    sha256_of c ds = Some (sha256_spec (concat ds)) \<and> mt_sha256 (concat ds) = Some (sha256_spec (concat ds)) \<and>
    sha512_of c' ds = Some (sha512_spec (concat ds)) \<and> mt_sha512 (concat ds) = Some (sha512_spec (concat ds))"
  using assms by (simp add: md5_of_spec sha256_of_spec sha512_of_spec one_shot_spec)

theorem hashes_streaming_witness:
  "sha256_of ctx64 [[97], [98, 99]] = mt_sha256 [97, 98, 99] \<and>
   md5_of ctx64 [[97], [], [98, 99]] =
     Some [0x90, 0x01, 0x50, 0x98, 0x3c, 0xd2, 0x4f, 0xb0, 0xd6, 0x96, 0x3f, 0x7d, 0x28, 0xe1, 0x7f, 0x72]"
  using hashes_streaming [of ctx64 ctx128 "[[97], [98, 99]]"] hashes_streaming [of ctx64 ctx128 "[[97], [], [98, 99]]"]
  by (simp add: md5_abc ctx64_def ctx128_def)

section \<open>The message schedule\<close>

text \<open>The recurrence of FIPS 180-4 for the words of the schedule.\<close>

function sha_W :: "('a::len word \<Rightarrow> 'a word) \<Rightarrow> ('a word \<Rightarrow> 'a word) \<Rightarrow> 'a word list \<Rightarrow> nat \<Rightarrow> 'a word" where
  "sha_W s0 s1 w t =
    (if t < 16 then w ! t
     else sha_W s0 s1 w (t - 16) + s0 (sha_W s0 s1 w (t - 15)) + sha_W s0 s1 w (t - 7) + s1 (sha_W s0 s1 w (t - 2)))"
  by auto
termination by (relation "measure (\<lambda>(s0, s1, w, t). t)") auto

declare sha_W.simps [simp del]

lemma sha_schedule_snoc:
  "16 \<le> n \<Longrightarrow> sha_schedule s0 s1 (Suc n) w =
    (let v = sha_schedule s0 s1 n w in v @ [v ! (n - 16) + s0 (v ! (n - 15)) + v ! (n - 7) + s1 (v ! (n - 2))])"
  by (simp add: sha_schedule_def Let_def)

lemma sha_schedule_W:
  assumes "length w = 16" "16 \<le> n"
  shows "sha_schedule s0 s1 n w = map (sha_W s0 s1 w) [0..<n]"
  using assms(2)
proof (induction n rule: dec_induct)
  case base
  show ?case
    using assms(1) by (intro nth_equalityI) (simp_all add: sha_schedule_def sha_W.simps)
next
  case (step n)
  then show ?case
    by (subst sha_schedule_snoc) (simp_all add: Let_def sha_W.simps [of s0 s1 w n])
qed

section \<open>HMAC\<close>

definition mt_hmac_sha256 :: "u8 list \<Rightarrow> u8 list \<Rightarrow> u8 list option" where
  "mt_hmac_sha256 key msg = do {
     key_block \<leftarrow> (if 64 < length key then map_option (\<lambda>d. d @ drop 32 (replicate 64 0)) (mt_sha256 key)
                   else Some (key @ drop (length key) (replicate 64 0)));
     let ipad = map (\<lambda>b. b XOR 0x36) key_block;
     let opad = map (\<lambda>b. b XOR 0x5c) key_block;
     c \<leftarrow> mt_sha256_update (mt_sha256_init ctx64) ipad;
     c \<leftarrow> mt_sha256_update c msg;
     inner \<leftarrow> mt_sha256_final c;
     c \<leftarrow> mt_sha256_update (mt_sha256_init ctx64) opad;
     c \<leftarrow> mt_sha256_update c inner;
     mt_sha256_final c
   }"

definition mt_hash_equal :: "u8 list \<Rightarrow> u8 list \<Rightarrow> nat \<Rightarrow> bool" where
  "mt_hash_equal a b len = (foldl (\<lambda>diff i. diff OR (a ! i XOR b ! i)) 0 [0..<len] = 0)"

text \<open>RFC 2104.\<close>

definition hmac_spec :: "u8 list \<Rightarrow> u8 list \<Rightarrow> u8 list" where
  "hmac_spec key msg =
    (let k = (if 64 < length key then sha256_spec key else key);
         k0 = k @ replicate (64 - length k) 0
     in sha256_spec (map (\<lambda>b. b XOR 0x5c) k0 @ sha256_spec (map (\<lambda>b. b XOR 0x36) k0 @ msg)))"

lemma sha256_two_updates:
  "do { c \<leftarrow> mt_sha256_update (mt_sha256_init ctx64) d; c \<leftarrow> mt_sha256_update c e; mt_sha256_final c } =
    Some (sha256_spec (d @ e))"
  using sha256_of_spec [of ctx64 "[d, e]"] by (simp add: sha256_of_def mt_sha256_update_def ctx64_def)

lemma sha256_two_updates_bind:
  "do { c \<leftarrow> mt_sha256_update (mt_sha256_init ctx64) d; c \<leftarrow> mt_sha256_update c e; x \<leftarrow> mt_sha256_final c; f x } =
    f (sha256_spec (d @ e))"
  using arg_cong [OF sha256_two_updates [of d e], of "\<lambda>r. Option.bind r f"] by (simp add: Option.bind_assoc)

lemma length_foldl_blocks:
  "length init = n \<Longrightarrow> (\<And>st b. length st = n \<Longrightarrow> length (blk st b) = n) \<Longrightarrow> length (foldl blk init bs) = n"
  by (induction bs arbitrary: init) auto

lemma length_sha_round: "length (sha_round S0 S1 st kw) = length st"
  by (induction S0 S1 st kw rule: sha_round.induct) (simp_all add: Let_def)

lemma length_sha_rounds: "length (foldl (sha_round S0 S1) st kws) = length st"
  by (induction kws arbitrary: st) (simp_all add: length_sha_round)

lemma length_sha256_spec: "length (sha256_spec m) = 32"
proof -
  have "length (foldl sha256_block init bs) = length init" for init bs
    by (rule length_foldl_blocks [OF refl]) (simp add: sha256_block_def Let_def length_sha_rounds)
  then show ?thesis
    by (simp add: sha256_spec_def md_digest_def length_concat o_def sum_list_triv)
qed

lemma hmac_correct: "mt_hmac_sha256 key msg = Some (hmac_spec key msg)"
  unfolding mt_hmac_sha256_def hmac_spec_def Let_def
  by (simp add: one_shot_spec length_sha256_spec sha256_two_updates sha256_two_updates_bind)

lemma hash_equal_iff:
  assumes "n \<le> length a" "n \<le> length b"
  shows "mt_hash_equal a b n \<longleftrightarrow> take n a = take n b"
proof -
  have or0: "x OR y = 0 \<longleftrightarrow> x = 0 \<and> y = 0" for x y :: u8
    by (auto simp: bit_eq_iff bit_simps)
  have xor0: "x XOR y = 0 \<longleftrightarrow> x = y" for x y :: u8
    by (auto simp: bit_eq_iff bit_simps)
  have "foldl (\<lambda>diff i. diff OR (a ! i XOR b ! i)) d [0..<n] = 0 \<longleftrightarrow> d = 0 \<and> (\<forall>i<n. a ! i = b ! i)" for d
    by (induction n) (auto simp: or0 xor0 less_Suc_eq)
  then show ?thesis
    using assms by (auto simp: mt_hash_equal_def list_eq_iff_nth_eq)
qed

end
