(* ===== verification/Base64.thy ===== *)
theory Base64
  imports Prelude
begin

text \<open>
  \<^verbatim>\<open>src/crypto/base64.c\<close>: the padded standard alphabet and the unpadded URL alphabet.  The encoder writes
  to a buffer of the caller, the decoder too; here both return what they write.  The accumulator of the
  decoder is a 32-bit word whose old bits are shifted out.
\<close>

definition std_alphabet :: string where
  "std_alphabet = ''ABCDEFGHIJKLMNOPQRSTUVWXYZabcdefghijklmnopqrstuvwxyz0123456789+/''"

definition url_alphabet :: string where
  "url_alphabet = ''ABCDEFGHIJKLMNOPQRSTUVWXYZabcdefghijklmnopqrstuvwxyz0123456789-_''"

definition mt_base64_encoded_len :: "nat \<Rightarrow> nat" where
  "mt_base64_encoded_len in_len = ((in_len + 2) div 3) * 4"

definition mt_base64url_encoded_len :: "nat \<Rightarrow> nat" where
  "mt_base64url_encoded_len in_len =
    in_len div 3 * 4 + (if in_len mod 3 = 1 then 2 else 0) + (if in_len mod 3 = 2 then 3 else 0)"

definition sextet :: "string \<Rightarrow> u32 \<Rightarrow> nat \<Rightarrow> char" where
  "sextet alphabet v n = alphabet ! unat (drop_bit n v AND 0x3f)"

fun encode_core :: "string \<Rightarrow> bool \<Rightarrow> u8 list \<Rightarrow> string" where
  "encode_core alphabet pad (a # b # c # data) =
    (let v = push_bit 16 (ucast a) OR push_bit 8 (ucast b) OR ucast c
     in sextet alphabet v 18 # sextet alphabet v 12 # sextet alphabet v 6 # sextet alphabet v 0 #
        encode_core alphabet pad data)"
| "encode_core alphabet pad [a, b] =
    (let v = push_bit 16 (ucast a) OR push_bit 8 (ucast b)
     in [sextet alphabet v 18, sextet alphabet v 12, sextet alphabet v 6] @ (if pad then ''='' else []))"
| "encode_core alphabet pad [a] =
    (let v = push_bit 16 (ucast a)
     in [sextet alphabet v 18, sextet alphabet v 12] @ (if pad then ''=='' else []))"
| "encode_core alphabet pad [] = []"

definition mt_base64_encode :: "u8 list \<Rightarrow> string" where
  "mt_base64_encode data = encode_core std_alphabet True data"

definition mt_base64url_encode :: "u8 list \<Rightarrow> string" where
  "mt_base64url_encode data = encode_core url_alphabet False data"

definition decode_char :: "string \<Rightarrow> char \<Rightarrow> u8 option" where
  "decode_char alphabet c = map_option of_nat (List.find (\<lambda>i. alphabet ! i = c) [0..<64])"

fun decode_loop :: "string \<Rightarrow> string \<Rightarrow> u32 \<Rightarrow> nat \<Rightarrow> u8 list option" where
  "decode_loop alphabet [] acc bits = Some []"
| "decode_loop alphabet (c # cs) acc bits =
    (case decode_char alphabet c of
       None \<Rightarrow> None
     | Some v \<Rightarrow>
         let acc = push_bit 6 acc OR ucast v; bits = bits + 6
         in if 8 \<le> bits
            then map_option (\<lambda>out. ucast (drop_bit (bits - 8) acc AND 0xff) # out) (decode_loop alphabet cs acc (bits - 8))
            else decode_loop alphabet cs acc bits)"

fun strip_pad :: "string \<Rightarrow> string" where
  "strip_pad s = rev (dropWhile (\<lambda>c. c = CHR ''='') (rev s))"

definition decode_core :: "string \<Rightarrow> string \<Rightarrow> u8 list option" where
  "decode_core alphabet s = decode_loop alphabet (strip_pad s) 0 0"

definition mt_base64_decode :: "string \<Rightarrow> u8 list option" where
  "mt_base64_decode s = decode_core std_alphabet s"

definition mt_base64url_decode :: "string \<Rightarrow> u8 list option" where
  "mt_base64url_decode s = decode_core url_alphabet s"

section \<open>Alphabets\<close>

definition alphabet_ok :: "string \<Rightarrow> bool" where
  "alphabet_ok al \<longleftrightarrow> length al = 64 \<and> distinct al \<and> CHR ''='' \<notin> set al"

lemma alphabets_ok: "alphabet_ok std_alphabet" "alphabet_ok url_alphabet"
  by code_simp+

lemma decode_char_nth:
  assumes "alphabet_ok al" "i < 64"
  shows "decode_char al (al ! i) = Some (of_nat i)"
proof -
  have "List.find (\<lambda>j. al ! j = al ! i) [0..<64] = Some i"
    using assms by (auto simp: find_Some_iff alphabet_ok_def nth_eq_iff_index_eq intro!: exI [of _ i])
  then show ?thesis by (simp add: decode_char_def)
qed

lemma sextet_less: "unat (v AND 0x3f :: u32) < 64"
proof -
  have "v AND 0x3f \<le> 0x3f"
    by (rule word_and_le1)
  then show ?thesis by (simp add: word_le_nat_alt)
qed

lemma decode_sextet:
  assumes "alphabet_ok al"
  shows "decode_char al (sextet al v n) = Some (ucast (drop_bit n v AND 0x3f))"
  unfolding sextet_def using decode_char_nth [OF assms sextet_less] by simp

section \<open>Decoding what was encoded\<close>

lemma byte_eqI:
  fixes x y :: u8
  assumes "bit x 0 = bit y 0" "bit x 1 = bit y 1" "bit x 2 = bit y 2" "bit x 3 = bit y 3"
    "bit x 4 = bit y 4" "bit x 5 = bit y 5" "bit x 6 = bit y 6" "bit x 7 = bit y 7"
  shows "x = y"
proof (rule bit_word_eqI)
  fix n assume "n < LENGTH(8)"
  then have "n \<in> {0, 1, 2, 3, 4, 5, 6, 7}" by auto
  then show "bit x n = bit y n" using assms by auto
qed

lemma bit_low_mask [simp]: "bit (0x3f :: u32) n \<longleftrightarrow> n < 6" "bit (0xff :: u32) n \<longleftrightarrow> n < 8"
proof -
  have "bit (mask 6 :: u32) n \<longleftrightarrow> n < 6" "bit (mask 8 :: u32) n \<longleftrightarrow> n < 8"
    unfolding bit_mask_iff by auto
  moreover have "(mask 6 :: u32) = 0x3f" "(mask 8 :: u32) = 0xff" by (simp_all add: mask_eq_exp_minus_1)
  ultimately show "bit (0x3f :: u32) n \<longleftrightarrow> n < 6" "bit (0xff :: u32) n \<longleftrightarrow> n < 8"
    by simp_all
qed

lemma decode_quad:
  assumes "alphabet_ok al"
  shows "\<exists>acc'. decode_loop al (sextet al v 18 # sextet al v 12 # sextet al v 6 # sextet al v 0 # cs) acc 0 =
    map_option (\<lambda>out. ucast (drop_bit 16 v) # ucast (drop_bit 8 v) # ucast v # out) (decode_loop al cs acc' 0)"
  apply (simp add: assms decode_sextet Let_def option.map_comp o_def)
  apply (rule exI, rule option.map_cong0, simp)
  apply (intro conjI; rule byte_eqI; simp add: bit_simps)
  done

lemma decode_three:
  assumes "alphabet_ok al"
  shows "decode_loop al [sextet al v 18, sextet al v 12, sextet al v 6] acc 0 =
    Some [ucast (drop_bit 16 v), ucast (drop_bit 8 v)]"
  by (simp add: assms decode_sextet Let_def) (intro conjI; rule byte_eqI; simp add: bit_simps)

lemma decode_two:
  assumes "alphabet_ok al"
  shows "decode_loop al [sextet al v 18, sextet al v 12] acc 0 = Some [ucast (drop_bit 16 v)]"
  by (simp add: assms decode_sextet Let_def) (rule byte_eqI; simp add: bit_simps)

text \<open>The bytes of a group can be read back from its 24 bits.\<close>

lemma group_bytes:
  fixes a b c :: u8
  defines "v \<equiv> push_bit 16 (ucast a) OR push_bit 8 (ucast b) OR (ucast c :: u32)"
  shows "ucast (drop_bit 16 v) = a" "ucast (drop_bit 8 v) = b" "ucast v = c"
proof -
  have high: "\<not> bit x n" if "8 \<le> n" for x :: u8 and n
    using that bit_imp_le_length [of x n] by auto
  show "ucast (drop_bit 16 v) = a" "ucast (drop_bit 8 v) = b" "ucast v = c"
    unfolding v_def by (rule byte_eqI; simp add: bit_simps high)+
qed

lemmas group_bytes_2 = group_bytes [where c = 0, simplified]
lemmas group_bytes_1 = group_bytes_2 [where b = 0, simplified]

lemma decode_encode: "alphabet_ok al \<Longrightarrow> \<not> pad \<Longrightarrow> decode_loop al (encode_core al pad xs) acc 0 = Some xs"
proof (induction al pad xs arbitrary: acc rule: encode_core.induct)
  case (1 al pad a b c xs)
  define v :: u32 where "v = push_bit 16 (ucast a) OR push_bit 8 (ucast b) OR ucast c"
  have v: "ucast (drop_bit 16 v) = a" "ucast (drop_bit 8 v) = b" "ucast v = c"
    unfolding v_def by (rule group_bytes)+
  have enc: "encode_core al pad (a # b # c # xs) =
    sextet al v 18 # sextet al v 12 # sextet al v 6 # sextet al v 0 # encode_core al pad xs"
    by (simp add: v_def Let_def)
  obtain acc' where "decode_loop al (encode_core al pad (a # b # c # xs)) acc 0 =
    map_option (\<lambda>out. a # b # c # out) (decode_loop al (encode_core al pad xs) acc' 0)"
    using decode_quad [OF 1(2), of v "encode_core al pad xs" acc] unfolding enc v by blast
  then show ?case using 1 by simp
qed (simp_all add: decode_three decode_two Let_def group_bytes_2 group_bytes_1 del: decode_loop.simps(2))

lemma sextet_in_set: "alphabet_ok al \<Longrightarrow> sextet al v n \<in> set al"
  using sextet_less [of "drop_bit n v"] by (simp add: sextet_def alphabet_ok_def)

lemma sextet_in: "alphabet_ok al \<Longrightarrow> sextet al v n \<noteq> CHR ''=''"
  using sextet_in_set [of al v n] by (auto simp: alphabet_ok_def)

lemma strip_pad_append: "s = [] \<or> last s \<noteq> CHR ''='' \<Longrightarrow> strip_pad (s @ replicate n (CHR ''='')) = s"
proof -
  have "dropWhile (\<lambda>c. c = CHR ''='') (replicate n (CHR ''='') @ ys) = dropWhile (\<lambda>c. c = CHR ''='') ys" for ys
    by (rule dropWhile_append2) simp
  then show "s = [] \<or> last s \<noteq> CHR ''='' \<Longrightarrow> ?thesis"
    by (cases s rule: rev_cases) (simp_all add: dropWhile_append2)
qed

lemma encode_core_padded:
  "\<exists>n. encode_core al True xs = encode_core al False xs @ replicate n (CHR ''='')"
  by (induction al True xs rule: encode_core.induct)
    (auto simp: Let_def intro: exI [of _ 1] exI [of _ 2] exI [of _ 0] simp: numeral_2_eq_2)

lemma encode_core_last:
  "alphabet_ok al \<Longrightarrow> encode_core al False xs = [] \<or> last (encode_core al False xs) \<noteq> CHR ''=''"
  by (induction al False xs rule: encode_core.induct) (auto simp: Let_def sextet_in)

lemma decode_core_encode_core:
  assumes "alphabet_ok al"
  shows "decode_core al (encode_core al pad xs) = Some xs"
proof -
  obtain n where "encode_core al pad xs = encode_core al False xs @ replicate n (CHR ''='')"
    using encode_core_padded [of al xs] by (cases pad) (auto intro: that [of 0])
  then have "strip_pad (encode_core al pad xs) = encode_core al False xs"
    using strip_pad_append [OF encode_core_last [OF assms]] by metis
  then show ?thesis
    unfolding decode_core_def using decode_encode [OF assms, of False] by simp
qed

lemma encode_core_length:
  "length (encode_core al pad xs) =
    (if pad then mt_base64_encoded_len (length xs) else mt_base64url_encoded_len (length xs))"
proof -
  have "(5 + n) div 3 = Suc (Suc (Suc n) div 3)" "(3 + n) div 3 = Suc (n div 3)" for n :: nat
    by presburger+
  then show ?thesis
    by (induction al pad xs rule: encode_core.induct)
      (simp_all add: Let_def mt_base64_encoded_len_def mt_base64url_encoded_len_def)
qed

lemma decode_loop_length:
  "decode_loop al s acc bits = Some out \<Longrightarrow> bits < 8 \<Longrightarrow> length out = (bits + 6 * length s) div 8"
proof (induction al s acc bits arbitrary: out rule: decode_loop.induct)
  case (2 al c cs acc bits)
  show ?case
  proof (cases "8 \<le> bits + 6")
    case True
    then have "length out = Suc ((bits - 2 + 6 * length cs) div 8)"
      using 2 by (auto simp: Let_def split: option.splits)
    then show ?thesis using True by simp
  next
    case False
    then show ?thesis using 2 by (auto simp: Let_def split: option.splits)
  qed
qed simp

text \<open>
  Base64 both ways: decoding the encoding of any bytes gives the bytes back, in the padded standard
  alphabet and in the unpadded URL alphabet; the encoders write exactly as many characters as
  \<^verbatim>\<open>mt_base64_encoded_len\<close> and \<^verbatim>\<open>mt_base64url_encoded_len\<close> announce, and a successful decoder writes at most three bytes
  for every four characters it is given, the bound its header promises.
\<close>

theorem base64_round_trip:
  "mt_base64_decode (mt_base64_encode xs) = Some xs \<and> mt_base64url_decode (mt_base64url_encode xs) = Some xs \<and>
   length (mt_base64_encode xs) = mt_base64_encoded_len (length xs) \<and>
   length (mt_base64url_encode xs) = mt_base64url_encoded_len (length xs) \<and>
   (mt_base64_decode s = Some out \<or> mt_base64url_decode s = Some out \<longrightarrow> length out \<le> (length s + 3) div 4 * 3)"
proof -
  have "length out \<le> (length s + 3) div 4 * 3" if "decode_core al s = Some out" for al
  proof -
    have "length (strip_pad s) \<le> length s"
      using length_dropWhile_le [of "\<lambda>c. c = CHR ''=''" "rev s"] by simp
    then show ?thesis
      using that decode_loop_length [of al "strip_pad s" 0 0 out] by (simp add: decode_core_def)
  qed
  then show ?thesis
    unfolding mt_base64_decode_def mt_base64_encode_def mt_base64url_decode_def mt_base64url_encode_def
    using alphabets_ok by (auto simp: decode_core_encode_core encode_core_length)
qed

theorem base64_round_trip_witness:
  "mt_base64url_encode [0xfb, 0xff, 0x00, 0x01] = ''-_8AAQ'' \<and> mt_base64url_decode ''-_8AAQ'' = Some [0xfb, 0xff, 0x00, 0x01]
    \<and> length [0xfb, 0xff, 0x00, 0x01 :: u8] \<le> 6"
proof -
  have enc: "mt_base64url_encode [0xfb, 0xff, 0x00, 0x01] = ''-_8AAQ''"
    by code_simp
  then have "mt_base64url_decode ''-_8AAQ'' = Some [0xfb, 0xff, 0x00, 0x01]"
    using base64_round_trip [of "[0xfb, 0xff, 0x00, 0x01]"] by simp
  then show ?thesis using enc by simp
qed

end
