(* ===== verification/Crypt.thy ===== *)
theory Crypt
  imports Hashes Base64 C_Text
begin

text \<open>
  \<^verbatim>\<open>src/crypto/crypt.c\<close>: the \<^verbatim>\<open>$1$\<close>, \<^verbatim>\<open>$5$\<close> and \<^verbatim>\<open>$6$\<close> password formats of \<^verbatim>\<open>crypt(3)\<close>.  A hash computation of the
  code, \<^verbatim>\<open>init\<close>, some \<^verbatim>\<open>update\<close>s and \<^verbatim>\<open>final\<close>, is \<open>md5_sum\<close>, \<open>sha256_sum\<close> or \<open>sha512_sum\<close> of the list of its pieces; all
  of them return (\<open>Hashes\<close>).  Allocations succeed.
\<close>

definition md5_sum :: "u8 list list \<Rightarrow> u8 list" where
  "md5_sum ds = the (md5_of ctx64 ds)"

definition sha256_sum :: "u8 list list \<Rightarrow> u8 list" where
  "sha256_sum ds = the (sha256_of ctx64 ds)"

definition sha512_sum :: "u8 list list \<Rightarrow> u8 list" where
  "sha512_sum ds = the (sha512_of ctx128 ds)"

definition bytes_of :: "string \<Rightarrow> u8 list" where
  "bytes_of s = map of_char s"

section \<open>Prefixes and tokens\<close>

definition MD5_PREFIX :: string where
  "MD5_PREFIX = ''$1$''"

definition SHA256_PREFIX :: string where
  "SHA256_PREFIX = ''$5$''"

definition SHA512_PREFIX :: string where
  "SHA512_PREFIX = ''$6$''"

definition SHA_ROUNDS_MIN :: int where
  "SHA_ROUNDS_MIN = 1000"

definition SHA_ROUNDS_MAX :: int where
  "SHA_ROUNDS_MAX = 999999999"

definition SHA_ROUNDS_DEFAULT :: int where
  "SHA_ROUNDS_DEFAULT = 5000"

definition MAX_PASSWORD_LEN :: nat where
  "MAX_PASSWORD_LEN = 4096"

definition MAX_SALT_TOKS :: nat where
  "MAX_SALT_TOKS = 8"

definition b64_alphabet :: string where
  "b64_alphabet = ''./0123456789ABCDEFGHIJKLMNOPQRSTUVWXYZabcdefghijklmnopqrstuvwxyz''"

definition crypt_char :: "u32 \<Rightarrow> nat \<Rightarrow> char" where
  "crypt_char v n = b64_alphabet ! unat (drop_bit n v AND 0x3f)"

fun base64_24bit :: "u8 list \<Rightarrow> string" where
  "base64_24bit (a # b # c # src) =
    (let v = ucast a OR push_bit 8 (ucast b) OR push_bit 16 (ucast c)
     in crypt_char v 0 # crypt_char v 6 # crypt_char v 12 # crypt_char v 18 # base64_24bit src)"
| "base64_24bit [a, b] =
    (let v = ucast a OR push_bit 8 (ucast b) in [crypt_char v 0, crypt_char v 6, crypt_char v 12])"
| "base64_24bit [a] = (let v = ucast a in [crypt_char v 0, crypt_char v 6])"
| "base64_24bit [] = []"

fun split_dollar :: "string \<Rightarrow> nat \<Rightarrow> string list" where
  "split_dollar s 0 = []"
| "split_dollar s (Suc n) =
    takeWhile (\<lambda>c. c \<noteq> CHR ''$'') s #
    (case dropWhile (\<lambda>c. c \<noteq> CHR ''$'') s of [] \<Rightarrow> [] | _ # t \<Rightarrow> split_dollar t n)"

definition extract_salt :: "string \<Rightarrow> string \<Rightarrow> nat \<Rightarrow> mt_err + string" where
  "extract_salt pfx salt max_len =
    (if take (length pfx) salt \<noteq> pfx then Inl MT_ERR_INVAL
     else let toks = split_dollar salt MAX_SALT_TOKS
          in if length toks < 3 then Inl MT_ERR_INVAL else Inr (take max_len (toks ! 2)))"

definition clamp_rounds :: "int \<Rightarrow> int" where
  "clamp_rounds v =
    (let v = (if v < SHA_ROUNDS_MIN then SHA_ROUNDS_MIN else v)
     in if v > SHA_ROUNDS_MAX then SHA_ROUNDS_MAX else v)"

definition extract_salt_and_rounds :: "string \<Rightarrow> string \<Rightarrow> mt_err + string \<times> int \<times> bool" where
  "extract_salt_and_rounds pfx salt =
    (if take (length pfx) salt \<noteq> pfx then Inl MT_ERR_INVAL
     else let toks = split_dollar salt MAX_SALT_TOKS
          in if length toks < 3 then Inl MT_ERR_INVAL
             else let payload = toks ! 2
                  in if 7 < length payload \<and> take 7 payload = ''rounds=''
                     then let digits = drop 7 payload
                          in if 32 \<le> length digits then Inl MT_ERR_INVAL
                             else (case c_strtol digits of (v, rest) \<Rightarrow>
                                     if rest = digits \<or> rest \<noteq> [] then Inl MT_ERR_INVAL
                                     else if length toks < 4 then Inl MT_ERR_INVAL
                                     else Inr (take 16 (toks ! 3), clamp_rounds v, True))
                     else Inr (take 16 payload, SHA_ROUNDS_DEFAULT, False))"

text \<open>
  Loops that the two formats share: \<open>n\<close> bytes out of repetitions of a digest of \<open>d\<close> bytes, and a choice for
  every bit of a number.  Digests are never empty; \<open>0 < d\<close> makes that visible.
\<close>

fun spread :: "nat \<Rightarrow> u8 list \<Rightarrow> nat \<Rightarrow> u8 list list" where
  "spread d dg n = (if d < n \<and> 0 < d then take d dg # spread d dg (n - d) else [take n dg])"

fun bit_pieces :: "'a \<Rightarrow> 'a \<Rightarrow> nat \<Rightarrow> 'a list" where
  "bit_pieces x1 x0 i = (if i = 0 then [] else (if odd i then x1 else x0) # bit_pieces x1 x0 (i div 2))"

declare spread.simps [simp del] bit_pieces.simps [simp del]

section \<open>MD5-crypt\<close>

definition md5_crypt_round :: "u8 list \<Rightarrow> u8 list \<Rightarrow> u8 list \<Rightarrow> nat \<Rightarrow> u8 list" where
  "md5_crypt_round key salt csum i =
    md5_sum ([if odd i then key else csum] @ (if i mod 3 \<noteq> 0 then [salt] else []) @
             (if i mod 7 \<noteq> 0 then [key] else []) @ [if even i then key else csum])"

definition md5_crypt_sum :: "u8 list \<Rightarrow> u8 list \<Rightarrow> u8 list" where
  "md5_crypt_sum key sl =
    (let alt_sum = md5_sum [key, sl, key];
         csum = md5_sum ([key, bytes_of MD5_PREFIX, sl] @ spread 16 alt_sum (length key) @
                         bit_pieces [0] (take 1 key) (length key))
     in foldl (md5_crypt_round key sl) csum [0..<1000])"

definition md5_crypt :: "string \<Rightarrow> string \<Rightarrow> nat \<Rightarrow> mt_err + string" where
  "md5_crypt password salt out_len =
    (case extract_salt MD5_PREFIX salt 8 of
       Inl err \<Rightarrow> Inl err
     | Inr salt_tok \<Rightarrow>
         let key = bytes_of password
         in if MAX_PASSWORD_LEN < length key then Inl MT_ERR_LIMIT
            else let csum = md5_crypt_sum key (bytes_of salt_tok);
                     reordered = map (\<lambda>i. csum ! i) [12, 6, 0, 13, 7, 1, 14, 8, 2, 15, 9, 3, 5, 10, 4, 11]
                 in if out_len < length MD5_PREFIX + length salt_tok + 1 + 22 + 1 then Inl MT_ERR_LIMIT
                    else Inr (MD5_PREFIX @ salt_tok @ ''$'' @ base64_24bit reordered))"

section \<open>SHA-crypt\<close>

record sha_ops =
  so_sum :: "u8 list list \<Rightarrow> u8 list"
  so_digest_size :: nat

definition SHA256_OPS :: sha_ops where
  "SHA256_OPS = \<lparr>so_sum = sha256_sum, so_digest_size = 32\<rparr>"

definition SHA512_OPS :: sha_ops where
  "SHA512_OPS = \<lparr>so_sum = sha512_sum, so_digest_size = 64\<rparr>"

definition SHA256_REORDER :: "nat list" where
  "SHA256_REORDER =
    [20, 10, 0, 11, 1, 21, 2, 22, 12, 23, 13, 3, 14, 4, 24, 5,
     25, 15, 26, 16, 6, 17, 7, 27, 8, 28, 18, 29, 19, 9, 30, 31]"

definition SHA512_REORDER :: "nat list" where
  "SHA512_REORDER =
    [42, 21, 0, 1, 43, 22, 23, 2, 44, 45, 24, 3, 4, 46, 25, 26,
     5, 47, 48, 27, 6, 7, 49, 28, 29, 8, 50, 51, 30, 9, 10, 52,
     31, 32, 11, 53, 54, 33, 12, 13, 55, 34, 35, 14, 56, 57, 36, 15,
     16, 58, 37, 38, 17, 59, 60, 39, 18, 19, 61, 40, 41, 20, 62, 63]"

definition sha_crypt_round :: "sha_ops \<Rightarrow> u8 list \<Rightarrow> u8 list \<Rightarrow> u8 list \<Rightarrow> nat \<Rightarrow> u8 list" where
  "sha_crypt_round ops pseq sseq csum i =
    so_sum ops ([if odd i then pseq else csum] @ (if i mod 3 \<noteq> 0 then [sseq] else []) @
                (if i mod 7 \<noteq> 0 then [pseq] else []) @ [if odd i then csum else pseq])"

definition sha_crypt_sum :: "sha_ops \<Rightarrow> u8 list \<Rightarrow> u8 list \<Rightarrow> nat \<Rightarrow> u8 list" where
  "sha_crypt_sum ops key sl rounds =
    (let d = so_digest_size ops;
         alt_sum = so_sum ops [key, sl, key];
         asum = so_sum ops ([key, sl] @ spread d alt_sum (length key) @ bit_pieces alt_sum key (length key));
         psum = so_sum ops (replicate (length key) key);
         pseq = concat (spread d psum (length key));
         ssum = so_sum ops (replicate (16 + unat (asum ! 0)) sl);
         sseq = concat (spread d ssum (length sl))
     in foldl (sha_crypt_round ops pseq sseq) asum [0..<rounds])"

definition sha_crypt :: "string \<Rightarrow> string \<Rightarrow> string \<Rightarrow> sha_ops \<Rightarrow> nat list \<Rightarrow> nat \<Rightarrow> mt_err + string" where
  "sha_crypt password salt pfx ops reorder out_len =
    (case extract_salt_and_rounds pfx salt of
       Inl err \<Rightarrow> Inl err
     | Inr (salt_tok, rounds, custom_rounds) \<Rightarrow>
         let key = bytes_of password
         in if MAX_PASSWORD_LEN < length key then Inl MT_ERR_LIMIT
            else let csum = sha_crypt_sum ops key (bytes_of salt_tok) (nat rounds);
                     reordered = map (\<lambda>i. csum ! (reorder ! i)) [0..<so_digest_size ops];
                     rounds_buf = (if custom_rounds then ''rounds='' @ c_dec_int rounds @ ''$'' else []);
                     needed = length pfx + length rounds_buf + length salt_tok + 1 +
                              mt_base64_encoded_len (so_digest_size ops) + 1
                 in if out_len < needed then Inl MT_ERR_LIMIT
                    else Inr (pfx @ rounds_buf @ salt_tok @ ''$'' @ base64_24bit reordered))"

definition mt_crypt_password :: "string \<Rightarrow> string \<Rightarrow> nat \<Rightarrow> mt_err + string" where
  "mt_crypt_password password salt out_len =
    (if take (length MD5_PREFIX) salt = MD5_PREFIX then md5_crypt password salt out_len
     else if take (length SHA256_PREFIX) salt = SHA256_PREFIX
          then sha_crypt password salt SHA256_PREFIX SHA256_OPS SHA256_REORDER out_len
     else if take (length SHA512_PREFIX) salt = SHA512_PREFIX
          then sha_crypt password salt SHA512_PREFIX SHA512_OPS SHA512_REORDER out_len
     else Inl MT_ERR_INVAL)"

section \<open>Tokens\<close>

lemma split_dollar_no_dollar: "t \<in> set (split_dollar s n) \<Longrightarrow> CHR ''$'' \<notin> set t"
proof (induction s n rule: split_dollar.induct)
  case (2 s n)
  then show ?case
    by (cases "dropWhile (\<lambda>c. c \<noteq> CHR ''$'') s") (auto dest: set_takeWhileD)
qed simp

lemma split_dollar_nth_no_dollar:
  "\<not> length (split_dollar s n) < Suc i \<Longrightarrow> CHR ''$'' \<notin> set (take m (split_dollar s n ! i))"
  using split_dollar_no_dollar [of "split_dollar s n ! i" s n] by (auto dest: in_set_takeD)

lemma split_dollar_token:
  "CHR ''$'' \<notin> set t \<Longrightarrow> split_dollar (t @ CHR ''$'' # r) (Suc n) = t # split_dollar r n"
  by (subst split_dollar.simps, subst takeWhile_append2, blast, subst dropWhile_append2, blast) simp

lemma split_prefixed:
  assumes "c \<noteq> CHR ''$''"
  shows "split_dollar (CHR ''$'' # c # CHR ''$'' # r) 8 = [] # [c] # split_dollar r 6"
  using assms split_dollar_token [of "[]" "c # CHR ''$'' # r" 7] split_dollar_token [of "[c]" r 6]
  by (simp add: eval_nat_numeral)



lemma extract_salt_again:
  assumes "extract_salt [CHR ''$'', c, CHR ''$''] salt m = Inr t" "c \<noteq> CHR ''$''"
  shows "extract_salt [CHR ''$'', c, CHR ''$''] ([CHR ''$'', c, CHR ''$''] @ t @ ''$'' @ r) m = Inr t"
proof -
  have "CHR ''$'' \<notin> set t" and len: "take m t = t"
    using assms(1) split_dollar_nth_no_dollar [of salt MAX_SALT_TOKS 2 m]
    by (auto simp: extract_salt_def Let_def split: if_splits)
  then show ?thesis
    using split_dollar_token [of t r 5] assms(2)
    by (simp add: extract_salt_def Let_def MAX_SALT_TOKS_def split_prefixed eval_nat_numeral)
qed

section \<open>The number of rounds, printed and read\<close>

lemma is_digit_c_digit: "d < 10 \<Longrightarrow> is_digit (c_digit d)" "d < 10 \<Longrightarrow> of_char (c_digit d) = 48 + d"
  by (simp_all add: is_digit_def c_digit_def)

lemma c_dec_digits: "list_all is_digit (c_dec n)" "c_dec n \<noteq> []"
  by (induction n rule: c_dec.induct; subst c_dec.simps; simp add: is_digit_c_digit)+

lemma digits_val_snoc: "digits_val (ds @ [c]) = digits_val ds * 10 + (of_char c - 48)"
  by (simp add: digits_val_def)

lemma digits_val_c_dec: "digits_val (c_dec n) = n"
proof (induction n rule: c_dec.induct)
  case (1 n)
  show ?case
  proof (cases "n < 10")
    case True
    then show ?thesis using is_digit_c_digit(2) [OF True] by (simp add: c_dec.simps [of n] digits_val_def)
  next
    case False
    then show ?thesis
      using 1 is_digit_c_digit(2) [of "n mod 10"] by (simp add: c_dec.simps [of n] digits_val_snoc)
  qed
qed

lemma strtol_c_dec:
  assumes "int n < 2 ^ 63"
  shows "c_strtol (c_dec n) = (int n, [])"
proof -
  obtain c cs where cs: "c_dec n = c # cs"
    using c_dec_digits(2) by (cases "c_dec n") auto
  have all: "\<forall>x \<in> set (c_dec n). is_digit x"
    using c_dec_digits(1) by (simp add: list_all_iff)
  then have "is_digit c" by (simp add: cs)
  then have "\<not> c_isspace c" "c \<noteq> CHR ''-''" "c \<noteq> CHR ''+''"
    by (auto simp: is_digit_def c_isspace_def)
  moreover have "takeWhile is_digit (c_dec n) = c_dec n" "dropWhile is_digit (c_dec n) = []"
    using all by (simp_all add: takeWhile_eq_all_conv dropWhile_eq_Nil_conv)
  ultimately show ?thesis
    using assms digits_val_c_dec [of n] by (simp add: c_strtol_def cs)
qed

lemma clamp_rounds_range: "1000 \<le> clamp_rounds v" "clamp_rounds v \<le> 999999999"
  by (simp_all add: clamp_rounds_def SHA_ROUNDS_MIN_def SHA_ROUNDS_MAX_def Let_def)

lemma clamp_rounds_id: "1000 \<le> v \<Longrightarrow> v \<le> 999999999 \<Longrightarrow> clamp_rounds v = v"
  by (simp add: clamp_rounds_def SHA_ROUNDS_MIN_def SHA_ROUNDS_MAX_def Let_def)

lemma rounds_token:
  assumes "1000 \<le> v" "v \<le> 999999999"
  shows "CHR ''$'' \<notin> set (''rounds='' @ c_dec_int v)" "c_strtol (c_dec_int v) = (v, [])"
    "0 < length (c_dec_int v)" "length (c_dec_int v) \<le> 9"
proof -
  have dec: "c_dec_int v = c_dec (nat v)"
    using assms(1) by (simp add: c_dec_int_def)
  show "CHR ''$'' \<notin> set (''rounds='' @ c_dec_int v)"
    using c_dec_digits(1) [of "nat v"] by (auto simp: dec list_all_iff is_digit_def)
  show "c_strtol (c_dec_int v) = (v, [])"
    using strtol_c_dec [of "nat v"] assms by (simp add: dec)
  show "0 < length (c_dec_int v)"
    using c_dec_digits(2) by (simp add: dec)
  show "length (c_dec_int v) \<le> 9"
    using length_c_dec [of "nat v" 8] assms by (simp add: dec nat_less_iff)
qed

lemma rounds_range:
  assumes "extract_salt_and_rounds pfx salt = Inr (t, rounds, custom)"
  shows "1000 \<le> rounds" "rounds \<le> 999999999"
  using assms clamp_rounds_range
  by (auto simp: extract_salt_and_rounds_def Let_def SHA_ROUNDS_DEFAULT_def split: if_splits prod.splits)

lemma salt_of_rounds:
  assumes "extract_salt_and_rounds pfx salt = Inr (t, rounds, custom)"
  shows "CHR ''$'' \<notin> set t" "take 16 t = t" "\<not> custom \<Longrightarrow> \<not> (7 < length t \<and> take 7 t = ''rounds='')"
    "\<not> custom \<Longrightarrow> rounds = SHA_ROUNDS_DEFAULT"
  using assms split_dollar_nth_no_dollar [of salt MAX_SALT_TOKS 2 16] split_dollar_nth_no_dollar [of salt MAX_SALT_TOKS 3 16]
  by (auto simp: extract_salt_and_rounds_def Let_def min_def split: if_splits prod.splits)

lemma extract_salt_and_rounds_again:
  assumes "extract_salt_and_rounds [CHR ''$'', c, CHR ''$''] salt = Inr (t, rounds, custom)" "c \<noteq> CHR ''$''"
  shows "extract_salt_and_rounds [CHR ''$'', c, CHR ''$'']
    ([CHR ''$'', c, CHR ''$''] @ (if custom then ''rounds='' @ c_dec_int rounds @ ''$'' else []) @ t @ ''$'' @ r) =
      Inr (t, rounds, custom)"
proof (cases custom)
  case True
  note rt = rounds_token [OF rounds_range [OF assms(1)]]
  have "split_dollar ((''rounds='' @ c_dec_int rounds) @ CHR ''$'' # t @ CHR ''$'' # r) 6 =
    (''rounds='' @ c_dec_int rounds) # t # split_dollar r 4"
    using split_dollar_token [OF rt(1), of _ 5] split_dollar_token [OF salt_of_rounds(1) [OF assms(1)], of r 4]
    by (simp add: eval_nat_numeral)
  then show ?thesis
    using True rt(2-4) assms(2) salt_of_rounds(2) [OF assms(1)] clamp_rounds_id [OF rounds_range [OF assms(1)]]
    by (simp add: extract_salt_and_rounds_def MAX_SALT_TOKS_def split_prefixed Let_def)
next
  case False
  have "split_dollar (t @ CHR ''$'' # r) 6 = t # split_dollar r 5"
    using split_dollar_token [OF salt_of_rounds(1) [OF assms(1)], of r 5] by (simp add: eval_nat_numeral)
  then show ?thesis
    using False assms(2) salt_of_rounds(2-4) [OF assms(1)]
    by (auto simp: extract_salt_and_rounds_def MAX_SALT_TOKS_def split_prefixed Let_def)
qed

lemma md5_crypt_again: "md5_crypt pw salt n = Inr h \<Longrightarrow> md5_crypt pw h n = Inr h"
  using extract_salt_again [of "CHR ''1''" salt 8]
  by (auto simp: md5_crypt_def MD5_PREFIX_def Let_def split: sum.splits if_splits)

lemma sha_crypt_again:
  "sha_crypt pw salt [CHR ''$'', c, CHR ''$''] ops ro n = Inr h \<Longrightarrow> c \<noteq> CHR ''$'' \<Longrightarrow>
    sha_crypt pw h [CHR ''$'', c, CHR ''$''] ops ro n = Inr h"
  using extract_salt_and_rounds_again [of c salt]
  by (auto simp: sha_crypt_def Let_def split: sum.splits if_splits prod.splits)

lemma crypt_fixpoint:
  assumes "mt_crypt_password pw salt n = Inr h"
  shows "mt_crypt_password pw h n = Inr h"
proof -
  consider (md5) "md5_crypt pw salt n = Inr h"
    | (sha256) "sha_crypt pw salt SHA256_PREFIX SHA256_OPS SHA256_REORDER n = Inr h"
    | (sha512) "sha_crypt pw salt SHA512_PREFIX SHA512_OPS SHA512_REORDER n = Inr h"
    using assms by (auto simp: mt_crypt_password_def split: if_splits)
  then show ?thesis
  proof cases
    case md5
    then have "take 3 h = MD5_PREFIX"
      by (auto simp: md5_crypt_def MD5_PREFIX_def Let_def split: sum.splits if_splits)
    then show ?thesis
      using md5_crypt_again [OF md5] by (simp add: mt_crypt_password_def MD5_PREFIX_def numeral_3_eq_3)
  next
    case sha256
    then have "take 3 h = SHA256_PREFIX"
      by (auto simp: sha_crypt_def SHA256_PREFIX_def Let_def split: sum.splits if_splits)
    then show ?thesis
      using sha_crypt_again [OF sha256 [unfolded SHA256_PREFIX_def]]
      by (simp add: mt_crypt_password_def MD5_PREFIX_def SHA256_PREFIX_def numeral_3_eq_3)
  next
    case sha512
    then have "take 3 h = SHA512_PREFIX"
      by (auto simp: sha_crypt_def SHA512_PREFIX_def Let_def split: sum.splits if_splits)
    then show ?thesis
      using sha_crypt_again [OF sha512 [unfolded SHA512_PREFIX_def]]
      by (simp add: mt_crypt_password_def MD5_PREFIX_def SHA256_PREFIX_def SHA512_PREFIX_def numeral_3_eq_3)
  qed
qed

lemma b64_chars: "set (base64_24bit xs) \<subseteq> set b64_alphabet"
proof -
  have "length b64_alphabet = 64" by code_simp
  then have "crypt_char v n \<in> set b64_alphabet" for v n
    using sextet_less [of "drop_bit n v"] by (simp add: crypt_char_def)
  then show ?thesis
    by (induction xs rule: base64_24bit.induct) (auto simp: Let_def)
qed

lemma length_base64_24bit: "length (base64_24bit xs) \<le> mt_base64_encoded_len (length xs)"
proof -
  have "(5 + n) div 3 = Suc (Suc (Suc n) div 3)" for n :: nat
    by presburger
  then show ?thesis
    by (induction xs rule: base64_24bit.induct) (auto simp: Let_def mt_base64_encoded_len_def)
qed

text \<open>
  C37.  A stored password hash verifies the password it was made from: whatever salt string a hash was computed
  with (any of the three formats, with or without a number of rounds, truncated salts and clamped rounds
  included), computing again with the result in the place of the salt gives the result.  This is the
  comparison that a login makes.
\<close>

theorem crypt_verifies_itself:
  assumes "mt_crypt_password pw salt n = Inr h"
  shows "mt_crypt_password pw h n = Inr h"
  using assms by (rule crypt_fixpoint)

lemma crypt_example: "\<exists>h. mt_crypt_password ''secret'' ''$6$rounds=77$saltsaltsaltsalty$x'' 128 =
    Inr (''$6$rounds=1000$saltsaltsaltsalt$'' @ h) \<and> set h \<subseteq> set b64_alphabet \<and> length h \<le> 88"
proof -
  define csum where
    "csum = sha_crypt_sum SHA512_OPS (bytes_of ''secret'') (bytes_of ''saltsaltsaltsalt'') 1000"
  define h where "h = base64_24bit (map (\<lambda>i. csum ! (SHA512_REORDER ! i)) [0..<64])"
  have "set h \<subseteq> set b64_alphabet" "length h \<le> 88"
    using b64_chars length_base64_24bit [of "map (\<lambda>i. csum ! (SHA512_REORDER ! i)) [0..<64]"]
    by (simp_all add: h_def mt_base64_encoded_len_def del: upt_rec_numeral)
  moreover have "extract_salt_and_rounds SHA512_PREFIX ''$6$rounds=77$saltsaltsaltsalty$x'' = Inr (''saltsaltsaltsalt'', 1000, True)"
    by code_simp
  moreover have "c_dec_int 1000 = ''1000''"
    by code_simp
  ultimately show ?thesis
    by (intro exI [of _ h])
      (simp add: mt_crypt_password_def MD5_PREFIX_def SHA256_PREFIX_def SHA512_PREFIX_def sha_crypt_def Let_def
        MAX_PASSWORD_LEN_def bytes_of_def SHA512_OPS_def mt_base64_encoded_len_def h_def csum_def del: upt_rec_numeral)
qed

theorem crypt_verifies_itself_witness:
  "\<exists>h. mt_crypt_password ''secret'' ''$6$rounds=77$saltsaltsaltsalty$x'' 128 = Inr h \<and>
    take 16 h = ''$6$rounds=1000$s'' \<and> mt_crypt_password ''secret'' h 128 = Inr h"
proof -
  obtain h where h: "mt_crypt_password ''secret'' ''$6$rounds=77$saltsaltsaltsalty$x'' 128 =
      Inr (''$6$rounds=1000$saltsaltsaltsalt$'' @ h)"
    using crypt_example by blast
  then show ?thesis
    using crypt_verifies_itself [OF h] by (intro exI conjI) (assumption | simp)+
qed

end
