(* ===== verification/Auth.thy ===== *)
theory Auth
  imports Crypt
begin

text \<open>
  \<^verbatim>\<open>src/crypto/jwt.c\<close> and \<^verbatim>\<open>src/api/auth.c\<close>: tokens, the secret of the installation, login, verification, and the
  check in front of the API.

  cJSON is a library: \<open>cjson_lib\<close> holds its printer for an object and its parser.  What a login relies on is
  the hypothesis \<open>cjson_reads_back\<close>: the parser reads back the object of the four claims, as long as its strings
  contain no zero byte (they are C strings) and its numbers are integers that a double holds exactly.
  The files, the clock and the random numbers are the record \<open>auth_env\<close>; the file of the secret is part of the
  state, because login may create it.
\<close>

section \<open>Tokens\<close>

record mt_jwt_claims =
  jc_sub :: string
  jc_iss :: string
  jc_iat :: int
  jc_exp :: int

datatype cjson = CJ_String string | CJ_Number int | CJ_Other

record cjson_lib =
  cj_print :: "(string \<times> cjson) list \<Rightarrow> string"
  cj_parse :: "string \<Rightarrow> (string \<times> cjson) list option"

definition claims_object :: "mt_jwt_claims \<Rightarrow> (string \<times> cjson) list" where
  "claims_object c =
    [(''sub'', CJ_String (jc_sub c)), (''iss'', CJ_String (jc_iss c)),
     (''iat'', CJ_Number (jc_iat c)), (''exp'', CJ_Number (jc_exp c))]"

definition claims_plain :: "mt_jwt_claims \<Rightarrow> bool" where
  "claims_plain c \<longleftrightarrow> CHR 0x00 \<notin> set (jc_sub c) \<and> CHR 0x00 \<notin> set (jc_iss c) \<and>
    \<bar>jc_iat c\<bar> \<le> 2 ^ 53 \<and> \<bar>jc_exp c\<bar> \<le> 2 ^ 53"

definition cjson_reads_back :: "cjson_lib \<Rightarrow> bool" where
  "cjson_reads_back cj \<longleftrightarrow>
    (\<forall>c. claims_plain c \<longrightarrow> cj_parse cj (cj_print cj (claims_object c)) = Some (claims_object c))"

definition MT_JWT_MAX_SUB :: nat where
  "MT_JWT_MAX_SUB = 256"

definition MT_JWT_MAX_ISS :: nat where
  "MT_JWT_MAX_ISS = 64"

definition MT_JWT_MAX_TOKEN :: nat where
  "MT_JWT_MAX_TOKEN = 1024"

definition JWT_HEADER_JSON :: string where
  "JWT_HEADER_JSON = ''{\"alg\":\"HS256\",\"typ\":\"JWT\"}''"

definition chars_of :: "u8 list \<Rightarrow> string" where
  "chars_of bs = map (\<lambda>b. char_of (unat b)) bs"

definition hmac_sha256 :: "u8 list \<Rightarrow> u8 list \<Rightarrow> u8 list" where
  "hmac_sha256 key msg = the (mt_hmac_sha256 key msg)"

definition build_claims_json :: "cjson_lib \<Rightarrow> mt_jwt_claims \<Rightarrow> string" where
  "build_claims_json cj c = cj_print cj (claims_object c)"

definition hmac_sign :: "string \<Rightarrow> u8 list \<Rightarrow> string" where
  "hmac_sign payload secret = mt_base64url_encode (hmac_sha256 secret (bytes_of payload))"

definition mt_jwt_sign :: "cjson_lib \<Rightarrow> mt_jwt_claims \<Rightarrow> u8 list \<Rightarrow> nat \<Rightarrow> mt_err + string" where
  "mt_jwt_sign cj claims secret out_len =
    (let claims_json = build_claims_json cj claims
     in if 64 \<le> mt_base64url_encoded_len (length JWT_HEADER_JSON) then Inl MT_ERR_LIMIT
        else let payload = mt_base64url_encode (bytes_of JWT_HEADER_JSON) @ ''.'' @
                           mt_base64url_encode (bytes_of claims_json);
                 sig_b64 = hmac_sign payload secret;
                 needed = length payload + 1 + length sig_b64 + 1
             in if out_len < needed then Inl MT_ERR_LIMIT else Inr (payload @ ''.'' @ sig_b64))"

definition until_dot :: "string \<Rightarrow> string" where
  "until_dot s = takeWhile (\<lambda>c. c \<noteq> CHR ''.'') s"

definition from_dot :: "string \<Rightarrow> string" where
  "from_dot s = dropWhile (\<lambda>c. c \<noteq> CHR ''.'') s"

definition split_token :: "string \<Rightarrow> mt_err + string \<times> string \<times> string" where
  "split_token token =
    (if from_dot token = [] then Inl MT_ERR_PROTO
     else let r1 = tl (from_dot token)
          in if from_dot r1 = [] then Inl MT_ERR_PROTO
             else let r2 = tl (from_dot r1)
                  in if CHR ''.'' \<in> set r2 then Inl MT_ERR_PROTO
                     else Inr (until_dot token, until_dot r1, r2))"

definition json_str :: "nat \<Rightarrow> cjson option \<Rightarrow> string" where
  "json_str len v = (case v of Some (CJ_String s) \<Rightarrow> take (len - 1) s | _ \<Rightarrow> [])"

definition json_num :: "cjson option \<Rightarrow> int" where
  "json_num v = (case v of Some (CJ_Number n) \<Rightarrow> n | _ \<Rightarrow> 0)"

definition decode_claims :: "cjson_lib \<Rightarrow> string \<Rightarrow> mt_err + mt_jwt_claims" where
  "decode_claims cj claims_b64 =
    (case mt_base64url_decode claims_b64 of
       None \<Rightarrow> Inl MT_ERR_PROTO
     | Some decoded \<Rightarrow>
         (case cj_parse cj (chars_of decoded) of
            None \<Rightarrow> Inl MT_ERR_PROTO
          | Some obj \<Rightarrow>
              Inr \<lparr>jc_sub = json_str MT_JWT_MAX_SUB (map_of obj ''sub''),
                   jc_iss = json_str MT_JWT_MAX_ISS (map_of obj ''iss''),
                   jc_iat = json_num (map_of obj ''iat''), jc_exp = json_num (map_of obj ''exp'')\<rparr>))"

definition mt_jwt_parse_unverified :: "cjson_lib \<Rightarrow> string \<Rightarrow> mt_err + mt_jwt_claims" where
  "mt_jwt_parse_unverified cj token =
    (case split_token token of Inl err \<Rightarrow> Inl err | Inr (p1, p2, p3) \<Rightarrow> decode_claims cj p2)"

definition mt_jwt_parse_and_verify :: "cjson_lib \<Rightarrow> string \<Rightarrow> u8 list \<Rightarrow> mt_err + mt_jwt_claims" where
  "mt_jwt_parse_and_verify cj token secret =
    (case split_token token of
       Inl err \<Rightarrow> Inl err
     | Inr (p1, p2, p3) \<Rightarrow>
         let mac = hmac_sha256 secret (bytes_of (take (length p1 + 1 + length p2) token));
             expected_sig = mt_base64url_encode mac
         in if length p3 \<noteq> length expected_sig \<or> \<not> mt_hash_equal (bytes_of expected_sig) (bytes_of p3) (length p3)
            then Inl MT_ERR_INVAL
            else decode_claims cj p2)"

section \<open>Calendar\<close>

text \<open>Division of C, which rounds towards zero.\<close>

definition c_div :: "int \<Rightarrow> int \<Rightarrow> int" where
  "c_div a b = (if 0 \<le> a then a div b else - ((- a) div b))"

definition civil_from_days :: "int \<Rightarrow> int \<times> int \<times> int" where
  "civil_from_days z0 =
    (let z = z0 + 719468;
         era = c_div (if 0 \<le> z then z else z - 146096) 146097;
         doe = z - era * 146097;
         yoe = (doe - doe div 1460 + doe div 36524 - doe div 146096) div 365;
         y = yoe + era * 400;
         doy = doe - (365 * yoe + yoe div 4 - yoe div 100);
         mp = (5 * doy + 2) div 153;
         d = doy - (153 * mp + 2) div 5 + 1;
         m = (if mp < 10 then mp + 3 else mp - 9)
     in (if m \<le> 2 then y + 1 else y, m, d))"

definition days_from_civil :: "int \<Rightarrow> int \<Rightarrow> int \<Rightarrow> int" where
  "days_from_civil y0 m d =
    (let y = (if m \<le> 2 then y0 - 1 else y0);
         era = c_div (if 0 \<le> y then y else y - 399) 400;
         yoe = y - era * 400;
         doy = (153 * (if 2 < m then m - 3 else m + 9) + 2) div 5 + d - 1;
         doe = yoe * 365 + yoe div 4 - yoe div 100 + doy
     in era * 146097 + doe - 719468)"

definition mt_auth_add_years_utc :: "int \<Rightarrow> int \<Rightarrow> int" where
  "mt_auth_add_years_utc unix_ts years =
    (let days = (if 0 \<le> unix_ts then c_div unix_ts 86400 else c_div (unix_ts - 86399) 86400);
         secs_of_day = unix_ts - days * 86400
     in case civil_from_days days of (y, m, d) \<Rightarrow> days_from_civil (y + years) m d * 86400 + secs_of_day)"

section \<open>Files\<close>

record auth_env =
  ae_shadow :: "c_errno + string list"
  ae_passwd :: "c_errno + string list"
  ae_random :: "u8 list option"
  ae_mkdir :: c_errno
  ae_open :: c_errno
  ae_written :: "nat option"
  ae_now :: int

text \<open>
  \<open>as_file\<close> is what opening the file of the secret gives; \<open>as_secret\<close> is \<^verbatim>\<open>g_secret\<close> or \<^verbatim>\<open>g_secret_err\<close>, once loaded.
\<close>

record auth_state =
  as_loaded :: bool
  as_secret :: "mt_err + u8 list"
  as_file :: "c_errno + string"

definition MT_AUTH_SECRET_LEN :: nat where
  "MT_AUTH_SECRET_LEN = 32"

definition MT_AUTH_JWT_ISSUER :: string where
  "MT_AUTH_JWT_ISSUER = ''magitrickle''"

definition MT_AUTH_JWT_YEARS :: int where
  "MT_AUTH_JWT_YEARS = 20"

definition hex_encode :: "u8 list \<Rightarrow> string" where
  "hex_encode data =
    concat (map (\<lambda>b. [''0123456789abcdef'' ! unat (drop_bit 4 b), ''0123456789abcdef'' ! unat (b AND 0xf)]) data)"

definition trim_right :: "(char \<Rightarrow> bool) \<Rightarrow> string \<Rightarrow> string" where
  "trim_right P s = rev (dropWhile P (rev s))"

text \<open>One line of the password file, as the scan of the file sees it: skipped, or the end of the search.\<close>

definition hash_of_line :: "string \<Rightarrow> nat \<Rightarrow> string \<Rightarrow> (mt_err + string) option" where
  "hash_of_line login out_len raw =
    (let line = trim_right (\<lambda>c. c = CHR 0x0A \<or> c = CHR 0x0D) raw
     in if line = [] \<or> hd line = CHR ''#'' then None
        else if CHR '':'' \<notin> set line then None
        else if takeWhile (\<lambda>c. c \<noteq> CHR '':'') line \<noteq> login then None
        else let rest = tl (dropWhile (\<lambda>c. c \<noteq> CHR '':'') line);
                 field = takeWhile (\<lambda>c. c \<noteq> CHR '':'') rest;
                 hash = dropWhile c_isspace (trim_right c_isspace field)
             in Some (if hash = [] \<or> hash = ''x'' \<or> hash = ''*'' then Inl MT_ERR_NOENT
                      else if out_len \<le> length hash then Inl MT_ERR_LIMIT
                      else Inr hash))"

fun hash_of_lines :: "string \<Rightarrow> nat \<Rightarrow> string list \<Rightarrow> mt_err + string" where
  "hash_of_lines login out_len [] = Inl MT_ERR_NOENT"
| "hash_of_lines login out_len (l # ls) =
    (case hash_of_line login out_len l of None \<Rightarrow> hash_of_lines login out_len ls | Some r \<Rightarrow> r)"

definition mt_auth_load_password_hash_from :: "auth_env \<Rightarrow> string \<Rightarrow> nat \<Rightarrow> mt_err + string" where
  "mt_auth_load_password_hash_from env login out_len =
    (case ae_shadow env of
       Inr lines \<Rightarrow> hash_of_lines login out_len lines
     | Inl _ \<Rightarrow>
         (case ae_passwd env of
            Inr lines \<Rightarrow> hash_of_lines login out_len lines
          | Inl e \<Rightarrow> Inl (mt_err_from_errno e)))"

text \<open>
  \<^verbatim>\<open>load_or_create_secret\<close> gives the secret or an error, and the file it leaves; \<open>None\<close> when the decoder writes past
  the end of the 64 bytes it is given.
\<close>

definition load_or_create_secret ::
  "auth_env \<Rightarrow> string \<Rightarrow> c_errno + string \<Rightarrow> ((mt_err + u8 list) \<times> (c_errno + string)) option" where
  "load_or_create_secret env state_dir file =
    (if 512 \<le> length state_dir + length ''/auth_secret'' then Some (Inl MT_ERR_INVAL, file)
     else case file of
       Inr content \<Rightarrow>
         (let buf = take 255 content;
              s = trim_right c_isspace (dropWhile c_isspace buf)
          in if s = [] then Some (Inl MT_ERR_INVAL, file)
             else case mt_base64_decode s of
                    None \<Rightarrow> Some (Inl MT_ERR_INVAL, file)
                  | Some decoded \<Rightarrow>
                      if 64 < length decoded then None
                      else Some (Inr (take MT_AUTH_SECRET_LEN decoded), file))
     | Inl e \<Rightarrow>
         if e \<noteq> ENOENT then Some (Inl (mt_err_from_errno e), file)
         else case ae_random env of
           None \<Rightarrow> Some (Inl MT_ERR_SYS, file)
         | Some secret \<Rightarrow>
             (let encoded = mt_base64_encode secret
              in if ae_mkdir env \<noteq> E_NONE \<and> ae_mkdir env \<noteq> EEXIST then Some (Inl (mt_err_from_errno (ae_mkdir env)), file)
                 else if ae_open env \<noteq> E_NONE then Some (Inl (mt_err_from_errno (ae_open env)), file)
                 else case ae_written env of
                        None \<Rightarrow> Some (Inl MT_ERR_IO, Inr [])
                      | Some n \<Rightarrow>
                          if n \<noteq> length encoded then Some (Inl MT_ERR_IO, Inr (take n encoded))
                          else Some (Inr secret, Inr encoded)))"

definition mt_auth_load_secret :: "auth_env \<Rightarrow> string \<Rightarrow> auth_state \<Rightarrow> ((mt_err + u8 list) \<times> auth_state) option" where
  "mt_auth_load_secret env state_dir st =
    (if as_loaded st then Some (as_secret st, st)
     else case load_or_create_secret env state_dir (as_file st) of
            None \<Rightarrow> None
          | Some (r, file) \<Rightarrow> Some (r, st\<lparr>as_loaded := True, as_secret := r, as_file := file\<rparr>))"

definition derive_signing_key ::
  "auth_env \<Rightarrow> string \<Rightarrow> string \<Rightarrow> auth_state \<Rightarrow> ((mt_err + string) \<times> auth_state) option" where
  "derive_signing_key env state_dir password_hash st =
    (case mt_auth_load_secret env state_dir st of
       None \<Rightarrow> None
     | Some (Inl err, st) \<Rightarrow> Some (Inl err, st)
     | Some (Inr secret, st) \<Rightarrow> Some (Inr (hex_encode (hmac_sha256 secret (bytes_of password_hash))), st))"

section \<open>Login and verification\<close>

definition mt_auth_authenticate_from ::
  "cjson_lib \<Rightarrow> auth_env \<Rightarrow> string \<Rightarrow> string \<Rightarrow> string \<Rightarrow> nat \<Rightarrow> auth_state \<Rightarrow> ((mt_err + string) \<times> auth_state) option" where
  "mt_auth_authenticate_from cj env state_dir login password token_out_len st =
    (if login = [] \<or> password = [] then Some (Inl MT_ERR_INVAL, st)
     else case mt_auth_load_password_hash_from env login 128 of
       Inl err \<Rightarrow> Some (Inl err, st)
     | Inr password_hash \<Rightarrow>
         if mt_crypt_password password password_hash 128 \<noteq> Inr password_hash then Some (Inl MT_ERR_INVAL, st)
         else case derive_signing_key env state_dir password_hash st of
           None \<Rightarrow> None
         | Some (Inl err, st) \<Rightarrow> Some (Inl err, st)
         | Some (Inr signing_key, st) \<Rightarrow>
             (let claims = \<lparr>jc_sub = take (MT_JWT_MAX_SUB - 1) login, jc_iss = MT_AUTH_JWT_ISSUER,
                            jc_iat = ae_now env, jc_exp = mt_auth_add_years_utc (ae_now env) MT_AUTH_JWT_YEARS\<rparr>
              in Some (mt_jwt_sign cj claims (bytes_of signing_key) token_out_len, st)))"

definition mt_auth_verify_token_from ::
  "cjson_lib \<Rightarrow> auth_env \<Rightarrow> string \<Rightarrow> string \<Rightarrow> auth_state \<Rightarrow> (mt_err \<times> auth_state) option" where
  "mt_auth_verify_token_from cj env state_dir token st =
    (case mt_jwt_parse_unverified cj token of
       Inl _ \<Rightarrow> Some (MT_ERR_INVAL, st)
     | Inr unverified \<Rightarrow>
         if jc_sub unverified = [] then Some (MT_ERR_INVAL, st)
         else case mt_auth_load_password_hash_from env (jc_sub unverified) 128 of
           Inl _ \<Rightarrow> Some (MT_ERR_INVAL, st)
         | Inr password_hash \<Rightarrow>
             (case derive_signing_key env state_dir password_hash st of
                None \<Rightarrow> None
              | Some (Inl _, st) \<Rightarrow> Some (MT_ERR_INVAL, st)
              | Some (Inr signing_key, st) \<Rightarrow>
                  (case mt_jwt_parse_and_verify cj token (bytes_of signing_key) of
                     Inl _ \<Rightarrow> Some (MT_ERR_INVAL, st)
                   | Inr verified \<Rightarrow>
                       if jc_sub verified \<noteq> jc_sub unverified \<or> jc_iss verified \<noteq> MT_AUTH_JWT_ISSUER
                            \<or> jc_exp verified \<le> ae_now env
                       then Some (MT_ERR_INVAL, st) else Some (MT_OK, st))))"

text \<open>The gate in front of the handlers: \<open>True\<close> lets the request through, \<open>False\<close> answers 401.\<close>

definition mt_auth_middleware ::
  "cjson_lib \<Rightarrow> auth_env \<Rightarrow> string \<Rightarrow> bool \<Rightarrow> string \<Rightarrow> string option \<Rightarrow> auth_state \<Rightarrow> (bool \<times> auth_state) option" where
  "mt_auth_middleware cj env state_dir enabled path authz st =
    (if take 5 path \<noteq> ''/api/'' then Some (True, st)
     else if \<not> enabled \<or> path = ''/api/v1/auth'' then Some (True, st)
     else case authz of
       None \<Rightarrow> Some (False, st)
     | Some raw \<Rightarrow>
         (let a = dropWhile (\<lambda>c. c = CHR '' '' \<or> c = CHR 0x09) raw
          in if take 7 a \<noteq> ''Bearer '' then Some (False, st)
             else if drop 7 a = [] then Some (False, st)
             else case mt_auth_verify_token_from cj env state_dir (drop 7 a) st of
                    None \<Rightarrow> None
                  | Some (err, st) \<Rightarrow> Some (err = MT_OK, st)))"

section \<open>Tokens are read back, and nothing else is\<close>

lemma unat_of_char: "unat (of_char c :: u8) = of_char c"
proof -
  have "unat (of_nat (of_char c) :: u8) = of_char c mod 2 ^ LENGTH(8)"
    by (rule unat_of_nat)
  moreover have "(of_nat (of_char c) :: u8) = of_char c"
    by (rule of_nat_of_char)
  ultimately show ?thesis
    using nat_of_char_less_256 [of c] by (simp del: of_nat_of_char)
qed

lemma of_char_u8_inj: "(of_char c :: u8) = of_char d \<longleftrightarrow> c = d"
  by (metis unat_of_char char_of_char)

lemma bytes_of_inj [simp]: "bytes_of s = bytes_of t \<longleftrightarrow> s = t"
  unfolding bytes_of_def by (rule inj_map_eq_map) (auto intro: injI simp: of_char_u8_inj)

lemma length_bytes_of [simp]: "length (bytes_of s) = length s"
  by (simp add: bytes_of_def)

lemma chars_of_bytes_of [simp]: "chars_of (bytes_of s) = s"
  by (simp add: chars_of_def bytes_of_def o_def unat_of_char)

lemma encode_core_set: "alphabet_ok al \<Longrightarrow> set (encode_core al False xs) \<subseteq> set al"
proof (induction al False xs rule: encode_core.induct)
qed (auto simp: Let_def sextet_in_set)

lemma b64url_no_dot: "CHR ''.'' \<notin> set (mt_base64url_encode xs)"
proof -
  have "CHR ''.'' \<notin> set url_alphabet" by code_simp
  then show ?thesis
    using encode_core_set [OF alphabets_ok(2)] unfolding mt_base64url_encode_def by blast
qed

lemma dot_parts:
  "CHR ''.'' \<notin> set a \<Longrightarrow> until_dot (a @ CHR ''.'' # r) = a"
  "CHR ''.'' \<notin> set a \<Longrightarrow> from_dot (a @ CHR ''.'' # r) = CHR ''.'' # r"
  unfolding until_dot_def from_dot_def
  by (subst takeWhile_append2, blast, simp) (subst dropWhile_append2, blast, simp)

lemma split_token_parts:
  assumes "CHR ''.'' \<notin> set a" "CHR ''.'' \<notin> set b" "CHR ''.'' \<notin> set c"
  shows "split_token (a @ ''.'' @ b @ ''.'' @ c) = Inr (a, b, c)"
  using assms by (simp add: split_token_def dot_parts)

lemma dot_split: "from_dot s \<noteq> [] \<Longrightarrow> s = until_dot s @ CHR ''.'' # tl (from_dot s)"
proof -
  assume ne: "from_dot s \<noteq> []"
  then have "hd (from_dot s) = CHR ''.''"
    using hd_dropWhile [of "\<lambda>c. c \<noteq> CHR ''.''" s] by (simp add: from_dot_def)
  then have "from_dot s = CHR ''.'' # tl (from_dot s)"
    using ne by (cases "from_dot s") simp_all
  then show ?thesis
    using takeWhile_dropWhile_id [of "\<lambda>c. c \<noteq> CHR ''.''" s] by (simp add: until_dot_def from_dot_def)
qed

lemma split_token_joins:
  assumes "split_token s = Inr (a, b, c)"
  shows "s = a @ ''.'' @ b @ ''.'' @ c"
proof -
  have 1: "from_dot s \<noteq> []" "from_dot (tl (from_dot s)) \<noteq> []"
    and abc: "a = until_dot s" "b = until_dot (tl (from_dot s))" "c = tl (from_dot (tl (from_dot s)))"
    using assms by (auto simp: split_token_def Let_def split: if_splits)
  show ?thesis
    using dot_split [OF 1(1)] dot_split [OF 1(2)] unfolding abc by simp
qed

lemma token_signature_iff:
  "length p \<noteq> length e \<or> \<not> mt_hash_equal (bytes_of e) (bytes_of p) (length p) \<longleftrightarrow> p \<noteq> e"
proof (cases "length p = length e")
  case True
  then have "mt_hash_equal (bytes_of e) (bytes_of p) (length p) \<longleftrightarrow>
      take (length p) (bytes_of e) = take (length p) (bytes_of p)"
    by (intro hash_equal_iff) simp_all
  then show ?thesis using True by auto
qed auto

lemma verify_alt:
  "mt_jwt_parse_and_verify cj s secret =
    (case split_token s of Inl err \<Rightarrow> Inl err
     | Inr (a, b, c) \<Rightarrow> if c \<noteq> hmac_sign (a @ ''.'' @ b) secret then Inl MT_ERR_INVAL else decode_claims cj b)"
proof (cases "split_token s")
  case (Inr abc)
  obtain a b c where abc: "abc = (a, b, c)" by (rule prod_cases3)
  have "take (length a + 1 + length b) s = a @ ''.'' @ b"
    using split_token_joins [OF Inr [unfolded abc]] by simp
  then show ?thesis
    using Inr token_signature_iff [of c]
    by (simp add: abc mt_jwt_parse_and_verify_def Let_def hmac_sign_def)
qed (simp add: mt_jwt_parse_and_verify_def)

lemma decode_claims_built:
  assumes "cjson_reads_back cj" "claims_plain c" "length (jc_sub c) < MT_JWT_MAX_SUB" "length (jc_iss c) < MT_JWT_MAX_ISS"
  shows "decode_claims cj (mt_base64url_encode (bytes_of (build_claims_json cj c))) = Inr c"
proof -
  have "mt_base64url_decode (mt_base64url_encode xs) = Some xs" for xs
    unfolding mt_base64url_decode_def mt_base64url_encode_def
    by (rule decode_core_encode_core [OF alphabets_ok(2)])
  then show ?thesis
    using assms
    by (simp add: decode_claims_def build_claims_json_def cjson_reads_back_def)
       (simp add: claims_object_def json_str_def json_num_def)
qed

lemma sign_splits:
  assumes "mt_jwt_sign cj c secret n = Inr t"
  obtains a where
    "split_token t = Inr (a, mt_base64url_encode (bytes_of (build_claims_json cj c)),
      hmac_sign (a @ ''.'' @ mt_base64url_encode (bytes_of (build_claims_json cj c))) secret)"
proof -
  define a b where "a = mt_base64url_encode (bytes_of JWT_HEADER_JSON)"
    and "b = mt_base64url_encode (bytes_of (build_claims_json cj c))"
  have "t = a @ ''.'' @ b @ ''.'' @ hmac_sign (a @ ''.'' @ b) secret"
    using assms by (simp add: mt_jwt_sign_def Let_def a_def b_def split: if_splits)
  moreover have "split_token (a @ ''.'' @ b @ ''.'' @ hmac_sign (a @ ''.'' @ b) secret) =
      Inr (a, b, hmac_sign (a @ ''.'' @ b) secret)"
    by (rule split_token_parts) (simp_all add: a_def b_def hmac_sign_def b64url_no_dot)
  ultimately have "split_token t = Inr (a, b, hmac_sign (a @ ''.'' @ b) secret)"
    by blast
  then show ?thesis unfolding b_def by (rule that)
qed

lemma sign_verify:
  assumes "cjson_reads_back cj" "mt_jwt_sign cj c secret n = Inr t" "claims_plain c"
    "length (jc_sub c) < MT_JWT_MAX_SUB" "length (jc_iss c) < MT_JWT_MAX_ISS"
  shows "mt_jwt_parse_and_verify cj t secret = Inr c" "mt_jwt_parse_unverified cj t = Inr c"
proof -
  obtain a where "split_token t = Inr (a, mt_base64url_encode (bytes_of (build_claims_json cj c)),
      hmac_sign (a @ ''.'' @ mt_base64url_encode (bytes_of (build_claims_json cj c))) secret)"
    using assms(2) by (rule sign_splits)
  then show "mt_jwt_parse_and_verify cj t secret = Inr c" "mt_jwt_parse_unverified cj t = Inr c"
    using decode_claims_built [OF assms(1,3-5)] by (simp_all add: verify_alt mt_jwt_parse_unverified_def)
qed

text \<open>
  A token is accepted exactly when it is signed: verification with a secret accepts a string if and only if
  the string is two parts without further dots, a dot, and the URL-safe base64 of the HMAC-SHA256 of RFC 2104 of
  the two parts under that secret, and the second part decodes to claims; it returns those claims.  The byte
  comparison that does not stop early decides equality.
\<close>

theorem jwt_accepts_signed:
  "mt_jwt_parse_and_verify cj t secret = Inr c \<longleftrightarrow>
    (\<exists>a b. CHR ''.'' \<notin> set a \<and> CHR ''.'' \<notin> set b \<and>
       t = a @ ''.'' @ b @ ''.'' @ mt_base64url_encode (hmac_spec secret (bytes_of (a @ ''.'' @ b))) \<and>
       decode_claims cj b = Inr c)" (is "?l \<longleftrightarrow> ?r")
proof
  have mac: "hmac_sign p secret = mt_base64url_encode (hmac_spec secret (bytes_of p))" for p
    by (simp add: hmac_sign_def hmac_sha256_def hmac_correct)
  show ?r if l: ?l
  proof -
    obtain a b d where s: "split_token t = Inr (a, b, d)"
      using l unfolding verify_alt by (cases "split_token t") auto
    have "CHR ''.'' \<notin> set a" "CHR ''.'' \<notin> set b"
      using s by (auto simp: split_token_def until_dot_def Let_def dest: set_takeWhileD split: if_splits)
    moreover have "d = hmac_sign (a @ ''.'' @ b) secret" "decode_claims cj b = Inr c"
      using l s unfolding verify_alt by (auto split: if_splits)
    ultimately show ?thesis
      using split_token_joins [OF s] unfolding mac by blast
  qed
  show ?l if ?r
    using that split_token_parts b64url_no_dot by (fastforce simp: verify_alt mac)
qed

section \<open>A login gives a token that is accepted, also after a restart\<close>

lemma decode_loop_total:
  "alphabet_ok al \<Longrightarrow> set s \<subseteq> set al \<Longrightarrow> \<exists>out. decode_loop al s acc bits = Some out"
proof (induction al s acc bits rule: decode_loop.induct)
  case (2 al c cs acc bits)
  obtain i where "i < 64" "c = al ! i"
    using 2(3,4) by (auto simp: in_set_conv_nth alphabet_ok_def)
  then have "decode_char al c = Some (of_nat i)"
    using decode_char_nth [OF 2(3)] by simp
  then show ?case using 2 by (auto simp: Let_def)
qed simp

lemma std_alphabet_chars: "c \<in> insert (CHR ''='') (set std_alphabet) \<Longrightarrow> \<not> c_isspace c"
proof -
  have "list_all (\<lambda>c. \<not> c_isspace c) (CHR ''='' # std_alphabet)" by code_simp
  then show "c \<in> insert (CHR ''='') (set std_alphabet) \<Longrightarrow> \<not> c_isspace c" by (auto simp: list_all_iff)
qed

lemma encoded_chars: "c \<in> set (mt_base64_encode xs) \<Longrightarrow> \<not> c_isspace c"
proof -
  obtain n where "mt_base64_encode xs = encode_core std_alphabet False xs @ replicate n (CHR ''='')"
    using encode_core_padded unfolding mt_base64_encode_def by blast
  moreover have "set (encode_core std_alphabet False xs) \<subseteq> set std_alphabet"
    by (rule encode_core_set [OF alphabets_ok(1)])
  ultimately show "c \<in> set (mt_base64_encode xs) \<Longrightarrow> \<not> c_isspace c"
    using std_alphabet_chars by (auto split: if_splits)
qed

lemma untrimmed: "(\<And>c. c \<in> set s \<Longrightarrow> \<not> P c) \<Longrightarrow> dropWhile P s = s \<and> trim_right P s = s"
  unfolding trim_right_def
  by (metis dropWhile_eq_self_iff hd_in_set rev_rev_ident set_rev)

lemma secret_survives:
  assumes "load_or_create_secret env dir fl = Some (Inr s, fl2)"
    and "\<And>r. ae_random env = Some r \<Longrightarrow> length r = MT_AUTH_SECRET_LEN"
  shows "load_or_create_secret env' dir fl2 = Some (Inr s, fl2)"
proof (cases fl)
  case (Inr content)
  then show ?thesis
    using assms(1) by (auto simp: load_or_create_secret_def Let_def split: if_splits option.splits)
next
  case (Inl e)
  then obtain r where r: "ae_random env = Some r" "s = r" "fl2 = Inr (mt_base64_encode r)"
      "length dir + length ''/auth_secret'' < 512"
    using assms(1) by (auto simp: load_or_create_secret_def Let_def split: if_splits option.splits)
  have len: "length (mt_base64_encode r) = 44" "length r = 32"
    using encode_core_length [of std_alphabet True r] assms(2) [OF r(1)]
    by (simp_all add: mt_base64_encode_def mt_base64_encoded_len_def MT_AUTH_SECRET_LEN_def)
  have "mt_base64_decode (mt_base64_encode r) = Some r"
    unfolding mt_base64_decode_def mt_base64_encode_def by (rule decode_core_encode_core [OF alphabets_ok(1)])
  moreover have "mt_base64_encode r \<noteq> []"
    using len(1) by auto
  ultimately show ?thesis
    using r len untrimmed [of "mt_base64_encode r" c_isspace] encoded_chars
    by (simp add: load_or_create_secret_def Let_def MT_AUTH_SECRET_LEN_def)
qed

text \<open>A secret that is loaded is the one its file gives; this holds when a process starts.\<close>

definition secret_on_file :: "string \<Rightarrow> auth_state \<Rightarrow> bool" where
  "secret_on_file dir st \<longleftrightarrow>
    (as_loaded st \<longrightarrow> (\<forall>s env. as_secret st = Inr s \<longrightarrow>
       load_or_create_secret env dir (as_file st) = Some (Inr s, as_file st)))"

lemma signing_key_again:
  assumes "derive_signing_key env dir h st = Some (Inr k, st')" "secret_on_file dir st"
    and "\<And>r. ae_random env = Some r \<Longrightarrow> length r = MT_AUTH_SECRET_LEN"
  shows "derive_signing_key env' dir h st' = Some (Inr k, st')"
    "derive_signing_key env' dir h (st'\<lparr>as_loaded := False\<rparr>) = Some (Inr k, st')"
    "secret_on_file dir st'"
proof -
  obtain s where s: "as_loaded st'" "as_secret st' = Inr s" "k = hex_encode (hmac_sha256 s (bytes_of h))"
    "\<And>env. load_or_create_secret env dir (as_file st') = Some (Inr s, as_file st')"
  proof (cases "as_loaded st")
    case True
    then show thesis
      using assms(1,2) that
      by (auto simp: derive_signing_key_def mt_auth_load_secret_def secret_on_file_def split: option.splits prod.splits sum.splits)
  next
    case False
    then obtain s fl where s: "load_or_create_secret env dir (as_file st) = Some (Inr s, fl)"
      "st' = st\<lparr>as_loaded := True, as_secret := Inr s, as_file := fl\<rparr>"
      "k = hex_encode (hmac_sha256 s (bytes_of h))"
      using assms(1)
      by (auto simp: derive_signing_key_def mt_auth_load_secret_def split: option.splits prod.splits sum.splits)
    then show thesis using that [of s] secret_survives [OF s(1) assms(3)] by simp
  qed
  have "st'\<lparr>as_loaded := True, as_secret := Inr s, as_file := as_file st'\<rparr> = st'"
    using s(1,2) by simp
  then show "derive_signing_key env' dir h st' = Some (Inr k, st')"
    "derive_signing_key env' dir h (st'\<lparr>as_loaded := False\<rparr>) = Some (Inr k, st')" "secret_on_file dir st'"
    using s by (simp_all add: derive_signing_key_def mt_auth_load_secret_def secret_on_file_def)
qed

lemma login_steps:
  assumes "mt_auth_authenticate_from cj env dir login password n st = Some (Inr t, st')"
  obtains h k where "login \<noteq> []" "mt_auth_load_password_hash_from env login 128 = Inr h"
    "mt_crypt_password password h 128 = Inr h" "derive_signing_key env dir h st = Some (Inr k, st')"
    "mt_jwt_sign cj \<lparr>jc_sub = take (MT_JWT_MAX_SUB - 1) login, jc_iss = MT_AUTH_JWT_ISSUER, jc_iat = ae_now env,
       jc_exp = mt_auth_add_years_utc (ae_now env) MT_AUTH_JWT_YEARS\<rparr> (bytes_of k) n = Inr t"
  using assms by (auto simp: mt_auth_authenticate_from_def Let_def split: if_splits sum.splits option.splits prod.splits)

lemma verify_steps:
  assumes "mt_jwt_parse_unverified cj t = Inr c" "jc_sub c \<noteq> []"
    "mt_auth_load_password_hash_from env (jc_sub c) 128 = Inr h" "derive_signing_key env dir h st = Some (Inr k, st')"
    "mt_jwt_parse_and_verify cj t (bytes_of k) = Inr c" "jc_iss c = MT_AUTH_JWT_ISSUER" "ae_now env < jc_exp c"
  shows "mt_auth_verify_token_from cj env dir t st = Some (MT_OK, st')"
  using assms by (simp add: mt_auth_verify_token_from_def)

lemma login_verifies:
  assumes "cjson_reads_back cj" "secret_on_file dir st" "length login < MT_JWT_MAX_SUB" "CHR 0x00 \<notin> set login"
    and "\<bar>ae_now env\<bar> \<le> 2 ^ 53" "\<bar>mt_auth_add_years_utc (ae_now env) MT_AUTH_JWT_YEARS\<bar> \<le> 2 ^ 53"
    and "\<And>r. ae_random env = Some r \<Longrightarrow> length r = MT_AUTH_SECRET_LEN"
    and "mt_auth_authenticate_from cj env dir login password n st = Some (Inr t, st')"
    and "ae_shadow env' = ae_shadow env" "ae_passwd env' = ae_passwd env"
    and "ae_now env' < mt_auth_add_years_utc (ae_now env) MT_AUTH_JWT_YEARS"
  shows "mt_auth_verify_token_from cj env' dir t st' = Some (MT_OK, st') \<and>
    mt_auth_verify_token_from cj env' dir t (st'\<lparr>as_loaded := False\<rparr>) = Some (MT_OK, st') \<and> secret_on_file dir st'"
proof -
  obtain h k where l: "login \<noteq> []" "mt_auth_load_password_hash_from env login 128 = Inr h"
    "derive_signing_key env dir h st = Some (Inr k, st')"
    "mt_jwt_sign cj \<lparr>jc_sub = take (MT_JWT_MAX_SUB - 1) login, jc_iss = MT_AUTH_JWT_ISSUER, jc_iat = ae_now env,
       jc_exp = mt_auth_add_years_utc (ae_now env) MT_AUTH_JWT_YEARS\<rparr> (bytes_of k) n = Inr t"
    using assms(8) by (rule login_steps)
  define c where "c = \<lparr>jc_sub = login, jc_iss = MT_AUTH_JWT_ISSUER, jc_iat = ae_now env,
       jc_exp = mt_auth_add_years_utc (ae_now env) MT_AUTH_JWT_YEARS\<rparr>"
  have "mt_jwt_sign cj c (bytes_of k) n = Inr t"
    using l(4) assms(3) by (simp add: c_def MT_JWT_MAX_SUB_def)
  moreover have "length (jc_sub c) < MT_JWT_MAX_SUB" "length (jc_iss c) < MT_JWT_MAX_ISS" "claims_plain c"
    using assms(3-6) by (simp_all add: c_def MT_AUTH_JWT_ISSUER_def MT_JWT_MAX_ISS_def claims_plain_def)
  ultimately have v: "mt_jwt_parse_and_verify cj t (bytes_of k) = Inr c" "mt_jwt_parse_unverified cj t = Inr c"
    using sign_verify [OF assms(1)] by blast+
  have h: "mt_auth_load_password_hash_from env' (jc_sub c) 128 = Inr h"
    using l(2) assms(9,10) by (simp add: mt_auth_load_password_hash_from_def c_def split: sum.splits)
  have "jc_sub c \<noteq> []" "jc_iss c = MT_AUTH_JWT_ISSUER" "ae_now env' < jc_exp c"
    using l(1) assms(11) by (simp_all add: c_def)
  then show ?thesis
    using verify_steps [OF v(2) _ h _ v(1)] signing_key_again [OF l(3) assms(2,7)] by blast
qed

text \<open>
  C29.  A login gives a token that opens the API: if a login returns a token, then, as long as the password files
  still say the same and before the token expires, verification accepts the token, in the same process and
  after a restart that finds the file of the secret as the login left it (it may have just been created by
  that login).  The secret may have been loaded before, provided it is the one its file gives, which the login
  keeps so; the clock is one whose times a double holds exactly (up to the year 285 million), and the login is a
  string without a zero byte that fits its buffer.
\<close>

theorem login_token_accepted:
  assumes "cjson_reads_back cj" "secret_on_file dir st" "length login < MT_JWT_MAX_SUB" "CHR 0x00 \<notin> set login"
    and "\<bar>ae_now env\<bar> \<le> 2 ^ 53" "\<bar>mt_auth_add_years_utc (ae_now env) MT_AUTH_JWT_YEARS\<bar> \<le> 2 ^ 53"
    and "\<And>r. ae_random env = Some r \<Longrightarrow> length r = MT_AUTH_SECRET_LEN"
    and "mt_auth_authenticate_from cj env dir login password n st = Some (Inr t, st')"
    and "ae_shadow env' = ae_shadow env" "ae_passwd env' = ae_passwd env"
    and "ae_now env' < mt_auth_add_years_utc (ae_now env) MT_AUTH_JWT_YEARS"
  shows "mt_auth_verify_token_from cj env' dir t st' = Some (MT_OK, st') \<and>
    mt_auth_verify_token_from cj env' dir t (st'\<lparr>as_loaded := False\<rparr>) = Some (MT_OK, st') \<and> secret_on_file dir st'"
  by (rule login_verifies [OF assms])

section \<open>An instance\<close>

text \<open>A library that satisfies the hypothesis on cJSON: a printer and a parser for a simple notation.\<close>

definition wr_str :: "string \<Rightarrow> string" where
  "wr_str s = concat (map (\<lambda>c. [CHR ''+'', c]) s) @ ''-''"

fun rd_str :: "string \<Rightarrow> string \<times> string" where
  "rd_str (p # c # r) = (if p = CHR ''+'' then case rd_str r of (s, t) \<Rightarrow> (c # s, t) else ([], c # r))"
| "rd_str _ = ([], [])"

lemma rd_wr_str: "rd_str (wr_str s @ r) = (s, r)"
proof (induction s)
  case Nil
  show ?case by (cases r) (simp_all add: wr_str_def)
qed (simp add: wr_str_def)

fun wr_val :: "cjson \<Rightarrow> string" where
  "wr_val (CJ_String s) = CHR ''s'' # wr_str s"
| "wr_val (CJ_Number n) = (if n < 0 then CHR ''m'' else CHR ''n'') # wr_str (c_dec (nat \<bar>n\<bar>))"
| "wr_val CJ_Other = ''o-''"

definition rd_val :: "string \<Rightarrow> cjson \<times> string" where
  "rd_val s =
    (case rd_str (tl s) of (t, r) \<Rightarrow>
      (if hd s = CHR ''s'' then CJ_String t else if hd s = CHR ''n'' then CJ_Number (int (digits_val t))
       else if hd s = CHR ''m'' then CJ_Number (- int (digits_val t)) else CJ_Other, r))"

lemma rd_wr_val: "rd_val (wr_val v @ r) = (v, r)"
proof (cases v)
  case CJ_Other
  then show ?thesis using rd_wr_str [of "[]" r] by (simp add: rd_val_def wr_str_def)
qed (simp_all add: rd_val_def rd_wr_str digits_val_c_dec)

fun wr_obj :: "(string \<times> cjson) list \<Rightarrow> string" where
  "wr_obj [] = ''}''"
| "wr_obj ((k, v) # obj) = CHR ''{'' # wr_str k @ wr_val v @ wr_obj obj"

fun rd_obj :: "nat \<Rightarrow> string \<Rightarrow> (string \<times> cjson) list option" where
  "rd_obj 0 s = None"
| "rd_obj (Suc n) s =
    (if s = ''}'' then Some []
     else case rd_str (tl s) of (k, r) \<Rightarrow> case rd_val r of (v, r) \<Rightarrow> map_option (Cons (k, v)) (rd_obj n r))"

definition toy_json :: cjson_lib where
  "toy_json = \<lparr>cj_print = wr_obj, cj_parse = \<lambda>s. rd_obj (Suc (length s)) s\<rparr>"

lemma rd_wr_obj: "length obj < n \<Longrightarrow> rd_obj n (wr_obj obj) = Some obj"
proof (induction obj arbitrary: n)
  case Nil
  then show ?case by (cases n) simp_all
next
  case (Cons kv obj)
  obtain m where n: "n = Suc m" "length obj < m"
    using Cons.prems by (cases n) auto
  show ?case
    using Cons.IH [OF n(2)] by (cases kv) (simp add: n(1) rd_wr_str rd_wr_val)
qed

lemma toy_json_reads_back: "cjson_reads_back toy_json"
proof -
  have "length obj \<le> length (wr_obj obj)" for obj
    by (induction obj rule: wr_obj.induct) auto
  then show ?thesis
    unfolding cjson_reads_back_def toy_json_def by (simp add: rd_wr_obj le_imp_less_Suc del: rd_obj.simps)
qed

definition auth_example :: "string \<Rightarrow> auth_env" where
  "auth_example h =
    \<lparr>ae_shadow = Inr [''# users'', ''root:*:0:0'', ''admin:'' @ h @ '':0:0''], ae_passwd = Inl ENOENT,
     ae_random = Some (replicate 32 7), ae_mkdir = EEXIST, ae_open = E_NONE, ae_written = Some 44, ae_now = 0\<rparr>"

definition auth_fresh :: auth_state where
  "auth_fresh = \<lparr>as_loaded = False, as_secret = Inl MT_OK, as_file = Inl ENOENT\<rparr>"

lemma takeWhile_colon: "CHR '':'' \<notin> set a \<Longrightarrow> takeWhile (\<lambda>c. c \<noteq> CHR '':'') (a @ CHR '':'' # r) = a"
  by (subst takeWhile_append2, blast, simp)

lemma dropWhile_colon: "CHR '':'' \<notin> set a \<Longrightarrow> dropWhile (\<lambda>c. c \<noteq> CHR '':'') (a @ CHR '':'' # r) = CHR '':'' # r"
  by (subst dropWhile_append2, blast, simp)

lemma example_hash:
  assumes "h \<noteq> []" "length h < 128" "\<And>c. c \<in> set h \<Longrightarrow> \<not> c_isspace c \<and> c \<noteq> CHR '':''" "h \<noteq> ''x''" "h \<noteq> ''*''"
  shows "mt_auth_load_password_hash_from (auth_example h) ''admin'' 128 = Inr h"
proof -
  have "CHR '':'' \<notin> set h" using assms(3) by blast
  then have cols: "takeWhile (\<lambda>c. c \<noteq> CHR '':'') (h @ '':0:0'') = h"
    using takeWhile_colon [of h "''0:0''"] by simp
  have "trim_right (\<lambda>c. c = CHR 0x0A \<or> c = CHR 0x0D) (''admin:'' @ h @ '':0:0'') = ''admin:'' @ h @ '':0:0''"
    by (simp add: trim_right_def)
  then have "hash_of_line ''admin'' 128 (''admin:'' @ h @ '':0:0'') = Some (Inr h)"
    using assms untrimmed [of h c_isspace] cols by (simp add: hash_of_line_def Let_def)
  moreover have "hash_of_line ''admin'' 128 ''# users'' = None" "hash_of_line ''admin'' 128 ''root:*:0:0'' = None"
    by code_simp+
  ultimately show ?thesis
    by (simp add: mt_auth_load_password_hash_from_def auth_example_def)
qed

lemma stored_hash:
  "\<exists>h. mt_auth_load_password_hash_from (auth_example h) ''admin'' 128 = Inr h \<and> mt_crypt_password ''secret'' h 128 = Inr h"
proof -
  obtain b where b: "mt_crypt_password ''secret'' ''$6$rounds=77$saltsaltsaltsalty$x'' 128 =
      Inr (''$6$rounds=1000$saltsaltsaltsalt$'' @ b)" "set b \<subseteq> set b64_alphabet" "length b \<le> 88"
    using crypt_example by blast
  define h where "h = ''$6$rounds=1000$saltsaltsaltsalt$'' @ b"
  have "list_all (\<lambda>c. \<not> c_isspace c \<and> c \<noteq> CHR '':'') (''$6$rounds=1000$saltsaltsaltsalt$'' @ b64_alphabet)"
    by code_simp
  moreover have "set h \<subseteq> set (''$6$rounds=1000$saltsaltsaltsalt$'' @ b64_alphabet)"
    unfolding h_def set_append using b(2) by blast
  ultimately have "\<And>c. c \<in> set h \<Longrightarrow> \<not> c_isspace c \<and> c \<noteq> CHR '':''"
    unfolding list_all_iff by blast
  then have "mt_auth_load_password_hash_from (auth_example h) ''admin'' 128 = Inr h"
    using b(3) by (intro example_hash) (simp_all add: h_def)
  then show ?thesis using crypt_fixpoint [OF b(1)] unfolding h_def by blast
qed

lemma sign_succeeds: "\<exists>n t. mt_jwt_sign cj c secret n = Inr t"
proof -
  have "mt_base64url_encoded_len (length JWT_HEADER_JSON) < 64" by code_simp
  then show ?thesis by (auto simp: mt_jwt_sign_def Let_def intro!: exI [of _ "_ + _"])
qed

lemma example_login:
  assumes "mt_auth_load_password_hash_from (auth_example h) ''admin'' 128 = Inr h"
    "mt_crypt_password ''secret'' h 128 = Inr h"
  shows "\<exists>n t st. mt_auth_authenticate_from toy_json (auth_example h) ''/d'' ''admin'' ''secret'' n auth_fresh = Some (Inr t, st)"
proof -
  have "length (mt_base64_encode (replicate 32 7)) = 44"
    using encode_core_length [of std_alphabet True "replicate 32 7"]
    by (simp add: mt_base64_encode_def mt_base64_encoded_len_def)
  then have "\<exists>k st. derive_signing_key (auth_example h) ''/d'' h auth_fresh = Some (Inr k, st)"
    by (simp add: derive_signing_key_def mt_auth_load_secret_def auth_fresh_def load_or_create_secret_def
        auth_example_def Let_def)
  then obtain k st where "derive_signing_key (auth_example h) ''/d'' h auth_fresh = Some (Inr k, st)" by blast
  then show ?thesis
    using assms sign_succeeds by (simp add: mt_auth_authenticate_from_def Let_def)
qed

lemma ex_year: "mt_auth_add_years_utc 0 MT_AUTH_JWT_YEARS = 631152000"
  by code_simp

theorem login_token_accepted_witness:
  "\<exists>h n t st. mt_auth_authenticate_from toy_json (auth_example h) ''/d'' ''admin'' ''secret'' n auth_fresh = Some (Inr t, st)
    \<and> mt_auth_verify_token_from toy_json (auth_example h) ''/d'' t (st\<lparr>as_loaded := False\<rparr>) = Some (MT_OK, st)"
proof -
  obtain h n t st where l: "mt_auth_authenticate_from toy_json (auth_example h) ''/d'' ''admin'' ''secret'' n auth_fresh =
      Some (Inr t, st)"
    using stored_hash example_login by blast
  have "mt_auth_verify_token_from toy_json (auth_example h) ''/d'' t (st\<lparr>as_loaded := False\<rparr>) = Some (MT_OK, st)"
    using login_token_accepted [OF toy_json_reads_back _ _ _ _ _ _ l, of "auth_example h"] ex_year
    by (simp add: auth_fresh_def secret_on_file_def MT_JWT_MAX_SUB_def auth_example_def MT_AUTH_SECRET_LEN_def)
  then show ?thesis using l by blast
qed

section \<open>The gate\<close>

lemma gate_steps:
  assumes "mt_auth_middleware cj env dir True path authz st = Some (True, st')"
    and "take 5 path = ''/api/''" "path \<noteq> ''/api/v1/auth''"
  shows "\<exists>hdr. authz = Some hdr \<and> take 7 (dropWhile (\<lambda>c. c = CHR '' '' \<or> c = CHR 0x09) hdr) = ''Bearer '' \<and>
    mt_auth_verify_token_from cj env dir (drop 7 (dropWhile (\<lambda>c. c = CHR '' '' \<or> c = CHR 0x09) hdr)) st = Some (MT_OK, st')"
  using assms by (auto simp: mt_auth_middleware_def Let_def split: if_splits option.splits prod.splits)

lemma verified_claims:
  assumes "mt_auth_verify_token_from cj env dir t st = Some (MT_OK, st')"
  obtains c h k where "mt_auth_load_password_hash_from env (jc_sub c) 128 = Inr h"
    "derive_signing_key env dir h st = Some (Inr k, st')" "mt_jwt_parse_and_verify cj t (bytes_of k) = Inr c"
    "jc_iss c = ''magitrickle''" "ae_now env < jc_exp c"
  using assms
  by (auto simp: mt_auth_verify_token_from_def MT_AUTH_JWT_ISSUER_def split: if_splits sum.splits option.splits prod.splits)
    (metis not_le)

lemma verified_token:
  assumes "mt_auth_verify_token_from cj env dir t st = Some (MT_OK, st')"
  shows "\<exists>p1 p2 c h secret. t = p1 @ ''.'' @ p2 @ ''.'' @ mt_base64url_encode (hmac_spec
          (bytes_of (hex_encode (hmac_spec secret (bytes_of h)))) (bytes_of (p1 @ ''.'' @ p2))) \<and>
    decode_claims cj p2 = Inr c \<and> jc_iss c = ''magitrickle'' \<and> ae_now env < jc_exp c \<and>
    mt_auth_load_password_hash_from env (jc_sub c) 128 = Inr h \<and>
    mt_auth_load_secret env dir st = Some (Inr secret, st')"
proof -
  obtain c h k where c: "mt_auth_load_password_hash_from env (jc_sub c) 128 = Inr h"
    "derive_signing_key env dir h st = Some (Inr k, st')" "mt_jwt_parse_and_verify cj t (bytes_of k) = Inr c"
    "jc_iss c = ''magitrickle''" "ae_now env < jc_exp c"
    using assms by (rule verified_claims)
  obtain secret where s: "mt_auth_load_secret env dir st = Some (Inr secret, st')"
    "k = hex_encode (hmac_sha256 secret (bytes_of h))"
    using c(2) by (auto simp: derive_signing_key_def split: option.splits prod.splits sum.splits)
  obtain p1 p2 p3 where p: "split_token t = Inr (p1, p2, p3)" "p3 = hmac_sign (p1 @ ''.'' @ p2) (bytes_of k)"
    "decode_claims cj p2 = Inr c"
    using c(3) unfolding verify_alt by (auto split: sum.splits if_splits)
  have "t = p1 @ ''.'' @ p2 @ ''.'' @ mt_base64url_encode (hmac_spec
      (bytes_of (hex_encode (hmac_spec secret (bytes_of h)))) (bytes_of (p1 @ ''.'' @ p2)))"
    using split_token_joins [OF p(1)] unfolding p(2) s(2) hmac_sign_def hmac_sha256_def hmac_correct by simp
  then show ?thesis using c s(1) p(3) by blast
qed

text \<open>
  With authentication on, a request under \<^verbatim>\<open>/api/\<close> other than the login itself reaches a handler only with a
  header \<^verbatim>\<open>Authorization: Bearer\<close> whose token is signed, with the URL-safe base64 of an HMAC-SHA256, under the key
  that the secret of the installation and the stored password hash of the subject of the token give, names this
  program as its issuer, and has not expired.
\<close>

theorem gate_needs_signed_token:
  assumes "mt_auth_middleware cj env dir True path authz st = Some (True, st')"
    and "take 5 path = ''/api/''" "path \<noteq> ''/api/v1/auth''"
  shows "\<exists>hdr ws t p1 p2 c h secret. authz = Some hdr \<and> hdr = ws @ ''Bearer '' @ t \<and> set ws \<subseteq> {CHR '' '', CHR 0x09} \<and>
    t = p1 @ ''.'' @ p2 @ ''.'' @ mt_base64url_encode (hmac_spec
          (bytes_of (hex_encode (hmac_spec secret (bytes_of h)))) (bytes_of (p1 @ ''.'' @ p2))) \<and>
    decode_claims cj p2 = Inr c \<and> jc_iss c = ''magitrickle'' \<and> ae_now env < jc_exp c \<and>
    mt_auth_load_password_hash_from env (jc_sub c) 128 = Inr h \<and>
    mt_auth_load_secret env dir st = Some (Inr secret, st')"
proof -
  obtain hdr where hdr: "authz = Some hdr"
      "take 7 (dropWhile (\<lambda>c. c = CHR '' '' \<or> c = CHR 0x09) hdr) = ''Bearer ''"
      "mt_auth_verify_token_from cj env dir (drop 7 (dropWhile (\<lambda>c. c = CHR '' '' \<or> c = CHR 0x09) hdr)) st = Some (MT_OK, st')"
    using gate_steps [OF assms] by blast
  define ws t where "ws = takeWhile (\<lambda>c. c = CHR '' '' \<or> c = CHR 0x09) hdr"
    and "t = drop 7 (dropWhile (\<lambda>c. c = CHR '' '' \<or> c = CHR 0x09) hdr)"
  have "set ws \<subseteq> {CHR '' '', CHR 0x09}"
    by (auto simp: ws_def dest: set_takeWhileD)
  moreover have "hdr = ws @ ''Bearer '' @ t"
    using hdr(2) append_take_drop_id [of 7 "dropWhile (\<lambda>c. c = CHR '' '' \<or> c = CHR 0x09) hdr"]
      takeWhile_dropWhile_id [of "\<lambda>c. c = CHR '' '' \<or> c = CHR 0x09" hdr]
    unfolding ws_def t_def by metis
  ultimately show ?thesis
    using hdr(1) verified_token [OF hdr(3) [folded t_def]] by blast
qed

theorem gate_needs_signed_token_witness:
  "\<exists>h st t ws t' p1 p2 h' secret. mt_auth_middleware toy_json (auth_example h) ''/d'' True ''/api/v1/groups''
      (Some ('' Bearer '' @ t)) (st\<lparr>as_loaded := False\<rparr>) = Some (True, st) \<and>
    '' Bearer '' @ t = ws @ ''Bearer '' @ t' \<and> set ws \<subseteq> {CHR '' '', CHR 0x09} \<and>
    t' = p1 @ ''.'' @ p2 @ ''.'' @ mt_base64url_encode (hmac_spec
          (bytes_of (hex_encode (hmac_spec secret (bytes_of h')))) (bytes_of (p1 @ ''.'' @ p2)))"
proof -
  obtain h where h: "mt_auth_load_password_hash_from (auth_example h) ''admin'' 128 = Inr h"
    "mt_crypt_password ''secret'' h 128 = Inr h"
    using stored_hash by blast
  obtain n t st where l: "mt_auth_authenticate_from toy_json (auth_example h) ''/d'' ''admin'' ''secret'' n auth_fresh =
      Some (Inr t, st)"
    using example_login [OF h] by blast
  have v: "mt_auth_verify_token_from toy_json (auth_example h) ''/d'' t (st\<lparr>as_loaded := False\<rparr>) = Some (MT_OK, st)"
    using login_verifies [OF toy_json_reads_back _ _ _ _ _ _ l, of "auth_example h"] ex_year
    by (simp add: auth_fresh_def secret_on_file_def MT_JWT_MAX_SUB_def auth_example_def MT_AUTH_SECRET_LEN_def)
  then have "t \<noteq> []"
    by (auto simp: mt_auth_verify_token_from_def mt_jwt_parse_unverified_def split_token_def from_dot_def)
  then have m: "mt_auth_middleware toy_json (auth_example h) ''/d'' True ''/api/v1/groups''
      (Some ('' Bearer '' @ t)) (st\<lparr>as_loaded := False\<rparr>) = Some (True, st)"
    using v by (simp add: mt_auth_middleware_def)
  show ?thesis
    using gate_needs_signed_token [OF m] m by (simp del: append.simps) blast
qed

section \<open>A long file overruns the buffer\<close>

text \<open>
  C40.  A secret file that is too long makes the program write past the end of an array: \<^verbatim>\<open>load_or_create_secret\<close> reads up
  to 255 characters and decodes them into an array of 64 bytes, so that any file whose first 255 characters are
  base64 characters (191 bytes) overruns it, whatever the environment.
\<close>

theorem secret_file_overrun:
  assumes "length dir < 500" "length s = 255" "set s \<subseteq> set std_alphabet"
  shows "load_or_create_secret env dir (Inr (s @ rest)) = None"
proof -
  have chars: "\<not> c_isspace c" "c \<noteq> CHR ''=''" if "c \<in> set s" for c
    using that assms(3) std_alphabet_chars alphabets_ok(1) by (auto simp: alphabet_ok_def)
  have dec: "mt_base64_decode s \<noteq> None"
    using assms(3) untrimmed [of s "\<lambda>c. c = CHR ''=''"] chars(2)
    by (simp add: mt_base64_decode_def decode_core_def trim_right_def decode_loop_total [OF alphabets_ok(1)])
  then obtain out where out: "mt_base64_decode s = Some out" by blast
  then have "length out = 191"
    using decode_loop_length [of std_alphabet s 0 0 out] untrimmed [of s "\<lambda>c. c = CHR ''=''"] chars(2) assms(2)
    by (simp add: mt_base64_decode_def decode_core_def trim_right_def)
  then show ?thesis
    using assms(1,2) out untrimmed [of s c_isspace] chars(1) by (auto simp: load_or_create_secret_def Let_def)
qed

theorem secret_file_overrun_witness:
  "load_or_create_secret (auth_example ''x'') ''/d'' (Inr (replicate 300 (CHR ''A''))) = None"
  using secret_file_overrun [of "''/d''" "replicate 255 (CHR ''A'')" "auth_example ''x''" "replicate 45 (CHR ''A'')"]
  by (simp add: replicate_add [symmetric] std_alphabet_def)

end
