(* ===== verification/Api_Server.thy ===== *)
theory Api_Server
  imports Httpd Auth
begin

text \<open>
  What \<^verbatim>\<open>src/main/main.c\<close> puts together for the TCP listener: the HTTP server with the gate and the handlers of \<^verbatim>\<open>src/api/auth.c\<close>, and
  \<^verbatim>\<open>src/api/staticfiles.c\<close> for everything that is no route.  The two properties span the parser of requests and these clients: from the
  bytes of a connection to what a handler gets to see.

  The state of the handlers is the state of the authentication.  Building objects of JSON is a parameter.
\<close>

section \<open>The handlers of the authentication\<close>

record 'j api_json = "'j json_lib" +
  jl_bool :: "string \<Rightarrow> bool \<Rightarrow> 'j"
  jl_str :: "string \<Rightarrow> string \<Rightarrow> 'j"

text \<open>The whole of \<^verbatim>\<open>mt_auth_middleware\<close>, with its answer to a request that it stops.\<close>

definition auth_gate ::
  "'j json_lib \<Rightarrow> nat \<Rightarrow> cjson_lib \<Rightarrow> auth_env \<Rightarrow> string \<Rightarrow> bool \<Rightarrow> mt_http_req \<Rightarrow> mt_http_res \<Rightarrow> auth_state
    \<Rightarrow> (bool \<times> mt_http_res \<times> auth_state) option" where
  "auth_gate J fuel cj env state_dir enabled req res st =
    (case mt_auth_middleware cj env state_dir enabled (rq_path req) (mt_http_req_header req ''Authorization'') st of
       None \<Rightarrow> None
     | Some (proceed, st) \<Rightarrow>
         if proceed then Some (True, res, st)
         else map_option (\<lambda>res. (False, res, st)) (mt_http_res_write_error J fuel 401 ''Unauthorized'' res))"

definition mt_auth_status_handler :: "('j, 'z) api_json_scheme \<Rightarrow> nat \<Rightarrow> bool \<Rightarrow> auth_state handler" where
  "mt_auth_status_handler J fuel enabled req res st =
    map_option (\<lambda>res. (res, st)) (mt_http_res_write_json (json_lib.truncate J) fuel 200 (jl_bool J ''enabled'' enabled) res)"

definition json_text :: "string \<Rightarrow> (string \<times> cjson) list \<Rightarrow> string" where
  "json_text key obj = (case map_of obj key of Some (CJ_String s) \<Rightarrow> s | _ \<Rightarrow> [])"

definition mt_auth_login_handler ::
  "('j, 'z) api_json_scheme \<Rightarrow> nat \<Rightarrow> cjson_lib \<Rightarrow> auth_env \<Rightarrow> string \<Rightarrow> bool \<Rightarrow> auth_state handler" where
  "mt_auth_login_handler J fuel cj env state_dir enabled req res st =
    (let err = (\<lambda>st status msg. map_option (\<lambda>res. (res, st)) (mt_http_res_write_error (json_lib.truncate J) fuel status msg res))
     in if \<not> enabled then err st 404 ''Auth disabled''
        else case (if rq_body req = [] then None else cj_parse cj (rq_body req)) of
          None \<Rightarrow> err st 400 ''failed to parse request''
        | Some obj \<Rightarrow>
            if json_text ''login'' obj = [] \<or> json_text ''password'' obj = [] then err st 400 ''missing credentials''
            else case mt_auth_authenticate_from cj env state_dir (json_text ''login'' obj) (json_text ''password'' obj) MT_JWT_MAX_TOKEN st of
              None \<Rightarrow> None
            | Some (Inl _, st) \<Rightarrow> err st 403 ''Invalid credentials''
            | Some (Inr token, st) \<Rightarrow>
                map_option (\<lambda>res. (res, st)) (mt_http_res_write_json (json_lib.truncate J) fuel 200 (jl_str J ''token'' token) res))"

section \<open>Static files\<close>

text \<open>
  The file system: what \<^verbatim>\<open>stat\<close> says about a path, an error or whether it is a directory, and what opening and reading it gives.
\<close>

record file_system =
  fs_stat :: "string \<Rightarrow> c_errno + bool"
  fs_read :: "string \<Rightarrow> string option"

definition content_type_for_ext :: "string \<Rightarrow> string" where
  "content_type_for_ext path =
    (if CHR ''.'' \<notin> set path then ''text/plain''
     else let dot = CHR ''.'' # rev (before (CHR ''.'') (rev path))
          in if strcaseeq dot ''.html'' then ''text/html''
             else if strcaseeq dot ''.css'' then ''text/css''
             else if strcaseeq dot ''.js'' then ''application/javascript''
             else if strcaseeq dot ''.ico'' then ''image/x-icon''
             else if strcaseeq dot ''.png'' then ''image/png''
             else if strcaseeq dot ''.svg'' then ''image/svg+xml''
             else ''text/plain'')"

datatype stat_end = Missing | StatFailed | TooLong | Found string

text \<open>The attempts to find a file, \<open>n\<close> of them.\<close>

fun stat_loop :: "file_system \<Rightarrow> nat \<Rightarrow> string \<Rightarrow> stat_end" where
  "stat_loop fs 0 file_path = Found file_path"
| "stat_loop fs (Suc n) file_path =
    (case fs_stat fs file_path of
       Inl e \<Rightarrow> if e = ENOENT then Missing else StatFailed
     | Inr is_dir \<Rightarrow>
         if \<not> is_dir then Found file_path
         else if length file_path + 11 \<ge> 1024 then TooLong
         else stat_loop fs n (file_path @ ''/index.html''))"

definition static_file :: "file_system \<Rightarrow> string \<Rightarrow> string \<Rightarrow> string \<Rightarrow> stat_end" where
  "static_file fs skins_dir skin path =
    (let file_path = skins_dir @ ''/'' @ skin @ path
     in if length file_path \<ge> 1024 then TooLong else stat_loop fs 2 file_path)"

definition NO_SKIN_PLACEHOLDER :: string where
  "NO_SKIN_PLACEHOLDER =
    ''<!DOCTYPE html><html><head><title>MagiTrickle</title></head><body><h1>MagiTrickle</h1><p>Please install MagiTrickle skin before using WebUI!</p></body></html>''"

definition mt_static_handler :: "'j json_lib \<Rightarrow> nat \<Rightarrow> file_system \<Rightarrow> string \<Rightarrow> string \<Rightarrow> 's handler" where
  "mt_static_handler J fuel fs skins_dir skin req res s =
    (let err = (\<lambda>status msg. map_option (\<lambda>res. (res, s)) (mt_http_res_write_error J fuel status msg res))
     in if rq_method req \<noteq> ''GET'' then err 404 ''not found''
        else case static_file fs skins_dir skin (rq_path req) of
          Missing \<Rightarrow>
            if rq_path req = ''/'' then Some (mt_http_res_write 404 (Some ''text/html'') NO_SKIN_PLACEHOLDER res, s)
            else err 404 ''file not found''
        | StatFailed \<Rightarrow> err 500 ''failed to stat file''
        | TooLong \<Rightarrow> err 500 ''path too long''
        | Found file_path \<Rightarrow>
            (case fs_read fs file_path of
               None \<Rightarrow> err 500 ''failed to read file''
             | Some data \<Rightarrow> Some (mt_http_res_write 200 (Some (content_type_for_ext file_path)) data res, s)))"

section \<open>The path of a request\<close>

lemma request_path:
  assumes "read_stream bytes = Request req v"
  shows "\<exists>target. rq_path req = path_clean 512 target"
  using assms by (auto simp: read_stream_def parse_headers_def Let_def split: option.splits if_splits prod.splits)

lemma split_segments_all: "split_segments n s = take n (all_segments s)"
proof (induction n arbitrary: s)
  case (Suc n)
  then show ?case by (subst all_segments.simps) (auto split: option.splits)
qed simp

lemma match_segments_same:
  "match_segments (p # ps) gs params = Some qs \<Longrightarrow> \<not> is_param p \<Longrightarrow> \<exists>ss. gs = p # ss \<and> length ss = length ps"
proof -
  have len: "match_segments ps ss params = Some qs \<Longrightarrow> length ss = length ps" for ps ss params
    by (induction ps ss params rule: match_segments.induct) (auto split: if_splits)
  show "match_segments (p # ps) gs params = Some qs \<Longrightarrow> \<not> is_param p \<Longrightarrow> ?thesis"
    by (cases gs) (auto split: if_splits dest: len)
qed

lemma match_route_member: "match_route rs req = Some (r, req') \<Longrightarrow> r \<in> set rs \<and>
    match_segments (split_segments 8 (rt_pattern r)) (split_segments 8 (rq_path req)) [] \<noteq> None"
  by (induction rs) (auto simp: httpd_limits split: if_splits option.splits)

text \<open>A path with two segments of which the first is \<open>g\<close> begins with it.\<close>

lemma cut_segments_first:
  assumes "cut_segments n gs = g # h # hs"
  shows "\<exists>gs'. gs = g # gs' \<and> 2 + length g \<le> n \<and> gs' \<noteq> []"
proof (cases gs)
  case (Cons x xs)
  then have n: "\<not> n \<le> length x" "x = g" "cut_segments (n - 1 - length x) xs = h # hs" using assms by (auto split: if_splits)
  then obtain y ys where "xs = y # ys" by (cases xs) auto
  moreover from this have "0 < n - 1 - length x" using n(3) by (auto split: if_splits)
  ultimately show ?thesis using Cons n by auto
qed (use assms in simp)

lemma path_prefix:
  assumes "all_segments (path_clean 512 s) = g # h # hs"
  shows "take (2 + length g) (path_clean 512 s) = SLASH # g @ [SLASH]"
proof -
  obtain gs where gs: "path_clean 512 s = take 511 (root_join gs)" "cut_segments 511 gs = g # h # hs"
    using path_segments [of 511 s "path_clean 512 s"] assms by auto
  obtain gs' where gs': "gs = g # gs'" "2 + length g \<le> 511" "gs' \<noteq> []" using cut_segments_first [OF gs(2)] by blast
  obtain y ys where "gs' = y # ys" using gs'(3) by (cases gs') auto
  then have "root_join gs = (SLASH # g @ [SLASH]) @ y @ concat (map (\<lambda>g. SLASH # g) ys)" using gs'(1) by (simp add: root_join_def)
  moreover have "take (2 + length g) (take 511 t) = take (2 + length g) t" for t :: string using gs'(2) by (simp add: min_absorb1)
  ultimately show ?thesis unfolding gs(1) by (simp only:) simp
qed

lemma api_route_prefix:
  assumes "read_stream bytes = Request req v" "match_route rs req = Some (r, req')" "split_segments 8 (rt_pattern r) = ''api'' # x # xs"
  shows "take 5 (rq_path req) = ''/api/''"
proof -
  obtain target where t: "rq_path req = path_clean 512 target" using request_path [OF assms(1)] by blast
  obtain qs where "match_segments (''api'' # x # xs) (split_segments 8 (rq_path req)) [] = Some qs"
    using match_route_member [OF assms(2)] assms(3) by auto
  moreover have "\<not> is_param ''api''" by (simp add: is_param_def)
  ultimately obtain ss where "split_segments 8 (rq_path req) = ''api'' # ss" "length ss = Suc (length xs)"
    using match_segments_same by fastforce
  then obtain h hs where "take 8 (all_segments (rq_path req)) = ''api'' # h # hs" unfolding split_segments_all by (cases ss) auto
  then obtain hs' where "all_segments (rq_path req) = ''api'' # h # hs'"
    by (cases "all_segments (rq_path req)" rule: remdups_adj.cases) (auto simp: take_Cons')
  then show ?thesis using path_prefix [of target "''api''"] by (simp add: t)
qed

lemma error_responds: "mt_http_res_write_error J fuel status msg res = Some res' \<Longrightarrow> rs_responded res'"
proof -
  have w: "rs_responded (mt_http_res_write status t data res)" for status t data by (simp add: mt_http_res_write_def Let_def)
  have "mt_http_res_write_json J fuel status obj res = Some res' \<Longrightarrow> rs_responded res'" for fuel status obj
    by (induction fuel arbitrary: status obj) (subst (asm) mt_http_res_write_json.simps, auto simp: w split: option.splits)+
  then show "mt_http_res_write_error J fuel status msg res = Some res' \<Longrightarrow> ?thesis"
    by (auto simp: mt_http_res_write_error_def w split: option.splits)
qed

section \<open>From the bytes to the handlers\<close>

text \<open>
  C13.  Nobody reaches a handler of the API without a token.  Take any bytes that make up a request, on a server whose gate is on, and a
  route under \<^verbatim>\<open>/api/\<close> that the request would go to: unless its path is that of the login, either the request carries a
  bearer token that is signed for this installation, issued by this program and not expired, or the response is the 401 of
  the gate, whatever the handlers do.
\<close>

theorem api_needs_token:
  assumes "read_stream bytes = Request req v" "match_route (hd_routes h) req = Some (r, req')"
    and "split_segments 8 (rt_pattern r) = ''api'' # x # xs" "rq_path req \<noteq> ''/api/v1/auth''"
    and "hd_middleware h = Some (auth_gate J fuel cj env dir True)" "dispatch J fuel h req st = Some (res, st')"
  shows "(\<exists>hdr t p1 p2 c hash secret st1. mt_http_req_header req ''Authorization'' = Some hdr \<and>
      dropWhile (\<lambda>c. c = CHR '' '' \<or> c = CHR 0x09) hdr = ''Bearer '' @ t \<and>
      t = p1 @ ''.'' @ p2 @ ''.'' @ mt_base64url_encode (hmac_spec
            (bytes_of (hex_encode (hmac_spec secret (bytes_of hash)))) (bytes_of (p1 @ ''.'' @ p2))) \<and>
      decode_claims cj p2 = Inr c \<and> jc_iss c = ''magitrickle'' \<and> ae_now env < jc_exp c \<and>
      mt_auth_load_password_hash_from env (jc_sub c) 128 = Inr hash \<and> mt_auth_load_secret env dir st = Some (Inr secret, st1)) \<or>
    mt_http_res_write_error J fuel 401 ''Unauthorized'' http_res_zero = Some res"
proof -
  obtain proceed res1 st1 where g: "auth_gate J fuel cj env dir True req http_res_zero st = Some (proceed, res1, st1)"
    using assms(5,6) by (auto simp: dispatch_def split: option.splits)
  show ?thesis
  proof (cases proceed)
    case True
    then have "mt_auth_middleware cj env dir True (rq_path req) (mt_http_req_header req ''Authorization'') st = Some (True, st1)"
      using g by (auto simp: auth_gate_def split: option.splits if_splits)
    then obtain hdr where hdr: "mt_http_req_header req ''Authorization'' = Some hdr"
        "take 7 (dropWhile (\<lambda>c. c = CHR '' '' \<or> c = CHR 0x09) hdr) = ''Bearer ''"
        "mt_auth_verify_token_from cj env dir (drop 7 (dropWhile (\<lambda>c. c = CHR '' '' \<or> c = CHR 0x09) hdr)) st = Some (MT_OK, st1)"
      using gate_steps [OF _ api_route_prefix [OF assms(1-3)] assms(4)] by blast
    define t where "t = drop 7 (dropWhile (\<lambda>c. c = CHR '' '' \<or> c = CHR 0x09) hdr)"
    have "dropWhile (\<lambda>c. c = CHR '' '' \<or> c = CHR 0x09) hdr = ''Bearer '' @ t"
      using hdr(2) append_take_drop_id [of 7 "dropWhile (\<lambda>c. c = CHR '' '' \<or> c = CHR 0x09) hdr"] unfolding t_def by metis
    then show ?thesis using hdr(1) verified_token [OF hdr(3) [folded t_def]] by blast
  next
    case False
    then have w: "mt_http_res_write_error J fuel 401 ''Unauthorized'' http_res_zero = Some res1"
      using g by (auto simp: auth_gate_def split: option.splits if_splits)
    then have "rs_responded res1" by (rule error_responds)
    then show ?thesis using w assms(5,6) g False by (simp add: dispatch_def)
  qed
qed

definition ex_server :: "auth_env \<Rightarrow> auth_state mt_httpd" where
  "ex_server env = \<lparr>hd_routes = [\<lparr>rt_method = ''POST'', rt_pattern = ''/api/v1/{id}'', rt_fn = \<lambda>req res st. Some (res, st)\<rparr>],
     hd_middleware = Some (auth_gate ex_json 1 toy_json env ''/d'' True), hd_not_found = None, hd_n_conns = 1, hd_conns = []\<rparr>"

theorem api_needs_token_witness:
  "\<exists>res st. dispatch ex_json 1 (ex_server (auth_example ''x'')) (ex_read\<lparr>rq_body := ''{}''\<rparr>) auth_fresh = Some (res, st) \<and>
     mt_http_res_write_error ex_json 1 401 ''Unauthorized'' http_res_zero = Some res"
proof -
  let ?req = "ex_read\<lparr>rq_body := ''{}''\<rparr>"
  have segs: "split_segments 8 ''/api/v1/x'' = [''api'', ''v1'', ''x'']" "split_segments 8 ''/api/v1/{id}'' = [''api'', ''v1'', ''{id}'']"
    by code_simp+
  have route: "match_route (hd_routes (ex_server (auth_example ''x''))) ?req =
      Some (\<lparr>rt_method = ''POST'', rt_pattern = ''/api/v1/{id}'', rt_fn = \<lambda>req res st. Some (res, st)\<rparr>,
        ?req\<lparr>rq_params := [\<lparr>kv_name = ''id'', kv_value = ''x''\<rparr>]\<rparr>)"
    by (simp add: ex_server_def ex_read_def segs is_param_def httpd_limits)
  have none: "mt_http_req_header ?req ''Authorization'' = None" by code_simp
  obtain res where res: "mt_http_res_write_error ex_json 1 401 ''Unauthorized'' http_res_zero = Some res" "rs_responded res"
  proof -
    have "\<exists>res. mt_http_res_write_error ex_json 1 401 ''Unauthorized'' http_res_zero = Some res"
      by (simp add: mt_http_res_write_error_def ex_json_def mt_http_res_write_json.simps)
    then show thesis using that error_responds by blast
  qed
  have "auth_gate ex_json 1 toy_json (auth_example ''x'') ''/d'' True ?req http_res_zero auth_fresh = Some (False, res, auth_fresh)"
    using none res(1) by (simp add: auth_gate_def mt_auth_middleware_def ex_read_def)
  then have d: "dispatch ex_json 1 (ex_server (auth_example ''x'')) ?req auth_fresh = Some (res, auth_fresh)"
    using res(2) by (simp add: dispatch_def ex_server_def)
  have "hd_middleware (ex_server (auth_example ''x'')) = Some (auth_gate ex_json 1 toy_json (auth_example ''x'') ''/d'' True)"
    by (simp add: ex_server_def)
  then show ?thesis
    using api_needs_token [OF ex_stream route _ _ _ d] none d segs(2) by (simp add: ex_read_def)
qed

section \<open>Static files\<close>

lemma all_segments_append: "all_segments (a @ SLASH # b) = all_segments a @ all_segments b"
proof (induction a rule: all_segments.induct)
  case (1 a)
  show ?case
  proof (cases "next_segment a")
    case None
    then have "\<forall>c \<in> set a. c = SLASH" by (auto simp: next_segment_def Let_def dropWhile_eq_Nil_conv split: if_splits)
    then have "dropWhile (\<lambda>c. c = SLASH) (a @ SLASH # b) = dropWhile (\<lambda>c. c = SLASH) b" by (simp add: dropWhile_append)
    then have "next_segment (a @ SLASH # b) = next_segment b" by (simp add: next_segment_def)
    then show ?thesis using None by (simp add: all_segments.simps)
  next
    case (Some gr)
    obtain g r where gr: "gr = (g, r)" by (rule prod.exhaust)
    define t where "t = dropWhile (\<lambda>c. c = SLASH) a"
    have t: "t \<noteq> []" "g = takeWhile (\<lambda>c. c \<noteq> SLASH) t" "r = dropWhile (\<lambda>c. c \<noteq> SLASH) t"
      using Some gr by (auto simp: next_segment_def t_def Let_def split: if_splits)
    then have "dropWhile (\<lambda>c. c = SLASH) (a @ SLASH # b) = t @ SLASH # b" by (auto simp: dropWhile_append t_def)
    moreover have "takeWhile (\<lambda>c. c \<noteq> SLASH) (t @ SLASH # b) = g" "dropWhile (\<lambda>c. c \<noteq> SLASH) (t @ SLASH # b) = r @ SLASH # b"
      unfolding t(2,3) by (induction t) auto
    ultimately have "next_segment (a @ SLASH # b) = Some (g, r @ SLASH # b)" by (simp add: next_segment_def)
    then show ?thesis using 1 [OF Some gr [symmetric]] Some gr by (simp add: all_segments.simps [of "a @ SLASH # b"] all_segments.simps [of a])
  qed
qed

lemma stays_snoc: "stays d gs \<Longrightarrow> g \<noteq> ''..'' \<Longrightarrow> stays d (gs @ [g])"
  by (induction d gs rule: stays.induct) auto

lemma stays_index: "stays 0 (all_segments p) \<Longrightarrow> stays 0 (all_segments (p @ ''/index.html''))"
proof -
  have "all_segments ''index.html'' = [''index.html'']" by code_simp
  then have "all_segments (p @ SLASH # ''index.html'') = all_segments p @ [''index.html'']" unfolding all_segments_append by simp
  then show "stays 0 (all_segments p) \<Longrightarrow> ?thesis" using stays_snoc [of 0 "all_segments p"] by simp
qed

lemma stat_loop_below:
  "stat_loop fs n (base @ p) = Found file \<Longrightarrow> stays 0 (all_segments p) \<Longrightarrow> \<exists>rest. file = base @ rest \<and> stays 0 (all_segments rest)"
proof (induction n arbitrary: p)
  case (Suc n)
  then show ?case using stays_index [of p] Suc.IH [of "p @ ''/index.html''"] by (auto split: sum.splits if_splits)
qed auto

text \<open>
  C22.  The file server only serves files below the directory of the skin: whatever bytes a client sends, and whatever the file
  system says, a file that is opened for the request has the path of that directory, a slash, and segments that never lead
  above it, and the path fits its buffer.
\<close>

theorem static_files_confined:
  assumes "read_stream bytes = Request req v" "static_file fs skins_dir skin (rq_path req) = Found file"
  shows "\<exists>rest. file = skins_dir @ ''/'' @ skin @ ''/'' @ rest \<and> stays 0 (all_segments rest) \<and> length file < 1024"
proof -
  obtain target where t: "rq_path req = path_clean 512 target" using request_path [OF assms(1)] by blast
  then obtain gs where gs: "list_all plain_segment gs" "all_segments (rq_path req) = cut_segments 511 gs"
    "rq_path req = take 511 (root_join gs)"
    using path_segments [of 511 target "path_clean 512 target"] by auto
  obtain p where p: "rq_path req = SLASH # p" using gs(3) by (cases gs) (auto simp: root_join_def)
  have "stays 0 (all_segments (rq_path req))" unfolding gs(2) using gs(1) by (rule stays_cut) simp
  then have below: "stays 0 (all_segments p)" using all_segments_append [of "[]" p] p by (simp add: all_segments.simps [of "[]"] next_segment_def)
  let ?base = "skins_dir @ ''/'' @ skin @ ''/''"
  have loop: "stat_loop fs 2 (?base @ p) = Found file" "length (?base @ p) < 1024"
    using assms(2) p by (auto simp: static_file_def Let_def split: if_splits)
  have "stat_loop fs n p = Found file \<Longrightarrow> length p < 1024 \<Longrightarrow> length file < 1024" for n p
    by (induction n arbitrary: p) (auto split: sum.splits if_splits)
  then have "length file < 1024" using loop by blast
  moreover obtain rest where "file = ?base @ rest" "stays 0 (all_segments rest)"
    using stat_loop_below [OF loop(1) below] by blast
  ultimately show ?thesis by auto
qed

definition ex_fs :: file_system where
  "ex_fs = \<lparr>fs_stat = \<lambda>p. if p = ''/s/k/api/v1/x'' then Inr True else Inr False, fs_read = \<lambda>p. Some ''hello''\<rparr>"

theorem static_files_confined_witness:
  "\<exists>rest. ''/s/k/api/v1/x/index.html'' = ''/s'' @ ''/'' @ ''k'' @ ''/'' @ rest \<and> stays 0 (all_segments rest)"
proof -
  have "static_file ex_fs ''/s'' ''k'' (rq_path (ex_read\<lparr>rq_body := ''{}''\<rparr>)) = Found ''/s/k/api/v1/x/index.html''"
    by (simp add: static_file_def ex_fs_def ex_read_def numeral_2_eq_2)
  from static_files_confined [OF ex_stream this] show ?thesis by blast
qed

end
