(* ===== verification/Ruleset.thy ===== *)
theory Ruleset
  imports Ruleset_Sync Netfilter_Chains
begin

text \<open>
  The life of a rule set, \<^verbatim>\<open>src/netfilter/ruleset.c\<close>: enabling and disabling, staging its chains, direct additions
  from the DNS path, the interface hooks and the synchronisation, over the sets of \<open>Ipset\<close> and the link of
  \<open>Ipset_To_Link\<close>.

  A rule set borrows its group; here it carries it.  Allocations succeed.  The operations that use the sets
  return \<open>None\<close> where the C code would dereference a null or dangling pointer.
\<close>

section \<open>Data\<close>

record mt_ruleset =
  rs_group :: mt_group
  rs_enabled :: bool
  rs_ipset :: "mt_ipset option"
  rs_link :: "mt_ipset_to_link option"

record ('k, 's, 'x, 're) rs_deps =
  rd_be :: bool
  rd_netlink :: "'s netlink"
  rd_commit :: "'x committer"
  rd_sets :: "'k mt_ipset_nl"
  rd_pcre :: "'re pcre2"
  rd_inet :: inet_lib
  rd_ipset_prefix :: string
  rd_chain_prefix :: string
  rd_start_idx :: u32

record ('k, 's, 'x) world =
  w_sets :: 'k
  w_net :: "('s, 'x) net"

section \<open>Operations\<close>

definition mt_ruleset_new :: "mt_group \<Rightarrow> mt_ruleset" where
  "mt_ruleset_new g = \<lparr>rs_group = g, rs_enabled = False, rs_ipset = None, rs_link = None\<rparr>"

definition configured_enabled :: "mt_ruleset \<Rightarrow> bool" where
  "configured_enabled rs = group_enable (rs_group rs)"

text \<open>Names are cut at the size of their buffers.\<close>

definition rs_name :: "string \<Rightarrow> mt_group \<Rightarrow> string" where
  "rs_name pfx g = take 127 (pfx @ mt_id_format (group_id g))"

definition rs_iface :: "mt_group \<Rightarrow> string" where
  "rs_iface g = (case group_iface g of Some i \<Rightarrow> i | None \<Rightarrow> [])"

definition ruleset_enable_locked ::
  "('k, 's, 'x, 're) rs_deps \<Rightarrow> mt_ruleset \<Rightarrow> ('k, 's, 'x) world \<Rightarrow> mt_err \<times> mt_ruleset \<times> ('k, 's, 'x) world" where
  "ruleset_enable_locked D rs w =
    (if rs_enabled rs then (MT_OK, rs, w)
     else let rs = rs\<lparr>rs_enabled := True\<rparr>
          in if \<not> configured_enabled rs then (MT_OK, rs, w)
             else let ips = mt_ipset_new (rs_name (rd_ipset_prefix D) (rs_group rs));
                      l = mt_ipset_to_link_new (rs_name (rd_chain_prefix D) (rs_group rs)) (rs_iface (rs_group rs)) (rd_start_idx D)
                  in case mt_ipset_to_link_clear_if_disabled (rd_be D) (rd_netlink D) (rd_commit D) l (w_net w) of (err, l, n) \<Rightarrow>
                     if err \<noteq> MT_OK then (err, rs, w\<lparr>w_net := n\<rparr>)
                     else case mt_ipset_enable (rd_sets D) ips (w_sets w) of (err, ips, s) \<Rightarrow>
                     if err \<noteq> MT_OK then (err, rs, w\<lparr>w_net := n, w_sets := s\<rparr>)
                     else case mt_ipset_to_link_enable (rd_be D) (rd_netlink D) (rd_commit D) ips l n of (err, l, n) \<Rightarrow>
                     if err \<noteq> MT_OK then (err, rs\<lparr>rs_ipset := Some ips\<rparr>, w\<lparr>w_net := n, w_sets := s\<rparr>)
                     else (MT_OK, rs\<lparr>rs_ipset := Some ips, rs_link := Some l\<rparr>, w\<lparr>w_net := n, w_sets := s\<rparr>))"

definition disable_link ::
  "('k, 's, 'x, 're) rs_deps \<Rightarrow> mt_ruleset \<Rightarrow> ('k, 's, 'x) world \<Rightarrow> mt_err \<times> ('k, 's, 'x) world" where
  "disable_link D rs w =
    (case rs_link rs of
       None \<Rightarrow> (MT_OK, w)
     | Some l \<Rightarrow>
         (case mt_ipset_to_link_disable (rd_be D) (rd_netlink D) (rd_commit D) l (w_net w) of (e, _, n) \<Rightarrow> (e, w\<lparr>w_net := n\<rparr>)))"

definition disable_sets ::
  "('k, 's, 'x, 're) rs_deps \<Rightarrow> mt_ruleset \<Rightarrow> ('k, 's, 'x) world \<Rightarrow> mt_err \<times> ('k, 's, 'x) world" where
  "disable_sets D rs w =
    (case rs_ipset rs of
       None \<Rightarrow> (MT_OK, w)
     | Some ips \<Rightarrow> (case mt_ipset_disable (rd_sets D) ips (w_sets w) of (e, _, s) \<Rightarrow> (e, w\<lparr>w_sets := s\<rparr>)))"

definition mt_ruleset_disable ::
  "('k, 's, 'x, 're) rs_deps \<Rightarrow> mt_ruleset \<Rightarrow> ('k, 's, 'x) world \<Rightarrow> mt_err \<times> mt_ruleset \<times> ('k, 's, 'x) world" where
  "mt_ruleset_disable D rs w =
    (if \<not> rs_enabled rs then (MT_OK, rs, w)
     else let rs = rs\<lparr>rs_enabled := False\<rparr>
          in if \<not> configured_enabled rs then (MT_OK, rs, w)
             else case disable_link D rs w of (e1, w) \<Rightarrow>
                  case disable_sets D rs w of (e2, w) \<Rightarrow>
                    (if e1 \<noteq> MT_OK then e1 else e2, rs\<lparr>rs_link := None, rs_ipset := None\<rparr>, w))"

definition mt_ruleset_enable ::
  "('k, 's, 'x, 're) rs_deps \<Rightarrow> mt_ruleset \<Rightarrow> ('k, 's, 'x) world \<Rightarrow> mt_err \<times> mt_ruleset \<times> ('k, 's, 'x) world" where
  "mt_ruleset_enable D rs w =
    (case ruleset_enable_locked D rs w of (err, rs, w) \<Rightarrow>
       if err \<noteq> MT_OK then (case mt_ruleset_disable D rs w of (_, rs, w) \<Rightarrow> (err, rs, w)) else (MT_OK, rs, w))"

text \<open>The chains of a link refer to the sets, which the link borrows.\<close>

definition mt_ruleset_prepare_iptables ::
  "mt_ruleset \<Rightarrow> ('k, 's, 'x) world \<Rightarrow> (mt_err \<times> ('k, 's, 'x) world) option" where
  "mt_ruleset_prepare_iptables rs w =
    (if \<not> rs_enabled rs \<or> \<not> configured_enabled rs then Some (MT_OK, w)
     else case rs_link rs of
       None \<Rightarrow> Some (MT_OK, w)
     | Some l \<Rightarrow>
         (case rs_ipset rs of
            None \<Rightarrow> None
          | Some ips \<Rightarrow>
              (case mt_ipset_to_link_prepare_iptables ips l (w_net w) of (err, n) \<Rightarrow> Some (err, w\<lparr>w_net := n\<rparr>))))"

definition mt_ruleset_add_ipv4 ::
  "('k, 's, 'x, 're) rs_deps \<Rightarrow> mt_ruleset \<Rightarrow> mt_subnet \<Rightarrow> u32 option \<Rightarrow> ('k, 's, 'x) world \<Rightarrow> (mt_err \<times> ('k, 's, 'x) world) option" where
  "mt_ruleset_add_ipv4 D rs subnet ttl w =
    (if \<not> rs_enabled rs \<or> \<not> configured_enabled rs then Some (MT_OK, w)
     else case rs_ipset rs of
       None \<Rightarrow> None
     | Some ips \<Rightarrow> (case mt_ipset_add4 (rd_sets D) ips subnet ttl (w_sets w) of (err, s) \<Rightarrow> Some (err, w\<lparr>w_sets := s\<rparr>)))"

definition mt_ruleset_add_ipv6 ::
  "('k, 's, 'x, 're) rs_deps \<Rightarrow> mt_ruleset \<Rightarrow> mt_subnet \<Rightarrow> u32 option \<Rightarrow> ('k, 's, 'x) world \<Rightarrow> (mt_err \<times> ('k, 's, 'x) world) option" where
  "mt_ruleset_add_ipv6 D rs subnet ttl w =
    (if \<not> rs_enabled rs \<or> \<not> configured_enabled rs then Some (MT_OK, w)
     else case rs_ipset rs of
       None \<Rightarrow> None
     | Some ips \<Rightarrow> (case mt_ipset_add6 (rd_sets D) ips subnet ttl (w_sets w) of (err, s) \<Rightarrow> Some (err, w\<lparr>w_sets := s\<rparr>)))"

text \<open>The two hooks, with the operation of the link as an argument.\<close>

definition ruleset_hook ::
  "('s, 'x) net_op \<Rightarrow> mt_ruleset \<Rightarrow> ('k, 's, 'x) world \<Rightarrow> mt_err \<times> mt_ruleset \<times> ('k, 's, 'x) world" where
  "ruleset_hook f rs w =
    (if \<not> rs_enabled rs \<or> \<not> configured_enabled rs then (MT_OK, rs, w)
     else case rs_link rs of
       None \<Rightarrow> (MT_OK, rs, w)
     | Some l \<Rightarrow> (case f l (w_net w) of (err, l, n) \<Rightarrow> (err, rs\<lparr>rs_link := Some l\<rparr>, w\<lparr>w_net := n\<rparr>)))"

definition mt_ruleset_on_link_up ::
  "('k, 's, 'x, 're) rs_deps \<Rightarrow> mt_ruleset \<Rightarrow> ('k, 's, 'x) world \<Rightarrow> mt_err \<times> mt_ruleset \<times> ('k, 's, 'x) world" where
  "mt_ruleset_on_link_up D = ruleset_hook (mt_ipset_to_link_on_link_up (rd_be D) (rd_netlink D))"

definition mt_ruleset_on_addr_change ::
  "('k, 's, 'x, 're) rs_deps \<Rightarrow> mt_ruleset \<Rightarrow> ('k, 's, 'x) world \<Rightarrow> mt_err \<times> mt_ruleset \<times> ('k, 's, 'x) world" where
  "mt_ruleset_on_addr_change D = ruleset_hook (mt_ipset_to_link_on_addr_change (rd_be D) (rd_netlink D))"

definition mt_ruleset_sync ::
  "('k, 's, 'x, 're) rs_deps \<Rightarrow> mt_cache \<Rightarrow> int \<Rightarrow> mt_ruleset \<Rightarrow> ('k, 's, 'x) world \<Rightarrow> (mt_err \<times> ('k, 's, 'x) world) option" where
  "mt_ruleset_sync D c now rs w =
    (if \<not> rs_enabled rs \<or> \<not> configured_enabled rs then Some (MT_OK, w)
     else case rs_ipset rs of
       None \<Rightarrow> None
     | Some ips \<Rightarrow>
         (case ruleset_sync_sets (rd_pcre D) (rd_inet D) (rd_sets D) (rs_group rs) ips c now (w_sets w) of
            None \<Rightarrow> None
          | Some (err, s) \<Rightarrow> Some (err, w\<lparr>w_sets := s\<rparr>)))"

section \<open>The runtime state follows the flags\<close>

definition rs_inv :: "mt_ruleset \<Rightarrow> bool" where
  "rs_inv rs \<longleftrightarrow>
    (if rs_enabled rs \<and> configured_enabled rs
     then (\<exists>ips l. rs_ipset rs = Some ips \<and> ipset_on ips \<and> rs_link rs = Some l \<and> il_enabled l)
     else rs_ipset rs = None \<and> rs_link rs = None)"

lemma rs_inv_new: "rs_inv (mt_ruleset_new g)"
  by (simp add: rs_inv_def mt_ruleset_new_def)

lemma disable_off:
  assumes "rs_inv rs \<or> rs_enabled rs \<and> configured_enabled rs" "mt_ruleset_disable D rs w = (err, rs', w')"
  shows "rs' = mt_ruleset_new (rs_group rs)"
  using assms
  by (cases rs) (auto simp: mt_ruleset_disable_def mt_ruleset_new_def rs_inv_def configured_enabled_def Let_def
      split: if_splits prod.splits)

lemma ipset_enable_on: "mt_ipset_enable N r s = (MT_OK, r', s') \<Longrightarrow> ipset_on r'"
  by (auto simp: mt_ipset_enable_def split: if_splits prod.splits)

lemma link_enable_on: "mt_ipset_to_link_enable be K commit ips l w = (MT_OK, l', w') \<Longrightarrow> il_enabled l'"
  by (auto simp: mt_ipset_to_link_enable_def split: if_splits prod.splits)

lemma enable_locked_result:
  assumes "rs_inv rs" "ruleset_enable_locked D rs w = (err, rs', w')"
  shows "rs_group rs' = rs_group rs \<and> rs_enabled rs' \<and> (err = MT_OK \<longrightarrow> rs_inv rs') \<and> (err \<noteq> MT_OK \<longrightarrow> configured_enabled rs')"
proof (cases "rs_enabled rs \<or> \<not> configured_enabled rs")
  case True
  then show ?thesis
    using assms by (auto simp: ruleset_enable_locked_def rs_inv_def configured_enabled_def split: if_splits)
next
  case False
  then show ?thesis
    using assms
    by (auto simp: ruleset_enable_locked_def rs_inv_def configured_enabled_def Let_def split: if_splits prod.splits
        dest: ipset_enable_on link_enable_on)
qed

lemma enable_result:
  assumes "rs_inv rs" "mt_ruleset_enable D rs w = (err, rs', w')"
  shows "rs_inv rs' \<and> rs_group rs' = rs_group rs \<and> (if err = MT_OK then rs_enabled rs' else rs' = mt_ruleset_new (rs_group rs))"
proof -
  obtain err1 rs1 w1 where e: "ruleset_enable_locked D rs w = (err1, rs1, w1)" by (rule prod_cases3)
  note r = enable_locked_result [OF assms(1) e]
  obtain err2 rs2 w2 where d: "mt_ruleset_disable D rs1 w1 = (err2, rs2, w2)" by (rule prod_cases3)
  show ?thesis
  proof (cases "err1 = MT_OK")
    case True
    then show ?thesis using assms(2) r by (simp add: mt_ruleset_enable_def e)
  next
    case False
    then have "rs2 = mt_ruleset_new (rs_group rs)"
      using disable_off [OF _ d] r by simp
    then show ?thesis
      using False assms(2) d rs_inv_new [of "rs_group rs"] by (auto simp: mt_ruleset_enable_def e mt_ruleset_new_def)
  qed
qed

text \<open>The hooks leave the flag of the link alone.\<close>

definition keeps_on :: "'s link_op \<Rightarrow> bool" where
  "keeps_on f \<longleftrightarrow> (\<forall>l r. il_enabled (fst (snd (f l r))) = il_enabled l)"

lemma il_enabled_upd [simp]: "il_enabled (upd_fam family h l) = il_enabled l"
  by (simp add: upd_fam_def split: inet_family.split)

lemma keeps_on_fams: "(\<And>fam. keeps_on (f fam)) \<Longrightarrow> keeps_on (fams_op has4 has6 f)"
  unfolding keeps_on_def fams_op_def by (auto split: prod.split) (metis fst_conv snd_conv)+

lemma keeps_on_update: "keeps_on (update_iface_route be K i p fam)"
  unfolding keeps_on_def update_iface_route_def by (simp add: Let_def split_beta)

lemma keeps_on_blackhole: "keeps_on (insert_blackhole_fam K fam)"
  unfolding keeps_on_def insert_blackhole_fam_def by (simp add: split_beta)

lemma keeps_on_insert_route: "keeps_on (insert_ip_route be K has4 has6)"
  using keeps_on_fams [of "insert_blackhole_fam K" has4 has6, OF keeps_on_blackhole]
    keeps_on_fams [of "update_iface_route be K i p" has4 has6 for i p, OF keeps_on_update]
  unfolding keeps_on_def insert_ip_route_def by (simp add: split_beta split: option.split)

lemma keeps_on_addr_change: "keeps_on (addr_change_route be K has4 has6)"
  using keeps_on_fams [of "update_iface_route be K i p" has4 has6 for i p, OF keeps_on_update]
  unfolding keeps_on_def addr_change_route_def by (simp add: split_beta split: option.split)

lemma hook_result:
  assumes "rs_inv rs" "\<And>l n. il_enabled (fst (snd (f l n))) = il_enabled l" "ruleset_hook f rs w = (err, rs', w')"
  shows "rs_inv rs' \<and> rs_group rs' = rs_group rs \<and> rs_enabled rs' = rs_enabled rs"
proof (cases "rs_enabled rs \<and> configured_enabled rs")
  case True
  then obtain ips l where s: "rs_ipset rs = Some ips" "ipset_on ips" "rs_link rs = Some l" "il_enabled l"
    using assms(1) by (auto simp: rs_inv_def)
  obtain e l' n where f: "f l (w_net w) = (e, l', n)" by (rule prod_cases3)
  then have "il_enabled l'" using assms(2) [of l "w_net w"] s(4) by simp
  then show ?thesis
    using assms(3) True s f by (auto simp: ruleset_hook_def rs_inv_def configured_enabled_def)
qed (use assms in \<open>auto simp: ruleset_hook_def\<close>)

lemma hooks_on:
  "il_enabled (fst (snd (mt_ipset_to_link_on_link_up be K l w))) = il_enabled l"
  "il_enabled (fst (snd (mt_ipset_to_link_on_addr_change be K l w))) = il_enabled l"
  using keeps_on_insert_route [of be K "nw_ipt4 w \<noteq> None" "nw_ipt6 w \<noteq> None"]
    keeps_on_addr_change [of be K "nw_ipt4 w \<noteq> None" "nw_ipt6 w \<noteq> None"]
  by (simp_all add: mt_ipset_to_link_on_link_up_def mt_ipset_to_link_on_addr_change_def on_rtnl_def split_beta keeps_on_def
      del: not_None_eq)

lemma hooks_result:
  assumes "rs_inv rs"
  shows "mt_ruleset_on_link_up D rs w = (err, rs', w') \<Longrightarrow>
      rs_inv rs' \<and> rs_group rs' = rs_group rs \<and> rs_enabled rs' = rs_enabled rs"
    and "mt_ruleset_on_addr_change D rs w = (err, rs', w') \<Longrightarrow>
      rs_inv rs' \<and> rs_group rs' = rs_group rs \<and> rs_enabled rs' = rs_enabled rs"
  unfolding mt_ruleset_on_link_up_def mt_ruleset_on_addr_change_def
  by (erule hook_result [OF assms, rotated], rule hooks_on)+

text \<open>
  The operations of the other components on a rule set, in any order.  Any field of the group is edited while the
  rule set is off (\<^verbatim>\<open>handle_put_group\<close> disables it first); the rules of the group are edited at any time
  (\<^verbatim>\<open>handle_put_rules\<close>, \<^verbatim>\<open>handle_create_rule\<close>, \<^verbatim>\<open>handle_put_rule\<close>, \<^verbatim>\<open>handle_delete_rule\<close> of \<^verbatim>\<open>groups.c\<close>).
\<close>

inductive rs_step ::
  "('k, 's, 'x, 're) rs_deps \<Rightarrow> mt_ruleset \<times> ('k, 's, 'x) world \<Rightarrow> mt_ruleset \<times> ('k, 's, 'x) world \<Rightarrow> bool" for D where
  "mt_ruleset_enable D rs w = (err, rs', w') \<Longrightarrow> rs_step D (rs, w) (rs', w')"
| "mt_ruleset_disable D rs w = (err, rs', w') \<Longrightarrow> rs_step D (rs, w) (rs', w')"
| "mt_ruleset_on_link_up D rs w = (err, rs', w') \<Longrightarrow> rs_step D (rs, w) (rs', w')"
| "mt_ruleset_on_addr_change D rs w = (err, rs', w') \<Longrightarrow> rs_step D (rs, w) (rs', w')"
| "mt_ruleset_prepare_iptables rs w = Some (err, w') \<Longrightarrow> rs_step D (rs, w) (rs, w')"
| "mt_ruleset_add_ipv4 D rs subnet ttl w = Some (err, w') \<Longrightarrow> rs_step D (rs, w) (rs, w')"
| "mt_ruleset_add_ipv6 D rs subnet ttl w = Some (err, w') \<Longrightarrow> rs_step D (rs, w) (rs, w')"
| "mt_ruleset_sync D c now rs w = Some (err, w') \<Longrightarrow> rs_step D (rs, w) (rs, w')"
| "\<not> rs_enabled rs \<Longrightarrow> rs_step D (rs, w) (rs\<lparr>rs_group := g\<rparr>, w)"
| "rs_step D (rs, w) (rs\<lparr>rs_group := (rs_group rs)\<lparr>group_rules := rules\<rparr>\<rparr>, w)"

lemma rs_step_inv: "rs_step D x y \<Longrightarrow> rs_inv (fst x) \<Longrightarrow> rs_inv (fst y)"
proof (induction rule: rs_step.induct)
  case (1 rs w err rs' w')
  then show ?case using enable_result [of rs D w err rs' w'] by simp
next
  case (2 rs w err rs' w')
  then show ?case using disable_off [of rs D w err rs' w'] by (simp add: rs_inv_new)
next
  case (3 rs w err rs' w')
  then show ?case using hooks_result(1) [of rs D w err rs' w'] by simp
next
  case (4 rs w err rs' w')
  then show ?case using hooks_result(2) [of rs D w err rs' w'] by simp
qed (auto simp: rs_inv_def configured_enabled_def split: if_splits)

interpretation rs_life: invariant_system "\<lambda>(rs, w). \<exists>g. rs = mt_ruleset_new g" "rs_step D" "\<lambda>(rs, w). rs_inv rs" for D
  by unfold_locales (auto simp: rs_inv_new dest: rs_step_inv)

text \<open>
  C21.  A rule set that is used the way the program uses it never touches a set or a link that is not there:
  in every state that its operations reach (in any order, with any answers from the kernel and any failing
  commits, the rules of its group being edited at any time and its other fields while the rule set is off), a rule set that is enabled and whose group is
  enabled has its pair of sets and its link, both switched on, and every other rule set has neither; so additions
  from the DNS path and the staging of chains find what they need, and a synchronisation can only fail that way
  on a rule without a type or a text.
\<close>

theorem ruleset_never_null:
  assumes "reachable (\<lambda>(rs, w). \<exists>g. rs = mt_ruleset_new g) (rs_step D) (rs, w)"
  shows "(if rs_enabled rs \<and> group_enable (rs_group rs)
      then \<exists>ips l. rs_ipset rs = Some ips \<and> ipset_on ips \<and> rs_link rs = Some l \<and> il_enabled l
      else rs_ipset rs = None \<and> rs_link rs = None) \<and>
    mt_ruleset_add_ipv4 D rs subnet ttl w \<noteq> None \<and> mt_ruleset_add_ipv6 D rs subnet ttl w \<noteq> None \<and>
    mt_ruleset_prepare_iptables rs w \<noteq> None \<and>
    (mt_ruleset_sync D c now rs w = None \<longrightarrow> sync_build_new_lists (rd_pcre D) (rd_inet D) (rs_group rs) c now = None)"
proof -
  have inv: "rs_inv rs"
    using rs_life.reachable_inv [OF assms] by simp
  then have "mt_ruleset_add_ipv4 D rs subnet ttl w \<noteq> None" "mt_ruleset_add_ipv6 D rs subnet ttl w \<noteq> None"
    "mt_ruleset_prepare_iptables rs w \<noteq> None"
    by (auto simp: mt_ruleset_add_ipv4_def mt_ruleset_add_ipv6_def mt_ruleset_prepare_iptables_def rs_inv_def split: prod.splits)
  moreover have "mt_ruleset_sync D c now rs w = None \<longrightarrow>
      sync_build_new_lists (rd_pcre D) (rd_inet D) (rs_group rs) c now = None"
    using inv by (auto simp: mt_ruleset_sync_def ruleset_sync_sets_def rs_inv_def split: option.splits prod.splits)
  ultimately show ?thesis using inv unfolding rs_inv_def configured_enabled_def by blast
qed

definition ex_deps :: "'re pcre2 \<Rightarrow> (fake_set list, unit, unit, 're) rs_deps" where
  "ex_deps P = \<lparr>rd_be = False, rd_netlink = ex_netlink, rd_commit = \<lambda>ipt x. (MT_OK, x), rd_sets = fake_ipset_nl, rd_pcre = P,
     rd_inet = \<lparr>pton4 = \<lambda>s. None, pton6 = \<lambda>s. None\<rparr>, rd_ipset_prefix = ''mt_'', rd_chain_prefix = ''MT_'', rd_start_idx = 100\<rparr>"

definition ex_world :: "(fake_set list, unit, unit) world" where
  "ex_world = \<lparr>w_sets = [], w_net = \<lparr>nw_rtnl = \<lparr>rt_sock = (), rt_seq = 0\<rparr>, nw_ipt4 = Some (ex_base, ()), nw_ipt6 = None\<rparr>\<rparr>"

definition ex_on_group :: mt_group where
  "ex_on_group = mt_group_new\<lparr>group_id := MtId 0xde 0xad 0xbe 0xef, group_iface := Some ''nwg0'', group_enable := True\<rparr>"

lemma ex_enable:
  "case mt_ruleset_enable (ex_deps P) (mt_ruleset_new ex_on_group) ex_world of (err, rs, w) \<Rightarrow>
     err = MT_OK \<and> map_option name4 (rs_ipset rs) = Some ''mt_deadbeef_4''"
  by code_simp

theorem ruleset_never_null_witness:
  "\<exists>rs w ips. mt_ruleset_enable (ex_deps literal_pcre2) (mt_ruleset_new ex_on_group) ex_world = (MT_OK, rs, w) \<and>
    rs_ipset rs = Some ips \<and> ipset_on ips \<and> mt_ruleset_add_ipv4 (ex_deps literal_pcre2) rs ([1, 2, 3, 4], 32) (Some 60) w \<noteq> None"
proof -
  obtain err rs w where e: "mt_ruleset_enable (ex_deps literal_pcre2) (mt_ruleset_new ex_on_group) ex_world = (err, rs, w)"
    by (rule prod_cases3)
  then have ok: "err = MT_OK" "rs_ipset rs \<noteq> None"
    using ex_enable [of literal_pcre2] by auto
  have "reachable (\<lambda>(rs, w). \<exists>g. rs = mt_ruleset_new g) (rs_step (ex_deps literal_pcre2)) (mt_ruleset_new ex_on_group, ex_world)"
    by (rule reach_init) auto
  then have "reachable (\<lambda>(rs, w). \<exists>g. rs = mt_ruleset_new g) (rs_step (ex_deps literal_pcre2)) (rs, w)"
    using e by (blast intro: reach_step rs_step.intros)
  note safe = ruleset_never_null [OF this, of "([1, 2, 3, 4], 32)" "Some 60" ex_cache 0]
  then show ?thesis
    using e ok by (auto split: if_splits)
qed

end
