(* ===== verification/Subparse.thy ===== *)
theory Subparse
  imports Models C_Text "HOL-Library.AList" "HOL-Library.Multiset"
begin

text \<open>
  \<^verbatim>\<open>src/subscriptions/subparse.c\<close>: the text of a subscription becomes rules, the rules of a new download take over
  identity and state from the rules they replace, and two lists of rules are compared.

  PCRE2 is a parameter, the test whether a pattern compiles.  The random identifiers are an argument, the list of
  what \<^verbatim>\<open>mt_id_random\<close> returns; \<open>None\<close> as a result says that the list ended while an unused identifier was still
  being drawn.
\<close>

section \<open>Which type a pattern has\<close>

definition plain_char :: "char \<Rightarrow> bool" where
  "plain_char c \<longleftrightarrow> c \<in> set ''abcdefghijklmnopqrstuvwxyzABCDEFGHIJKLMNOPQRSTUVWXYZ0123456789-.''"

definition all_chars_in :: "string \<Rightarrow> string \<Rightarrow> bool" where
  "all_chars_in s extra \<longleftrightarrow> list_all (\<lambda>c. plain_char c \<or> c \<in> set extra) s"

fun has_pair :: "char \<Rightarrow> string \<Rightarrow> bool" where
  "has_pair x (a # b # s) \<longleftrightarrow> a = x \<and> b = x \<or> has_pair x (b # s)"
| "has_pair x _ \<longleftrightarrow> False"

definition is_valid_domain :: "string \<Rightarrow> bool" where
  "is_valid_domain p \<longleftrightarrow>
    (if p = [] then False
     else if hd p = CHR ''.'' \<or> last p = CHR ''.'' then False
     else if has_pair (CHR ''.'') p then False
     else all_chars_in p [])"

definition is_valid_wildcard :: "string \<Rightarrow> bool" where
  "is_valid_wildcard p \<longleftrightarrow>
    (if p = [] then False
     else if hd p = CHR ''.'' \<or> last p = CHR ''.'' then False
     else if has_pair (CHR ''.'') p \<or> has_pair (CHR ''*'') p then False
     else all_chars_in p ''*?'')"

text \<open>
  \<^verbatim>\<open>parse_dec\<close>: the loop over the digits, with the accumulator; \<open>-1\<close> for anything else.  The accumulator is an
  \<^verbatim>\<open>int\<close> of 32 bits, and its bound is checked only after the multiplication, which can overflow: C leaves the
  result undefined then, and the model takes the one in two's complement.  \<open>dec_overflows\<close> says when that happens.
\<close>

definition wrap32 :: "int \<Rightarrow> int" where
  "wrap32 n = (n + 2147483648) mod 4294967296 - 2147483648"

fun parse_dec_loop :: "int \<Rightarrow> string \<Rightarrow> int" where
  "parse_dec_loop n [] = n"
| "parse_dec_loop n (c # s) =
    (if \<not> is_digit c then -1
     else let n = wrap32 (n * 10 + (of_char c - 48)) in if n > 999999999 then -1 else parse_dec_loop n s)"

fun dec_overflows :: "int \<Rightarrow> string \<Rightarrow> bool" where
  "dec_overflows n [] = False"
| "dec_overflows n (c # s) =
    (if \<not> is_digit c then False
     else let n = n * 10 + (of_char c - 48)
          in if n > 2147483647 then True else if n > 999999999 then False else dec_overflows n s)"

definition parse_dec :: "string \<Rightarrow> int" where
  "parse_dec s = (if s = [] then -1 else parse_dec_loop 0 s)"

text \<open>One run of digits, with bounds on its length and its value; the rest of the string.\<close>

definition digit_run :: "nat \<Rightarrow> int \<Rightarrow> string \<Rightarrow> string option" where
  "digit_run maxlen maxval s =
    (let ds = takeWhile is_digit s; v = parse_dec ds
     in if length ds < 1 \<or> length ds > maxlen then None
        else if v < 0 \<or> v > maxval then None
        else Some (dropWhile is_digit s))"

fun octets :: "nat \<Rightarrow> string \<Rightarrow> string option" where
  "octets 0 s = Some s"
| "octets (Suc k) s =
    (case digit_run 3 255 s of
       None \<Rightarrow> None
     | Some r \<Rightarrow> if k = 0 then Some r else (case r of c # r \<Rightarrow> if c = CHR ''.'' then octets k r else None | [] \<Rightarrow> None))"

definition is_valid_subnet :: "string \<Rightarrow> bool" where
  "is_valid_subnet p \<longleftrightarrow>
    (case octets 4 p of
       None \<Rightarrow> False
     | Some s \<Rightarrow>
         (case s of c # r \<Rightarrow> if c = CHR ''/'' then digit_run 2 32 r = Some [] else False | [] \<Rightarrow> True))"

definition is_valid_ipv6_chars :: "string \<Rightarrow> bool" where
  "is_valid_ipv6_chars ip \<longleftrightarrow> CHR '':'' \<in> set ip \<and> list_all (\<lambda>c. c \<in> set ''0123456789abcdefABCDEF:'') ip"

definition is_valid_subnet6 :: "string \<Rightarrow> bool" where
  "is_valid_subnet6 p \<longleftrightarrow>
    (case dropWhile (\<lambda>c. c \<noteq> CHR ''/'') p of
       [] \<Rightarrow> is_valid_ipv6_chars p
     | _ # after \<Rightarrow>
         let head = takeWhile (\<lambda>c. c \<noteq> CHR ''/'') p; prefix = parse_dec after
         in if CHR ''/'' \<in> set after then False
            else if prefix < 0 \<or> prefix > 128 then False
            else if length head \<ge> 256 then False
            else is_valid_ipv6_chars head)"

text \<open>The texts on which the detection of the type overflows: the prefix length after the only slash.\<close>

definition prefix_overflows :: "string \<Rightarrow> bool" where
  "prefix_overflows p \<longleftrightarrow>
    (case dropWhile (\<lambda>c. c \<noteq> CHR ''/'') p of
       [] \<Rightarrow> False
     | _ # after \<Rightarrow> CHR ''/'' \<notin> set after \<and> dec_overflows 0 after)"

definition mt_sub_detect_type :: "(string \<Rightarrow> bool) \<Rightarrow> string \<Rightarrow> string" where
  "mt_sub_detect_type is_valid_regex p =
    (if is_valid_subnet6 p then ''subnet6''
     else if is_valid_subnet p then ''subnet''
     else if is_valid_domain p then ''namespace''
     else if is_valid_regex p then ''regex''
     else if is_valid_wildcard p then ''wildcard''
     else [])"

lemma wrap32_same: "- 2147483648 \<le> n \<Longrightarrow> n \<le> 2147483647 \<Longrightarrow> wrap32 n = n"
  by (simp add: wrap32_def)

text \<open>
  Without an overflow the value of the digits is read when it has at most nine digits, and \<open>-1\<close> otherwise; with one, a
  prefix length of ten digits can be accepted.
\<close>

definition digits_value :: "int \<Rightarrow> string \<Rightarrow> int" where
  "digits_value n s = foldl (\<lambda>n c. n * 10 + (of_char c - 48)) n s"

lemma digit_of_char: "is_digit c \<Longrightarrow> 0 \<le> (of_char c - 48 :: int) \<and> (of_char c - 48 :: int) \<le> 9"
proof -
  have "(of_char c :: int) = int (of_char c)" by (simp add: of_nat_of_char)
  then show "is_digit c \<Longrightarrow> ?thesis" unfolding is_digit_def by linarith
qed

lemma digits_value_mono: "0 \<le> n \<Longrightarrow> list_all is_digit s \<Longrightarrow> n \<le> digits_value n s"
proof (induction s arbitrary: n)
  case (Cons c s)
  then have "n \<le> n * 10 + (of_char c - 48)" "0 \<le> n * 10 + (of_char c - 48)"
    using digit_of_char [of c] by auto
  with Cons.IH [of "n * 10 + (of_char c - 48)"] Cons.prems show ?case by (simp add: digits_value_def)
qed (simp add: digits_value_def)

lemma parse_dec_loop_value:
  assumes "0 \<le> n" "n \<le> 999999999" "\<not> dec_overflows n s"
  shows "parse_dec_loop n s =
    (if list_all is_digit s \<and> digits_value n s \<le> 999999999 then digits_value n s else -1)"
  using assms
proof (induction s arbitrary: n)
  case (Cons c s)
  define m where "m = n * 10 + (of_char c - 48)"
  show ?case
  proof (cases "is_digit c")
    case True
    have m: "0 \<le> m" "m \<le> 2147483647" using True Cons.prems digit_of_char [OF True] by (auto simp: m_def Let_def split: if_splits)
    then have w: "wrap32 m = m" by (intro wrap32_same) auto
    show ?thesis
    proof (cases "m \<le> 999999999")
      case le: True
      then have "\<not> dec_overflows m s" using Cons.prems(3) True m by (simp add: m_def Let_def)
      from Cons.IH [OF m(1) le this] True le w show ?thesis by (simp add: m_def [symmetric] Let_def digits_value_def)
    next
      case False
      then show ?thesis using True w digits_value_mono [OF m(1), of s] by (auto simp: m_def [symmetric] Let_def digits_value_def)
    qed
  qed simp
qed (simp add: digits_value_def)

lemma detect_type_overflow: "mt_sub_detect_type re ''::/4294967296'' = ''subnet6''"
proof -
  have "is_valid_subnet6 ''::/4294967296''" by code_simp
  then show ?thesis by (simp add: mt_sub_detect_type_def)
qed

section \<open>Tokens\<close>

definition is_delim :: "char \<Rightarrow> bool" where
  "is_delim c \<longleftrightarrow> c = CHR 0x0A \<or> c = CHR 0x0D \<or> c = CHR '',''"

text \<open>The successive results of \<^verbatim>\<open>strtok_r\<close>.\<close>

function strtok_all :: "string \<Rightarrow> string list" where
  "strtok_all s =
    (let r = dropWhile is_delim s
     in if r = [] then [] else takeWhile (Not \<circ> is_delim) r # strtok_all (dropWhile (Not \<circ> is_delim) r))"
  by pat_completeness auto
termination
proof (relation "measure length", goal_cases)
  case (2 s r)
  then obtain c t where r: "r = c # t" by (meson neq_Nil_conv)
  then have "\<not> is_delim c" using 2(1) by (metis hd_dropWhile list.distinct(1) list.sel(1))
  then have "length (dropWhile (Not \<circ> is_delim) r) < length r"
    using length_dropWhile_le [of "Not \<circ> is_delim" t] by (simp add: r less_Suc_eq_le)
  moreover have "length r \<le> length s" using 2(1) length_dropWhile_le by simp
  ultimately show ?case by simp
qed simp

declare strtok_all.simps [simp del]

definition trim :: "string \<Rightarrow> string" where
  "trim s = rev (dropWhile c_isspace (rev (dropWhile c_isspace s)))"

text \<open>A token that counts: not empty and no comment once it is trimmed.\<close>

definition is_entry :: "string \<Rightarrow> bool" where
  "is_entry line \<longleftrightarrow> \<not> (line = [] \<or> hd line = CHR ''#'')"

section \<open>Identifiers\<close>

fun next_unique_id :: "mt_id list \<Rightarrow> mt_id list \<Rightarrow> (mt_id \<times> mt_id list \<times> mt_id list) option" where
  "next_unique_id used [] = None"
| "next_unique_id used (d # ds) = (if d \<in> set used then next_unique_id used ds else Some (d, used @ [d], ds))"

section \<open>Parsing\<close>

definition rule_key :: "string \<Rightarrow> string \<Rightarrow> string" where
  "rule_key type text = type @ ''|'' @ text"

definition rules_push :: "mt_sub_rule \<Rightarrow> mt_sub_rule parr \<Rightarrow> mt_sub_rule parr" where
  "rules_push r a =
    \<lparr>items = items a @ [r],
     cap = (if length (items a) = cap a then (if cap a = 0 then 16 else cap a * 2) else cap a)\<rparr>"

fun parse_loop ::
  "(string \<Rightarrow> bool) \<Rightarrow> string list \<Rightarrow> string list \<Rightarrow> mt_id list \<Rightarrow> mt_sub_rule parr \<Rightarrow> mt_id list
    \<Rightarrow> (mt_sub_rule parr \<times> mt_id list) option" where
  "parse_loop re [] seen used rules draws = Some (rules, draws)"
| "parse_loop re (tok # toks) seen used rules draws =
    (let line = trim tok
     in if \<not> is_entry line then parse_loop re toks seen used rules draws
        else let type = mt_sub_detect_type re line; key = rule_key type line
        in if key \<in> set seen then parse_loop re toks seen used rules draws
           else case next_unique_id used draws of
                  None \<Rightarrow> None
                | Some (i, used, draws) \<Rightarrow>
                    parse_loop re toks (key # seen) used
                      (rules_push \<lparr>sub_rule_id = i, sub_rule_rule = Some line, sub_rule_type = Some type,
                         sub_rule_enable = True\<rparr> rules) draws)"

definition mt_sub_parse_rules ::
  "(string \<Rightarrow> bool) \<Rightarrow> string \<Rightarrow> mt_id list \<Rightarrow> (mt_sub_rule parr \<times> mt_id list) option" where
  "mt_sub_parse_rules re lst draws = parse_loop re (strtok_all lst) [] [] parr_null draws"

section \<open>Refreshing\<close>

text \<open>The arrays of C may hold null pointers; \<open>None\<close> is one.\<close>

definition find_current :: "mt_sub_rule option list \<Rightarrow> mt_sub_rule \<Rightarrow> mt_sub_rule option" where
  "find_current existing rule =
    (case List.find (\<lambda>e. case e of None \<Rightarrow> False
         | Some e \<Rightarrow> sub_rule_rule e \<noteq> None \<and> sub_rule_rule e \<noteq> Some [] \<and> sub_rule_rule e = sub_rule_rule rule) existing of
       None \<Rightarrow> None | Some e \<Rightarrow> e)"

definition inherit :: "mt_sub_rule option list \<Rightarrow> mt_sub_rule \<Rightarrow> mt_sub_rule" where
  "inherit existing rule =
    (case find_current existing rule of
       None \<Rightarrow> rule
     | Some e \<Rightarrow> rule\<lparr>sub_rule_id := sub_rule_id e, sub_rule_enable := sub_rule_enable e,
         sub_rule_type := (if sub_rule_type e \<noteq> None \<and> sub_rule_type e \<noteq> Some [] then sub_rule_type e
                           else sub_rule_type rule)\<rparr>)"

fun refresh_loop ::
  "mt_sub_rule option list \<Rightarrow> mt_sub_rule list \<Rightarrow> mt_id list \<Rightarrow> mt_id list \<Rightarrow> (mt_sub_rule list \<times> mt_id list) option" where
  "refresh_loop existing [] used draws = Some ([], draws)"
| "refresh_loop existing (rule # rules) used draws =
    (let rule = inherit existing rule
     in if mt_id_is_zero (sub_rule_id rule) \<or> sub_rule_id rule \<in> set used
        then (case next_unique_id used draws of
                None \<Rightarrow> None
              | Some (i, used, draws) \<Rightarrow>
                  map_option (\<lambda>(rs, draws). (rule\<lparr>sub_rule_id := i\<rparr> # rs, draws)) (refresh_loop existing rules used draws))
        else map_option (\<lambda>(rs, draws). (rule # rs, draws))
               (refresh_loop existing rules (used @ [sub_rule_id rule]) draws))"

definition mt_sub_refresh_rules ::
  "(string \<Rightarrow> bool) \<Rightarrow> string \<Rightarrow> mt_sub_rule option list \<Rightarrow> mt_id list \<Rightarrow> (mt_sub_rule parr \<times> mt_id list) option" where
  "mt_sub_refresh_rules re lst existing draws =
    (case mt_sub_parse_rules re lst draws of
       None \<Rightarrow> None
     | Some (parsed, draws) \<Rightarrow>
         if items parsed = [] then Some (parsed, draws)
         else map_option (\<lambda>(rs, draws). (parsed\<lparr>items := rs\<rparr>, draws)) (refresh_loop existing (items parsed) [] draws))"

section \<open>Comparison\<close>

definition same_rules_key :: "(string \<Rightarrow> bool) \<Rightarrow> mt_sub_rule \<Rightarrow> string" where
  "same_rules_key re rule =
    (let text = (case sub_rule_rule rule of None \<Rightarrow> [] | Some t \<Rightarrow> t);
         type = (case sub_rule_type rule of None \<Rightarrow> mt_sub_detect_type re text
                 | Some t \<Rightarrow> if t = [] then mt_sub_detect_type re text else t)
     in rule_key type text)"

type_synonym rule_state = "string \<times> mt_id \<times> bool \<times> nat"

fun count_left ::
  "(string \<Rightarrow> bool) \<Rightarrow> rule_state list \<Rightarrow> nat \<Rightarrow> mt_sub_rule option list \<Rightarrow> (rule_state list \<times> nat) option" where
  "count_left re states nils [] = Some (states, nils)"
| "count_left re states nils (None # rs) = count_left re states (nils + 1) rs"
| "count_left re states nils (Some r # rs) =
    (let key = same_rules_key re r
     in case map_of states key of
          Some (i, e, n) \<Rightarrow>
            if n > 0 \<and> (i \<noteq> sub_rule_id r \<or> e \<noteq> sub_rule_enable r) then None
            else count_left re (AList.update key (sub_rule_id r, sub_rule_enable r, n + 1) states) nils rs
        | None \<Rightarrow> count_left re ((key, sub_rule_id r, sub_rule_enable r, 1) # states) nils rs)"

fun count_right ::
  "(string \<Rightarrow> bool) \<Rightarrow> rule_state list \<Rightarrow> nat \<Rightarrow> mt_sub_rule option list \<Rightarrow> (rule_state list \<times> nat) option" where
  "count_right re states nils [] = Some (states, nils)"
| "count_right re states nils (None # rs) = count_right re states (nils + 1) rs"
| "count_right re states nils (Some r # rs) =
    (let key = same_rules_key re r
     in case map_of states key of
          None \<Rightarrow> None
        | Some (i, e, n) \<Rightarrow>
            if n = 0 then None
            else if i \<noteq> sub_rule_id r \<or> e \<noteq> sub_rule_enable r then None
            else count_right re (AList.update key (i, e, n - 1) states) nils rs)"

definition mt_sub_same_rules ::
  "(string \<Rightarrow> bool) \<Rightarrow> mt_sub_rule option list \<Rightarrow> mt_sub_rule option list \<Rightarrow> bool" where
  "mt_sub_same_rules re left right \<longleftrightarrow>
    (if length left \<noteq> length right then False
     else if left = [] then True
     else case count_left re [] 0 left of
       None \<Rightarrow> False
     | Some (states, left_nil) \<Rightarrow>
         (case count_right re states 0 right of
            None \<Rightarrow> False
          | Some (states, right_nil) \<Rightarrow> list_all (\<lambda>(_, _, _, n). n = 0) states \<and> left_nil = right_nil))"

section \<open>Due for a download\<close>

definition mt_sub_is_due :: "mt_subscription option \<Rightarrow> int \<Rightarrow> bool" where
  "mt_sub_is_due sub now_unix \<longleftrightarrow>
    (case sub of
       None \<Rightarrow> False
     | Some s \<Rightarrow>
         if \<not> sub_enable s \<or> sub_url s = None \<or> sub_url s = Some [] \<or> sub_interval s = 0 then False
         else let last_check = (if sub_last_check s = 0 then sub_last_update s else sub_last_check s)
              in \<not> (last_check > 0 \<and>
                    (word_of_int now_unix :: u64) < ucast last_check + ucast (sub_interval s)))"

section \<open>The result of parsing\<close>

text \<open>
  The entries of a list: its tokens, trimmed, without empty ones and comments, each once.  This is what the
  parser is to deliver.
\<close>

fun dedup :: "'a list \<Rightarrow> 'a list \<Rightarrow> 'a list" where
  "dedup seen [] = []"
| "dedup seen (x # xs) = (if x \<in> set seen then dedup seen xs else x # dedup (x # seen) xs)"

definition entries :: "string \<Rightarrow> string list" where
  "entries lst = dedup [] (filter is_entry (map trim (strtok_all lst)))"

lemma dedup_props: "distinct (dedup seen xs) \<and> set (dedup seen xs) = set xs - set seen"
  by (induction seen xs rule: dedup.induct) auto

lemma detect_type_no_bar: "CHR ''|'' \<notin> set (mt_sub_detect_type re p)"
  by (simp add: mt_sub_detect_type_def)

lemma rule_key_inj:
  "CHR ''|'' \<notin> set t \<Longrightarrow> CHR ''|'' \<notin> set t' \<Longrightarrow> rule_key t x = rule_key t' x' \<Longrightarrow> t = t' \<and> x = x'"
  by (auto simp: rule_key_def append_eq_append_conv2 append_eq_Cons_conv Cons_eq_append_conv)

definition text_key :: "(string \<Rightarrow> bool) \<Rightarrow> string \<Rightarrow> string" where
  "text_key re x = rule_key (mt_sub_detect_type re x) x"

lemma text_key_eq [simp]: "text_key re x = text_key re y \<longleftrightarrow> x = y"
  using rule_key_inj [OF detect_type_no_bar detect_type_no_bar] by (auto simp: text_key_def)

lemma text_key_mem: "text_key re x \<in> text_key re ` A \<longleftrightarrow> x \<in> A"
  by (auto simp: image_iff)

lemma next_unique_id_props:
  assumes "next_unique_id used draws = Some (i, used', draws')"
  shows "i \<notin> set used \<and> i \<in> set draws \<and> used' = used @ [i] \<and> set draws' \<subseteq> set draws"
  using assms by (induction used draws rule: next_unique_id.induct) (auto split: if_splits)

text \<open>The capacity that the array has is enough for the growth by doubling of \<open>Models\<close>.\<close>

definition rules_cap :: "mt_sub_rule parr \<Rightarrow> bool" where
  "rules_cap a \<longleftrightarrow> (if items a = [] then cap a = 0 else length (items a) \<le> cap a \<and> (\<exists>k. cap a = 16 * 2 ^ k))"

lemma rules_push_cap: "rules_cap a \<Longrightarrow> rules_cap (rules_push r a)"
  by (auto simp: rules_cap_def rules_push_def intro: exI [of _ 0] exI [of _ "Suc k" for k] split: if_splits)

lemma parse_loop_props:
  assumes "parse_loop re toks seen used rules draws = Some (rules', draws')"
    and "seen = map (text_key re) texts" "distinct used" "used = map sub_rule_id (items rules)" "rules_cap rules"
  shows "\<exists>rs. items rules' = items rules @ rs \<and> rules_cap rules' \<and>
    map sub_rule_rule rs = map Some (dedup texts (filter is_entry (map trim toks))) \<and>
    map sub_rule_type rs = map (Some \<circ> mt_sub_detect_type re) (dedup texts (filter is_entry (map trim toks))) \<and>
    (\<forall>r \<in> set rs. sub_rule_enable r \<and> sub_rule_id r \<in> set draws) \<and> distinct (map sub_rule_id (items rules')) \<and>
    set draws' \<subseteq> set draws"
  using assms
proof (induction re toks seen used rules draws arbitrary: texts rule: parse_loop.induct)
  case (1 re seen used rules draws)
  then show ?case by simp
next
  case (2 re tok toks seen used rules draws)
  define line where "line = trim tok"
  show ?case
  proof (cases "is_entry line \<and> line \<notin> set texts")
    case False
    then have skip: "parse_loop re toks seen used rules draws = Some (rules', draws')"
      using 2(4,5) by (auto simp: line_def Let_def text_key_def [symmetric] text_key_mem split: if_splits)
    have "\<not> is_entry line \<or> text_key re line \<in> set seen"
      using False 2(5) by auto
    then show ?thesis
      using 2(1) [OF line_def _ skip 2(5-8)] 2(2) [OF line_def _ refl refl _ skip 2(5-8)] False
      by (auto simp: line_def text_key_def)
  next
    case True
    then obtain i used1 draws1 where i: "next_unique_id used draws = Some (i, used1, draws1)"
      using 2(4,5) by (auto simp: line_def Let_def text_key_def [symmetric] text_key_mem split: option.splits)
    define r where "r = \<lparr>sub_rule_id = i, sub_rule_rule = Some line, sub_rule_type = Some (mt_sub_detect_type re line),
      sub_rule_enable = True\<rparr>"
    have loop: "parse_loop re toks (text_key re line # seen) used1 (rules_push r rules) draws1 = Some (rules', draws')"
      using 2(4,5) True i by (simp add: line_def Let_def text_key_def [symmetric] text_key_mem r_def)
    note np = next_unique_id_props [OF i]
    have new: "\<not> rule_key (mt_sub_detect_type re line) line \<in> set seen" "\<not> \<not> is_entry line"
      using True 2(5) by (auto simp: text_key_def [symmetric] text_key_mem)
    have used1: "used1 = map sub_rule_id (items (rules_push r rules))" "distinct used1"
      using np 2(6,7) by (auto simp: rules_push_def r_def)
    have "\<exists>rs. items rules' = items (rules_push r rules) @ rs \<and> rules_cap rules' \<and>
      map sub_rule_rule rs = map Some (dedup (line # texts) (filter is_entry (map trim toks))) \<and>
      map sub_rule_type rs = map (Some \<circ> mt_sub_detect_type re) (dedup (line # texts) (filter is_entry (map trim toks))) \<and>
      (\<forall>r \<in> set rs. sub_rule_enable r \<and> sub_rule_id r \<in> set draws1) \<and> distinct (map sub_rule_id (items rules')) \<and>
      set draws' \<subseteq> set draws1"
      by (rule 2(3) [OF line_def new(2) refl refl new(1) i refl refl, folded r_def, of "line # texts"])
        (use loop used1 2(5) rules_push_cap [OF 2(8)] in \<open>simp_all add: text_key_def\<close>)
    then show ?thesis
      using True np by (auto simp: line_def [symmetric] r_def rules_push_def) (blast dest: subsetD)+
  qed
qed

lemma parse_rules_props:
  assumes "mt_sub_parse_rules re lst draws = Some (rules, draws')"
  shows "map sub_rule_rule (items rules) = map Some (entries lst) \<and>
    map sub_rule_type (items rules) = map (Some \<circ> mt_sub_detect_type re) (entries lst) \<and>
    (\<forall>r \<in> set (items rules). sub_rule_enable r \<and> sub_rule_id r \<in> set draws) \<and>
    distinct (map sub_rule_id (items rules)) \<and> set draws' \<subseteq> set draws \<and> rules_cap rules"
  using parse_loop_props [OF assms [unfolded mt_sub_parse_rules_def], of "[]"]
  by (auto simp: parr_null_def entries_def rules_cap_def)

section \<open>The result of refreshing\<close>

lemma inherit_text [simp]: "sub_rule_rule (inherit existing r) = sub_rule_rule r"
  by (simp add: inherit_def split: option.splits)

text \<open>What a rule of the new list is, apart from its identifier.\<close>

definition renewed :: "mt_sub_rule option list \<Rightarrow> mt_sub_rule \<Rightarrow> mt_sub_rule \<Rightarrow> bool" where
  "renewed existing p r \<longleftrightarrow> (\<exists>i. r = (inherit existing p)\<lparr>sub_rule_id := i\<rparr>)"

lemma refresh_loop_props:
  assumes "refresh_loop existing ps used draws = Some (rs, draws')"
  shows "list_all2 (renewed existing) ps rs \<and> distinct (map sub_rule_id rs) \<and>
    sub_rule_id ` set rs \<inter> set used = {} \<and> set draws' \<subseteq> set draws \<and>
    (list_all (Not \<circ> mt_id_is_zero) draws \<longrightarrow> list_all (Not \<circ> mt_id_is_zero \<circ> sub_rule_id) rs) \<and>
    (\<forall>k < length rs. \<not> mt_id_is_zero (sub_rule_id (inherit existing (ps ! k))) \<and>
        sub_rule_id (inherit existing (ps ! k)) \<notin> set used \<union> sub_rule_id ` set (take k rs)
       \<longrightarrow> sub_rule_id (rs ! k) = sub_rule_id (inherit existing (ps ! k)))"
  using assms
proof (induction existing ps used draws arbitrary: rs draws' rule: refresh_loop.induct)
  case (1 existing used draws)
  then show ?case by simp
next
  case (2 existing p ps used draws)
  define q where "q = inherit existing p"
  have keep: "renewed existing p q" by (auto simp: renewed_def q_def intro: exI [of _ "sub_rule_id q"])
  show ?case
  proof (cases "mt_id_is_zero (sub_rule_id q) \<or> sub_rule_id q \<in> set used")
    case True
    then obtain i used1 draws1 rs1 where i: "next_unique_id used draws = Some (i, used1, draws1)"
      and r: "refresh_loop existing ps used1 draws1 = Some (rs1, draws')" "rs = q\<lparr>sub_rule_id := i\<rparr> # rs1"
      using 2(3) by (auto simp: q_def Let_def split: option.splits)
    note np = next_unique_id_props [OF i]
    have "renewed existing p (q\<lparr>sub_rule_id := i\<rparr>)" by (auto simp: renewed_def q_def)
    then show ?thesis
      using 2(1) [OF q_def True i refl refl r(1)] np r(2) True
      by (auto simp: All_less_Suc2 q_def [symmetric] list_all_iff)
  next
    case False
    then obtain rs1 where r: "refresh_loop existing ps (used @ [sub_rule_id q]) draws = Some (rs1, draws')" "rs = q # rs1"
      using 2(3) by (auto simp: q_def Let_def split: option.splits)
    then show ?thesis
      using 2(2) [OF q_def False r(1)] keep False
      by (auto simp: All_less_Suc2 q_def [symmetric] list_all_iff)
  qed
qed

subsection \<open>Enough random identifiers\<close>

lemma next_unique_id_total:
  assumes "card (set draws - set used) > n"
  shows "\<exists>i draws'. next_unique_id used draws = Some (i, used @ [i], draws') \<and> card (set draws' - set (used @ [i])) \<ge> n"
  using assms
proof (induction used draws rule: next_unique_id.induct)
  case (2 used d ds)
  show ?case
  proof (cases "d \<in> set used")
    case True
    then show ?thesis using 2 by (simp add: insert_Diff_if)
  next
    case False
    have "set ds - set (used @ [d]) = (set (d # ds) - set used) - {d}" by auto
    then show ?thesis using False 2(2) by (simp add: card_Diff_singleton_if)
  qed
qed simp

lemma parse_loop_total:
  assumes "card (set draws - set used) \<ge> length (dedup texts (filter is_entry (map trim toks))) + m"
    and "seen = map (text_key re) texts"
  shows "\<exists>rules' draws'. parse_loop re toks seen used rules draws = Some (rules', draws') \<and> card (set draws') \<ge> m"
  using assms
proof (induction re toks seen used rules draws arbitrary: texts rule: parse_loop.induct)
  case (1 re seen used rules draws)
  moreover have "card (set draws - set used) \<le> card (set draws)" by (simp add: card_mono)
  ultimately show ?case by simp
next
  case (2 re tok toks seen used rules draws)
  define line where "line = trim tok"
  show ?case
  proof (cases "is_entry line")
    case False
    then show ?thesis using 2(1) [OF line_def] 2(4,5) by (simp add: line_def)
  next
    case entry: True
    define key where "key = rule_key (mt_sub_detect_type re line) line"
    have mem: "key \<in> set seen \<longleftrightarrow> line \<in> set texts"
      using 2(5) by (simp add: key_def text_key_def [symmetric] text_key_mem)
    show ?thesis
    proof (cases "key \<in> set seen")
      case True
      then show ?thesis
        using 2(2) [OF line_def _ refl key_def, of texts] 2(4,5) entry mem by (simp add: line_def key_def)
    next
      case False
      have c: "card (set draws - set used) > length (dedup (line # texts) (filter is_entry (map trim toks))) + m"
        using 2(4) entry False mem by (simp add: line_def)
      obtain i draws1 where i: "next_unique_id used draws = Some (i, used @ [i], draws1)"
        and d: "card (set draws1 - set (used @ [i])) \<ge> length (dedup (line # texts) (filter is_entry (map trim toks))) + m"
        using next_unique_id_total [OF c] by blast
      have "key # seen = map (text_key re) (line # texts)" using 2(5) by (simp add: key_def text_key_def)
      then show ?thesis
        using 2(3) [OF line_def _ refl key_def False i refl refl d] entry False i
        by (simp add: line_def [symmetric] key_def [symmetric] Let_def)
    qed
  qed
qed

lemma refresh_loop_total:
  assumes "card (set draws - set used) \<ge> length ps"
  shows "refresh_loop existing ps used draws \<noteq> None"
  using assms
proof (induction existing ps used draws rule: refresh_loop.induct)
  case (2 existing p ps used draws)
  define q where "q = inherit existing p"
  show ?case
  proof (cases "mt_id_is_zero (sub_rule_id q) \<or> sub_rule_id q \<in> set used")
    case True
    obtain i draws1 where i: "next_unique_id used draws = Some (i, used @ [i], draws1)"
        "card (set draws1 - set (used @ [i])) \<ge> length ps"
      using next_unique_id_total [of "length ps" draws used] 2(3) by auto
    then show ?thesis
      using 2(1) [OF q_def True i(1) refl refl i(2)] True by (auto simp: q_def [symmetric] Let_def)
  next
    case False
    have "set draws - set (used @ [sub_rule_id q]) = (set draws - set used) - {sub_rule_id q}" by auto
    then have "card (set draws - set (used @ [sub_rule_id q])) \<ge> length ps"
      using 2(3) diff_card_le_card_Diff [of "{sub_rule_id q}" "set draws - set used"] by simp
    then show ?thesis using 2(2) [OF q_def False] False by (auto simp: q_def [symmetric] Let_def)
  qed
qed simp

lemma refresh_total:
  assumes "2 * length (entries lst) \<le> card (set draws)"
  shows "mt_sub_refresh_rules re lst existing draws \<noteq> None"
proof -
  obtain rules draws1 where p: "mt_sub_parse_rules re lst draws = Some (rules, draws1)" "card (set draws1) \<ge> length (entries lst)"
    using parse_loop_total [of "[]" "strtok_all lst" "length (entries lst)" draws "[]" "[]" re parr_null] assms
    by (auto simp: mt_sub_parse_rules_def entries_def)
  then have "length (items rules) = length (entries lst)"
    using parse_rules_props [OF p(1)] by (metis length_map)
  then show ?thesis
    using p refresh_loop_total [of "items rules" draws1 "[]" existing] by (auto simp: mt_sub_refresh_rules_def)
qed

subsection \<open>Identity is kept\<close>

lemma find_current_cong: "sub_rule_rule p = sub_rule_rule p' \<Longrightarrow> find_current existing p = find_current existing p'"
  by (simp add: find_current_def cong: option.case_cong)

text \<open>The first rule of the old list with a given text.\<close>

definition current_of :: "mt_sub_rule option list \<Rightarrow> string \<Rightarrow> mt_sub_rule option" where
  "current_of existing t = find_current existing (mt_sub_rule_new\<lparr>sub_rule_rule := Some t\<rparr>)"

lemma refresh_props:
  assumes "mt_sub_refresh_rules re lst existing draws = Some (rules, draws')"
  obtains ps draws1 where "map sub_rule_rule ps = map Some (entries lst)"
    "map sub_rule_type ps = map (Some \<circ> mt_sub_detect_type re) (entries lst)" "\<forall>p \<in> set ps. sub_rule_enable p"
    "refresh_loop existing ps [] draws1 = Some (items rules, draws')" "set draws1 \<subseteq> set draws" "rules_cap rules"
proof -
  obtain parsed draws1 where p: "mt_sub_parse_rules re lst draws = Some (parsed, draws1)"
    using assms by (auto simp: mt_sub_refresh_rules_def split: option.splits)
  note pp = parse_rules_props [OF p]
  have r: "refresh_loop existing (items parsed) [] draws1 = Some (items rules, draws') \<and> cap rules = cap parsed"
    using assms p by (auto simp: mt_sub_refresh_rules_def split: if_splits)
  then have "length (items rules) = length (items parsed)"
    using refresh_loop_props [of existing "items parsed" "[]" draws1 "items rules" draws'] by (metis list_all2_lengthD)
  then have "rules_cap rules" using pp r by (auto simp: rules_cap_def split: if_splits)
  then show ?thesis using that [of "items parsed" draws1] pp r by blast
qed

lemma refresh_nth:
  assumes "mt_sub_refresh_rules re lst existing draws = Some (rules, draws')" "k < length (entries lst)"
  shows "length (items rules) = length (entries lst) \<and> sub_rule_rule (items rules ! k) = Some (entries lst ! k) \<and>
    (case current_of existing (entries lst ! k) of
       None \<Rightarrow> sub_rule_enable (items rules ! k) \<and> sub_rule_type (items rules ! k) = Some (mt_sub_detect_type re (entries lst ! k))
     | Some e \<Rightarrow> sub_rule_enable (items rules ! k) = sub_rule_enable e \<and>
         sub_rule_type (items rules ! k) =
           (if sub_rule_type e \<noteq> None \<and> sub_rule_type e \<noteq> Some [] then sub_rule_type e
            else Some (mt_sub_detect_type re (entries lst ! k))) \<and>
         (\<not> mt_id_is_zero (sub_rule_id e) \<and> sub_rule_id e \<notin> sub_rule_id ` set (take k (items rules))
           \<longrightarrow> sub_rule_id (items rules ! k) = sub_rule_id e))"
proof -
  obtain ps draws1 where ps: "map sub_rule_rule ps = map Some (entries lst)"
      "map sub_rule_type ps = map (Some \<circ> mt_sub_detect_type re) (entries lst)" "\<forall>p \<in> set ps. sub_rule_enable p"
      "refresh_loop existing ps [] draws1 = Some (items rules, draws')"
    using refresh_props [OF assms(1)] by metis
  note rp = refresh_loop_props [OF ps(4)]
  have len: "length ps = length (entries lst)" "length (items rules) = length ps"
    using ps(1) rp by (metis length_map, metis list_all2_lengthD)
  then have k: "k < length ps" "k < length (items rules)" using assms(2) by simp_all
  have t: "sub_rule_rule (ps ! k) = Some (entries lst ! k)"
    "sub_rule_type (ps ! k) = Some (mt_sub_detect_type re (entries lst ! k))" "sub_rule_enable (ps ! k)"
    using ps(1-3) k(1) assms(2) by (metis nth_map, metis comp_apply nth_map, metis nth_mem)
  have cur: "current_of existing (entries lst ! k) = find_current existing (ps ! k)"
    unfolding current_of_def by (rule find_current_cong) (simp add: t)
  obtain i where i: "items rules ! k = (inherit existing (ps ! k))\<lparr>sub_rule_id := i\<rparr>"
    using rp k list_all2_nthD [of "renewed existing" ps "items rules" k] unfolding renewed_def by blast
  have "\<not> mt_id_is_zero (sub_rule_id (inherit existing (ps ! k))) \<and>
      sub_rule_id (inherit existing (ps ! k)) \<notin> sub_rule_id ` set (take k (items rules))
     \<longrightarrow> sub_rule_id (items rules ! k) = sub_rule_id (inherit existing (ps ! k))"
    using rp k by simp
  then show ?thesis
    using i t cur len by (simp add: inherit_def split: option.splits)
qed

lemma entries_distinct: "distinct (entries lst)"
  by (simp add: entries_def dedup_props)

lemma entries_nonempty: "t \<in> set (entries lst) \<Longrightarrow> t \<noteq> []"
  using dedup_props [of "[]" "filter is_entry (map trim (strtok_all lst))"] by (auto simp: entries_def is_entry_def)

lemma refresh_ids: "mt_sub_refresh_rules re lst existing draws = Some (rules, draws') \<Longrightarrow> distinct (map sub_rule_id (items rules))"
  using refresh_loop_props by (elim refresh_props) blast

section \<open>The comparison is a comparison of multisets\<close>

type_synonym rule_view = "string \<times> mt_id \<times> bool"

definition view :: "(string \<Rightarrow> bool) \<Rightarrow> mt_sub_rule \<Rightarrow> rule_view" where
  "view re r = (same_rules_key re r, sub_rule_id r, sub_rule_enable r)"

definition views :: "(string \<Rightarrow> bool) \<Rightarrow> mt_sub_rule option list \<Rightarrow> rule_view multiset" where
  "views re rs = mset (map (view re) (List.map_filter (\<lambda>x. x) rs))"

definition nils :: "mt_sub_rule option list \<Rightarrow> nat" where
  "nils rs = length (filter (\<lambda>r. r = None) rs)"

lemma views_simps [simp]:
  "views re [] = {#}" "views re (None # rs) = views re rs" "views re (Some r # rs) = add_mset (view re r) (views re rs)"
  "nils [] = 0" "nils (None # rs) = Suc (nils rs)" "nils (Some r # rs) = nils rs"
  by (simp_all add: views_def nils_def List.map_filter_simps)

text \<open>Rules with one key agree in the rest.\<close>

definition one_state :: "rule_view multiset \<Rightarrow> bool" where
  "one_state M \<longleftrightarrow> (\<forall>k s s'. (k, s) \<in># M \<and> (k, s') \<in># M \<longrightarrow> s = s')"

text \<open>The list of states stands for a multiset of views.\<close>

fun stands_at :: "(mt_id \<times> bool \<times> nat) option \<Rightarrow> rule_view multiset \<Rightarrow> string \<Rightarrow> bool" where
  "stands_at None M k \<longleftrightarrow> (\<forall>s. (k, s) \<notin># M)"
| "stands_at (Some (i, e, n)) M k \<longleftrightarrow> n = count M (k, i, e) \<and> (\<forall>s. (k, s) \<in># M \<longrightarrow> s = (i, e))"

definition stands_for :: "rule_state list \<Rightarrow> rule_view multiset \<Rightarrow> bool" where
  "stands_for st M \<longleftrightarrow> distinct (map fst st) \<and> (\<forall>k. stands_at (map_of st k) M k)"

lemma stands_forD: "stands_for st M \<Longrightarrow> map_of st k = v \<Longrightarrow> stands_at v M k"
  by (auto simp: stands_for_def)

lemma stands_at_cong:
  assumes "\<And>s. count M' (k, s) = count M (k, s)"
  shows "stands_at v M' k = stands_at v M k"
proof -
  have "(k, s) \<in># M' \<longleftrightarrow> (k, s) \<in># M" for s
    using assms [of s] by (metis count_greater_zero_iff)
  then show ?thesis using assms by (cases "(v, M, k)" rule: stands_at.cases) auto
qed

lemma stands_one_state:
  assumes "stands_for st M"
  shows "one_state M"
  unfolding one_state_def
proof (intro allI impI)
  fix k s s' assume s: "(k, s) \<in># M \<and> (k, s') \<in># M"
  show "s = s'"
  proof (cases "map_of st k")
    case None
    then show ?thesis using stands_forD [OF assms None] s unfolding stands_at.simps by blast
  next
    case (Some v)
    obtain i e n where v: "v = (i, e, n)" by (rule prod_cases3)
    then have "\<forall>s. (k, s) \<in># M \<longrightarrow> s = (i, e)"
      using stands_forD [OF assms Some] unfolding v stands_at.simps by blast
    then show ?thesis using s by metis
  qed
qed

lemma stands_put:
  assumes "stands_for st M" "\<And>k' s. k' \<noteq> k \<Longrightarrow> count M' (k', s) = count M (k', s)" "stands_at (Some v) M' k"
  shows "map_of st k = None \<Longrightarrow> stands_for ((k, v) # st) M'"
    and "stands_for (AList.update k v st) M'"
proof -
  have "stands_at (map_of st k') M' k'" if "k' \<noteq> k" for k'
    using stands_at_cong [of M' k' M, OF assms(2) [OF that]] assms(1) unfolding stands_for_def by blast
  then show "map_of st k = None \<Longrightarrow> stands_for ((k, v) # st) M'" "stands_for (AList.update k v st) M'"
    using assms(1,3) by (auto simp: stands_for_def map_of_eq_None_iff distinct_update update_conv')
qed

text \<open>One rule more on the left, one less on the right.\<close>

lemma left_step:
  assumes "stands_for st M" "map_of st k = v"
  shows "(case v of None \<Rightarrow> True | Some (i0, e0, n) \<Rightarrow> \<not> (n > 0 \<and> (i0 \<noteq> i \<or> e0 \<noteq> e))) \<longleftrightarrow> one_state (add_mset (k, i, e) M)"
    and "one_state (add_mset (k, i, e) M) \<Longrightarrow>
      stands_at (Some (i, e, case v of None \<Rightarrow> 1 | Some (_, _, n) \<Rightarrow> n + 1)) (add_mset (k, i, e) M) k"
proof -
  have at: "stands_at v M k" by (rule stands_forD [OF assms])
  have one: "one_state (add_mset (k, i, e) M) \<longleftrightarrow> (\<forall>s. (k, s) \<in># M \<longrightarrow> s = (i, e))"
  proof
    show "\<forall>s. (k, s) \<in># M \<longrightarrow> s = (i, e)" if "one_state (add_mset (k, i, e) M)"
      using that unfolding one_state_def by (metis union_single_eq_member insert_DiffM2 set_mset_add_mset_insert insert_iff)
    show "one_state (add_mset (k, i, e) M)" if "\<forall>s. (k, s) \<in># M \<longrightarrow> s = (i, e)"
      using that stands_one_state [OF assms(1)] unfolding one_state_def set_mset_add_mset_insert insert_iff by (metis prod.inject)
  qed
  show "(case v of None \<Rightarrow> True | Some (i0, e0, n) \<Rightarrow> \<not> (n > 0 \<and> (i0 \<noteq> i \<or> e0 \<noteq> e))) \<longleftrightarrow> one_state (add_mset (k, i, e) M)"
  proof (cases "(v, M, k)" rule: stands_at.cases)
    case (1 M' k')
    then show ?thesis using at unfolding one by simp
  next
    case (2 i0 e0 n M' k')
    then have "0 < n \<longleftrightarrow> (k, i0, e0) \<in># M" "\<forall>s. (k, s) \<in># M \<longrightarrow> s = (i0, e0)"
      using at by simp_all
    then have "(0 < n \<and> (i0 \<noteq> i \<or> e0 \<noteq> e)) \<longleftrightarrow> \<not> (\<forall>s. (k, s) \<in># M \<longrightarrow> s = (i, e))"
      unfolding split_paired_All prod.inject by blast
    moreover have "v = Some (i0, e0, n)" using 2 by simp
    ultimately show ?thesis unfolding one by (simp only: option.case prod.case) blast
  qed
  show "stands_at (Some (i, e, case v of None \<Rightarrow> 1 | Some (_, _, n) \<Rightarrow> n + 1)) (add_mset (k, i, e) M) k"
    if "one_state (add_mset (k, i, e) M)"
  proof -
    have "(case v of None \<Rightarrow> 0 | Some (_, _, n) \<Rightarrow> n) = count M (k, i, e)"
    proof (cases "(v, M, k)" rule: stands_at.cases)
      case (1 M' k')
      then show ?thesis using at by (simp add: not_in_iff)
    next
      case (2 i0 e0 n M' k')
      then have n: "n = count M (k, i0, e0)" "\<forall>s. (k, s) \<in># M \<longrightarrow> s = (i0, e0)"
        using at by simp_all
      show ?thesis
      proof (cases "(i, e) = (i0, e0)")
        case False
        then have "(k, i, e) \<notin># M" "(k, i0, e0) \<notin># M" using n(2) that unfolding one by metis+
        then show ?thesis using 2 n(1) by (simp add: not_in_iff)
      qed (use 2 n in simp)
    qed
    then show ?thesis using that unfolding one by (auto split: option.splits simp del: split_paired_All)
  qed
qed

lemma right_step:
  assumes "stands_for st M" "map_of st k = v"
  shows "(case v of None \<Rightarrow> False | Some (i0, e0, n) \<Rightarrow> n \<noteq> 0 \<and> i0 = i \<and> e0 = e) \<longleftrightarrow> (k, i, e) \<in># M"
    and "(k, i, e) \<in># M \<Longrightarrow> stands_at (Some (i, e, (case v of None \<Rightarrow> 0 | Some (_, _, n) \<Rightarrow> n) - 1)) (M - {#(k, i, e)#}) k"
proof -
  have at: "stands_at v M k" by (rule stands_forD [OF assms])
  show "(case v of None \<Rightarrow> False | Some (i0, e0, n) \<Rightarrow> n \<noteq> 0 \<and> i0 = i \<and> e0 = e) \<longleftrightarrow> (k, i, e) \<in># M"
  proof (cases "(v, M, k)" rule: stands_at.cases)
    case (1 M' k')
    then show ?thesis using at by simp
  next
    case (2 i0 e0 n M' k')
    then have "n \<noteq> 0 \<longleftrightarrow> (k, i0, e0) \<in># M" "\<forall>s. (k, s) \<in># M \<longrightarrow> s = (i0, e0)"
      using at by simp_all
    then have "(n \<noteq> 0 \<and> i0 = i \<and> e0 = e) \<longleftrightarrow> (k, i, e) \<in># M"
      unfolding split_paired_All prod.inject by blast
    then show ?thesis using 2 by simp
  qed
  show "stands_at (Some (i, e, (case v of None \<Rightarrow> 0 | Some (_, _, n) \<Rightarrow> n) - 1)) (M - {#(k, i, e)#}) k"
    if m: "(k, i, e) \<in># M"
  proof (cases "(v, M, k)" rule: stands_at.cases)
    case (1 M' k')
    then show ?thesis using at m by simp
  next
    case (2 i0 e0 n M' k')
    then have n: "n = count M (k, i0, e0)" "\<forall>s. (k, s) \<in># M \<longrightarrow> s = (i0, e0)"
      using at by simp_all
    then have "(i, e) = (i0, e0)" using m by blast
    then show ?thesis using 2 n by (auto dest: in_diffD)
  qed
qed

lemma count_left_result:
  assumes "stands_for st M"
  shows "case count_left re st n rs of
      None \<Rightarrow> \<not> one_state (M + views re rs)
    | Some (st', n') \<Rightarrow> stands_for st' (M + views re rs) \<and> n' = n + nils rs"
  using assms
proof (induction re st n rs arbitrary: M rule: count_left.induct)
  case (1 re st n)
  then show ?case by simp
next
  case (2 re st n rs)
  show ?case using 2(1) [OF 2(2)] by (auto split: option.splits)
next
  case (3 re st n r rs)
  define k i e where "k = same_rules_key re r" and "i = sub_rule_id r" and "e = sub_rule_enable r"
  note step = left_step [OF 3(3) refl, where k = k and i = i and e = e]
  have v: "M + views re (Some r # rs) = add_mset (k, i, e) M + views re rs"
    by (simp add: view_def k_def i_def e_def)
  have cnt: "count (add_mset (k, i, e) M) (k', s) = count M (k', s)" if "k' \<noteq> k" for k' s
    using that by auto
  have no: "\<not> one_state (add_mset (k, i, e) M) \<Longrightarrow> \<not> one_state (add_mset (k, i, e) M + views re rs)"
    unfolding one_state_def by (meson union_iff)
  note put = stands_put [OF 3(3), of k "add_mset (k, i, e) M", OF cnt step(2)]
  show ?case
  proof (cases "map_of st k")
    case None
    then have "stands_for ((k, i, e, 1) # st) (add_mset (k, i, e) M)"
      using step(1) put(1) by simp
    note ih = 3(1) [OF k_def None, folded i_def e_def, OF this]
    have "count_left re st n (Some r # rs) = count_left re ((k, i, e, 1) # st) n rs"
      using None by (simp add: k_def [symmetric] i_def [symmetric] e_def [symmetric] Let_def)
    then show ?thesis using ih unfolding v views_simps(6) by simp
  next
    case (Some w)
    obtain i0 e0 m where w: "w = (i0, e0, m)" by (rule prod_cases3)
    show ?thesis
    proof (cases "m > 0 \<and> (i0 \<noteq> i \<or> e0 \<noteq> e)")
      case True
      then have "count_left re st n (Some r # rs) = None"
        using Some w by (simp add: k_def [symmetric] i_def [symmetric] e_def [symmetric] Let_def)
      moreover have "\<not> one_state (add_mset (k, i, e) M)" using step(1) Some w True by auto
      ultimately show ?thesis using no unfolding v by simp
    next
      case False
      then have "stands_for (AList.update k (i, e, m + 1) st) (add_mset (k, i, e) M)"
        using step(1) put(2) Some w by simp
      note ih = 3(2) [OF k_def Some w [symmetric] refl, folded i_def e_def, OF False this]
      have "count_left re st n (Some r # rs) = count_left re (AList.update k (i, e, m + 1) st) n rs"
        using Some w False by (auto simp: k_def [symmetric] i_def [symmetric] e_def [symmetric] Let_def)
      then show ?thesis using ih unfolding v views_simps(6) by simp
    qed
  qed
qed

lemma count_right_result:
  assumes "stands_for st M"
  shows "case count_right re st n rs of
      None \<Rightarrow> \<not> views re rs \<subseteq># M
    | Some (st', n') \<Rightarrow> views re rs \<subseteq># M \<and> stands_for st' (M - views re rs) \<and> n' = n + nils rs"
  using assms
proof (induction re st n rs arbitrary: M rule: count_right.induct)
  case (1 re st n)
  then show ?case by simp
next
  case (2 re st n rs)
  show ?case using 2(1) [OF 2(2)] by (auto split: option.splits)
next
  case (3 re st n r rs)
  define k i e where "k = same_rules_key re r" and "i = sub_rule_id r" and "e = sub_rule_enable r"
  note step = right_step [OF 3(2) refl, where k = k and i = i and e = e]
  have v: "views re (Some r # rs) = add_mset (k, i, e) (views re rs)"
    by (simp add: view_def k_def i_def e_def)
  show ?case
  proof (cases "(k, i, e) \<in># M")
    case False
    then have "count_right re st n (Some r # rs) = None"
      using step(1) by (auto simp: k_def i_def e_def Let_def split: option.splits)
    then show ?thesis using False unfolding v by (auto dest: mset_subset_eqD)
  next
    case True
    then obtain m where m: "map_of st k = Some (i, e, m)" "m \<noteq> 0"
      using step(1) by (auto split: option.splits)
    have "stands_for (AList.update k (i, e, m - 1) st) (M - {#(k, i, e)#})"
      by (rule stands_put(2) [OF 3(2)]) (use step(2) [OF True] m in auto)
    moreover have "\<not> (i \<noteq> sub_rule_id r \<or> e \<noteq> sub_rule_enable r)" by (simp add: i_def e_def)
    ultimately have ih: "case count_right re (AList.update k (i, e, m - 1) st) n rs of
        None \<Rightarrow> \<not> views re rs \<subseteq># M - {#(k, i, e)#}
      | Some (st', n') \<Rightarrow> views re rs \<subseteq># M - {#(k, i, e)#} \<and> stands_for st' (M - {#(k, i, e)#} - views re rs) \<and> n' = n + nils rs"
      by (intro 3(1) [OF k_def m(1) refl refl m(2)])
    have "count_right re st n (Some r # rs) = count_right re (AList.update k (i, e, m - 1) st) n rs"
      using m by (simp add: k_def [symmetric] i_def [symmetric] e_def [symmetric] Let_def)
    moreover have "M - add_mset (k, i, e) (views re rs) = M - {#(k, i, e)#} - views re rs"
      by (simp add: multiset_eq_iff)
    ultimately show ?thesis
      using ih True unfolding v views_simps(6) by (auto simp: insert_subset_eq_iff split: option.splits)
  qed
qed

lemma stands_zero: "stands_for st M \<Longrightarrow> list_all (\<lambda>(_, _, _, n). n = 0) st \<longleftrightarrow> M = {#}"
proof
  assume st: "stands_for st M" and z: "list_all (\<lambda>(_, _, _, n). n = 0) st"
  have "(k, s) \<notin># M" for k s
  proof (cases "map_of st k")
    case None
    then show ?thesis using stands_forD [OF st None] unfolding stands_at.simps by blast
  next
    case (Some w)
    obtain i e n where w: "w = (i, e, n)" by (rule prod_cases3)
    then have "n = 0" using z Some by (auto simp: list_all_iff dest!: map_of_SomeD)
    moreover have "n = count M (k, i, e)" "(k, s) \<in># M \<longrightarrow> s = (i, e)"
      using stands_forD [OF st Some] unfolding w stands_at.simps by blast+
    ultimately show ?thesis by (metis count_eq_zero_iff)
  qed
  then show "M = {#}" by (metis multiset_nonemptyE surj_pair)
next
  assume st: "stands_for st M" and "M = {#}"
  then have "map_of st k = Some (i, e, n) \<Longrightarrow> n = 0" for k i e n
    using stands_forD [OF st] by fastforce
  then show "list_all (\<lambda>(_, _, _, n). n = 0) st"
    using st by (auto simp: list_all_iff stands_for_def)
qed

lemma views_size: "size (views re rs) + nils rs = length rs"
proof (induction rs)
  case (Cons r rs)
  then show ?case by (cases r) auto
qed simp

lemma same_rules_views:
  "mt_sub_same_rules re left right \<longleftrightarrow>
    views re left = views re right \<and> nils left = nils right \<and> one_state (views re left)"
proof (cases "length left = length right \<and> left \<noteq> []")
  case False
  have "views re left = views re right \<and> nils left = nils right \<Longrightarrow> length left = length right"
    using views_size [of re left] views_size [of re right] by simp
  then show ?thesis using False by (auto simp: mt_sub_same_rules_def one_state_def)
next
  case len: True
  have "stands_for [] {#}" by (simp add: stands_for_def)
  note l = count_left_result [OF this, where re = re and n = 0 and rs = left]
  show ?thesis
  proof (cases "count_left re [] 0 left")
    case None
    then show ?thesis using l len by (simp add: mt_sub_same_rules_def)
  next
    case (Some p)
    obtain st n where p: "p = (st, n)" by (rule prod.exhaust)
    then have st: "stands_for st (views re left)" "n = nils left"
      using l Some by simp_all
    have size: "size (views re left) + nils left = size (views re right) + nils right"
      using len by (simp add: views_size)
    show ?thesis
    proof (cases "count_right re st 0 right")
      case None
      then show ?thesis
        using count_right_result [OF st(1), where re = re and n = 0 and rs = right] Some p len by (auto simp: mt_sub_same_rules_def)
    next
      case (Some q)
      obtain st' n' where q: "q = (st', n')" by (rule prod.exhaust)
      then have r: "views re right \<subseteq># views re left" "stands_for st' (views re left - views re right)" "n' = nils right"
        using count_right_result [OF st(1), where re = re and n = 0 and rs = right] Some by simp_all
      then have "views re left - views re right = {#} \<longleftrightarrow> views re left = views re right"
        by (metis Diff_eq_empty_iff_mset subset_mset.order_antisym subset_mset.order_refl)
      then show ?thesis
        using stands_zero [OF r(2)] r(3) st stands_one_state [OF st(1)] Some q p \<open>count_left re [] 0 left = Some p\<close> len
        by (simp add: mt_sub_same_rules_def)
    qed
  qed
qed

text \<open>
  C28.  The comparison of two lists of rules ignores their order and nothing else: it says yes exactly when the two
  lists hold, equally often, the same rules (key of type and text, identifier, switch) and equally many null
  entries, and no key of the lists has two different identifiers or switches.
\<close>

theorem same_rules_exact:
  "mt_sub_same_rules re left right \<longleftrightarrow>
    views re left = views re right \<and> nils left = nils right \<and> one_state (views re left)"
  by (rule same_rules_views)

lemma refresh_texts:
  assumes "mt_sub_refresh_rules re lst existing draws = Some (rules, draws')"
  shows "map sub_rule_rule (items rules) = map Some (entries lst)"
proof (rule nth_equalityI)
  obtain ps draws1 where ps: "map sub_rule_rule ps = map Some (entries lst)"
      "refresh_loop existing ps [] draws1 = Some (items rules, draws')"
    using refresh_props [OF assms] by metis
  then show "length (map sub_rule_rule (items rules)) = length (map Some (entries lst))"
    using refresh_loop_props [OF ps(2)] by (metis length_map list_all2_lengthD)
  then show "map sub_rule_rule (items rules) ! k = map Some (entries lst) ! k" if "k < length (map sub_rule_rule (items rules))" for k
    using that refresh_nth [OF assms, of k] by simp
qed

lemma current_of_self:
  assumes "map sub_rule_rule rs = map Some ts" "distinct ts" "k < length ts" "ts ! k \<noteq> []"
  shows "current_of (map Some rs) (ts ! k) = Some (rs ! k)"
proof -
  have len: "length rs = length ts" using assms(1) by (metis length_map)
  have nth: "sub_rule_rule (rs ! j) = Some (ts ! j)" if "j < length ts" for j
    using assms(1) that len by (metis nth_map)
  have "List.find (\<lambda>e. case e of None \<Rightarrow> False
         | Some e \<Rightarrow> sub_rule_rule e \<noteq> None \<and> sub_rule_rule e \<noteq> Some [] \<and> sub_rule_rule e = Some (ts ! k)) (map Some rs)
      = Some (Some (rs ! k))"
    unfolding find_Some_iff
    using nth assms(2,3,4) len by (intro exI [of _ k]) (auto simp: nth_eq_iff_index_eq)
  then show ?thesis by (simp add: current_of_def find_current_def cong: option.case_cong)
qed

lemma refresh_again:
  assumes r: "mt_sub_refresh_rules re lst existing draws = Some (rules, draws')" "list_all (Not \<circ> mt_id_is_zero) draws"
    and r2: "mt_sub_refresh_rules re lst (map Some (items rules)) draws2 = Some (rules2, draws2')"
  shows "items rules2 = items rules"
proof (rule nth_equalityI)
  have len: "length (items rules) = length (entries lst)" "length (items rules2) = length (entries lst)"
    using refresh_texts [OF r(1)] refresh_texts [OF r2] by (metis length_map)+
  then show "length (items rules2) = length (items rules)" by simp
  obtain ps draws1 where p: "refresh_loop existing ps [] draws1 = Some (items rules, draws')" "set draws1 \<subseteq> set draws"
    using refresh_props [OF r(1)] by metis
  then have "list_all (Not \<circ> mt_id_is_zero) draws1" using r(2) by (auto simp: list_all_iff)
  then have nz: "list_all (Not \<circ> mt_id_is_zero \<circ> sub_rule_id) (items rules)"
    using refresh_loop_props [OF p(1)] by blast
  show "items rules2 ! k = items rules ! k" if "k < length (items rules2)" for k
    using that
  proof (induction k rule: less_induct)
    case (less k)
    define x where "x = items rules ! k"
    have k: "k < length (entries lst)" using less(2) len by simp
    have cur: "current_of (map Some (items rules)) (entries lst ! k) = Some x"
      unfolding x_def
      by (rule current_of_self [OF refresh_texts [OF r(1)] entries_distinct k]) (use entries_nonempty [OF nth_mem [OF k]] in blast)
    have "take k (items rules2) = take k (items rules)"
      using less(1) less(2) len by (intro nth_equalityI) auto
    moreover have "sub_rule_id x \<notin> sub_rule_id ` set (take k (items rules))"
    proof
      assume "sub_rule_id x \<in> sub_rule_id ` set (take k (items rules))"
      then obtain j where j: "j < k" "sub_rule_id (items rules ! j) = sub_rule_id x"
        using k len by (auto simp: in_set_conv_nth)
      then show False
        using refresh_ids [OF r(1)] k len unfolding x_def by (auto simp: distinct_conv_nth)
    qed
    moreover have "\<not> mt_id_is_zero (sub_rule_id x)"
      using nz k len by (auto simp: list_all_iff x_def)
    ultimately have "sub_rule_id (items rules2 ! k) = sub_rule_id x"
      "sub_rule_enable (items rules2 ! k) = sub_rule_enable x" "sub_rule_rule (items rules2 ! k) = Some (entries lst ! k)"
      "sub_rule_type (items rules2 ! k) = (if sub_rule_type x \<noteq> None \<and> sub_rule_type x \<noteq> Some [] then sub_rule_type x
         else Some (mt_sub_detect_type re (entries lst ! k)))"
      using refresh_nth [OF r2 k] cur by simp_all
    moreover have "sub_rule_rule x = Some (entries lst ! k)"
      "sub_rule_type x = None \<or> sub_rule_type x = Some [] \<longrightarrow> sub_rule_type x = Some (mt_sub_detect_type re (entries lst ! k))"
      using refresh_nth [OF r(1) k] unfolding x_def by (auto split: option.splits if_splits)
    ultimately show ?case unfolding x_def [symmetric] by (intro mt_sub_rule.equality) auto
  qed
qed

lemma current_of_mem: "current_of existing t = Some e \<Longrightarrow> Some e \<in> set existing"
  by (auto simp: current_of_def find_current_def find_Some_iff split: option.splits) (metis nth_mem)

text \<open>No type contains the separator of the keys.\<close>

definition types_plain :: "mt_sub_rule option list \<Rightarrow> bool" where
  "types_plain existing \<longleftrightarrow>
    list_all (\<lambda>e. case e of None \<Rightarrow> True
      | Some e \<Rightarrow> (case sub_rule_type e of None \<Rightarrow> True | Some t \<Rightarrow> CHR ''|'' \<notin> set t)) existing"

lemma types_plainD: "types_plain existing \<Longrightarrow> Some e \<in> set existing \<Longrightarrow> sub_rule_type e = Some t \<Longrightarrow> CHR ''|'' \<notin> set t"
  unfolding types_plain_def list_all_iff by (drule bspec) auto

lemma refresh_type_no_bar:
  assumes "mt_sub_refresh_rules re lst existing draws = Some (rules, draws')" "r \<in> set (items rules)"
    and "types_plain existing"
  shows "\<exists>t. sub_rule_type r = Some t \<and> CHR ''|'' \<notin> set t"
proof -
  obtain k where k: "r = items rules ! k" "k < length (items rules)" using assms(2) by (metis in_set_conv_nth)
  then have "k < length (entries lst)" using refresh_texts [OF assms(1)] by (metis length_map)
  note nth = refresh_nth [OF assms(1) this, folded k(1)]
  show ?thesis
  proof (cases "current_of existing (entries lst ! k)")
    case None
    then show ?thesis using nth detect_type_no_bar by simp
  next
    case (Some e)
    then show ?thesis
      using nth detect_type_no_bar types_plainD [OF assms(3) current_of_mem [OF Some]] by (auto split: if_splits)
  qed
qed

lemma refresh_one_state:
  assumes "mt_sub_refresh_rules re lst existing draws = Some (rules, draws')"
    and "types_plain existing"
  shows "one_state (views re (map Some (items rules)))"
proof -
  have key: "\<exists>t. same_rules_key re r = rule_key t (the (sub_rule_rule r)) \<and> CHR ''|'' \<notin> set t" if "r \<in> set (items rules)" for r
  proof -
    have "Some (the (sub_rule_rule r)) = sub_rule_rule r"
      using refresh_texts [OF assms(1)] that by (metis imageE image_eqI image_set option.sel)
    then show ?thesis
      using refresh_type_no_bar [OF assms(1) that assms(2)] detect_type_no_bar [of re "the (sub_rule_rule r)"]
      by (auto simp: same_rules_key_def Let_def split: option.splits)
  qed
  have "r = r'" if r: "r \<in> set (items rules)" "r' \<in> set (items rules)" "same_rules_key re r = same_rules_key re r'" for r r'
  proof -
    obtain t t' where "rule_key t (the (sub_rule_rule r)) = rule_key t' (the (sub_rule_rule r'))" "CHR ''|'' \<notin> set t" "CHR ''|'' \<notin> set t'"
      using key r by metis
    then have "the (sub_rule_rule r) = the (sub_rule_rule r')" using rule_key_inj by blast
    moreover have "distinct (map (the \<circ> sub_rule_rule) (items rules))"
      using entries_distinct [of lst] arg_cong [OF refresh_texts [OF assms(1)], of "map the"] by (simp add: comp_def)
    ultimately show ?thesis using r(1,2) by (metis comp_apply distinct_map inj_onD)
  qed
  then show ?thesis
    by (auto simp: one_state_def views_def view_def List.map_filter_def comp_def)
qed

text \<open>
  Downloading a list that did not change changes nothing: refreshing the result of a refresh with the same text
  gives the same rules, with their identifiers, and the comparison recognises that, provided no random identifier is zero and no
  type of the old list contains the separator of the keys.
\<close>

theorem refresh_stable:
  assumes "mt_sub_refresh_rules re lst existing draws = Some (rules, draws')" "list_all (Not \<circ> mt_id_is_zero) draws"
    and "types_plain existing"
    and "mt_sub_refresh_rules re lst (map Some (items rules)) draws2 = Some (rules2, draws2')"
  shows "items rules2 = items rules \<and> mt_sub_same_rules re (map Some (items rules)) (map Some (items rules2))"
  using refresh_again [OF assms(1,2,4)] refresh_one_state [OF assms(1,3)] by (simp add: same_rules_views)

text \<open>
  C25.  A refresh keeps the identity of the rules that stay.  Take a text none of whose entries has a prefix length that
  overflows the \<^verbatim>\<open>int\<close> it is read into.  With random identifiers to choose from the refresh returns, and
  the new list has exactly the entries of the text (trimmed, without comments, each once, in order), with pairwise
  different identifiers in an array that has room for them.  An entry whose text the old list has takes over the switch of the first such rule, its
  type when it has one, and its identifier unless that is zero or already taken by an earlier entry; every
  other entry is switched on and has the detected type.
\<close>

theorem refresh_keeps_identity:
  assumes "\<forall>t \<in> set (entries lst). \<not> prefix_overflows t"
  shows
  "(2 * length (entries lst) \<le> card (set draws) \<longrightarrow> mt_sub_refresh_rules re lst existing draws \<noteq> None) \<and>
   (mt_sub_refresh_rules re lst existing draws = Some (rules, draws') \<longrightarrow>
      map sub_rule_rule (items rules) = map Some (entries lst) \<and> distinct (map sub_rule_id (items rules)) \<and>
      length (items rules) \<le> cap rules \<and>
      (\<forall>k < length (entries lst).
         case current_of existing (entries lst ! k) of
           None \<Rightarrow> sub_rule_enable (items rules ! k) \<and>
             sub_rule_type (items rules ! k) = Some (mt_sub_detect_type re (entries lst ! k))
         | Some e \<Rightarrow> sub_rule_enable (items rules ! k) = sub_rule_enable e \<and>
             sub_rule_type (items rules ! k) =
               (if sub_rule_type e \<noteq> None \<and> sub_rule_type e \<noteq> Some [] then sub_rule_type e
                else Some (mt_sub_detect_type re (entries lst ! k))) \<and>
             (\<not> mt_id_is_zero (sub_rule_id e) \<and> sub_rule_id e \<notin> sub_rule_id ` set (take k (items rules))
               \<longrightarrow> sub_rule_id (items rules ! k) = sub_rule_id e)))"
proof (intro conjI impI)
  show "mt_sub_refresh_rules re lst existing draws \<noteq> None" if "2 * length (entries lst) \<le> card (set draws)"
    using that by (rule refresh_total)
next
  assume r: "mt_sub_refresh_rules re lst existing draws = Some (rules, draws')"
  then show "map sub_rule_rule (items rules) = map Some (entries lst)" by (rule refresh_texts)
  show "distinct (map sub_rule_id (items rules))" using r by (rule refresh_ids)
  show "length (items rules) \<le> cap rules"
    using r by (rule refresh_props) (auto simp: rules_cap_def split: if_splits)
qed (use refresh_nth in blast)

section \<open>An instance\<close>

definition ex_list :: string where
  "ex_list = '' a.com,#b'' @ [CHR 0x0A] @ ''10.0.0.0/8,a.com, ,*.c''"

definition ex_old :: "mt_sub_rule list" where
  "ex_old = [\<lparr>sub_rule_id = MtId 0 0 0 9, sub_rule_rule = Some ''a.com'', sub_rule_type = Some ''domain'', sub_rule_enable = False\<rparr>]"

definition ex_draws :: "mt_id list" where
  "ex_draws = map (\<lambda>n. MtId 0 0 1 (of_nat n)) [0..<6]"

definition ex_no_star :: "string \<Rightarrow> bool" where
  "ex_no_star p \<longleftrightarrow> CHR ''*'' \<notin> set p"

definition ex_new :: "mt_sub_rule list" where
  "ex_new =
    [\<lparr>sub_rule_id = MtId 0 0 0 9, sub_rule_rule = Some ''a.com'', sub_rule_type = Some ''domain'', sub_rule_enable = False\<rparr>,
     \<lparr>sub_rule_id = MtId 0 0 1 1, sub_rule_rule = Some ''10.0.0.0/8'', sub_rule_type = Some ''subnet'', sub_rule_enable = True\<rparr>,
     \<lparr>sub_rule_id = MtId 0 0 1 2, sub_rule_rule = Some ''*.c'', sub_rule_type = Some ''wildcard'', sub_rule_enable = True\<rparr>]"

lemma ex_refresh:
  "mt_sub_refresh_rules ex_no_star ex_list (map Some ex_old) ex_draws = Some (\<lparr>items = ex_new, cap = 16\<rparr>, drop 3 ex_draws)"
  "mt_sub_refresh_rules ex_no_star ex_list (map Some ex_new) ex_draws = Some (\<lparr>items = ex_new, cap = 16\<rparr>, drop 3 ex_draws)"
  "entries ex_list = [''a.com'', ''10.0.0.0/8'', ''*.c'']" "list_all (Not \<circ> mt_id_is_zero) ex_draws" "types_plain (map Some ex_old)"
  by code_simp+

theorem refresh_keeps_identity_witness:
  "mt_sub_refresh_rules ex_no_star ex_list (map Some ex_old) ex_draws \<noteq> None \<and>
   map sub_rule_rule ex_new = map Some [''a.com'', ''10.0.0.0/8'', ''*.c''] \<and> distinct (map sub_rule_id ex_new) \<and>
   sub_rule_id (ex_new ! 0) = MtId 0 0 0 9"
proof -
  have no: "\<forall>t \<in> set (entries ex_list). \<not> prefix_overflows t" by code_simp
  have "card (set ex_draws) = 6" by code_simp
  moreover have "current_of (map Some ex_old) ''a.com'' = Some (ex_old ! 0)" "\<not> mt_id_is_zero (sub_rule_id (ex_old ! 0))"
    "sub_rule_id (ex_old ! 0) = MtId 0 0 0 9"
    by code_simp+
  ultimately show ?thesis
    using refresh_keeps_identity [OF no, of ex_draws ex_no_star "map Some ex_old" "\<lparr>items = ex_new, cap = 16\<rparr>" "drop 3 ex_draws"]
    by (auto simp: ex_refresh dest!: spec [of _ 0])
qed

theorem refresh_stable_witness:
  "mt_sub_same_rules ex_no_star (map Some ex_new) (map Some ex_new)"
  using refresh_stable [OF ex_refresh(1) ex_refresh(4,5), of ex_draws "\<lparr>items = ex_new, cap = 16\<rparr>" "drop 3 ex_draws"] ex_refresh(2) by simp

end
