(* ===== verification/Sub_Fetch.thy ===== *)
theory Sub_Fetch
  imports C_Text
begin

text \<open>
  \<^verbatim>\<open>src/subscriptions/fetch.c\<close>: the download of a subscription list.  libcurl is a parameter: how it takes a URL apart,
  and what a request brings, the pieces of the body in the order in which they are handed to the callback, whether the
  transfer completes, the status and the target of a redirection.  The result carries the list of the URLs that were
  requested, which the program does not keep, so that it can be spoken about.
\<close>

definition MT_SUB_FETCH_MAX_BODY_BYTES :: nat where
  "MT_SUB_FETCH_MAX_BODY_BYTES = 8 * 1024 * 1024"

definition MT_SUB_FETCH_MAX_REDIRECTS :: nat where
  "MT_SUB_FETCH_MAX_REDIRECTS = 5"

record curl_reply =
  cr_pieces :: "string list"
  cr_complete :: bool
  cr_status :: int
  cr_redirect :: "string option"

record curl =
  curl_parts :: "string \<Rightarrow> (string option \<times> string option) option"
  curl_perform :: "string \<Rightarrow> curl_reply"

section \<open>Model\<close>

definition url_is_supported :: "curl \<Rightarrow> string \<Rightarrow> bool" where
  "url_is_supported C url \<longleftrightarrow>
    (case curl_parts C url of
       None \<Rightarrow> False
     | Some (scheme, host) \<Rightarrow>
         (case (scheme, host) of
            (Some sc, Some h) \<Rightarrow> h \<noteq> [] \<and> (strcaseeq sc ''http'' \<or> strcaseeq sc ''https'')
          | _ \<Rightarrow> False))"

text \<open>The buffer; a capacity of 0 is the null pointer.  The last byte is for the terminator.\<close>

record fetch_buf =
  fb_data :: string
  fb_cap :: nat
  fb_truncated :: bool

function grow_to :: "nat \<Rightarrow> nat \<Rightarrow> nat" where
  "grow_to new_cap need = (if new_cap = 0 then 0 else if new_cap < need then grow_to (new_cap * 2) need else new_cap)"
  by pat_completeness auto
termination
  by (relation "measure (\<lambda>(c, n). n - c)") auto

declare grow_to.simps [simp del]

text \<open>The result says whether all bytes were taken; anything else ends the transfer.\<close>

definition write_cb :: "string \<Rightarrow> fetch_buf \<Rightarrow> bool \<times> fetch_buf" where
  "write_cb piece buf =
    (let n = length piece; len = length (fb_data buf)
     in if len + n > MT_SUB_FETCH_MAX_BODY_BYTES then (n = 0, buf\<lparr>fb_truncated := True\<rparr>)
        else (True, buf\<lparr>fb_data := fb_data buf @ piece,
                        fb_cap := (if len + n + 1 > fb_cap buf
                                   then grow_to (if fb_cap buf = 0 then 4096 else fb_cap buf * 2) (len + n + 1)
                                   else fb_cap buf)\<rparr>))"

fun transfer :: "string list \<Rightarrow> fetch_buf \<Rightarrow> bool \<times> fetch_buf" where
  "transfer [] buf = (True, buf)"
| "transfer (p # ps) buf = (case write_cb p buf of (ok, buf) \<Rightarrow> if ok then transfer ps buf else (False, buf))"

definition visited_add :: "string list \<Rightarrow> string \<Rightarrow> mt_err + string list" where
  "visited_add v url = (if length v \<ge> MT_SUB_FETCH_MAX_REDIRECTS + 1 then Inl MT_ERR_LIMIT else Inr (v @ [url]))"

text \<open>What one turn of the loop does: an end with its result, or another turn with the next URL.\<close>

datatype turn = Done "mt_err + string" | Again string

definition fetch_once :: "curl \<Rightarrow> string list \<Rightarrow> nat \<Rightarrow> string \<Rightarrow> turn" where
  "fetch_once C visited redirects current =
    (let reply = curl_perform C current
     in case transfer (cr_pieces reply) \<lparr>fb_data = [], fb_cap = 0, fb_truncated = False\<rparr> of (ok, buf) \<Rightarrow>
        if \<not> ok \<or> \<not> cr_complete reply then Done (Inl (if fb_truncated buf then MT_ERR_LIMIT else MT_ERR_IO))
        else if cr_status reply = 301 \<or> cr_status reply = 302
        then (case cr_redirect reply of
                None \<Rightarrow> Done (Inl MT_ERR_INVAL)
              | Some location \<Rightarrow>
                  if \<not> url_is_supported C location then Done (Inl MT_ERR_INVAL)
                  else if location \<in> set visited then Done (Inl MT_ERR_INVAL)
                  else if redirects \<ge> MT_SUB_FETCH_MAX_REDIRECTS then Done (Inl MT_ERR_LIMIT)
                  else Again location)
        else if cr_status reply < 200 \<or> cr_status reply \<ge> 300 then Done (Inl MT_ERR_PROTO)
        else Done (Inr (fb_data buf)))"

function fetch_loop :: "curl \<Rightarrow> string list \<Rightarrow> nat \<Rightarrow> string \<Rightarrow> (mt_err + string) \<times> string list" where
  "fetch_loop C visited redirects current =
    (if \<not> url_is_supported C current then (Inl MT_ERR_INVAL, visited)
     else if current \<in> set visited then (Inl MT_ERR_INVAL, visited)
     else case visited_add visited current of
       Inl err \<Rightarrow> (Inl err, visited)
     | Inr visited \<Rightarrow>
         (case fetch_once C visited redirects current of
            Done r \<Rightarrow> (r, visited)
          | Again location \<Rightarrow> fetch_loop C visited (redirects + 1) location))"
  by pat_completeness auto
termination
  by (relation "measure (\<lambda>(C, visited, redirects, current). MT_SUB_FETCH_MAX_REDIRECTS + 1 - length visited)")
    (auto simp: visited_add_def split: if_splits)

declare fetch_loop.simps [simp del]

definition mt_sub_fetch_list :: "curl \<Rightarrow> string \<Rightarrow> mt_err + string" where
  "mt_sub_fetch_list C url = fst (fetch_loop C [] 0 url)"

section \<open>Properties\<close>

lemma grow_to_ge: "0 < c \<Longrightarrow> need \<le> grow_to c need"
  by (induction c need rule: grow_to.induct) (subst grow_to.simps, auto)

definition buf_ok :: "fetch_buf \<Rightarrow> bool" where
  "buf_ok b \<longleftrightarrow> length (fb_data b) \<le> MT_SUB_FETCH_MAX_BODY_BYTES \<and> (fb_cap b = 0 \<and> fb_data b = [] \<or> length (fb_data b) < fb_cap b)"

lemma write_cb_ok: "buf_ok b \<Longrightarrow> buf_ok (snd (write_cb p b))"
  using grow_to_ge [of "if fb_cap b = 0 then 4096 else fb_cap b * 2" "length (fb_data b) + length p + 1"]
  by (auto simp: write_cb_def buf_ok_def Let_def)

lemma transfer_ok: "buf_ok b \<Longrightarrow> buf_ok (snd (transfer ps b))"
proof (induction ps b rule: transfer.induct)
  case (2 p ps b)
  obtain ok b' where b': "write_cb p b = (ok, b')" by (rule prod.exhaust)
  then show ?case using 2(1) [OF b' [symmetric]] write_cb_ok [OF 2(2), of p] by (cases ok) auto
qed simp

lemma transfer_data: "buf_ok b \<Longrightarrow> fst (transfer ps b) \<Longrightarrow> fb_data (snd (transfer ps b)) = fb_data b @ concat ps"
proof (induction ps b rule: transfer.induct)
  case (2 p ps b)
  obtain ok b' where b': "write_cb p b = (ok, b')" by (rule prod.exhaust)
  then have "ok" using 2(3) by (auto split: if_splits)
  moreover from this have "fb_data b' = fb_data b @ p"
    using b' 2(2) by (auto simp: write_cb_def Let_def buf_ok_def split: if_splits)
  ultimately show ?case using 2 b' write_cb_ok [OF 2(2), of p] by simp
qed simp

lemma fetch_once_body:
  assumes "fetch_once C v n u = Done (Inr body)"
  shows "length body \<le> MT_SUB_FETCH_MAX_BODY_BYTES \<and> body = concat (cr_pieces (curl_perform C u)) \<and> 200 \<le> cr_status (curl_perform C u) \<and> cr_status (curl_perform C u) < 300 \<and>
    cr_complete (curl_perform C u)"
proof -
  obtain ok buf where t: "transfer (cr_pieces (curl_perform C u)) \<lparr>fb_data = [], fb_cap = 0, fb_truncated = False\<rparr> = (ok, buf)"
    by (rule prod.exhaust)
  have empty: "buf_ok \<lparr>fb_data = [], fb_cap = 0, fb_truncated = False\<rparr>" by (simp add: buf_ok_def)
  have "buf_ok buf" "ok \<Longrightarrow> fb_data buf = concat (cr_pieces (curl_perform C u))"
    using transfer_ok [OF empty, of "cr_pieces (curl_perform C u)"] transfer_data [OF empty, of "cr_pieces (curl_perform C u)"] t
    by simp_all
  then show ?thesis
    using assms t by (auto simp: fetch_once_def Let_def buf_ok_def split: if_splits option.splits)
qed

text \<open>The redirections that led from one request to the next.\<close>

fun chain_of :: "curl \<Rightarrow> string list \<Rightarrow> bool" where
  "chain_of C (u # v # us) \<longleftrightarrow> cr_status (curl_perform C u) \<in> {301, 302} \<and> cr_redirect (curl_perform C u) = Some v \<and> chain_of C (v # us)"
| "chain_of C _ \<longleftrightarrow> True"

lemma chain_of_snoc:
  "us \<noteq> [] \<Longrightarrow> chain_of C (us @ [v]) \<longleftrightarrow>
    chain_of C us \<and> cr_status (curl_perform C (last us)) \<in> {301, 302} \<and> cr_redirect (curl_perform C (last us)) = Some v"
  by (induction C us rule: chain_of.induct) auto

lemma fetch_once_again:
  assumes "fetch_once C v n u = Again location"
  shows "n < MT_SUB_FETCH_MAX_REDIRECTS \<and> cr_status (curl_perform C u) \<in> {301, 302} \<and> cr_redirect (curl_perform C u) = Some location"
  using assms by (auto simp: fetch_once_def Let_def split: prod.splits if_splits option.splits)

lemma fetch_loop_safe:
  assumes "fetch_loop C visited n u = (r, reqs)" "distinct visited" "list_all (url_is_supported C) visited"
    "length visited = n" "n \<le> MT_SUB_FETCH_MAX_REDIRECTS" "chain_of C (visited @ [u])"
  shows "distinct reqs \<and> list_all (url_is_supported C) reqs \<and> chain_of C reqs \<and> length reqs \<le> MT_SUB_FETCH_MAX_REDIRECTS + 1 \<and>
    (\<forall>body. r = Inr body \<longrightarrow> reqs \<noteq> [] \<and> length body \<le> MT_SUB_FETCH_MAX_BODY_BYTES \<and>
       body = concat (cr_pieces (curl_perform C (last reqs))) \<and> cr_complete (curl_perform C (last reqs)) \<and>
       200 \<le> cr_status (curl_perform C (last reqs)) \<and> cr_status (curl_perform C (last reqs)) < 300)"
  using assms
proof (induction C visited n u rule: fetch_loop.induct)
  case (1 C visited n u)
  have chain: "chain_of C visited" using 1(7) chain_of_snoc [of visited C u] by (cases "visited = []") auto
  show ?case
  proof (cases "url_is_supported C u \<and> u \<notin> set visited")
    case False
    then have "r = Inl MT_ERR_INVAL \<and> reqs = visited" using 1(2) by (subst (asm) fetch_loop.simps) (auto split: if_splits)
    then show ?thesis using 1(3-6) chain by simp
  next
    case True
    have add: "visited_add visited u = Inr (visited @ [u])" using 1(5,6) by (simp add: visited_add_def)
    show ?thesis
    proof (cases "fetch_once C (visited @ [u]) n u")
      case (Done r')
      then have "r = r' \<and> reqs = visited @ [u]" using 1(2) True add by (subst (asm) fetch_loop.simps) simp
      then show ?thesis using 1(3-7) True Done fetch_once_body [of C "visited @ [u]" n u] by auto
    next
      case (Again location)
      note again = fetch_once_again [OF Again]
      have "fetch_loop C (visited @ [u]) (n + 1) location = (r, reqs)"
        using 1(2) True add Again by (subst (asm) fetch_loop.simps) simp
      then show ?thesis
        using 1(1) [OF _ _ add Again] True 1(3-7) again chain_of_snoc [of "visited @ [u]" C location] by simp
    qed
  qed
qed

text \<open>
  C26.  A download ends and stays inside its limits, whatever the servers answer: it makes at most six requests (the
  loop over redirections always ends), never twice for one URL, and only for URLs with the scheme http or https and a
  host, each one but the first being the target of the redirection that answered the one before; a body that is delivered has at
  most eight MiB and is the complete body of the last answer, whose status is 2xx.
\<close>

theorem fetch_bounded:
  assumes "fetch_loop C [] 0 url = (r, reqs)"
  shows "length reqs \<le> 6 \<and> distinct reqs \<and> list_all (url_is_supported C) reqs \<and> chain_of C reqs \<and> mt_sub_fetch_list C url = r \<and>
    (\<forall>body. mt_sub_fetch_list C url = Inr body \<longrightarrow> reqs \<noteq> [] \<and> length body \<le> 8388608 \<and>
       body = concat (cr_pieces (curl_perform C (last reqs))) \<and> cr_complete (curl_perform C (last reqs)) \<and>
       200 \<le> cr_status (curl_perform C (last reqs)) \<and> cr_status (curl_perform C (last reqs)) < 300)"
  using fetch_loop_safe [OF assms] assms
  by (simp add: MT_SUB_FETCH_MAX_REDIRECTS_def MT_SUB_FETCH_MAX_BODY_BYTES_def mt_sub_fetch_list_def)

text \<open>A server that redirects once, to a URL that answers.\<close>

definition ex_curl :: curl where
  "ex_curl = \<lparr>curl_parts = \<lambda>u. if take 7 u = ''http://'' then Some (Some ''HTTP'', Some (drop 7 u)) else None,
     curl_perform = \<lambda>u. if u = ''http://a'' then \<lparr>cr_pieces = [], cr_complete = True, cr_status = 301, cr_redirect = Some ''http://b''\<rparr>
       else \<lparr>cr_pieces = [''x.com'', '',y''], cr_complete = True, cr_status = 200, cr_redirect = None\<rparr>\<rparr>"

lemma ex_curl_turns:
  "url_is_supported ex_curl ''http://a''" "url_is_supported ex_curl ''http://b''"
  "fetch_once ex_curl [''http://a''] 0 ''http://a'' = Again ''http://b''"
  "fetch_once ex_curl [''http://a'', ''http://b''] 1 ''http://b'' = Done (Inr ''x.com,y'')"
proof -
  have "strcaseeq ''HTTP'' ''http''" by code_simp
  then show "url_is_supported ex_curl ''http://a''" "url_is_supported ex_curl ''http://b''"
    "fetch_once ex_curl [''http://a''] 0 ''http://a'' = Again ''http://b''"
    "fetch_once ex_curl [''http://a'', ''http://b''] 1 ''http://b'' = Done (Inr ''x.com,y'')"
    by (simp_all add: fetch_once_def url_is_supported_def ex_curl_def write_cb_def
        MT_SUB_FETCH_MAX_REDIRECTS_def MT_SUB_FETCH_MAX_BODY_BYTES_def Let_def)
qed

theorem fetch_bounded_witness:
  "fetch_loop ex_curl [] 0 ''http://a'' = (Inr ''x.com,y'', [''http://a'', ''http://b'']) \<and>
   mt_sub_fetch_list ex_curl ''http://a'' = Inr (concat (cr_pieces (curl_perform ex_curl ''http://b'')))"
proof -
  have run: "fetch_loop ex_curl [] 0 ''http://a'' = (Inr ''x.com,y'', [''http://a'', ''http://b''])"
    by (simp add: fetch_loop.simps ex_curl_turns [simplified] visited_add_def MT_SUB_FETCH_MAX_REDIRECTS_def)
  show ?thesis using fetch_bounded [OF run] run by simp
qed

lemma ex_fetch: "mt_sub_fetch_list ex_curl ''http://b'' = Inr ''x.com,y''"
proof -
  have "fetch_once ex_curl [''http://b''] 0 ''http://b'' = Done (Inr ''x.com,y'')"
    by (simp add: fetch_once_def ex_curl_def write_cb_def MT_SUB_FETCH_MAX_BODY_BYTES_def Let_def)
  then show ?thesis
    by (simp add: mt_sub_fetch_list_def fetch_loop.simps ex_curl_turns visited_add_def MT_SUB_FETCH_MAX_REDIRECTS_def)
qed

end
