(* ===== verification/App.thy ===== *)
theory App
  imports Ruleset Snapshot Subparse Sub_Fetch
begin

text \<open>
  The registry of rule sets, \<^verbatim>\<open>src/api/app.c\<close>: one rule set per group of the configuration and one per
  subscription, their creation and removal together with the configuration, and the rebuild of the
  netfilter tables.

  A rule set and the configuration share their group in C; here both carry it, and an operation that edits a
  group changes both.  The arrays of rule sets are lists; the arrays of the configuration keep their capacity
  (\<open>Models\<close>).  An operation gives \<open>None\<close> when it writes past an array or follows a null pointer.  The clock is an
  argument, and the lock is not modelled: every operation runs as a whole.
\<close>

section \<open>State\<close>

text \<open>
  The state of \<^verbatim>\<open>mt_app\<close>.  The last field is not one of the program: it records what the latest rebuild of the
  rule sets of the subscriptions returned, which the program gives to its caller or, when it rolls back, to its log;
  no operation reads it.
\<close>

record ('k, 's, 'x, 're) mt_app =
  ap_cfg :: mt_config
  ap_cache :: mt_cache
  ap_rulesets :: "mt_ruleset list"
  ap_subs :: "mt_ruleset list"
  ap_running :: bool
  ap_remap :: "mt_port_remap option"
  ap_pipeline :: bool
  ap_published :: "'re mt_group_snapshot list option"
  ap_world :: "('k, 's, 'x) world"
  ap_rebuilt :: mt_err

definition ruleset_deps :: "('k, 's, 'x, 're) rs_deps \<Rightarrow> ('k, 's, 'x, 're) mt_app \<Rightarrow> ('k, 's, 'x, 're) rs_deps" where
  "ruleset_deps D a =
    D\<lparr>rd_ipset_prefix := (case table_prefix (netfilter (app (ap_cfg a))) of Some p \<Rightarrow> p | None \<Rightarrow> []),
      rd_chain_prefix := (case chain_prefix (netfilter (app (ap_cfg a))) of Some p \<Rightarrow> p | None \<Rightarrow> [])\<rparr>"

definition rulesets_push :: "mt_ruleset \<Rightarrow> ('k, 's, 'x, 're) mt_app \<Rightarrow> ('k, 's, 'x, 're) mt_app" where
  "rulesets_push rs a = a\<lparr>ap_rulesets := ap_rulesets a @ [rs]\<rparr>"

definition rulesets_remove_at :: "nat \<Rightarrow> ('k, 's, 'x, 're) mt_app \<Rightarrow> ('k, 's, 'x, 're) mt_app" where
  "rulesets_remove_at idx a = a\<lparr>ap_rulesets := take (length (ap_rulesets a) - 1) (shift_down (ap_rulesets a) idx)\<rparr>"

definition mt_app_republish_dns_snapshot ::
  "('k, 's, 'x, 're) rs_deps \<Rightarrow> ('k, 's, 'x, 're) mt_app \<Rightarrow> ('k, 's, 'x, 're) mt_app option" where
  "mt_app_republish_dns_snapshot D a =
    (if \<not> ap_pipeline a then Some a
     else map_option (\<lambda>snap. a\<lparr>ap_published := Some snap\<rparr>) (mt_ruleset_snapshot_build (rd_pcre D) (ap_cfg a)))"

section \<open>The rule sets of the subscriptions\<close>

fun disable_all :: "('k, 's, 'x, 're) rs_deps \<Rightarrow> mt_ruleset list \<Rightarrow> ('k, 's, 'x) world \<Rightarrow> ('k, 's, 'x) world" where
  "disable_all D [] w = w"
| "disable_all D (rs # rss) w = (case mt_ruleset_disable D rs w of (_, _, w) \<Rightarrow> disable_all D rss w)"

definition free_subscription_rulesets ::
  "('k, 's, 'x, 're) rs_deps \<Rightarrow> ('k, 's, 'x, 're) mt_app \<Rightarrow> ('k, 's, 'x, 're) mt_app" where
  "free_subscription_rulesets D a = a\<lparr>ap_world := disable_all D (ap_subs a) (ap_world a), ap_subs := []\<rparr>"

text \<open>Enabling a new rule set and filling its sets, as both registries do while the program runs.\<close>

definition bring_up ::
  "('k, 's, 'x, 're) rs_deps \<Rightarrow> mt_cache \<Rightarrow> int \<Rightarrow> mt_ruleset \<Rightarrow> ('k, 's, 'x) world
    \<Rightarrow> (mt_err \<times> mt_ruleset \<times> ('k, 's, 'x) world) option" where
  "bring_up D c now rs w =
    (case mt_ruleset_enable D rs w of (err, rs, w) \<Rightarrow>
       if err \<noteq> MT_OK then Some (err, rs, w)
       else map_option (\<lambda>(err, w). (err, rs, w)) (mt_ruleset_sync D c now rs w))"

fun rebuild_subs ::
  "('k, 's, 'x, 're) rs_deps \<Rightarrow> int \<Rightarrow> mt_subscription list \<Rightarrow> ('k, 's, 'x, 're) mt_app
    \<Rightarrow> (mt_err \<times> ('k, 's, 'x, 're) mt_app) option" where
  "rebuild_subs D now [] a = Some (MT_OK, a)"
| "rebuild_subs D now (s # ss) a =
    (case mt_sub_runtime_group s of
       None \<Rightarrow> None
     | Some g \<Rightarrow>
         if ap_running a
         then (case bring_up D (ap_cache a) now (mt_ruleset_new g) (ap_world a) of
                 None \<Rightarrow> None
               | Some (err, rs, w) \<Rightarrow>
                   let a = a\<lparr>ap_subs := ap_subs a @ [rs], ap_world := w\<rparr>
                   in if err \<noteq> MT_OK then Some (err, free_subscription_rulesets D a) else rebuild_subs D now ss a)
         else rebuild_subs D now ss (a\<lparr>ap_subs := ap_subs a @ [mt_ruleset_new g]\<rparr>))"

definition rebuild_subscription_rulesets ::
  "('k, 's, 'x, 're) rs_deps \<Rightarrow> int \<Rightarrow> ('k, 's, 'x, 're) mt_app \<Rightarrow> (mt_err \<times> ('k, 's, 'x, 're) mt_app) option" where
  "rebuild_subscription_rulesets D now a =
    map_option (\<lambda>(err, a). (err, a\<lparr>ap_rebuilt := err\<rparr>))
      (rebuild_subs (ruleset_deps D a) now (items (subscriptions (ap_cfg a))) (free_subscription_rulesets (ruleset_deps D a) a))"

section \<open>Groups\<close>

definition mt_app_create ::
  "('k, 's, 'x, 're) rs_deps \<Rightarrow> int \<Rightarrow> mt_config \<Rightarrow> mt_cache \<Rightarrow> bool \<Rightarrow> ('k, 's, 'x) world
    \<Rightarrow> (mt_err \<times> ('k, 's, 'x, 're) mt_app) option" where
  "mt_app_create D now cfg c pl w =
    rebuild_subscription_rulesets D now
      \<lparr>ap_cfg = cfg, ap_cache = c, ap_rulesets = map mt_ruleset_new (items (groups cfg)), ap_subs = [], ap_running = False,
       ap_remap = None, ap_pipeline = pl, ap_published = None, ap_world = w, ap_rebuilt = MT_OK\<rparr>"

definition mt_app_find_group_by_id :: "('k, 's, 'x, 're) mt_app \<Rightarrow> mt_id \<Rightarrow> nat option" where
  "mt_app_find_group_by_id a i =
    List.find (\<lambda>n. group_id (rs_group (ap_rulesets a ! n)) = i) [0..<length (ap_rulesets a)]"

definition mt_app_add_group ::
  "('k, 's, 'x, 're) rs_deps \<Rightarrow> int \<Rightarrow> mt_group \<Rightarrow> ('k, 's, 'x, 're) mt_app \<Rightarrow> (mt_err \<times> ('k, 's, 'x, 're) mt_app) option" where
  "mt_app_add_group D now g a =
    (if \<exists>g' \<in> set (items (groups (ap_cfg a))). group_id g' = group_id g then Some (MT_ERR_EXIST, a)
     else if \<not> distinct (map rule_id (items (group_rules g))) then Some (MT_ERR_INVAL, a)
     else case mt_config_add_group g (ap_cfg a) of
       None \<Rightarrow> None
     | Some cfg \<Rightarrow>
         (let idx = length (items (groups cfg)) - 1; D' = ruleset_deps D a;
              rs = mt_ruleset_new g; a = a\<lparr>ap_cfg := cfg\<rparr>
          in if ap_running a
             then (case bring_up D' (ap_cache a) now rs (ap_world a) of
                     None \<Rightarrow> None
                   | Some (err, rs, w) \<Rightarrow>
                       let a = (rulesets_push rs a)\<lparr>ap_world := w\<rparr>
                       in if err \<noteq> MT_OK
                          then (case mt_ruleset_disable D' rs w of (_, _, w) \<Rightarrow>
                                  let a = (rulesets_remove_at (length (ap_rulesets a) - 1) a)\<lparr>ap_world := w\<rparr>
                                  in map_option (\<lambda>cfg. (err, a\<lparr>ap_cfg := cfg\<rparr>)) (mt_config_remove_group_by_index idx cfg))
                          else map_option (Pair MT_OK) (mt_app_republish_dns_snapshot D a))
             else map_option (Pair MT_OK) (mt_app_republish_dns_snapshot D (rulesets_push rs a))))"

definition mt_app_clear_groups ::
  "('k, 's, 'x, 're) rs_deps \<Rightarrow> ('k, 's, 'x, 're) mt_app \<Rightarrow> ('k, 's, 'x, 're) mt_app option" where
  "mt_app_clear_groups D a =
    mt_app_republish_dns_snapshot D
      (a\<lparr>ap_world := disable_all D (ap_rulesets a) (ap_world a), ap_rulesets := [],
         ap_cfg := mt_config_clear_groups (ap_cfg a)\<rparr>)"

text \<open>Removal only forgets the rule set; its caller has disabled it.\<close>

definition mt_app_remove_group_by_index ::
  "('k, 's, 'x, 're) rs_deps \<Rightarrow> nat \<Rightarrow> ('k, 's, 'x, 're) mt_app \<Rightarrow> ('k, 's, 'x, 're) mt_app option" where
  "mt_app_remove_group_by_index D idx a =
    (if length (ap_rulesets a) \<le> idx then Some a
     else case mt_config_remove_group_by_index idx (ap_cfg a) of
       None \<Rightarrow> None
     | Some cfg \<Rightarrow> mt_app_republish_dns_snapshot D ((rulesets_remove_at idx a)\<lparr>ap_cfg := cfg\<rparr>))"

definition mt_app_remove_group_by_id ::
  "('k, 's, 'x, 're) rs_deps \<Rightarrow> mt_id \<Rightarrow> ('k, 's, 'x, 're) mt_app \<Rightarrow> (bool \<times> ('k, 's, 'x, 're) mt_app) option" where
  "mt_app_remove_group_by_id D i a =
    (case mt_app_find_group_by_id a i of
       None \<Rightarrow> Some (False, a)
     | Some idx \<Rightarrow> map_option (Pair True) (mt_app_remove_group_by_index D idx a))"

section \<open>Subscriptions\<close>

text \<open>A failed change is undone and the rule sets are built again; whether that works is only logged.\<close>

definition roll_back ::
  "('k, 's, 'x, 're) rs_deps \<Rightarrow> int \<Rightarrow> mt_err \<Rightarrow> mt_config \<Rightarrow> ('k, 's, 'x, 're) mt_app
    \<Rightarrow> (mt_err \<times> ('k, 's, 'x, 're) mt_app) option" where
  "roll_back D now err cfg a =
    map_option (\<lambda>(_, a). (err, a)) (rebuild_subscription_rulesets D now (a\<lparr>ap_cfg := cfg\<rparr>))"

definition mt_app_add_subscription ::
  "('k, 's, 'x, 're) rs_deps \<Rightarrow> int \<Rightarrow> mt_subscription \<Rightarrow> ('k, 's, 'x, 're) mt_app
    \<Rightarrow> (mt_err \<times> ('k, 's, 'x, 're) mt_app) option" where
  "mt_app_add_subscription D now s a =
    (if \<exists>s' \<in> set (items (subscriptions (ap_cfg a))). sub_id s' = sub_id s then Some (MT_ERR_EXIST, a)
     else case mt_config_add_subscription s (ap_cfg a) of
       None \<Rightarrow> None
     | Some cfg \<Rightarrow>
         (case rebuild_subscription_rulesets D now (a\<lparr>ap_cfg := cfg\<rparr>) of
            None \<Rightarrow> None
          | Some (err, a) \<Rightarrow>
              if err \<noteq> MT_OK
              then (case mt_config_remove_subscription_by_index (length (items (subscriptions cfg)) - 1) cfg of
                      None \<Rightarrow> None
                    | Some cfg \<Rightarrow> roll_back D now err cfg a)
              else map_option (Pair MT_OK) (mt_app_republish_dns_snapshot D a)))"

text \<open>The new array is allocated for exactly the new subscriptions.\<close>

definition mt_app_replace_subscriptions ::
  "('k, 's, 'x, 're) rs_deps \<Rightarrow> int \<Rightarrow> mt_subscription list \<Rightarrow> ('k, 's, 'x, 're) mt_app
    \<Rightarrow> (mt_err \<times> ('k, 's, 'x, 're) mt_app) option" where
  "mt_app_replace_subscriptions D now subs a =
    (let old = ap_cfg a
     in case rebuild_subscription_rulesets D now
               (a\<lparr>ap_cfg := old\<lparr>subscriptions := \<lparr>items = subs, cap = length subs\<rparr>\<rparr>\<rparr>) of
          None \<Rightarrow> None
        | Some (err, a) \<Rightarrow>
            if err \<noteq> MT_OK then roll_back D now err old a
            else map_option (Pair MT_OK) (mt_app_republish_dns_snapshot D a))"

text \<open>Put back at its place: appended, then moved down by the loop \<^verbatim>\<open>for (i = last; i > idx; i--)\<close>.\<close>

definition restore_subscription :: "mt_subscription \<Rightarrow> nat \<Rightarrow> mt_config \<Rightarrow> mt_config option" where
  "restore_subscription s idx cfg =
    map_option (\<lambda>cfg. cfg\<lparr>subscriptions := (subscriptions cfg)\<lparr>items :=
        (foldl (\<lambda>xs i. xs[i := xs ! (i - 1)]) (items (subscriptions cfg))
           (rev [Suc idx..<length (items (subscriptions cfg))]))[idx := s]\<rparr>\<rparr>)
      (mt_config_add_subscription s cfg)"

definition mt_app_remove_subscription_by_id ::
  "('k, 's, 'x, 're) rs_deps \<Rightarrow> int \<Rightarrow> mt_id \<Rightarrow> ('k, 's, 'x, 're) mt_app
    \<Rightarrow> (mt_err \<times> bool \<times> ('k, 's, 'x, 're) mt_app) option" where
  "mt_app_remove_subscription_by_id D now i a =
    (case List.find (\<lambda>n. sub_id (items (subscriptions (ap_cfg a)) ! n) = i) [0..<length (items (subscriptions (ap_cfg a)))] of
       None \<Rightarrow> Some (MT_OK, False, a)
     | Some idx \<Rightarrow>
         let removed = items (subscriptions (ap_cfg a)) ! idx
         in case parr_remove idx (subscriptions (ap_cfg a)) of
              None \<Rightarrow> None
            | Some arr \<Rightarrow>
                let cfg = (ap_cfg a)\<lparr>subscriptions := arr\<rparr>
                in case rebuild_subscription_rulesets D now (a\<lparr>ap_cfg := cfg\<rparr>) of
                     None \<Rightarrow> None
                   | Some (err, a) \<Rightarrow>
                       if err \<noteq> MT_OK
                       then (case restore_subscription removed idx cfg of
                               None \<Rightarrow> None
                             | Some cfg \<Rightarrow> map_option (\<lambda>(err, a). (err, True, a)) (roll_back D now err cfg a))
                       else map_option (\<lambda>a. (MT_OK, True, a)) (mt_app_republish_dns_snapshot D a))"

section \<open>Downloading subscriptions\<close>

text \<open>
  \<open>C\<close> is libcurl, \<open>re\<close> the test whether a pattern compiles, \<open>draws\<close> the random identifiers and \<open>now_unix\<close> the time that the caller
  passes; \<open>now\<close> is the clock that the rebuild of the rule sets reads.  The body of a download is used as a C string.  \<open>None\<close>
  is also the result when the random identifiers end.
\<close>

definition find_subscription_mut :: "mt_config \<Rightarrow> mt_id \<Rightarrow> nat option" where
  "find_subscription_mut cfg i =
    List.find (\<lambda>n. sub_id (items (subscriptions cfg) ! n) = i) [0..<length (items (subscriptions cfg))]"

definition put_sub :: "nat \<Rightarrow> mt_subscription \<Rightarrow> mt_config \<Rightarrow> mt_config" where
  "put_sub idx s cfg = cfg\<lparr>subscriptions := (subscriptions cfg)\<lparr>items := (items (subscriptions cfg))[idx := s]\<rparr>\<rparr>"

text \<open>The rules that a body gives a subscription, and whether they differ from those it has.\<close>

definition refreshed_rules ::
  "(string \<Rightarrow> bool) \<Rightarrow> string \<Rightarrow> mt_subscription \<Rightarrow> mt_id list \<Rightarrow> (mt_sub_rule parr \<times> bool \<times> mt_id list) option" where
  "refreshed_rules re body s draws =
    (let old = map Some (items (sub_rules s))
     in map_option (\<lambda>(new, draws). (new, \<not> mt_sub_same_rules re old (map Some (items new)), draws))
          (mt_sub_refresh_rules re (takeWhile (\<lambda>c. c \<noteq> CHR 0x00) body) old draws))"

definition fetch_url_of :: "string option \<Rightarrow> mt_subscription \<Rightarrow> string option" where
  "fetch_url_of url_override sub = (if url_override \<noteq> None \<and> url_override \<noteq> Some [] then url_override else sub_url sub)"

text \<open>The subscription after a download, and the change of the registry with its roll-back.\<close>

definition planned :: "int \<Rightarrow> mt_sub_rule parr \<Rightarrow> bool \<Rightarrow> mt_subscription \<Rightarrow> mt_subscription" where
  "planned now_unix refreshed rules_changed s =
    (let s1 = s\<lparr>sub_last_check := word_of_int now_unix\<rparr>
     in if rules_changed then s1\<lparr>sub_rules := refreshed, sub_last_update := word_of_int now_unix\<rparr> else s1)"

definition synced :: "int \<Rightarrow> string \<Rightarrow> mt_sub_rule parr \<Rightarrow> bool \<Rightarrow> mt_subscription \<Rightarrow> mt_subscription" where
  "synced now_unix url refreshed rules_changed s = planned now_unix refreshed rules_changed (s\<lparr>sub_url := Some url\<rparr>)"

definition commit_refreshed ::
  "('k, 's, 'x, 're) rs_deps \<Rightarrow> int \<Rightarrow> int \<Rightarrow> nat \<Rightarrow> string \<Rightarrow> mt_sub_rule parr \<Rightarrow> bool \<Rightarrow> ('k, 's, 'x, 're) mt_app
    \<Rightarrow> (mt_err \<times> bool \<times> ('k, 's, 'x, 're) mt_app) option" where
  "commit_refreshed D now now_unix idx url refreshed rules_changed a =
    (let sub = items (subscriptions (ap_cfg a)) ! idx;
         url_changed = (case sub_url sub of None \<Rightarrow> [] | Some u \<Rightarrow> u) \<noteq> url;
         cfg = put_sub idx (synced now_unix url refreshed rules_changed sub) (ap_cfg a)
     in if rules_changed
        then (case rebuild_subscription_rulesets D now (a\<lparr>ap_cfg := cfg\<rparr>) of
                None \<Rightarrow> None
              | Some (err, a') \<Rightarrow>
                  if err \<noteq> MT_OK then map_option (\<lambda>(err, a). (err, True, a)) (roll_back D now err (ap_cfg a) a')
                  else map_option (\<lambda>a. (MT_OK, True, a)) (mt_app_republish_dns_snapshot D a'))
        else Some (MT_OK, url_changed, a\<lparr>ap_cfg := cfg\<rparr>))"

definition mt_app_sync_subscription_by_id ::
  "('k, 's, 'x, 're) rs_deps \<Rightarrow> curl \<Rightarrow> (string \<Rightarrow> bool) \<Rightarrow> int \<Rightarrow> mt_id \<Rightarrow> int \<Rightarrow> string option \<Rightarrow> mt_id list \<Rightarrow> ('k, 's, 'x, 're) mt_app
    \<Rightarrow> (mt_err \<times> bool \<times> ('k, 's, 'x, 're) mt_app) option" where
  "mt_app_sync_subscription_by_id D C re now i now_unix url_override draws a =
    (case find_subscription_mut (ap_cfg a) i of
       None \<Rightarrow> Some (MT_ERR_NOENT, False, a)
     | Some idx \<Rightarrow>
         let sub = items (subscriptions (ap_cfg a)) ! idx
         in case fetch_url_of url_override sub of
              None \<Rightarrow> Some (MT_ERR_INVAL, False, a)
            | Some url \<Rightarrow>
                if url = [] then Some (MT_ERR_INVAL, False, a)
                else case mt_sub_fetch_list C url of
                  Inl _ \<Rightarrow> Some (MT_ERR_UPSTREAM, False, a)
                | Inr body \<Rightarrow>
                    (case refreshed_rules re body sub draws of
                       None \<Rightarrow> None
                     | Some (refreshed, rules_changed, _) \<Rightarrow>
                         commit_refreshed D now now_unix idx url refreshed rules_changed a))"

text \<open>The plans of a round over the subscriptions that are due; one that cannot be downloaded is left out.\<close>

type_synonym sub_plan = "mt_id \<times> mt_sub_rule parr \<times> bool"

definition plan_for ::
  "curl \<Rightarrow> (string \<Rightarrow> bool) \<Rightarrow> mt_config \<Rightarrow> mt_id \<Rightarrow> mt_id list \<Rightarrow> (sub_plan list \<times> mt_id list) option" where
  "plan_for C re cfg i draws =
    (case find_subscription_mut cfg i of
       None \<Rightarrow> Some ([], draws)
     | Some idx \<Rightarrow>
         let sub = items (subscriptions cfg) ! idx
         in if sub_url sub = None \<or> sub_url sub = Some [] then Some ([], draws)
            else case mt_sub_fetch_list C (the (sub_url sub)) of
              Inl _ \<Rightarrow> Some ([], draws)
            | Inr body \<Rightarrow>
                map_option (\<lambda>(refreshed, changed, draws). ([(i, refreshed, changed)], draws)) (refreshed_rules re body sub draws))"

fun make_plans ::
  "curl \<Rightarrow> (string \<Rightarrow> bool) \<Rightarrow> mt_config \<Rightarrow> mt_id list \<Rightarrow> mt_id list \<Rightarrow> (sub_plan list \<times> mt_id list) option" where
  "make_plans C re cfg [] draws = Some ([], draws)"
| "make_plans C re cfg (i # is) draws =
    (case plan_for C re cfg i draws of
       None \<Rightarrow> None
     | Some (p, draws) \<Rightarrow> map_option (\<lambda>(ps, draws). (p @ ps, draws)) (make_plans C re cfg is draws))"

text \<open>Applying the plans; what is needed to take them back: the place, the rules and the two times.\<close>

fun apply_plans ::
  "int \<Rightarrow> sub_plan list \<Rightarrow> mt_config \<Rightarrow> mt_config \<times> (nat \<times> mt_sub_rule parr \<times> u32 \<times> u32) list \<times> bool" where
  "apply_plans now_unix [] cfg = (cfg, [], False)"
| "apply_plans now_unix ((i, refreshed, changed) # ps) cfg =
    (case find_subscription_mut cfg i of
       None \<Rightarrow> apply_plans now_unix ps cfg
     | Some idx \<Rightarrow>
         let sub = items (subscriptions cfg) ! idx
         in case apply_plans now_unix ps (put_sub idx (planned now_unix refreshed changed sub) cfg) of (cfg, rb, any) \<Rightarrow>
              (cfg, (idx, sub_rules sub, sub_last_check sub, sub_last_update sub) # rb, changed \<or> any))"

fun restore_plans :: "(nat \<times> mt_sub_rule parr \<times> u32 \<times> u32) list \<Rightarrow> mt_config \<Rightarrow> mt_config" where
  "restore_plans [] cfg = cfg"
| "restore_plans ((idx, rules, check, update) # rb) cfg =
    restore_plans rb (put_sub idx ((items (subscriptions cfg) ! idx)
      \<lparr>sub_rules := rules, sub_last_check := check, sub_last_update := update\<rparr>) cfg)"

definition mt_app_sync_due_subscriptions ::
  "('k, 's, 'x, 're) rs_deps \<Rightarrow> curl \<Rightarrow> (string \<Rightarrow> bool) \<Rightarrow> int \<Rightarrow> int \<Rightarrow> mt_id list \<Rightarrow> ('k, 's, 'x, 're) mt_app
    \<Rightarrow> (mt_err \<times> bool \<times> ('k, 's, 'x, 're) mt_app) option" where
  "mt_app_sync_due_subscriptions D C re now now_unix draws a =
    (let due = filter (\<lambda>s. mt_sub_is_due (Some s) now_unix) (items (subscriptions (ap_cfg a)))
     in case make_plans C re (ap_cfg a) (map sub_id due) draws of
          None \<Rightarrow> None
        | Some (plans, _) \<Rightarrow>
            (case apply_plans now_unix plans (ap_cfg a) of (cfg, rollback, any_changed) \<Rightarrow>
               if \<not> any_changed then Some (MT_OK, False, a\<lparr>ap_cfg := cfg\<rparr>)
               else case rebuild_subscription_rulesets D now (a\<lparr>ap_cfg := cfg\<rparr>) of
                      None \<Rightarrow> None
                    | Some (err, a') \<Rightarrow>
                        if err \<noteq> MT_OK
                        then map_option (\<lambda>(err, a). (err, True, a)) (roll_back D now err (restore_plans rollback cfg) a')
                        else map_option (\<lambda>a. (MT_OK, True, a)) (mt_app_republish_dns_snapshot D a')))"

section \<open>The netfilter tables\<close>

fun prepare_all :: "mt_ruleset list \<Rightarrow> ('k, 's, 'x) world \<Rightarrow> (mt_err \<times> ('k, 's, 'x) world) option" where
  "prepare_all [] w = Some (MT_OK, w)"
| "prepare_all (rs # rss) w =
    (case mt_ruleset_prepare_iptables rs w of
       None \<Rightarrow> None
     | Some (err, w) \<Rightarrow> if err \<noteq> MT_OK then Some (err, w) else prepare_all rss w)"

definition commit_engine :: "'x committer \<Rightarrow> 'x engine \<Rightarrow> mt_err \<times> 'x engine" where
  "commit_engine commit eng =
    (case eng of None \<Rightarrow> (MT_OK, None) | Some (ipt, x) \<Rightarrow> (case commit ipt x of (err, x) \<Rightarrow> (err, Some (ipt, x))))"

definition commit_both :: "'x committer \<Rightarrow> ('k, 's, 'x) world \<Rightarrow> mt_err \<times> ('k, 's, 'x) world" where
  "commit_both commit w =
    (case commit_engine commit (nw_ipt4 (w_net w)) of (err, eng4) \<Rightarrow>
     let w = w\<lparr>w_net := (w_net w)\<lparr>nw_ipt4 := eng4\<rparr>\<rparr>
     in if err \<noteq> MT_OK then (err, w)
        else case commit_engine commit (nw_ipt6 (w_net w)) of (err, eng6) \<Rightarrow> (err, w\<lparr>w_net := (w_net w)\<lparr>nw_ipt6 := eng6\<rparr>\<rparr>))"

text \<open>
  \<open>raised1\<close> and \<open>raised2\<close> are what the two looks at the cancellation token see; \<open>current\<close> reads the tables for the cleaner.
\<close>

definition rebuild_netfilter_locked ::
  "('k, 's, 'x, 're) rs_deps \<Rightarrow> ('x \<Rightarrow> mt_err + rules_snapshot) \<Rightarrow> (u8 list \<Rightarrow> string) \<Rightarrow> bool \<Rightarrow> bool \<Rightarrow> ('k, 's, 'x, 're) mt_app
    \<Rightarrow> (mt_err \<times> ('k, 's, 'x) world) option" where
  "rebuild_netfilter_locked D current ntop raised1 raised2 a =
    (let w = ap_world a
     in case mt_netfilter_clean_iptables current (rd_commit D) (rd_chain_prefix (ruleset_deps D a)) (nw_ipt4 (w_net w)) (nw_ipt6 (w_net w)) of
          (err, eng4, eng6) \<Rightarrow>
     let w = w\<lparr>w_net := (w_net w)\<lparr>nw_ipt4 := eng4, nw_ipt6 := eng6\<rparr>\<rparr>
     in if err \<noteq> MT_OK then Some (err, w)
        else if raised1 then Some (MT_ERR_CANCELED, w)
        else case mt_netfilter_register_base_chains eng4 eng6 of (_, eng4, eng6) \<Rightarrow>
             case mt_port_remap_prepare_iptables ntop (ap_remap a) eng4 eng6 of (err, eng4, eng6) \<Rightarrow>
             let w = w\<lparr>w_net := (w_net w)\<lparr>nw_ipt4 := eng4, nw_ipt6 := eng6\<rparr>\<rparr>
             in if err \<noteq> MT_OK then Some (err, w)
                else case prepare_all (ap_rulesets a @ ap_subs a) w of
                       None \<Rightarrow> None
                     | Some (err, w) \<Rightarrow>
                         if err \<noteq> MT_OK then Some (err, w)
                         else if raised2 then Some (MT_ERR_CANCELED, w)
                         else Some (commit_both (rd_commit D) w))"

text \<open>\<^verbatim>\<open>mt_app_force_commit_iptables\<close> without a committer thread; with one it is \<^verbatim>\<open>mt_nfcommit_request\<close>.\<close>

definition mt_app_force_commit_iptables ::
  "('k, 's, 'x, 're) rs_deps \<Rightarrow> ('k, 's, 'x, 're) mt_app \<Rightarrow> mt_err \<times> ('k, 's, 'x, 're) mt_app" where
  "mt_app_force_commit_iptables D a =
    (case commit_both (rd_commit D) (ap_world a) of (err, w) \<Rightarrow> (err, a\<lparr>ap_world := w\<rparr>))"

section \<open>The registry mirrors the configuration\<close>

text \<open>
  The rule sets of the subscriptions are those of the configured subscriptions; after a rebuild that failed there
  are none.
\<close>

definition subs_mirror :: "('k, 's, 'x, 're) mt_app \<Rightarrow> bool" where
  "subs_mirror a \<longleftrightarrow>
    (if ap_rebuilt a = MT_OK
     then map (\<lambda>rs. Some (rs_group rs)) (ap_subs a) = map mt_sub_runtime_group (items (subscriptions (ap_cfg a)))
     else ap_subs a = [])"

definition app_inv :: "('k, 's, 'x, 're) mt_app \<Rightarrow> bool" where
  "app_inv a \<longleftrightarrow>
    map rs_group (ap_rulesets a) = items (groups (ap_cfg a)) \<and>
    distinct (map group_id (items (groups (ap_cfg a)))) \<and> parr_ok (groups (ap_cfg a)) \<and>
    (\<forall>rs \<in> set (ap_rulesets a) \<union> set (ap_subs a). rs_inv rs) \<and> subs_mirror a"

lemma bring_up_result:
  assumes "rs_inv rs" "bring_up D c now rs w = Some (err, rs', w')"
  shows "rs_inv rs' \<and> rs_group rs' = rs_group rs"
proof -
  obtain e rs1 w1 where "mt_ruleset_enable D rs w = (e, rs1, w1)" by (rule prod_cases3)
  then show ?thesis
    using assms(2) enable_result [OF assms(1), of D w e rs1 w1] by (auto simp: bring_up_def split: if_splits)
qed

text \<open>What the rebuild of the subscriptions leaves alone.\<close>

definition same_groups :: "('k, 's, 'x, 're) mt_app \<Rightarrow> ('k, 's, 'x, 're) mt_app \<Rightarrow> bool" where
  "same_groups a a' \<longleftrightarrow> ap_cfg a' = ap_cfg a \<and> ap_rulesets a' = ap_rulesets a"

lemma rebuild_subs_result:
  assumes "rebuild_subs D now ss a = Some (err, a')" "\<forall>rs \<in> set (ap_subs a). rs_inv rs"
  shows "same_groups a a' \<and> (\<forall>rs \<in> set (ap_subs a'). rs_inv rs) \<and>
    (if err = MT_OK
     then map (\<lambda>rs. Some (rs_group rs)) (ap_subs a') = map (\<lambda>rs. Some (rs_group rs)) (ap_subs a) @ map mt_sub_runtime_group ss
     else ap_subs a' = [])"
  using assms
proof (induction D now ss a rule: rebuild_subs.induct)
  case (1 D now a)
  then show ?case by (auto simp: same_groups_def)
next
  case (2 D now s ss a)
  obtain g where g: "mt_sub_runtime_group s = Some g"
    using 2(3) by (auto split: option.splits)
  show ?case
  proof (cases "ap_running a")
    case False
    then show ?thesis
      using 2(2) [OF g False] 2(3,4) g rs_inv_new [of g] by (auto simp: same_groups_def mt_ruleset_new_def)
  next
    case True
    obtain e rs w where b: "bring_up D (ap_cache a) now (mt_ruleset_new g) (ap_world a) = Some (e, rs, w)"
      using 2(3) g True by (auto split: option.splits)
    have rs: "rs_inv rs" "rs_group rs = g"
      using bring_up_result [OF rs_inv_new b] by (simp_all add: mt_ruleset_new_def)
    show ?thesis
    proof (cases "e = MT_OK")
      case e: True
      then have r: "rebuild_subs D now ss (a\<lparr>ap_subs := ap_subs a @ [rs], ap_world := w\<rparr>) = Some (err, a')"
        using 2(3) g True b by (simp add: Let_def)
      show ?thesis
        using 2(1) [OF g True b refl refl refl _ r] e rs 2(4) g by (auto simp: same_groups_def)
    next
      case False
      then show ?thesis
        using 2(3) g True b by (auto simp: Let_def free_subscription_rulesets_def same_groups_def)
    qed
  qed
qed

lemma rebuild_result:
  assumes "rebuild_subscription_rulesets D now a = Some (err, a')"
  shows "same_groups a a' \<and> (\<forall>rs \<in> set (ap_subs a'). rs_inv rs) \<and> subs_mirror a' \<and> ap_rebuilt a' = err"
proof -
  obtain a1 where a1: "rebuild_subs (ruleset_deps D a) now (items (subscriptions (ap_cfg a)))
      (free_subscription_rulesets (ruleset_deps D a) a) = Some (err, a1)" "a' = a1\<lparr>ap_rebuilt := err\<rparr>"
    using assms by (auto simp: rebuild_subscription_rulesets_def)
  show ?thesis
    using rebuild_subs_result [OF a1(1)] unfolding a1(2)
    by (auto simp: free_subscription_rulesets_def same_groups_def subs_mirror_def split: if_splits)
qed

lemma republish_result:
  assumes "mt_app_republish_dns_snapshot D a = Some a'"
  shows "ap_cfg a' = ap_cfg a \<and> ap_rulesets a' = ap_rulesets a \<and> ap_subs a' = ap_subs a \<and>
    ap_rebuilt a' = ap_rebuilt a"
  using assms by (auto simp: mt_app_republish_dns_snapshot_def split: if_splits)

lemma rebuild_cfg: "rebuild_subscription_rulesets D now a = Some (err, a') \<Longrightarrow> ap_cfg a' = ap_cfg a"
  by (drule rebuild_result) (simp add: same_groups_def)

lemma roll_back_cfg: "roll_back D now err cfg a = Some (err', a') \<Longrightarrow> ap_cfg a' = cfg \<and> err' = err"
  by (auto simp: roll_back_def dest: rebuild_cfg)

lemma republish_cfg: "mt_app_republish_dns_snapshot D a = Some a' \<Longrightarrow> ap_cfg a' = ap_cfg a"
  using republish_result by blast

lemma add_remove_last:
  assumes "parr_add x arr = Some arr1" "parr_remove (length (items arr1) - 1) arr1 = Some arr2"
  shows "items arr2 = items arr"
proof -
  have a1: "items arr1 = items arr @ [x]"
    using assms(1) by (auto simp: parr_add_def Let_def split: if_splits)
  then show ?thesis
    using assms(2) shift_down_eq [of "length (items arr)" "items arr @ [x]"] by (auto simp: parr_remove_def)
qed

lemma add_remove_group:
  assumes "mt_config_add_group g c = Some c1" "mt_config_remove_group_by_index (length (items (groups c1)) - 1) c1 = Some c2"
  shows "items (groups c2) = items (groups c) \<and> subscriptions c2 = subscriptions c"
proof -
  obtain arr1 where 1: "parr_add g (groups c) = Some arr1" "c1 = c\<lparr>groups := arr1\<rparr>"
    using assms(1) by (auto simp: mt_config_add_group_def)
  obtain arr2 where 2: "parr_remove (length (items arr1) - 1) arr1 = Some arr2" "c2 = c1\<lparr>groups := arr2\<rparr>"
    using assms(2) 1(2) by (auto simp: mt_config_remove_group_by_index_def)
  show ?thesis using add_remove_last [OF 1(1) 2(1)] 1(2) 2(2) by simp
qed

lemma add_remove_subscription:
  assumes "mt_config_add_subscription s c = Some c1"
    "mt_config_remove_subscription_by_index (length (items (subscriptions c1)) - 1) c1 = Some c2"
  shows "items (subscriptions c2) = items (subscriptions c) \<and> groups c2 = groups c"
proof -
  obtain arr1 where 1: "parr_add s (subscriptions c) = Some arr1" "c1 = c\<lparr>subscriptions := arr1\<rparr>"
    using assms(1) by (auto simp: mt_config_add_subscription_def)
  obtain arr2 where 2: "parr_remove (length (items arr1) - 1) arr1 = Some arr2" "c2 = c1\<lparr>subscriptions := arr2\<rparr>"
    using assms(2) 1(2) by (auto simp: mt_config_remove_subscription_by_index_def)
  show ?thesis using add_remove_last [OF 1(1) 2(1)] 1(2) 2(2) by simp
qed

lemma app_inv_cong:
  assumes "app_inv a" "ap_cfg a' = ap_cfg a" "ap_rulesets a' = ap_rulesets a" "ap_subs a' = ap_subs a"
    "ap_rebuilt a' = ap_rebuilt a"
  shows "app_inv a'"
  using assms by (simp add: app_inv_def subs_mirror_def)

lemma add_group_config:
  assumes "parr_ok (groups c)" "mt_config_add_group g c = Some c'"
  shows "items (groups c') = items (groups c) @ [g] \<and> parr_ok (groups c') \<and> subscriptions c' = subscriptions c"
  using assms parr_add_ok [OF assms(1), of g] by (auto simp: mt_config_add_group_def)

lemma remove_group_config:
  assumes "parr_ok (groups c)" "i < length (items (groups c))" "mt_config_remove_group_by_index i c = Some c'"
  shows "items (groups c') = take i (items (groups c)) @ drop (Suc i) (items (groups c)) \<and> parr_ok (groups c')
    \<and> subscriptions c' = subscriptions c"
  using parr_remove_ok [OF assms(1,2)] assms(3) by (auto simp: mt_config_remove_group_by_index_def)

lemma distinct_ids_append:
  "distinct (map group_id gs) \<Longrightarrow> \<not> (\<exists>g' \<in> set gs. group_id g' = group_id g) \<Longrightarrow> distinct (map group_id (gs @ [g]))"
  by auto

lemma push_inv:
  assumes "app_inv a" "mt_config_add_group g (ap_cfg a) = Some cfg" "rs_inv rs" "rs_group rs = g"
    and "\<not> (\<exists>g' \<in> set (items (groups (ap_cfg a))). group_id g' = group_id g)"
  shows "app_inv ((rulesets_push rs (a\<lparr>ap_cfg := cfg\<rparr>))\<lparr>ap_world := w\<rparr>)"
proof -
  have "items (groups cfg) = items (groups (ap_cfg a)) @ [g]" "parr_ok (groups cfg)"
    "subscriptions cfg = subscriptions (ap_cfg a)"
    using add_group_config [OF _ assms(2)] assms(1) by (auto simp: app_inv_def)
  then show ?thesis
    using assms distinct_ids_append [OF _ assms(5)] by (auto simp: app_inv_def subs_mirror_def rulesets_push_def)
qed

lemma distinct_remove_at:
  assumes "distinct xs"
  shows "distinct (take i xs @ drop (Suc i) xs)"
proof (cases "i < length xs")
  case True
  then have "distinct (take i xs @ xs ! i # drop (Suc i) xs)"
    using assms id_take_nth_drop [OF True] by simp
  then show ?thesis by auto
qed (use assms in simp)

lemma remove_inv:
  assumes "app_inv a" "idx < length (ap_rulesets a)" "mt_config_remove_group_by_index idx (ap_cfg a) = Some cfg"
  shows "app_inv ((rulesets_remove_at idx a)\<lparr>ap_cfg := cfg, ap_world := w\<rparr>)"
proof -
  have rg: "map rs_group (ap_rulesets a) = items (groups (ap_cfg a))"
    using assms(1) by (simp add: app_inv_def)
  then have idx: "idx < length (items (groups (ap_cfg a)))"
    using assms(2) by (metis length_map)
  have c: "items (groups cfg) = take idx (items (groups (ap_cfg a))) @ drop (Suc idx) (items (groups (ap_cfg a)))"
    "parr_ok (groups cfg)" "subscriptions cfg = subscriptions (ap_cfg a)"
    using remove_group_config [OF _ idx assms(3)] assms(1) by (auto simp: app_inv_def)
  have "distinct (map group_id (items (groups cfg)))"
    using assms(1) distinct_remove_at [of "map group_id (items (groups (ap_cfg a)))" idx]
    unfolding c(1) app_inv_def by (simp add: take_map drop_map)
  moreover have "\<forall>rs \<in> set (take idx (ap_rulesets a) @ drop (Suc idx) (ap_rulesets a)) \<union> set (ap_subs a). rs_inv rs"
    using assms(1) by (auto simp: app_inv_def dest: in_set_takeD in_set_dropD)
  moreover have "map rs_group (take idx (ap_rulesets a) @ drop (Suc idx) (ap_rulesets a)) = items (groups cfg)"
    unfolding c(1) by (simp add: take_map drop_map flip: rg)
  ultimately show ?thesis
    using assms(1) c(2,3) shift_down_eq [OF assms(2)]
    by (simp add: app_inv_def subs_mirror_def rulesets_remove_at_def)
qed

lemma inv_add_group:
  assumes "app_inv a" "mt_app_add_group D now g a = Some (err, a')"
  shows "app_inv a' \<and> (err \<noteq> MT_OK \<longrightarrow> items (groups (ap_cfg a')) = items (groups (ap_cfg a))
    \<and> subscriptions (ap_cfg a') = subscriptions (ap_cfg a))"
proof (cases "(\<exists>g' \<in> set (items (groups (ap_cfg a))). group_id g' = group_id g) \<or> \<not> distinct (map rule_id (items (group_rules g)))")
  case True
  then show ?thesis using assms by (auto simp: mt_app_add_group_def split: if_splits)
next
  case False
  then obtain cfg where cfg: "mt_config_add_group g (ap_cfg a) = Some cfg"
    using assms(2) by (auto simp: mt_app_add_group_def split: option.splits)
  note push = push_inv [OF assms(1) cfg]
  show ?thesis
  proof (cases "ap_running a")
    case notrun: False
    then have "err = MT_OK" "mt_app_republish_dns_snapshot D (rulesets_push (mt_ruleset_new g) (a\<lparr>ap_cfg := cfg\<rparr>)) = Some a'"
      using assms(2) False cfg by (auto simp: mt_app_add_group_def Let_def)
    moreover have "app_inv (rulesets_push (mt_ruleset_new g) (a\<lparr>ap_cfg := cfg\<rparr>))"
      using push [OF rs_inv_new, of g] False
      by (intro app_inv_cong [OF push [OF rs_inv_new, of g]]) (auto simp: mt_ruleset_new_def)
    ultimately show ?thesis using republish_result app_inv_cong by blast
  next
    case run: True
    obtain e rs w where b: "bring_up (ruleset_deps D a) (ap_cache a) now (mt_ruleset_new g) (ap_world a) = Some (e, rs, w)"
      using assms(2) False cfg run by (auto simp: mt_app_add_group_def Let_def split: option.splits)
    have rs: "rs_inv rs" "rs_group rs = g"
      using bring_up_result [OF rs_inv_new b] by (simp_all add: mt_ruleset_new_def)
    define a1 where "a1 = (rulesets_push rs (a\<lparr>ap_cfg := cfg\<rparr>))\<lparr>ap_world := w\<rparr>"
    have a1: "app_inv a1"
      using push [OF rs] False by (simp add: a1_def)
    show ?thesis
    proof (cases "e = MT_OK")
      case True
      then have "err = MT_OK" "mt_app_republish_dns_snapshot D a1 = Some a'"
        using assms(2) False cfg run b by (auto simp: mt_app_add_group_def Let_def a1_def)
      then show ?thesis using a1 republish_result app_inv_cong by blast
    next
      case e: False
      obtain e2 rs2 w2 where d: "mt_ruleset_disable (ruleset_deps D a) rs w = (e2, rs2, w2)" by (rule prod_cases3)
      obtain cfg' where c': "mt_config_remove_group_by_index (length (items (groups cfg)) - 1) cfg = Some cfg'"
        "a' = (rulesets_remove_at (length (ap_rulesets a1) - 1) a1)\<lparr>ap_world := w2, ap_cfg := cfg'\<rparr>"
        using assms(2) False cfg run b e d by (auto simp: mt_app_add_group_def Let_def a1_def)
      have len: "length (items (groups cfg)) = length (ap_rulesets a1)" "length (ap_rulesets a1) - 1 < length (ap_rulesets a1)"
        using a1 by (auto simp: app_inv_def a1_def rulesets_push_def dest: arg_cong [of _ _ length])
      have "ap_cfg a1 = cfg" by (simp add: a1_def rulesets_push_def)
      then have "app_inv ((rulesets_remove_at (length (ap_rulesets a1) - 1) a1)\<lparr>ap_cfg := cfg', ap_world := w2\<rparr>)"
        using remove_inv [OF a1 len(2), of cfg' w2] c'(1) len(1) by simp
      then have "app_inv a'" unfolding c'(2) by (rule app_inv_cong) simp_all
      moreover have "items (groups cfg') = items (groups (ap_cfg a))" "subscriptions cfg' = subscriptions (ap_cfg a)"
        using add_remove_group [OF cfg c'(1)] by simp_all
      ultimately show ?thesis by (simp add: c'(2))
    qed
  qed
qed

lemma inv_clear_groups:
  assumes "app_inv a" "mt_app_clear_groups D a = Some a'"
  shows "app_inv a'"
proof -
  have "app_inv (a\<lparr>ap_world := disable_all D (ap_rulesets a) (ap_world a), ap_rulesets := [],
      ap_cfg := mt_config_clear_groups (ap_cfg a)\<rparr>)"
    using assms(1) by (simp add: app_inv_def subs_mirror_def mt_config_clear_groups_def) (simp add: parr_null_def)
  then show ?thesis
    using assms(2) republish_result app_inv_cong unfolding mt_app_clear_groups_def by blast
qed

lemma inv_remove_group:
  assumes "app_inv a" "mt_app_remove_group_by_index D idx a = Some a'"
  shows "app_inv a'"
proof (cases "idx < length (ap_rulesets a)")
  case True
  then obtain cfg where cfg: "mt_config_remove_group_by_index idx (ap_cfg a) = Some cfg"
    "mt_app_republish_dns_snapshot D ((rulesets_remove_at idx a)\<lparr>ap_cfg := cfg\<rparr>) = Some a'"
    using assms(2) by (auto simp: mt_app_remove_group_by_index_def split: option.splits)
  have "app_inv ((rulesets_remove_at idx a)\<lparr>ap_cfg := cfg\<rparr>)"
    by (rule app_inv_cong [OF remove_inv [OF assms(1) True cfg(1), of "ap_world a"]]) simp_all
  then show ?thesis using cfg(2) republish_result app_inv_cong by blast
qed (use assms in \<open>simp add: mt_app_remove_group_by_index_def\<close>)

text \<open>Every change of the subscriptions ends in a rebuild of their rule sets.\<close>

lemma inv_rebuild:
  assumes "app_inv a" "groups cfg = groups (ap_cfg a)" "rebuild_subscription_rulesets D now (a\<lparr>ap_cfg := cfg\<rparr>) = Some (err, a')"
  shows "app_inv a' \<and> ap_cfg a' = cfg \<and> ap_rebuilt a' = err"
  using rebuild_result [OF assms(3)] assms(1,2) by (auto simp: app_inv_def same_groups_def)

lemma inv_roll_back:
  assumes "app_inv a" "groups cfg = groups (ap_cfg a)" "roll_back D now err cfg a = Some (err', a')"
  shows "app_inv a'"
  using assms(3) inv_rebuild [OF assms(1,2), of D now] by (auto simp: roll_back_def)

lemma inv_add_subscription:
  assumes "app_inv a" "mt_app_add_subscription D now s a = Some (err, a')"
  shows "app_inv a' \<and> (err = MT_OK \<longrightarrow> ap_rebuilt a' = MT_OK) \<and> (err \<noteq> MT_OK \<longrightarrow> items (subscriptions (ap_cfg a')) = items (subscriptions (ap_cfg a))
    \<and> groups (ap_cfg a') = groups (ap_cfg a))"
proof (cases "\<exists>s' \<in> set (items (subscriptions (ap_cfg a))). sub_id s' = sub_id s")
  case False
  obtain cfg where cfg: "mt_config_add_subscription s (ap_cfg a) = Some cfg"
    using assms(2) False by (auto simp: mt_app_add_subscription_def split: option.splits)
  then have g: "groups cfg = groups (ap_cfg a)"
    by (auto simp: mt_config_add_subscription_def)
  obtain e a1 where r: "rebuild_subscription_rulesets D now (a\<lparr>ap_cfg := cfg\<rparr>) = Some (e, a1)"
    using assms(2) False cfg by (auto simp: mt_app_add_subscription_def split: option.splits)
  note a1 = inv_rebuild [OF assms(1) g r]
  show ?thesis
  proof (cases "e = MT_OK")
    case True
    then have ok: "err = MT_OK" "mt_app_republish_dns_snapshot D a1 = Some a'"
      using assms(2) False cfg r by (auto simp: mt_app_add_subscription_def)
    then have "app_inv a'" using a1 republish_result app_inv_cong by blast
    then show ?thesis using ok republish_result [OF ok(2)] a1 True by simp
  next
    case e: False
    then obtain cfg' where c': "mt_config_remove_subscription_by_index (length (items (subscriptions cfg)) - 1) cfg = Some cfg'"
      "roll_back D now e cfg' a1 = Some (err, a')"
      using assms(2) False cfg r by (auto simp: mt_app_add_subscription_def split: option.splits)
    have "groups cfg' = groups (ap_cfg a1)"
      using c'(1) a1 by (auto simp: mt_config_remove_subscription_by_index_def)
    then have "app_inv a'" using inv_roll_back [OF _ _ c'(2)] a1 by blast
    moreover have "items (subscriptions cfg') = items (subscriptions (ap_cfg a))" "groups cfg' = groups (ap_cfg a)"
      using add_remove_subscription [OF cfg c'(1)] by simp_all
    ultimately show ?thesis using roll_back_cfg [OF c'(2)] e by simp
  qed
qed (use assms in \<open>auto simp: mt_app_add_subscription_def\<close>)

lemma inv_replace_subscriptions:
  assumes "app_inv a" "mt_app_replace_subscriptions D now subs a = Some (err, a')"
  shows "app_inv a' \<and> (if err = MT_OK
    then ap_rebuilt a' = MT_OK \<and> subscriptions (ap_cfg a') = \<lparr>items = subs, cap = length subs\<rparr> else ap_cfg a' = ap_cfg a)"
proof -
  let ?cfg = "(ap_cfg a)\<lparr>subscriptions := \<lparr>items = subs, cap = length subs\<rparr>\<rparr>"
  obtain e a1 where r: "rebuild_subscription_rulesets D now (a\<lparr>ap_cfg := ?cfg\<rparr>) = Some (e, a1)"
    using assms(2) by (auto simp: mt_app_replace_subscriptions_def Let_def split: option.splits)
  have a1: "app_inv a1" "ap_cfg a1 = ?cfg" "ap_rebuilt a1 = e"
    using inv_rebuild [OF assms(1) _ r] by simp_all
  show ?thesis
  proof (cases "e = MT_OK")
    case True
    then have ok: "err = MT_OK" "mt_app_republish_dns_snapshot D a1 = Some a'"
      using assms(2) r by (auto simp: mt_app_replace_subscriptions_def Let_def)
    then have "app_inv a'" using a1(1) republish_result app_inv_cong by blast
    then show ?thesis using ok republish_result [OF ok(2)] a1(2,3) True by simp
  next
    case False
    then have "roll_back D now e (ap_cfg a) a1 = Some (err, a')"
      using assms(2) r by (auto simp: mt_app_replace_subscriptions_def Let_def)
    then show ?thesis using inv_roll_back [OF a1(1)] roll_back_cfg a1(2) False by fastforce
  qed
qed

lemma move_up:
  assumes "idx < n" "n \<le> length xs"
  shows "foldl (\<lambda>xs i. xs[i := xs ! (i - 1)]) xs (rev [Suc idx..<n]) =
    take (Suc idx) xs @ take (n - Suc idx) (drop idx xs) @ drop n xs"
  using assms
proof (induction n arbitrary: xs)
  case (Suc n)
  show ?case
  proof (cases "idx = n")
    case False
    then have n: "idx < n" "n < length xs" using Suc.prems by auto
    define ys where "ys = xs[n := xs ! (n - 1)]"
    have "take (n - Suc idx) (drop idx ys) = take (n - Suc idx) (drop idx xs)"
      using n by (intro nth_equalityI) (auto simp: ys_def)
    moreover have "take (Suc idx) ys = take (Suc idx) xs" "drop n ys = xs ! (n - 1) # drop (Suc n) xs"
      using n by (simp_all add: ys_def drop_update_swap Cons_nth_drop_Suc [symmetric] take_update_swap list_update_beyond)
    moreover have "take (Suc n - Suc idx) (drop idx xs) = take (n - Suc idx) (drop idx xs) @ [xs ! (n - 1)]"
      using n take_Suc_conv_app_nth [of "n - Suc idx" "drop idx xs"] by (simp add: Suc_diff_Suc)
    ultimately show ?thesis
      using Suc.IH [of ys] n by (simp add: ys_def)
  qed simp
qed simp

lemma restore_items:
  assumes "idx < length xs" "items (subscriptions cfg) = take idx xs @ drop (Suc idx) xs"
    and "restore_subscription (xs ! idx) idx cfg = Some cfg'"
  shows "items (subscriptions cfg') = xs \<and> groups cfg' = groups cfg"
proof -
  define ys where "ys = take idx xs @ drop (Suc idx) xs @ [xs ! idx]"
  obtain arr where arr: "parr_add (xs ! idx) (subscriptions cfg) = Some arr" "items arr = ys"
    using assms(2,3) by (auto simp: restore_subscription_def mt_config_add_subscription_def parr_add_def Let_def ys_def split: if_splits)
  have len: "length ys = length xs" "idx < length ys" "drop idx ys = drop (Suc idx) xs @ [xs ! idx]" "take idx ys = take idx xs"
    using assms(1) by (simp_all add: ys_def)
  have "(take (Suc idx) ys @ take (length ys - Suc idx) (drop idx ys))[idx := xs ! idx] = xs"
    using assms(1) len id_take_nth_drop [OF assms(1)]
    by (simp add: take_Suc_conv_app_nth list_update_append)
  then show ?thesis
    using assms(3) arr move_up [OF len(2) order_refl]
    by (auto simp: restore_subscription_def mt_config_add_subscription_def)
qed

lemma inv_remove_subscription:
  assumes "app_inv a" "mt_app_remove_subscription_by_id D now i a = Some (err, found, a')"
  shows "app_inv a' \<and> (err = MT_OK \<and> found \<longrightarrow> ap_rebuilt a' = MT_OK) \<and> (err \<noteq> MT_OK \<longrightarrow> items (subscriptions (ap_cfg a')) = items (subscriptions (ap_cfg a))
    \<and> groups (ap_cfg a') = groups (ap_cfg a))"
proof (cases "List.find (\<lambda>n. sub_id (items (subscriptions (ap_cfg a)) ! n) = i) [0..<length (items (subscriptions (ap_cfg a)))]")
  case None
  then show ?thesis using assms by (simp add: mt_app_remove_subscription_by_id_def)
next
  case (Some idx)
  let ?xs = "items (subscriptions (ap_cfg a))"
  have idx: "idx < length ?xs"
    using Some by (auto simp: find_Some_iff)
  define arr where "arr = (subscriptions (ap_cfg a))\<lparr>items := take (length ?xs - 1) (shift_down ?xs idx)\<rparr>"
  have arr: "parr_remove idx (subscriptions (ap_cfg a)) = Some arr" "items arr = take idx ?xs @ drop (Suc idx) ?xs"
    using idx shift_down_eq [OF idx] by (simp_all add: parr_remove_def arr_def)
  let ?cfg = "(ap_cfg a)\<lparr>subscriptions := arr\<rparr>"
  obtain e a1 where r: "rebuild_subscription_rulesets D now (a\<lparr>ap_cfg := ?cfg\<rparr>) = Some (e, a1)"
    using assms(2) Some arr(1) by (auto simp: mt_app_remove_subscription_by_id_def Let_def split: option.splits)
  have a1: "app_inv a1" "ap_cfg a1 = ?cfg" "ap_rebuilt a1 = e"
    using inv_rebuild [OF assms(1) _ r] by simp_all
  show ?thesis
  proof (cases "e = MT_OK")
    case True
    then have ok: "err = MT_OK" "mt_app_republish_dns_snapshot D a1 = Some a'"
      using assms(2) Some arr(1) r by (auto simp: mt_app_remove_subscription_by_id_def Let_def)
    then have "app_inv a'" using a1(1) republish_result app_inv_cong by blast
    then show ?thesis using ok republish_result [OF ok(2)] a1(3) True by simp
  next
    case False
    then obtain cfg' where c: "restore_subscription (?xs ! idx) idx ?cfg = Some cfg'" "roll_back D now e cfg' a1 = Some (err, a')"
      using assms(2) Some arr(1) r
      by (auto simp: mt_app_remove_subscription_by_id_def Let_def split: option.splits)
    have cfg': "items (subscriptions cfg') = ?xs" "groups cfg' = groups (ap_cfg a1)"
      using restore_items [OF idx _ c(1)] arr(2) a1(2) by simp_all
    obtain e2 where "rebuild_subscription_rulesets D now (a1\<lparr>ap_cfg := cfg'\<rparr>) = Some (e2, a')" "err \<noteq> MT_OK"
      using c(2) False by (auto simp: roll_back_def)
    then show ?thesis
      using inv_rebuild [OF a1(1) cfg'(2)] cfg' a1(2) by simp
  qed
qed

subsection \<open>Downloads\<close>

lemma put_sub_groups [simp]: "groups (put_sub idx s cfg) = groups cfg"
  by (simp add: put_sub_def)

lemma put_sub_items [simp]: "items (subscriptions (put_sub idx s cfg)) = (items (subscriptions cfg))[idx := s]"
  by (simp add: put_sub_def)

lemma runtime_group_cong:
  "sub_id s' = sub_id s \<Longrightarrow> sub_name s' = sub_name s \<Longrightarrow> sub_iface s' = sub_iface s \<Longrightarrow> sub_enable s' = sub_enable s \<Longrightarrow>
    items (sub_rules s') = items (sub_rules s) \<Longrightarrow> mt_sub_runtime_group s' = mt_sub_runtime_group s"
  by (simp add: mt_sub_runtime_group_def)

lemma put_sub_mirror:
  assumes "app_inv a" "mt_sub_runtime_group s = mt_sub_runtime_group (items (subscriptions (ap_cfg a)) ! idx)"
  shows "app_inv (a\<lparr>ap_cfg := put_sub idx s (ap_cfg a)\<rparr>)"
proof -
  have "map mt_sub_runtime_group ((items (subscriptions (ap_cfg a)))[idx := s]) = map mt_sub_runtime_group (items (subscriptions (ap_cfg a)))"
    using assms(2) by (cases "idx < length (items (subscriptions (ap_cfg a)))") (simp_all add: map_update list_update_same_conv list_update_beyond)
  then show ?thesis using assms(1) by (simp add: app_inv_def subs_mirror_def)
qed

lemma find_sub_idx: "find_subscription_mut cfg i = Some idx \<Longrightarrow>
    idx < length (items (subscriptions cfg)) \<and> sub_id (items (subscriptions cfg) ! idx) = i"
  by (auto simp: find_subscription_mut_def find_Some_iff)

lemma inv_commit_refreshed:
  assumes "app_inv a" "commit_refreshed D now now_unix idx url refreshed rc a = Some (err, changed, a')"
  shows "app_inv a' \<and>
    (if err \<noteq> MT_OK then ap_cfg a' = ap_cfg a
     else ap_cfg a' = put_sub idx (synced now_unix url refreshed rc (items (subscriptions (ap_cfg a)) ! idx)) (ap_cfg a) \<and>
       changed = (rc \<or> (case sub_url (items (subscriptions (ap_cfg a)) ! idx) of None \<Rightarrow> [] | Some u \<Rightarrow> u) \<noteq> url) \<and>
       (rc \<longrightarrow> ap_rebuilt a' = MT_OK) \<and> (\<not> rc \<longrightarrow> ap_subs a' = ap_subs a \<and> ap_world a' = ap_world a))"
proof (cases rc)
  case False
  let ?s = "items (subscriptions (ap_cfg a)) ! idx"
  have "mt_sub_runtime_group (synced now_unix url refreshed rc ?s) = mt_sub_runtime_group ?s"
    using False by (intro runtime_group_cong) (simp_all add: synced_def planned_def)
  then show ?thesis
    using False assms(2) put_sub_mirror [OF assms(1)] by (auto simp: commit_refreshed_def Let_def)
next
  case True
  let ?cfg = "put_sub idx (synced now_unix url refreshed rc (items (subscriptions (ap_cfg a)) ! idx)) (ap_cfg a)"
  obtain e a1 where r: "rebuild_subscription_rulesets D now (a\<lparr>ap_cfg := ?cfg\<rparr>) = Some (e, a1)"
    using assms(2) True by (auto simp: commit_refreshed_def Let_def split: option.splits)
  have a1: "app_inv a1" "ap_cfg a1 = ?cfg" "ap_rebuilt a1 = e"
    using inv_rebuild [OF assms(1) _ r] by simp_all
  show ?thesis
  proof (cases "e = MT_OK")
    case e: True
    then have ok: "err = MT_OK" "mt_app_republish_dns_snapshot D a1 = Some a'" "changed"
      using assms(2) True r by (auto simp: commit_refreshed_def Let_def)
    then have "app_inv a'" using a1(1) republish_result app_inv_cong by blast
    then show ?thesis using ok republish_result [OF ok(2)] a1(2,3) e True by simp
  next
    case False
    then have "roll_back D now e (ap_cfg a) a1 = Some (err, a')"
      using assms(2) True r by (auto simp: commit_refreshed_def Let_def)
    then show ?thesis using inv_roll_back [OF a1(1)] roll_back_cfg a1(2) False by fastforce
  qed
qed

lemma inv_sync_subscription:
  assumes "app_inv a" "mt_app_sync_subscription_by_id D C re now i now_unix url_override draws a = Some (err, changed, a')"
  shows "app_inv a' \<and>
    (if err \<noteq> MT_OK then ap_cfg a' = ap_cfg a
     else \<exists>idx url body refreshed rc rest.
       idx < length (items (subscriptions (ap_cfg a))) \<and> sub_id (items (subscriptions (ap_cfg a)) ! idx) = i \<and>
       fetch_url_of url_override (items (subscriptions (ap_cfg a)) ! idx) = Some url \<and> mt_sub_fetch_list C url = Inr body \<and>
       refreshed_rules re body (items (subscriptions (ap_cfg a)) ! idx) draws = Some (refreshed, rc, rest) \<and>
       ap_cfg a' = put_sub idx (synced now_unix url refreshed rc (items (subscriptions (ap_cfg a)) ! idx)) (ap_cfg a) \<and>
       changed = (rc \<or> (case sub_url (items (subscriptions (ap_cfg a)) ! idx) of None \<Rightarrow> [] | Some u \<Rightarrow> u) \<noteq> url) \<and>
       (rc \<longrightarrow> ap_rebuilt a' = MT_OK) \<and> (\<not> rc \<longrightarrow> ap_subs a' = ap_subs a \<and> ap_world a' = ap_world a))"
proof -
  consider "err \<noteq> MT_OK \<and> a' = a"
    | idx url body refreshed rc rest where "find_subscription_mut (ap_cfg a) i = Some idx" "mt_sub_fetch_list C url = Inr body"
        "refreshed_rules re body (items (subscriptions (ap_cfg a)) ! idx) draws = Some (refreshed, rc, rest)"
        "commit_refreshed D now now_unix idx url refreshed rc a = Some (err, changed, a')"
        "fetch_url_of url_override (items (subscriptions (ap_cfg a)) ! idx) = Some url"
    using assms(2) by (auto simp: mt_app_sync_subscription_by_id_def Let_def split: option.splits sum.splits if_splits)
  then show ?thesis
  proof cases
    case 1
    then show ?thesis using assms(1) by simp
  next
    case 2
    show ?thesis
      using inv_commit_refreshed [OF assms(1) 2(4)] find_sub_idx [OF 2(1)] 2(2,3,5) by (cases "err = MT_OK"; simp) blast+
  qed
qed

lemma plan_for_id: "plan_for C re cfg i draws = Some (p, draws') \<Longrightarrow> p = [] \<or> map fst p = [i]"
  by (auto simp: plan_for_def Let_def split: option.splits sum.splits if_splits)

lemma make_plans_ids:
  "make_plans C re cfg ids draws = Some (ps, draws') \<Longrightarrow> set (map fst ps) \<subseteq> set ids \<and> (distinct ids \<longrightarrow> distinct (map fst ps))"
proof (induction ids arbitrary: ps draws draws')
  case (Cons i ids)
  then obtain p draws1 ps' where p: "plan_for C re cfg i draws = Some (p, draws1)"
      "make_plans C re cfg ids draws1 = Some (ps', draws')" "ps = p @ ps'"
    by (auto split: option.splits)
  show ?case using plan_for_id [OF p(1)] Cons.IH [OF p(2)] p(3) by auto
qed simp

definition sub_ids :: "mt_config \<Rightarrow> mt_id list" where
  "sub_ids cfg = map sub_id (items (subscriptions cfg))"

lemma put_sub_ids: "idx < length (items (subscriptions cfg)) \<Longrightarrow> sub_id s = sub_id (items (subscriptions cfg) ! idx) \<Longrightarrow> sub_ids (put_sub idx s cfg) = sub_ids cfg"
  by (simp add: sub_ids_def map_update list_update_same_conv)

lemma find_sub_ids: "find_subscription_mut cfg i = Some idx \<Longrightarrow> idx < length (sub_ids cfg) \<and> sub_ids cfg ! idx = i"
  using find_sub_idx [of cfg i idx] by (simp add: sub_ids_def)

lemma put_sub_twice [simp]: "put_sub i s (put_sub i t cfg) = put_sub i s cfg"
  by (simp add: put_sub_def)

lemma put_sub_swap: "i \<noteq> j \<Longrightarrow> put_sub i s (put_sub j t cfg) = put_sub j t (put_sub i s cfg)"
  by (simp add: put_sub_def list_update_swap)

lemma put_sub_self: "put_sub i (items (subscriptions cfg) ! i) cfg = cfg"
  by (simp add: put_sub_def)

lemma apply_plans_props:
  "apply_plans now_unix ps cfg = (cfg', rb, any) \<Longrightarrow>
    groups cfg' = groups cfg \<and> sub_ids cfg' = sub_ids cfg \<and>
    (\<not> any \<longrightarrow> map mt_sub_runtime_group (items (subscriptions cfg')) = map mt_sub_runtime_group (items (subscriptions cfg))) \<and>
    (\<forall>e \<in> set rb. fst e < length (sub_ids cfg) \<and> sub_ids cfg ! fst e \<in> set (map fst ps)) \<and>
    (\<forall>j. j \<notin> fst ` set rb \<longrightarrow> items (subscriptions cfg') ! j = items (subscriptions cfg) ! j)"
proof (induction now_unix ps cfg arbitrary: cfg' rb any rule: apply_plans.induct)
  case (2 now_unix i refreshed changed ps cfg)
  show ?case
  proof (cases "find_subscription_mut cfg i")
    case None
    then show ?thesis using 2(1) [OF None] 2(3) by auto
  next
    case (Some idx)
    define sub where "sub = items (subscriptions cfg) ! idx"
    define sub2 where "sub2 = planned now_unix refreshed changed sub"
    obtain rb' any' where r: "apply_plans now_unix ps (put_sub idx sub2 cfg) = (cfg', rb', any')"
      "rb = (idx, sub_rules sub, sub_last_check sub, sub_last_update sub) # rb'" "any = (changed \<or> any')"
      using 2(3) Some by (auto simp: Let_def sub_def [symmetric] sub2_def [symmetric] split: prod.splits)
    note idx = find_sub_idx [OF Some]
    have ids: "sub_ids (put_sub idx sub2 cfg) = sub_ids cfg"
      using idx by (intro put_sub_ids) (simp_all add: sub_def sub2_def planned_def Let_def)
    have "mt_sub_runtime_group sub2 = mt_sub_runtime_group sub" if "\<not> changed"
      using that by (intro runtime_group_cong) (simp_all add: sub2_def planned_def)
    then have "map mt_sub_runtime_group (items (subscriptions (put_sub idx sub2 cfg))) = map mt_sub_runtime_group (items (subscriptions cfg))" if "\<not> changed"
      using that idx by (simp add: map_update list_update_same_conv sub_def)
    then show ?thesis
      using 2(2) [OF Some sub_def r(1) [unfolded sub2_def], folded sub2_def] r(2,3) ids find_sub_ids [OF Some] by auto
  qed
qed simp

lemma restore_plans_swap:
  "idx \<notin> fst ` set rb \<Longrightarrow> restore_plans rb (put_sub idx s cfg) = put_sub idx s (restore_plans rb cfg)"
proof (induction rb cfg arbitrary: rule: restore_plans.induct)
  case (2 j rules check update rb cfg)
  then have j: "idx \<noteq> j" by auto
  then show ?case using 2 by (auto simp: put_sub_swap [of j idx] nth_list_update_neq)
qed simp

text \<open>Taking the plans back gives the old configuration, if every subscription has at most one plan.\<close>

lemma restore_apply:
  assumes "apply_plans now_unix ps cfg = (cfg', rb, any)" "distinct (map fst ps)"
  shows "restore_plans rb cfg' = cfg"
  using assms
proof (induction now_unix ps cfg arbitrary: cfg' rb any rule: apply_plans.induct)
  case (2 now_unix i refreshed changed ps cfg)
  show ?case
  proof (cases "find_subscription_mut cfg i")
    case None
    then show ?thesis using 2(1) [OF None] 2(3,4) by auto
  next
    case (Some idx)
    define sub where "sub = items (subscriptions cfg) ! idx"
    define sub2 where "sub2 = planned now_unix refreshed changed sub"
    obtain rb' any' where r: "apply_plans now_unix ps (put_sub idx sub2 cfg) = (cfg', rb', any')"
      "rb = (idx, sub_rules sub, sub_last_check sub, sub_last_update sub) # rb'"
      using 2(3) Some by (auto simp: Let_def sub_def [symmetric] sub2_def [symmetric] split: prod.splits)
    note idx = find_sub_idx [OF Some] and props = apply_plans_props [OF r(1)]
    have ids: "sub_ids (put_sub idx sub2 cfg) = sub_ids cfg"
      using idx by (intro put_sub_ids) (simp_all add: sub_def sub2_def planned_def Let_def)
    have "idx \<notin> fst ` set rb'"
      using props ids find_sub_ids [OF Some] 2(4) by auto
    moreover from this have "items (subscriptions cfg') ! idx = sub2"
      using props idx by simp
    moreover have ih: "restore_plans rb' cfg' = put_sub idx sub2 cfg"
      using 2(2) [OF Some sub_def r(1) [unfolded sub2_def], folded sub2_def] 2(4) by simp
    moreover have "sub2\<lparr>sub_rules := sub_rules sub, sub_last_check := sub_last_check sub, sub_last_update := sub_last_update sub\<rparr> = sub"
      by (simp add: sub2_def planned_def Let_def)
    ultimately show ?thesis
      using r(2) put_sub_self [of idx cfg] by (simp add: restore_plans_swap sub_def)
  qed
qed simp

lemma inv_sync_due:
  assumes "app_inv a" "mt_app_sync_due_subscriptions D C re now now_unix draws a = Some (err, changed, a')"
  shows "app_inv a' \<and> groups (ap_cfg a') = groups (ap_cfg a) \<and>
    (err \<noteq> MT_OK \<and> distinct (sub_ids (ap_cfg a)) \<longrightarrow> ap_cfg a' = ap_cfg a) \<and>
    (\<not> changed \<longrightarrow> err = MT_OK \<and> ap_subs a' = ap_subs a \<and> ap_world a' = ap_world a)"
proof -
  define due where "due = filter (\<lambda>s. mt_sub_is_due (Some s) now_unix) (items (subscriptions (ap_cfg a)))"
  obtain plans rest where pl: "make_plans C re (ap_cfg a) (map sub_id due) draws = Some (plans, rest)"
    using assms(2) by (auto simp: mt_app_sync_due_subscriptions_def Let_def due_def [symmetric] split: option.splits)
  obtain cfg rb any where ap: "apply_plans now_unix plans (ap_cfg a) = (cfg, rb, any)" by (rule prod_cases3)
  note props = apply_plans_props [OF ap]
  have step: "(if \<not> any then Some (MT_OK, False, a\<lparr>ap_cfg := cfg\<rparr>)
      else case rebuild_subscription_rulesets D now (a\<lparr>ap_cfg := cfg\<rparr>) of
             None \<Rightarrow> None
           | Some (err, a') \<Rightarrow>
               if err \<noteq> MT_OK then map_option (\<lambda>(err, a). (err, True, a)) (roll_back D now err (restore_plans rb cfg) a')
               else map_option (\<lambda>a. (MT_OK, True, a)) (mt_app_republish_dns_snapshot D a')) = Some (err, changed, a')"
    using assms(2) pl ap by (simp add: mt_app_sync_due_subscriptions_def Let_def due_def [symmetric])
  show ?thesis
  proof (cases any)
    case False
    then show ?thesis
      using step props assms(1) by (auto simp: app_inv_def subs_mirror_def)
  next
    case True
    then obtain e a1 where r: "rebuild_subscription_rulesets D now (a\<lparr>ap_cfg := cfg\<rparr>) = Some (e, a1)"
      using step by (auto split: option.splits)
    have a1: "app_inv a1" "ap_cfg a1 = cfg" using inv_rebuild [OF assms(1) _ r] props by simp_all
    show ?thesis
    proof (cases "e = MT_OK")
      case e: True
      then have ok: "err = MT_OK" "changed" "mt_app_republish_dns_snapshot D a1 = Some a'"
        using step True r by auto
      then have "app_inv a'" using a1(1) republish_result app_inv_cong by blast
      then show ?thesis using ok republish_cfg [OF ok(3)] a1(2) props by simp
    next
      case False
      then have rb: "roll_back D now e (restore_plans rb cfg) a1 = Some (err, a')" "changed"
        using step True r by auto
      have "groups (restore_plans rb cfg) = groups cfg"
        by (induction rb cfg rule: restore_plans.induct) simp_all
      moreover have "restore_plans rb cfg = ap_cfg a" if "distinct (sub_ids (ap_cfg a))"
      proof (rule restore_apply [OF ap])
        have "distinct (map sub_id due)"
          using that by (simp add: due_def sub_ids_def distinct_map_filter)
        then show "distinct (map fst plans)" using make_plans_ids [OF pl] by blast
      qed
      ultimately show ?thesis
        using inv_roll_back [OF a1(1) _ rb(1)] roll_back_cfg [OF rb(1)] a1(2) props rb(2) by auto
    qed
  qed
qed

text \<open>
  Everything that happens to the registry: the operations above, downloads included, the switch between stopped and running, any
  operation on one rule set, an edit of a group whose rule set is off, which keeps the identifier, an edit of the rules of
  a group at any time, and a new snapshot for the DNS path.
\<close>

inductive app_step :: "('k, 's, 'x, 're) rs_deps \<Rightarrow> ('k, 's, 'x, 're) mt_app \<Rightarrow> ('k, 's, 'x, 're) mt_app \<Rightarrow> bool" for D where
  "mt_app_add_group D now g a = Some (err, a') \<Longrightarrow> app_step D a a'"
| "mt_app_clear_groups D a = Some a' \<Longrightarrow> app_step D a a'"
| "mt_app_remove_group_by_id D i a = Some (found, a') \<Longrightarrow> app_step D a a'"
| "mt_app_add_subscription D now s a = Some (err, a') \<Longrightarrow> app_step D a a'"
| "mt_app_replace_subscriptions D now subs a = Some (err, a') \<Longrightarrow> app_step D a a'"
| "mt_app_remove_subscription_by_id D now i a = Some (err, found, a') \<Longrightarrow> app_step D a a'"
| "mt_app_sync_subscription_by_id D C re now i now_unix url_override draws a = Some (err, changed, a') \<Longrightarrow> app_step D a a'"
| "mt_app_sync_due_subscriptions D C re now now_unix draws a = Some (err, changed, a') \<Longrightarrow> app_step D a a'"
| "app_step D a (a\<lparr>ap_running := b\<rparr>)"
| "i < length (ap_rulesets a) \<Longrightarrow> rs_step (D' :: ('k, 's, 'x, 're) rs_deps) (ap_rulesets a ! i, ap_world a) (rs, w) \<Longrightarrow> rs_group rs = rs_group (ap_rulesets a ! i) \<Longrightarrow>
    app_step D a (a\<lparr>ap_rulesets := (ap_rulesets a)[i := rs], ap_world := w\<rparr>)"
| "i < length (ap_subs a) \<Longrightarrow> rs_step (D' :: ('k, 's, 'x, 're) rs_deps) (ap_subs a ! i, ap_world a) (rs, w) \<Longrightarrow> rs_group rs = rs_group (ap_subs a ! i) \<Longrightarrow>
    app_step D a (a\<lparr>ap_subs := (ap_subs a)[i := rs], ap_world := w\<rparr>)"
| "i < length (ap_rulesets a) \<Longrightarrow> \<not> rs_enabled (ap_rulesets a ! i) \<Longrightarrow> group_id g = group_id (rs_group (ap_rulesets a ! i)) \<Longrightarrow>
    app_step D a (a\<lparr>ap_rulesets := (ap_rulesets a)[i := (ap_rulesets a ! i)\<lparr>rs_group := g\<rparr>],
      ap_cfg := (ap_cfg a)\<lparr>groups := (groups (ap_cfg a))\<lparr>items := (items (groups (ap_cfg a)))[i := g]\<rparr>\<rparr>\<rparr>)"
| "i < length (ap_rulesets a) \<Longrightarrow> g = (rs_group (ap_rulesets a ! i))\<lparr>group_rules := rules\<rparr> \<Longrightarrow>
    app_step D a (a\<lparr>ap_rulesets := (ap_rulesets a)[i := (ap_rulesets a ! i)\<lparr>rs_group := g\<rparr>],
      ap_cfg := (ap_cfg a)\<lparr>groups := (groups (ap_cfg a))\<lparr>items := (items (groups (ap_cfg a)))[i := g]\<rparr>\<rparr>\<rparr>)"
| "mt_app_republish_dns_snapshot D a = Some a' \<Longrightarrow> app_step D a a'"

lemma map_update_same: "i < length xs \<Longrightarrow> f x = f (xs ! i) \<Longrightarrow> map f (xs[i := x]) = map f xs"
  by (simp add: map_update list_update_same_conv)

lemma all_update: "\<forall>x \<in> set xs. P x \<Longrightarrow> P y \<Longrightarrow> \<forall>x \<in> set (xs[i := y]). P x"
  by (auto dest!: subsetD [OF set_update_subset_insert])

lemma app_step_ruleset:
  assumes "app_inv a" "i < length (ap_rulesets a)" "rs_inv rs" "rs_group rs = rs_group (ap_rulesets a ! i)"
  shows "app_inv (a\<lparr>ap_rulesets := (ap_rulesets a)[i := rs], ap_world := w\<rparr>)"
proof -
  have "\<forall>r \<in> set ((ap_rulesets a)[i := rs]). rs_inv r"
    using assms(1,3) by (intro all_update) (auto simp: app_inv_def)
  then show ?thesis
    using assms map_update_same [of i "ap_rulesets a" rs_group rs] by (auto simp: app_inv_def subs_mirror_def)
qed

lemma app_step_sub:
  assumes "app_inv a" "i < length (ap_subs a)" "rs_inv rs" "rs_group rs = rs_group (ap_subs a ! i)"
  shows "app_inv (a\<lparr>ap_subs := (ap_subs a)[i := rs], ap_world := w\<rparr>)"
proof -
  have "\<forall>r \<in> set ((ap_subs a)[i := rs]). rs_inv r"
    using assms(1,3) by (intro all_update) (auto simp: app_inv_def)
  then show ?thesis
    using assms map_update_same [of i "ap_subs a" "\<lambda>rs. Some (rs_group rs)" rs] by (auto simp: app_inv_def subs_mirror_def)
qed

lemma app_step_edit:
  assumes "app_inv a" "i < length (ap_rulesets a)"
    "\<not> rs_enabled (ap_rulesets a ! i) \<or> group_enable g = group_enable (rs_group (ap_rulesets a ! i))" "group_id g = group_id (rs_group (ap_rulesets a ! i))"
  shows "app_inv (a\<lparr>ap_rulesets := (ap_rulesets a)[i := (ap_rulesets a ! i)\<lparr>rs_group := g\<rparr>],
      ap_cfg := (ap_cfg a)\<lparr>groups := (groups (ap_cfg a))\<lparr>items := (items (groups (ap_cfg a)))[i := g]\<rparr>\<rparr>\<rparr>)"
proof -
  have rg: "map rs_group (ap_rulesets a) = items (groups (ap_cfg a))"
    using assms(1) by (simp add: app_inv_def)
  then have i: "i < length (items (groups (ap_cfg a)))" "items (groups (ap_cfg a)) ! i = rs_group (ap_rulesets a ! i)"
    using assms(2) by (metis length_map, metis nth_map)
  have ids: "map group_id ((items (groups (ap_cfg a)))[i := g]) = map group_id (items (groups (ap_cfg a)))"
    using assms(4) i by (intro map_update_same) simp_all
  have "rs_inv (ap_rulesets a ! i)"
    using assms(1,2) by (simp add: app_inv_def)
  then have "rs_inv ((ap_rulesets a ! i)\<lparr>rs_group := g\<rparr>)"
    using assms(3) by (auto simp: rs_inv_def configured_enabled_def split: if_splits)
  then have "\<forall>r \<in> set ((ap_rulesets a)[i := (ap_rulesets a ! i)\<lparr>rs_group := g\<rparr>]). rs_inv r"
    using assms(1) by (intro all_update) (auto simp: app_inv_def)
  moreover have "map rs_group ((ap_rulesets a)[i := (ap_rulesets a ! i)\<lparr>rs_group := g\<rparr>]) = (items (groups (ap_cfg a)))[i := g]"
    by (simp add: map_update flip: rg)
  ultimately show ?thesis
    using assms(1) ids by (auto simp: app_inv_def subs_mirror_def parr_ok_def)
qed

lemma app_step_inv: "app_step D a a' \<Longrightarrow> app_inv a \<Longrightarrow> app_inv a'"
proof (induction rule: app_step.induct)
  case (1 now g a err a')
  show ?case using inv_add_group [OF 1(2,1)] by (rule conjunct1)
next
  case (2 a a')
  show ?case by (rule inv_clear_groups [OF 2(2,1)])
next
  case (4 now s a err a')
  show ?case using inv_add_subscription [OF 4(2,1)] by (rule conjunct1)
next
  case (5 now subs a err a')
  show ?case using inv_replace_subscriptions [OF 5(2,1)] by (rule conjunct1)
next
  case (6 now i a err found a')
  show ?case using inv_remove_subscription [OF 6(2,1)] by (rule conjunct1)
next
  case (3 i a found a')
  then show ?case
    using inv_remove_group by (auto simp: mt_app_remove_group_by_id_def split: option.splits)
next
  case (7 C re now i now_unix url_override draws a err changed a')
  show ?case using inv_sync_subscription [OF 7(2,1)] by (rule conjunct1)
next
  case (8 C re now now_unix draws a err changed a')
  show ?case using inv_sync_due [OF 8(2,1)] by (rule conjunct1)
next
  case (9 a b)
  then show ?case by (rule app_inv_cong) simp_all
next
  case (10 i a D' rs w)
  then have "rs_inv rs" using rs_step_inv [OF 10(2)] by (simp add: app_inv_def)
  then show ?case using app_step_ruleset [OF 10(4,1) _ 10(3)] by simp
next
  case (11 i a D' rs w)
  then have "rs_inv rs" using rs_step_inv [OF 11(2)] by (simp add: app_inv_def)
  then show ?case using app_step_sub [OF 11(4,1) _ 11(3)] by simp
next
  case (12 i a g)
  show ?case by (rule app_step_edit [OF 12(4,1) disjI1 [OF 12(2)] 12(3)])
next
  case (13 i a g rules)
  show ?case by (rule app_step_edit [OF 13(3,1)]) (simp_all add: 13(2))
next
  case (14 a a')
  then show ?case using republish_result app_inv_cong by blast
qed

lemma app_create_inv:
  assumes "mt_app_create D now cfg c pl w = Some (err, a)" "parr_ok (groups cfg)" "distinct (map group_id (items (groups cfg)))"
  shows "app_inv a"
proof -
  have new: "map rs_group (map mt_ruleset_new gs) = gs" for gs
    by (induction gs) (simp_all add: mt_ruleset_new_def)
  show ?thesis
    using rebuild_result [OF assms(1) [unfolded mt_app_create_def]] assms(2,3) new rs_inv_new
    by (auto simp: app_inv_def same_groups_def simp del: map_map)
qed

definition app_init :: "('k, 's, 'x, 're) rs_deps \<Rightarrow> ('k, 's, 'x, 're) mt_app \<Rightarrow> bool" where
  "app_init D a \<longleftrightarrow> (\<exists>now cfg c pl w. mt_app_create D now cfg c pl w = Some (MT_OK, a) \<and> parr_ok (groups cfg) \<and>
    distinct (map group_id (items (groups cfg))))"

interpretation registry: invariant_system "app_init D" "app_step D" app_inv for D
  by unfold_locales (auto simp: app_init_def intro: app_create_inv app_step_inv)

lemma prepare_all_some:
  "\<forall>rs \<in> set rss. rs_inv rs \<Longrightarrow> prepare_all rss w \<noteq> None"
proof (induction rss arbitrary: w)
  case (Cons rs rss)
  have "mt_ruleset_prepare_iptables rs w \<noteq> None"
    using Cons.prems by (auto simp: mt_ruleset_prepare_iptables_def rs_inv_def split: prod.splits)
  then show ?case using Cons by (auto split: prod.splits)
qed simp

text \<open>
  C5.  The registry mirrors the configuration.  Whatever sequence of API operations, interface events, DNS
  additions and rebuilds runs (with any failures below), the rule sets of the groups are, in order, those of the groups of
  the configuration, the identifiers of the groups stay unique, the array of groups is never written past its end, every
  rule set has its sets and its link exactly when it and its group are enabled, and a rebuild of the netfilter tables
  never follows a null pointer.  The rule sets of the subscriptions are, in order, those of the configured subscriptions,
  unless the latest rebuild of them returned an error, and then there are none; so they are those of the configured
  subscriptions whenever a subscription was added or removed or all were replaced with success.
\<close>

theorem registry_mirrors_config:
  fixes a :: "('k, 's, 'x, 're) mt_app"
  assumes "reachable (app_init D) (app_step D) a"
  shows "map rs_group (ap_rulesets a) = items (groups (ap_cfg a)) \<and>
    distinct (map group_id (items (groups (ap_cfg a)))) \<and> mt_config_add_group g (ap_cfg a) \<noteq> None \<and>
    (\<forall>rs. rs \<in> set (ap_rulesets a) \<or> rs \<in> set (ap_subs a) \<longrightarrow>
       (rs_ipset rs \<noteq> None \<longleftrightarrow> rs_enabled rs \<and> group_enable (rs_group rs)) \<and>
       (rs_link rs \<noteq> None \<longleftrightarrow> rs_enabled rs \<and> group_enable (rs_group rs))) \<and>
    (if ap_rebuilt a = MT_OK
     then map (\<lambda>rs. Some (rs_group rs)) (ap_subs a) = map mt_sub_runtime_group (items (subscriptions (ap_cfg a)))
     else ap_subs a = []) \<and>
    (\<forall>now err a'. rebuild_subscription_rulesets D now a = Some (err, a') \<longrightarrow> ap_rebuilt a' = err) \<and>
    (\<forall>now s subs i a'. mt_app_add_subscription D now s a = Some (MT_OK, a') \<or>
        mt_app_replace_subscriptions D now subs a = Some (MT_OK, a') \<or>
        mt_app_remove_subscription_by_id D now i a = Some (MT_OK, True, a') \<longrightarrow>
      map (\<lambda>rs. Some (rs_group rs)) (ap_subs a') = map mt_sub_runtime_group (items (subscriptions (ap_cfg a')))) \<and>
    rebuild_netfilter_locked D current ntop raised1 raised2 a \<noteq> None"
proof -
  note app = registry.reachable_inv [OF assms]
  note inv = app [unfolded app_inv_def subs_mirror_def]
  have mirror: "map (\<lambda>rs. Some (rs_group rs)) (ap_subs a') = map mt_sub_runtime_group (items (subscriptions (ap_cfg a')))"
    if "app_inv a'" "ap_rebuilt a' = MT_OK" for a' :: "('k, 's, 'x, 're) mt_app"
    using that by (simp add: app_inv_def subs_mirror_def)
  have "map (\<lambda>rs. Some (rs_group rs)) (ap_subs a') = map mt_sub_runtime_group (items (subscriptions (ap_cfg a')))"
    if "mt_app_add_subscription D now s a = Some (MT_OK, a') \<or> mt_app_replace_subscriptions D now subs a = Some (MT_OK, a') \<or>
      mt_app_remove_subscription_by_id D now i a = Some (MT_OK, True, a')" for now s subs i a'
    using that inv_add_subscription [OF app, of D now s MT_OK a'] inv_replace_subscriptions [OF app, of D now subs MT_OK a']
      inv_remove_subscription [OF app, of D now i MT_OK True a'] by (intro mirror) auto
  moreover have "ap_rebuilt a' = err" if "rebuild_subscription_rulesets D now a = Some (err, a')" for now err a'
    using rebuild_result [OF that] by blast
  moreover have "mt_config_add_group g (ap_cfg a) \<noteq> None"
    using parr_add_ok [of "groups (ap_cfg a)" g] inv by (auto simp: mt_config_add_group_def)
  moreover have "(rs_ipset rs \<noteq> None \<longleftrightarrow> rs_enabled rs \<and> group_enable (rs_group rs)) \<and>
       (rs_link rs \<noteq> None \<longleftrightarrow> rs_enabled rs \<and> group_enable (rs_group rs))"
    if "rs \<in> set (ap_rulesets a) \<or> rs \<in> set (ap_subs a)" for rs
    using inv that by (auto simp: rs_inv_def configured_enabled_def split: if_splits)
  moreover have "prepare_all (ap_rulesets a @ ap_subs a) w \<noteq> None" for w :: "('k, 's, 'x) world"
    using inv by (intro prepare_all_some) auto
  then have "rebuild_netfilter_locked D current ntop raised1 raised2 a \<noteq> None"
    by (auto simp: rebuild_netfilter_locked_def Let_def split: prod.splits option.splits) (metis option.distinct(1))
  ultimately show ?thesis using inv by blast
qed

section \<open>Failed changes are undone\<close>

text \<open>
  C27.  A failed change of the registry leaves the configuration as it was: if \<^verbatim>\<open>mt_app_add_group\<close>,
  \<^verbatim>\<open>mt_app_add_subscription\<close>, \<^verbatim>\<open>mt_app_replace_subscriptions\<close> or \<^verbatim>\<open>mt_app_remove_subscription_by_id\<close> reports an
  error, the groups and the subscriptions of the configuration are what they were, in the same order (a removed
  subscription goes back to its place), whether or not the rule sets could be built again.  The handlers of
  \<^verbatim>\<open>groups.c\<close> that edit a group or its rules in place are not among these four, and do not undo a change.
\<close>

theorem failed_change_undone:
  assumes "reachable (app_init D) (app_step D) a" "err \<noteq> MT_OK"
    and "mt_app_add_group D now g a = Some (err, a') \<or> mt_app_add_subscription D now s a = Some (err, a') \<or>
      mt_app_replace_subscriptions D now subs a = Some (err, a') \<or> mt_app_remove_subscription_by_id D now i a = Some (err, found, a')"
  shows "items (groups (ap_cfg a')) = items (groups (ap_cfg a)) \<and>
    items (subscriptions (ap_cfg a')) = items (subscriptions (ap_cfg a))"
  using assms(2,3) inv_add_group [OF registry.reachable_inv [OF assms(1)], of D now g err a']
    inv_add_subscription [OF registry.reachable_inv [OF assms(1)], of D now s err a']
    inv_replace_subscriptions [OF registry.reachable_inv [OF assms(1)], of D now subs err a']
    inv_remove_subscription [OF registry.reachable_inv [OF assms(1)], of D now i err found a']
  by auto

section \<open>Downloads\<close>

text \<open>
  C24.  A download of one subscription changes the configuration completely or not at all.  When it reports an error, the
  configuration is what it was.  When it succeeds, exactly the subscription with the identifier has changed: it has the URL
  that was used and the time of the check, and, when the comparison finds a difference, the rules that the body gives,
  which are the entries of the body in order with the identity of the rules that stay, and the rule sets of the
  subscriptions are exactly those of the new configuration; without a difference its rules, the rule sets and the kernel
  are untouched; the caller learns whether the URL or the rules changed.  After an error the rule sets are those of the
  old configuration, unless the latest rebuild of them (that of the roll-back, or an earlier one when the download failed
  before any rebuild) returned an error: then there are none.
\<close>

theorem sync_subscription_exact:
  assumes "reachable (app_init D) (app_step D) a"
    and "mt_app_sync_subscription_by_id D C re now i now_unix url_override draws a = Some (err, changed, a')"
  shows "(err \<noteq> MT_OK \<longrightarrow> ap_cfg a' = ap_cfg a) \<and>
    (err = MT_OK \<longrightarrow> (\<exists>idx url body refreshed rc rest.
       idx < length (items (subscriptions (ap_cfg a))) \<and> sub_id (items (subscriptions (ap_cfg a)) ! idx) = i \<and>
       fetch_url_of url_override (items (subscriptions (ap_cfg a)) ! idx) = Some url \<and> mt_sub_fetch_list C url = Inr body \<and>
       refreshed_rules re body (items (subscriptions (ap_cfg a)) ! idx) draws = Some (refreshed, rc, rest) \<and>
       map sub_rule_rule (items refreshed) = map Some (entries (takeWhile (\<lambda>c. c \<noteq> CHR 0x00) body)) \<and>
       ap_cfg a' = put_sub idx (synced now_unix url refreshed rc (items (subscriptions (ap_cfg a)) ! idx)) (ap_cfg a) \<and>
       changed = (rc \<or> (case sub_url (items (subscriptions (ap_cfg a)) ! idx) of None \<Rightarrow> [] | Some u \<Rightarrow> u) \<noteq> url) \<and>
       (rc \<longrightarrow> map (\<lambda>rs. Some (rs_group rs)) (ap_subs a') = map mt_sub_runtime_group (items (subscriptions (ap_cfg a')))) \<and>
       (\<not> rc \<longrightarrow> ap_subs a' = ap_subs a \<and> ap_world a' = ap_world a))) \<and>
    (if ap_rebuilt a' = MT_OK
     then map (\<lambda>rs. Some (rs_group rs)) (ap_subs a') = map mt_sub_runtime_group (items (subscriptions (ap_cfg a')))
     else ap_subs a' = [])"
proof -
  have texts: "map sub_rule_rule (items refreshed) = map Some (entries (takeWhile (\<lambda>c. c \<noteq> CHR 0x00) body))"
    if "refreshed_rules re body s draws = Some (refreshed, rc, rest)" for body s refreshed rc rest
    using that refresh_texts by (auto simp: refreshed_rules_def Let_def)
  note inv = inv_sync_subscription [OF registry.reachable_inv [OF assms(1)] assms(2)]
  then have "subs_mirror a'" by (simp add: app_inv_def)
  then show ?thesis
    using inv texts unfolding subs_mirror_def by (cases "err = MT_OK"; simp) metis
qed

text \<open>
  A round over the subscriptions that are due is undone when it fails: if the subscriptions have different identifiers and the
  rule sets cannot be built with what was downloaded, all subscriptions have their old rules and times again, however many were
  changed.  A round that changed no rules touches neither the rule sets nor the kernel, and no round touches the groups.
\<close>

theorem sync_due_undone:
  assumes "reachable (app_init D) (app_step D) a" "distinct (sub_ids (ap_cfg a))"
    and "mt_app_sync_due_subscriptions D C re now now_unix draws a = Some (err, changed, a')"
  shows "(err \<noteq> MT_OK \<longrightarrow> ap_cfg a' = ap_cfg a) \<and> (\<not> changed \<longrightarrow> err = MT_OK \<and> ap_subs a' = ap_subs a \<and> ap_world a' = ap_world a) \<and>
    groups (ap_cfg a') = groups (ap_cfg a)"
  using inv_sync_due [OF registry.reachable_inv [OF assms(1)] assms(3)] assms(2) by blast

section \<open>A replaced array is too small\<close>

text \<open>
  C38.  Replacing the subscriptions and then adding one writes past the end of an array: the replacement allocates an
  array for exactly the new subscriptions, and the addition, which infers from their number whether the array has
  room, does not grow it, when they are one to seven, or more and their number is not a power of two.
\<close>

theorem replace_then_add_overruns:
  assumes "reachable (app_init D) (app_step D) a" "mt_app_replace_subscriptions D now subs a = Some (MT_OK, a')"
    and "subs \<noteq> []" "length subs < 8 \<or> length subs AND (length subs - 1) \<noteq> 0"
    and "sub_id s \<notin> set (map sub_id subs)"
  shows "mt_app_add_subscription D' now' s a' = None"
proof -
  have arr: "subscriptions (ap_cfg a') = \<lparr>items = subs, cap = length subs\<rparr>"
    using inv_replace_subscriptions [OF registry.reachable_inv [OF assms(1)] assms(2)] by simp
  have "\<not> (\<exists>s' \<in> set subs. sub_id s' = sub_id s)"
    using assms(5) by (metis image_eqI image_set)
  then show ?thesis
    using arr assms(3,4)
    by (auto simp: mt_app_add_subscription_def mt_config_add_subscription_def parr_add_def grow_array_def)
qed

section \<open>Instances\<close>

text \<open>An engine without base chains makes enabling fail; the program starts stopped and is then set running.\<close>

definition ex_app :: "mt_cache \<Rightarrow> (fake_set list, unit, unit, string) mt_app" where
  "ex_app c = \<lparr>ap_cfg = mt_config_init_defaults, ap_cache = c, ap_rulesets = [], ap_subs = [], ap_running = False,
     ap_remap = None, ap_pipeline = False, ap_published = None,
     ap_world = ex_world\<lparr>w_net := (w_net ex_world)\<lparr>nw_ipt4 := Some ([], ())\<rparr>\<rparr>, ap_rebuilt = MT_OK\<rparr>"

definition ex_sub :: mt_subscription where
  "ex_sub = mt_subscription_new\<lparr>sub_id := MtId 1 2 3 4, sub_iface := Some ''nwg0'', sub_enable := True\<rparr>"

lemma ex_app_reachable: "reachable (app_init (ex_deps literal_pcre2)) (app_step (ex_deps literal_pcre2)) (ex_app c)"
proof (rule reach_init)
  have "mt_app_create (ex_deps literal_pcre2) 0 mt_config_init_defaults c False (ap_world (ex_app c)) = Some (MT_OK, (ex_app c))"
    by (simp add: mt_app_create_def rebuild_subscription_rulesets_def free_subscription_rulesets_def mt_config_init_defaults_def
        parr_null_def ex_app_def)
  then show "app_init (ex_deps literal_pcre2) (ex_app c)"
    by (auto simp: app_init_def mt_config_init_defaults_def intro!: exI) (simp_all add: parr_null_def)
qed

lemma ex_running_reachable: "reachable (app_init (ex_deps literal_pcre2)) (app_step (ex_deps literal_pcre2)) ((ex_app c)\<lparr>ap_running := True\<rparr>)"
  by (rule reach_step [OF ex_app_reachable]) (rule app_step.intros)

lemma ex_adds:
  "map_option fst (mt_app_add_group (ex_deps literal_pcre2) 0 ex_on_group (ex_app c)) = Some MT_OK"
  "map_option fst (mt_app_add_group (ex_deps literal_pcre2) 0 ex_on_group ((ex_app c)\<lparr>ap_running := True\<rparr>)) = Some MT_ERR_STATE"
  "map_option fst (mt_app_replace_subscriptions (ex_deps literal_pcre2) 0 [ex_sub] (ex_app c)) = Some MT_OK"
  by code_simp+

theorem registry_mirrors_config_witness:
  "\<exists>a. mt_app_add_group (ex_deps literal_pcre2) 0 ex_on_group (ex_app ex_cache) = Some (MT_OK, a) \<and>
    map rs_group (ap_rulesets a) = items (groups (ap_cfg a)) \<and>
    rebuild_netfilter_locked (ex_deps literal_pcre2) (\<lambda>x. Inr []) (\<lambda>b. ''1.2.3.4'') False False a \<noteq> None"
proof -
  obtain a where a: "mt_app_add_group (ex_deps literal_pcre2) 0 ex_on_group (ex_app ex_cache) = Some (MT_OK, a)"
    using ex_adds(1) by auto
  have "reachable (app_init (ex_deps literal_pcre2)) (app_step (ex_deps literal_pcre2)) a"
    by (rule reach_step [OF ex_app_reachable]) (rule app_step.intros(1) [OF a])
  from registry_mirrors_config [OF this] a show ?thesis by blast
qed

theorem failed_change_undone_witness:
  "\<exists>a. mt_app_add_group (ex_deps literal_pcre2) 0 ex_on_group ((ex_app ex_cache)\<lparr>ap_running := True\<rparr>) = Some (MT_ERR_STATE, a) \<and>
    items (groups (ap_cfg a)) = []"
proof -
  obtain a where a: "mt_app_add_group (ex_deps literal_pcre2) 0 ex_on_group ((ex_app ex_cache)\<lparr>ap_running := True\<rparr>) = Some (MT_ERR_STATE, a)"
    using ex_adds(2) by auto
  then have "items (groups (ap_cfg a)) = items (groups (ap_cfg ((ex_app ex_cache)\<lparr>ap_running := True\<rparr>)))"
    by (intro conjunct1 [OF failed_change_undone [OF ex_running_reachable]] disjI1) simp_all
  then show ?thesis
    using a by (simp add: ex_app_def mt_config_init_defaults_def parr_null_def)
qed

theorem replace_then_add_overruns_witness:
  "\<exists>a. mt_app_replace_subscriptions (ex_deps literal_pcre2) 0 [ex_sub] (ex_app ex_cache) = Some (MT_OK, a) \<and>
    mt_app_add_subscription (ex_deps literal_pcre2) 0 mt_subscription_new a = None"
proof -
  obtain a where a: "mt_app_replace_subscriptions (ex_deps literal_pcre2) 0 [ex_sub] (ex_app ex_cache) = Some (MT_OK, a)"
    using ex_adds(3) by auto
  have "sub_id mt_subscription_new \<notin> set (map sub_id [ex_sub])"
    by code_simp
  then show ?thesis
    using a replace_then_add_overruns [OF ex_app_reachable a] by simp
qed

text \<open>A program with one subscription, stopped and running; running, its rule sets cannot be enabled.\<close>

definition ex_due_sub :: mt_subscription where
  "ex_due_sub = ex_sub\<lparr>sub_url := Some ''http://b'', sub_interval := 60\<rparr>"

definition ex_sub_app :: "mt_cache \<Rightarrow> (fake_set list, unit, unit, string) mt_app" where
  "ex_sub_app c = (ex_app c)\<lparr>ap_cfg := mt_config_init_defaults\<lparr>subscriptions := \<lparr>items = [ex_due_sub], cap = 1\<rparr>\<rparr>,
     ap_subs := [mt_ruleset_new (the (mt_sub_runtime_group ex_due_sub))]\<rparr>"

lemma ex_sub_app_reachable:
  "reachable (app_init (ex_deps literal_pcre2)) (app_step (ex_deps literal_pcre2)) (ex_sub_app c)"
proof -
  have "mt_sub_runtime_group ex_due_sub \<noteq> None" by code_simp
  then have "mt_app_replace_subscriptions (ex_deps literal_pcre2) 0 [ex_due_sub] (ex_app c) = Some (MT_OK, ex_sub_app c)"
    by (auto simp: mt_app_replace_subscriptions_def rebuild_subscription_rulesets_def free_subscription_rulesets_def
        mt_app_republish_dns_snapshot_def ex_app_def ex_sub_app_def Let_def)
  then show ?thesis by (rule reach_step [OF ex_app_reachable app_step.intros(5)])
qed

lemma ex_sub_app_running:
  "reachable (app_init (ex_deps literal_pcre2)) (app_step (ex_deps literal_pcre2)) ((ex_sub_app c)\<lparr>ap_running := True\<rparr>)"
  by (rule reach_step [OF ex_sub_app_reachable]) (rule app_step.intros)

definition ex_refreshed :: "mt_sub_rule parr" where
  "ex_refreshed = fst (the (refreshed_rules ex_no_star ''x.com,y'' ex_due_sub ex_draws))"

lemma ex_refreshed: "refreshed_rules ex_no_star ''x.com,y'' ex_due_sub ex_draws = Some (ex_refreshed, True, drop 2 ex_draws)"
  by code_simp

lemma ex_find: "find_subscription_mut (ap_cfg (ex_sub_app c)) (MtId 1 2 3 4) = Some 0"
  by (simp add: find_subscription_mut_def ex_sub_app_def ex_due_sub_def ex_sub_def)

lemma ex_sub_nth: "items (subscriptions (ap_cfg (ex_sub_app c))) ! 0 = ex_due_sub" "sub_url ex_due_sub = Some ''http://b''"
  by (simp_all add: ex_sub_app_def ex_due_sub_def)

lemma ex_sync:
  "map_option fst (mt_app_sync_subscription_by_id (ex_deps literal_pcre2) ex_curl ex_no_star 0 (MtId 1 2 3 4) 7 None ex_draws (ex_sub_app c))
    = Some MT_OK"
proof -
  have "map_option fst (commit_refreshed (ex_deps literal_pcre2) 0 7 0 ''http://b'' ex_refreshed True (ex_sub_app c)) = Some MT_OK"
    by code_simp
  then show ?thesis
    by (simp add: mt_app_sync_subscription_by_id_def ex_find ex_sub_nth fetch_url_of_def ex_fetch ex_refreshed)
qed

theorem sync_subscription_exact_witness:
  "\<exists>changed a url refreshed rc.
    mt_app_sync_subscription_by_id (ex_deps literal_pcre2) ex_curl ex_no_star 0 (MtId 1 2 3 4) 7 None ex_draws (ex_sub_app ex_cache)
      = Some (MT_OK, changed, a) \<and>
    ap_cfg a = put_sub 0 (synced 7 url refreshed rc ex_due_sub) (ap_cfg (ex_sub_app ex_cache))"
proof -
  obtain changed a where a: "mt_app_sync_subscription_by_id (ex_deps literal_pcre2) ex_curl ex_no_star 0 (MtId 1 2 3 4) 7 None ex_draws
      (ex_sub_app ex_cache) = Some (MT_OK, changed, a)"
    using ex_sync [of ex_cache] by auto
  obtain idx url refreshed rc where "idx < length (items (subscriptions (ap_cfg (ex_sub_app ex_cache))))"
    "ap_cfg a = put_sub idx (synced 7 url refreshed rc (items (subscriptions (ap_cfg (ex_sub_app ex_cache))) ! idx)) (ap_cfg (ex_sub_app ex_cache))"
    using sync_subscription_exact [OF ex_sub_app_reachable a] by blast
  then have "ap_cfg a = put_sub 0 (synced 7 url refreshed rc ex_due_sub) (ap_cfg (ex_sub_app ex_cache))"
    using ex_sub_nth by (simp add: ex_sub_app_def)
  then show ?thesis using a by blast
qed

lemma ex_due_fails:
  "map_option fst (mt_app_sync_due_subscriptions (ex_deps literal_pcre2) ex_curl ex_no_star 0 7 ex_draws ((ex_sub_app c)\<lparr>ap_running := True\<rparr>))
    = Some MT_ERR_STATE"
proof -
  define cfg where "cfg = ap_cfg (ex_sub_app c)"
  have due: "filter (\<lambda>s. mt_sub_is_due (Some s) 7) [ex_due_sub] = [ex_due_sub]" by code_simp
  have "sub_id ex_due_sub = MtId 1 2 3 4" by code_simp
  then have plans: "make_plans ex_curl ex_no_star cfg [sub_id ex_due_sub] ex_draws = Some ([(MtId 1 2 3 4, ex_refreshed, True)], drop 2 ex_draws)"
    by (simp add: plan_for_def cfg_def ex_find ex_sub_nth ex_fetch ex_refreshed)
  have subs: "items (subscriptions cfg) = [ex_due_sub]" by (simp add: cfg_def ex_sub_app_def)
  have "map_option fst (case apply_plans 7 [(MtId 1 2 3 4, ex_refreshed, True)] cfg of (cfg, rollback, any_changed) \<Rightarrow>
      if \<not> any_changed then Some (MT_OK, False, (ex_sub_app c)\<lparr>ap_running := True, ap_cfg := cfg\<rparr>)
      else case rebuild_subscription_rulesets (ex_deps literal_pcre2) 0 ((ex_sub_app c)\<lparr>ap_running := True, ap_cfg := cfg\<rparr>) of
             None \<Rightarrow> None
           | Some (err, a') \<Rightarrow>
               if err \<noteq> MT_OK then map_option (\<lambda>(err, a). (err, True, a)) (roll_back (ex_deps literal_pcre2) 0 err (restore_plans rollback cfg) a')
               else map_option (\<lambda>a. (MT_OK, True, a)) (mt_app_republish_dns_snapshot (ex_deps literal_pcre2) a')) = Some MT_ERR_STATE"
    unfolding cfg_def by code_simp
  then show ?thesis
    using due plans subs by (simp add: mt_app_sync_due_subscriptions_def Let_def cfg_def [symmetric])
qed

theorem sync_due_undone_witness:
  "\<exists>changed a. mt_app_sync_due_subscriptions (ex_deps literal_pcre2) ex_curl ex_no_star 0 7 ex_draws ((ex_sub_app ex_cache)\<lparr>ap_running := True\<rparr>)
      = Some (MT_ERR_STATE, changed, a) \<and> ap_cfg a = ap_cfg (ex_sub_app ex_cache)"
proof -
  obtain changed a where a: "mt_app_sync_due_subscriptions (ex_deps literal_pcre2) ex_curl ex_no_star 0 7 ex_draws
      ((ex_sub_app ex_cache)\<lparr>ap_running := True\<rparr>) = Some (MT_ERR_STATE, changed, a)"
    using ex_due_fails [of ex_cache] by auto
  have "distinct (sub_ids (ap_cfg ((ex_sub_app ex_cache)\<lparr>ap_running := True\<rparr>)))"
    by (simp add: sub_ids_def ex_sub_app_def)
  from sync_due_undone [OF ex_sub_app_running this a] a show ?thesis by (intro exI [of _ changed] exI [of _ a]) simp
qed

end
