(* ===== verification/Spec2Isabelle.thy ===== *)
theory Spec2Isabelle
  imports Pipeline Dns_Proxy Duration Ruleset_Sync Netfilter_Chains Queue_Bounded Committer Api_Server App
begin

text \<open>
  A model of the C backend of MagiTrickle, \<^verbatim>\<open>src/src/backend-c\<close>.  The program is a DNS proxy for a router that sends the
  traffic of chosen domains through a chosen interface.  Paths below are relative to \<^verbatim>\<open>src/src/backend-c\<close>.

  \<^bold>\<open>How the parts work together.\<close>  A DNS response that passes the proxy (\<^verbatim>\<open>src/dns/proxy.c\<close>) is parsed (\<^verbatim>\<open>wire.c\<close>) and handed to the
  pipeline (\<^verbatim>\<open>src/dns/pipeline.c\<close>).  The pipeline stores every address and every alias in the records cache
  (\<^verbatim>\<open>src/dns_cache/cache.c\<close>) and asks the snapshot of the rules (\<^verbatim>\<open>src/rules/snapshot.c\<close>, built from the matchers of
  \<^verbatim>\<open>src/rules/match.c\<close> and \<^verbatim>\<open>wildcard.c\<close>) which groups want the address; each of them gets an action, which goes through a bounded
  queue (\<^verbatim>\<open>src/util/queue.c\<close>) to the rule set of the group (\<^verbatim>\<open>src/netfilter/ruleset.c\<close>).  A rule set owns a pair of kernel sets
  (\<^verbatim>\<open>ipset.c\<close>) and a link that connects them to an interface (\<^verbatim>\<open>ipset_to_link.c\<close>) with packet marks, chains of iptables,
  routes and policy rules (\<^verbatim>\<open>src/netlink/rtnl.c\<close>).  Chains are staged in an engine (\<^verbatim>\<open>src/iptables/engine.c\<close>) that compares them
  with what iptables-save prints and writes a transcript for iptables-restore; the committer thread
  (\<^verbatim>\<open>src/netfilter/committer.c\<close>) decides when.  The registry (\<^verbatim>\<open>src/api/app.c\<close>) keeps one rule set per group and per subscription of the
  configuration (\<^verbatim>\<open>src/config/models.c\<close>), changes both together, and downloads subscriptions (\<^verbatim>\<open>src/subscriptions/\<close>).  Requests to its API come
  through the HTTP server (\<^verbatim>\<open>src/api/httpd.c\<close>) and pass the gate of \<^verbatim>\<open>src/api/auth.c\<close>, which rests on \<^verbatim>\<open>src/crypto/\<close>; other paths are files of
  the user interface (\<^verbatim>\<open>staticfiles.c\<close>).

  \<^bold>\<open>Which theory models what, and what it shows.\<close>

  \<^item> \<open>Prelude\<close>: machine integers, error codes (\<^verbatim>\<open>src/util/err.c\<close>), FNV-1a, lists; the interface \<open>rule_index\<close> of an index of rules and
    \<open>invariant_system\<close>, the principle by which an invariant holds in all reachable states of a step relation.
  \<^item> \<open>C_Text\<close>: the functions of the C library on text that the sources use.
  \<^item> \<open>Wildcard\<close>, \<open>Exact_Set\<close>, \<open>Ns_Trie\<close>, \<open>Matcher\<close>: \<^verbatim>\<open>wildcard.c\<close> and \<^verbatim>\<open>match.c\<close>.  The backtracking loop ends and agrees with
    the meaning of a pattern; the hash set and the trie are indexes of exact names and of namespaces; the index of a group matches exactly what
    one of its rules alone matches, except that a namespace rule with a leading dot is taken without it; the theorem states that case.
  \<^item> \<open>Models\<close>: identifiers, configuration, subscription runtime groups (\<^verbatim>\<open>id.c\<close>, \<^verbatim>\<open>models.c\<close>, \<^verbatim>\<open>runtime.c\<close>).  Additions and
    removals keep the arrays within their allocation; the exact condition is given under which an array that was installed with exactly its number
    of elements (by a replacement of the subscriptions or of the rules of a group) is overrun by the next addition.
  \<^item> \<open>Duration\<close>: \<^verbatim>\<open>duration.c\<close>.  What is printed is read back exactly, through the floating point of the fraction.
  \<^item> \<open>Snapshot\<close>: \<^verbatim>\<open>snapshot.c\<close>.  One entry per enabled group and active subscription, in order, matching what its enabled rules
    match in the index.
  \<^item> \<open>Chained\<close>, \<open>Dns_Cache\<close>: the chained hash tables (interfaces \<open>assoc_table\<close> and \<open>chained_table\<close>) and \<^verbatim>\<open>cache.c\<close>.  Lookups along aliases in
    both directions are exact, also on cycles; cleaning changes no answer; the cache stays within its bound.
  \<^item> \<open>Wire\<close>: \<^verbatim>\<open>wire.c\<close>.  Every read and write of memory is checked in the model; parsing is safe on any bytes, and inverts packing.
  \<^item> \<open>Dns_Proxy\<close>: \<^verbatim>\<open>proxy.c\<close>, one function per callback of the event loop, and a step relation over all exchanges that go on.  Slots and
    descriptors are accounted for in every reachable state, and an answer over UDP is what the upstream server said, or that without IPv6 addresses.
  \<^item> \<open>Pipeline\<close>: \<^verbatim>\<open>pipeline.c\<close> on top of cache, wire format and snapshot.  The actions an answer produces are exactly those the rules ask for.
  \<^item> \<open>Bytebuf\<close>, \<open>Ipt_Chain\<close>, \<open>Ipt_Engine\<close>, \<open>Ipt_Fake\<close>: \<^verbatim>\<open>bytebuf.c\<close>, \<^verbatim>\<open>src/iptables/\<close> and the in-memory backend of the repository's tests.  The engine is
    written against the interface \<open>restore_backend\<close>; interpreted on the in-memory backend, a commit brings each staged chain to what its kind
    promises, leaves the others alone, and writes nothing a second time.
  \<^item> \<open>Ipset\<close>, \<open>Ruleset_Sync\<close>: \<^verbatim>\<open>ipset.c\<close>, and the synchronisation in \<^verbatim>\<open>ruleset.c\<close> against the interface \<open>ipset_store\<close>, interpreted on the
    in-memory transport of the tests and on one that lists hosts the way \<^verbatim>\<open>ipset_nl_real.c\<close> does.  The networks a group wants are computed
    exactly, and what a synchronisation leaves of each entry is given exactly for both.
  \<^item> \<open>Rtnl\<close>, \<open>Ipset_To_Link\<close>, \<open>Netfilter_Chains\<close>: \<^verbatim>\<open>nlattr_iter.c\<close>, \<^verbatim>\<open>rtnl.c\<close>, \<^verbatim>\<open>ipset_to_link.c\<close>, \<^verbatim>\<open>port_remap.c\<close>, \<^verbatim>\<open>cleaner.c\<close>.  What
    a link leaves in the kernel is accounted for, whatever the kernel answers; against the in-memory backend the chains are written as meant and the
    cleaner removes the chains with the prefix and the rules that mention a jump to one.
  \<^item> \<open>Ruleset\<close>, \<open>App\<close>: the life of a rule set and the registry, as step relations in which the API edits the rules of a
    group at any time and its other fields while its rule set is off.  No null pointer is followed; the registry mirrors the
    configuration, the rule sets of the subscriptions unless their latest rebuild failed; operations of \<^verbatim>\<open>app.c\<close> and downloads that fail are undone.
    The field \<open>ap_rebuilt\<close> records what the latest rebuild returned; no operation reads it.
  \<^item> \<open>Subparse\<close>, \<open>Sub_Fetch\<close>: \<^verbatim>\<open>subparse.c\<close> and \<^verbatim>\<open>fetch.c\<close>.  Rules that stay in a list keep their identity (for lists without a prefix
    length that overflows an \<^verbatim>\<open>int\<close>); the comparison of lists is exact; a download ends within its limits.
  \<^item> \<open>Queue_Bounded\<close>, \<open>Committer\<close>: \<^verbatim>\<open>queue.c\<close> as a refinement of a list (interface \<open>bounded_fifo\<close>); \<^verbatim>\<open>committer.c\<close> and \<^verbatim>\<open>cancel.c\<close> with one step
    per critical section, so that all interleavings with the callers are covered.
  \<^item> \<open>Hash_Core\<close>, \<open>Hashes\<close>, \<open>Base64\<close>, \<open>Crypt\<close>, \<open>Auth\<close>: \<^verbatim>\<open>src/crypto/\<close> and \<^verbatim>\<open>auth.c\<close>.  The buffering of the hash functions (interface
    \<open>md_hash\<close>, interpreted three times) computes the padded message; encodings invert; hashes of passwords verify themselves; only signed
    and unexpired tokens pass the gate, and the token of a login does.
  \<^item> \<open>Httpd\<close>, \<open>Api_Server\<close>: \<^verbatim>\<open>httpd.c\<close>, the gate and the handlers of \<^verbatim>\<open>auth.c\<close>, \<^verbatim>\<open>staticfiles.c\<close>.  However the network cuts a request, it is read the
    same and within its buffer; the number of connections is bounded; from any bytes, no handler of the API runs without a token, and no file
    outside the directory of the skin is opened.

  \<^bold>\<open>Conventions.\<close>  A \<^verbatim>\<open>struct\<close> is a record, an \<^verbatim>\<open>enum\<close> a datatype, a function returns its result and the changed state; integers whose
    width matters are words, others natural numbers or integers with the bound shown.  Memory that a claim is about is explicit: reads and writes outside a
    buffer, an array that is not large enough, and following a null pointer are results of the model (\<open>None\<close>, or a constructor of
    their own), and the theorems exclude or exhibit them.  An allocation succeeds.  Strings are lists of characters without the
    terminator; destructors, logging and statistics for the log are left out.

  \<^bold>\<open>Bounds and fuel.\<close>  Loops are recursive functions with a termination proof.  Two need more: the walk over compressed names in
    \<open>Wire\<close> and the searches for aliases in \<open>Dns_Cache\<close> carry the counters that the code itself has (32 jumps, 64 steps, the visited
    names), which end them.  The only loop that the program does not bound is the choice of a random identifier in \<open>Subparse\<close>: it takes
    the identifiers drawn as a list, and returns if they contain twice as many different ones as there are entries.  The error documents of \<open>Httpd\<close> and their printer call
    each other without a bound; the model takes the number of calls as fuel.

  \<^bold>\<open>Parameters.\<close>  Code outside the repository is an argument of the definitions: PCRE2, cJSON, libcurl, \<^verbatim>\<open>inet_pton\<close> and \<^verbatim>\<open>inet_ntop\<close>, the answers of
    the kernel to netlink requests, the clock, files and random bytes, the byte order of the host, and the programs behind the backend
    of the engine.  Where a theorem needs something of them, it is a hypothesis, and its witness
    instantiates it: of cJSON, that an object of plain strings and of integers that a double holds is read back as it was printed.  Type \<^verbatim>\<open>long\<close> has 64 bits.  Locks are not modelled where one thread holds them throughout an operation; the
    committer is where interleavings matter.

  \<^bold>\<open>Not modelled.\<close>  The event loop, the watcher of netlink, the drivers of iptables and ipset, logging and the start of the program are input
    and output around the parts above; of the proxy and the HTTP server, what the kernel answers is an argument.  The handlers of the API and the
    YAML configuration walk over documents of cJSON and libyaml; the operations they call are modelled.  The manifest lists these parts one by one.

  \<^bold>\<open>What does not hold.\<close>  Three theorems show defects: replacing subscriptions leaves an array too small for the next
    addition (\<open>App\<close>, and for the rules of a group \<open>Models\<close>), a long secret file overruns an array (\<open>Auth\<close>), and so do the headers of a long response (\<open>Httpd\<close>).  Lemmas show
    others: a stop of the committer can lose its signal (\<open>Committer\<close>), idle connections keep all slots of the proxy (\<open>Dns_Proxy\<close>),
    an undefined negation (\<open>Duration\<close>), a prefix length that overflows (\<open>Subparse\<close>) and smaller ones in \<open>Wildcard\<close> and
    \<open>Httpd\<close>; the exact statements of \<open>Matcher\<close> and \<open>Ruleset_Sync\<close> contain the cases where the code departs from what it means to do.
\<close>

end
